(* ===== verification/Prelude.thy ===== *)
theory Prelude
  imports Main "HOL-Library.Word" "HOL-Library.Multiset" "HOL-Library.Monad_Syntax"
begin

unbundle bit_operations_syntax

section \<open>Prelude: pointers, stores, arrays and C integers\<close>

text \<open>
  The shared vocabulary of the development.  A C pointer is \<open>Null\<close>, the address of an
  object, or \<open>Wild\<close> (a value that was never initialised).  Objects of one struct type live
  in a store, a partial map from addresses; an address outside the store is freed or never
  allocated memory.  The functions that touch memory return an option: \<open>None\<close> is
  undefined behaviour (a null, wild or dangling dereference, an array access out of bounds),
  and the error codes of the program are ordinary results under \<open>Some\<close>.
\<close>

named_theorems store_simps \<open>rules that evaluate reads and writes of stores and arrays\<close>

subsection \<open>Pointers and stores\<close>

datatype ptr = Null | Ptr nat | Wild

type_synonym 'a store = "nat \<rightharpoonup> 'a"

fun deref :: "'a store \<Rightarrow> ptr \<Rightarrow> 'a option" where
  "deref h (Ptr a) = h a"
| "deref h Null = None"
| "deref h Wild = None"

fun assign :: "'a store \<Rightarrow> ptr \<Rightarrow> ('a \<Rightarrow> 'a) \<Rightarrow> 'a store option" where
  "assign h (Ptr a) f = (case h a of None \<Rightarrow> None | Some x \<Rightarrow> Some (h(a \<mapsto> f x)))"
| "assign h Null f = None"
| "assign h Wild f = None"

fun dispose :: "'a store \<Rightarrow> ptr \<Rightarrow> 'a store option" where
  "dispose h Null = Some h"
| "dispose h (Ptr a) = (case h a of None \<Rightarrow> None | Some x \<Rightarrow> Some (h(a := None)))"
| "dispose h Wild = None"

definition valid :: "'a store \<Rightarrow> ptr \<Rightarrow> bool" where
  "valid h p \<longleftrightarrow> deref h p \<noteq> None"

lemma deref_Some_iff [store_simps]: "deref h p = Some x \<longleftrightarrow> (\<exists>a. p = Ptr a \<and> h a = Some x)"
  by (cases p) auto

lemma assign_valid: "deref h p = Some x \<Longrightarrow> \<exists>h'. assign h p f = Some h'"
  by (cases p) auto

lemma deref_assign:
  "assign h p f = Some h' \<Longrightarrow>
   deref h' q = (if q = p then map_option f (deref h q) else deref h q)"
  by (cases p; cases q) (auto split: option.splits if_splits)

lemma assign_Some_valid: "assign h p f = Some h' \<Longrightarrow> \<exists>x. deref h p = Some x"
  by (cases p) (auto split: option.splits)

lemma valid_assign: "assign h p f = Some h' \<Longrightarrow> valid h' q = valid h q"
  by (auto simp: valid_def deref_assign split: if_splits)

subsection \<open>Null-terminated chains\<close>

text \<open>
  \<open>chain nx p as\<close>: following the links \<open>nx\<close> from \<open>p\<close> visits exactly the
  addresses \<open>as\<close> and ends in the null pointer.  A link of an address outside the store is
  \<open>None\<close>.
\<close>

fun chain :: "(nat \<Rightarrow> ptr option) \<Rightarrow> ptr \<Rightarrow> nat list \<Rightarrow> bool" where
  "chain nx p [] \<longleftrightarrow> p = Null"
| "chain nx p (a # as) \<longleftrightarrow> p = Ptr a \<and> (\<exists>q. nx a = Some q \<and> chain nx q as)"

lemma chain_Null [simp]: "chain nx Null as \<longleftrightarrow> as = []"
  by (cases as) auto

lemma chain_Ptr: "chain nx (Ptr a) as \<longleftrightarrow> (\<exists>q bs. as = a # bs \<and> nx a = Some q \<and> chain nx q bs)"
  by (cases as) auto

lemma chain_unique: "chain nx p as \<Longrightarrow> chain nx p bs \<Longrightarrow> as = bs"
proof (induction as arbitrary: p bs)
  case Nil
  then show ?case by simp
next
  case (Cons a as)
  then show ?case by (auto simp: chain_Ptr)
qed

lemma chain_cong: "(\<And>a. a \<in> set as \<Longrightarrow> nx a = nx' a) \<Longrightarrow> chain nx p as = chain nx' p as"
  by (induction as arbitrary: p) auto

lemma chain_suffix: "chain nx p (as @ bs) \<Longrightarrow> \<exists>q. chain nx q bs"
  by (induction as arbitrary: p) auto

lemma chain_distinct: "chain nx p as \<Longrightarrow> distinct as"
proof (induction as arbitrary: p)
  case Nil
  then show ?case by simp
next
  case (Cons a as)
  then obtain q where q: "nx a = Some q" "chain nx q as" by auto
  have "a \<notin> set as"
  proof
    assume "a \<in> set as"
    then obtain us vs where as: "as = us @ a # vs" by (auto simp: in_set_conv_decomp)
    with q(2) obtain r where "chain nx r (a # vs)" using chain_suffix by blast
    then have "chain nx q vs" using q(1) by auto
    with q(2) have "as = vs" by (rule chain_unique)
    with as show False by simp
  qed
  with Cons.IH [OF q(2)] show ?case by simp
qed

lemma chain_in_dom: "chain nx p as \<Longrightarrow> a \<in> set as \<Longrightarrow> nx a \<noteq> None"
  by (induction as arbitrary: p) auto

subsection \<open>Arrays\<close>

definition nth_opt :: "'a list \<Rightarrow> nat \<Rightarrow> 'a option" where
  "nth_opt xs i = (if i < length xs then Some (xs ! i) else None)"

definition set_opt :: "'a list \<Rightarrow> nat \<Rightarrow> 'a \<Rightarrow> 'a list option" where
  "set_opt xs i x = (if i < length xs then Some (xs[i := x]) else None)"

lemma nth_opt_in [simp]: "i < length xs \<Longrightarrow> nth_opt xs i = Some (xs ! i)"
  by (simp add: nth_opt_def)

lemma set_opt_in [simp]: "i < length xs \<Longrightarrow> set_opt xs i x = Some (xs[i := x])"
  by (simp add: set_opt_def)

lemma nth_opt_Some [store_simps]: "nth_opt xs i = Some x \<longleftrightarrow> i < length xs \<and> xs ! i = x"
  by (simp add: nth_opt_def)

lemma set_opt_Some [store_simps]: "set_opt xs i x = Some ys \<longleftrightarrow> i < length xs \<and> ys = xs[i := x]"
  by (auto simp: set_opt_def)

text \<open>\<open>memcpy\<close> into a block at an offset.\<close>

definition mem_write :: "'b list \<Rightarrow> nat \<Rightarrow> 'b list \<Rightarrow> 'b list option" where
  "mem_write m off bs = (if off + length bs \<le> length m
     then Some (take off m @ bs @ drop (off + length bs) m) else None)"

lemma mem_write_room: "off + length bs \<le> length m \<Longrightarrow>
  mem_write m off bs = Some (take off m @ bs @ drop (off + length bs) m)"
  by (simp add: mem_write_def)

lemma distinct_minus_notin: "distinct xs \<Longrightarrow> x \<notin># mset xs - {#x#}"
  by (auto simp: distinct_count_atmost_1 simp flip: count_greater_zero_iff)

lemma distinct_msubset: "distinct xs \<Longrightarrow> set xs \<subseteq> set_mset M \<Longrightarrow> mset xs \<subseteq># M"
  by (auto simp: subseteq_mset_def distinct_count_atmost_1 Suc_le_eq)

lemma sorted_rev_map_cong:
  assumes "\<And>a b. a \<in> set xs \<Longrightarrow> b \<in> set xs \<Longrightarrow> f a \<le> f b \<longleftrightarrow> g a \<le> g b"
  shows "sorted (rev (map f xs)) = sorted (rev (map g xs))"
  using assms by (induction xs) (auto simp: sorted_append)

subsection \<open>Guards in the option monad\<close>

definition must :: "bool \<Rightarrow> unit option" where
  "must b = (if b then Some () else None)"

lemma must_simps [simp]: "must True = Some ()" "must False = None"
  by (simp_all add: must_def)

lemma must_Some [store_simps]: "must b = Some u \<longleftrightarrow> b"
  by (simp add: must_def)

subsection \<open>Results with an error exit\<close>

text \<open>
  A call returns (\<open>Ret\<close>), leaves through an error exit (\<open>Raise\<close>: a Lua error, a call of
  \<open>exit\<close>), or is undefined (\<open>Fault\<close>).
\<close>

datatype 'a lres = Ret 'a | Raise | Fault

fun lbind :: "'a lres \<Rightarrow> ('a \<Rightarrow> 'b lres) \<Rightarrow> 'b lres" where
  "lbind (Ret x) f = f x"
| "lbind Raise f = Raise"
| "lbind Fault f = Fault"

definition fetch :: "'a option \<Rightarrow> ('a \<Rightarrow> 'b lres) \<Rightarrow> 'b lres" where
  "fetch x f = (case x of None \<Rightarrow> Fault | Some y \<Rightarrow> f y)"

lemma lbind_eq_Ret: "lbind m f = Ret y \<longleftrightarrow> (\<exists>x. m = Ret x \<and> f x = Ret y)"
  by (cases m) auto

lemma lbind_assoc: "lbind (lbind m f) g = lbind m (\<lambda>x. lbind (f x) g)"
  by (cases m) simp_all

lemma lbind_Ret [simp]: "lbind m Ret = m"
  by (cases m) simp_all

lemma fetch_simps [simp]: "fetch (Some x) f = f x" "fetch None f = Fault"
  by (simp_all add: fetch_def)

lemma fetch_eq_Ret: "fetch m f = Ret y \<longleftrightarrow> (\<exists>x. m = Some x \<and> f x = Ret y)"
  by (cases m) auto

text \<open>
  \<open>leaves g y m\<close>: when \<open>m\<close> returns, the part \<open>g\<close> of its result is \<open>y\<close>.  The rules in \<open>leaves\<close>
  decompose a program along its control flow.
\<close>

named_theorems leaves

definition leaves :: "('a \<Rightarrow> 'b) \<Rightarrow> 'b \<Rightarrow> 'a lres \<Rightarrow> bool" where
  "leaves g y m \<longleftrightarrow> (\<forall>x. m = Ret x \<longrightarrow> g x = y)"

lemma leavesD: "leaves g y m \<Longrightarrow> m = Ret x \<Longrightarrow> g x = y"
  by (simp add: leaves_def)

lemma leaves_simps [simp]: "leaves g y (Ret x) \<longleftrightarrow> g x = y" "leaves g y Raise" "leaves g y Fault"
  by (simp_all add: leaves_def)

lemma leaves_bind: "leaves h y m \<Longrightarrow> (\<And>x. h x = y \<Longrightarrow> leaves g y (f x)) \<Longrightarrow> leaves g y (lbind m f)"
  by (auto simp: leaves_def lbind_eq_Ret)

lemma leaves_fetch [leaves]: "(\<And>x. m = Some x \<Longrightarrow> leaves g y (f x)) \<Longrightarrow> leaves g y (fetch m f)"
  by (auto simp: leaves_def fetch_eq_Ret)

lemma leaves_if [leaves]: "(b \<Longrightarrow> leaves g y m) \<Longrightarrow> (\<not> b \<Longrightarrow> leaves g y n) \<Longrightarrow> leaves g y (if b then m else n)"
  by simp

lemma leaves_pair [leaves]: "(\<And>a b. x = (a, b) \<Longrightarrow> leaves g y (f a b)) \<Longrightarrow> leaves g y (case x of (a, b) \<Rightarrow> f a b)"
  by (cases x) simp

subsection \<open>Unsigned 32-bit arithmetic on naturals\<close>

definition u32 :: "nat \<Rightarrow> nat" where
  "u32 n = n mod 2 ^ 32"

definition u32_sub :: "nat \<Rightarrow> nat \<Rightarrow> nat" where
  "u32_sub a b = u32 (a + 2 ^ 32 - b)"

definition uint_max :: nat where
  "uint_max = 2 ^ 32 - 1"

lemma u32_small [simp]: "n < 2 ^ 32 \<Longrightarrow> u32 n = n"
  by (simp add: u32_def)

lemma u32_bound: "u32 n < 2 ^ 32"
  by (simp add: u32_def)

lemma u32_sub_eq: "b \<le> a \<Longrightarrow> u32_sub a b = u32 (a - b)"
proof -
  assume "b \<le> a"
  then have "a + 2 ^ 32 - b = (a - b) + 2 ^ 32" by simp
  then show ?thesis unfolding u32_sub_def u32_def by (simp only: mod_add_self2)
qed

lemma u32_sub_small [simp]: "b \<le> a \<Longrightarrow> a < 2 ^ 32 \<Longrightarrow> u32_sub a b = a - b"
  by (subst u32_sub_eq) simp_all

lemma u32_le: "u32 n \<le> n"
  unfolding u32_def by (rule mod_less_eq_dividend)

lemma u32_sub_le: "b \<le> a \<Longrightarrow> u32_sub a b \<le> a - b"
  by (simp only: u32_sub_eq u32_le)

subsection \<open>Sizes of 64 bits and bytes\<close>

type_synonym byte = "8 word"

definition u64 :: "nat \<Rightarrow> nat" where
  "u64 n = n mod 2 ^ 64"

lemma u64_small [simp]: "n < 2 ^ 64 \<Longrightarrow> u64 n = n"
  by (simp add: u64_def)

definition u64_sub :: "nat \<Rightarrow> nat \<Rightarrow> nat" where
  "u64_sub a b = u64 (a + 2 ^ 64 - b)"

lemma u64_sub_small [simp]: "b \<le> a \<Longrightarrow> a < 2 ^ 64 \<Longrightarrow> u64_sub a b = a - b"
proof -
  assume "b \<le> a" "a < 2 ^ 64"
  then have "a + 2 ^ 64 - b = (a - b) + 2 ^ 64" "a - b < 2 ^ 64" by simp_all
  then show ?thesis unfolding u64_sub_def u64_def by (simp only: mod_add_self2 mod_less)
qed

end
