(* ===== verification/Timer_Time.thy ===== *)
theory Timer_Time
  imports Prelude Complex_Main "HOL-Library.Product_Lexorder"
begin

section \<open>mytimer: time values and timer objects\<close>

text \<open>
  \<open>mytimer/timer.h\<close>, \<open>mytimer/util.h\<close> and the comparison macro of
  \<open>mytimer/min_heap.c\<close>.  The fields of \<open>struct timeval\<close> are C longs; they hold
  clock differences, far from the 64-bit limits, and are modelled by \<open>int\<close>.  A timer is
  kept in a store at its address.  A \<open>struct timer_wrapper\<close> begins with its embedded
  timer, so both have one address: the wrapper's own fields live in a second store at that
  address.
\<close>

subsection \<open>struct timeval\<close>

record timeval =
  tv_sec :: int
  tv_usec :: int

definition util_timersub :: "timeval \<Rightarrow> timeval \<Rightarrow> timeval" where
  "util_timersub a b =
     (let sec = tv_sec a - tv_sec b; usec = tv_usec a - tv_usec b in
      if usec < 0 then \<lparr>tv_sec = sec - 1, tv_usec = usec + 1000000\<rparr>
      else \<lparr>tv_sec = sec, tv_usec = usec\<rparr>)"

definition util_timersmaller :: "timeval \<Rightarrow> timeval \<Rightarrow> bool" where
  "util_timersmaller a b =
     (if tv_sec a = tv_sec b
      then (if tv_usec a < tv_usec b then True else False)
      else (if tv_sec a < tv_sec b then True else False))"

definition micros :: "timeval \<Rightarrow> int" where
  "micros a = tv_sec a * 1000000 + tv_usec a"

definition normal_tv :: "timeval \<Rightarrow> bool" where
  "normal_tv a \<longleftrightarrow> 0 \<le> tv_usec a \<and> tv_usec a < 1000000"

lemma micros_timersub [simp]: "micros (util_timersub a b) = micros a - micros b"
  by (simp add: micros_def util_timersub_def Let_def)

lemma normal_timersub: "normal_tv a \<Longrightarrow> normal_tv b \<Longrightarrow> normal_tv (util_timersub a b)"
  by (auto simp: normal_tv_def util_timersub_def Let_def)

lemma smaller_micros:
  "normal_tv a \<Longrightarrow> normal_tv b \<Longrightarrow> util_timersmaller a b \<longleftrightarrow> micros a < micros b"
  by (auto simp: normal_tv_def util_timersmaller_def micros_def)

subsection \<open>struct timer and struct timer_wrapper\<close>

datatype cbfun = Multi_cb | Once_cb | User_cb nat | Unset_cb

record timer =
  min_heap_idx :: nat
  timeout :: timeval
  t_cb :: cbfun
  t_arg :: ptr
  t_next :: ptr
  t_prev :: ptr

record timer_wrapper =
  w_cb :: cbfun
  w_arg :: ptr
  w_timeout :: real
  w_next :: ptr
  w_prev :: ptr

text \<open>The memory returned by \<open>malloc\<close> is uninitialised: its pointers are wild.\<close>

definition raw_timer :: timer where
  "raw_timer = \<lparr>min_heap_idx = 0, timeout = \<lparr>tv_sec = 0, tv_usec = 0\<rparr>, t_cb = Unset_cb,
     t_arg = Wild, t_next = Wild, t_prev = Wild\<rparr>"

definition raw_wrapper :: timer_wrapper where
  "raw_wrapper = \<lparr>w_cb = Unset_cb, w_arg = Wild, w_timeout = 0, w_next = Wild, w_prev = Wild\<rparr>"

definition min_heap_elem_greater :: "timer \<Rightarrow> timer \<Rightarrow> bool" where
  "min_heap_elem_greater a b =
     (if tv_sec (timeout a) = tv_sec (timeout b)
      then tv_usec (timeout a) > tv_usec (timeout b)
      else tv_sec (timeout a) > tv_sec (timeout b))"

text \<open>The comparison of the heap is a total preorder: the lexicographic order of the fields.\<close>

definition tv_key :: "timeval \<Rightarrow> int \<times> int" where
  "tv_key a = (tv_sec a, tv_usec a)"

lemma elem_greater_key: "min_heap_elem_greater a b \<longleftrightarrow> tv_key (timeout b) < tv_key (timeout a)"
  by (auto simp: min_heap_elem_greater_def tv_key_def)

lemma smaller_key: "util_timersmaller a b \<longleftrightarrow> tv_key a < tv_key b"
  by (auto simp: util_timersmaller_def tv_key_def)

lemma key_micros:
  "normal_tv a \<Longrightarrow> normal_tv b \<Longrightarrow> tv_key a \<le> tv_key b \<longleftrightarrow> micros a \<le> micros b"
  by (auto simp: normal_tv_def tv_key_def micros_def)

end
