(* ===== verification/Timer_Heap.thy ===== *)
theory Timer_Heap
  imports Timer_Time
begin

section \<open>mytimer: the binary min-heap of timers\<close>

text \<open>
  \<open>mytimer/min_heap.h\<close> and \<open>mytimer/min_heap.c\<close>: an array of timer pointers
  ordered by timeout, in which each timer also records its own index.  The array is a list
  of pointers of the allocated length; slots that were never written are \<open>Wild\<close>.
  Indices are C unsigned integers, with the wrap-around of \<open>u32\<close> written where the code
  computes them.  Whether \<open>realloc\<close> succeeds is a parameter.
\<close>

record min_heap =
  hp :: "ptr list"
  hn :: nat
  ha :: nat
  hfreed :: bool

definition min_heap_ctor :: min_heap where
  "min_heap_ctor = \<lparr>hp = [], hn = 0, ha = 0, hfreed = False\<rparr>"

definition min_heap_dtor :: "min_heap \<Rightarrow> min_heap option" where
  "min_heap_dtor s =
     (if hfreed s then None else if ha s = 0 then Some s else Some (s\<lparr>hp := [], hfreed := True\<rparr>))"

definition min_heap_elem_init :: "timer store \<Rightarrow> ptr \<Rightarrow> timer store option" where
  "min_heap_elem_init h e = assign h e (min_heap_idx_update (\<lambda>_. uint_max))"

definition min_heap_empty :: "min_heap \<Rightarrow> bool" where
  "min_heap_empty s \<longleftrightarrow> hn s = 0"

definition min_heap_size :: "min_heap \<Rightarrow> nat" where
  "min_heap_size s = hn s"

definition min_heap_top :: "min_heap \<Rightarrow> ptr option" where
  "min_heap_top s = (if hn s \<noteq> 0 then nth_opt (hp s) 0 else Some Null)"

definition min_heap_reserve :: "(nat \<Rightarrow> bool) \<Rightarrow> min_heap \<Rightarrow> nat \<Rightarrow> int \<times> min_heap" where
  "min_heap_reserve realloc_ok s n =
     (if ha s < n then
        let a0 = (if ha s \<noteq> 0 then u32 (ha s * 2) else 8);
            a = (if a0 < n then n else a0) in
        if \<not> realloc_ok (a * 8) then (-1, s)
        else (0, s\<lparr>hp := take a (hp s) @ replicate (a - length (hp s)) Wild, ha := a\<rparr>)
      else (0, s))"

text \<open>\<open>(s->p[i] = q)->min_heap_idx = i\<close>, the write that both shifts repeat.\<close>

definition place :: "timer store \<Rightarrow> ptr list \<Rightarrow> nat \<Rightarrow> ptr \<Rightarrow> (timer store \<times> ptr list) option" where
  "place h p i q = do {
     p' \<leftarrow> set_opt p i q;
     h' \<leftarrow> assign h q (min_heap_idx_update (\<lambda>_. i));
     Some (h', p') }"

function min_heap_shift_up_loop ::
  "timer store \<Rightarrow> ptr list \<Rightarrow> nat \<Rightarrow> ptr \<Rightarrow> (timer store \<times> ptr list \<times> nat) option" where
  "min_heap_shift_up_loop h p hole e =
     (if hole = 0 then Some (h, p, hole) else
      do {
        let parent = u32_sub hole 1 div 2;
        q \<leftarrow> nth_opt p parent;
        tq \<leftarrow> deref h q;
        te \<leftarrow> deref h e;
        if min_heap_elem_greater tq te then do {
          (h', p') \<leftarrow> place h p hole q;
          min_heap_shift_up_loop h' p' parent e }
        else Some (h, p, hole) })"
  by pat_completeness auto
termination
proof (relation "measure (\<lambda>(h, p, hole, e). hole)", goal_cases)
  case 1
  show ?case by simp
next
  case (2 h p hole e parent q tq te z h' p')
  then have "u32_sub hole 1 \<le> hole - 1" by (intro u32_sub_le) simp
  with 2 show ?case by simp
qed

definition min_heap_shift_up ::
  "timer store \<Rightarrow> ptr list \<Rightarrow> nat \<Rightarrow> ptr \<Rightarrow> (timer store \<times> ptr list) option" where
  "min_heap_shift_up h p hole e = do {
     (h', p', hole') \<leftarrow> min_heap_shift_up_loop h p hole e;
     place h' p' hole' e }"

text \<open>
  The loop of \<open>min_heap_shift_down_\<close>.  Nothing in the code bounds it when
  \<open>2 * (hole_index + 1)\<close> wraps around, so it is a partial function.
\<close>

definition pick_child :: "timer store \<Rightarrow> ptr list \<Rightarrow> nat \<Rightarrow> nat \<Rightarrow> nat option" where
  "pick_child h p n c =
     (if c = n then Some (u32_sub c 1) else do {
        a \<leftarrow> nth_opt p c; ta \<leftarrow> deref h a;
        b \<leftarrow> nth_opt p (u32_sub c 1); tb \<leftarrow> deref h b;
        Some (if min_heap_elem_greater ta tb then u32_sub c 1 else c) })"

partial_function (option) min_heap_shift_down_loop ::
  "timer store \<Rightarrow> ptr list \<Rightarrow> nat \<Rightarrow> nat \<Rightarrow> ptr \<Rightarrow> (timer store \<times> ptr list \<times> nat) option" where
  "min_heap_shift_down_loop h p n hole e =
     (let min_child0 = u32 (2 * (hole + 1)) in
      if min_child0 \<le> n then
        Option.bind (pick_child h p n min_child0) (\<lambda>min_child.
        Option.bind (deref h e) (\<lambda>te.
        Option.bind (nth_opt p min_child) (\<lambda>c.
        Option.bind (deref h c) (\<lambda>tc.
        if \<not> min_heap_elem_greater te tc then Some (h, p, hole)
        else Option.bind (place h p hole c) (\<lambda>r.
          min_heap_shift_down_loop (fst r) (snd r) n min_child e)))))
      else Some (h, p, hole))"

definition min_heap_shift_down ::
  "timer store \<Rightarrow> ptr list \<Rightarrow> nat \<Rightarrow> nat \<Rightarrow> ptr \<Rightarrow> (timer store \<times> ptr list) option" where
  "min_heap_shift_down h p n hole e = do {
     (h', p', hole') \<leftarrow> min_heap_shift_down_loop h p n hole e;
     min_heap_shift_up h' p' hole' e }"

definition min_heap_push ::
  "(nat \<Rightarrow> bool) \<Rightarrow> timer store \<Rightarrow> min_heap \<Rightarrow> ptr \<Rightarrow> (int \<times> timer store \<times> min_heap) option" where
  "min_heap_push realloc_ok h s e =
     (let (r, s') = min_heap_reserve realloc_ok s (u32 (hn s + 1)) in
      if r \<noteq> 0 then Some (-1, h, s')
      else do {
        (h', p') \<leftarrow> min_heap_shift_up h (hp s') (hn s') e;
        Some (0, h', s'\<lparr>hp := p', hn := u32 (hn s' + 1)\<rparr>) })"

definition min_heap_pop ::
  "timer store \<Rightarrow> min_heap \<Rightarrow> (ptr \<times> timer store \<times> min_heap) option" where
  "min_heap_pop h s =
     (if hn s \<noteq> 0 then do {
        e \<leftarrow> nth_opt (hp s) 0;
        let n = hn s - 1;
        l \<leftarrow> nth_opt (hp s) n;
        (h', p') \<leftarrow> min_heap_shift_down h (hp s) n 0 l;
        h'' \<leftarrow> assign h' e (min_heap_idx_update (\<lambda>_. uint_max));
        Some (e, h'', s\<lparr>hp := p', hn := n\<rparr>) }
      else Some (Null, h, s))"

definition min_heap_erase ::
  "timer store \<Rightarrow> min_heap \<Rightarrow> ptr \<Rightarrow> (int \<times> timer store \<times> min_heap) option" where
  "min_heap_erase h s e = do {
     te \<leftarrow> deref h e;
     if min_heap_idx te \<noteq> uint_max then do {
       let n = u32_sub (hn s) 1;
       l \<leftarrow> nth_opt (hp s) n;
       (h', p') \<leftarrow> min_heap_shift_down h (hp s) n (min_heap_idx te) l;
       h'' \<leftarrow> assign h' e (min_heap_idx_update (\<lambda>_. uint_max));
       Some (0, h'', s\<lparr>hp := p', hn := n\<rparr>) }
     else Some (-1, h, s) }"

subsection \<open>Reading keys and indices through the store\<close>

definition key_of :: "timer store \<Rightarrow> ptr \<Rightarrow> int \<times> int" where
  "key_of h q = (case deref h q of Some t \<Rightarrow> tv_key (timeout t) | None \<Rightarrow> (0, 0))"

definition idx_of :: "timer store \<Rightarrow> ptr \<Rightarrow> nat" where
  "idx_of h q = (case deref h q of Some t \<Rightarrow> min_heap_idx t | None \<Rightarrow> 0)"

definition strip :: "timer \<Rightarrow> timer" where
  "strip t = t\<lparr>min_heap_idx := 0\<rparr>"

definition only_idx :: "timer store \<Rightarrow> timer store \<Rightarrow> bool" where
  "only_idx h h' \<longleftrightarrow> (\<forall>q. map_option strip (deref h' q) = map_option strip (deref h q))"

lemma only_idx_refl [simp]: "only_idx h h"
  by (simp add: only_idx_def)

lemma only_idx_trans [trans]: "only_idx h h' \<Longrightarrow> only_idx h' h'' \<Longrightarrow> only_idx h h''"
  by (simp add: only_idx_def)

lemma only_idx_valid: "only_idx h h' \<Longrightarrow> valid h' q = valid h q"
  unfolding only_idx_def valid_def by (metis option.map_disc_iff)

lemma strip_timeout: "strip t = strip u \<Longrightarrow> timeout t = timeout u"
  unfolding strip_def by (metis timer.select_convs(2) timer.surjective timer.update_convs(1))

lemma only_idx_key: "only_idx h h' \<Longrightarrow> key_of h' = key_of h"
proof
  fix q assume "only_idx h h'"
  then have "map_option strip (deref h' q) = map_option strip (deref h q)"
    by (simp add: only_idx_def)
  then show "key_of h' q = key_of h q"
    by (cases "deref h q"; cases "deref h' q") (auto simp: key_of_def dest: strip_timeout)
qed

lemma greater_key_of:
  "deref h a = Some ta \<Longrightarrow> deref h b = Some tb \<Longrightarrow>
   min_heap_elem_greater ta tb \<longleftrightarrow> key_of h b < key_of h a"
  by (simp add: key_of_def elem_greater_key)

lemma place_spec:
  assumes "valid h q" and "i < length p"
  obtains h' where "place h p i q = Some (h', p[i := q])" and "only_idx h h'"
    and "\<And>r. idx_of h' r = (if r = q then i else idx_of h r)"
proof -
  from assms(1) obtain x h' where d: "deref h q = Some x"
    and a: "assign h q (min_heap_idx_update (\<lambda>_. i)) = Some h'"
    using assign_valid by (fastforce simp: valid_def)
  have "place h p i q = Some (h', p[i := q])"
    using a assms(2) by (simp add: place_def)
  moreover have "only_idx h h'"
    unfolding only_idx_def using deref_assign [OF a] d by (simp add: strip_def)
  moreover have "\<And>r. idx_of h' r = (if r = q then i else idx_of h r)"
    using deref_assign [OF a] d by (simp add: idx_of_def)
  ultimately show thesis by (rule that)
qed

subsection \<open>The heap shape, with and without a hole\<close>

definition par :: "nat \<Rightarrow> nat" where
  "par i = (i - 1) div 2"

lemma par_less: "0 < i \<Longrightarrow> par i < i"
  by (simp add: par_def)

lemma par_children: "0 < i \<Longrightarrow> par i = j \<longleftrightarrow> i = 2 * j + 1 \<or> i = 2 * j + 2"
  unfolding par_def by presburger

definition heap_order :: "(ptr \<Rightarrow> 'k::linorder) \<Rightarrow> ptr list \<Rightarrow> nat \<Rightarrow> bool" where
  "heap_order k p n \<longleftrightarrow> (\<forall>i<n. 0 < i \<longrightarrow> k (p ! par i) \<le> k (p ! i))"

definition ord_hole :: "(ptr \<Rightarrow> 'k::linorder) \<Rightarrow> ptr list \<Rightarrow> nat \<Rightarrow> nat \<Rightarrow> bool" where
  "ord_hole k p n hole \<longleftrightarrow>
     (\<forall>i<n. 0 < i \<longrightarrow> i \<noteq> hole \<longrightarrow> par i \<noteq> hole \<longrightarrow> k (p ! par i) \<le> k (p ! i))"

definition above_hole :: "(ptr \<Rightarrow> 'k::linorder) \<Rightarrow> ptr list \<Rightarrow> nat \<Rightarrow> nat \<Rightarrow> bool" where
  "above_hole k p n hole \<longleftrightarrow>
     (0 < hole \<longrightarrow> (\<forall>i<n. 0 < i \<longrightarrow> par i = hole \<longrightarrow> k (p ! par hole) \<le> k (p ! i)))"

definition below_hole :: "(ptr \<Rightarrow> 'k::linorder) \<Rightarrow> ptr list \<Rightarrow> nat \<Rightarrow> nat \<Rightarrow> 'k \<Rightarrow> bool" where
  "below_hole k p n hole x \<longleftrightarrow> (\<forall>i<n. 0 < i \<longrightarrow> par i = hole \<longrightarrow> x \<le> k (p ! i))"

lemmas hole_defs = ord_hole_def above_hole_def below_hole_def

lemma fill_hole:
  assumes "ord_hole k p n hole" "below_hole k p n hole (k e)" "hole < n" "n \<le> length p"
    and "hole = 0 \<or> k (p ! par hole) \<le> k e"
  shows "heap_order k (p[hole := e]) n"
  unfolding heap_order_def
proof (intro allI impI)
  fix i assume i: "i < n" "0 < i"
  then have "par i \<noteq> i" using par_less [of i] by simp
  with assms i show "k (p[hole := e] ! par i) \<le> k (p[hole := e] ! i)"
    by (auto simp: hole_defs nth_list_update)
qed

lemma hole_up:
  assumes "ord_hole k p n hole" "above_hole k p n hole" "0 < hole" "hole < n" "n \<le> length p"
    and gt: "x < k (p ! par hole)"
  shows "ord_hole k (p[hole := p ! par hole]) n (par hole)"
    and "above_hole k (p[hole := p ! par hole]) n (par hole)"
    and "below_hole k (p[hole := p ! par hole]) n (par hole) x"
proof -
  have pl: "par hole < hole" using assms(3) by (rule par_less)
  show "ord_hole k (p[hole := p ! par hole]) n (par hole)"
    unfolding ord_hole_def
  proof (intro allI impI)
    fix i assume i: "i < n" "0 < i" "i \<noteq> par hole" "par i \<noteq> par hole"
    then have ih: "i \<noteq> hole" by auto
    show "k (p[hole := p ! par hole] ! par i) \<le> k (p[hole := p ! par hole] ! i)"
    proof (cases "par i = hole")
      case True
      then have "k (p ! par hole) \<le> k (p ! i)"
        using assms(2,3) i unfolding above_hole_def by simp
      with True ih assms(4,5) show ?thesis by (simp add: nth_list_update)
    next
      case False
      then have "k (p ! par i) \<le> k (p ! i)"
        using assms(1) i ih unfolding ord_hole_def by simp
      with False ih show ?thesis by simp
    qed
  qed
  have up: "k (p ! par (par hole)) \<le> k (p ! par hole)" if "0 < par hole"
  proof -
    have "par (par hole) < par hole" using that by (rule par_less)
    then show ?thesis using assms(1,4) pl that by (auto simp: ord_hole_def)
  qed
  have sib: "k (p ! par hole) \<le> k (p ! i)" if "i < n" "0 < i" "par i = par hole" "i \<noteq> hole" for i
    using assms(1) that pl by (auto simp: ord_hole_def)
  show "above_hole k (p[hole := p ! par hole]) n (par hole)"
    unfolding above_hole_def
  proof (intro allI impI)
    fix i assume *: "0 < par hole" "i < n" "0 < i" "par i = par hole"
    then have ne: "hole \<noteq> par (par hole)" using pl par_less [of "par hole"] by simp
    show "k (p[hole := p ! par hole] ! par (par hole)) \<le> k (p[hole := p ! par hole] ! i)"
    proof (cases "i = hole")
      case True
      with up [OF *(1)] ne assms(4,5) show ?thesis by simp
    next
      case False
      from up [OF *(1)] sib [OF *(2-4) False] have "k (p ! par (par hole)) \<le> k (p ! i)"
        by (rule order_trans)
      with ne False show ?thesis by simp
    qed
  qed
  show "below_hole k (p[hole := p ! par hole]) n (par hole) x"
    unfolding below_hole_def
  proof (intro allI impI)
    fix i assume *: "i < n" "0 < i" "par i = par hole"
    show "x \<le> k (p[hole := p ! par hole] ! i)"
    proof (cases "i = hole")
      case True
      with gt assms(4,5) show ?thesis by simp
    next
      case False
      from gt sib [OF * False] have "x \<le> k (p ! i)" by simp
      with False show ?thesis by simp
    qed
  qed
qed

lemma hole_down:
  assumes "ord_hole k p n hole" "above_hole k p n hole" "hole < n" "n \<le> length p"
    and c: "c < n" "0 < c" "par c = hole"
    and least: "\<And>i. i < n \<Longrightarrow> 0 < i \<Longrightarrow> par i = hole \<Longrightarrow> k (p ! c) \<le> k (p ! i)"
  shows "ord_hole k (p[hole := p ! c]) n c"
    and "above_hole k (p[hole := p ! c]) n c"
proof -
  have hc: "hole < c" using c par_less [of c] by simp
  show "ord_hole k (p[hole := p ! c]) n c"
    unfolding ord_hole_def
  proof (intro allI impI)
    fix i assume i: "i < n" "0 < i" "i \<noteq> c" "par i \<noteq> c"
    have pi: "par i < i" using i(2) by (rule par_less)
    consider "i = hole" | "i \<noteq> hole" "par i = hole" | "i \<noteq> hole" "par i \<noteq> hole" by blast
    then show "k (p[hole := p ! c] ! par i) \<le> k (p[hole := p ! c] ! i)"
    proof cases
      case 1
      then have "k (p ! par hole) \<le> k (p ! c)"
        using assms(2) c i(2) unfolding above_hole_def by simp
      with 1 pi assms(3,4) show ?thesis by simp
    next
      case 2
      with least [OF i(1,2)] assms(3,4) show ?thesis by simp
    next
      case 3
      then have "k (p ! par i) \<le> k (p ! i)"
        using assms(1) i unfolding ord_hole_def by simp
      with 3 show ?thesis by simp
    qed
  qed
  show "above_hole k (p[hole := p ! c]) n c"
    unfolding above_hole_def
  proof (intro allI impI)
    fix i assume i: "i < n" "0 < i" "par i = c"
    have pi: "par i < i" using i(2) by (rule par_less)
    then have ih: "i \<noteq> hole" using i(3) hc by simp
    have "par i \<noteq> hole" using i(3) hc by simp
    with assms(1) i(1,2) ih have "k (p ! par i) \<le> k (p ! i)"
      unfolding ord_hole_def by blast
    then show "k (p[hole := p ! c] ! par c) \<le> k (p[hole := p ! c] ! i)"
      using i(3) c(3) ih assms(3,4) by simp
  qed
qed

subsection \<open>The loops on the store\<close>

definition slots :: "timer store \<Rightarrow> ptr list \<Rightarrow> nat \<Rightarrow> nat \<Rightarrow> ptr \<Rightarrow> bool" where
  "slots h p n hole e \<longleftrightarrow> n \<le> length p \<and> hole < n \<and> valid h e \<and>
     (\<forall>i<n. i \<noteq> hole \<longrightarrow> valid h (p ! i) \<and> idx_of h (p ! i) = i \<and> p ! i \<noteq> e)"

definition filled :: "ptr list \<Rightarrow> nat \<Rightarrow> nat \<Rightarrow> ptr \<Rightarrow> ptr multiset" where
  "filled p n hole e = mset (take n (p[hole := e]))"

lemma filled_move:
  assumes "j < n" "hole < n" "n \<le> length p"
  shows "filled (p[hole := p ! j]) n j e = filled p n hole e"
proof (cases "j = hole")
  case False
  let ?q = "take n p"
  have "mset ((?q[hole := e])[j := (?q[hole := e]) ! hole, hole := (?q[hole := e]) ! j])
        = mset (?q[hole := e])"
    using assms by (intro mset_swap) simp_all
  then show ?thesis
    using assms False by (simp add: filled_def take_update_swap list_update_swap [of j hole])
qed (simp add: filled_def)

lemma slots_move:
  assumes "slots h p n hole e" "j < n" "j \<noteq> hole"
  obtains h' where "place h p hole (p ! j) = Some (h', p[hole := p ! j])"
    and "only_idx h h'" and "slots h' (p[hole := p ! j]) n j e"
proof -
  from assms have v: "valid h (p ! j)" "hole < length p"
    by (auto simp: slots_def)
  then obtain h' where h': "place h p hole (p ! j) = Some (h', p[hole := p ! j])"
    "only_idx h h'" "\<And>r. idx_of h' r = (if r = p ! j then hole else idx_of h r)"
    using place_spec by metis
  have ne: "p ! i \<noteq> p ! j" if "i < n" "i \<noteq> hole" "i \<noteq> j" for i
    using assms that unfolding slots_def by metis
  have "slots h' (p[hole := p ! j]) n j e"
    unfolding slots_def
  proof (intro conjI allI impI)
    fix i assume i: "i < n" "i \<noteq> j"
    have vi: "valid h' q = valid h q" for q by (rule only_idx_valid [OF h'(2)])
    show "valid h' (p[hole := p ! j] ! i)" "idx_of h' (p[hole := p ! j] ! i) = i"
      "p[hole := p ! j] ! i \<noteq> e"
      using i assms ne [of i] v h'(3) by (auto simp: slots_def vi nth_list_update)
  qed (use assms in \<open>auto simp: slots_def only_idx_valid [OF h'(2)]\<close>)
  with h' show thesis by (intro that)
qed

definition heap_arr :: "timer store \<Rightarrow> ptr list \<Rightarrow> nat \<Rightarrow> bool" where
  "heap_arr h p n \<longleftrightarrow> n \<le> length p \<and> (\<forall>i<n. valid h (p ! i) \<and> idx_of h (p ! i) = i) \<and>
     heap_order (key_of h) p n"

lemma slots_close:
  assumes "slots h p n hole e" "heap_order (key_of h) (p[hole := e]) n"
  obtains h' where "place h p hole e = Some (h', p[hole := e])" "only_idx h h'"
    "heap_arr h' (p[hole := e]) n"
proof -
  from assms have v: "valid h e" "hole < length p"
    by (auto simp: slots_def)
  then obtain h' where h': "place h p hole e = Some (h', p[hole := e])"
    "only_idx h h'" "\<And>r. idx_of h' r = (if r = e then hole else idx_of h r)"
    using place_spec by metis
  have "heap_arr h' (p[hole := e]) n"
    unfolding heap_arr_def
  proof (intro conjI allI impI)
    fix i assume i: "i < n"
    show "valid h' (p[hole := e] ! i)" "idx_of h' (p[hole := e] ! i) = i"
      using i assms(1) v h'(3)
      by (auto simp: slots_def only_idx_valid [OF h'(2)] nth_list_update)
  qed (use assms in \<open>auto simp: slots_def only_idx_key [OF h'(2)]\<close>)
  with h' show thesis by (intro that)
qed

lemma shift_up_loop_exit: "min_heap_shift_up_loop h p 0 e = Some (h, p, 0)"
  by (simp add: min_heap_shift_up_loop.simps)

declare min_heap_shift_up_loop.simps [simp del]

lemma u32_par: "0 < i \<Longrightarrow> i < 2 ^ 32 \<Longrightarrow> u32_sub i 1 div 2 = par i"
  by (simp add: par_def)

lemma shift_up_loop_step:
  assumes "0 < hole" "hole < 2 ^ 32" "par hole < length p"
    and "deref h (p ! par hole) = Some tq" "deref h e = Some te"
  shows "min_heap_shift_up_loop h p hole e =
    (if min_heap_elem_greater tq te
     then place h p hole (p ! par hole) \<bind> (\<lambda>(h', p'). min_heap_shift_up_loop h' p' (par hole) e)
     else Some (h, p, hole))"
proof -
  from assms(1,2) have "u32_sub hole 1 div 2 = par hole" by (rule u32_par)
  with assms show ?thesis
    by (subst min_heap_shift_up_loop.simps) (simp only: Let_def, simp)
qed

lemma shift_up_correct:
  assumes "slots h p n hole e" "n < 2 ^ 32"
    and "ord_hole (key_of h) p n hole" "above_hole (key_of h) p n hole"
    and "below_hole (key_of h) p n hole (key_of h e)"
  shows "\<exists>h' p'. min_heap_shift_up h p hole e = Some (h', p') \<and> only_idx h h' \<and>
     heap_arr h' p' n \<and> mset (take n p') = filled p n hole e \<and> length p' = length p"
  using assms
proof (induction hole arbitrary: h p rule: less_induct)
  case (less hole)
  have bn: "hole < n" "n \<le> length p" "valid h e" using less.prems(1) by (auto simp: slots_def)
  show ?case
  proof (cases "hole = 0 \<or> key_of h (p ! par hole) \<le> key_of h e")
    case stop: True
    have ho: "heap_order (key_of h) (p[hole := e]) n"
      using fill_hole less.prems(3,5) bn stop by blast
    obtain h' where h': "place h p hole e = Some (h', p[hole := e])" "only_idx h h'"
      "heap_arr h' (p[hole := e]) n"
      using slots_close [OF less.prems(1) ho] by blast
    have "min_heap_shift_up_loop h p hole e = Some (h, p, hole)"
    proof (cases "hole = 0")
      case False
      then have pl: "par hole < n" using bn par_less [of hole] by simp
      with less.prems(1) False par_less [of hole] obtain tq te where
        t: "deref h (p ! par hole) = Some tq" "deref h e = Some te"
        unfolding slots_def valid_def by (metis not_gr_zero option.exhaust_sel order_less_irrefl)
      with stop False have "\<not> min_heap_elem_greater tq te"
        by (simp add: greater_key_of [OF t] not_less)
      with t False pl bn less.prems(2) show ?thesis
        by (subst shift_up_loop_step [OF _ _ _ t]) simp_all
    qed (simp add: shift_up_loop_exit)
    with h' have "min_heap_shift_up h p hole e = Some (h', p[hole := e])"
      by (simp add: min_heap_shift_up_def)
    with h' show ?thesis by (auto simp: filled_def)
  next
    case go: False
    then have pl: "0 < hole" "par hole < hole" "par hole < n" "par hole \<noteq> hole"
      using bn par_less [of hole] by auto
    obtain h1 where h1: "place h p hole (p ! par hole) = Some (h1, p[hole := p ! par hole])"
      "only_idx h h1" "slots h1 (p[hole := p ! par hole]) n (par hole) e"
      using slots_move [OF less.prems(1) pl(3,4)] by blast
    note k = only_idx_key [OF h1(2)]
    have gt: "key_of h e < key_of h (p ! par hole)" using go by (simp add: not_le)
    note up = hole_up [OF less.prems(3,4) pl(1) bn(1,2) gt]
    from less.prems(1) pl obtain tq te where
      t: "deref h (p ! par hole) = Some tq" "deref h e = Some te"
      unfolding slots_def valid_def by (metis option.exhaust_sel)
    have "min_heap_shift_up_loop h p hole e
          = min_heap_shift_up_loop h1 (p[hole := p ! par hole]) (par hole) e"
      using pl bn gt less.prems(2) h1(1)
      by (subst shift_up_loop_step [OF _ _ _ t]) (simp_all add: greater_key_of [OF t])
    then have eq: "min_heap_shift_up h p hole e
          = min_heap_shift_up h1 (p[hole := p ! par hole]) (par hole) e"
      by (simp add: min_heap_shift_up_def)
    have "\<exists>h' p'. min_heap_shift_up h1 (p[hole := p ! par hole]) (par hole) e = Some (h', p') \<and>
        only_idx h1 h' \<and> heap_arr h' p' n \<and>
        mset (take n p') = filled (p[hole := p ! par hole]) n (par hole) e \<and>
        length p' = length (p[hole := p ! par hole])"
      using less.IH [OF pl(2) h1(3) less.prems(2)] up by (simp add: k)
    then show ?thesis
      using eq only_idx_trans [OF h1(2)] filled_move [OF pl(3) bn(1,2)] by auto
  qed
qed

lemma pick_child_spec:
  assumes "slots h p n hole e" "n < 2 ^ 31" "2 * (hole + 1) \<le> n"
  obtains c where "pick_child h p n (2 * (hole + 1)) = Some c" "c < n" "0 < c" "par c = hole"
    "\<And>i. i < n \<Longrightarrow> 0 < i \<Longrightarrow> par i = hole \<Longrightarrow> key_of h (p ! c) \<le> key_of h (p ! i)"
proof -
  let ?r = "2 * (hole + 1)" and ?l = "2 * hole + 1"
  have sub: "u32_sub ?r 1 = ?l" using assms(2,3) by (subst u32_sub_small) simp_all
  have pl: "par ?l = hole" "par ?r = hole" by (simp_all add: par_def)
  have kids: "i = ?l \<or> i = ?r" if "0 < i" "par i = hole" for i
    using par_children [OF that(1), of hole] that(2) by auto
  show thesis
  proof (cases "?r = n")
    case True
    then have "u32_sub n 1 = ?l" using sub by simp
    then have "pick_child h p n ?r = Some ?l" using True by (simp add: pick_child_def)
    moreover have "key_of h (p ! ?l) \<le> key_of h (p ! i)" if "i < n" "0 < i" "par i = hole" for i
      using kids [OF that(2,3)] that(1) True by auto
    ultimately show thesis using that [of ?l] True pl by simp
  next
    case False
    with assms(3) have r: "?r < n" "?l < n" by simp_all
    with assms(1) obtain tr tl where t: "deref h (p ! ?r) = Some tr" "deref h (p ! ?l) = Some tl"
      unfolding slots_def valid_def
      by (metis option.exhaust_sel less_irrefl less_add_same_cancel1 add_less_cancel_left
          par_less pl zero_less_Suc add_2_eq_Suc add_gr_0 mult_Suc_right Suc_eq_plus1)
    have len: "?r < length p" "?l < length p"
      using r assms(1) by (auto simp: slots_def)
    have g: "min_heap_elem_greater tr tl \<longleftrightarrow> key_of h (p ! ?l) < key_of h (p ! ?r)"
      by (rule greater_key_of [OF t])
    define c where "c = (if min_heap_elem_greater tr tl then ?l else ?r)"
    have "pick_child h p n ?r = Some c"
      using False t len unfolding pick_child_def sub c_def by simp
    moreover have "key_of h (p ! c) \<le> key_of h (p ! i)" if "i < n" "0 < i" "par i = hole" for i
      using kids [OF that(2,3)] g unfolding c_def by auto
    moreover have "c < n" "0 < c" "par c = hole"
      using r pl by (auto simp: c_def)
    ultimately show thesis using that by blast
  qed
qed

lemma shift_down_loop_step:
  assumes "2 * (hole + 1) \<le> n" "n < 2 ^ 31" "pick_child h p n (2 * (hole + 1)) = Some c"
    and "c < length p" "deref h e = Some te" "deref h (p ! c) = Some tc"
  shows "min_heap_shift_down_loop h p n hole e =
    (if \<not> min_heap_elem_greater te tc then Some (h, p, hole)
     else place h p hole (p ! c) \<bind>
       (\<lambda>r. min_heap_shift_down_loop (fst r) (snd r) n c e))"
proof -
  from assms(1,2) have "u32 (2 * (hole + 1)) = 2 * (hole + 1)" by (intro u32_small) simp
  with assms show ?thesis
    by (subst min_heap_shift_down_loop.simps) (simp only: Let_def, simp)
qed

lemma shift_down_loop_leaf:
  assumes "n < 2 * (hole + 1)" "hole < 2 ^ 31 - 1"
  shows "min_heap_shift_down_loop h p n hole e = Some (h, p, hole)"
proof -
  from assms(2) have "u32 (2 * (hole + 1)) = 2 * (hole + 1)" by (intro u32_small) simp
  with assms show ?thesis by (subst min_heap_shift_down_loop.simps) (simp only: Let_def, simp)
qed

lemma shift_down_correct:
  assumes "slots h p n hole e" "n < 2 ^ 31"
    and "ord_hole (key_of h) p n hole" "above_hole (key_of h) p n hole"
  shows "\<exists>h' p'. min_heap_shift_down h p n hole e = Some (h', p') \<and> only_idx h h' \<and>
     heap_arr h' p' n \<and> mset (take n p') = filled p n hole e \<and> length p' = length p"
  using assms
proof (induction "n - hole" arbitrary: h p hole rule: less_induct)
  case less
  have bn: "hole < n" "n \<le> length p" "valid h e" using less.prems(1) by (auto simp: slots_def)
  have stop: ?case if st: "min_heap_shift_down_loop h p n hole e = Some (h, p, hole)"
    and bl: "below_hole (key_of h) p n hole (key_of h e)"
    using shift_up_correct [OF less.prems(1) _ less.prems(3,4) bl] less.prems(2) st
    by (simp add: min_heap_shift_down_def)
  show ?case
  proof (cases "2 * (hole + 1) \<le> n")
    case False
    have "min_heap_shift_down_loop h p n hole e = Some (h, p, hole)"
      using False bn less.prems(2) by (intro shift_down_loop_leaf) simp_all
    moreover have "below_hole (key_of h) p n hole (key_of h e)"
      unfolding below_hole_def
    proof (intro allI impI)
      fix i assume "i < n" "0 < i" "par i = hole"
      with par_children [of i hole] False show "key_of h e \<le> key_of h (p ! i)" by simp
    qed
    ultimately show ?thesis by (rule stop)
  next
    case True
    obtain c where c: "pick_child h p n (2 * (hole + 1)) = Some c" "c < n" "0 < c" "par c = hole"
      and least: "\<And>i. i < n \<Longrightarrow> 0 < i \<Longrightarrow> par i = hole \<Longrightarrow> key_of h (p ! c) \<le> key_of h (p ! i)"
      using pick_child_spec [OF less.prems(1,2) True] by blast
    have ch: "c \<noteq> hole" "hole < c" using par_less [OF c(3)] c(4) by simp_all
    from less.prems(1) c(2) ch(1) obtain te tc where
      t: "deref h e = Some te" "deref h (p ! c) = Some tc"
      unfolding slots_def valid_def by (metis option.exhaust_sel)
    have cl: "c < length p" using c(2) bn(2) by simp
    note step = shift_down_loop_step [OF True less.prems(2) c(1) cl t]
    show ?thesis
    proof (cases "key_of h e \<le> key_of h (p ! c)")
      case True
      with step have "min_heap_shift_down_loop h p n hole e = Some (h, p, hole)"
        by (simp add: greater_key_of [OF t] not_less)
      moreover have "below_hole (key_of h) p n hole (key_of h e)"
        unfolding below_hole_def using True least order_trans by blast
      ultimately show ?thesis by (rule stop)
    next
      case False
      then have gt: "min_heap_elem_greater te tc" by (simp add: greater_key_of [OF t] not_le)
      obtain h1 where h1: "place h p hole (p ! c) = Some (h1, p[hole := p ! c])"
        "only_idx h h1" "slots h1 (p[hole := p ! c]) n c e"
        using slots_move [OF less.prems(1) c(2) ch(1)] by blast
      note k = only_idx_key [OF h1(2)]
      note dn = hole_down [OF less.prems(3,4) bn(1,2) c(2-4) least]
      have eq: "min_heap_shift_down h p n hole e = min_heap_shift_down h1 (p[hole := p ! c]) n c e"
        using step gt h1(1) by (simp add: min_heap_shift_down_def)
      have m: "n - c < n - hole" using ch c(2) by simp
      have "ord_hole (key_of h1) (p[hole := p ! c]) n c" "above_hole (key_of h1) (p[hole := p ! c]) n c"
        unfolding k by (rule dn; assumption)+
      from less.hyps [OF m h1(3) less.prems(2) this] obtain h' p' where
        r: "min_heap_shift_down h1 (p[hole := p ! c]) n c e = Some (h', p')" "only_idx h1 h'"
        "heap_arr h' p' n" "mset (take n p') = filled (p[hole := p ! c]) n c e"
        "length p' = length (p[hole := p ! c])"
        by blast
      from r(4) have "mset (take n p') = filled p n hole e"
        by (simp only: filled_move [OF c(2) bn(1,2)])
      moreover have "only_idx h h'" using h1(2) r(2) by (rule only_idx_trans)
      ultimately show ?thesis using r(1,3,5) unfolding eq by simp
    qed
  qed
qed

subsection \<open>The heap as the program keeps it\<close>

definition elems :: "min_heap \<Rightarrow> ptr multiset" where
  "elems s = mset (take (hn s) (hp s))"

definition heap_ok :: "timer store \<Rightarrow> min_heap \<Rightarrow> bool" where
  "heap_ok h s \<longleftrightarrow> length (hp s) = ha s \<and> ha s < 2 ^ 32 \<and> hn s < 2 ^ 31 \<and> \<not> hfreed s \<and>
     heap_arr h (hp s) (hn s)"

lemma heap_ok_ctor: "heap_ok h min_heap_ctor"
  by (simp add: heap_ok_def min_heap_ctor_def heap_arr_def heap_order_def)

lemma heap_arr_inj:
  assumes "heap_arr h p n" "i < n" "j < n" "p ! i = p ! j"
  shows "i = j"
  using assms unfolding heap_arr_def by metis

lemma heap_arr_distinct: "heap_arr h p n \<Longrightarrow> distinct (take n p)"
  by (auto simp: distinct_conv_nth heap_arr_def) metis

lemma in_elems: "q \<in># elems s \<longleftrightarrow> (\<exists>i<hn s. i < length (hp s) \<and> hp s ! i = q)"
  by (auto simp: elems_def in_set_conv_nth)

lemma heap_arr_min:
  assumes "heap_arr h p n" "i < n"
  shows "key_of h (p ! 0) \<le> key_of h (p ! i)"
  using assms(2)
proof (induction i rule: less_induct)
  case (less i)
  show ?case
  proof (cases "i = 0")
    case False
    then have pi: "par i < i" by (simp add: par_less)
    with less have "key_of h (p ! 0) \<le> key_of h (p ! par i)" by simp
    also have "\<dots> \<le> key_of h (p ! i)"
      using assms(1) less.prems False by (simp add: heap_arr_def heap_order_def)
    finally show ?thesis .
  qed simp
qed

lemma heap_order_hole:
  assumes "heap_order k p n" "m \<le> n"
  shows "ord_hole k p m hole" and "hole < n \<Longrightarrow> above_hole k p m hole"
proof -
  show "ord_hole k p m hole" using assms by (simp add: heap_order_def ord_hole_def)
  assume hn: "hole < n"
  show "above_hole k p m hole"
    unfolding above_hole_def
  proof (intro impI allI)
    fix i assume i: "0 < hole" "i < m" "0 < i" "par i = hole"
    have "k (p ! par hole) \<le> k (p ! hole)" using assms(1) hn i(1) by (simp add: heap_order_def)
    also have "\<dots> \<le> k (p ! i)" using assms i by (auto simp: heap_order_def)
    finally show "k (p ! par hole) \<le> k (p ! i)" .
  qed
qed

text \<open>Reserving keeps the elements and makes room for \<open>n\<close> of them.\<close>

lemma reserve_spec:
  assumes "heap_ok h s" "n < 2 ^ 32" "min_heap_reserve ok s n = (r, s')"
  shows "heap_ok h s'" "elems s' = elems s" "hn s' = hn s"
    and "r = 0 \<and> n \<le> ha s' \<or> r = -1 \<and> s' = s"
proof -
  let ?a0 = "if ha s \<noteq> 0 then u32 (ha s * 2) else 8"
  let ?a = "if ?a0 < n then n else ?a0"
  have a: "n \<le> ?a" "?a < 2 ^ 32" using assms(2) u32_bound [of "ha s * 2"] by auto
  have hnl: "hn s \<le> length (hp s)" "length (hp s) = ha s"
    using assms(1) by (auto simp: heap_ok_def heap_arr_def)
  have arr: "heap_arr h (hp s @ xs) (hn s)" for xs
  proof -
    have "(hp s @ xs) ! i = hp s ! i" if "i < hn s" for i
      using that hnl by (simp add: nth_append)
    moreover have "par i < hn s" if "i < hn s" "0 < i" for i
      using that par_less [of i] by simp
    ultimately show ?thesis
      using assms(1) by (auto simp: heap_ok_def heap_arr_def heap_order_def)
  qed
  have grow: "take ?a (hp s) = hp s" if "ha s < n" using that hnl a by simp
  show "heap_ok h s'" "elems s' = elems s" "hn s' = hn s"
    "r = 0 \<and> n \<le> ha s' \<or> r = -1 \<and> s' = s"
    using assms(1,3) a hnl arr grow
    by (auto simp: min_heap_reserve_def Let_def heap_ok_def elems_def split: if_splits)
qed

lemma heap_arr_detach:
  assumes "heap_arr h p n" "assign h q (min_heap_idx_update (\<lambda>_. m)) = Some h'"
    and "\<And>i. i < n \<Longrightarrow> p ! i \<noteq> q"
  shows "heap_arr h' p n" "only_idx h h'" "idx_of h' q = m"
proof -
  note d = deref_assign [OF assms(2)]
  obtain x where x: "deref h q = Some x" using assign_Some_valid [OF assms(2)] by blast
  show oi: "only_idx h h'"
    unfolding only_idx_def using d x by (simp add: strip_def)
  show "idx_of h' q = m" using d x by (simp add: idx_of_def)
  have "idx_of h' (p ! i) = idx_of h (p ! i)" if "i < n" for i
    using d assms(3) [OF that] by (simp add: idx_of_def)
  then show "heap_arr h' p n"
    using assms(1) by (simp add: heap_arr_def only_idx_key [OF oi] only_idx_valid [OF oi])
qed

lemma take_Suc_mset: "n < length p \<Longrightarrow> mset (take (Suc n) p) = add_mset (p ! n) (mset (take n p))"
  by (simp add: take_Suc_conv_app_nth)

text \<open>Taking out the last slot: both loops stop at once.\<close>

lemma shift_down_last:
  assumes arr: "heap_arr h p (Suc n)" and n: "Suc n < 2 ^ 31"
  obtains h' where "min_heap_shift_down h p n n (p ! n) = Some (h', p)" "only_idx h h'" "heap_arr h' p n"
proof -
  have v: "valid h (p ! n)" "n < length p" using arr by (auto simp: heap_arr_def)
  then obtain h' where h': "place h p n (p ! n) = Some (h', p[n := p ! n])" "only_idx h h'"
    "\<And>r. idx_of h' r = (if r = p ! n then n else idx_of h r)"
    using place_spec by metis
  have "min_heap_shift_up_loop h p n (p ! n) = Some (h, p, n)"
  proof (cases "n = 0")
    case False
    then have pn: "par n < n" by (simp add: par_less)
    then obtain tq te where t: "deref h (p ! par n) = Some tq" "deref h (p ! n) = Some te"
      using arr unfolding heap_arr_def valid_def by (metis less_SucI lessI option.exhaust_sel)
    have "key_of h (p ! par n) \<le> key_of h (p ! n)"
      using arr False by (simp add: heap_arr_def heap_order_def)
    then have "\<not> min_heap_elem_greater tq te" by (simp add: greater_key_of [OF t] not_less)
    with False pn n v show ?thesis by (subst shift_up_loop_step [OF _ _ _ t]) simp_all
  qed (simp add: shift_up_loop_exit)
  moreover have "min_heap_shift_down_loop h p n n (p ! n) = Some (h, p, n)"
    using n by (intro shift_down_loop_leaf) simp_all
  ultimately have "min_heap_shift_down h p n n (p ! n) = Some (h', p)"
    using h'(1) by (simp add: min_heap_shift_down_def min_heap_shift_up_def)
  moreover have "p ! i \<noteq> p ! n" if "i < n" for i
    using heap_arr_inj [OF arr, of i n] that by auto
  then have "heap_arr h' p n"
    using arr h'(2,3) by (auto simp: heap_arr_def heap_order_def only_idx_key only_idx_valid)
  ultimately show thesis using h'(2) that by blast
qed

lemma slots_of_heap:
  assumes "heap_arr h p (Suc n)" "k < n"
  shows "slots h p n k (p ! n)"
proof -
  have "p ! i \<noteq> p ! n" if "i < n" for i
    using heap_arr_inj [OF assms(1), of i n] that by auto
  with assms show ?thesis by (auto simp: slots_def heap_arr_def)
qed

lemma remove_at:
  assumes arr: "heap_arr h p (Suc n)" and n: "Suc n < 2 ^ 31" and k: "k \<le> n"
  shows "\<exists>h' p' h''. min_heap_shift_down h p n k (p ! n) = Some (h', p') \<and>
    assign h' (p ! k) (min_heap_idx_update (\<lambda>_. m)) = Some h'' \<and> only_idx h h'' \<and>
    heap_arr h'' p' n \<and> mset (take n p') = mset (take (Suc n) p) - {#p ! k#} \<and>
    length p' = length p \<and> idx_of h'' (p ! k) = m"
proof -
  have len: "n < length p" "valid h (p ! k)" using arr k by (auto simp: heap_arr_def)
  have "\<exists>h' p'. min_heap_shift_down h p n k (p ! n) = Some (h', p') \<and> only_idx h h' \<and>
      heap_arr h' p' n \<and> mset (take n p') = mset (take (Suc n) p) - {#p ! k#} \<and> length p' = length p"
  proof (cases "k = n")
    case True
    obtain h' where "min_heap_shift_down h p n n (p ! n) = Some (h', p)" "only_idx h h'"
      "heap_arr h' p n"
      using shift_down_last [OF arr n] by blast
    with True show ?thesis by (simp add: take_Suc_mset [OF len(1)])
  next
    case False
    with k have kn: "k < n" by simp
    have ho: "heap_order (key_of h) p (Suc n)" using arr by (simp add: heap_arr_def)
    have "filled p n k (p ! n) = mset (take (Suc n) p) - {#p ! k#}"
    proof -
      have "p ! k \<in># mset (take n p)" using kn len by (auto simp: in_set_conv_nth)
      moreover have "filled p n k (p ! n) = add_mset (p ! n) (mset (take n p) - {#p ! k#})"
        using kn len by (simp add: filled_def take_update_swap mset_update)
      ultimately show ?thesis by (simp add: take_Suc_mset [OF len(1)])
    qed
    then show ?thesis
      using shift_down_correct [OF slots_of_heap [OF arr kn] _ heap_order_hole(1) [OF ho]
          heap_order_hole(2) [OF ho]] kn n by simp
  qed
  then obtain h' p' where h': "min_heap_shift_down h p n k (p ! n) = Some (h', p')" "only_idx h h'"
    "heap_arr h' p' n" "mset (take n p') = mset (take (Suc n) p) - {#p ! k#}" "length p' = length p"
    by blast
  have "valid h' (p ! k)" using len(2) by (simp add: only_idx_valid [OF h'(2)])
  then obtain h'' where h'': "assign h' (p ! k) (min_heap_idx_update (\<lambda>_. m)) = Some h''"
    using assign_valid unfolding valid_def by (metis not_None_eq)
  have ne: "p' ! i \<noteq> p ! k" if "i < n" for i
  proof
    assume "p' ! i = p ! k"
    then have "p ! k \<in># mset (take n p')"
      using that h'(5) len by (auto simp: in_set_conv_nth)
    moreover have "p ! k \<notin># mset (take (Suc n) p) - {#p ! k#}"
      by (rule distinct_minus_notin [OF heap_arr_distinct [OF arr]])
    ultimately show False using h'(4) by simp
  qed
  from heap_arr_detach [OF h'(3) h'' ne] h' h'' show ?thesis
    using only_idx_trans [OF h'(2)] by blast
qed

subsection \<open>The operations of the heap\<close>

lemma push_spec:
  assumes "heap_ok h s" "valid h e" "e \<notin># elems s" "hn s + 1 < 2 ^ 31"
  shows "(\<exists>h' s'. min_heap_push ok h s e = Some (0, h', s') \<and> heap_ok h' s' \<and>
            only_idx h h' \<and> elems s' = add_mset e (elems s)) \<or>
         min_heap_push ok h s e = Some (-1, h, s)"
proof -
  obtain r s1 where r: "min_heap_reserve ok s (u32 (hn s + 1)) = (r, s1)" by fastforce
  have u: "u32 (hn s + 1) = hn s + 1" using assms(4) by (intro u32_small) simp
  note res = reserve_spec [OF assms(1) _ r]
  have res': "heap_ok h s1" "elems s1 = elems s" "hn s1 = hn s"
    "r = 0 \<and> hn s + 1 \<le> ha s1 \<or> r = -1 \<and> s1 = s"
    using res u assms(4) by auto
  show ?thesis
  proof (cases "r = 0")
    case False
    with res'(4) r u show ?thesis by (simp add: min_heap_push_def Let_def)
  next
    case True
    let ?n = "hn s" and ?p = "hp s1"
    have ok1: "heap_arr h ?p ?n" "?n < length ?p" "length ?p = ha s1" "ha s1 < 2 ^ 32"
      using res' True by (auto simp: heap_ok_def)
    have sl: "slots h ?p (Suc ?n) ?n e"
    proof -
      have "e \<notin># elems s1" using assms(3) res'(2) by simp
      then have "?p ! i \<noteq> e" if "i < ?n" for i
        using that ok1(2) res'(3) unfolding in_elems by auto
      with ok1(1,2) assms(2) show ?thesis by (simp add: slots_def heap_arr_def less_Suc_eq)
    qed
    have ho: "ord_hole (key_of h) ?p (Suc ?n) ?n" "above_hole (key_of h) ?p (Suc ?n) ?n"
      "below_hole (key_of h) ?p (Suc ?n) ?n (key_of h e)"
    proof -
      have nc: "par i \<noteq> ?n" if "i < Suc ?n" "0 < i" for i
        using par_less [OF that(2)] that(1) by simp
      then show "above_hole (key_of h) ?p (Suc ?n) ?n"
        "below_hole (key_of h) ?p (Suc ?n) ?n (key_of h e)"
        unfolding above_hole_def below_hole_def by blast+
      show "ord_hole (key_of h) ?p (Suc ?n) ?n"
        using ok1(1) by (simp add: ord_hole_def heap_arr_def heap_order_def less_Suc_eq)
    qed
    obtain h' p' where up: "min_heap_shift_up h ?p ?n e = Some (h', p')" "only_idx h h'"
      "heap_arr h' p' (Suc ?n)" "mset (take (Suc ?n) p') = filled ?p (Suc ?n) ?n e"
      "length p' = length ?p"
      using shift_up_correct [OF sl _ ho] assms(4) by auto
    have fl: "filled ?p (Suc ?n) ?n e = add_mset e (elems s)"
      using ok1(2) res'(2,3) by (simp add: filled_def elems_def take_Suc_conv_app_nth)
    have "min_heap_push ok h s e = Some (0, h', s1\<lparr>hp := p', hn := Suc ?n\<rparr>)"
      using r u up(1) res'(3) True by (simp add: min_heap_push_def Let_def)
    moreover have "heap_ok h' (s1\<lparr>hp := p', hn := Suc ?n\<rparr>)"
      using res'(1) up(3,5) assms(4) by (simp add: heap_ok_def)
    moreover have "elems (s1\<lparr>hp := p', hn := Suc ?n\<rparr>) = add_mset e (elems s)"
      using up(4) fl by (simp add: elems_def)
    ultimately show ?thesis using up(2) by blast
  qed
qed

lemma top_spec:
  assumes "heap_ok h s"
  shows "hn s = 0 \<Longrightarrow> min_heap_top s = Some Null \<and> elems s = {#}"
    and "hn s \<noteq> 0 \<Longrightarrow> \<exists>a. min_heap_top s = Some (Ptr a) \<and> Ptr a \<in># elems s \<and>
           (\<forall>q \<in># elems s. key_of h (Ptr a) \<le> key_of h q)"
proof -
  show "hn s = 0 \<Longrightarrow> min_heap_top s = Some Null \<and> elems s = {#}"
    by (simp add: min_heap_top_def elems_def)
  assume n: "hn s \<noteq> 0"
  have arr: "heap_arr h (hp s) (hn s)" using assms by (simp add: heap_ok_def)
  then have 0: "0 < length (hp s)" "valid h (hp s ! 0)" using n by (auto simp: heap_arr_def)
  then obtain a where a: "hp s ! 0 = Ptr a" by (auto simp: valid_def store_simps)
  have "min_heap_top s = Some (Ptr a)" "Ptr a \<in># elems s"
    using n 0 a by (auto simp: min_heap_top_def in_elems intro!: exI [of _ 0])
  moreover have "key_of h (Ptr a) \<le> key_of h q" if "q \<in># elems s" for q
    using heap_arr_min [OF arr] that a by (auto simp: in_elems)
  ultimately show "\<exists>a. min_heap_top s = Some (Ptr a) \<and> Ptr a \<in># elems s \<and>
           (\<forall>q \<in># elems s. key_of h (Ptr a) \<le> key_of h q)"
    by blast
qed

lemma erase_spec:
  assumes "heap_ok h s" "e \<in># elems s"
  shows "\<exists>h' s'. min_heap_erase h s e = Some (0, h', s') \<and> heap_ok h' s' \<and> only_idx h h' \<and>
           elems s' = elems s - {#e#} \<and> idx_of h' e = uint_max"
proof -
  obtain n where n: "hn s = Suc n" using assms(2) by (cases "hn s") (auto simp: elems_def)
  have arr: "heap_arr h (hp s) (Suc n)" and b: "Suc n < 2 ^ 31"
    using assms(1) n by (simp_all add: heap_ok_def)
  obtain k where k: "k \<le> n" "hp s ! k = e" using assms(2) n by (auto simp: in_elems less_Suc_eq_le)
  with arr have ik: "idx_of h e = k" "valid h e" by (auto simp: heap_arr_def)
  then obtain te where te: "deref h e = Some te" "min_heap_idx te = k"
    by (auto simp: idx_of_def valid_def)
  obtain h1 p' h' where r: "min_heap_shift_down h (hp s) n k (hp s ! n) = Some (h1, p')"
    "assign h1 e (min_heap_idx_update (\<lambda>_. uint_max)) = Some h'" "only_idx h h'"
    "heap_arr h' p' n" "mset (take n p') = mset (take (Suc n) (hp s)) - {#e#}"
    "length p' = length (hp s)" "idx_of h' e = uint_max"
    using remove_at [OF arr b k(1), of uint_max] k(2) by auto
  have nm: "k \<noteq> uint_max" using k(1) b by (simp add: uint_max_def)
  have s1: "u32_sub (hn s) 1 = n" using n b by simp
  have len: "n < length (hp s)" using arr by (simp add: heap_arr_def)
  have "min_heap_erase h s e = Some (0, h', s\<lparr>hp := p', hn := n\<rparr>)"
    unfolding min_heap_erase_def using te nm s1 len r(1,2) by simp
  moreover have "heap_ok h' (s\<lparr>hp := p', hn := n\<rparr>)"
    using assms(1) r(4,6) b by (simp add: heap_ok_def)
  moreover have "elems (s\<lparr>hp := p', hn := n\<rparr>) = elems s - {#e#}"
    using r(5) n by (simp add: elems_def)
  ultimately show ?thesis using r(3,7) by blast
qed

lemma pop_spec:
  assumes "heap_ok h s" "hn s \<noteq> 0"
  shows "\<exists>e h' s'. min_heap_pop h s = Some (e, h', s') \<and> min_heap_top s = Some e \<and>
           heap_ok h' s' \<and> only_idx h h' \<and> elems s' = elems s - {#e#} \<and> idx_of h' e = uint_max"
proof -
  obtain n where n: "hn s = Suc n" using assms(2) by (cases "hn s") auto
  have arr: "heap_arr h (hp s) (Suc n)" and b: "Suc n < 2 ^ 31"
    using assms(1) n by (simp_all add: heap_ok_def)
  have len: "n < length (hp s)" using arr by (simp add: heap_arr_def)
  then have z: "nth_opt (hp s) 0 = Some (hp s ! 0)" by (intro nth_opt_in) linarith
  let ?e = "hp s ! 0"
  obtain h1 p' h' where r: "min_heap_shift_down h (hp s) n 0 (hp s ! n) = Some (h1, p')"
    "assign h1 ?e (min_heap_idx_update (\<lambda>_. uint_max)) = Some h'" "only_idx h h'"
    "heap_arr h' p' n" "mset (take n p') = mset (take (Suc n) (hp s)) - {#?e#}"
    "length p' = length (hp s)" "idx_of h' ?e = uint_max"
    using remove_at [OF arr b, of 0 uint_max] by auto
  have "min_heap_pop h s = Some (?e, h', s\<lparr>hp := p', hn := n\<rparr>)"
    unfolding min_heap_pop_def using n z len r(1,2) by simp
  moreover have "heap_ok h' (s\<lparr>hp := p', hn := n\<rparr>)"
    using assms(1) r(4,6) b by (simp add: heap_ok_def)
  moreover have "elems (s\<lparr>hp := p', hn := n\<rparr>) = elems s - {#?e#}"
    using r(5) n by (simp add: elems_def)
  moreover have "min_heap_top s = Some ?e" using n z by (simp add: min_heap_top_def)
  ultimately show ?thesis using r(3,7) by blast
qed

end
