(* ===== verification/Timer_List.thy ===== *)
theory Timer_List
  imports Timer_Time
begin

section \<open>mytimer: the list of activated timers and the list of wrappers\<close>

text \<open>
  \<open>mytimer/list.h\<close> and \<open>mytimer/list.c\<close>.  The two kinds of list have the same code
  over different nodes: \<open>struct list\<close> links timers, \<open>struct m_list\<close> links timer
  wrappers.  A null list pointer is \<open>None\<close>.  Freeing a block removes both the timer and
  the wrapper that begin at its address.
\<close>

record tmem =
  timers :: "timer store"
  wraps :: "timer_wrapper store"

record tlist =
  l_head :: ptr
  l_len :: int

definition free_block :: "tmem \<Rightarrow> ptr \<Rightarrow> tmem option" where
  "free_block m p = (case p of
     Null \<Rightarrow> Some m
   | Wild \<Rightarrow> None
   | Ptr a \<Rightarrow> if timers m a = None then None
             else Some (m\<lparr>timers := (timers m)(a := None), wraps := (wraps m)(a := None)\<rparr>))"

definition timer_free :: "tmem \<Rightarrow> ptr \<Rightarrow> tmem option" where
  "timer_free m t = (if t = Null then Some m else free_block m t)"

definition timer_wrapper_free :: "tmem \<Rightarrow> ptr \<Rightarrow> tmem option" where
  "timer_wrapper_free m mt = (if mt = Null then Some m else free_block m mt)"

subsection \<open>struct list\<close>

definition list_new :: "bool \<Rightarrow> tlist option" where
  "list_new malloc_ok = (if malloc_ok then Some \<lparr>l_head = Null, l_len = 0\<rparr> else None)"

partial_function (option) list_free_loop :: "tmem \<Rightarrow> ptr \<Rightarrow> int \<Rightarrow> (tmem \<times> int) option" where
  "list_free_loop m p len =
     (if p = Null then Some (m, len) else
      Option.bind (deref (timers m) p) (\<lambda>t.
      Option.bind (timer_free m p) (\<lambda>m'.
      list_free_loop m' (t_next t) (len - 1))))"

definition list_free :: "tmem \<Rightarrow> tlist option \<Rightarrow> (tmem \<times> tlist option) option" where
  "list_free m l = (case l of
     None \<Rightarrow> Some (m, None)
   | Some L \<Rightarrow> do {
       (m', len) \<leftarrow> list_free_loop m (l_head L) (l_len L);
       Some (m', Some (L\<lparr>l_len := len\<rparr>)) })"

definition list_insert :: "timer store \<Rightarrow> tlist option \<Rightarrow> ptr \<Rightarrow> (int \<times> timer store \<times> tlist option) option" where
  "list_insert h l t = (case l of
     None \<Rightarrow> Some (-1, h, None)
   | Some L \<Rightarrow> do {
       h' \<leftarrow> assign h t (t_next_update (\<lambda>_. l_head L));
       Some (0, h', Some (L\<lparr>l_head := t, l_len := l_len L + 1\<rparr>)) })"

definition list_remove :: "timer store \<Rightarrow> tlist option \<Rightarrow> ptr \<Rightarrow> (int \<times> timer store \<times> tlist option) option" where
  "list_remove h l t = (case l of
     None \<Rightarrow> Some (0, h, None)
   | Some L \<Rightarrow>
       if l_len L = 0 \<or> t = Null then Some (0, h, Some L)
       else if l_head L = t then do {
         tt \<leftarrow> deref h t;
         h' \<leftarrow> (if t_next tt \<noteq> Null then assign h (t_next tt) (t_prev_update (\<lambda>_. Null)) else Some h);
         Some (0, h', Some (L\<lparr>l_head := t_next tt, l_len := l_len L - 1\<rparr>)) }
       else do {
         tt \<leftarrow> deref h t;
         h1 \<leftarrow> assign h (t_prev tt) (t_next_update (\<lambda>_. t_next tt));
         t1 \<leftarrow> deref h1 t;
         h2 \<leftarrow> (if t_next t1 \<noteq> Null
               then assign h1 (t_next t1) (t_prev_update (\<lambda>_. t_prev t1)) else Some h1);
         Some (0, h2, Some (L\<lparr>l_len := l_len L - 1\<rparr>)) })"

subsection \<open>struct m_list\<close>

definition m_list_new :: "bool \<Rightarrow> tlist option" where
  "m_list_new malloc_ok = (if malloc_ok then Some \<lparr>l_head = Null, l_len = 0\<rparr> else None)"

partial_function (option) m_list_free_loop :: "tmem \<Rightarrow> ptr \<Rightarrow> int \<Rightarrow> (tmem \<times> int) option" where
  "m_list_free_loop m p len =
     (if p = Null then Some (m, len) else
      Option.bind (deref (wraps m) p) (\<lambda>w.
      Option.bind (timer_wrapper_free m p) (\<lambda>m'.
      m_list_free_loop m' (w_next w) (len - 1))))"

definition m_list_free :: "tmem \<Rightarrow> tlist option \<Rightarrow> (tmem \<times> tlist option) option" where
  "m_list_free m l = (case l of
     None \<Rightarrow> Some (m, None)
   | Some L \<Rightarrow> do {
       (m', len) \<leftarrow> m_list_free_loop m (l_head L) (l_len L);
       Some (m', Some (L\<lparr>l_len := len\<rparr>)) })"

definition m_list_insert ::
  "timer_wrapper store \<Rightarrow> tlist option \<Rightarrow> ptr \<Rightarrow> (int \<times> timer_wrapper store \<times> tlist option) option" where
  "m_list_insert h l t = (case l of
     None \<Rightarrow> Some (-1, h, None)
   | Some L \<Rightarrow> do {
       h' \<leftarrow> assign h t (w_next_update (\<lambda>_. l_head L));
       Some (0, h', Some (L\<lparr>l_head := t, l_len := l_len L + 1\<rparr>)) })"

definition m_list_remove ::
  "timer_wrapper store \<Rightarrow> tlist option \<Rightarrow> ptr \<Rightarrow> (int \<times> timer_wrapper store \<times> tlist option) option" where
  "m_list_remove h l t = (case l of
     None \<Rightarrow> Some (0, h, None)
   | Some L \<Rightarrow>
       if l_len L = 0 \<or> t = Null then Some (0, h, Some L)
       else if l_head L = t then do {
         tt \<leftarrow> deref h t;
         h' \<leftarrow> (if w_next tt \<noteq> Null then assign h (w_next tt) (w_prev_update (\<lambda>_. Null)) else Some h);
         Some (0, h', Some (L\<lparr>l_head := w_next tt, l_len := l_len L - 1\<rparr>)) }
       else do {
         tt \<leftarrow> deref h t;
         h1 \<leftarrow> assign h (w_prev tt) (w_next_update (\<lambda>_. w_next tt));
         t1 \<leftarrow> deref h1 t;
         h2 \<leftarrow> (if w_next t1 \<noteq> Null
               then assign h1 (w_next t1) (w_prev_update (\<lambda>_. w_prev t1)) else Some h1);
         Some (0, h2, Some (L\<lparr>l_len := l_len L - 1\<rparr>)) })"

subsection \<open>What the lists contain\<close>

definition t_links :: "timer store \<Rightarrow> nat \<Rightarrow> ptr option" where
  "t_links h a = map_option t_next (h a)"

definition w_links :: "timer_wrapper store \<Rightarrow> nat \<Rightarrow> ptr option" where
  "w_links h a = map_option w_next (h a)"

definition list_holds :: "timer store \<Rightarrow> tlist \<Rightarrow> nat list \<Rightarrow> bool" where
  "list_holds h L as \<longleftrightarrow> chain (t_links h) (l_head L) as \<and> l_len L = int (length as)"

definition m_list_holds :: "timer_wrapper store \<Rightarrow> tlist \<Rightarrow> nat list \<Rightarrow> bool" where
  "m_list_holds h L as \<longleftrightarrow> chain (w_links h) (l_head L) as \<and> l_len L = int (length as) \<and>
     (\<forall>a \<in> set as. \<forall>w. h a = Some w \<longrightarrow> w_prev w \<in> {Null, Wild})"

lemma list_holds_new: "list_new True = Some L \<Longrightarrow> list_holds h L []"
  by (auto simp: list_new_def list_holds_def)

lemma m_list_holds_new: "m_list_new True = Some L \<Longrightarrow> m_list_holds h L []"
  by (auto simp: m_list_new_def m_list_holds_def)

lemma list_holds_cong:
  "(\<And>a. a \<in> set as \<Longrightarrow> t_links h' a = t_links h a) \<Longrightarrow> list_holds h' L as = list_holds h L as"
  unfolding list_holds_def by (metis chain_cong)

lemma list_insert_spec:
  assumes "list_holds h L as" "h a = Some t" "a \<notin> set as"
  shows "list_insert h (Some L) (Ptr a) =
      Some (0, h(a \<mapsto> t\<lparr>t_next := l_head L\<rparr>), Some (L\<lparr>l_head := Ptr a, l_len := l_len L + 1\<rparr>))"
    and "list_holds (h(a \<mapsto> t\<lparr>t_next := l_head L\<rparr>)) (L\<lparr>l_head := Ptr a, l_len := l_len L + 1\<rparr>) (a # as)"
proof -
  show "list_insert h (Some L) (Ptr a) =
      Some (0, h(a \<mapsto> t\<lparr>t_next := l_head L\<rparr>), Some (L\<lparr>l_head := Ptr a, l_len := l_len L + 1\<rparr>))"
    using assms(2) by (simp add: list_insert_def)
  let ?h = "h(a \<mapsto> t\<lparr>t_next := l_head L\<rparr>)"
  have "chain (t_links ?h) (l_head L) as"
    using assms by (subst chain_cong [of as _ "t_links h"]) (auto simp: t_links_def list_holds_def)
  then show "list_holds ?h (L\<lparr>l_head := Ptr a, l_len := l_len L + 1\<rparr>) (a # as)"
    using assms(1) by (simp add: list_holds_def t_links_def)
qed

lemma list_remove_head_spec:
  assumes "list_holds h L (a # as)"
  shows "\<exists>h' L'. list_remove h (Some L) (Ptr a) = Some (0, h', Some L') \<and> list_holds h' L' as \<and>
    (\<forall>b t. h b = Some t \<longrightarrow> (\<exists>q. h' b = Some (t\<lparr>t_prev := q\<rparr>))) \<and> (\<forall>b. h b = None \<longrightarrow> h' b = None)"
proof -
  from assms obtain t where t: "h a = Some t" "l_head L = Ptr a" "chain (t_links h) (t_next t) as"
    "l_len L = int (length as) + 1"
    by (auto simp: list_holds_def t_links_def)
  let ?L = "L\<lparr>l_head := t_next t, l_len := l_len L - 1\<rparr>"
  show ?thesis
  proof (cases as)
    case Nil
    with t have "t_next t = Null" by simp
    with t have "list_remove h (Some L) (Ptr a) = Some (0, h, Some ?L)"
      by (simp add: list_remove_def)
    moreover have "list_holds h ?L as" using t by (simp add: list_holds_def)
    moreover have "\<exists>q. h b = Some (u\<lparr>t_prev := q\<rparr>)" if "h b = Some u" for b u
      using that by (intro exI [of _ "t_prev u"]) simp
    ultimately show ?thesis by blast
  next
    case (Cons b bs)
    with t obtain u where u: "t_next t = Ptr b" "h b = Some u" by (auto simp: t_links_def)
    let ?h = "h(b \<mapsto> u\<lparr>t_prev := Null\<rparr>)"
    have "list_remove h (Some L) (Ptr a) = Some (0, ?h, Some ?L)"
      using t u by (simp add: list_remove_def)
    moreover have "chain (t_links ?h) (t_next t) as"
      using t(3) u by (subst chain_cong [of as _ "t_links h"]) (auto simp: t_links_def)
    then have "list_holds ?h ?L as" using t by (simp add: list_holds_def)
    moreover have "\<exists>q. ?h c = Some (v\<lparr>t_prev := q\<rparr>)" if "h c = Some v" for c v
      using that u by (cases "c = b") (auto intro: exI [of _ "t_prev v"])
    moreover have "h c = None \<longrightarrow> ?h c = None" for c using u by auto
    ultimately show ?thesis by blast
  qed
qed

lemma m_list_insert_spec:
  assumes "m_list_holds h L as" "h a = Some w" "a \<notin> set as" "w_prev w \<in> {Null, Wild}"
  shows "m_list_insert h (Some L) (Ptr a) =
      Some (0, h(a \<mapsto> w\<lparr>w_next := l_head L\<rparr>), Some (L\<lparr>l_head := Ptr a, l_len := l_len L + 1\<rparr>))"
    and "m_list_holds (h(a \<mapsto> w\<lparr>w_next := l_head L\<rparr>)) (L\<lparr>l_head := Ptr a, l_len := l_len L + 1\<rparr>) (a # as)"
proof -
  show "m_list_insert h (Some L) (Ptr a) =
      Some (0, h(a \<mapsto> w\<lparr>w_next := l_head L\<rparr>), Some (L\<lparr>l_head := Ptr a, l_len := l_len L + 1\<rparr>))"
    using assms(2) by (simp add: m_list_insert_def)
  let ?h = "h(a \<mapsto> w\<lparr>w_next := l_head L\<rparr>)"
  have "chain (w_links ?h) (l_head L) as"
    using assms by (subst chain_cong [of as _ "w_links h"]) (auto simp: w_links_def m_list_holds_def)
  then show "m_list_holds ?h (L\<lparr>l_head := Ptr a, l_len := l_len L + 1\<rparr>) (a # as)"
    using assms by (auto simp: m_list_holds_def w_links_def)
qed

lemma m_list_remove_head_spec:
  assumes "m_list_holds h L (a # as)"
  shows "\<exists>h' L'. m_list_remove h (Some L) (Ptr a) = Some (0, h', Some L') \<and> m_list_holds h' L' as \<and>
    dom h' = dom h"
proof -
  from assms obtain t where t: "h a = Some t" "l_head L = Ptr a" "chain (w_links h) (w_next t) as"
    "l_len L = int (length as) + 1"
    by (auto simp: m_list_holds_def w_links_def)
  let ?L = "L\<lparr>l_head := w_next t, l_len := l_len L - 1\<rparr>"
  show ?thesis
  proof (cases as)
    case Nil
    with t have "w_next t = Null" by simp
    with t have "m_list_remove h (Some L) (Ptr a) = Some (0, h, Some ?L)"
      by (simp add: m_list_remove_def)
    moreover have "m_list_holds h ?L as" using t Nil by (simp add: m_list_holds_def)
    ultimately show ?thesis by blast
  next
    case (Cons b bs)
    with t obtain u where u: "w_next t = Ptr b" "h b = Some u" by (auto simp: w_links_def)
    let ?h = "h(b \<mapsto> u\<lparr>w_prev := Null\<rparr>)"
    have "m_list_remove h (Some L) (Ptr a) = Some (0, ?h, Some ?L)"
      using t u by (simp add: m_list_remove_def)
    moreover have "chain (w_links ?h) (w_next t) as"
      using t(3) u by (subst chain_cong [of as _ "w_links h"]) (auto simp: w_links_def)
    then have "m_list_holds ?h ?L as" using t assms by (auto simp: m_list_holds_def)
    moreover have "dom ?h = dom h" using u by auto
    ultimately show ?thesis by blast
  qed
qed

text \<open>
  No operation of the module ever stores the address of a node in a \<open>prev\<close> field, so
  taking out a node that is not the head goes through a null or uninitialised pointer.
\<close>

lemma m_list_remove_inner:
  assumes "m_list_holds h L as" "a \<in> set as" "l_head L \<noteq> Ptr a"
  shows "m_list_remove h (Some L) (Ptr a) = None"
proof -
  from assms obtain w where w: "h a = Some w" "w_prev w \<in> {Null, Wild}"
    unfolding m_list_holds_def w_links_def by (metis chain_in_dom option.map_disc_iff option.exhaust)
  have "l_len L \<noteq> 0" using assms by (auto simp: m_list_holds_def)
  with w assms(3) show ?thesis by (auto simp: m_list_remove_def)
qed

end
