(* ===== verification/Contracts.thy ===== *)
theory Contracts
  imports Prelude
begin

section \<open>Interfaces between components\<close>

text \<open>
  The contracts that components rely on, as locales: a client's lemmas are proved once under
  the laws, and the theory of the component that provides the operations interprets the
  locale on the code's own definitions.
\<close>

subsection \<open>Queues from which the due elements are taken in key order\<close>

text \<open>
  The loop \<open>while ((e = front())) { if (!due(e)) break; take(e); }\<close> over any state, with
  the elements taken so far, last one first.
\<close>

partial_function (option) drain ::
  "('st \<Rightarrow> 'e option) \<Rightarrow> ('st \<Rightarrow> 'e \<Rightarrow> 'st option) \<Rightarrow> ('st \<Rightarrow> 'e \<Rightarrow> bool) \<Rightarrow>
   'st \<Rightarrow> 'e list \<Rightarrow> ('e list \<times> 'st) option" where
  "drain front take_out due s acc =
     (case front s of
        None \<Rightarrow> Some (acc, s)
      | Some e \<Rightarrow> if due s e
          then Option.bind (take_out s e) (\<lambda>s'. drain front take_out due s' (e # acc))
          else Some (acc, s))"

locale expiry_queue =
  fixes front :: "'st \<Rightarrow> 'e option"
    and take_out :: "'st \<Rightarrow> 'e \<Rightarrow> 'st option"
    and items :: "'st \<Rightarrow> 'e multiset"
    and key :: "'st \<Rightarrow> 'e \<Rightarrow> 'k::linorder"
    and taken :: "'st \<Rightarrow> 'e list"
    and ok :: "'st \<Rightarrow> bool"
  assumes front_None: "ok s \<Longrightarrow> front s = None \<longleftrightarrow> items s = {#}"
    and front_Some: "ok s \<Longrightarrow> front s = Some e \<Longrightarrow> e \<in># items s \<and> (\<forall>x \<in># items s. key s e \<le> key s x)"
    and take_out: "ok s \<Longrightarrow> front s = Some e \<Longrightarrow>
      \<exists>s'. take_out s e = Some s' \<and> ok s' \<and> items s' = items s - {#e#} \<and> key s' = key s \<and>
        taken s' = e # taken s"
begin

lemma drain_total:
  assumes "ok s" and due: "\<forall>s' e. ok s' \<longrightarrow> key s' = key s \<longrightarrow> e \<in># items s' \<longrightarrow> due s' e = P (key s e)"
    and mono: "\<forall>x y. P y \<longrightarrow> x \<le> y \<longrightarrow> P x"
  shows "\<exists>out s'. drain front take_out due s acc = Some (out @ acc, s') \<and> ok s' \<and> key s' = key s \<and>
    taken s' = out @ taken s \<and> items s = mset out + items s' \<and> sorted (rev (map (key s) out)) \<and>
    (\<forall>x \<in> set out. P (key s x) \<and> (\<forall>y \<in># items s'. key s x \<le> key s y)) \<and>
    (\<forall>x \<in># items s'. \<not> P (key s x))"
  using assms
proof (induction "size (items s)" arbitrary: s acc rule: less_induct)
  case less
  show ?case
  proof (cases "front s")
    case None
    then have "items s = {#}" using front_None less.prems(1) by blast
    moreover have "drain front take_out due s acc = Some ([] @ acc, s)"
      using None by (subst drain.simps) simp
    ultimately show ?thesis using less.prems(1) by (intro exI [of _ "[]"] exI [of _ s]) simp
  next
    case (Some e)
    have least: "e \<in># items s" "\<forall>x \<in># items s. key s e \<le> key s x"
      using front_Some less.prems(1) Some by blast+
    have dP: "due s e = P (key s e)" using less.prems(1,2) least(1) by blast
    show ?thesis
    proof (cases "P (key s e)")
      case False
      then have "drain front take_out due s acc = Some ([] @ acc, s)"
        using Some dP by (subst drain.simps) simp
      moreover have "\<forall>x \<in># items s. \<not> P (key s x)"
        using False least(2) less.prems(3) by blast
      ultimately show ?thesis using less.prems(1) by (intro exI [of _ "[]"] exI [of _ s]) simp
    next
      case True
      obtain s1 where s1: "take_out s e = Some s1" "ok s1" "items s1 = items s - {#e#}" "key s1 = key s"
        "taken s1 = e # taken s"
        using take_out less.prems(1) Some by blast
      have it: "items s = add_mset e (items s1)" using s1(3) least(1) by simp
      then have sz: "size (items s1) < size (items s)" by simp
      have due1: "\<forall>s' x. ok s' \<longrightarrow> key s' = key s1 \<longrightarrow> x \<in># items s' \<longrightarrow> due s' x = P (key s1 x)"
        using less.prems(2) s1(4) by simp
      from less.hyps [OF sz s1(2) due1 less.prems(3), where acc = "e # acc"]
      obtain out s' where r: "drain front take_out due s1 (e # acc) = Some (out @ e # acc, s')" "ok s'"
        "key s' = key s" "taken s' = out @ taken s1" "items s1 = mset out + items s'" "sorted (rev (map (key s) out))"
        "\<forall>x \<in> set out. P (key s x) \<and> (\<forall>y \<in># items s'. key s x \<le> key s y)"
        "\<forall>x \<in># items s'. \<not> P (key s x)"
        unfolding s1(4) by blast
      have "drain front take_out due s acc = Some ((out @ [e]) @ acc, s')"
        using Some True dP s1(1) r(1) by (subst drain.simps) simp
      moreover have "\<forall>x \<in> set out. key s e \<le> key s x"
        using least(2) it r(5) by (metis UnCI set_mset_mset set_mset_union union_mset_add_mset_left
            insert_iff set_mset_add_mset_insert)
      moreover have "\<forall>y \<in># items s'. key s e \<le> key s y"
        using least(2) it r(5) by simp
      ultimately show ?thesis
        using r it True s1(5) by (intro exI [of _ "out @ [e]"] exI [of _ s']) (auto simp: sorted_append)
    qed
  qed
qed

end

subsection \<open>Byte queues\<close>

text \<open>
  A buffer into which bytes are appended at one end and drained at the other.  Appending may
  fail; a run of operations fails when an append does.
\<close>

datatype 'b fifo_op = Append "'b list" | Drain nat

fun fifo_run ::
  "('st \<Rightarrow> 'b list) \<Rightarrow> ('st \<Rightarrow> 'b list \<Rightarrow> 'st option) \<Rightarrow> ('st \<Rightarrow> nat \<Rightarrow> 'st) \<Rightarrow> 'st \<Rightarrow> 'b fifo_op list \<Rightarrow>
   ('b list \<times> 'st) option" where
  "fifo_run cont app dr s [] = Some ([], s)"
| "fifo_run cont app dr s (Append bs # ops) = do {
     s' \<leftarrow> app s bs;
     fifo_run cont app dr s' ops }"
| "fifo_run cont app dr s (Drain n # ops) = do {
     (out, s') \<leftarrow> fifo_run cont app dr (dr s n) ops;
     Some (take n (cont s) @ out, s') }"

fun appended :: "'b fifo_op list \<Rightarrow> 'b list" where
  "appended [] = []"
| "appended (Append bs # ops) = bs @ appended ops"
| "appended (Drain n # ops) = appended ops"

locale byte_fifo =
  fixes contents :: "'st \<Rightarrow> 'b list"
    and app :: "'st \<Rightarrow> 'b list \<Rightarrow> 'st option"
    and dr :: "'st \<Rightarrow> nat \<Rightarrow> 'st"
    and ok :: "'st \<Rightarrow> bool"
  assumes app: "ok s \<Longrightarrow> app s bs = Some s' \<Longrightarrow> ok s' \<and> contents s' = contents s @ bs"
    and drain: "ok s \<Longrightarrow> ok (dr s n) \<and> contents (dr s n) = drop n (contents s)"
begin

lemma first_in_first_out:
  "ok s \<Longrightarrow> fifo_run contents app dr s ops = Some (out, s') \<Longrightarrow>
   ok s' \<and> out @ contents s' = contents s @ appended ops"
proof (induction ops arbitrary: s out)
  case Nil
  then show ?case by simp
next
  case (Cons x ops)
  show ?case
  proof (cases x)
    case (Append bs)
    then obtain s1 where "app s bs = Some s1" "fifo_run contents app dr s1 ops = Some (out, s')"
      using Cons.prems(2) by (auto split: bind_splits)
    with Append app Cons.IH Cons.prems(1) show ?thesis by fastforce
  next
    case (Drain n)
    then obtain o1 where o: "fifo_run contents app dr (dr s n) ops = Some (o1, s')" "out = take n (contents s) @ o1"
      using Cons.prems(2) by (auto split: bind_splits)
    have d: "ok (dr s n)" "contents (dr s n) = drop n (contents s)" using drain Cons.prems(1) by blast+
    from Cons.IH [OF d(1) o(1)] d(2) o(2) Drain show ?thesis
      by (metis append.assoc append_take_drop_id appended.simps(3))
  qed
qed

end

subsection \<open>Tail queues\<close>

text \<open>
  A linked structure of named elements into which an element is put at a fixed place and from
  which any element is removed: a run of operations on it is the run on a list.  A queue puts
  its elements at the tail.
\<close>

datatype 'e queue_op = Enq 'e | Deq 'e

fun queue_run ::
  "('st \<Rightarrow> 'e \<Rightarrow> 'st option) \<Rightarrow> ('st \<Rightarrow> 'e \<Rightarrow> 'st option) \<Rightarrow> 'st \<Rightarrow> 'e queue_op list \<Rightarrow> 'st option" where
  "queue_run ins del s [] = Some s"
| "queue_run ins del s (Enq e # ops) = Option.bind (ins s e) (\<lambda>s'. queue_run ins del s' ops)"
| "queue_run ins del s (Deq e # ops) = Option.bind (del s e) (\<lambda>s'. queue_run ins del s' ops)"

fun list_run_by :: "('e list \<Rightarrow> 'e \<Rightarrow> 'e list) \<Rightarrow> 'e list \<Rightarrow> 'e queue_op list \<Rightarrow> 'e list option" where
  "list_run_by put es [] = Some es"
| "list_run_by put es (Enq e # ops) = (if e \<in> set es then None else list_run_by put (put es e) ops)"
| "list_run_by put es (Deq e # ops) = (if e \<in> set es then list_run_by put (remove1 e es) ops else None)"

abbreviation list_run :: "'e list \<Rightarrow> 'e queue_op list \<Rightarrow> 'e list option" where
  "list_run \<equiv> list_run_by (\<lambda>es e. es @ [e])"

locale list_store =
  fixes put :: "'e list \<Rightarrow> 'e \<Rightarrow> 'e list"
    and holds :: "'st \<Rightarrow> 'e list \<Rightarrow> bool"
    and known :: "'st \<Rightarrow> 'e set"
    and ins :: "'st \<Rightarrow> 'e \<Rightarrow> 'st option"
    and del :: "'st \<Rightarrow> 'e \<Rightarrow> 'st option"
  assumes ins: "holds s es \<Longrightarrow> e \<in> known s \<Longrightarrow> e \<notin> set es \<Longrightarrow>
      \<exists>s'. ins s e = Some s' \<and> holds s' (put es e) \<and> known s' = known s"
    and del: "holds s es \<Longrightarrow> e \<in> set es \<Longrightarrow>
      \<exists>s'. del s e = Some s' \<and> holds s' (remove1 e es) \<and> known s' = known s"
begin

lemma run_ok:
  "holds s es \<Longrightarrow> list_run_by put es ops = Some es' \<Longrightarrow> \<forall>e. Enq e \<in> set ops \<longrightarrow> e \<in> known s \<Longrightarrow>
   \<exists>s'. queue_run ins del s ops = Some s' \<and> holds s' es'"
proof (induction ops arbitrary: s es)
  case Nil
  then show ?case by simp
next
  case (Cons x ops)
  show ?case
  proof (cases x)
    case (Enq e)
    then have "e \<notin> set es" "list_run_by put (put es e) ops = Some es'" using Cons.prems(2) by (auto split: if_splits)
    moreover have "e \<in> known s" using Cons.prems(3) Enq by simp
    with calculation obtain s1 where "ins s e = Some s1" "holds s1 (put es e)" "known s1 = known s"
      using ins [OF Cons.prems(1), of e] by auto
    ultimately show ?thesis using Cons.IH [of s1 "put es e"] Cons.prems(3) Enq by auto
  next
    case (Deq e)
    then have "e \<in> set es" "list_run_by put (remove1 e es) ops = Some es'" using Cons.prems(2) by (auto split: if_splits)
    moreover obtain s1 where "del s e = Some s1" "holds s1 (remove1 e es)" "known s1 = known s"
      using del [OF Cons.prems(1)] calculation(1) by auto
    ultimately show ?thesis using Cons.IH [of s1 "remove1 e es"] Cons.prems(3) Deq by auto
  qed
qed

end

locale tail_queue = list_store "\<lambda>es e. es @ [e]" holds known ins del
  for holds :: "'st \<Rightarrow> 'e list \<Rightarrow> bool" and known :: "'st \<Rightarrow> 'e set" and ins del :: "'st \<Rightarrow> 'e \<Rightarrow> 'st option"

end
