(* ===== verification/Timer_Core.thy ===== *)
theory Timer_Core
  imports Timer_Heap Timer_List Contracts
begin

section \<open>mytimer: the timer module\<close>

text \<open>
  \<open>mytimer/timer.c\<close>, with \<open>mytimer/select.c\<close> and \<open>mytimer/config.h\<close>.  The
  module variables are one record.  \<open>malloc\<close> is the address it returns (\<open>None\<close> when it
  fails), \<open>realloc\<close> a predicate on sizes, \<open>select\<close> and the monotonic clock are inputs
  of a loop iteration.  A user callback is a function on the module state given as the
  parameter \<open>usr\<close>; every call of one is recorded in the ghost field \<open>called\<close>.
\<close>

record tmod =
  mem :: tmem
  mh :: "min_heap option"
  tl :: "tlist option"
  ml :: "tlist option"
  called :: "(nat \<times> ptr) list"

type_synonym user_cbs = "nat \<Rightarrow> ptr \<Rightarrow> tmod \<Rightarrow> tmod option"

subsection \<open>Module initialisation\<close>

definition heap_dtor_if :: "tmod \<Rightarrow> tmod option" where
  "heap_dtor_if st = (case mh st of
     None \<Rightarrow> Some st
   | Some s \<Rightarrow> do { s' \<leftarrow> min_heap_dtor s; Some (st\<lparr>mh := Some s'\<rparr>) })"

definition tl_free_if :: "tmod \<Rightarrow> tmod option" where
  "tl_free_if st = do { (m, l) \<leftarrow> list_free (mem st) (tl st); Some (st\<lparr>mem := m, tl := l\<rparr>) }"

definition ml_free_if :: "tmod \<Rightarrow> tmod option" where
  "ml_free_if st = do { (m, l) \<leftarrow> m_list_free (mem st) (ml st); Some (st\<lparr>mem := m, ml := l\<rparr>) }"

definition timer_destory :: "tmod \<Rightarrow> (int \<times> tmod) option" where
  "timer_destory st = do {
     st1 \<leftarrow> heap_dtor_if st; st2 \<leftarrow> tl_free_if st1; st3 \<leftarrow> ml_free_if st2; Some (0, st3) }"

definition timer_init_error :: "tmod \<Rightarrow> (int \<times> tmod) option" where
  "timer_init_error st = do {
     st1 \<leftarrow> heap_dtor_if st; st2 \<leftarrow> tl_free_if st1; st3 \<leftarrow> ml_free_if st2; Some (-1, st3) }"

definition timer_init :: "bool \<Rightarrow> bool \<Rightarrow> bool \<Rightarrow> tmod \<Rightarrow> (int \<times> tmod) option" where
  "timer_init mh_ok tl_ok ml_ok st = do {
     st1 \<leftarrow> heap_dtor_if st;
     if \<not> mh_ok then timer_init_error (st1\<lparr>mh := None\<rparr>) else do {
     let st2 = st1\<lparr>mh := Some min_heap_ctor\<rparr>;
     st3 \<leftarrow> tl_free_if st2;
     let st4 = st3\<lparr>tl := list_new tl_ok\<rparr>;
     if tl st4 = None then timer_init_error st4 else do {
     st5 \<leftarrow> ml_free_if st4;
     let st6 = st5\<lparr>ml := m_list_new ml_ok\<rparr>;
     if ml st6 = None then timer_init_error st6 else Some (0, st6) } } }"

subsection \<open>Timers\<close>

definition timer_new :: "nat option \<Rightarrow> tmem \<Rightarrow> (ptr \<times> tmem) option" where
  "timer_new malloc m = (case malloc of
     None \<Rightarrow> Some (Null, m)
   | Some a \<Rightarrow> if timers m a \<noteq> None then None
              else Some (Ptr a, m\<lparr>timers := (timers m)(a \<mapsto> raw_timer)\<rparr>))"

definition timer_set :: "tmod \<Rightarrow> ptr \<Rightarrow> cbfun \<Rightarrow> ptr \<Rightarrow> (int \<times> tmod) option" where
  "timer_set st t f x =
     (if t = Null then Some (-1, st) else do {
        h \<leftarrow> assign (timers (mem st)) t (\<lambda>u. u\<lparr>t_cb := f, t_arg := x\<rparr>);
        Some (0, st\<lparr>mem := (mem st)\<lparr>timers := h\<rparr>\<rparr>) })"

definition timer_add :: "(nat \<Rightarrow> bool) \<Rightarrow> tmod \<Rightarrow> ptr \<Rightarrow> timeval \<Rightarrow> (int \<times> tmod) option" where
  "timer_add realloc_ok st t tv =
     (if t = Null then Some (-1, st) else do {
        h \<leftarrow> assign (timers (mem st)) t (\<lambda>u. u\<lparr>timeout := tv\<rparr>);
        s \<leftarrow> mh st;
        (r, h', s') \<leftarrow> min_heap_push realloc_ok h s t;
        Some (r, st\<lparr>mem := (mem st)\<lparr>timers := h'\<rparr>, mh := Some s'\<rparr>) })"

subsection \<open>One iteration of the loop\<close>

definition timer_get_next_timeout :: "tmod \<Rightarrow> timeval option \<Rightarrow> timeval option option" where
  "timer_get_next_timeout st tv = do {
     s \<leftarrow> mh st;
     t \<leftarrow> min_heap_top s;
     if t = Null then Some None else do {
       u \<leftarrow> deref (timers (mem st)) t;
       case tv of None \<Rightarrow> None | Some buf \<Rightarrow> Some (Some (timeout u)) } }"

definition timer_get_time :: "(int \<times> int) option \<Rightarrow> timeval \<Rightarrow> int \<times> timeval" where
  "timer_get_time clock old = (case clock of
     None \<Rightarrow> (-1, old)
   | Some (sec, nsec) \<Rightarrow> (0, \<lparr>tv_sec = sec, tv_usec = nsec div 1000\<rparr>))"

definition select_dispatch :: "int \<Rightarrow> int" where
  "select_dispatch select_ret = (if select_ret < 0 then -1 else 0)"

fun timer_update_loop ::
  "timer store \<Rightarrow> ptr list \<Rightarrow> nat \<Rightarrow> nat \<Rightarrow> timeval \<Rightarrow> timer store option" where
  "timer_update_loop h p i 0 d = Some h"
| "timer_update_loop h p i (Suc k) d = do {
     q \<leftarrow> nth_opt p i;
     h' \<leftarrow> assign h q (\<lambda>u. u\<lparr>timeout := util_timersub (timeout u) d\<rparr>);
     timer_update_loop h' p (Suc i) k d }"

definition timer_update :: "tmod \<Rightarrow> timeval \<Rightarrow> timeval \<Rightarrow> tmod option" where
  "timer_update st s e = do {
     heap \<leftarrow> mh st;
     h \<leftarrow> timer_update_loop (timers (mem st)) (hp heap) 0 (hn heap) (util_timersub e s);
     Some (st\<lparr>mem := (mem st)\<lparr>timers := h\<rparr>\<rparr>) }"

text \<open>
  \<open>timer_process_timeout\<close> is the loop \<open>drain\<close> over the top of the heap.  A state whose
  heap cannot be read shows a wild top, on which the loop body is undefined.
\<close>

definition heap_front :: "tmod \<Rightarrow> ptr option" where
  "heap_front st = (case mh st of
     None \<Rightarrow> Some Wild
   | Some s \<Rightarrow> (case min_heap_top s of
       None \<Rightarrow> Some Wild
     | Some ev \<Rightarrow> if ev = Null then None else Some ev))"

definition timer_due :: "tmod \<Rightarrow> ptr \<Rightarrow> bool" where
  "timer_due st ev = (case deref (timers (mem st)) ev of
     None \<Rightarrow> True
   | Some u \<Rightarrow> \<not> util_timersmaller \<lparr>tv_sec = 0, tv_usec = 0\<rparr> (timeout u))"

definition timer_expire :: "tmod \<Rightarrow> ptr \<Rightarrow> tmod option" where
  "timer_expire st ev = do {
     s \<leftarrow> mh st;
     (r, h, s') \<leftarrow> min_heap_erase (timers (mem st)) s ev;
     (r', h', l) \<leftarrow> list_insert h (tl st) ev;
     Some (st\<lparr>mem := (mem st)\<lparr>timers := h'\<rparr>, mh := Some s', tl := l\<rparr>) }"

definition timer_process_timeout :: "tmod \<Rightarrow> tmod option" where
  "timer_process_timeout st = map_option snd (drain heap_front timer_expire timer_due st [])"

subsection \<open>Callbacks and wrappers\<close>

text \<open>
  A C double converted to an integer truncates; the conversion to \<open>int\<close> is undefined when the result
  is out of range, while the microseconds, less than a million, always fit into a \<open>long\<close>.  \<open>rnd\<close> rounds
  to the nearest double.
\<close>

definition c_trunc :: "real \<Rightarrow> int" where
  "c_trunc x = (if 0 \<le> x then \<lfloor>x\<rfloor> else \<lceil>x\<rceil>)"

definition c_int :: "real \<Rightarrow> int option" where
  "c_int x = (if - (2 ^ 31) \<le> c_trunc x \<and> c_trunc x < 2 ^ 31 then Some (c_trunc x) else None)"

definition double_tv :: "(real \<Rightarrow> real) \<Rightarrow> real \<Rightarrow> timeval option" where
  "double_tv rnd secs =
     map_option (\<lambda>s. \<lparr>tv_sec = s, tv_usec = c_trunc (rnd ((secs - of_int s) * 1000000))\<rparr>) (c_int secs)"

definition call_user :: "user_cbs \<Rightarrow> tmod \<Rightarrow> cbfun \<Rightarrow> ptr \<Rightarrow> tmod option" where
  "call_user usr st f x = (case f of
     User_cb k \<Rightarrow> usr k x (st\<lparr>called := called st @ [(k, x)]\<rparr>)
   | _ \<Rightarrow> None)"

definition timer_wrapper_new :: "nat option \<Rightarrow> tmem \<Rightarrow> (ptr \<times> tmem) option" where
  "timer_wrapper_new malloc m = (case malloc of
     None \<Rightarrow> Some (Null, m)
   | Some a \<Rightarrow> if timers m a \<noteq> None then None
              else Some (Ptr a, m\<lparr>timers := (timers m)(a \<mapsto> raw_timer),
                                  wraps := (wraps m)(a \<mapsto> raw_wrapper)\<rparr>))"

definition multi_cb ::
  "user_cbs \<Rightarrow> (nat \<Rightarrow> bool) \<Rightarrow> (real \<Rightarrow> real) \<Rightarrow> tmod \<Rightarrow> ptr \<Rightarrow> tmod option" where
  "multi_cb usr realloc_ok rnd st mt = do {
     w \<leftarrow> deref (wraps (mem st)) mt;
     st1 \<leftarrow> call_user usr st (w_cb w) (w_arg w);
     tv \<leftarrow> double_tv rnd (w_timeout w);
     (r, st2) \<leftarrow> timer_set st1 mt Multi_cb mt;
     (r', st3) \<leftarrow> timer_add realloc_ok st2 mt tv;
     Some st3 }"

definition once_cb :: "user_cbs \<Rightarrow> tmod \<Rightarrow> ptr \<Rightarrow> tmod option" where
  "once_cb usr st mt = do {
     w \<leftarrow> deref (wraps (mem st)) mt;
     st1 \<leftarrow> call_user usr st (w_cb w) (w_arg w);
     (r, h, l) \<leftarrow> m_list_remove (wraps (mem st1)) (ml st1) mt;
     m \<leftarrow> timer_wrapper_free ((mem st1)\<lparr>wraps := h\<rparr>) mt;
     Some (st1\<lparr>mem := m, ml := l\<rparr>) }"

definition run_cb ::
  "user_cbs \<Rightarrow> (nat \<Rightarrow> bool) \<Rightarrow> (real \<Rightarrow> real) \<Rightarrow> tmod \<Rightarrow> cbfun \<Rightarrow> ptr \<Rightarrow> tmod option" where
  "run_cb usr realloc_ok rnd st f x = (case f of
     Multi_cb \<Rightarrow> multi_cb usr realloc_ok rnd st x
   | Once_cb \<Rightarrow> once_cb usr st x
   | User_cb k \<Rightarrow> call_user usr st (User_cb k) x
   | Unset_cb \<Rightarrow> None)"

definition tl_remove :: "tmod \<Rightarrow> ptr \<Rightarrow> tmod option" where
  "tl_remove st p = do {
     (r, h, l) \<leftarrow> list_remove (timers (mem st)) (tl st) p;
     Some (st\<lparr>mem := (mem st)\<lparr>timers := h\<rparr>, tl := l\<rparr>) }"

partial_function (option) actived_loop ::
  "user_cbs \<Rightarrow> (nat \<Rightarrow> bool) \<Rightarrow> (real \<Rightarrow> real) \<Rightarrow> tmod \<Rightarrow> ptr \<Rightarrow> tmod option" where
  "actived_loop usr realloc_ok rnd st p =
     (if p = Null then Some st else
      Option.bind (deref (timers (mem st)) p) (\<lambda>t.
      Option.bind (run_cb usr realloc_ok rnd st (t_cb t) (t_arg t)) (\<lambda>st1.
      Option.bind (tl_remove st1 p) (\<lambda>st2.
      actived_loop usr realloc_ok rnd st2 (t_next t)))))"

definition timer_process_actived ::
  "user_cbs \<Rightarrow> (nat \<Rightarrow> bool) \<Rightarrow> (real \<Rightarrow> real) \<Rightarrow> tmod \<Rightarrow> tmod option" where
  "timer_process_actived usr realloc_ok rnd st = do {
     L \<leftarrow> tl st;
     if l_len L = 0 then Some st else actived_loop usr realloc_ok rnd st (l_head L) }"

definition wrapper_call ::
  "cbfun \<Rightarrow> nat option \<Rightarrow> (nat \<Rightarrow> bool) \<Rightarrow> (real \<Rightarrow> real) \<Rightarrow> tmod \<Rightarrow> real \<Rightarrow> cbfun \<Rightarrow> ptr \<Rightarrow> (int \<times> tmod) option" where
  "wrapper_call kind malloc realloc_ok rnd st secs func x = do {
     (mt, m) \<leftarrow> timer_wrapper_new malloc (mem st);
     if mt = Null then Some (-1, st) else do {
     h \<leftarrow> assign (wraps m) mt (\<lambda>w. w\<lparr>w_cb := func, w_arg := x, w_timeout := secs\<rparr>);
     let st1 = st\<lparr>mem := m\<lparr>wraps := h\<rparr>\<rparr>;
     tv \<leftarrow> double_tv rnd secs;
     (r1, st2) \<leftarrow> timer_set st1 mt kind mt;
     (r2, st3) \<leftarrow> timer_add realloc_ok st2 mt tv;
     (r3, h', l) \<leftarrow> m_list_insert (wraps (mem st3)) (ml st3) mt;
     Some (0, st3\<lparr>mem := (mem st3)\<lparr>wraps := h'\<rparr>, ml := l\<rparr>) } }"

definition multi_call where "multi_call = wrapper_call Multi_cb"

definition once_call where "once_call = wrapper_call Once_cb"

subsection \<open>The loop\<close>

record tick =
  clock1 :: "(int \<times> int) option"
  select_ret :: int
  clock2 :: "(int \<times> int) option"

record loop_vars =
  lv_tv :: "timeval option"
  lv_t1 :: timeval
  lv_t2 :: timeval

datatype 'a outcome = Returned int 'a | Looping 'a

definition timer_loop_step ::
  "user_cbs \<Rightarrow> (nat \<Rightarrow> bool) \<Rightarrow> (real \<Rightarrow> real) \<Rightarrow> tick \<Rightarrow> loop_vars \<times> tmod \<Rightarrow> (loop_vars \<times> tmod) outcome option" where
  "timer_loop_step usr realloc_ok rnd k x = (case x of (v, st) \<Rightarrow> do {
     tv \<leftarrow> timer_get_next_timeout st (lv_tv v);
     let t1 = snd (timer_get_time (clock1 k) (lv_t1 v));
     if select_dispatch (select_ret k) = -1
     then Some (Returned (-1) (v\<lparr>lv_tv := tv, lv_t1 := t1\<rparr>, st))
     else do {
     let t2 = snd (timer_get_time (clock2 k) (lv_t2 v));
     st1 \<leftarrow> timer_update st t1 t2;
     st2 \<leftarrow> timer_process_timeout st1;
     st3 \<leftarrow> timer_process_actived usr realloc_ok rnd st2;
     Some (Looping (\<lparr>lv_tv = tv, lv_t1 = t1, lv_t2 = t2\<rparr>, st3)) } })"

fun timer_loop ::
  "user_cbs \<Rightarrow> (nat \<Rightarrow> bool) \<Rightarrow> (real \<Rightarrow> real) \<Rightarrow> tick list \<Rightarrow> loop_vars \<times> tmod \<Rightarrow> (loop_vars \<times> tmod) outcome option" where
  "timer_loop usr realloc_ok rnd [] x = Some (Looping x)"
| "timer_loop usr realloc_ok rnd (k # ks) x = do {
     y \<leftarrow> timer_loop_step usr realloc_ok rnd k x;
     case y of Returned r x' \<Rightarrow> Some (Returned r x')
             | Looping x' \<Rightarrow> timer_loop usr realloc_ok rnd ks x' }"

subsection \<open>Frames: which changes of the timer store the heap and the list do not see\<close>

definition heap_view :: "timer \<Rightarrow> nat \<times> timeval" where
  "heap_view t = (min_heap_idx t, timeout t)"

lemma heap_view_eqs:
  "map_option heap_view (deref h' q) = map_option heap_view (deref h q) \<Longrightarrow>
   valid h' q = valid h q \<and> key_of h' q = key_of h q \<and> idx_of h' q = idx_of h q"
  by (cases "deref h q"; cases "deref h' q") (auto simp: heap_view_def valid_def key_of_def idx_of_def)

lemma heap_ok_cong:
  assumes "heap_ok h s"
    and "\<And>q. q \<in># elems s \<Longrightarrow> map_option heap_view (deref h' q) = map_option heap_view (deref h q)"
  shows "heap_ok h' s"
proof -
  have len: "hn s \<le> length (hp s)" using assms(1) by (auto simp: heap_ok_def heap_arr_def)
  have v: "valid h' (hp s ! i) = valid h (hp s ! i) \<and> key_of h' (hp s ! i) = key_of h (hp s ! i) \<and>
      idx_of h' (hp s ! i) = idx_of h (hp s ! i)" if "i < hn s" for i
    using that len by (intro heap_view_eqs assms(2)) (auto simp: in_elems)
  have "par i < hn s" if "i < hn s" "0 < i" for i
    using that par_less [of i] by simp
  with v assms(1) show ?thesis
    by (auto simp: heap_ok_def heap_arr_def heap_order_def)
qed

definition cb_view :: "timer \<Rightarrow> cbfun \<times> ptr \<times> timeval" where
  "cb_view t = (t_cb t, t_arg t, timeout t)"

lemma strip_views: "strip t = strip u \<Longrightarrow> cb_view t = cb_view u \<and> t_next t = t_next u \<and> t_prev t = t_prev u"
  by (auto simp: strip_def cb_view_def intro: timer.equality dest: arg_cong [of _ _ t_cb]
      arg_cong [of _ _ t_arg] arg_cong [of _ _ t_next] arg_cong [of _ _ t_prev] arg_cong [of _ _ timeout])

lemma only_idx_views:
  assumes "only_idx h h'"
  shows "map_option cb_view (deref h' q) = map_option cb_view (deref h q)"
    and "t_links h' a = t_links h a"
proof -
  have s: "map_option strip (deref h' q) = map_option strip (deref h q)" for q
    using assms by (simp add: only_idx_def)
  show "map_option cb_view (deref h' q) = map_option cb_view (deref h q)"
    using s [of q] by (cases "deref h q"; cases "deref h' q") (auto dest: strip_views)
  show "t_links h' a = t_links h a"
    using s [of "Ptr a"] by (cases "h a"; cases "h' a") (auto simp: t_links_def dest: strip_views)
qed

lemma elems_Ptr: "heap_ok h s \<Longrightarrow> q \<in># elems s \<Longrightarrow> \<exists>a t. q = Ptr a \<and> h a = Some t"
  by (auto simp: heap_ok_def heap_arr_def in_elems valid_def store_simps)

subsection \<open>The module invariant\<close>

definition tmod_ok :: "tmod \<Rightarrow> nat list \<Rightarrow> bool" where
  "tmod_ok st as \<longleftrightarrow> (\<exists>s L. mh st = Some s \<and> heap_ok (timers (mem st)) s \<and> tl st = Some L \<and>
     list_holds (timers (mem st)) L as \<and> (\<forall>a \<in> set as. Ptr a \<notin># elems s))"

definition items_of :: "tmod \<Rightarrow> ptr multiset" where
  "items_of st = (case mh st of None \<Rightarrow> {#} | Some s \<Rightarrow> elems s)"

definition key_in :: "tmod \<Rightarrow> ptr \<Rightarrow> int \<times> int" where
  "key_in st = key_of (timers (mem st))"

definition listed :: "tmod \<Rightarrow> ptr list" where
  "listed st = map Ptr (THE as. \<exists>L. tl st = Some L \<and> chain (t_links (timers (mem st))) (l_head L) as)"

definition cb_frame :: "tmod \<Rightarrow> tmod \<Rightarrow> bool" where
  "cb_frame st0 st \<longleftrightarrow> wraps (mem st) = wraps (mem st0) \<and> ml st = ml st0 \<and> called st = called st0 \<and>
     (\<forall>q. map_option cb_view (deref (timers (mem st)) q) = map_option cb_view (deref (timers (mem st0)) q))"

lemma cb_frame_refl: "cb_frame st st"
  by (simp add: cb_frame_def)

lemma listed_ok: "tmod_ok st as \<Longrightarrow> listed st = map Ptr as"
  unfolding listed_def tmod_ok_def list_holds_def
  by (auto intro!: arg_cong [of _ _ "map Ptr"] the_equality dest: chain_unique)

lemma expire_spec:
  assumes "tmod_ok st as" "q \<in># items_of st"
  shows "\<exists>a st'. q = Ptr a \<and> timer_expire st q = Some st' \<and> tmod_ok st' (a # as) \<and> cb_frame st st' \<and>
    items_of st' = items_of st - {#q#} \<and> key_in st' = key_in st"
proof -
  let ?h = "timers (mem st)"
  from assms(1) obtain s L where st: "mh st = Some s" "heap_ok ?h s" "tl st = Some L"
    "list_holds ?h L as" "\<forall>a \<in> set as. Ptr a \<notin># elems s"
    by (auto simp: tmod_ok_def)
  have q: "q \<in># elems s" using assms(2) st(1) by (simp add: items_of_def)
  then obtain a where a: "q = Ptr a" "a \<notin> set as" using elems_Ptr [OF st(2)] st(5) by blast
  obtain h s' where er: "min_heap_erase ?h s q = Some (0, h, s')" "heap_ok h s'" "only_idx ?h h"
    "elems s' = elems s - {#q#}" "idx_of h q = uint_max"
    using erase_spec [OF st(2) q] by blast
  have lh: "list_holds h L as"
    using st(4) by (simp add: list_holds_cong [of as h ?h] only_idx_views(2) [OF er(3)])
  obtain t where t: "h a = Some t"
    using elems_Ptr [OF st(2) q] a only_idx_valid [OF er(3), of q] by (auto simp: valid_def)
  let ?h' = "h(a \<mapsto> t\<lparr>t_next := l_head L\<rparr>)" and ?L = "L\<lparr>l_head := Ptr a, l_len := l_len L + 1\<rparr>"
  note ins = list_insert_spec [OF lh t a(2)]
  let ?st = "st\<lparr>mem := (mem st)\<lparr>timers := ?h'\<rparr>, mh := Some s', tl := Some ?L\<rparr>"
  have hv: "map_option heap_view (deref ?h' r) = map_option heap_view (deref h r)" for r
    using t by (cases r) (auto simp: heap_view_def)
  have cv: "map_option cb_view (deref ?h' r) = map_option cb_view (deref ?h r)" for r
    using t only_idx_views(1) [OF er(3), of r] by (cases r) (auto simp: cb_view_def)
  have "timer_expire st q = Some ?st"
    using st(1,3) er(1) ins(1) a(1) by (simp add: timer_expire_def)
  moreover have "Ptr a \<notin># elems s'"
    using heap_arr_distinct st(2) er(4) a(1) by (auto simp: heap_ok_def elems_def intro!: distinct_minus_notin)
  then have "tmod_ok ?st (a # as)"
    using heap_ok_cong [OF er(2) hv] ins(2) st(5) er(4) a
    by (auto simp: tmod_ok_def dest: in_diffD)
  moreover have "cb_frame st ?st" using cv by (simp add: cb_frame_def)
  moreover have "items_of ?st = items_of st - {#q#}" using er(4) st(1) by (simp add: items_of_def)
  moreover have "key_in ?st = key_in st"
    using heap_view_eqs [OF hv] only_idx_key [OF er(3)] by (auto simp: key_in_def)
  ultimately show ?thesis using a(1) by blast
qed

definition drain_ok :: "tmod \<Rightarrow> tmod \<Rightarrow> bool" where
  "drain_ok st0 st \<longleftrightarrow> (\<exists>as. tmod_ok st as) \<and> cb_frame st0 st"

lemma front_spec:
  assumes "tmod_ok st as"
  shows "heap_front st = None \<longleftrightarrow> items_of st = {#}"
    and "heap_front st = Some q \<Longrightarrow> q \<in># items_of st \<and> (\<forall>x \<in># items_of st. key_in st q \<le> key_in st x)"
proof -
  from assms obtain s where s: "mh st = Some s" "heap_ok (timers (mem st)) s"
    by (auto simp: tmod_ok_def)
  show "heap_front st = None \<longleftrightarrow> items_of st = {#}"
    using top_spec [OF s(2)] s(1) by (cases "hn s = 0") (auto simp: heap_front_def items_of_def)
  show "heap_front st = Some q \<Longrightarrow> q \<in># items_of st \<and> (\<forall>x \<in># items_of st. key_in st q \<le> key_in st x)"
    using top_spec [OF s(2)] s(1)
    by (cases "hn s = 0") (auto simp: heap_front_def items_of_def key_in_def)
qed

interpretation tq: expiry_queue heap_front timer_expire items_of key_in listed "drain_ok st0" for st0
proof unfold_locales
  fix s assume "drain_ok st0 s"
  then show "heap_front s = None \<longleftrightarrow> items_of s = {#}"
    using front_spec(1) by (auto simp: drain_ok_def)
next
  fix s e assume "drain_ok st0 s" "heap_front s = Some e"
  then show "e \<in># items_of s \<and> (\<forall>x \<in># items_of s. key_in s e \<le> key_in s x)"
    using front_spec(2) by (auto simp: drain_ok_def)
next
  fix s e assume s: "drain_ok st0 s" "heap_front s = Some e"
  then obtain as where as: "tmod_ok s as" "cb_frame st0 s" by (auto simp: drain_ok_def)
  with s have "e \<in># items_of s" using front_spec(2) by blast
  with as obtain a s' where s': "e = Ptr a" "timer_expire s e = Some s'" "tmod_ok s' (a # as)"
    "cb_frame s s'" "items_of s' = items_of s - {#e#}" "key_in s' = key_in s"
    using expire_spec by blast
  moreover have "cb_frame st0 s'" using as(2) s'(4) by (simp add: cb_frame_def)
  moreover have "listed s' = e # listed s"
    using listed_ok [OF s'(3)] listed_ok [OF as(1)] s'(1) by simp
  ultimately show "\<exists>s'. timer_expire s e = Some s' \<and> drain_ok st0 s' \<and>
      items_of s' = items_of s - {#e#} \<and> key_in s' = key_in s \<and> listed s' = e # listed s"
    by (auto simp: drain_ok_def)
qed

lemma process_timeout_spec:
  assumes "tmod_ok st as"
  shows "\<exists>out st'. timer_process_timeout st = Some st' \<and> tmod_ok st' (out @ as) \<and> cb_frame st st' \<and>
    items_of st = mset (map Ptr out) + items_of st' \<and> key_in st' = key_in st \<and>
    sorted (rev (map (key_in st \<circ> Ptr) out)) \<and>
    (\<forall>a \<in> set out. key_in st (Ptr a) \<le> (0, 0)) \<and> (\<forall>q \<in># items_of st'. \<not> key_in st q \<le> (0, 0))"
proof -
  have due: "timer_due s e = (key_in st e \<le> (0, 0))"
    if "drain_ok st s" "key_in s = key_in st" "e \<in># items_of s" for s e
  proof -
    from that(1) obtain hs where "mh s = Some hs" "heap_ok (timers (mem s)) hs"
      by (auto simp: drain_ok_def tmod_ok_def)
    with that(3) obtain a t where t: "e = Ptr a" "timers (mem s) a = Some t"
      using elems_Ptr by (fastforce simp: items_of_def)
    have "key_in s e = tv_key (timeout t)" using t by (simp add: key_in_def key_of_def)
    moreover have "timer_due s e = (\<not> (0, 0) < tv_key (timeout t))"
      using t by (simp add: timer_due_def smaller_key) (simp add: tv_key_def)
    ultimately show ?thesis using that(2) by (simp add: not_less)
  qed
  have "drain_ok st st" using assms cb_frame_refl by (auto simp: drain_ok_def)
  from tq.drain_total [OF this, of timer_due "\<lambda>k. k \<le> (0, 0)" "[]"] due
  obtain out s' where r: "drain heap_front timer_expire timer_due st [] = Some (out, s')"
    "drain_ok st s'" "key_in s' = key_in st" "listed s' = out @ listed st"
    "items_of st = mset out + items_of s'" "sorted (rev (map (key_in st) out))"
    "\<forall>x \<in> set out. key_in st x \<le> (0, 0)" "\<forall>x \<in># items_of s'. \<not> key_in st x \<le> (0, 0)"
    by (auto intro: order_trans)
  from r(2) obtain bs where bs: "tmod_ok s' bs" "cb_frame st s'" by (auto simp: drain_ok_def)
  have "map Ptr bs = out @ map Ptr as"
    using listed_ok [OF bs(1)] listed_ok [OF assms] r(4) by simp
  then obtain o1 where o: "bs = o1 @ as" "out = map Ptr o1"
    by (auto simp: map_eq_append_conv inj_map_eq_map inj_def)
  have "timer_process_timeout st = Some s'" using r(1) by (simp add: timer_process_timeout_def)
  with r bs o show ?thesis by (auto simp: o_def)
qed

subsection \<open>Advancing every timer\<close>

lemma update_loop_spec:
  assumes "distinct (take k (drop i p))" "i + k \<le> length p" "\<forall>q \<in> set (take k (drop i p)). valid h q"
  shows "\<exists>h'. timer_update_loop h p i k d = Some h' \<and>
    (\<forall>q. deref h' q = (if q \<in> set (take k (drop i p))
       then map_option (\<lambda>u. u\<lparr>timeout := util_timersub (timeout u) d\<rparr>) (deref h q) else deref h q))"
  using assms
proof (induction h p i k d rule: timer_update_loop.induct)
  case (1 h p i d)
  then show ?case by simp
next
  case (2 h p i k d)
  have i: "i < length p" using "2.prems" by simp
  then have tk: "take (Suc k) (drop i p) = p ! i # take k (drop (Suc i) p)"
    by (simp add: Cons_nth_drop_Suc [symmetric])
  obtain h1 where h1: "assign h (p ! i) (\<lambda>u. u\<lparr>timeout := util_timersub (timeout u) d\<rparr>) = Some h1"
    using "2.prems"(3) tk assign_valid by (fastforce simp: valid_def)
  have "\<forall>q \<in> set (take k (drop (Suc i) p)). valid h1 q"
    using "2.prems"(3) tk valid_assign [OF h1] by simp
  with "2.prems" tk obtain h' where h': "timer_update_loop h1 p (Suc i) k d = Some h'"
    "\<And>q. deref h' q = (if q \<in> set (take k (drop (Suc i) p))
       then map_option (\<lambda>u. u\<lparr>timeout := util_timersub (timeout u) d\<rparr>) (deref h1 q) else deref h1 q)"
    using "2.IH" [of "p ! i" h1] i h1 by auto
  have n: "p ! i \<notin> set (take k (drop (Suc i) p))" using "2.prems"(1) tk by simp
  have "deref h' q = (if q \<in> set (take (Suc k) (drop i p))
       then map_option (\<lambda>u. u\<lparr>timeout := util_timersub (timeout u) d\<rparr>) (deref h q) else deref h q)" for q
    unfolding h'(2) tk using n deref_assign [OF h1, of q] by auto
  moreover have "timer_update_loop h p i (Suc k) d = Some h'" using i h1 h'(1) by simp
  ultimately show ?case by blast
qed

definition heap_normal :: "tmod \<Rightarrow> bool" where
  "heap_normal st \<longleftrightarrow> (\<forall>q \<in># items_of st. \<forall>t. deref (timers (mem st)) q = Some t \<longrightarrow> normal_tv (timeout t))"

lemma update_spec:
  assumes "tmod_ok st as" "heap_normal st" "normal_tv s" "normal_tv e"
  shows "\<exists>h. timer_update st s e = Some (st\<lparr>mem := (mem st)\<lparr>timers := h\<rparr>\<rparr>) \<and>
    tmod_ok (st\<lparr>mem := (mem st)\<lparr>timers := h\<rparr>\<rparr>) as \<and>
    (\<forall>q. deref h q = (if q \<in># items_of st
       then map_option (\<lambda>u. u\<lparr>timeout := util_timersub (timeout u) (util_timersub e s)\<rparr>) (deref (timers (mem st)) q)
       else deref (timers (mem st)) q))"
proof -
  let ?h = "timers (mem st)" and ?d = "util_timersub e s"
  from assms(1) obtain S L where st: "mh st = Some S" "heap_ok ?h S" "tl st = Some L"
    "list_holds ?h L as" "\<forall>a \<in> set as. Ptr a \<notin># elems S"
    by (auto simp: tmod_ok_def)
  let ?u = "\<lambda>u::timer. u\<lparr>timeout := util_timersub (timeout u) ?d\<rparr>"
  have arr: "heap_arr ?h (hp S) (hn S)" using st(2) by (simp add: heap_ok_def)
  then have "distinct (take (hn S) (hp S))" "0 + hn S \<le> length (hp S)"
    using heap_arr_distinct by (auto simp: heap_arr_def)
  moreover have "\<forall>q \<in> set (take (hn S) (hp S)). valid ?h q"
    using arr by (auto simp: heap_arr_def in_set_conv_nth)
  ultimately obtain h where h: "timer_update_loop ?h (hp S) 0 (hn S) ?d = Some h"
    "\<And>q. deref h q = (if q \<in># elems S then map_option ?u (deref ?h q) else deref ?h q)"
    using update_loop_spec [of "hn S" 0 "hp S" ?h ?d] by (auto simp: elems_def)
  have it: "items_of st = elems S" using st(1) by (simp add: items_of_def)
  have vw: "valid h q = valid ?h q \<and> idx_of h q = idx_of ?h q" for q
    using h(2) [of q] by (cases "deref ?h q") (auto simp: valid_def idx_of_def)
  have le: "key_of h q \<le> key_of h r" if "q \<in># elems S" "r \<in># elems S" "key_of ?h q \<le> key_of ?h r" for q r
  proof -
    obtain t u where tu: "deref ?h q = Some t" "deref ?h r = Some u"
      using elems_Ptr [OF st(2)] \<open>q \<in># elems S\<close> \<open>r \<in># elems S\<close> by fastforce
    then have n: "normal_tv (timeout t)" "normal_tv (timeout u)"
      using assms(2) that(1,2) it by (auto simp: heap_normal_def)
    have nd: "normal_tv ?d" using assms(3,4) by (rule normal_timersub [rotated])
    show ?thesis
      using that(1,2,3) tu n nd by (simp add: key_of_def h(2) key_micros normal_timersub)
  qed
  have "heap_order (key_of h) (hp S) (hn S)"
    unfolding heap_order_def
  proof (intro allI impI)
    fix i assume i: "i < hn S" "0 < i"
    then have "par i < hn S" using par_less [of i] by simp
    with i arr show "key_of h (hp S ! par i) \<le> key_of h (hp S ! i)"
      by (intro le) (auto simp: in_elems heap_arr_def heap_order_def)
  qed
  with st(2) vw have hk: "heap_ok h S" by (simp add: heap_ok_def heap_arr_def)
  have "list_holds h L as"
  proof -
    have "t_links h a = t_links ?h a" if "a \<in> set as" for a
      using h(2) [of "Ptr a"] st(5) that by (simp add: t_links_def)
    then show ?thesis using st(4) list_holds_cong by blast
  qed
  with hk st h show ?thesis
    by (intro exI [of _ h]) (simp add: timer_update_def tmod_ok_def it)
qed

subsection \<open>Adding a timer\<close>

lemma reserve_ok: "fst (min_heap_reserve (\<lambda>_. True) s n) = 0"
  by (simp add: min_heap_reserve_def Let_def)

lemma push_ok:
  assumes "heap_ok h s" "valid h e" "e \<notin># elems s" "hn s + 1 < 2 ^ 31"
  shows "\<exists>h' s'. min_heap_push (\<lambda>_. True) h s e = Some (0, h', s') \<and> heap_ok h' s' \<and>
            only_idx h h' \<and> elems s' = add_mset e (elems s)"
proof -
  have "min_heap_push (\<lambda>_. True) h s e \<noteq> Some (-1, h, s)"
    using reserve_ok [of s "u32 (hn s + 1)"]
    by (auto simp: min_heap_push_def Let_def split: prod.splits bind_splits)
  with push_spec [OF assms, of "\<lambda>_. True"] show ?thesis by blast
qed

lemma elems_size: "heap_ok h s \<Longrightarrow> size (elems s) = hn s"
  by (auto simp: elems_def heap_ok_def heap_arr_def)

lemma add_spec:
  assumes "mh st = Some s" "heap_ok (timers (mem st)) s" "timers (mem st) a = Some t"
    "Ptr a \<notin># elems s" "size (elems s) + 1 < 2 ^ 31"
  shows "\<exists>h s'. timer_add (\<lambda>_. True) st (Ptr a) tv =
      Some (0, st\<lparr>mem := (mem st)\<lparr>timers := h\<rparr>, mh := Some s'\<rparr>) \<and> heap_ok h s' \<and>
      elems s' = add_mset (Ptr a) (elems s) \<and>
      only_idx ((timers (mem st))(a \<mapsto> t\<lparr>timeout := tv\<rparr>)) h"
proof -
  let ?h = "(timers (mem st))(a \<mapsto> t\<lparr>timeout := tv\<rparr>)"
  have "heap_ok ?h s"
  proof (rule heap_ok_cong [OF assms(2)])
    fix q assume "q \<in># elems s"
    with assms(4) have "q \<noteq> Ptr a" by blast
    then show "map_option heap_view (deref ?h q) = map_option heap_view (deref (timers (mem st)) q)"
      by (cases q) auto
  qed
  moreover have "valid ?h (Ptr a)" by (simp add: valid_def)
  ultimately obtain h s' where "min_heap_push (\<lambda>_. True) ?h s (Ptr a) = Some (0, h, s')" "heap_ok h s'"
    "only_idx ?h h" "elems s' = add_mset (Ptr a) (elems s)"
    using push_ok assms(4,5) elems_size [OF assms(2)] by metis
  then show ?thesis using assms(1,3) by (auto simp: timer_add_def)
qed

subsection \<open>Running the activated timers\<close>

text \<open>
  The user call that the entry at address \<open>a\<close> makes, and whether the entry is put back
  into the heap by \<open>multi_cb\<close>.
\<close>

definition rearmed :: "tmod \<Rightarrow> nat \<Rightarrow> bool" where
  "rearmed st a \<longleftrightarrow> (\<exists>t. timers (mem st) a = Some t \<and> t_cb t = Multi_cb)"

definition user_call :: "tmod \<Rightarrow> nat \<Rightarrow> (nat \<times> ptr) option" where
  "user_call st a = do {
     t \<leftarrow> timers (mem st) a;
     case t_cb t of
       User_cb k \<Rightarrow> Some (k, t_arg t)
     | Multi_cb \<Rightarrow> (if t_arg t = Ptr a then do {
         w \<leftarrow> wraps (mem st) a;
         _ \<leftarrow> c_int (w_timeout w);
         case w_cb w of User_cb k \<Rightarrow> Some (k, w_arg w) | _ \<Rightarrow> None } else None)
     | _ \<Rightarrow> None }"

definition period_of :: "(real \<Rightarrow> real) \<Rightarrow> tmod \<Rightarrow> nat \<Rightarrow> timeval" where
  "period_of rnd st a = (case wraps (mem st) a of Some w \<Rightarrow> the (double_tv rnd (w_timeout w))
     | None \<Rightarrow> \<lparr>tv_sec = 0, tv_usec = 0\<rparr>)"

text \<open>User callbacks that do not touch the timer module.\<close>

definition pure_cbs :: "user_cbs \<Rightarrow> bool" where
  "pure_cbs usr \<longleftrightarrow> (\<forall>k x st. usr k x st = Some st)"

text \<open>What running one entry leaves of the others.\<close>

definition entry_view :: "tmod \<Rightarrow> nat \<Rightarrow> (cbfun \<times> ptr \<times> timeval) option" where
  "entry_view st a = map_option cb_view (timers (mem st) a)"

definition action_view :: "tmod \<Rightarrow> nat \<Rightarrow> (cbfun \<times> ptr) option" where
  "action_view st a = map_option (\<lambda>t. (t_cb t, t_arg t)) (timers (mem st) a)"

lemma action_view_eqs:
  assumes "action_view st' a = action_view st a" "wraps (mem st') = wraps (mem st)"
  shows "rearmed st' a = rearmed st a" "user_call st' a = user_call st a"
proof -
  have c: "(\<exists>t t'. timers (mem st) a = Some t \<and> timers (mem st') a = Some t' \<and> t_cb t' = t_cb t \<and>
      t_arg t' = t_arg t) \<or> timers (mem st) a = None \<and> timers (mem st') a = None"
    using assms(1) by (cases "timers (mem st) a") (auto simp: action_view_def)
  show "rearmed st' a = rearmed st a" using c by (auto simp: rearmed_def)
  show "user_call st' a = user_call st a"
    using c assms(2) by (elim disjE exE conjE) (simp_all add: user_call_def split: cbfun.split)
qed

lemma entry_action_view: "entry_view st' a = entry_view st a \<Longrightarrow> action_view st' a = action_view st a"
  by (cases "timers (mem st) a"; cases "timers (mem st') a") (simp_all add: entry_view_def action_view_def cb_view_def)

lemmas entry_view_eqs = action_view_eqs [OF entry_action_view]

lemma list_head_unique: "list_holds h L as \<Longrightarrow> chain nx p as \<Longrightarrow> l_head L = p"
  by (cases as) (auto simp: list_holds_def)

lemma tl_remove_spec:
  assumes "mh st = Some s" "heap_ok (timers (mem st)) s" "tl st = Some L"
    "list_holds (timers (mem st)) L (a # as)" "\<forall>b \<in> set as. Ptr b \<notin># elems s"
  shows "\<exists>st'. tl_remove st (Ptr a) = Some st' \<and> tmod_ok st' as \<and> called st' = called st \<and>
    wraps (mem st') = wraps (mem st) \<and> ml st' = ml st \<and> items_of st' = elems s \<and>
    (\<forall>b. entry_view st' b = entry_view st b)"
proof -
  obtain h L' where r: "list_remove (timers (mem st)) (Some L) (Ptr a) = Some (0, h, Some L')" "list_holds h L' as"
    and hp: "\<And>b t. timers (mem st) b = Some t \<Longrightarrow> \<exists>q. h b = Some (t\<lparr>t_prev := q\<rparr>)"
      "\<And>b. timers (mem st) b = None \<Longrightarrow> h b = None"
    using list_remove_head_spec [OF assms(4)] by blast
  let ?st = "st\<lparr>mem := (mem st)\<lparr>timers := h\<rparr>, tl := Some L'\<rparr>"
  have v: "map_option heap_view (h b) = map_option heap_view (timers (mem st) b)"
    "map_option cb_view (h b) = map_option cb_view (timers (mem st) b)" for b
  proof -
    show "map_option heap_view (h b) = map_option heap_view (timers (mem st) b)"
      using hp [of b] by (cases "timers (mem st) b") (auto simp: heap_view_def)
    show "map_option cb_view (h b) = map_option cb_view (timers (mem st) b)"
      using hp [of b] by (cases "timers (mem st) b") (auto simp: cb_view_def)
  qed
  have "map_option heap_view (deref h q) = map_option heap_view (deref (timers (mem st)) q)" for q
    by (cases q) (simp_all add: v(1))
  then have "heap_ok h s" using heap_ok_cong [OF assms(2)] by blast
  with r assms have "tl_remove st (Ptr a) = Some ?st" "tmod_ok ?st as"
    by (simp_all add: tl_remove_def tmod_ok_def)
  moreover have "items_of ?st = elems s" using assms(1) by (simp add: items_of_def)
  ultimately show ?thesis using v(2) by (intro exI [of _ ?st]) (simp add: entry_view_def)
qed

lemma entry_step:
  assumes "tmod_ok st (a # as)" "user_call st a = Some c" "pure_cbs usr"
    "size (items_of st) + 1 < 2 ^ 31"
  shows "\<exists>t st1 st'. timers (mem st) a = Some t \<and> chain (t_links (timers (mem st))) (t_next t) as \<and>
    run_cb usr (\<lambda>_. True) rnd st (t_cb t) (t_arg t) = Some st1 \<and> tl_remove st1 (Ptr a) = Some st' \<and>
    tmod_ok st' as \<and> called st' = called st @ [c] \<and> wraps (mem st') = wraps (mem st) \<and> ml st' = ml st \<and>
    items_of st' = items_of st + (if rearmed st a then {#Ptr a#} else {#}) \<and>
    (\<forall>b. b \<noteq> a \<longrightarrow> entry_view st' b = entry_view st b) \<and>
    (rearmed st a \<longrightarrow> entry_view st' a = Some (Multi_cb, Ptr a, period_of rnd st a))"
proof -
  let ?h = "timers (mem st)"
  from assms(1) obtain s L where st: "mh st = Some s" "heap_ok ?h s" "tl st = Some L"
    "list_holds ?h L (a # as)" "\<forall>b \<in> set (a # as). Ptr b \<notin># elems s"
    by (auto simp: tmod_ok_def)
  have it: "items_of st = elems s" using st(1) by (simp add: items_of_def)
  from st(4) obtain t where t: "?h a = Some t" "chain (t_links ?h) (t_next t) as"
    by (auto simp: list_holds_def t_links_def)
  have nin: "a \<notin> set as"
    using chain_distinct [of "t_links ?h" "l_head L" "a # as"] st(4) by (simp add: list_holds_def)
  show ?thesis
  proof (cases "t_cb t = Multi_cb")
    case False
    then obtain k where k: "t_cb t = User_cb k" "c = (k, t_arg t)"
      using assms(2) t(1) by (auto simp: user_call_def split: cbfun.splits)
    let ?st1 = "st\<lparr>called := called st @ [c]\<rparr>"
    have "run_cb usr (\<lambda>_. True) rnd st (t_cb t) (t_arg t) = Some ?st1"
      using k assms(3) by (simp add: pure_cbs_def run_cb_def call_user_def)
    moreover have "\<exists>st'. tl_remove ?st1 (Ptr a) = Some st' \<and> tmod_ok st' as \<and> called st' = called ?st1 \<and>
      wraps (mem st') = wraps (mem ?st1) \<and> ml st' = ml ?st1 \<and> items_of st' = elems s \<and>
      (\<forall>b. entry_view st' b = entry_view ?st1 b)"
      using st by (intro tl_remove_spec) simp_all
    moreover have "\<not> rearmed st a" using t(1) False by (simp add: rearmed_def)
    ultimately show ?thesis using t it by (fastforce simp: entry_view_def)
  next
    case True
    then obtain w k where w: "t_arg t = Ptr a" "wraps (mem st) a = Some w" "w_cb w = User_cb k" "c = (k, w_arg w)" "c_int (w_timeout w) \<noteq> None"
      using assms(2) t(1) by (auto simp: user_call_def split: cbfun.splits bind_splits if_splits)
    let ?st0 = "st\<lparr>called := called st @ [c]\<rparr>"
    let ?t = "t\<lparr>t_cb := Multi_cb, t_arg := Ptr a\<rparr>" and ?tv = "the (double_tv rnd (w_timeout w))"
    let ?h1 = "?h(a \<mapsto> ?t)"
    let ?st1 = "?st0\<lparr>mem := (mem st)\<lparr>timers := ?h1\<rparr>\<rparr>"
    have s1: "timer_set ?st0 (Ptr a) Multi_cb (Ptr a) = Some (0, ?st1)"
      using t(1) by (simp add: timer_set_def)
    have ok1: "heap_ok ?h1 s"
    proof (rule heap_ok_cong [OF st(2)])
      fix q assume "q \<in># elems s"
      then have "q \<noteq> Ptr a" using st(5) by auto
      then show "map_option heap_view (deref ?h1 q) = map_option heap_view (deref ?h q)"
        by (cases q) auto
    qed
    have "\<exists>h s'. timer_add (\<lambda>_. True) ?st1 (Ptr a) ?tv =
        Some (0, ?st1\<lparr>mem := (mem ?st1)\<lparr>timers := h\<rparr>, mh := Some s'\<rparr>) \<and> heap_ok h s' \<and>
      elems s' = add_mset (Ptr a) (elems s) \<and> only_idx ((timers (mem ?st1))(a \<mapsto> ?t\<lparr>timeout := ?tv\<rparr>)) h"
      using st(1,5) ok1 assms(4) it by (intro add_spec) simp_all
    then obtain h s' where h: "timer_add (\<lambda>_. True) ?st1 (Ptr a) ?tv =
        Some (0, ?st1\<lparr>mem := (mem ?st1)\<lparr>timers := h\<rparr>, mh := Some s'\<rparr>)" "heap_ok h s'"
      "elems s' = add_mset (Ptr a) (elems s)" "only_idx (?h1(a \<mapsto> ?t\<lparr>timeout := ?tv\<rparr>)) h"
      by auto
    let ?st2 = "?st1\<lparr>mem := (mem ?st1)\<lparr>timers := h\<rparr>, mh := Some s'\<rparr>"
    obtain tv where tv: "double_tv rnd (w_timeout w) = Some tv" using w(5) by (auto simp: double_tv_def)
    have run: "run_cb usr (\<lambda>_. True) rnd st (t_cb t) (t_arg t) = Some ?st2"
      using True w s1 h(1) assms(3) tv by (simp add: pure_cbs_def run_cb_def multi_cb_def call_user_def)
    have lk: "t_links h b = t_links ?h b" for b
      using only_idx_views(2) [OF h(4), of b] t(1) by (simp add: t_links_def)
    have lh: "list_holds h L (a # as)" using st(4) list_holds_cong [OF lk] by blast
    have ev: "entry_view ?st2 b = map_option cb_view ((?h(a \<mapsto> ?t\<lparr>timeout := ?tv\<rparr>)) b)" for b
      using only_idx_views(1) [OF h(4), of "Ptr b"] by (simp add: entry_view_def)
    obtain st' where rm: "tl_remove ?st2 (Ptr a) = Some st'" "tmod_ok st' as" "called st' = called ?st2"
      "wraps (mem st') = wraps (mem ?st2)" "ml st' = ml ?st2" "items_of st' = elems s'"
      "\<forall>b. entry_view st' b = entry_view ?st2 b"
      using tl_remove_spec [of ?st2 s' L a as] h(2,3) st(3,5) lh nin by auto
    have "entry_view st' a = Some (Multi_cb, Ptr a, period_of rnd st a)"
      using rm(7) ev w by (simp add: cb_view_def period_of_def)
    moreover have "entry_view st' b = entry_view st b" if "b \<noteq> a" for b
      using rm(7) ev that by (simp add: entry_view_def)
    moreover have "rearmed st a" using t(1) True by (simp add: rearmed_def)
    ultimately show ?thesis using t run rm it h(3) by (intro exI [of _ t] exI [of _ ?st2] exI [of _ st']) simp
  qed
qed

lemma actived_loop_spec:
  assumes "tmod_ok st as" "chain (t_links (timers (mem st))) p as" "\<forall>a \<in> set as. user_call st a \<noteq> None"
    "pure_cbs usr" "size (items_of st) + length as < 2 ^ 31"
  shows "\<exists>st'. actived_loop usr (\<lambda>_. True) rnd st p = Some st' \<and> tmod_ok st' [] \<and>
    called st' = called st @ map (the \<circ> user_call st) as \<and> wraps (mem st') = wraps (mem st) \<and> ml st' = ml st \<and>
    items_of st' = items_of st + mset (map Ptr (filter (rearmed st) as)) \<and>
    (\<forall>b. b \<notin> set as \<longrightarrow> entry_view st' b = entry_view st b) \<and>
    (\<forall>a \<in> set as. rearmed st a \<longrightarrow> entry_view st' a = Some (Multi_cb, Ptr a, period_of rnd st a))"
  using assms(1,2,3,5)
proof (induction as arbitrary: st p)
  case Nil
  then show ?case by (simp add: actived_loop.simps)
next
  case (Cons a as)
  have p: "p = Ptr a" using Cons.prems(2) by simp
  obtain c where c: "user_call st a = Some c" using Cons.prems(3) by auto
  have dist: "distinct (a # as)"
    using chain_distinct [OF Cons.prems(2)] .
  have sz: "size (items_of st) + 1 < 2 ^ 31" using Cons.prems(4) by simp
  obtain t st1 st2 where s: "timers (mem st) a = Some t" "chain (t_links (timers (mem st))) (t_next t) as"
    "run_cb usr (\<lambda>_. True) rnd st (t_cb t) (t_arg t) = Some st1" "tl_remove st1 (Ptr a) = Some st2"
    "tmod_ok st2 as" "called st2 = called st @ [c]" "wraps (mem st2) = wraps (mem st)" "ml st2 = ml st"
    "items_of st2 = items_of st + (if rearmed st a then {#Ptr a#} else {#})"
    "\<forall>b. b \<noteq> a \<longrightarrow> entry_view st2 b = entry_view st b"
    "rearmed st a \<longrightarrow> entry_view st2 a = Some (Multi_cb, Ptr a, period_of rnd st a)"
    using entry_step [OF Cons.prems(1) c assms(4) sz] by blast
  have eq: "rearmed st2 b = rearmed st b" "user_call st2 b = user_call st b"
    "period_of rnd st2 b = period_of rnd st b" if "b \<in> set as" for b
  proof -
    have "entry_view st2 b = entry_view st b" using that dist s(10) by auto
    from entry_view_eqs [OF this s(7)] show "rearmed st2 b = rearmed st b" "user_call st2 b = user_call st b"
      "period_of rnd st2 b = period_of rnd st b" using s(7) by (simp_all add: period_of_def)
  qed
  have ch: "chain (t_links (timers (mem st2))) (t_next t) as"
    using s(2,5) list_head_unique by (fastforce simp: tmod_ok_def list_holds_def)
  have "\<forall>b \<in> set as. user_call st2 b \<noteq> None" using eq(2) Cons.prems(3) by simp
  moreover have "size (items_of st2) + length as < 2 ^ 31" using s(9) Cons.prems(4) by simp
  ultimately obtain st' where r: "actived_loop usr (\<lambda>_. True) rnd st2 (t_next t) = Some st'" "tmod_ok st' []"
    "called st' = called st2 @ map (the \<circ> user_call st2) as" "wraps (mem st') = wraps (mem st2)" "ml st' = ml st2"
    "items_of st' = items_of st2 + mset (map Ptr (filter (rearmed st2) as))"
    "\<forall>b. b \<notin> set as \<longrightarrow> entry_view st' b = entry_view st2 b"
    "\<forall>a \<in> set as. rearmed st2 a \<longrightarrow> entry_view st' a = Some (Multi_cb, Ptr a, period_of rnd st2 a)"
    using Cons.IH [OF s(5) ch] by blast
  have "actived_loop usr (\<lambda>_. True) rnd st p = Some st'"
    using p s(1,3,4) r(1) by (subst actived_loop.simps) simp
  moreover have "map (the \<circ> user_call st2) as = map (the \<circ> user_call st) as" using eq(2) by simp
  moreover have "filter (rearmed st2) as = filter (rearmed st) as" using eq(1) by (auto intro: filter_cong)
  moreover have "\<forall>b \<in> set (a # as). rearmed st b \<longrightarrow> entry_view st' b = Some (Multi_cb, Ptr b, period_of rnd st b)"
    using r(7,8) s(11) eq(1,3) dist by auto
  ultimately show ?case using r s c by (intro exI [of _ st']) simp
qed

definition remaining :: "tmod \<Rightarrow> nat \<Rightarrow> int" where
  "remaining st a = (case timers (mem st) a of Some t \<Rightarrow> micros (timeout t) | None \<Rightarrow> 0)"

definition deadline :: "tmod \<Rightarrow> nat \<Rightarrow> timeval" where
  "deadline st a = (case timers (mem st) a of Some t \<Rightarrow> timeout t | None \<Rightarrow> \<lparr>tv_sec = 0, tv_usec = 0\<rparr>)"

text \<open>The microseconds between the two readings of the clock in an iteration.\<close>

definition elapsed :: "tick \<Rightarrow> timeval" where
  "elapsed k = (case (clock1 k, clock2 k) of
     (Some (s1, n1), Some (s2, n2)) \<Rightarrow> util_timersub \<lparr>tv_sec = s2, tv_usec = n2 div 1000\<rparr> \<lparr>tv_sec = s1, tv_usec = n1 div 1000\<rparr>
   | _ \<Rightarrow> \<lparr>tv_sec = 0, tv_usec = 0\<rparr>)"

definition good_tick :: "tick \<Rightarrow> bool" where
  "good_tick k \<longleftrightarrow> 0 \<le> select_ret k \<and> (case (clock1 k, clock2 k) of
     (Some (s1, n1), Some (s2, n2)) \<Rightarrow> 0 \<le> n1 \<and> n1 < 1000000000 \<and> 0 \<le> n2 \<and> n2 < 1000000000
   | _ \<Rightarrow> False)"

lemma process_actived_spec:
  assumes "tmod_ok st as" "\<forall>a \<in> set as. user_call st a \<noteq> None" "pure_cbs usr"
    "size (items_of st) + length as < 2 ^ 31"
  shows "\<exists>st'. timer_process_actived usr (\<lambda>_. True) rnd st = Some st' \<and> tmod_ok st' [] \<and>
    called st' = called st @ map (the \<circ> user_call st) as \<and> wraps (mem st') = wraps (mem st) \<and> ml st' = ml st \<and>
    items_of st' = items_of st + mset (map Ptr (filter (rearmed st) as)) \<and>
    (\<forall>b. b \<notin> set as \<longrightarrow> entry_view st' b = entry_view st b) \<and>
    (\<forall>a \<in> set as. rearmed st a \<longrightarrow> entry_view st' a = Some (Multi_cb, Ptr a, period_of rnd st a))"
proof -
  from assms(1) obtain L where L: "tl st = Some L" "list_holds (timers (mem st)) L as"
    by (auto simp: tmod_ok_def)
  show ?thesis
  proof (cases as)
    case Nil
    then have "timer_process_actived usr (\<lambda>_. True) rnd st = Some st"
      using L by (simp add: timer_process_actived_def list_holds_def)
    with Nil assms(1) show ?thesis by simp
  next
    case (Cons a bs)
    then have "timer_process_actived usr (\<lambda>_. True) rnd st = actived_loop usr (\<lambda>_. True) rnd st (l_head L)"
      using L by (simp add: timer_process_actived_def list_holds_def)
    moreover have "chain (t_links (timers (mem st))) (l_head L) as" using L(2) by (simp add: list_holds_def)
    ultimately show ?thesis using actived_loop_spec [OF assms(1) _ assms(2,3,4)] by simp
  qed
qed

lemma next_timeout_total:
  assumes "tmod_ok st as" "items_of st \<noteq> {#} \<longrightarrow> tv \<noteq> None"
  shows "\<exists>r. timer_get_next_timeout st tv = Some r"
proof -
  from assms(1) obtain s where s: "mh st = Some s" "heap_ok (timers (mem st)) s"
    by (auto simp: tmod_ok_def)
  show ?thesis
  proof (cases "hn s = 0")
    case True
    with s top_spec(1) [OF s(2)] show ?thesis by (simp add: timer_get_next_timeout_def)
  next
    case False
    with top_spec(2) [OF s(2)] elems_Ptr [OF s(2)] obtain a t where
      a: "min_heap_top s = Some (Ptr a)" "Ptr a \<in># elems s" "timers (mem st) a = Some t" by blast
    then have "items_of st \<noteq> {#}" using s(1) by (auto simp: items_of_def)
    then obtain b where "tv = Some b" using assms(2) by auto
    with s a show ?thesis by (simp add: timer_get_next_timeout_def)
  qed
qed

lemma good_tick_elapsed:
  assumes "good_tick k"
  obtains t1 t2 where "\<And>old. snd (timer_get_time (clock1 k) old) = t1" "\<And>old. snd (timer_get_time (clock2 k) old) = t2"
    "normal_tv t1" "normal_tv t2" "elapsed k = util_timersub t2 t1" "select_dispatch (select_ret k) \<noteq> -1"
proof -
  from assms obtain s1 n1 s2 n2 where c: "clock1 k = Some (s1, n1)" "clock2 k = Some (s2, n2)"
    "0 \<le> n1" "n1 < 1000000000" "0 \<le> n2" "n2 < 1000000000" "0 \<le> select_ret k"
    by (auto simp: good_tick_def split: option.splits)
  show ?thesis
    by (rule that [of "\<lparr>tv_sec = s1, tv_usec = n1 div 1000\<rparr>" "\<lparr>tv_sec = s2, tv_usec = n2 div 1000\<rparr>"])
      (use c in \<open>auto simp: timer_get_time_def normal_tv_def elapsed_def select_dispatch_def\<close>)
qed

lemma update_views:
  assumes "tmod_ok st as" "heap_normal st" "normal_tv s" "normal_tv e"
  shows "\<exists>st'. timer_update st s e = Some st' \<and> tmod_ok st' as \<and> items_of st' = items_of st \<and>
    (\<forall>a. action_view st' a = action_view st a) \<and> wraps (mem st') = wraps (mem st) \<and> ml st' = ml st \<and>
    called st' = called st \<and> heap_normal st' \<and>
    (\<forall>a. deadline st' a = (if Ptr a \<in># items_of st then util_timersub (deadline st a) (util_timersub e s)
       else deadline st a))"
proof -
  obtain h where h: "timer_update st s e = Some (st\<lparr>mem := (mem st)\<lparr>timers := h\<rparr>\<rparr>)"
    "tmod_ok (st\<lparr>mem := (mem st)\<lparr>timers := h\<rparr>\<rparr>) as"
    "\<And>q. deref h q = (if q \<in># items_of st
       then map_option (\<lambda>u. u\<lparr>timeout := util_timersub (timeout u) (util_timersub e s)\<rparr>) (deref (timers (mem st)) q)
       else deref (timers (mem st)) q)"
    using update_spec [OF assms] by blast
  let ?st = "st\<lparr>mem := (mem st)\<lparr>timers := h\<rparr>\<rparr>"
  have it: "items_of ?st = items_of st" by (simp add: items_of_def)
  obtain s0 where s0: "mh st = Some s0" "heap_ok (timers (mem st)) s0"
    using assms(1) by (auto simp: tmod_ok_def)
  have v: "\<exists>t. timers (mem st) a = Some t" if "Ptr a \<in># items_of st" for a
    using elems_Ptr [OF s0(2), of "Ptr a"] that s0(1) by (auto simp: items_of_def)
  have "action_view ?st a = action_view st a" for a
    using h(3) [of "Ptr a"] v [of a] by (auto simp: action_view_def)
  moreover have "deadline ?st a = (if Ptr a \<in># items_of st then util_timersub (deadline st a) (util_timersub e s)
       else deadline st a)" for a
    using h(3) [of "Ptr a"] v [of a] by (auto simp: deadline_def)
  moreover have "heap_normal ?st"
    using assms(2) h(3) normal_timersub [OF _ normal_timersub [OF assms(4,3)]]
    by (auto simp: heap_normal_def it)
  ultimately show ?thesis using h(1,2) it by (intro exI [of _ ?st]) simp
qed

lemma cb_frame_views:
  assumes "cb_frame st st'"
  shows "entry_view st' a = entry_view st a"
  using assms by (simp add: cb_frame_def entry_view_def) (metis deref.simps(1))

lemma entry_deadline:
  assumes "entry_view st' a = entry_view st a"
  shows "deadline st' a = deadline st a"
  using assms by (cases "timers (mem st) a"; cases "timers (mem st') a")
    (simp_all add: entry_view_def deadline_def cb_view_def)

lemma key_deadline: "timers (mem st) a \<noteq> None \<Longrightarrow> key_in st (Ptr a) = tv_key (deadline st a)"
  by (auto simp: key_in_def key_of_def deadline_def)

text \<open>After the update, comparing keys is comparing the remaining times.\<close>

lemma updated_key_le:
  assumes "tmod_ok st1 as" "heap_normal st1" "items_of st1 = items_of st"
    "\<And>a. Ptr a \<in># items_of st \<Longrightarrow> deadline st1 a = util_timersub (deadline st a) d"
    and ab: "Ptr a \<in># items_of st" "Ptr b \<in># items_of st"
  shows "key_in st1 (Ptr a) \<le> key_in st1 (Ptr b) \<longleftrightarrow> remaining st a \<le> remaining st b"
    and "key_in st1 (Ptr a) \<le> (0, 0) \<longleftrightarrow> remaining st a \<le> micros d"
proof -
  have rem: "key_in st1 (Ptr c) = tv_key (deadline st1 c) \<and> normal_tv (deadline st1 c) \<and>
      micros (deadline st1 c) = remaining st c - micros d" if "Ptr c \<in># items_of st" for c
  proof -
    have "micros (deadline st c) = remaining st c"
      by (cases "timers (mem st) c") (simp_all add: deadline_def remaining_def micros_def)
    moreover obtain s0 where s0: "mh st1 = Some s0" "heap_ok (timers (mem st1)) s0"
      using assms(1) by (auto simp: tmod_ok_def)
    have "Ptr c \<in># items_of st1" using that assms(3) by simp
    then obtain u where u: "timers (mem st1) c = Some u"
      using elems_Ptr [OF s0(2), of "Ptr c"] s0(1) by (auto simp: items_of_def)
    moreover have "deadline st1 c = timeout u" "normal_tv (timeout u)"
      using u assms(2,3) that by (auto simp: deadline_def heap_normal_def)
    moreover have "micros (deadline st1 c) = micros (deadline st c) - micros d"
      using assms(4) [OF that] by simp
    ultimately show ?thesis by (simp add: key_deadline)
  qed
  show "key_in st1 (Ptr a) \<le> key_in st1 (Ptr b) \<longleftrightarrow> remaining st a \<le> remaining st b"
    using rem [OF ab(1)] rem [OF ab(2)] key_micros by simp
  have "(0, 0) = tv_key \<lparr>tv_sec = 0, tv_usec = 0\<rparr>" "normal_tv \<lparr>tv_sec = 0, tv_usec = 0\<rparr>"
    by (simp_all add: tv_key_def normal_tv_def)
  then show "key_in st1 (Ptr a) \<le> (0, 0) \<longleftrightarrow> remaining st a \<le> micros d"
    using rem [OF ab(1)] key_micros [of "deadline st1 a" "\<lparr>tv_sec = 0, tv_usec = 0\<rparr>"]
    by (simp add: micros_def)
qed

text \<open>The first half of an iteration: the due timers move to the activated list.\<close>

lemma expire_by_time:
  assumes ok: "tmod_ok st []" "heap_normal st" "normal_tv t1" "normal_tv t2"
  defines "d \<equiv> util_timersub t2 t1"
  shows "\<exists>st1 out st2. timer_update st t1 t2 = Some st1 \<and> timer_process_timeout st1 = Some st2 \<and>
    tmod_ok st2 out \<and> distinct out \<and> called st2 = called st \<and> wraps (mem st2) = wraps (mem st) \<and>
    items_of st = mset (map Ptr out) + items_of st2 \<and> (\<forall>a \<in> set out. Ptr a \<notin># items_of st2) \<and>
    (\<forall>a. action_view st2 a = action_view st a) \<and> sorted (rev (map (remaining st) out)) \<and>
    (\<forall>a. a \<in> set out \<longleftrightarrow> Ptr a \<in># items_of st \<and> remaining st a \<le> micros d) \<and>
    (\<forall>a. Ptr a \<in># items_of st \<longrightarrow> deadline st2 a = util_timersub (deadline st a) d)"
proof -
  obtain st1 where s1: "timer_update st t1 t2 = Some st1" "tmod_ok st1 []" "items_of st1 = items_of st"
    "\<And>a. action_view st1 a = action_view st a" "wraps (mem st1) = wraps (mem st)"
    "called st1 = called st" "heap_normal st1"
    "\<And>a. Ptr a \<in># items_of st \<Longrightarrow> deadline st1 a = util_timersub (deadline st a) d"
    using update_views [OF ok] unfolding d_def by auto
  obtain out st2 where s2: "timer_process_timeout st1 = Some st2" "tmod_ok st2 (out @ [])" "cb_frame st1 st2"
    "items_of st1 = mset (map Ptr out) + items_of st2"
    "sorted (rev (map (key_in st1 \<circ> Ptr) out))" "\<forall>a \<in> set out. key_in st1 (Ptr a) \<le> (0, 0)"
    "\<forall>q \<in># items_of st2. \<not> key_in st1 q \<le> (0, 0)"
    using process_timeout_spec [OF s1(2)] by blast
  have e2: "entry_view st2 a = entry_view st1 a" for a using cb_frame_views [OF s2(3)] .
  have fr: "wraps (mem st2) = wraps (mem st)" "called st2 = called st"
    using s2(3) s1(5,6) by (simp_all add: cb_frame_def)
  have it: "items_of st = mset (map Ptr out) + items_of st2" using s2(4) s1(3) by simp
  have mem_out: "Ptr a \<in># items_of st" if "a \<in> set out" for a using it that by simp
  note le = updated_key_le [OF s1(2,7,3,8)]
  have dist: "distinct out"
    using s2(2) chain_distinct by (fastforce simp: tmod_ok_def list_holds_def)
  have disj: "\<forall>a \<in> set out. Ptr a \<notin># items_of st2"
    using s2(2) by (auto simp: tmod_ok_def items_of_def)
  have "\<forall>a. a \<in> set out \<longleftrightarrow> Ptr a \<in># items_of st \<and> remaining st a \<le> micros d"
  proof (intro allI)
    fix a
    show "a \<in> set out \<longleftrightarrow> Ptr a \<in># items_of st \<and> remaining st a \<le> micros d"
    proof (cases "Ptr a \<in># items_of st")
    case False
    then show ?thesis using mem_out by blast
  next
    case True
    with le(2) it s2(6,7) show ?thesis by auto
    qed
  qed
  moreover have "sorted (rev (map (remaining st) out))"
    using s2(5) le(1) mem_out sorted_rev_map_cong [of out "key_in st1 \<circ> Ptr" "remaining st"] by simp
  moreover have "\<forall>a. action_view st2 a = action_view st a"
    using entry_action_view [OF e2] s1(4) by simp
  moreover have "\<forall>a. Ptr a \<in># items_of st \<longrightarrow> deadline st2 a = util_timersub (deadline st a) d"
    using entry_deadline [OF e2] s1(8) by simp
  moreover have "tmod_ok st2 out" using s2(2) by simp
  ultimately show ?thesis
    using s1(1) s2(1) fr it dist disj by (intro exI [of _ st1] exI [of _ out] exI [of _ st2] conjI) assumption+
qed

lemma iteration_spec:
  assumes ok: "tmod_ok st []" "heap_normal st" and usr: "pure_cbs usr"
    and act: "\<forall>a. Ptr a \<in># items_of st \<longrightarrow> user_call st a \<noteq> None"
    and tv: "items_of st \<noteq> {#} \<longrightarrow> lv_tv v \<noteq> None"
    and k: "good_tick k" and sz: "size (items_of st) < 2 ^ 30"
  shows "\<exists>out v' st'. timer_loop_step usr (\<lambda>_. True) rnd k (v, st) = Some (Looping (v', st')) \<and>
    tmod_ok st' [] \<and> called st' = called st @ map (the \<circ> user_call st) out \<and> distinct out \<and>
    (\<forall>a. a \<in> set out \<longleftrightarrow> Ptr a \<in># items_of st \<and> remaining st a \<le> micros (elapsed k)) \<and>
    sorted (rev (map (remaining st) out)) \<and>
    items_of st' = items_of st - mset (map Ptr out) + mset (map Ptr (filter (rearmed st) out)) \<and>
    (\<forall>a. Ptr a \<in># items_of st' \<longrightarrow> deadline st' a =
       (if a \<in> set out then period_of rnd st a else util_timersub (deadline st a) (elapsed k))) \<and>
    wraps (mem st') = wraps (mem st) \<and> (\<forall>a. Ptr a \<in># items_of st' \<longrightarrow> action_view st' a = action_view st a) \<and>
    (items_of st \<noteq> {#} \<longrightarrow> lv_tv v' \<noteq> None)"
proof -
  obtain t1 t2 where t: "\<And>old. snd (timer_get_time (clock1 k) old) = t1"
    "\<And>old. snd (timer_get_time (clock2 k) old) = t2" "normal_tv t1" "normal_tv t2"
    "elapsed k = util_timersub t2 t1" "select_dispatch (select_ret k) \<noteq> -1"
    using good_tick_elapsed [OF k] by metis
  obtain r where r: "timer_get_next_timeout st (lv_tv v) = Some r"
    using next_timeout_total [OF ok(1) tv] by blast
  obtain st1 out st2 where s: "timer_update st t1 t2 = Some st1" "timer_process_timeout st1 = Some st2"
    "tmod_ok st2 out" "distinct out" "called st2 = called st" "wraps (mem st2) = wraps (mem st)"
    "items_of st = mset (map Ptr out) + items_of st2" "\<forall>a \<in> set out. Ptr a \<notin># items_of st2"
    "\<And>a. action_view st2 a = action_view st a" "sorted (rev (map (remaining st) out))"
    "\<forall>a. a \<in> set out \<longleftrightarrow> Ptr a \<in># items_of st \<and> remaining st a \<le> micros (elapsed k)"
    "\<And>a. Ptr a \<in># items_of st \<Longrightarrow> deadline st2 a = util_timersub (deadline st a) (elapsed k)"
    using expire_by_time [OF ok t(3,4)] unfolding t(5) by blast
  have eqs: "rearmed st2 = rearmed st" "user_call st2 = user_call st" "period_of rnd st2 = period_of rnd st"
    using action_view_eqs [OF s(9) s(6)] s(6) by (auto simp: period_of_def)
  have "\<forall>a \<in> set out. user_call st2 a \<noteq> None" using act s(7) eqs(2) by simp
  moreover have "size (items_of st2) + length out < 2 ^ 31" using sz s(7) by simp
  ultimately obtain st3 where s3: "timer_process_actived usr (\<lambda>_. True) rnd st2 = Some st3" "tmod_ok st3 []"
    "called st3 = called st2 @ map (the \<circ> user_call st2) out"
    "items_of st3 = items_of st2 + mset (map Ptr (filter (rearmed st2) out))" "wraps (mem st3) = wraps (mem st2)"
    "\<And>b. b \<notin> set out \<Longrightarrow> entry_view st3 b = entry_view st2 b"
    "\<And>a. a \<in> set out \<Longrightarrow> rearmed st2 a \<Longrightarrow> entry_view st3 a = Some (Multi_cb, Ptr a, period_of rnd st2 a)"
    using process_actived_spec [OF s(3) _ usr] by blast
  have "deadline st3 a = (if a \<in> set out then period_of rnd st a else util_timersub (deadline st a) (elapsed k))"
    if a: "Ptr a \<in># items_of st3" for a
  proof (cases "a \<in> set out")
    case True
    then have "rearmed st2 a" using a s3(4) s(8) by auto
    then have "entry_view st3 a = Some (Multi_cb, Ptr a, period_of rnd st2 a)" using True s3(7) by blast
    then show ?thesis using True eqs(3) by (auto simp: entry_view_def cb_view_def deadline_def)
  next
    case False
    then have "Ptr a \<in># items_of st" using a s3(4) s(7) by auto
    then show ?thesis using False entry_deadline [OF s3(6) [OF False]] s(12) by simp
  qed
  moreover have "timer_loop_step usr (\<lambda>_. True) rnd k (v, st) = Some (Looping (\<lparr>lv_tv = r, lv_t1 = t1, lv_t2 = t2\<rparr>, st3))"
    using r t(1,2,6) s(1,2) s3(1) by (simp add: timer_loop_step_def Let_def)
  moreover have "items_of st3 = items_of st - mset (map Ptr out) + mset (map Ptr (filter (rearmed st) out))"
    using s3(4) s(7) eqs(1) by simp
  moreover have "called st3 = called st @ map (the \<circ> user_call st) out" using s3(3) s(5) eqs(2) by simp
  moreover have "action_view st3 a = action_view st a" if a: "Ptr a \<in># items_of st3" for a
  proof (cases "a \<in> set out")
    case True
    then have "rearmed st2 a" using a s3(4) s(8) by auto
    then have "entry_view st3 a = Some (Multi_cb, Ptr a, period_of rnd st2 a)" "rearmed st a"
      using True s3(7) eqs(1) by auto
    moreover have "user_call st a \<noteq> None" using act True s(11) by blast
    ultimately show ?thesis
      by (cases "timers (mem st3) a")
        (auto simp: entry_view_def action_view_def cb_view_def rearmed_def user_call_def split: if_splits)
  next
    case False
    then show ?thesis using entry_action_view [OF s3(6)] s(9) by simp
  qed
  moreover have "items_of st \<noteq> {#} \<longrightarrow> r \<noteq> None"
  proof
    assume "items_of st \<noteq> {#}"
    moreover obtain s0 where s0: "mh st = Some s0" "heap_ok (timers (mem st)) s0"
      using ok(1) by (auto simp: tmod_ok_def)
    ultimately have "hn s0 \<noteq> 0" by (auto simp: items_of_def elems_def)
    with top_spec(2) [OF s0(2)] obtain a where "min_heap_top s0 = Some (Ptr a)" by blast
    then show "r \<noteq> None" using r s0(1)
      by (auto simp: timer_get_next_timeout_def split: bind_splits option.splits)
  qed
  moreover have "lv_tv \<lparr>lv_tv = r, lv_t1 = t1, lv_t2 = t2\<rparr> = r" by simp
  moreover have "wraps (mem st3) = wraps (mem st)" using s3(5) s(6) by simp
  ultimately show ?thesis using s3(2) s(4,10,11)
    by (intro exI [of _ out] exI [of _ "\<lparr>lv_tv = r, lv_t1 = t1, lv_t2 = t2\<rparr>"] exI [of _ st3]) blast
qed

text \<open>A one-shot timer at the head: its wrapper is freed before the loop unlinks it.\<close>

lemma once_head_undefined:
  assumes "tl st = Some L" "l_head L = Ptr a" "l_len L \<noteq> 0" "timers (mem st) a = Some t"
    "t_cb t = Once_cb" "t_arg t = Ptr a" "pure_cbs usr"
  shows "timer_process_actived usr ok rnd st = None"
proof -
  have "tl_remove st1 (Ptr a) = None" if o: "once_cb usr st (Ptr a) = Some st1" for st1
  proof -
    obtain m where f: "timer_wrapper_free m (Ptr a) = Some (mem st1)" "tl st1 = tl st"
      using o assms(7)
      by (auto simp: once_cb_def call_user_def pure_cbs_def split: bind_splits cbfun.splits)
    then have "timers (mem st1) a = None"
      by (auto simp: timer_wrapper_free_def free_block_def split: if_splits dest!: sym [of _ "mem st1"])
    then show ?thesis using f(2) assms(1,2,3) by (simp add: tl_remove_def list_remove_def)
  qed
  then show ?thesis
    using assms by (simp add: timer_process_actived_def actived_loop.simps [of _ _ _ _ "Ptr a"] run_cb_def
        split: bind_split)
qed

subsection \<open>The interface calls\<close>

lemma wrapper_call_spec:
  assumes st: "tmod_ok st as" "timers (mem st) a = None" "ml st = Some M" "m_list_holds (wraps (mem st)) M ws"
    and ws: "\<forall>b \<in> set ws. timers (mem st) b \<noteq> None" and sz: "size (items_of st) + 1 < 2 ^ 31" and secs: "c_int secs \<noteq> None"
  shows "\<exists>st' M'. wrapper_call kind (Some a) (\<lambda>_. True) rnd st secs f x = Some (0, st') \<and> tmod_ok st' as \<and>
    items_of st' = add_mset (Ptr a) (items_of st) \<and> called st' = called st \<and>
    entry_view st' a = Some (kind, Ptr a, the (double_tv rnd secs)) \<and>
    (\<exists>w. wraps (mem st') a = Some w \<and> w_cb w = f \<and> w_arg w = x \<and> w_timeout w = secs) \<and>
    (\<forall>b. b \<noteq> a \<longrightarrow> entry_view st' b = entry_view st b \<and> wraps (mem st') b = wraps (mem st) b) \<and>
    ml st' = Some M' \<and> m_list_holds (wraps (mem st')) M' (a # ws)"
proof -
  let ?h = "timers (mem st)"
  from st(1) obtain s L where s: "mh st = Some s" "heap_ok ?h s" "tl st = Some L"
    "list_holds ?h L as" "\<forall>b \<in> set as. Ptr b \<notin># elems s"
    by (auto simp: tmod_ok_def)
  have it: "items_of st = elems s" using s(1) by (simp add: items_of_def)
  have an: "Ptr a \<notin># elems s" using elems_Ptr [OF s(2), of "Ptr a"] st(2) by auto
  have aas: "a \<notin> set as"
    using chain_in_dom [of "t_links ?h" "l_head L" as a] s(4) st(2) by (auto simp: list_holds_def t_links_def)
  have aws: "a \<notin> set ws" using ws st(2) by auto
  let ?w = "raw_wrapper\<lparr>w_cb := f, w_arg := x, w_timeout := secs\<rparr>"
  let ?t = "raw_timer\<lparr>t_cb := kind, t_arg := Ptr a\<rparr>" and ?tv = "the (double_tv rnd secs)"
  let ?h1 = "?h(a \<mapsto> ?t)" and ?wr = "(wraps (mem st))(a \<mapsto> ?w)"
  let ?st1 = "st\<lparr>mem := (mem st)\<lparr>wraps := ?wr, timers := ?h1\<rparr>\<rparr>"
  have other: "q \<noteq> Ptr a" if "q \<in># elems s" for q using that an by auto
  have "map_option heap_view (deref ?h1 q) = map_option heap_view (deref ?h q)" if "q \<in># elems s" for q
    using other [OF that] by (cases q) auto
  then have ok1: "heap_ok ?h1 s" using heap_ok_cong [OF s(2)] by blast
  have "\<exists>h s'. timer_add (\<lambda>_. True) ?st1 (Ptr a) ?tv =
      Some (0, ?st1\<lparr>mem := (mem ?st1)\<lparr>timers := h\<rparr>, mh := Some s'\<rparr>) \<and> heap_ok h s' \<and>
      elems s' = add_mset (Ptr a) (elems s) \<and> only_idx ((timers (mem ?st1))(a \<mapsto> ?t\<lparr>timeout := ?tv\<rparr>)) h"
    using s(1) ok1 an sz it by (intro add_spec) simp_all
  then obtain h s' where h: "timer_add (\<lambda>_. True) ?st1 (Ptr a) ?tv =
      Some (0, ?st1\<lparr>mem := (mem ?st1)\<lparr>timers := h\<rparr>, mh := Some s'\<rparr>)" "heap_ok h s'"
    "elems s' = add_mset (Ptr a) (elems s)" "only_idx (?h1(a \<mapsto> ?t\<lparr>timeout := ?tv\<rparr>)) h"
    by auto
  have "w_links ?wr b = w_links (wraps (mem st)) b" if "b \<in> set ws" for b
    using that aws by (auto simp: w_links_def)
  then have "chain (w_links ?wr) (l_head M) ws"
    using st(4) chain_cong [of ws "w_links ?wr" "w_links (wraps (mem st))"] by (simp add: m_list_holds_def)
  then have mh: "m_list_holds ?wr M ws" using st(4) aws by (auto simp: m_list_holds_def)
  have "?wr a = Some ?w" "w_prev ?w \<in> {Null, Wild}" by (simp_all add: raw_wrapper_def)
  note ins = m_list_insert_spec [OF mh this(1) aws this(2)]
  let ?wr2 = "?wr(a \<mapsto> ?w\<lparr>w_next := l_head M\<rparr>)" and ?M = "M\<lparr>l_head := Ptr a, l_len := l_len M + 1\<rparr>"
  have ins1: "m_list_insert ?wr (Some M) (Ptr a) = Some (0, ?wr2, Some ?M)" using ins(1) by (simp add: fun_upd_def)
  let ?st2 = "st\<lparr>mem := (mem st)\<lparr>timers := h, wraps := ?wr2\<rparr>, mh := Some s', ml := Some ?M\<rparr>"
  obtain tv where tv: "double_tv rnd secs = Some tv" using secs by (auto simp: double_tv_def)
  have call: "wrapper_call kind (Some a) (\<lambda>_. True) rnd st secs f x = Some (0, ?st2)"
    using st(2,3) h(1) ins1 tv
    by (simp add: wrapper_call_def timer_wrapper_new_def timer_set_def Let_def raw_timer_def)
  have lk: "t_links h b = t_links ?h b" if "b \<noteq> a" for b
    using only_idx_views(2) [OF h(4), of b] that by (simp add: t_links_def)
  then have "t_links h b = t_links ?h b" if "b \<in> set as" for b
    using that aas by metis
  then have "list_holds h L as" using s(4) list_holds_cong by blast
  then have okk: "tmod_ok ?st2 as" using h(2,3) s(3,5) aas by (auto simp: tmod_ok_def)
  have "items_of ?st2 = add_mset (Ptr a) (items_of st)" using h(3) it by (simp add: items_of_def)
  moreover have ev: "entry_view ?st2 b = map_option cb_view ((?h(a \<mapsto> ?t\<lparr>timeout := ?tv\<rparr>)) b)" for b
    using only_idx_views(1) [OF h(4), of "Ptr b"] by (simp add: entry_view_def)
  then have "entry_view ?st2 a = Some (kind, Ptr a, ?tv)" by (simp add: cb_view_def)
  moreover have "entry_view ?st2 b = entry_view st b" if "b \<noteq> a" for b
    using ev that by (simp add: entry_view_def)
  moreover have "m_list_holds ?wr2 ?M (a # ws)" using ins(2) by (simp add: fun_upd_def)
  ultimately show ?thesis using call okk by (intro exI [of _ ?st2] exI [of _ ?M]) simp
qed

lemma destory_twice_undefined:
  assumes "mh st = Some s" "ha s \<noteq> 0" "timer_destory st = Some (r, st1)"
  shows "timer_destory st1 = None"
  using assms
  by (auto simp: timer_destory_def heap_dtor_if_def tl_free_if_def ml_free_if_def min_heap_dtor_def
      split: bind_splits if_splits)

end
