(* ===== verification/Timer_Runs.thy ===== *)
theory Timer_Runs
  imports Timer_Core
begin

section \<open>mytimer: programs that use the module\<close>

text \<open>
  A program calls \<open>timer_init\<close>, registers periodic calls with \<open>multi_call\<close> and enters
  \<open>timer_loop\<close>.  The state such a program is in satisfies \<open>registered\<close>; the weaker
  \<open>repeating\<close> is the invariant of the loop.  The properties of the timer module follow.
\<close>

definition timer_start :: tmod where
  "timer_start = \<lparr>mem = \<lparr>timers = (\<lambda>_. None), wraps = (\<lambda>_. None)\<rparr>, mh = None, tl = None, ml = None, called = []\<rparr>"

text \<open>One request: the address \<open>malloc\<close> returns, the period, the callback and its argument.\<close>

type_synonym request = "nat \<times> real \<times> nat \<times> ptr"

fun register :: "(real \<Rightarrow> real) \<Rightarrow> request list \<Rightarrow> tmod \<Rightarrow> tmod option" where
  "register rnd [] st = Some st"
| "register rnd ((a, secs, k, x) # rs) st = do {
     (r, st1) \<leftarrow> multi_call (Some a) (\<lambda>_. True) rnd st secs (User_cb k) x;
     register rnd rs st1 }"

definition good_period :: "(real \<Rightarrow> real) \<Rightarrow> real \<Rightarrow> bool" where
  "good_period rnd secs \<longleftrightarrow> (case double_tv rnd secs of None \<Rightarrow> False | Some tv \<Rightarrow> normal_tv tv)"

lemma good_periodD:
  assumes "good_period rnd secs"
  shows "c_int secs \<noteq> None" "normal_tv (the (double_tv rnd secs))"
  using assms by (auto simp: good_period_def double_tv_def split: option.splits)

definition repeating :: "(real \<Rightarrow> real) \<Rightarrow> tmod \<Rightarrow> bool" where
  "repeating rnd st \<longleftrightarrow> tmod_ok st [] \<and> heap_normal st \<and> size (items_of st) < 2 ^ 30 \<and>
     (\<forall>a. Ptr a \<in># items_of st \<longrightarrow> rearmed st a \<and> user_call st a \<noteq> None \<and> normal_tv (period_of rnd st a))"

definition registered :: "(real \<Rightarrow> real) \<Rightarrow> nat list \<Rightarrow> tmod \<Rightarrow> bool" where
  "registered rnd ws st \<longleftrightarrow> repeating rnd st \<and> items_of st = mset (map Ptr ws) \<and>
     (\<forall>b. b \<notin> set ws \<longrightarrow> timers (mem st) b = None) \<and>
     (\<exists>M. ml st = Some M \<and> m_list_holds (wraps (mem st)) M ws)"

lemma init_spec:
  "\<exists>st. timer_init True True True timer_start = Some (0, st) \<and> registered rnd [] st \<and> called st = []"
  by (auto simp: timer_init_def timer_start_def heap_dtor_if_def tl_free_if_def ml_free_if_def list_free_def
      m_list_free_def list_new_def m_list_new_def registered_def repeating_def tmod_ok_def heap_normal_def
      items_of_def elems_def heap_ok_ctor list_holds_def m_list_holds_def Let_def)
    (simp_all add: min_heap_ctor_def)

lemma multi_call_registered:
  assumes st: "registered rnd ws st" and a: "a \<notin> set ws" and p0: "good_period rnd secs"
    and sz: "length ws + 1 < 2 ^ 30"
  shows "\<exists>st'. multi_call (Some a) (\<lambda>_. True) rnd st secs (User_cb k) x = Some (0, st') \<and>
    registered rnd (a # ws) st' \<and> called st' = called st \<and> user_call st' a = Some (k, x) \<and>
    (\<forall>b. b \<noteq> a \<longrightarrow> user_call st' b = user_call st b)"
proof -
  note p = good_periodD(2) [OF p0] and p1 = good_periodD(1) [OF p0]
  from st obtain M where M: "ml st = Some M" "m_list_holds (wraps (mem st)) M ws"
    and r: "repeating rnd st" and it: "items_of st = mset (map Ptr ws)"
    and nones: "\<forall>b. b \<notin> set ws \<longrightarrow> timers (mem st) b = None"
    by (auto simp: registered_def)
  have fresh: "timers (mem st) b = None" if "b \<notin> set ws" for b using nones that by blast
  have live: "\<forall>b \<in> set ws. timers (mem st) b \<noteq> None"
  proof
    fix b assume "b \<in> set ws"
    then have "rearmed st b" using r it by (auto simp: repeating_def)
    then show "timers (mem st) b \<noteq> None" by (auto simp: rearmed_def)
  qed
  have "size (items_of st) + 1 < 2 ^ 31" using it sz by simp
  with wrapper_call_spec [OF _ fresh [OF a] M live _ p1, of "[]" Multi_cb rnd "User_cb k" x] r
  obtain st' M' where c: "wrapper_call Multi_cb (Some a) (\<lambda>_. True) rnd st secs (User_cb k) x = Some (0, st')"
    "tmod_ok st' []" "items_of st' = add_mset (Ptr a) (items_of st)" "called st' = called st"
    "entry_view st' a = Some (Multi_cb, Ptr a, the (double_tv rnd secs))"
    "\<exists>w. wraps (mem st') a = Some w \<and> w_cb w = User_cb k \<and> w_arg w = x \<and> w_timeout w = secs"
    "\<And>b. b \<noteq> a \<Longrightarrow> entry_view st' b = entry_view st b \<and> wraps (mem st') b = wraps (mem st) b"
    "ml st' = Some M'" "m_list_holds (wraps (mem st')) M' (a # ws)"
    by (auto simp: repeating_def)
  have ua: "user_call st' a = Some (k, x)" "rearmed st' a" "period_of rnd st' a = the (double_tv rnd secs)"
    using c(5,6) p1 by (auto simp: entry_view_def cb_view_def user_call_def rearmed_def period_of_def)
  have ub: "user_call st' b = user_call st b" "rearmed st' b = rearmed st b" "period_of rnd st' b = period_of rnd st b"
    if "b \<noteq> a" for b
    using c(7) [OF that] by (cases "timers (mem st) b"; cases "timers (mem st') b";
        auto simp: entry_view_def cb_view_def user_call_def rearmed_def period_of_def split: cbfun.splits)+
  have norm: "heap_normal st'"
    unfolding heap_normal_def
  proof (intro ballI allI impI)
    fix q t assume q: "q \<in># items_of st'" "deref (timers (mem st')) q = Some t"
    then obtain b where b: "q = Ptr b" "timers (mem st') b = Some t" by (cases q) auto
    show "normal_tv (timeout t)"
    proof (cases "b = a")
      case True
      then show ?thesis using b c(5) p by (auto simp: entry_view_def cb_view_def)
    next
      case False
      then have "entry_view st' b = entry_view st b" "q \<in># items_of st" using c(3,7) q b by auto
      then obtain u where "timers (mem st) b = Some u" "timeout u = timeout t"
        using b by (cases "timers (mem st) b") (auto simp: entry_view_def cb_view_def)
      then show ?thesis using r \<open>q \<in># items_of st\<close> b unfolding repeating_def heap_normal_def
        by (metis deref.simps(1))
    qed
  qed
  have "timers (mem st') b = None" if "b \<notin> set (a # ws)" for b
    using c(7) [of b] fresh [of b] that by (auto simp: entry_view_def)
  moreover have "repeating rnd st'"
    unfolding repeating_def
  proof (intro conjI allI impI)
    fix b assume b: "Ptr b \<in># items_of st'"
    show "rearmed st' b" "user_call st' b \<noteq> None" "normal_tv (period_of rnd st' b)"
      using ua ub [of b] p b c(3) r by (cases "b = a"; auto simp: repeating_def)+
  qed (use c(2,3) norm it sz in simp_all)
  moreover have "multi_call (Some a) (\<lambda>_. True) rnd st secs (User_cb k) x = Some (0, st')"
    using c(1) by (simp add: multi_call_def)
  ultimately show ?thesis using c(3,4,8,9) ua(1) ub(1) it by (intro exI [of _ st']) (simp add: registered_def)
qed

lemma register_spec:
  assumes "registered rnd ws st" "distinct (map fst rs)" "set (map fst rs) \<inter> set ws = {}"
    "\<forall>a secs k x. (a, secs, k, x) \<in> set rs \<longrightarrow> good_period rnd secs" "length ws + length rs < 2 ^ 30"
  shows "\<exists>st'. register rnd rs st = Some st' \<and> registered rnd (rev (map fst rs) @ ws) st' \<and> called st' = called st \<and>
    (\<forall>a secs k x. (a, secs, k, x) \<in> set rs \<longrightarrow> user_call st' a = Some (k, x)) \<and>
    (\<forall>b. b \<notin> set (map fst rs) \<longrightarrow> user_call st' b = user_call st b)"
  using assms
proof (induction rs arbitrary: ws st)
  case Nil
  then show ?case by simp
next
  case (Cons r rs)
  obtain a secs k x where r: "r = (a, secs, k, x)" by (cases r)
  have pre: "a \<notin> set ws" "good_period rnd secs" "length ws + 1 < 2 ^ 30" using Cons.prems(3-5) r by auto
  obtain st1 where st1: "multi_call (Some a) (\<lambda>_. True) rnd st secs (User_cb k) x = Some (0, st1)"
    "registered rnd (a # ws) st1" "called st1 = called st" "user_call st1 a = Some (k, x)"
    "\<forall>b. b \<noteq> a \<longrightarrow> user_call st1 b = user_call st b"
    using multi_call_registered [OF Cons.prems(1) pre] by blast
  have na: "a \<notin> set (map fst rs)" "distinct (map fst rs)" using Cons.prems(2) r by auto
  obtain st' where st': "register rnd rs st1 = Some st'" "registered rnd (rev (map fst rs) @ a # ws) st'"
    "called st' = called st1" "\<forall>a secs k x. (a, secs, k, x) \<in> set rs \<longrightarrow> user_call st' a = Some (k, x)"
    "\<forall>b. b \<notin> set (map fst rs) \<longrightarrow> user_call st' b = user_call st1 b"
  proof -
    have "set (map fst rs) \<inter> set (a # ws) = {}" using na(1) Cons.prems(3) r by auto
    moreover have "\<forall>a secs k x. (a, secs, k, x) \<in> set rs \<longrightarrow> good_period rnd secs"
      using Cons.prems(4) by (meson list.set_intros(2))
    moreover have "length (a # ws) + length rs < 2 ^ 30" using Cons.prems(5) by simp
    ultimately show thesis using Cons.IH [OF st1(2) na(2)] that by blast
  qed
  then show ?case using st1 na r by (intro exI [of _ st']) auto
qed

lemma step_repeating:
  assumes r: "repeating rnd st" and usr: "pure_cbs usr" and tv: "items_of st \<noteq> {#} \<longrightarrow> lv_tv v \<noteq> None"
    and k: "good_tick k"
  shows "\<exists>out v' st'. timer_loop_step usr (\<lambda>_. True) rnd k (v, st) = Some (Looping (v', st')) \<and>
    repeating rnd st' \<and> items_of st' = items_of st \<and> (items_of st' \<noteq> {#} \<longrightarrow> lv_tv v' \<noteq> None) \<and>
    called st' = called st @ map (the \<circ> user_call st) out \<and> distinct out \<and>
    (\<forall>a. a \<in> set out \<longleftrightarrow> Ptr a \<in># items_of st \<and> remaining st a \<le> micros (elapsed k)) \<and>
    sorted (rev (map (remaining st) out)) \<and>
    (\<forall>a. Ptr a \<in># items_of st \<longrightarrow> user_call st' a = user_call st a \<and> deadline st' a =
       (if a \<in> set out then period_of rnd st a else util_timersub (deadline st a) (elapsed k)))"
proof -
  have act: "\<forall>a. Ptr a \<in># items_of st \<longrightarrow> user_call st a \<noteq> None" using r by (auto simp: repeating_def)
  have ok: "tmod_ok st []" "heap_normal st" "size (items_of st) < 2 ^ 30" using r by (auto simp: repeating_def)
  obtain out v' st' where s: "timer_loop_step usr (\<lambda>_. True) rnd k (v, st) = Some (Looping (v', st'))"
    "tmod_ok st' []" "called st' = called st @ map (the \<circ> user_call st) out" "distinct out"
    "\<forall>a. a \<in> set out \<longleftrightarrow> Ptr a \<in># items_of st \<and> remaining st a \<le> micros (elapsed k)"
    "sorted (rev (map (remaining st) out))"
    "items_of st' = items_of st - mset (map Ptr out) + mset (map Ptr (filter (rearmed st) out))"
    "\<forall>a. Ptr a \<in># items_of st' \<longrightarrow> deadline st' a =
       (if a \<in> set out then period_of rnd st a else util_timersub (deadline st a) (elapsed k))"
    "wraps (mem st') = wraps (mem st)" "\<forall>a. Ptr a \<in># items_of st' \<longrightarrow> action_view st' a = action_view st a"
    "items_of st \<noteq> {#} \<longrightarrow> lv_tv v' \<noteq> None"
    using iteration_spec [OF ok(1,2) usr act tv k ok(3), of rnd] by (elim exE conjE)
  have "filter (rearmed st) out = out" using r s(5) by (auto simp: repeating_def filter_id_conv)
  moreover have "mset (map Ptr out) \<subseteq># items_of st"
  proof -
    have "distinct (map Ptr out)" using s(4) by (simp add: distinct_map inj_on_def)
    moreover have "set (map Ptr out) \<subseteq> set_mset (items_of st)" using s(5) by auto
    ultimately show ?thesis by (rule distinct_msubset)
  qed
  ultimately have it: "items_of st' = items_of st" using s(7) by simp
  have views: "rearmed st' a = rearmed st a" "user_call st' a = user_call st a" "period_of rnd st' a = period_of rnd st a"
    if "Ptr a \<in># items_of st" for a
    using action_view_eqs [of st' a st] s(10) that it s(9) by (simp_all add: period_of_def)
  have el: "normal_tv (elapsed k)" using good_tick_elapsed [OF k] normal_timersub by metis
  have "heap_normal st'"
    unfolding heap_normal_def
  proof (intro ballI allI impI)
    fix q t assume q: "q \<in># items_of st'" "deref (timers (mem st')) q = Some t"
    then obtain a where a: "q = Ptr a" "timers (mem st') a = Some t" by (cases q) auto
    have "rearmed st a" using r q(1) a(1) it by (auto simp: repeating_def)
    then obtain u where u: "timers (mem st) a = Some u" by (auto simp: rearmed_def)
    have "normal_tv (deadline st a)" using r q(1) a(1) it u unfolding repeating_def heap_normal_def
      by (auto simp: deadline_def)
    then have "normal_tv (deadline st' a)" using s(8) q(1) a(1) it r normal_timersub [OF _ el]
      by (auto simp: repeating_def)
    then show "normal_tv (timeout t)" using a by (simp add: deadline_def)
  qed
  then have "repeating rnd st'" using r s(2) it views by (auto simp: repeating_def)
  then show ?thesis using s(1,3-6,8,11) it views(2)
    by (intro exI [of _ out] exI [of _ v'] exI [of _ st']) (simp del: set_mset_eq_empty_iff)
qed

lemma loop_repeating:
  assumes "repeating rnd st" "pure_cbs usr" "items_of st \<noteq> {#} \<longrightarrow> lv_tv v \<noteq> None" "\<forall>k \<in> set ks. good_tick k"
  shows "\<exists>v' st'. timer_loop usr (\<lambda>_. True) rnd ks (v, st) = Some (Looping (v', st')) \<and> repeating rnd st' \<and>
    items_of st' = items_of st \<and>
    (\<exists>cs. called st' = called st @ cs \<and> set cs \<subseteq> {c. \<exists>a. Ptr a \<in># items_of st \<and> user_call st a = Some c})"
  using assms
proof (induction ks arbitrary: v st)
  case Nil
  then show ?case by (auto intro: exI [of _ "[]"])
next
  case (Cons k ks)
  obtain out v1 st1 where s: "timer_loop_step usr (\<lambda>_. True) rnd k (v, st) = Some (Looping (v1, st1))"
    "repeating rnd st1" "items_of st1 = items_of st" "items_of st1 \<noteq> {#} \<longrightarrow> lv_tv v1 \<noteq> None"
    "called st1 = called st @ map (the \<circ> user_call st) out"
    "\<forall>a. a \<in> set out \<longleftrightarrow> Ptr a \<in># items_of st \<and> remaining st a \<le> micros (elapsed k)"
    "\<forall>a. Ptr a \<in># items_of st \<longrightarrow> user_call st1 a = user_call st a"
    using step_repeating [OF Cons.prems(1-3), of k] Cons.prems(4) by fastforce
  obtain v' st' cs where r: "timer_loop usr (\<lambda>_. True) rnd ks (v1, st1) = Some (Looping (v', st'))" "repeating rnd st'"
    "items_of st' = items_of st" "called st' = called st1 @ cs"
    "set cs \<subseteq> {c. \<exists>a. Ptr a \<in># items_of st1 \<and> user_call st1 a = Some c}"
    using Cons.IH [OF s(2) Cons.prems(2) s(4)] Cons.prems(4) s(3) by fastforce
  have "the (user_call st a) \<in> {c. \<exists>a. Ptr a \<in># items_of st \<and> user_call st a = Some c}" if "a \<in> set out" for a
    using that s(6) Cons.prems(1) by (fastforce simp: repeating_def)
  moreover have "set cs \<subseteq> {c. \<exists>a. Ptr a \<in># items_of st \<and> user_call st a = Some c}" using r(5) s(3,7) by (smt (verit) Collect_mono_iff subset_trans)
  ultimately have "set (map (the \<circ> user_call st) out @ cs) \<subseteq> {c. \<exists>a. Ptr a \<in># items_of st \<and> user_call st a = Some c}"
    by auto
  then show ?case using s(1,5) r(1-4) by (intro exI [of _ v'] exI [of _ st']) auto
qed

end
