(* ===== verification/Timer_Props.thy ===== *)
theory Timer_Props
  imports Timer_Runs
begin

section \<open>mytimer: properties\<close>

text \<open>
  The properties of the timer module: a program of periodic calls never goes wrong, one
  round of the loop runs the due timers, the heap is a priority queue, and the calls the code
  does not survive.
\<close>

subsection \<open>Runs\<close>

lemma reg_normal: "\<forall>r \<in> set rs. good_period rnd (fst (snd r)) \<Longrightarrow>
  \<forall>a secs k x. (a, secs, k, x) \<in> set rs \<longrightarrow> good_period rnd secs"
  by fastforce

text \<open>
  C2. Safety of periodic timers.  A program that calls timer_init, registers any number of
  periodic calls (multi_call), fewer than \<open>2 ^ 30\<close>, at distinct fresh addresses with periods
  that are not negative and whose seconds fit an int, and then runs timer_loop for any number of rounds in which the
  clock and select work, never reaches undefined behaviour, never leaves the loop, keeps every
  timer armed, and calls only the registered callbacks with their own arguments.  Memory does not
  run out (malloc and realloc succeed), and the callbacks do not touch the timer module.
\<close>

theorem repeating_timers_safe:
  assumes "distinct (map fst rs)" "\<forall>r \<in> set rs. good_period rnd (fst (snd r))" "length rs < 2 ^ 30"
    "pure_cbs usr" "\<forall>k \<in> set ks. good_tick k" "lv_tv v \<noteq> None"
  shows "\<exists>st0 st1 v' st'. timer_init True True True timer_start = Some (0, st0) \<and> register rnd rs st0 = Some st1 \<and>
    timer_loop usr (\<lambda>_. True) rnd ks (v, st1) = Some (Looping (v', st')) \<and>
    items_of st' = mset (map (Ptr \<circ> fst) rs) \<and>
    set (called st') \<subseteq> (\<lambda>(a, secs, k, x). (k, x)) ` set rs"
proof -
  obtain st0 where st0: "timer_init True True True timer_start = Some (0, st0)" "registered rnd [] st0" "called st0 = []"
    using init_spec by blast
  have small: "length [] + length rs < 2 ^ 30" using assms(3) by simp
  obtain st1 where st1: "register rnd rs st0 = Some st1" "registered rnd (rev (map fst rs) @ []) st1"
    "called st1 = called st0" "\<forall>a secs k x. (a, secs, k, x) \<in> set rs \<longrightarrow> user_call st1 a = Some (k, x)"
    using register_spec [OF st0(2) assms(1) _ reg_normal [OF assms(2)] small] by auto
  have it: "items_of st1 = mset (map (Ptr \<circ> fst) rs)" "repeating rnd st1"
    using st1(2) by (simp_all add: registered_def mset_map image_mset.compositionality)
  obtain v' st' cs where l: "timer_loop usr (\<lambda>_. True) rnd ks (v, st1) = Some (Looping (v', st'))"
    "items_of st' = items_of st1" "called st' = called st1 @ cs"
    "set cs \<subseteq> {c. \<exists>a. Ptr a \<in># items_of st1 \<and> user_call st1 a = Some c}"
    using loop_repeating [OF it(2) assms(4) _ assms(5), of v] assms(6) by blast
  have "{c. \<exists>a. Ptr a \<in># items_of st1 \<and> user_call st1 a = Some c} \<subseteq> (\<lambda>(a, secs, k, x). (k, x)) ` set rs"
    using st1(4) it(1) by (force simp: image_iff)
  then have "set cs \<subseteq> (\<lambda>(a, secs, k, x). (k, x)) ` set rs" using l(4) by (rule order_trans [rotated])
  moreover have "set (called st') = set cs" using l(3) st1(3) st0(3) by simp
  ultimately show ?thesis using st0(1) st1(1) l(1,2) it(1)
    by (intro exI [of _ st0] exI [of _ st1] exI [of _ v'] exI [of _ st']) simp
qed

definition demo_requests :: "request list" where
  "demo_requests = [(1, 2, 7, Null), (2, 3, 8, Null)]"

definition demo_tick :: tick where
  "demo_tick = \<lparr>clock1 = Some (10, 0), select_ret = 0, clock2 = Some (12, 0)\<rparr>"

definition demo_vars :: loop_vars where
  "demo_vars = \<lparr>lv_tv = Some \<lparr>tv_sec = 0, tv_usec = 0\<rparr>, lv_t1 = \<lparr>tv_sec = 0, tv_usec = 0\<rparr>,
     lv_t2 = \<lparr>tv_sec = 0, tv_usec = 0\<rparr>\<rparr>"

lemma demo_facts:
  "distinct (map fst demo_requests)" "\<forall>r \<in> set demo_requests. good_period id (fst (snd r))"
  "length demo_requests < 2 ^ 30" "pure_cbs (\<lambda>_ _. Some)" "good_tick demo_tick" "lv_tv demo_vars \<noteq> None"
  by (simp_all add: demo_requests_def demo_tick_def demo_vars_def normal_tv_def good_period_def double_tv_def c_int_def c_trunc_def
      pure_cbs_def good_tick_def)

theorem repeating_timers_safe_witness:
  "\<exists>st0 st1 v' st'. timer_init True True True timer_start = Some (0, st0) \<and> register id demo_requests st0 = Some st1 \<and>
    timer_loop (\<lambda>_ _. Some) (\<lambda>_. True) id [demo_tick, demo_tick] (demo_vars, st1) = Some (Looping (v', st')) \<and>
    items_of st' = mset (map (Ptr \<circ> fst) demo_requests) \<and>
    set (called st') \<subseteq> (\<lambda>(a, secs, k, x). (k, x)) ` set demo_requests"
  by (rule repeating_timers_safe) (use demo_facts in simp_all)

text \<open>
  C6. One round of the loop.  When the timer heap is well formed with fewer than \<open>2 ^ 30\<close> timers whose
  calls are defined (\<open>user_call\<close>: a periodic one has a period whose seconds fit an int) and no
  entry waits on the active list, when the clock and select work, realloc succeeds and the
  callbacks do not touch the timer module, one iteration of timer_loop runs exactly the timers whose remaining time is at
  most the time that passed, each once, from the latest deadline to the earliest (the active
  list is filled at its head); the periodic ones go back into the heap with their full period,
  and every other timer loses exactly the elapsed time.
\<close>

theorem iteration_fires_due:
  assumes "tmod_ok st []" "heap_normal st" "pure_cbs usr"
    "\<forall>a. Ptr a \<in># items_of st \<longrightarrow> user_call st a \<noteq> None"
    "items_of st \<noteq> {#} \<longrightarrow> lv_tv v \<noteq> None" "good_tick k" "size (items_of st) < 2 ^ 30"
  shows "\<exists>out v' st'. timer_loop_step usr (\<lambda>_. True) rnd k (v, st) = Some (Looping (v', st')) \<and>
    tmod_ok st' [] \<and> called st' = called st @ map (the \<circ> user_call st) out \<and> distinct out \<and>
    (\<forall>a. a \<in> set out \<longleftrightarrow> Ptr a \<in># items_of st \<and> remaining st a \<le> micros (elapsed k)) \<and>
    sorted (rev (map (remaining st) out)) \<and>
    items_of st' = items_of st - mset (map Ptr out) + mset (map Ptr (filter (rearmed st) out)) \<and>
    (\<forall>a. Ptr a \<in># items_of st' \<longrightarrow> deadline st' a =
       (if a \<in> set out then period_of rnd st a else util_timersub (deadline st a) (elapsed k)))"
  using iteration_spec [OF assms(1-7), of rnd] by (elim exE conjE) (intro exI conjI, assumption+)

lemma demo_registered:
  "\<exists>st0 st. timer_init True True True timer_start = Some (0, st0) \<and> register id demo_requests st0 = Some st \<and>
    repeating id st \<and> items_of st = {#Ptr 1, Ptr 2#}"
proof -
  obtain st0 where st0: "timer_init True True True timer_start = Some (0, st0)" "registered id [] st0"
    using init_spec by blast
  obtain st where st: "register id demo_requests st0 = Some st" "registered id (rev (map fst demo_requests) @ []) st"
    using register_spec [OF st0(2) demo_facts(1) _ reg_normal [OF demo_facts(2)]] demo_facts(3) by auto
  from st(2) have "repeating id st" "items_of st = {#Ptr 1, Ptr 2#}"
    by (simp_all add: registered_def demo_requests_def)
  with st0(1) st(1) show ?thesis by blast
qed

theorem iteration_fires_due_witness:
  "\<exists>st0 st out v' st'. timer_init True True True timer_start = Some (0, st0) \<and> register id demo_requests st0 = Some st \<and>
    timer_loop_step (\<lambda>_ _. Some) (\<lambda>_. True) id demo_tick (demo_vars, st) = Some (Looping (v', st')) \<and>
    (\<forall>a. a \<in> set out \<longleftrightarrow> Ptr a \<in># {#Ptr 1, Ptr 2#} \<and> remaining st a \<le> micros (elapsed demo_tick)) \<and>
    called st' = called st @ map (the \<circ> user_call st) out"
proof -
  obtain st0 st where st: "timer_init True True True timer_start = Some (0, st0)" "register id demo_requests st0 = Some st"
    "repeating id st" "items_of st = {#Ptr 1, Ptr 2#}" using demo_registered by blast
  have pre: "tmod_ok st []" "heap_normal st" "pure_cbs (\<lambda>_ _. Some)" "\<forall>a. Ptr a \<in># items_of st \<longrightarrow> user_call st a \<noteq> None"
    "items_of st \<noteq> {#} \<longrightarrow> lv_tv demo_vars \<noteq> None" "good_tick demo_tick" "size (items_of st) < 2 ^ 30"
    using st(3) demo_facts by (auto simp: repeating_def)
  show ?thesis using iteration_fires_due [OF pre, of id] st(1,2,4) by (elim exE conjE) (intro exI conjI, assumption+, simp, assumption)
qed

subsection \<open>The heap is a priority queue\<close>

text \<open>\<open>e = min_heap_pop(s)\<close> again and again, as many times as the heap has elements.\<close>

fun pop_all :: "nat \<Rightarrow> timer store \<Rightarrow> min_heap \<Rightarrow> (ptr list \<times> timer store \<times> min_heap) option" where
  "pop_all 0 h s = Some ([], h, s)"
| "pop_all (Suc n) h s = do {
     (e, h1, s1) \<leftarrow> min_heap_pop h s;
     (es, h2, s2) \<leftarrow> pop_all n h1 s1;
     Some (e # es, h2, s2) }"

lemma pop_all_spec:
  assumes "heap_ok h s" "size (elems s) = n"
  shows "\<exists>es h' s'. pop_all n h s = Some (es, h', s') \<and> mset es = elems s \<and> sorted (map (key_of h) es) \<and> elems s' = {#} \<and> heap_ok h' s'"
  using assms
proof (induction n arbitrary: h s)
  case 0
  then show ?case by simp
next
  case (Suc n)
  then have n: "hn s \<noteq> 0" using elems_size [OF Suc.prems(1)] by simp
  obtain e h1 s1 where p: "min_heap_pop h s = Some (e, h1, s1)" "min_heap_top s = Some e" "heap_ok h1 s1"
    "only_idx h h1" "elems s1 = elems s - {#e#}" using pop_spec [OF Suc.prems(1) n] by blast
  have e: "e \<in># elems s" "\<forall>q \<in># elems s. key_of h e \<le> key_of h q"
    using top_spec(2) [OF Suc.prems(1) n] p(2) by auto
  have "size (elems s1) = n" using p(5) e(1) Suc.prems(2) by (simp add: size_Diff_singleton)
  from Suc.IH [OF p(3) this] obtain es h' s' where r: "pop_all n h1 s1 = Some (es, h', s')" "mset es = elems s1"
    "sorted (map (key_of h) es)" "elems s' = {#}" "heap_ok h' s'" using only_idx_key [OF p(4)] by auto
  have "set es \<subseteq> set_mset (elems s)" using r(2) p(5) by (metis in_diffD set_mset_mset subsetI)
  then have "sorted (map (key_of h) (e # es))" using r(3) e(2) by auto
  moreover have "mset (e # es) = elems s" using r(2) p(5) e(1) by simp
  ultimately show ?case using p(1) r(1,4,5) by (intro exI [of _ "e # es"] exI [of _ h'] exI [of _ s']) simp
qed

text \<open>
  C21. min_heap_pop is a priority queue's extract-min: popping a well-formed heap until it is
  empty returns every element exactly once, in the order of the timeouts.
\<close>

theorem heap_pops_in_order:
  assumes "heap_ok h s"
  shows "\<exists>es h' s'. pop_all (hn s) h s = Some (es, h', s') \<and> mset es = elems s \<and> sorted (map (key_of h) es) \<and>
    min_heap_empty s'"
proof -
  obtain es h' s' where r: "pop_all (hn s) h s = Some (es, h', s')" "mset es = elems s" "sorted (map (key_of h) es)"
    "elems s' = {#}" "heap_ok h' s'" using pop_all_spec [OF assms elems_size [OF assms]] by blast
  moreover have "min_heap_empty s'" using elems_size [OF r(5)] r(4) by (simp add: min_heap_empty_def)
  ultimately show ?thesis by blast
qed

definition demo_timer :: "nat \<Rightarrow> int \<Rightarrow> cbfun \<Rightarrow> ptr \<Rightarrow> ptr \<Rightarrow> timer" where
  "demo_timer i secs f x nx = \<lparr>min_heap_idx = i, timeout = \<lparr>tv_sec = secs, tv_usec = 0\<rparr>, t_cb = f, t_arg = x,
     t_next = nx, t_prev = Null\<rparr>"

definition demo_store :: "timer store" where
  "demo_store = [1 \<mapsto> demo_timer 0 2 (User_cb 7) Null Null, 2 \<mapsto> demo_timer 1 3 (User_cb 8) Null Null,
     3 \<mapsto> demo_timer uint_max 1 (User_cb 9) Null Null]"

definition demo_heap :: min_heap where
  "demo_heap = \<lparr>hp = [Ptr 1, Ptr 2, Wild, Wild], hn = 2, ha = 4, hfreed = False\<rparr>"

lemma demo_heap_ok: "heap_ok demo_store demo_heap" "elems demo_heap = {#Ptr 1, Ptr 2#}"
  by (auto simp: heap_ok_def demo_heap_def heap_arr_def heap_order_def demo_store_def demo_timer_def elems_def
      less_2_cases_iff valid_def idx_of_def key_of_def tv_key_def par_def)

theorem heap_pops_in_order_witness:
  "\<exists>es h' s'. pop_all 2 demo_store demo_heap = Some (es, h', s') \<and> mset es = {#Ptr 1, Ptr 2#} \<and>
    sorted (map (key_of demo_store) es) \<and> min_heap_empty s'"
  using heap_pops_in_order [OF demo_heap_ok(1)] demo_heap_ok(2) by (simp add: demo_heap_def)

text \<open>
  min_heap_push keeps the heap well formed and adds exactly the new element, and when the
  allocation fails it returns -1 and leaves the heap and the timers untouched.
\<close>

theorem push_keeps_heap:
  assumes "heap_ok h s" "valid h e" "e \<notin># elems s" "hn s + 1 < 2 ^ 31"
  shows "(\<exists>h' s'. min_heap_push ok h s e = Some (0, h', s') \<and> heap_ok h' s' \<and>
            key_of h' = key_of h \<and> elems s' = add_mset e (elems s)) \<or>
         min_heap_push ok h s e = Some (-1, h, s)"
  using push_spec [OF assms, of ok] only_idx_key by metis

theorem push_keeps_heap_witness:
  "(\<exists>h' s'. min_heap_push (\<lambda>_. True) demo_store demo_heap (Ptr 3) = Some (0, h', s') \<and> heap_ok h' s' \<and>
      key_of h' = key_of demo_store \<and> elems s' = {#Ptr 1, Ptr 2, Ptr 3#}) \<or>
    min_heap_push (\<lambda>_. True) demo_store demo_heap (Ptr 3) = Some (-1, demo_store, demo_heap)"
proof -
  have "valid demo_store (Ptr 3)" "Ptr 3 \<notin># elems demo_heap" "hn demo_heap + 1 < 2 ^ 31"
    "add_mset (Ptr 3) (elems demo_heap) = {#Ptr 1, Ptr 2, Ptr 3#}"
    by (simp_all add: demo_heap_ok(2)) (simp_all add: valid_def demo_store_def demo_heap_def add_mset_commute)
  with push_keeps_heap [OF demo_heap_ok(1) this(1-3), of "\<lambda>_. True"] show ?thesis by metis
qed

text \<open>
  min_heap_erase of an element of the heap removes exactly that element, wherever it is,
  keeps the heap well formed and marks the element as being in no heap.
\<close>

theorem erase_keeps_heap:
  assumes "heap_ok h s" "e \<in># elems s"
  shows "\<exists>h' s'. min_heap_erase h s e = Some (0, h', s') \<and> heap_ok h' s' \<and> key_of h' = key_of h \<and>
           elems s' = elems s - {#e#} \<and> idx_of h' e = uint_max"
  using erase_spec [OF assms] only_idx_key by metis

theorem erase_keeps_heap_witness:
  "\<exists>h' s'. min_heap_erase demo_store demo_heap (Ptr 1) = Some (0, h', s') \<and> heap_ok h' s' \<and>
     key_of h' = key_of demo_store \<and> elems s' = {#Ptr 2#} \<and> idx_of h' (Ptr 1) = uint_max"
  using erase_keeps_heap [OF demo_heap_ok(1), of "Ptr 1"] by (simp add: demo_heap_ok(2))

subsection \<open>Calls the code does not survive\<close>

definition demo_module :: "tmod" where
  "demo_module = \<lparr>mem = \<lparr>timers = demo_store(4 \<mapsto> demo_timer uint_max 0 Once_cb (Ptr 4) Null),
     wraps = [4 \<mapsto> \<lparr>w_cb = User_cb 9, w_arg = Null, w_timeout = 0, w_next = Ptr 5, w_prev = Wild\<rparr>,
              5 \<mapsto> \<lparr>w_cb = User_cb 9, w_arg = Null, w_timeout = 0, w_next = Null, w_prev = Wild\<rparr>]\<rparr>,
     mh = Some demo_heap, tl = Some \<lparr>l_head = Ptr 4, l_len = 1\<rparr>, ml = Some \<lparr>l_head = Ptr 4, l_len = 2\<rparr>, called = []\<rparr>"

text \<open>
  C28. A one-shot call (once_call) is a use after free: when its timer is at the head of the
  active list and its callback does not touch the timer module, once_cb frees the wrapper that contains the list node, and
  timer_process_actived then unlinks that node.
\<close>

theorem once_call_use_after_free:
  assumes "tl st = Some L" "l_head L = Ptr a" "l_len L \<noteq> 0" "timers (mem st) a = Some t"
    "t_cb t = Once_cb" "t_arg t = Ptr a" "pure_cbs usr"
  shows "timer_process_actived usr ok rnd st = None"
  using assms by (rule once_head_undefined)

theorem once_call_use_after_free_witness:
  "timer_process_actived (\<lambda>_ _. Some) (\<lambda>_. True) id demo_module = None"
  by (rule once_call_use_after_free [where L = "\<lparr>l_head = Ptr 4, l_len = 1\<rparr>" and a = 4 and t = "demo_timer uint_max 0 Once_cb (Ptr 4) Null"])
    (simp_all add: demo_module_def demo_timer_def pure_cbs_def)

text \<open>
  m_list_remove can only take out the head of the list: no operation ever stores a node's
  address in a prev field, so removing any other node (once_cb does, for a wrapper that was not
  the last one created) writes through a null or uninitialised pointer.
\<close>

theorem inner_removal_undefined:
  assumes "m_list_holds h L as" "a \<in> set as" "l_head L \<noteq> Ptr a"
  shows "m_list_remove h (Some L) (Ptr a) = None"
  using assms by (rule m_list_remove_inner)

theorem inner_removal_undefined_witness:
  "m_list_remove (wraps (mem demo_module)) (ml demo_module) (Ptr 5) = None"
proof -
  have "m_list_holds (wraps (mem demo_module)) \<lparr>l_head = Ptr 4, l_len = 2\<rparr> [4, 5]"
    by (simp add: m_list_holds_def demo_module_def w_links_def)
  from inner_removal_undefined [OF this, of 5] show ?thesis by (simp add: demo_module_def)
qed

text \<open>
  timer_destory does not reset the module's pointers: a second call after one that freed
  the heap's array frees it again.
\<close>

theorem destory_twice_double_free:
  assumes "mh st = Some s" "ha s \<noteq> 0" "timer_destory st = Some (r, st1)"
  shows "timer_destory st1 = None"
  using assms by (rule destory_twice_undefined)

definition idle_module :: tmod where
  "idle_module = demo_module\<lparr>tl := Some \<lparr>l_head = Null, l_len = 0\<rparr>, ml := Some \<lparr>l_head = Null, l_len = 0\<rparr>\<rparr>"

theorem destory_twice_double_free_witness:
  "\<exists>r st1. timer_destory idle_module = Some (r, st1) \<and> timer_destory st1 = None"
proof -
  obtain r st1 where d: "timer_destory idle_module = Some (r, st1)"
    by (simp add: timer_destory_def heap_dtor_if_def tl_free_if_def ml_free_if_def min_heap_dtor_def idle_module_def
        demo_module_def demo_heap_def list_free_def m_list_free_def list_free_loop.simps m_list_free_loop.simps)
  have "mh idle_module = Some demo_heap" "ha demo_heap \<noteq> 0"
    by (simp_all add: idle_module_def demo_module_def demo_heap_def)
  from destory_twice_double_free [OF this d] d show ?thesis by blast
qed

text \<open>
  timer_get_next_timeout writes the next timeout through the pointer it was given, and
  sets the caller's pointer to null when the heap is empty: it is undefined exactly when timers
  are present and the caller's pointer was nulled by an earlier empty heap.
\<close>

theorem next_timeout_undefined_iff:
  assumes "tmod_ok st as"
  shows "timer_get_next_timeout st tv = None \<longleftrightarrow> items_of st \<noteq> {#} \<and> tv = None"
proof
  assume "timer_get_next_timeout st tv = None"
  with next_timeout_total [OF assms, of tv] show "items_of st \<noteq> {#} \<and> tv = None" by force
next
  assume r: "items_of st \<noteq> {#} \<and> tv = None"
  obtain s where s: "mh st = Some s" "heap_ok (timers (mem st)) s" using assms by (auto simp: tmod_ok_def)
  then have "hn s \<noteq> 0" using r by (auto simp: items_of_def elems_def)
  with top_spec(2) [OF s(2)] obtain a where "min_heap_top s = Some (Ptr a)" by blast
  then show "timer_get_next_timeout st tv = None" using s(1) r
    by (simp add: timer_get_next_timeout_def split: bind_split)
qed

theorem next_timeout_undefined_iff_witness:
  "timer_get_next_timeout (idle_module\<lparr>mem := \<lparr>timers = demo_store, wraps = (\<lambda>_. None)\<rparr>\<rparr>) None = None"
proof -
  have "tmod_ok (idle_module\<lparr>mem := \<lparr>timers = demo_store, wraps = (\<lambda>_. None)\<rparr>\<rparr>) []"
    using demo_heap_ok(1) by (simp add: tmod_ok_def idle_module_def demo_module_def list_holds_def)
  from next_timeout_undefined_iff [OF this, of None] show ?thesis
    by (simp add: items_of_def idle_module_def demo_module_def demo_heap_ok(2))
qed

end
