(* ===== verification/Db_Format.thy ===== *)
theory Db_Format
  imports Prelude
begin

section \<open>mydb: the argument packers\<close>

text \<open>
  \<open>mydb/data_format.h\<close> and \<open>mydb/data_format.c\<close>: the packers that turn Lua values
  into bytes and back.  A call returns (\<open>Ret\<close>), raises a Lua error (\<open>Raise\<close>), or is
  undefined (\<open>Fault\<close>: an access outside the buffer, a null dereference, a failed
  assertion).  The virtual methods \<open>pack\<close> and \<open>unpack\<close> are functions on the datatype of the
  subclasses.  The Lua library is a parameter: the number type, its conversions, and the
  length operator on tables.
\<close>

subsection \<open>Bytes and buffers\<close>

text \<open>\<open>memcpy\<close> into and out of a buffer.\<close>

definition put :: "byte list \<Rightarrow> nat \<Rightarrow> byte list \<Rightarrow> byte list option" where
  "put buf off bs = (if off + length bs \<le> length buf
     then Some (take off buf @ bs @ drop (off + length bs) buf) else None)"

definition get :: "byte list \<Rightarrow> nat \<Rightarrow> nat \<Rightarrow> byte list option" where
  "get buf off n = (if off + n \<le> length buf then Some (take n (drop off buf)) else None)"

text \<open>The bytes of an \<open>int\<close> in memory, least significant first.\<close>

fun le_bytes :: "nat \<Rightarrow> 32 word \<Rightarrow> byte list" where
  "le_bytes 0 w = []"
| "le_bytes (Suc n) w = ucast w # le_bytes n (drop_bit 8 w)"

fun le_word :: "byte list \<Rightarrow> 32 word" where
  "le_word [] = 0"
| "le_word (b # bs) = ucast b OR push_bit 8 (le_word bs)"

definition byte_of_char :: "char \<Rightarrow> byte" where
  "byte_of_char c = word_of_nat (of_char c)"

definition char_of_byte :: "byte \<Rightarrow> char" where
  "char_of_byte b = char_of (unat b)"

text \<open>A C string ends at the first null byte.\<close>

definition cstr :: "string \<Rightarrow> string" where
  "cstr s = takeWhile (\<lambda>c. c \<noteq> CHR 0x00) s"

subsection \<open>Lua values\<close>

datatype 'n lkey = Key_num 'n | Key_str string

datatype 'n lua_val =
    Lua_nil
  | Lua_num 'n
  | Lua_str string
  | Lua_table "'n lkey \<Rightarrow> 'n lua_val option"
  | Lua_other

record 'n lua_env =
  number2int :: "'n \<Rightarrow> 32 word"
  from_int :: "int \<Rightarrow> 'n"
  num_str :: "'n \<Rightarrow> string"
  objlen :: "'n lua_val \<Rightarrow> nat"

fun rawget :: "'n lua_val \<Rightarrow> 'n lkey \<Rightarrow> 'n lua_val option" where
  "rawget (Lua_table f) k = Some (case f k of None \<Rightarrow> Lua_nil | Some v \<Rightarrow> v)"
| "rawget _ k = None"

fun is_table :: "'n lua_val \<Rightarrow> bool" where
  "is_table (Lua_table f) = True"
| "is_table _ = False"

subsection \<open>The packers\<close>

type_synonym 'n packer = "'n lua_val \<Rightarrow> byte list \<Rightarrow> nat \<Rightarrow> int \<Rightarrow> (int \<times> byte list) lres"

type_synonym 'n unpacker = "byte list \<Rightarrow> nat \<Rightarrow> int \<Rightarrow> (int \<times> 'n lua_val option) lres"

datatype ('n, 'a) tb_op = Tb_begin "'n lkey" | Push_value "'n lkey" "'a option" | Tb_end

datatype 'n fcall_arg =
    Number_arg
  | Byte_arg
  | Word_arg
  | Dword_arg
  | String_arg
  | Table_arg string string "('n, 'n fcall_arg) tb_op list"
  | Array_arg string "'n fcall_arg" nat

text \<open>\<open>number_type\<close>: the sign in bit 0, the number of bytes in the other seven.\<close>

definition number_hdr :: "bool \<Rightarrow> nat \<Rightarrow> byte" where
  "number_hdr neg k = (if neg then 1 else 0) OR push_bit 1 (word_of_nat k)"

definition pack_number :: "'n lua_env \<Rightarrow> 'n packer" where
  "pack_number E v buf off len = (case v of
     Lua_num n \<Rightarrow>
       (let num = number2int E n;
            neg = (sint num < 0);
            data = (if neg then - num else num);
            k = (if data \<le> 0xff then Some 1 else if data \<le> 0xffff then Some 2
                 else if data \<le> 0xffffff then Some 3 else if data \<le> 0xffffffff then Some 4 else None)
        in case k of
          None \<Rightarrow> Raise
        | Some k \<Rightarrow>
            if 1 + int k > len then Ret (0, buf)
            else fetch (put buf off (number_hdr neg k # le_bytes k data)) (\<lambda>b. Ret (1 + int k, b)))
   | _ \<Rightarrow> Raise)"

definition unpack_number :: "'n lua_env \<Rightarrow> 'n unpacker" where
  "unpack_number E buf off len =
     (if 1 > len then Ret (0, None) else
      fetch (get buf off 1) (\<lambda>h.
      let k = unat (drop_bit 1 (hd h)) in
      if k \<le> 0 \<or> k \<ge> 5 then Ret (0, None)
      else if 1 + int k > len then Ret (0, None)
      else fetch (get buf (off + 1) k) (\<lambda>bs.
        let data = le_word bs; data' = (if bit (hd h) 0 then - data else data) in
        Ret (1 + int k, Some (Lua_num (from_int E (sint data')))))))"

definition pack_byte :: "'n lua_env \<Rightarrow> 'n packer" where
  "pack_byte E v buf off len = (case v of
     Lua_num n \<Rightarrow>
       if 1 > len then Ret (0, buf)
       else fetch (put buf off (le_bytes 1 (number2int E n))) (\<lambda>b. Ret (1, b))
   | _ \<Rightarrow> Raise)"

definition unpack_byte :: "'n lua_env \<Rightarrow> 'n unpacker" where
  "unpack_byte E buf off len =
     (if 1 > len then Ret (0, None)
      else fetch (get buf off 1) (\<lambda>bs. Ret (1, Some (Lua_num (from_int E (uint (hd bs)))))))"

definition pack_word :: "'n lua_env \<Rightarrow> 'n packer" where
  "pack_word E v buf off len = (case v of
     Lua_num n \<Rightarrow>
       if 2 > len then Ret (0, buf)
       else fetch (put buf off (le_bytes 2 (number2int E n))) (\<lambda>b. Ret (2, b))
   | _ \<Rightarrow> Raise)"

text \<open>The two bytes are read as a \<open>short\<close>, which is signed.\<close>

definition unpack_word :: "'n lua_env \<Rightarrow> 'n unpacker" where
  "unpack_word E buf off len =
     (if 2 > len then Ret (0, None)
      else fetch (get buf off 2) (\<lambda>bs.
        Ret (2, Some (Lua_num (from_int E (sint (ucast (le_word bs) :: 16 word)))))))"

definition pack_dword :: "'n lua_env \<Rightarrow> 'n packer" where
  "pack_dword E v buf off len = (case v of
     Lua_num n \<Rightarrow>
       if 4 > len then Ret (0, buf)
       else fetch (put buf off (le_bytes 4 (number2int E n))) (\<lambda>b. Ret (4, b))
   | _ \<Rightarrow> Raise)"

definition unpack_dword :: "'n lua_env \<Rightarrow> 'n unpacker" where
  "unpack_dword E buf off len =
     (if 4 > len then Ret (0, None)
      else fetch (get buf off 4) (\<lambda>bs. Ret (4, Some (Lua_num (from_int E (sint (le_word bs)))))))"

definition check_lstring :: "'n lua_env \<Rightarrow> 'n lua_val \<Rightarrow> string option" where
  "check_lstring E v = (case v of
     Lua_str s \<Rightarrow> Some s | Lua_num n \<Rightarrow> Some (num_str E n) | _ \<Rightarrow> None)"

definition int_of_size :: "nat \<Rightarrow> int" where
  "int_of_size n = sint (word_of_nat n :: 32 word)"

definition pack_string :: "'n lua_env \<Rightarrow> 'n packer" where
  "pack_string E v buf off len = (case check_lstring E v of
     None \<Rightarrow> Raise
   | Some s \<Rightarrow>
       (let str_id = int_of_size (length s + 1); data = map byte_of_char s in
        if str_id \<le> 0xff then
          (if int_of_size (length s + 1) > len then Ret (0, buf)
           else fetch (put buf off (le_bytes 1 (word_of_int str_id) @ data))
             (\<lambda>b. Ret (int_of_size (length s + 1), b)))
        else if str_id \<le> 0xffff then
          (if int_of_size (length s + 3) > len then Ret (0, buf)
           else fetch (put buf off (0 # le_bytes 2 (word_of_int str_id) @ data))
             (\<lambda>b. Ret (int_of_size (length s + 3), b)))
        else Raise))"

definition unpack_string :: "'n lua_env \<Rightarrow> 'n unpacker" where
  "unpack_string E buf off len =
     (if 1 > len then Ret (0, None) else
      fetch (get buf off 1) (\<lambda>h.
      let str_id = uint (hd h) in
      if str_id > 0 then
        (let str_len = str_id - 1 in
         if str_len = 0 then Ret (1, Some (Lua_str ''''))
         else if 1 + str_len > len then Ret (0, None)
         else fetch (get buf (off + 1) (nat str_len)) (\<lambda>bs.
           Ret (1 + str_len, Some (Lua_str (map char_of_byte bs)))))
      else if 3 > len then Ret (0, None)
      else fetch (get buf (off + 1) 2) (\<lambda>ws.
        let str_len = sint (le_word ws) - 1 in
        if str_len < 0 then Ret (0, None)
        else if 3 + str_len > len then Ret (0, None)
        else fetch (get buf (off + 3) (nat str_len)) (\<lambda>bs.
          Ret (3 + str_len, Some (Lua_str (map char_of_byte bs)))))))"

subsection \<open>Tables: a small stack machine\<close>

text \<open>
  The format of a table is compiled to opcodes.  The Lua stack above the caller's values is
  the list of the tables entered; popping below it does not happen in a balanced program and
  is undefined here.
\<close>

fun table_pack_loop ::
  "('n, 'n packer) tb_op list \<Rightarrow> 'n lua_val list \<Rightarrow> byte list \<Rightarrow> nat \<Rightarrow> int \<Rightarrow> int \<Rightarrow> (int \<times> byte list) lres" where
  "table_pack_loop [] st buf off len used = Ret (used, buf)"
| "table_pack_loop (Tb_begin k # ops) st buf off len used = (case st of
     [] \<Rightarrow> Fault
   | t # _ \<Rightarrow> fetch (rawget t k) (\<lambda>v.
       if \<not> is_table v then Raise else table_pack_loop ops (v # st) buf off len used))"
| "table_pack_loop (Push_value k p # ops) st buf off len used = (case st of
     [] \<Rightarrow> Fault
   | t # _ \<Rightarrow> fetch (rawget t k) (\<lambda>v. case p of
       None \<Rightarrow> Raise
     | Some pk \<Rightarrow> lbind (pk v buf (off + nat used) (len - used)) (\<lambda>r.
         if fst r = 0 then Ret (0, snd r)
         else table_pack_loop ops st (snd r) off len (used + fst r))))"
| "table_pack_loop (Tb_end # ops) st buf off len used = (case st of
     [] \<Rightarrow> Fault
   | _ # st' \<Rightarrow> table_pack_loop ops st' buf off len used)"

definition table_pack :: "('n, 'n packer) tb_op list \<Rightarrow> 'n packer" where
  "table_pack ops v buf off len =
     (if is_table v then table_pack_loop ops [v] buf off len 0 else Raise)"

fun table_unpack_loop ::
  "('n, 'n unpacker) tb_op list \<Rightarrow> ('n lkey \<Rightarrow> 'n lua_val option) \<Rightarrow>
   ('n lkey \<times> ('n lkey \<Rightarrow> 'n lua_val option)) list \<Rightarrow>
   byte list \<Rightarrow> nat \<Rightarrow> int \<Rightarrow> int \<Rightarrow> (int \<times> 'n lua_val option) lres" where
  "table_unpack_loop [] cur st buf off len readed =
     (if st = [] then Ret (readed, Some (Lua_table cur)) else Fault)"
| "table_unpack_loop (Tb_begin k # ops) cur st buf off len readed =
     table_unpack_loop ops (\<lambda>_. None) ((k, cur) # st) buf off len readed"
| "table_unpack_loop (Push_value k p # ops) cur st buf off len readed = (case p of
     None \<Rightarrow> Fault
   | Some up \<Rightarrow> lbind (up buf (off + nat readed) (len - readed)) (\<lambda>r.
       if fst r = 0 then Ret (0, None)
       else fetch (snd r) (\<lambda>v.
         table_unpack_loop ops (cur(k \<mapsto> v)) st buf off len (readed + fst r))))"
| "table_unpack_loop (Tb_end # ops) cur st buf off len readed = (case st of
     [] \<Rightarrow> Fault
   | (k, parent) # st' \<Rightarrow>
       table_unpack_loop ops (parent(k \<mapsto> Lua_table cur)) st' buf off len readed)"

definition table_unpack :: "('n, 'n unpacker) tb_op list \<Rightarrow> 'n unpacker" where
  "table_unpack ops buf off len =
     (if ops = [] then Fault else table_unpack_loop (butlast ops) (\<lambda>_. None) [] buf off len 0)"

subsection \<open>Arrays\<close>

definition elem_at :: "'n lua_env \<Rightarrow> 'n lua_val \<Rightarrow> int \<Rightarrow> 'n lua_val option" where
  "elem_at E v i = rawget v (Key_num (from_int E i))"

fun array_pack_loop ::
  "'n lua_env \<Rightarrow> 'n packer \<Rightarrow> 'n lua_val \<Rightarrow> int \<Rightarrow> nat \<Rightarrow> byte list \<Rightarrow> nat \<Rightarrow> int \<Rightarrow> int \<Rightarrow> (int \<times> byte list) lres" where
  "array_pack_loop E pk v i 0 buf off len used = Ret (used, buf)"
| "array_pack_loop E pk v i (Suc n) buf off len used =
     fetch (elem_at E v i) (\<lambda>x.
     lbind (pk x buf (off + nat used) (len - used)) (\<lambda>r.
     if fst r = 0 then Ret (0, snd r)
     else array_pack_loop E pk v (i + 1) n (snd r) off len (used + fst r)))"

definition array_pack :: "'n lua_env \<Rightarrow> 'n packer \<Rightarrow> nat \<Rightarrow> 'n packer" where
  "array_pack E pk sz v buf off len =
     (if is_table v then
        (if sz = 0 then
           (let n = int_of_size (objlen E v) in
            if n > 255 then Raise
            else if 1 > len then Ret (0, buf)
            else fetch (put buf off [word_of_int n]) (\<lambda>b. array_pack_loop E pk v 1 (nat n) b off len 1))
         else array_pack_loop E pk v 1 sz buf off len 0)
      else Raise)"

fun array_unpack_loop ::
  "'n lua_env \<Rightarrow> 'n unpacker \<Rightarrow> ('n lkey \<Rightarrow> 'n lua_val option) \<Rightarrow> int \<Rightarrow> nat \<Rightarrow> byte list \<Rightarrow> nat \<Rightarrow> int \<Rightarrow> int \<Rightarrow>
   (int \<times> 'n lua_val option) lres" where
  "array_unpack_loop E up t i 0 buf off len readed = Ret (readed, Some (Lua_table t))"
| "array_unpack_loop E up t i (Suc n) buf off len readed =
     lbind (up buf (off + nat readed) (len - readed)) (\<lambda>r.
     if fst r = 0 then Ret (0, None)
     else fetch (snd r) (\<lambda>v.
       array_unpack_loop E up (t(Key_num (from_int E (i + 1)) \<mapsto> v)) (i + 1) n buf off len (readed + fst r)))"

definition array_unpack :: "'n lua_env \<Rightarrow> 'n unpacker \<Rightarrow> nat \<Rightarrow> 'n unpacker" where
  "array_unpack E up sz buf off len =
     (if sz = 0 then
        (if 1 > len then Ret (0, None)
         else fetch (get buf off 1) (\<lambda>h.
           array_unpack_loop E up (\<lambda>_. None) 0 (unat (hd h)) buf off len 1))
      else array_unpack_loop E up (\<lambda>_. None) 0 sz buf off len 0)"

subsection \<open>The virtual methods\<close>

primrec pack :: "'n lua_env \<Rightarrow> 'n fcall_arg \<Rightarrow> 'n packer" where
  "pack E Number_arg = pack_number E"
| "pack E Byte_arg = pack_byte E"
| "pack E Word_arg = pack_word E"
| "pack E Dword_arg = pack_dword E"
| "pack E String_arg = pack_string E"
| "pack E (Table_arg ty hs ops) = table_pack (map (map_tb_op id (pack E)) ops)"
| "pack E (Array_arg hs a sz) = array_pack E (pack E a) sz"

primrec unpack :: "'n lua_env \<Rightarrow> 'n fcall_arg \<Rightarrow> 'n unpacker" where
  "unpack E Number_arg = unpack_number E"
| "unpack E Byte_arg = unpack_byte E"
| "unpack E Word_arg = unpack_word E"
| "unpack E Dword_arg = unpack_dword E"
| "unpack E String_arg = unpack_string E"
| "unpack E (Table_arg ty hs ops) = table_unpack (map (map_tb_op id (unpack E)) ops)"
| "unpack E (Array_arg hs a sz) = array_unpack E (unpack E a) sz"

primrec get_type :: "'n fcall_arg \<Rightarrow> string" where
  "get_type Number_arg = ''number''"
| "get_type Byte_arg = ''byte''"
| "get_type Word_arg = ''word''"
| "get_type Dword_arg = ''dword''"
| "get_type String_arg = ''string''"
| "get_type (Table_arg ty hs ops) = ty"
| "get_type (Array_arg hs a sz) = ''array''"

primrec get_hashstr :: "'n fcall_arg \<Rightarrow> string" where
  "get_hashstr Number_arg = ''number''"
| "get_hashstr Byte_arg = ''byte''"
| "get_hashstr Word_arg = ''word''"
| "get_hashstr Dword_arg = ''dword''"
| "get_hashstr String_arg = ''string''"
| "get_hashstr (Table_arg ty hs ops) = hs"
| "get_hashstr (Array_arg hs a sz) = hs"

subsection \<open>fcall\_arg\_manager\<close>

type_synonym 'n arg_reg = "'n fcall_arg list"

definition reg_init :: "'n arg_reg \<Rightarrow> 'n arg_reg" where
  "reg_init s = s @ [Number_arg, Byte_arg, Word_arg, Dword_arg, String_arg]"

definition reg_destruct :: "'n arg_reg \<Rightarrow> 'n arg_reg" where
  "reg_destruct s = []"

definition add_arg :: "'n arg_reg \<Rightarrow> 'n fcall_arg \<Rightarrow> 'n arg_reg" where
  "add_arg s a = s @ [a]"

definition get_arg_id :: "'n arg_reg \<Rightarrow> int \<Rightarrow> 'n fcall_arg option" where
  "get_arg_id s i = (if 0 \<le> i \<and> i < int_of_size (length s) then Some (s ! nat i) else None)"

fun get_arg :: "'n arg_reg \<Rightarrow> string \<Rightarrow> 'n fcall_arg option" where
  "get_arg [] ty = None"
| "get_arg (a # s) ty = (if get_type a = ty then Some a else get_arg s ty)"

text \<open>The constructor of an array reads the hash string of its element before it asserts it.\<close>

definition new_array_arg :: "'n arg_reg \<Rightarrow> string \<Rightarrow> nat \<Rightarrow> 'n fcall_arg lres" where
  "new_array_arg s ty sz =
     fetch (get_arg s ty) (\<lambda>a. Ret (Array_arg (''array'' @ ty @ get_hashstr a) a sz))"

subsection \<open>Reading a table format\<close>

text \<open>
  A format is a Lua table in the order in which \<open>lua_next\<close> enumerates it; keys and values
  are classified as \<open>lua_isnumber\<close>, \<open>lua_isstring\<close> and \<open>lua_istable\<close> do.
\<close>

datatype 'n fmt_key = Fkey_number "'n lkey" | Fkey_string string | Fkey_other

datatype 'n fmt = Fmt_number | Fmt_string string | Fmt_table "('n fmt_key \<times> 'n fmt) list" | Fmt_other

record 'n tfmt =
  tf_hash :: string
  tf_ops :: "('n, 'n fcall_arg) tb_op list"
  tf_deep :: nat

definition max_table_deep :: nat where
  "max_table_deep = 10"

definition travel_key :: "'n fmt_key \<Rightarrow> 'n tfmt \<Rightarrow> ('n lkey \<times> 'n tfmt) lres" where
  "travel_key k st = (case k of
     Fkey_number kr \<Rightarrow> Ret (kr, st\<lparr>tf_hash := tf_hash st @ ''number''\<rparr>)
   | Fkey_string s \<Rightarrow> Ret (Key_str s, st\<lparr>tf_hash := tf_hash st @ cstr s\<rparr>)
   | Fkey_other \<Rightarrow> Raise)"

definition travel_leaf :: "'n arg_reg \<Rightarrow> 'n lkey \<Rightarrow> string \<Rightarrow> 'n tfmt \<Rightarrow> 'n tfmt lres" where
  "travel_leaf s kr ty st = (case get_arg s ty of
     None \<Rightarrow> Raise
   | Some a \<Rightarrow> Ret (st\<lparr>tf_hash := tf_hash st @ ty, tf_ops := tf_ops st @ [Push_value kr (Some a)]\<rparr>))"

fun travel_table :: "'n arg_reg \<Rightarrow> ('n fmt_key \<times> 'n fmt) list \<Rightarrow> 'n tfmt \<Rightarrow> 'n tfmt lres"
  and travel_entries :: "'n arg_reg \<Rightarrow> ('n fmt_key \<times> 'n fmt) list \<Rightarrow> 'n tfmt \<Rightarrow> 'n tfmt lres" where
  "travel_table s es st =
     (let st1 = st\<lparr>tf_deep := tf_deep st + 1\<rparr> in
      if tf_deep st1 > max_table_deep then Raise
      else lbind (travel_entries s es st1) (\<lambda>st2. Ret (st2\<lparr>tf_ops := tf_ops st2 @ [Tb_end]\<rparr>)))"
| "travel_entries s [] st = Ret st"
| "travel_entries s ((k, v) # es) st =
     lbind (travel_key k st) (\<lambda>r.
     lbind (case v of
        Fmt_number \<Rightarrow> travel_leaf s (fst r) ''number'' (snd r)
      | Fmt_string ty \<Rightarrow> travel_leaf s (fst r) (cstr ty) (snd r)
      | Fmt_table fs \<Rightarrow> travel_table s fs ((snd r)\<lparr>tf_ops := tf_ops (snd r) @ [Tb_begin (fst r)]\<rparr>)
      | Fmt_other \<Rightarrow> Raise) (travel_entries s es))"

text \<open>
  \<open>read_file\<close> on the contents of a file, and \<open>_read_format\<close> with the evaluation of
  the chunk (\<open>luaL_loadbuffer\<close>, \<open>lua_pcall\<close>) as a parameter: its two results, or
  \<open>None\<close> when it does not load or run.
\<close>

definition read_file :: "byte list option \<Rightarrow> nat \<Rightarrow> byte list" where
  "read_file file buf_len = (case file of
     None \<Rightarrow> [] | Some bs \<Rightarrow> if length bs > buf_len then [] else bs)"

definition read_format ::
  "(byte list \<Rightarrow> (string \<times> 'n fmt) option) \<Rightarrow> 'n arg_reg \<Rightarrow> byte list option \<Rightarrow> 'n fcall_arg option lres" where
  "read_format run s file =
     (let bs = read_file file (100 * 1024) in
      if bs = [] then Raise
      else case run bs of
        None \<Rightarrow> Ret None
      | Some (name, f) \<Rightarrow> (case f of
          Fmt_table es \<Rightarrow>
            lbind (travel_table s es \<lparr>tf_hash = cstr name, tf_ops = [], tf_deep = 0\<rparr>) (\<lambda>st.
              Ret (Some (Table_arg (cstr name) (tf_hash st) (tf_ops st))))
        | _ \<Rightarrow> Raise))"

definition add_table_args ::
  "(byte list \<Rightarrow> (string \<times> 'n fmt) option) \<Rightarrow> 'n arg_reg \<Rightarrow> byte list option \<Rightarrow> 'n arg_reg lres" where
  "add_table_args run s file =
     lbind (read_format run s file) (\<lambda>r. case r of None \<Rightarrow> Raise | Some a \<Rightarrow> Ret (s @ [a]))"

end
