(* ===== verification/Db_Codec.thy ===== *)
theory Db_Codec
  imports Db_Format
begin

section \<open>mydb: what the packers promise\<close>

subsection \<open>Buffers\<close>

lemma put_Some: "put buf off bs = Some b \<Longrightarrow> off + length bs \<le> length buf \<and>
    b = take off buf @ bs @ drop (off + length bs) buf"
  by (auto simp: put_def split: if_splits)

lemma put_length: "put buf off bs = Some b \<Longrightarrow> length b = length buf"
  by (auto dest: put_Some)

lemma put_fits: "off + length bs \<le> length buf \<Longrightarrow> \<exists>b. put buf off bs = Some b"
  by (simp add: put_def)

lemma put_nil: "off \<le> length buf \<Longrightarrow> put buf off [] = Some buf"
  by (simp add: put_def)

lemma put_append: "put buf off (b1 @ b2) = Some b \<Longrightarrow>
  \<exists>c. put buf off b1 = Some c \<and> put c (off + length b1) b2 = Some b"
proof -
  assume "put buf off (b1 @ b2) = Some b"
  then have l: "off + length b1 + length b2 \<le> length buf"
    and b: "b = take off buf @ (b1 @ b2) @ drop (off + length b1 + length b2) buf"
    by (auto dest!: put_Some simp: add.assoc)
  let ?c = "take off buf @ b1 @ drop (off + length b1) buf"
  have "put buf off b1 = Some ?c" using l by (simp add: put_def)
  moreover have "put ?c (off + length b1) b2 = Some b" using l by (auto simp: put_def b min_def ac_simps simp flip: length_greater_0_conv)
  ultimately show ?thesis by blast
qed

lemma put_get: "put buf off bs = Some b \<Longrightarrow> get b off (length bs) = Some bs"
  by (auto simp: get_def dest!: put_Some)

lemma get_append: "get buf off (length (b1 @ b2)) = Some (b1 @ b2) \<Longrightarrow>
  get buf off (length b1) = Some b1 \<and> get buf (off + length b1) (length b2) = Some b2"
proof -
  assume "get buf off (length (b1 @ b2)) = Some (b1 @ b2)"
  then have l: "off + (length b1 + length b2) \<le> length buf" and t: "take (length b1 + length b2) (drop off buf) = b1 @ b2"
    by (auto simp: get_def split: if_splits)
  have "b1 = take (length b1) (take (length b1 + length b2) (drop off buf))" unfolding t by simp
  moreover have "b2 = drop (length b1) (take (length b1 + length b2) (drop off buf))" unfolding t by simp
  ultimately show ?thesis using l by (simp add: get_def drop_take min_def add.commute)
qed

lemma get_cons: "get buf off (Suc (length bs)) = Some (x # bs) \<Longrightarrow>
  get buf off 1 = Some [x] \<and> get buf (off + 1) (length bs) = Some bs"
  using get_append [of buf off "[x]" bs] by simp

lemma length_le_bytes [simp]: "length (le_bytes n w) = n"
  by (induction n arbitrary: w) auto

lemma le_word_bytes: "le_word (le_bytes n w) = take_bit (8 * n) w"
proof (induction n arbitrary: w)
  case 0
  then show ?case by simp
next
  case (Suc n)
  have "ucast (ucast w :: byte) OR push_bit 8 (take_bit (8 * n) (drop_bit 8 w)) = take_bit (8 * Suc n) w"
  proof (rule bit_eqI)
    fix i
    assume "possible_bit TYPE(32 word) i"
    then have "i < 32" by (simp add: possible_bit_word)
    then show "bit (ucast (ucast w :: byte) OR push_bit 8 (take_bit (8 * n) (drop_bit 8 w))) i =
        bit (take_bit (8 * Suc n) w) i"
      by (cases "i < 8") (auto simp: bit_simps)
  qed
  with Suc show ?case by simp
qed

lemma take_bit_small: "uint w < 2 ^ m \<Longrightarrow> take_bit m w = (w :: 'a::len word)"
  by (simp add: word_uint_eq_iff unsigned_take_bit_eq take_bit_int_eq_self)

lemma char_byte [simp]: "char_of_byte (byte_of_char c) = c"
proof -
  have "of_char c mod (256::nat) < 256" by simp
  then have "of_char c < (256::nat)" by simp
  then show ?thesis by (simp add: char_of_byte_def byte_of_char_def unsigned_of_nat take_bit_nat_eq_self)
qed

lemma chars_bytes [simp]: "map char_of_byte (map byte_of_char s) = s"
  by (simp add: o_def)

subsection \<open>The contract of a packer\<close>

text \<open>
  \<open>R v bs\<close>: the value \<open>v\<close> has the encoding \<open>bs\<close>.  Packing a value that has an encoding
  writes it when it fits, and unpacking it reads the value back.
\<close>

locale codec =
  fixes pk :: "'n packer" and upk :: "'n unpacker" and R :: "'n lua_val \<Rightarrow> byte list \<Rightarrow> bool"
  assumes pack_ok: "R v bs \<Longrightarrow> int (length bs) \<le> len \<Longrightarrow> put buf off bs = Some b \<Longrightarrow>
      pk v buf off len = Ret (int (length bs), b)"
    and unpack_ok: "R v bs \<Longrightarrow> int (length bs) \<le> len \<Longrightarrow> get buf off (length bs) = Some bs \<Longrightarrow>
      upk buf off len = Ret (int (length bs), Some v)"
    and nonempty: "R v bs \<Longrightarrow> bs \<noteq> []"
begin

lemma array_pack_ok:
  assumes "list_all2 R xs bss" "\<And>j. j < length xs \<Longrightarrow> elem_at E v (i + int j) = Some (xs ! j)"
    "0 \<le> used" "used + int (length (concat bss)) \<le> len" "put buf (off + nat used) (concat bss) = Some b"
  shows "array_pack_loop E pk v i (length xs) buf off len used = Ret (used + int (length (concat bss)), b)"
  using assms
proof (induction xs bss arbitrary: i used buf rule: list_all2_induct)
  case Nil
  then show ?case by (auto dest!: put_Some)
next
  case (Cons x xs bs bss)
  obtain c where c: "put buf (off + nat used) bs = Some c" "put c (off + nat used + length bs) (concat bss) = Some b"
    using put_append [of buf "off + nat used" bs "concat bss" b] Cons.prems by auto
  have p: "pk x buf (off + nat used) (len - used) = Ret (int (length bs), c)"
    using Cons.prems c(1) by (intro pack_ok Cons.hyps) simp_all
  have ne: "bs \<noteq> []" using Cons.hyps(1) nonempty by blast
  have "array_pack_loop E pk v (i + 1) (length xs) c off len (used + int (length bs)) =
      Ret (used + int (length bs) + int (length (concat bss)), b)"
  proof (rule Cons.IH)
    show "elem_at E v (i + 1 + int j) = Some (xs ! j)" if "j < length xs" for j
      using Cons.prems(1) [of "Suc j"] that by (simp add: ac_simps)
    show "put c (off + nat (used + int (length bs))) (concat bss) = Some b"
      using c(2) Cons.prems(2) by (simp add: nat_add_distrib add.assoc)
  qed (use Cons.prems in simp_all)
  then show ?case
    using p ne Cons.prems(1) [of 0] by (simp add: fetch_def)
qed

end

fun array_fill :: "'n lua_env \<Rightarrow> ('n lkey \<Rightarrow> 'n lua_val option) \<Rightarrow> int \<Rightarrow> 'n lua_val list \<Rightarrow> ('n lkey \<Rightarrow> 'n lua_val option)" where
  "array_fill E t i [] = t"
| "array_fill E t i (x # xs) = array_fill E (t(Key_num (from_int E (i + 1)) \<mapsto> x)) (i + 1) xs"

subsection \<open>The Lua library\<close>

text \<open>
  What the packers rely on: an integer in the range of \<open>int\<close> survives the conversions, and
  the length operator counts a sequence.
\<close>

definition in_int :: "int \<Rightarrow> bool" where
  "in_int i \<longleftrightarrow> - (2 ^ 31) \<le> i \<and> i < 2 ^ 31"

definition lua_array :: "'n lua_env \<Rightarrow> 'n lua_val list \<Rightarrow> 'n lua_val" where
  "lua_array E xs = Lua_table (array_fill E (\<lambda>_. None) 0 xs)"

definition env_ok :: "'n lua_env \<Rightarrow> bool" where
  "env_ok E \<longleftrightarrow> (\<forall>i. in_int i \<longrightarrow> number2int E (from_int E i) = word_of_int i) \<and>
     (\<forall>xs. length xs \<le> 255 \<longrightarrow> Lua_nil \<notin> set xs \<longrightarrow> objlen E (lua_array E xs) = length xs)"

lemma sint_word_of_int: "in_int i \<Longrightarrow> sint (word_of_int i :: 32 word) = i"
  by (simp add: in_int_def signed_of_int signed_take_bit_int_eq_self)

lemma from_int_inj:
  assumes "env_ok E" "in_int i" "in_int j" "from_int E i = from_int E j"
  shows "i = j"
proof -
  have "(word_of_int i :: 32 word) = word_of_int j" using assms by (metis env_ok_def)
  then show ?thesis using sint_word_of_int assms(2,3) by metis
qed

lemma array_fill_other:
  assumes "\<And>j. j < length xs \<Longrightarrow> k \<noteq> Key_num (from_int E (i + 1 + int j))"
  shows "array_fill E t i xs k = t k"
  using assms
proof (induction xs arbitrary: t i)
  case Nil
  then show ?case by simp
next
  case (Cons x xs)
  have "k \<noteq> Key_num (from_int E (i + 1 + 1 + int j))" if "j < length xs" for j
    using Cons.prems [of "Suc j"] that by (simp add: ac_simps)
  moreover have "k \<noteq> Key_num (from_int E (i + 1))" using Cons.prems [of 0] by simp
  ultimately show ?case using Cons.IH [of "i + 1"] by simp
qed

lemma array_fill_at:
  assumes "env_ok E" "0 \<le> i" "i + int (length xs) < 2 ^ 31" "j < length xs"
  shows "array_fill E t i xs (Key_num (from_int E (i + 1 + int j))) = Some (xs ! j)"
  using assms(2-)
proof (induction xs arbitrary: t i j)
  case Nil
  then show ?case by simp
next
  case (Cons x xs)
  show ?case
  proof (cases j)
    case 0
    have "Key_num (from_int E (i + 1)) \<noteq> Key_num (from_int E (i + 1 + 1 + int l))" if "l < length xs" for l
      using from_int_inj [OF assms(1), of "i + 1" "i + 1 + 1 + int l"] that Cons.prems
      by (auto simp: in_int_def)
    then show ?thesis
      using array_fill_other [of xs "Key_num (from_int E (i + 1))" E "i + 1"] 0 by simp
  next
    case (Suc l)
    then show ?thesis using Cons.IH [of "i + 1" l] Cons.prems by (simp add: ac_simps)
  qed
qed

subsection \<open>Arrays\<close>

definition array_rel ::
  "'n lua_env \<Rightarrow> ('n lua_val \<Rightarrow> byte list \<Rightarrow> bool) \<Rightarrow> nat \<Rightarrow> 'n lua_val \<Rightarrow> byte list \<Rightarrow> bool" where
  "array_rel E R sz v bs \<longleftrightarrow> env_ok E \<and> (\<exists>xs bss. v = lua_array E xs \<and> list_all2 R xs bss \<and> length xs \<le> 255 \<and> Lua_nil \<notin> set xs \<and>
     (if sz = 0 then bs = word_of_nat (length xs) # concat bss else length xs = sz \<and> bs = concat bss))"

lemma int_of_size_small: "n < 2 ^ 31 \<Longrightarrow> int_of_size n = int n"
  using sint_word_of_int [of "int n"] by (simp add: int_of_size_def in_int_def)

lemma lua_array_at:
  assumes "env_ok E" "length xs \<le> 255" "j < length xs"
  shows "elem_at E (lua_array E xs) (1 + int j) = Some (xs ! j)"
  using array_fill_at [of E 0 xs j "\<lambda>_. None"] assms by (simp add: elem_at_def lua_array_def)

context codec
begin

lemma array_unpack_ok:
  assumes "list_all2 R xs bss" "0 \<le> r" "r + int (length (concat bss)) \<le> len"
    "get buf (off + nat r) (length (concat bss)) = Some (concat bss)"
  shows "array_unpack_loop E upk t i (length xs) buf off len r =
    Ret (r + int (length (concat bss)), Some (Lua_table (array_fill E t i xs)))"
  using assms
proof (induction xs bss arbitrary: t i r rule: list_all2_induct)
  case Nil
  then show ?case by simp
next
  case (Cons x xs bs bss)
  have g: "get buf (off + nat r) (length bs) = Some bs"
    "get buf (off + nat r + length bs) (length (concat bss)) = Some (concat bss)"
    using get_append [of buf "off + nat r" bs "concat bss"] Cons.prems by auto
  have u: "upk buf (off + nat r) (len - r) = Ret (int (length bs), Some x)"
    using Cons.prems g(1) by (intro unpack_ok Cons.hyps) simp_all
  have ne: "bs \<noteq> []" using Cons.hyps(1) nonempty by blast
  have "array_unpack_loop E upk (t(Key_num (from_int E (i + 1)) \<mapsto> x)) (i + 1) (length xs) buf off len (r + int (length bs)) =
      Ret (r + int (length bs) + int (length (concat bss)),
        Some (Lua_table (array_fill E (t(Key_num (from_int E (i + 1)) \<mapsto> x)) (i + 1) xs)))"
    using Cons.prems g(2) by (intro Cons.IH) (simp_all add: nat_add_distrib add.assoc)
  then show ?case using u ne by (simp add: fetch_def)
qed

lemma concat_nonempty: "list_all2 R xs bss \<Longrightarrow> xs \<noteq> [] \<Longrightarrow> concat bss \<noteq> []"
  using nonempty by (cases xs; cases bss) auto

lemma array_codec: "codec (array_pack E pk sz) (array_unpack E upk sz) (array_rel E R sz)"
proof
  fix v bs len buf off b
  assume "array_rel E R sz v bs" and len: "int (length bs) \<le> len" and put: "put buf off bs = Some b"
  then obtain xs bss where e: "env_ok E" "v = lua_array E xs" "list_all2 R xs bss" "length xs \<le> 255"
    "if sz = 0 then bs = word_of_nat (length xs) # concat bss else length xs = sz \<and> bs = concat bss" "Lua_nil \<notin> set xs"
    by (auto simp: array_rel_def)
  have at: "elem_at E v (1 + int j) = Some (xs ! j)" if "j < length xs" for j
    using lua_array_at e(1,2,4) that by blast
  have tab: "is_table v" using e(2) by (simp add: lua_array_def)
  show "array_pack E pk sz v buf off len = Ret (int (length bs), b)"
  proof (cases "sz = 0")
    case True
    then have bs: "bs = [word_of_nat (length xs)] @ concat bss" using e(5) by simp
    obtain c where c: "put buf off [word_of_nat (length xs)] = Some c" "put c (off + 1) (concat bss) = Some b"
      using put_append [of buf off "[word_of_nat (length xs)]" "concat bss" b] put bs by auto
    have n: "int_of_size (objlen E v) = int (length xs)"
      using e(1,2,4,6) by (simp add: env_ok_def int_of_size_small)
    have "array_pack_loop E pk v 1 (length xs) c off len 1 = Ret (1 + int (length (concat bss)), b)"
      using len bs c(2) by (intro array_pack_ok e(3) at) simp_all
    then show ?thesis
      using True tab n c(1) bs len e(4) by (simp add: array_pack_def fetch_def Let_def)
  next
    case False
    then have "array_pack_loop E pk v 1 (length xs) buf off len 0 = Ret (0 + int (length (concat bss)), b)"
      using len put e(5) by (intro array_pack_ok e(3) at) simp_all
    then show ?thesis using False tab e(5) by (simp add: array_pack_def)
  qed
next
  fix v bs len buf off
  assume "array_rel E R sz v bs" and len: "int (length bs) \<le> len" and g: "get buf off (length bs) = Some bs"
  then obtain xs bss where e: "env_ok E" "v = lua_array E xs" "list_all2 R xs bss" "length xs \<le> 255"
    "if sz = 0 then bs = word_of_nat (length xs) # concat bss else length xs = sz \<and> bs = concat bss"
    by (auto simp: array_rel_def)
  show "array_unpack E upk sz buf off len = Ret (int (length bs), Some v)"
  proof (cases "sz = 0")
    case True
    then have bs: "bs = word_of_nat (length xs) # concat bss" using e(5) by simp
    have g': "get buf off 1 = Some [word_of_nat (length xs)]" "get buf (off + 1) (length (concat bss)) = Some (concat bss)"
      using get_cons g bs by auto
    have "array_unpack_loop E upk (\<lambda>_. None) 0 (length xs) buf off len 1 =
        Ret (1 + int (length (concat bss)), Some (Lua_table (array_fill E (\<lambda>_. None) 0 xs)))"
      using len bs g'(2) by (intro array_unpack_ok e(3)) simp_all
    moreover have "unat (word_of_nat (length xs) :: byte) = length xs"
      using e(4) by (simp add: unsigned_of_nat take_bit_nat_eq_self)
    ultimately show ?thesis using True g'(1) bs len e(2) by (simp add: array_unpack_def fetch_def lua_array_def)
  next
    case False
    have "array_unpack_loop E upk (\<lambda>_. None) 0 (length xs) buf off len 0 =
        Ret (0 + int (length (concat bss)), Some (Lua_table (array_fill E (\<lambda>_. None) 0 xs)))"
      using False len g e(5) by (intro array_unpack_ok e(3)) simp_all
    then show ?thesis using False e(2,5) by (simp add: array_unpack_def lua_array_def)
  qed
next
  fix v bs
  assume "array_rel E R sz v bs"
  then show "bs \<noteq> []" using concat_nonempty by (fastforce simp: array_rel_def split: if_splits)
qed

end

subsection \<open>Numbers, bytes, words and strings\<close>

definition number_bytes :: "int \<Rightarrow> byte list" where
  "number_bytes i =
     (let m = \<bar>i\<bar>; k = (if m \<le> 0xff then 1 else if m \<le> 0xffff then 2 else if m \<le> 0xffffff then 3 else 4)
      in number_hdr (i < 0) k # le_bytes k (word_of_int m))"

definition num_rel ::
  "'n lua_env \<Rightarrow> (int \<Rightarrow> bool) \<Rightarrow> (int \<Rightarrow> byte list) \<Rightarrow> 'n lua_val \<Rightarrow> byte list \<Rightarrow> bool" where
  "num_rel E dm f v bs \<longleftrightarrow> env_ok E \<and> (\<exists>i. in_int i \<and> dm i \<and> v = Lua_num (from_int E i) \<and> bs = f i)"

definition string_bytes :: "string \<Rightarrow> byte list" where
  "string_bytes s = (if length s + 1 \<le> 255 then word_of_nat (length s + 1) # map byte_of_char s
     else 0 # le_bytes 2 (word_of_nat (length s + 1)) @ map byte_of_char s)"

definition string_rel :: "'n lua_val \<Rightarrow> byte list \<Rightarrow> bool" where
  "string_rel v bs \<longleftrightarrow> (\<exists>s. length s + 1 < 65536 \<and> v = Lua_str s \<and> bs = string_bytes s)"

lemma number_hdr_at:
  assumes "k \<in> {1, 2, 3, 4}"
  shows "unat (drop_bit 1 (number_hdr neg k)) = k" "bit (number_hdr neg k) 0 = neg"
  using assms by (auto simp: number_hdr_def)

lemma uint_word_of_int_small: "0 \<le> m \<Longrightarrow> m < 2 ^ 32 \<Longrightarrow> uint (word_of_int m :: 32 word) = m"
  by (simp add: unsigned_of_int take_bit_int_eq_self)

lemma word_abs:
  assumes "in_int i"
  shows "(if sint (word_of_int i :: 32 word) < 0 then - word_of_int i else word_of_int i) = (word_of_int \<bar>i\<bar> :: 32 word)"
  using sint_word_of_int [OF assms] by simp

lemma le_word_bytes_small: "uint w < 2 ^ (8 * k) \<Longrightarrow> le_word (le_bytes k w) = w"
  by (simp add: le_word_bytes take_bit_small)

lemma number_codec: "codec (pack_number E) (unpack_number E) (num_rel E (\<lambda>_. True) number_bytes)"
proof -
  have nb: "\<exists>k. k \<in> {1, 2, 3, 4} \<and> number_bytes i = number_hdr (i < 0) k # le_bytes k (word_of_int \<bar>i\<bar>) \<and>
      le_word (le_bytes k (word_of_int \<bar>i\<bar> :: 32 word)) = word_of_int \<bar>i\<bar> \<and>
      (\<forall>buf off len. env_ok E \<longrightarrow> pack_number E (Lua_num (from_int E i)) buf off len =
         (if 1 + int k > len then Ret (0, buf) else fetch (put buf off (number_bytes i)) (\<lambda>b. Ret (1 + int k, b))))"
    if i: "in_int i" for i
  proof -
    let ?m = "\<bar>i\<bar>" and ?w = "word_of_int \<bar>i\<bar> :: 32 word"
    let ?k = "if ?m \<le> 0xff then 1 else if ?m \<le> 0xffff then 2 else if ?m \<le> 0xffffff then 3 else (4::nat)"
    have u: "uint ?w = ?m" using i by (intro uint_word_of_int_small) (auto simp: in_int_def)
    have le: "?w \<le> 0xff \<longleftrightarrow> ?m \<le> 0xff" "?w \<le> 0xffff \<longleftrightarrow> ?m \<le> 0xffff" "?w \<le> 0xffffff \<longleftrightarrow> ?m \<le> 0xffffff"
      "?w \<le> 0xffffffff"
      by (simp_all add: word_le_def u) (use i in \<open>auto simp: in_int_def\<close>)
    have sg: "sint (word_of_int i :: 32 word) < 0 \<longleftrightarrow> i < 0" using sint_word_of_int [OF i] by simp
    have "uint ?w < 2 ^ (8 * ?k)" using i by (auto simp: u in_int_def)
    then have lw: "le_word (le_bytes ?k ?w) = ?w" by (rule le_word_bytes_small)
    have nbk: "number_bytes i = number_hdr (i < 0) ?k # le_bytes ?k ?w" by (simp add: number_bytes_def Let_def)
    have "pack_number E (Lua_num (from_int E i)) buf off len =
         (if 1 + int ?k > len then Ret (0, buf) else fetch (put buf off (number_bytes i)) (\<lambda>b. Ret (1 + int ?k, b)))"
      if "env_ok E" for buf off len
    proof -
      have "number2int E (from_int E i) = word_of_int i" using that i by (simp add: env_ok_def)
      then show ?thesis
        unfolding nbk pack_number_def using word_abs [OF i]
        by (simp add: Let_def sg le del: word_of_int_minus)
    qed
    then show ?thesis using lw nbk by (intro exI [of _ ?k]) auto
  qed
  show ?thesis
  proof
    fix v bs len buf off b
    assume "num_rel E (\<lambda>_. True) number_bytes v bs" "int (length bs) \<le> len" "put buf off bs = Some b"
    then show "pack_number E v buf off len = Ret (int (length bs), b)"
      using nb by (fastforce simp: num_rel_def fetch_def)
  next
    fix v bs len buf off
    assume a: "num_rel E (\<lambda>_. True) number_bytes v bs" "int (length bs) \<le> len" "get buf off (length bs) = Some bs"
    then obtain i where i0: "in_int i" "v = Lua_num (from_int E i)" "bs = number_bytes i"
      by (auto simp: num_rel_def)
    obtain k where i: "k \<in> {1, 2, 3, 4}"
      "bs = number_hdr (i < 0) k # le_bytes k (word_of_int \<bar>i\<bar>)"
      "le_word (le_bytes k (word_of_int \<bar>i\<bar> :: 32 word)) = word_of_int \<bar>i\<bar>"
      using nb [OF i0(1)] unfolding i0(3) by blast
    have g: "get buf off 1 = Some [number_hdr (i < 0) k]" "get buf (off + 1) k = Some (le_bytes k (word_of_int \<bar>i\<bar>))"
      using get_cons [of buf off "le_bytes k (word_of_int \<bar>i\<bar>)"] a(3) i(2) by simp_all
    have "sint (if i < 0 then - word_of_int \<bar>i\<bar> else word_of_int \<bar>i\<bar> :: 32 word) = i"
      using sint_word_of_int [OF i0(1)] by simp
    then show "unpack_number E buf off len = Ret (int (length bs), Some v)"
      using g i i0(2) number_hdr_at [OF i(1), of "i < 0"] a(2) by (auto simp: unpack_number_def fetch_def Let_def)
  next
    fix v bs assume "num_rel E (\<lambda>_. True) number_bytes v bs"
    then show "bs \<noteq> []" by (auto simp: num_rel_def number_bytes_def Let_def)
  qed
qed

text \<open>The three packers of fixed width.\<close>

lemma fixed_codec:
  assumes pk: "\<And>n buf off len. pk (Lua_num n) buf off len =
      (if int w > len then Ret (0, buf) else fetch (put buf off (le_bytes w (number2int E n))) (\<lambda>b. Ret (int w, b)))"
    and upk: "\<And>buf off len. upk buf off len =
      (if int w > len then Ret (0, None) else fetch (get buf off w) (\<lambda>bs. Ret (int w, Some (Lua_num (from_int E (rd bs))))))"
    and rd: "\<And>i. in_int i \<Longrightarrow> dm i \<Longrightarrow> rd (le_bytes w (word_of_int i)) = i" and w: "0 < w"
  shows "codec pk upk (num_rel E dm (\<lambda>i. le_bytes w (word_of_int i)))"
proof
  fix v bs len buf off b
  assume "num_rel E dm (\<lambda>i. le_bytes w (word_of_int i)) v bs" "int (length bs) \<le> len" "put buf off bs = Some b"
  then show "pk v buf off len = Ret (int (length bs), b)"
    by (auto simp: num_rel_def pk fetch_def env_ok_def)
next
  fix v bs len buf off
  assume "num_rel E dm (\<lambda>i. le_bytes w (word_of_int i)) v bs" "int (length bs) \<le> len" "get buf off (length bs) = Some bs"
  then show "upk buf off len = Ret (int (length bs), Some v)"
    by (auto simp: num_rel_def upk fetch_def rd)
next
  fix v bs assume "num_rel E dm (\<lambda>i. le_bytes w (word_of_int i)) v bs"
  then show "bs \<noteq> []" using w by (cases w) (auto simp: num_rel_def)
qed

definition byte_dm :: "int \<Rightarrow> bool" where "byte_dm i \<longleftrightarrow> 0 \<le> i \<and> i < 256"

definition word_dm :: "int \<Rightarrow> bool" where "word_dm i \<longleftrightarrow> - 32768 \<le> i \<and> i < 32768"

lemma byte_codec: "codec (pack_byte E) (unpack_byte E) (num_rel E byte_dm (\<lambda>i. le_bytes 1 (word_of_int i)))"
  by (rule fixed_codec [where rd = "\<lambda>bs. uint (hd bs)"])
    (auto simp: pack_byte_def unpack_byte_def byte_dm_def unsigned_of_int take_bit_int_eq_self unsigned_ucast_eq)

lemma dword_codec: "codec (pack_dword E) (unpack_dword E) (num_rel E (\<lambda>_. True) (\<lambda>i. le_bytes 4 (word_of_int i)))"
proof (rule fixed_codec [where rd = "\<lambda>bs. sint (le_word bs)"])
  fix i assume "in_int i"
  have "uint (word_of_int i :: 32 word) < 2 ^ 32" using uint_lt2p [of "word_of_int i :: 32 word"] by simp
  then have "le_word (le_bytes 4 (word_of_int i)) = word_of_int i" by (intro le_word_bytes_small) simp
  then show "sint (le_word (le_bytes 4 (word_of_int i))) = i" using sint_word_of_int \<open>in_int i\<close> by simp
qed (simp_all add: pack_dword_def unpack_dword_def)

lemma word_codec: "codec (pack_word E) (unpack_word E) (num_rel E word_dm (\<lambda>i. le_bytes 2 (word_of_int i)))"
proof (rule fixed_codec [where rd = "\<lambda>bs. sint (ucast (le_word bs) :: 16 word)"])
  fix i assume "word_dm i"
  have "(ucast (take_bit 16 (word_of_int i :: 32 word)) :: 16 word) = word_of_int i"
    by (rule bit_eqI) (auto simp: bit_simps)
  then show "sint (ucast (le_word (le_bytes 2 (word_of_int i))) :: 16 word) = i"
    using \<open>word_dm i\<close> by (simp add: le_word_bytes word_dm_def signed_of_int signed_take_bit_int_eq_self)
qed (simp_all add: pack_word_def unpack_word_def)


lemma le_bytes_1: "le_bytes 1 (word_of_int (int n)) = [word_of_nat n]"
proof -
  have "(ucast (word_of_nat n :: 32 word) :: byte) = word_of_nat n"
    by (rule bit_eqI) (auto simp: bit_simps)
  then show ?thesis by simp
qed

lemma string_pack_ok:
  assumes s: "length s + 1 < 65536" "int (length (string_bytes s)) \<le> len" "put buf off (string_bytes s) = Some b"
  shows "pack_string E (Lua_str s) buf off len = Ret (int (length (string_bytes s)), b)"
proof (cases "length s + 1 \<le> 255")
  case True
  then show ?thesis
    using le_bytes_1 [of "length s + 1"] s
    by (simp add: pack_string_def check_lstring_def Let_def int_of_size_small fetch_def string_bytes_def del: le_bytes.simps)
next
  case False
  then show ?thesis
    using s by (simp add: pack_string_def check_lstring_def Let_def int_of_size_small fetch_def string_bytes_def)
qed

lemma uint_of_nat_small: "n < 2 ^ LENGTH('a) \<Longrightarrow> uint (word_of_nat n :: 'a::len word) = int n"
proof -
  assume "n < 2 ^ LENGTH('a)"
  then show ?thesis by (simp add: unsigned_of_nat take_bit_nat_eq_self)
qed

lemma unpack_string_short:
  assumes "get buf off 1 = Some [h]" "uint h = int (length s) + 1" "1 + int (length s) \<le> len"
    "get buf (off + 1) (length s) = Some (map byte_of_char s)"
  shows "unpack_string E buf off len = Ret (1 + int (length s), Some (Lua_str s))"
  using assms by (simp add: unpack_string_def fetch_def Let_def chars_bytes [simplified])

lemma unpack_string_long:
  assumes "get buf off 1 = Some [0]" "get buf (off + 1) 2 = Some ws" "sint (le_word ws) = int (length s) + 1"
    "3 + int (length s) \<le> len" "get buf (off + 3) (length s) = Some (map byte_of_char s)"
  shows "unpack_string E buf off len = Ret (3 + int (length s), Some (Lua_str s))"
  using assms by (simp add: unpack_string_def fetch_def Let_def chars_bytes [simplified])

lemma string_unpack_ok:
  assumes s: "length s + 1 < 65536" "int (length (string_bytes s)) \<le> len"
    "get buf off (length (string_bytes s)) = Some (string_bytes s)"
  shows "unpack_string E buf off len = Ret (int (length (string_bytes s)), Some (Lua_str s))"
proof (cases "length s + 1 \<le> 255")
  case True
  let ?h = "word_of_nat (length s + 1) :: byte"
  have sb: "string_bytes s = ?h # map byte_of_char s" using True by (simp add: string_bytes_def)
  have g: "get buf off 1 = Some [?h]" "get buf (off + 1) (length s) = Some (map byte_of_char s)"
    using get_cons [of buf off "map byte_of_char s" ?h] s(3) sb by simp_all
  have h: "uint ?h = int (length s) + 1"
    using uint_of_nat_small [of "length s + 1", where 'a = 8] True by simp
  have "length (string_bytes s) = length s + 1" using sb by simp
  then show ?thesis using unpack_string_short [OF g(1) h _ g(2)] s(2) by simp
next
  case False
  let ?w = "le_bytes 2 (word_of_nat (length s + 1))"
  have sb: "string_bytes s = [0] @ ?w @ map byte_of_char s" using False by (simp add: string_bytes_def)
  have g: "get buf off 1 = Some [0]" "get buf (off + 1) 2 = Some ?w" "get buf (off + 3) (length s) = Some (map byte_of_char s)"
    using get_append [of buf off "[0]" "?w @ map byte_of_char s"]
      get_append [of buf "off + 1" ?w "map byte_of_char s"] s(3) sb by (simp_all add: eval_nat_numeral)
  have "uint (word_of_nat (length s + 1) :: 32 word) = int (length s) + 1"
    using uint_of_nat_small [of "length s + 1", where 'a = 32] s(1) by simp
  then have "le_word ?w = word_of_nat (length s + 1)" using s(1) by (intro le_word_bytes_small) simp
  then have "sint (le_word ?w) = int (length s) + 1"
    using sint_word_of_int [of "int (length s) + 1"] s(1) by (simp add: in_int_def add.commute)
  moreover have "length (string_bytes s) = length s + 3" using sb by simp
  ultimately show ?thesis using unpack_string_long [OF g(1,2) _ _ g(3)] s(2) by (simp add: add.commute)
qed

lemma string_codec: "codec (pack_string E) (unpack_string E) string_rel"
proof
  fix v :: "'a lua_val" and bs len buf off b
  assume "string_rel v bs" "int (length bs) \<le> len" "put buf off bs = Some b"
  then show "pack_string E v buf off len = Ret (int (length bs), b)"
    using string_pack_ok by (auto simp: string_rel_def)
next
  fix v :: "'a lua_val" and bs len buf off
  assume "string_rel v bs" "int (length bs) \<le> len" "get buf off (length bs) = Some bs"
  then show "unpack_string E buf off len = Ret (int (length bs), Some v)"
    using string_unpack_ok by (auto simp: string_rel_def)
next
  fix v :: "'a lua_val" and bs assume "string_rel v bs"
  then show "bs \<noteq> []" by (auto simp: string_rel_def string_bytes_def split: if_splits)
qed

subsection \<open>Tables\<close>

text \<open>
  The fields of a table format as a tree, the program the travel compiles it to, and the
  encoding of a table: the encodings of the fields in order, depth first.
\<close>

datatype ('n, 'a) field = Leaf "'n lkey" 'a | Sub "'n lkey" "('n, 'a) field list"

fun compile :: "('n, 'a) field list \<Rightarrow> ('n, 'a) tb_op list" where
  "compile [] = []"
| "compile (Leaf k a # fs) = Push_value k (Some a) # compile fs"
| "compile (Sub k gs # fs) = Tb_begin k # compile gs @ [Tb_end] @ compile fs"

fun field_key :: "('n, 'a) field \<Rightarrow> 'n lkey" where
  "field_key (Leaf k a) = k"
| "field_key (Sub k gs) = k"

inductive fields_rel ::
  "('n, 'n lua_val \<Rightarrow> byte list \<Rightarrow> bool) field list \<Rightarrow> ('n lkey \<Rightarrow> 'n lua_val option) \<Rightarrow> byte list \<Rightarrow> bool" where
  "fields_rel [] f []"
| "f k = Some v \<Longrightarrow> R v b1 \<Longrightarrow> fields_rel fs f b2 \<Longrightarrow> fields_rel (Leaf k R # fs) f (b1 @ b2)"
| "f k = Some (Lua_table g) \<Longrightarrow> dom g = field_key ` set gs \<Longrightarrow> fields_rel gs g b1 \<Longrightarrow> fields_rel fs f b2 \<Longrightarrow>
   fields_rel (Sub k gs # fs) f (b1 @ b2)"

inductive_simps fields_rel_simps [simp]:
  "fields_rel [] f bs" "fields_rel (Leaf k R # fs) f bs" "fields_rel (Sub k gs # fs) f bs"

definition table_rel ::
  "('n, 'n lua_val \<Rightarrow> byte list \<Rightarrow> bool) tb_op list \<Rightarrow> 'n lua_val \<Rightarrow> byte list \<Rightarrow> bool" where
  "table_rel ops v bs \<longleftrightarrow> bs \<noteq> [] \<and> (\<exists>fs f. ops = compile fs @ [Tb_end] \<and> v = Lua_table f \<and>
     dom f = field_key ` set fs \<and> fields_rel fs f bs)"

fun map_leaf :: "('a \<Rightarrow> 'b) \<Rightarrow> ('n, 'a) field \<Rightarrow> ('n, 'b) field" where
  "map_leaf h (Leaf k a) = Leaf k (h a)"
| "map_leaf h (Sub k gs) = Sub k (map (map_leaf h) gs)"

lemma field_key_map [simp]: "field_key (map_leaf h x) = field_key x"
  by (cases x) auto

fun field_args :: "('n, 'a) field \<Rightarrow> 'a set" where
  "field_args (Leaf k a) = {a}"
| "field_args (Sub k gs) = (\<Union>x \<in> set gs. field_args x)"

lemma compile_map: "compile (map (map_leaf h) fs) = map (map_tb_op id h) (compile fs)"
  by (induction fs rule: compile.induct) (auto simp: lkey.map_id id_def [symmetric])

text \<open>Every program that is mapped to a compiled one is itself compiled.\<close>

lemma compile_split:
  "map (map_tb_op id h) ops = compile fs' @ ys \<Longrightarrow>
   \<exists>fs rest. ops = compile fs @ rest \<and> fs' = map (map_leaf h) fs \<and> ys = map (map_tb_op id h) rest"
proof (induction fs' arbitrary: ops ys rule: compile.induct)
  case 1
  then show ?case by (intro exI [of _ "[]"] exI [of _ ops]) simp
next
  case (2 k a fs')
  from "2.prems" obtain o1 ops' where o: "ops = o1 # ops'" "map_tb_op id h o1 = Push_value k (Some a)"
    "map (map_tb_op id h) ops' = compile fs' @ ys"
    by (auto simp only: compile.simps append_Cons append_assoc append_Nil map_eq_Cons_conv)
  from o(2) obtain a' where a: "o1 = Push_value k (Some a')" "a = h a'" by (cases o1) (auto simp: lkey.map_id)
  obtain fs rest where "ops' = compile fs @ rest" "fs' = map (map_leaf h) fs" "ys = map (map_tb_op id h) rest"
    using "2.IH" [OF o(3)] by blast
  with o(1) a show ?case by (intro exI [of _ "Leaf k a' # fs"] exI [of _ rest]) (simp add: id_def)
next
  case (3 k gs' fs')
  from "3.prems" obtain o1 ops' where o: "ops = o1 # ops'" "map_tb_op id h o1 = Tb_begin k"
    "map (map_tb_op id h) ops' = compile gs' @ ([Tb_end] @ compile fs' @ ys)"
    by (auto simp only: compile.simps append_Cons append_assoc append_Nil map_eq_Cons_conv)
  from o(2) have o1: "o1 = Tb_begin k" by (cases o1) (auto simp: lkey.map_id)
  obtain gs r where g: "ops' = compile gs @ r" "gs' = map (map_leaf h) gs"
    "[Tb_end] @ compile fs' @ ys = map (map_tb_op id h) r"
    using "3.IH"(1) [OF o(3)] by blast
  then obtain o2 r' where r: "r = o2 # r'" "map_tb_op id h o2 = Tb_end" "map (map_tb_op id h) r' = compile fs' @ ys"
    by (cases r) auto
  from r(2) have o2: "o2 = Tb_end" by (cases o2) auto
  obtain fs rest where "r' = compile fs @ rest" "fs' = map (map_leaf h) fs" "ys = map (map_tb_op id h) rest"
    using "3.IH"(2) [OF r(3)] by blast
  with o(1) o1 g(1,2) r(1) o2 show ?case by (intro exI [of _ "Sub k gs # fs"] exI [of _ rest]) (simp add: id_def)
qed



lemma pack_fields:
  assumes "\<And>a. a \<in> \<Union> (field_args ` set fs) \<Longrightarrow> codec (pk a) (upk a) (R a)"
    "fields_rel (map (map_leaf R) fs) f bs" "0 \<le> used" "used + int (length bs) \<le> len"
    "put buf (off + nat used) bs = Some b"
  shows "table_pack_loop (compile (map (map_leaf pk) fs) @ rest) (Lua_table f # st) buf off len used =
    table_pack_loop rest (Lua_table f # st) b off len (used + int (length bs))"
  using assms
proof (induction fs arbitrary: f st bs used buf b rest rule: compile.induct)
  case 1
  then show ?case by (auto dest!: put_Some)
next
  case (2 k a fs)
  then obtain v b1 b2 where v: "f k = Some v" "R a v b1" "fields_rel (map (map_leaf R) fs) f b2" "bs = b1 @ b2"
    by auto
  have c: "codec (pk a) (upk a) (R a)" using "2.prems"(1) by simp
  obtain m where m: "put buf (off + nat used) b1 = Some m" "put m (off + nat used + length b1) b2 = Some b"
    using put_append "2.prems"(5) v(4) by blast
  have "pk a v buf (off + nat used) (len - used) = Ret (int (length b1), m)"
    using "2.prems"(4) v(4) m(1) by (intro codec.pack_ok [OF c v(2)]) simp_all
  moreover have "b1 \<noteq> []" using codec.nonempty [OF c v(2)] .
  moreover have "table_pack_loop (compile (map (map_leaf pk) fs) @ rest) (Lua_table f # st) m off len (used + int (length b1)) =
      table_pack_loop rest (Lua_table f # st) b off len (used + int (length b1) + int (length b2))"
    using "2.prems" v m by (intro "2.IH" [OF _ v(3)]) (simp_all add: nat_add_distrib add.assoc)
  ultimately show ?case using v(1,4) by (simp add: fetch_def add.assoc)
next
  case (3 k gs fs)
  then obtain g b1 b2 where v: "f k = Some (Lua_table g)" "fields_rel (map (map_leaf R) gs) g b1"
    "fields_rel (map (map_leaf R) fs) f b2" "bs = b1 @ b2"
    by auto
  obtain m where m: "put buf (off + nat used) b1 = Some m" "put m (off + nat used + length b1) b2 = Some b"
    using put_append "3.prems"(5) v(4) by blast
  let ?r = "[Tb_end] @ compile (map (map_leaf pk) fs) @ rest"
  have "table_pack_loop (compile (map (map_leaf pk) gs) @ ?r) (Lua_table g # Lua_table f # st) buf off len used =
      table_pack_loop ?r (Lua_table g # Lua_table f # st) m off len (used + int (length b1))"
    using "3.prems" v m by (intro "3.IH"(1) [OF _ v(2)]) simp_all
  moreover have "table_pack_loop (compile (map (map_leaf pk) fs) @ rest) (Lua_table f # st) m off len (used + int (length b1)) =
      table_pack_loop rest (Lua_table f # st) b off len (used + int (length b1) + int (length b2))"
    using "3.prems" v m by (intro "3.IH"(2) [OF _ v(3)]) (simp_all add: nat_add_distrib add.assoc)
  ultimately show ?case using v(1,4) by (simp add: fetch_def add.assoc)
qed

lemma restrict_full: "dom f = K \<Longrightarrow> (\<lambda>_. None) ++ f |` K = f"
  by (rule ext) (auto simp: map_add_def restrict_map_def split: option.split)

text \<open>Unpacking the fields of a table sets exactly their keys.\<close>

lemma unpack_fields:
  assumes "\<And>a. a \<in> \<Union> (field_args ` set fs) \<Longrightarrow> codec (pk a) (upk a) (R a)"
    "fields_rel (map (map_leaf R) fs) f bs" "0 \<le> r" "r + int (length bs) \<le> len"
    "get buf (off + nat r) (length bs) = Some bs"
  shows "table_unpack_loop (compile (map (map_leaf upk) fs) @ rest) cur st buf off len r =
    table_unpack_loop rest (cur ++ f |` (field_key ` set fs)) st buf off len (r + int (length bs))"
  using assms
proof (induction fs arbitrary: f st bs r cur rest rule: compile.induct)
  case 1
  then show ?case by simp
next
  case (2 k a fs)
  then obtain v b1 b2 where v: "f k = Some v" "R a v b1" "fields_rel (map (map_leaf R) fs) f b2" "bs = b1 @ b2"
    by auto
  have c: "codec (pk a) (upk a) (R a)" using "2.prems"(1) by simp
  have g: "get buf (off + nat r) (length b1) = Some b1" "get buf (off + nat r + length b1) (length b2) = Some b2"
    using get_append "2.prems"(5) v(4) by blast+
  have u: "upk a buf (off + nat r) (len - r) = Ret (int (length b1), Some v)"
    using "2.prems"(4) v(4) g(1) by (intro codec.unpack_ok [OF c v(2)]) simp_all
  have ne: "b1 \<noteq> []" using codec.nonempty [OF c v(2)] .
  have "table_unpack_loop (compile (map (map_leaf upk) fs) @ rest) (cur(k \<mapsto> v)) st buf off len (r + int (length b1)) =
      table_unpack_loop rest (cur(k \<mapsto> v) ++ f |` (field_key ` set fs)) st buf off len (r + int (length b1) + int (length b2))"
    using "2.prems" v g by (intro "2.IH" [OF _ v(3)]) (simp_all add: nat_add_distrib add.assoc)
  moreover have "cur(k \<mapsto> v) ++ f |` (field_key ` set fs) = cur ++ f |` (field_key ` set (Leaf k a # fs))"
    using v(1) by (auto simp: fun_eq_iff map_add_def restrict_map_def split: option.split)
  ultimately show ?case using v(4) u ne by (simp add: fetch_def add.assoc)
next
  case (3 k gs fs)
  then obtain g b1 b2 where v: "f k = Some (Lua_table g)" "fields_rel (map (map_leaf R) gs) g b1"
    "fields_rel (map (map_leaf R) fs) f b2" "bs = b1 @ b2" "dom g = field_key ` set gs"
    by (auto simp: image_image)
  have h: "get buf (off + nat r) (length b1) = Some b1" "get buf (off + nat r + length b1) (length b2) = Some b2"
    using get_append "3.prems"(5) v(4) by blast+
  let ?r = "[Tb_end] @ compile (map (map_leaf upk) fs) @ rest"
  have "(\<lambda>_. None) ++ g |` (field_key ` set gs) = g"
    using v(5) by (rule restrict_full)
  then have "table_unpack_loop (compile (map (map_leaf upk) gs) @ ?r) (\<lambda>_. None) ((k, cur) # st) buf off len r =
      table_unpack_loop ?r g ((k, cur) # st) buf off len (r + int (length b1))"
    using "3.IH"(1) [OF _ v(2) "3.prems"(3), where rest = ?r and cur = "\<lambda>_. None" and st = "(k, cur) # st"] "3.prems" v(4) h
    by simp
  moreover have "table_unpack_loop (compile (map (map_leaf upk) fs) @ rest) (cur(k \<mapsto> Lua_table g)) st buf off len (r + int (length b1)) =
      table_unpack_loop rest (cur(k \<mapsto> Lua_table g) ++ f |` (field_key ` set fs)) st buf off len (r + int (length b1) + int (length b2))"
    using "3.prems" v h by (intro "3.IH"(2) [OF _ v(3)]) (simp_all add: nat_add_distrib add.assoc)
  moreover have "cur(k \<mapsto> Lua_table g) ++ f |` (field_key ` set fs) = cur ++ f |` (field_key ` set (Sub k gs # fs))"
    using v(1) by (auto simp: fun_eq_iff map_add_def restrict_map_def split: option.split)
  ultimately show ?case using v(4) by (simp add: add.assoc)
qed

lemma compile_args: "a \<in> \<Union> (field_args ` set fs) \<Longrightarrow> \<exists>x \<in> set (compile fs). a \<in> set2_tb_op x"
  by (induction fs rule: compile.induct) auto

lemma compiled_ops:
  assumes "map (map_tb_op id R) ops = compile fs' @ [Tb_end]"
  obtains fs where "ops = compile fs @ [Tb_end]" "fs' = map (map_leaf R) fs"
proof -
  obtain fs rest where fs: "ops = compile fs @ rest" "fs' = map (map_leaf R) fs" "[Tb_end] = map (map_tb_op id R) rest"
    using compile_split [OF assms] by iprover
  from fs(3) obtain x where x: "rest = [x]" "Tb_end = map_tb_op id R x"
    by (auto simp only: Cons_eq_map_conv map_is_Nil_conv Nil_is_map_conv)
  from x(2) have "x = Tb_end" by (cases x) simp_all
  with fs(1) x(1) have ops: "ops = compile fs @ [Tb_end]" by simp
  show ?thesis by (rule that [OF ops fs(2)])
qed

lemma compiled_map: "map (map_tb_op id h) (compile fs @ [Tb_end]) = compile (map (map_leaf h) fs) @ [Tb_end]"
  unfolding compile_map by simp

lemma table_codec:
  assumes "\<And>x a. x \<in> set ops \<Longrightarrow> a \<in> set2_tb_op x \<Longrightarrow> codec (pk a) (upk a) (R a)"
  shows "codec (table_pack (map (map_tb_op id pk) ops)) (table_unpack (map (map_tb_op id upk) ops))
    (table_rel (map (map_tb_op id R) ops))"
proof
  fix v bs len buf off b
  assume r: "table_rel (map (map_tb_op id R) ops) v bs" and len: "int (length bs) \<le> len" and p: "put buf off bs = Some b"
  then obtain fs' f where f: "map (map_tb_op id R) ops = compile fs' @ [Tb_end]" "v = Lua_table f" "fields_rel fs' f bs"
    by (auto simp: table_rel_def)
  obtain fs where fs: "ops = compile fs @ [Tb_end]" "fs' = map (map_leaf R) fs"
    using compiled_ops [OF f(1)] by blast
  have "codec (pk a) (upk a) (R a)" if "a \<in> \<Union> (field_args ` set fs)" for a
    using compile_args [OF that] fs(1) assms by auto
  then have "table_pack_loop (compile (map (map_leaf pk) fs) @ [Tb_end]) (Lua_table f # []) buf off len 0 =
      table_pack_loop [Tb_end] (Lua_table f # []) b off len (0 + int (length bs))"
    using len p f(3) fs(2) by (intro pack_fields [where R = R and upk = upk]) simp_all
  then show "table_pack (map (map_tb_op id pk) ops) v buf off len = Ret (int (length bs), b)"
    unfolding table_pack_def f(2) fs(1) compiled_map by simp
next
  fix v bs len buf off
  assume r: "table_rel (map (map_tb_op id R) ops) v bs" and len: "int (length bs) \<le> len"
    and g: "get buf off (length bs) = Some bs"
  then obtain fs' f where f: "map (map_tb_op id R) ops = compile fs' @ [Tb_end]" "v = Lua_table f" "fields_rel fs' f bs"
    "dom f = field_key ` set fs'"
    by (auto simp: table_rel_def)
  obtain fs where fs: "ops = compile fs @ [Tb_end]" "fs' = map (map_leaf R) fs"
    using compiled_ops [OF f(1)] by blast
  have "codec (pk a) (upk a) (R a)" if "a \<in> \<Union> (field_args ` set fs)" for a
    using compile_args [OF that] fs(1) assms by auto
  then have "table_unpack_loop (compile (map (map_leaf upk) fs) @ []) (\<lambda>_. None) [] buf off len 0 =
      table_unpack_loop [] ((\<lambda>_. None) ++ f |` (field_key ` set fs)) [] buf off len (0 + int (length bs))"
    using len g f(3) fs(2) by (intro unpack_fields [where R = R and pk = pk]) simp_all
  moreover have "(\<lambda>_. None) ++ f |` (field_key ` set fs) = f"
    using f(4) fs(2) by (intro restrict_full) (simp add: image_image)
  ultimately show "table_unpack (map (map_tb_op id upk) ops) buf off len = Ret (int (length bs), Some v)"
    unfolding table_unpack_def f(2) fs(1) compiled_map by simp
next
  fix v bs assume "table_rel (map (map_tb_op id R) ops) v bs"
  then show "bs \<noteq> []" by (simp add: table_rel_def)
qed

subsection \<open>Every packer keeps the contract\<close>

primrec encodes :: "'n lua_env \<Rightarrow> 'n fcall_arg \<Rightarrow> 'n lua_val \<Rightarrow> byte list \<Rightarrow> bool" where
  "encodes E Number_arg = num_rel E (\<lambda>_. True) number_bytes"
| "encodes E Byte_arg = num_rel E byte_dm (\<lambda>i. le_bytes 1 (word_of_int i))"
| "encodes E Word_arg = num_rel E word_dm (\<lambda>i. le_bytes 2 (word_of_int i))"
| "encodes E Dword_arg = num_rel E (\<lambda>_. True) (\<lambda>i. le_bytes 4 (word_of_int i))"
| "encodes E String_arg = string_rel"
| "encodes E (Table_arg ty hs ops) = table_rel (map (map_tb_op id (encodes E)) ops)"
| "encodes E (Array_arg hs a sz) = array_rel E (encodes E a) sz"

interpretation arg: codec "pack E a" "unpack E a" "encodes E a" for E :: "'n lua_env" and a
proof (induction a)
  case (Table_arg ty hs ops)
  then show ?case using table_codec [of ops "pack E" "unpack E" "encodes E"] by simp
next
  case (Array_arg hs a sz)
  then show ?case by (simp add: codec.array_codec)
qed (simp_all only: pack.simps unpack.simps encodes.simps number_codec byte_codec word_codec dword_codec string_codec)

end
