(* ===== verification/Db_Safe.thy ===== *)
theory Db_Safe
  imports Db_Codec
begin

section \<open>mydb: memory safety of the packers\<close>

text \<open>
  The two directions on arbitrary input: unpacking any bytes, and packing any value, stays
  inside the given region of the buffer.
\<close>

subsection \<open>Reading\<close>

definition read_ok :: "int \<Rightarrow> (int \<times> 'a option) lres \<Rightarrow> bool" where
  "read_ok len res \<longleftrightarrow> (case res of
     Ret (r, x) \<Rightarrow> 0 \<le> r \<and> r \<le> len \<and> (r \<noteq> 0 \<longrightarrow> x \<noteq> None) | Raise \<Rightarrow> False | Fault \<Rightarrow> False)"

lemma read_ok_simps [simp]:
  "read_ok len (Ret (r, x)) \<longleftrightarrow> 0 \<le> r \<and> r \<le> len \<and> (r \<noteq> 0 \<longrightarrow> x \<noteq> None)"
  "\<not> read_ok len Raise" "\<not> read_ok len Fault"
  by (simp_all add: read_ok_def)

lemma read_ok_cases:
  assumes "read_ok len res"
  obtains x where "0 \<le> len" "res = Ret (0, x)"
    | r v where "res = Ret (r, Some v)" "0 < r" "r \<le> len"
  using assms by (cases res) (auto simp: read_ok_def order_le_less split: prod.splits)

lemma get_fits: "int m + int n \<le> len \<Longrightarrow> off + nat len \<le> length buf \<Longrightarrow>
    \<exists>bs. get buf (off + m) n = Some bs \<and> length bs = n"
  by (simp add: get_def)

locale safe_reader =
  fixes upk :: "'n unpacker"
  assumes safe: "0 \<le> len \<Longrightarrow> off + nat len \<le> length buf \<Longrightarrow> read_ok len (upk buf off len)"
begin

lemma safe_at: "0 \<le> r \<Longrightarrow> r \<le> len \<Longrightarrow> off + nat len \<le> length buf \<Longrightarrow>
    read_ok (len - r) (upk buf (off + nat r) (len - r))"
  by (rule safe) (simp_all add: nat_diff_distrib)

lemma array_reader_loop:
  assumes "0 \<le> r" "r \<le> len" "off + nat len \<le> length buf"
  shows "read_ok len (array_unpack_loop E upk t i n buf off len r)"
  using assms
proof (induction n arbitrary: t i r)
  case 0
  then show ?case by simp
next
  case (Suc n)
  from safe_at [OF Suc.prems] show ?case
  proof (cases rule: read_ok_cases)
    case (2 c v)
    with Suc.prems Suc.IH [of "r + c" "t(Key_num (from_int E (i + 1)) \<mapsto> v)" "i + 1"] show ?thesis
      by (simp add: fetch_def del: fun_upd_apply)
  qed (use Suc.prems in simp_all)
qed

lemma array_reader: "safe_reader (array_unpack E upk sz)"
proof
  fix len :: int and off :: nat and buf :: "byte list"
  assume a: "0 \<le> len" "off + nat len \<le> length buf"
  show "read_ok len (array_unpack E upk sz buf off len)"
  proof (cases "sz = 0 \<and> 1 \<le> len")
    case True
    then have "\<exists>h. get buf off 1 = Some h" using get_fits [OF _ a(2), of 0 1] by auto
    with True a array_reader_loop [of 1 len off buf] show ?thesis
      by (auto simp: array_unpack_def fetch_def)
  next
    case False
    with a array_reader_loop [of 0 len off buf] show ?thesis by (auto simp: array_unpack_def)
  qed
qed

end

lemma number_reader: "safe_reader (unpack_number E)"
proof
  fix len :: int and off :: nat and buf :: "byte list"
  assume a: "0 \<le> len" "off + nat len \<le> length buf"
  show "read_ok len (unpack_number E buf off len)"
  proof (cases "1 > len")
    case True
    then show ?thesis using a by (simp add: unpack_number_def)
  next
    case False
    then obtain h where h: "get buf off 1 = Some h" using get_fits [OF _ a(2), of 0 1] by auto
    obtain k where k: "k = unat (drop_bit 1 (hd h))" by blast
    have "\<exists>bs. get buf (off + 1) k = Some bs" if "1 + int k \<le> len"
      using get_fits [OF _ a(2), of 1 k] that by auto
    then show ?thesis using False h a unfolding unpack_number_def fetch_def Let_def
      by (auto simp: not_less simp flip: k simp del: One_nat_def)
  qed
qed

lemma fixed_reader:
  assumes "\<And>buf off len. upk buf off len =
      (if int w > len then Ret (0, None) else fetch (get buf off w) (\<lambda>bs. Ret (int w, Some (f bs))))"
  shows "safe_reader upk"
proof
  fix len :: int and off :: nat and buf :: "byte list"
  assume a: "0 \<le> len" "off + nat len \<le> length buf"
  then show "read_ok len (upk buf off len)"
    using get_fits [OF _ a(2), of 0 w] by (cases "int w \<le> len") (auto simp: assms fetch_def)
qed

lemma string_reader: "safe_reader (unpack_string E :: 'n unpacker)"
proof
  fix len :: int and off :: nat and buf :: "byte list"
  assume a: "0 \<le> len" "off + nat len \<le> length buf"
  note g = get_fits [OF _ a(2)]
  show "read_ok len ((unpack_string E :: 'n unpacker) buf off len)"
  proof (cases "1 > len")
    case True
    then show ?thesis using a by (simp add: unpack_string_def)
  next
    case False
    then obtain h where h: "get buf off 1 = Some h" using g [of 0 1] by auto
    obtain n where n: "n = uint (hd h)" by blast
    show ?thesis
    proof (cases "n > 0")
      case True
      then have "\<exists>bs. get buf (off + 1) (nat (n - 1)) = Some bs" if "1 + (n - 1) \<le> len"
        using g [of 1 "nat (n - 1)"] that by auto
      then show ?thesis using True False h a unfolding unpack_string_def fetch_def Let_def
        by (auto simp: not_less simp flip: n)
    next
      case z: False
      show ?thesis
      proof (cases "3 > len")
        case True
        then show ?thesis using z h n False a by (simp add: unpack_string_def fetch_def Let_def)
      next
        case l: False
        then obtain ws where ws: "get buf (off + 1) 2 = Some ws" using g [of 1 2] by auto
        obtain m where m: "m = sint (le_word ws) - 1" by blast
        have "\<exists>bs. get buf (off + 3) (nat m) = Some bs" if "0 \<le> m" "3 + m \<le> len"
          using g [of 3 "nat m"] that by auto
        then show ?thesis using z h False l ws a unfolding unpack_string_def fetch_def Let_def
          by (auto simp: not_less simp flip: n m)
      qed
    qed
  qed
qed

lemma table_reader_loop:
  assumes "\<And>a. a \<in> \<Union> (field_args ` set fs) \<Longrightarrow> safe_reader (upk a)"
    "0 \<le> r" "r \<le> len" "off + nat len \<le> length buf"
    and k: "\<And>cur' r'. r \<le> r' \<Longrightarrow> r' \<le> len \<Longrightarrow> read_ok len (table_unpack_loop rest cur' st buf off len r')"
  shows "read_ok len (table_unpack_loop (compile (map (map_leaf upk) fs) @ rest) cur st buf off len r)"
  using assms
proof (induction fs arbitrary: r cur st rest rule: compile.induct)
  case 1
  then show ?case by simp
next
  case (2 a x fs)
  have "safe_reader (upk x)" using "2.prems"(1) by simp
  from safe_reader.safe_at [OF this "2.prems"(2-4)] show ?case
  proof (cases rule: read_ok_cases)
    case got: (2 c v)
    have "read_ok len (table_unpack_loop (compile (map (map_leaf upk) fs) @ rest) (cur(a \<mapsto> v)) st buf off len (r + c))"
      using "2.prems" got by (intro "2.IH") auto
    with got show ?thesis by (simp add: fetch_def)
  qed (use "2.prems" in simp_all)
next
  case (3 a gs fs)
  have "read_ok len (table_unpack_loop (compile (map (map_leaf upk) fs) @ rest) cur' st buf off len r')"
    if "r \<le> r'" "r' \<le> len" for cur' r'
    using "3.prems" that by (intro "3.IH"(2)) auto
  then have "read_ok len (table_unpack_loop (compile (map (map_leaf upk) gs) @ [Tb_end] @ compile (map (map_leaf upk) fs) @ rest)
      (\<lambda>_. None) ((a, cur) # st) buf off len r)"
    using "3.prems"(1-4) by (intro "3.IH"(1)) auto
  then show ?case by simp
qed

lemma table_reader:
  assumes "\<And>a. a \<in> \<Union> (field_args ` set fs) \<Longrightarrow> safe_reader (upk a)"
  shows "safe_reader (table_unpack (map (map_tb_op id upk) (compile fs @ [Tb_end])))"
proof
  fix len :: int and off :: nat and buf :: "byte list"
  assume a: "0 \<le> len" "off + nat len \<le> length buf"
  have "read_ok len (table_unpack_loop (compile (map (map_leaf upk) fs) @ []) (\<lambda>_. None) [] buf off len 0)"
    using a assms by (intro table_reader_loop) auto
  then show "read_ok len (table_unpack (map (map_tb_op id upk) (compile fs @ [Tb_end])) buf off len)"
    unfolding table_unpack_def compiled_map by simp
qed

interpretation number_in: safe_reader "unpack_number E" for E :: "'n lua_env"
  by (rule number_reader)

interpretation string_in: safe_reader "unpack_string E" for E :: "'n lua_env"
  by (rule string_reader)

text \<open>The packers whose tables are programs that the travel of a format compiles.\<close>

inductive wf_arg :: "'n fcall_arg \<Rightarrow> bool" where
  "wf_arg Number_arg" | "wf_arg Byte_arg" | "wf_arg Word_arg" | "wf_arg Dword_arg" | "wf_arg String_arg"
| "(\<And>a. a \<in> \<Union> (field_args ` set fs) \<Longrightarrow> wf_arg a) \<Longrightarrow> wf_arg (Table_arg ty hs (compile fs @ [Tb_end]))"
| "wf_arg a \<Longrightarrow> wf_arg (Array_arg hs a sz)"

lemma wf_reader: "wf_arg a \<Longrightarrow> safe_reader (unpack E a)"
proof (induction rule: wf_arg.induct)
  case (6 fs ty hs)
  then show ?case using table_reader [of fs "unpack E"] by simp
next
  case (7 a hs sz)
  then show ?case by (simp add: safe_reader.array_reader)
next
  case 2
  show ?case by (rule fixed_reader [where w = 1 and f = "\<lambda>bs. Lua_num (from_int E (uint (hd bs)))"]) (simp add: unpack_byte_def)
next
  case 3
  show ?case by (rule fixed_reader [where w = 2 and f = "\<lambda>bs. Lua_num (from_int E (sint (ucast (le_word bs) :: 16 word)))"]) (simp add: unpack_word_def)
next
  case 4
  show ?case by (rule fixed_reader [where w = 4 and f = "\<lambda>bs. Lua_num (from_int E (sint (le_word bs)))"]) (simp add: unpack_dword_def)
qed (simp_all add: number_reader string_reader)

subsection \<open>Writing\<close>

definition same_outside :: "nat \<Rightarrow> int \<Rightarrow> byte list \<Rightarrow> byte list \<Rightarrow> bool" where
  "same_outside off len buf b \<longleftrightarrow> length b = length buf \<and> take off b = take off buf \<and>
     drop (off + nat len) b = drop (off + nat len) buf"

definition write_ok :: "nat \<Rightarrow> int \<Rightarrow> byte list \<Rightarrow> (int \<times> byte list) lres \<Rightarrow> bool" where
  "write_ok off len buf res \<longleftrightarrow> (case res of
     Ret (r, b) \<Rightarrow> 0 \<le> r \<and> r \<le> len \<and> same_outside off len buf b | Raise \<Rightarrow> True | Fault \<Rightarrow> False)"

lemma write_ok_simps [simp]:
  "write_ok off len buf (Ret (r, b)) \<longleftrightarrow> 0 \<le> r \<and> r \<le> len \<and> same_outside off len buf b"
  "write_ok off len buf Raise" "\<not> write_ok off len buf Fault"
  by (simp_all add: write_ok_def)

lemma write_ok_cases:
  assumes "write_ok off len buf res"
  obtains "res = Raise" | b where "res = Ret (0, b)" "same_outside off len buf b"
    | r b where "res = Ret (r, b)" "0 < r" "r \<le> len" "same_outside off len buf b"
  using assms by (cases res) (auto simp: write_ok_def order_le_less split: prod.splits)

lemma same_outside_refl [simp]: "same_outside off len buf buf"
  by (simp add: same_outside_def)

lemma same_outside_trans:
  "same_outside off len a b \<Longrightarrow> same_outside off len b c \<Longrightarrow> same_outside off len a c"
  by (simp add: same_outside_def)

lemma write_ok_trans: "same_outside off len a b \<Longrightarrow> write_ok off len b res \<Longrightarrow> write_ok off len a res"
  by (auto simp: write_ok_def intro: same_outside_trans split: lres.splits)

lemma same_outside_sub:
  assumes "same_outside (off + nat r) (len - r) buf b" "0 \<le> r" "r \<le> len"
  shows "same_outside off len buf b"
proof -
  have "off + nat r + nat (len - r) = off + nat len" using assms(2,3) by linarith
  then have e: "off + nat r + nat (len - r) = off + nat len" .
  have "take off (take (off + nat r) b) = take off (take (off + nat r) buf)"
    using assms(1) by (simp add: same_outside_def)
  then have "take off b = take off buf" by (simp add: min_def)
  then show ?thesis using assms(1) unfolding same_outside_def e by blast
qed

lemma put_outside:
  assumes "int (length bs) \<le> len" "off + nat len \<le> length buf"
  shows "\<exists>b. put buf off bs = Some b \<and> same_outside off len buf b"
proof -
  have l: "off + length bs \<le> off + nat len" using assms(1) by linarith
  have "drop (off + nat len) (take off buf @ bs @ drop (off + length bs) buf) = drop (off + nat len) buf"
    using l assms(2) by (auto simp: min_def ac_simps)
  then show ?thesis using l assms(2) by (simp add: put_def same_outside_def)
qed

locale safe_writer =
  fixes pk :: "'n packer" and good :: "'n lua_val \<Rightarrow> bool"
  assumes safe: "good v \<Longrightarrow> 0 \<le> len \<Longrightarrow> off + nat len \<le> length buf \<Longrightarrow> write_ok off len buf (pk v buf off len)"
begin

lemma safe_at:
  assumes "good v" "0 \<le> r" "r \<le> len" "off + nat len \<le> length buf"
  obtains "pk v buf (off + nat r) (len - r) = Raise"
    | b where "pk v buf (off + nat r) (len - r) = Ret (0, b)" "same_outside off len buf b"
    | c b where "pk v buf (off + nat r) (len - r) = Ret (c, b)" "0 < c" "r + c \<le> len" "same_outside off len buf b"
proof -
  have "write_ok (off + nat r) (len - r) buf (pk v buf (off + nat r) (len - r))"
    using assms by (intro safe) (simp_all add: nat_diff_distrib)
  then show thesis
    by (cases rule: write_ok_cases) (use that same_outside_sub assms(2,3) in auto)
qed

lemma array_writer_loop:
  assumes "\<And>i. \<exists>x. elem_at E v i = Some x \<and> good x" "0 \<le> r" "r \<le> len" "off + nat len \<le> length buf"
  shows "write_ok off len buf (array_pack_loop E pk v i n buf off len r)"
  using assms(2-)
proof (induction n arbitrary: i r buf)
  case 0
  then show ?case by simp
next
  case (Suc n)
  obtain x where x: "elem_at E v i = Some x" "good x" using assms(1) by blast
  from x(2) Suc.prems show ?case
  proof (cases rule: safe_at)
    case (3 c b)
    then have "write_ok off len b (array_pack_loop E pk v (i + 1) n b off len (r + c))"
      using Suc.prems by (intro Suc.IH) (auto simp: same_outside_def)
    with 3 x show ?thesis using write_ok_trans by (simp add: fetch_def)
  qed (use x Suc.prems in \<open>simp_all add: fetch_def\<close>)
qed

lemma array_writer:
  assumes "\<And>v k x. good v \<Longrightarrow> rawget v k = Some x \<Longrightarrow> good x"
  shows "safe_writer (array_pack E pk sz) good"
proof
  fix v len and off :: nat and buf :: "byte list"
  assume a: "good v" "0 \<le> (len::int)" "off + nat len \<le> length buf"
  have el: "\<exists>x. elem_at E v i = Some x \<and> good x" if "is_table v" for i
    using that assms [OF a(1)] by (cases v) (auto simp: elem_at_def)
  show "write_ok off len buf (array_pack E pk sz v buf off len)"
  proof (cases "is_table v \<and> sz = 0 \<and> 1 \<le> len")
    case True
    obtain b where b: "put buf off [word_of_int (int_of_size (objlen E v))] = Some b" "same_outside off len buf b"
      using put_outside [OF _ a(3), of "[word_of_int (int_of_size (objlen E v))]"] True by auto
    have "write_ok off len b (array_pack_loop E pk v 1 (nat (int_of_size (objlen E v))) b off len 1)"
      using True el a b(2) by (intro array_writer_loop) (auto simp: same_outside_def)
    then show ?thesis using True a b write_ok_trans [OF b(2)] by (simp add: array_pack_def fetch_def Let_def)
  next
    case False
    then show ?thesis using a el array_writer_loop [of E v 0 len off buf]
      by (auto simp: array_pack_def Let_def)
  qed
qed

end

lemma table_writer_loop:
  assumes "\<And>a. a \<in> \<Union> (field_args ` set fs) \<Longrightarrow> safe_writer (pk a) good"
    and good: "\<And>v k x. good v \<Longrightarrow> rawget v k = Some x \<Longrightarrow> good x"
    and t: "is_table t" "good t" "0 \<le> r" "r \<le> len" "off + nat len \<le> length buf"
    and k: "\<And>buf' r'. r \<le> r' \<Longrightarrow> r' \<le> len \<Longrightarrow> length buf' = length buf \<Longrightarrow>
      write_ok off len buf' (table_pack_loop rest (t # st) buf' off len r')"
  shows "write_ok off len buf (table_pack_loop (compile (map (map_leaf pk) fs) @ rest) (t # st) buf off len r)"
  using assms(1) t k
proof (induction fs arbitrary: r t st rest buf rule: compile.induct)
  case 1
  then show ?case by simp
next
  case (2 a x fs)
  obtain f where f: "t = Lua_table f" using "2.prems"(2) by (cases t) auto
  then obtain v where v: "rawget t a = Some v" "good v" using good "2.prems"(3) by auto
  have w: "safe_writer (pk x) good" using "2.prems"(1) by simp
  show ?case
  proof (cases rule: safe_writer.safe_at [OF w v(2) "2.prems"(4-6), case_names r z n, consumes 0])
    case 3: (n c b)
    have "write_ok off len b (table_pack_loop (compile (map (map_leaf pk) fs) @ rest) (t # st) b off len (r + c))"
      using "2.prems" 3 by (intro "2.IH") (auto simp: same_outside_def)
    with 3 v(1) show ?thesis using write_ok_trans by (simp add: fetch_def)
  qed (use v(1) "2.prems" in \<open>simp_all add: fetch_def\<close>)
next
  case (3 a gs fs)
  obtain f where f: "t = Lua_table f" using "3.prems"(2) by (cases t) auto
  then obtain v where v: "rawget t a = Some v" "good v" using good "3.prems"(3) by auto
  show ?case
  proof (cases "is_table v")
    case False
    then show ?thesis using v by (simp add: fetch_def)
  next
    case True
    have "write_ok off len buf' (table_pack_loop (compile (map (map_leaf pk) fs) @ rest) (t # st) buf' off len r')"
      if "r \<le> r'" "r' \<le> len" "length buf' = length buf" for buf' r'
      using "3.prems" that by (intro "3.IH"(2)) auto
    then have "write_ok off len buf (table_pack_loop (compile (map (map_leaf pk) gs) @ [Tb_end] @ compile (map (map_leaf pk) fs) @ rest)
        (v # t # st) buf off len r)"
      using "3.prems"(1,4-6) True v(2) by (intro "3.IH"(1)) auto
    then show ?thesis using v True by (simp add: fetch_def)
  qed
qed

lemma table_writer:
  assumes "\<And>a. a \<in> \<Union> (field_args ` set fs) \<Longrightarrow> safe_writer (pk a) good"
    and "\<And>v k x. good v \<Longrightarrow> rawget v k = Some x \<Longrightarrow> good x"
  shows "safe_writer (table_pack (map (map_tb_op id pk) (compile fs @ [Tb_end]))) good"
proof
  fix v len and off :: nat and buf :: "byte list"
  assume a: "good v" "0 \<le> (len::int)" "off + nat len \<le> length buf"
  show "write_ok off len buf (table_pack (map (map_tb_op id pk) (compile fs @ [Tb_end])) v buf off len)"
    unfolding table_pack_def compiled_map
    using table_writer_loop [where fs = fs and pk = pk and good = good and rest = "[Tb_end]" and st = "[]"] a assms by auto
qed

text \<open>
  The values whose strings are shorter than two gigabytes: the length of a longer one does
  not fit the C \<open>int\<close> it is converted to.
\<close>

definition short_str :: "string \<Rightarrow> bool" where
  "short_str s \<longleftrightarrow> length s < 2 ^ 31 - 3"

primrec short_val :: "'n lua_val \<Rightarrow> bool" where
  "short_val Lua_nil = True"
| "short_val (Lua_num n) = True"
| "short_val (Lua_str s) = short_str s"
| "short_val (Lua_table f) = (\<forall>k. (map_option short_val \<circ> f) k \<noteq> Some False)"
| "short_val Lua_other = True"

definition good_val :: "'n lua_env \<Rightarrow> 'n lua_val \<Rightarrow> bool" where
  "good_val E v \<longleftrightarrow> short_val v \<and> (\<forall>n. short_str (num_str E n))"

lemma good_rawget: "good_val E v \<Longrightarrow> rawget v k = Some x \<Longrightarrow> good_val E x"
  by (cases v) (auto simp: good_val_def split: option.splits)

lemma fixed_writer:
  assumes "\<And>v buf off len. good v \<Longrightarrow> pk v buf off len = Raise \<or>
    (\<exists>bs. pk v buf off len = (if int (length bs) > len then Ret (0, buf) else fetch (put buf off bs) (\<lambda>b. Ret (int (length bs), b))))"
  shows "safe_writer pk good"
proof
  fix v len and off :: nat and buf :: "byte list"
  assume a: "good v" "0 \<le> (len::int)" "off + nat len \<le> length buf"
  from assms [OF a(1), of buf off len] show "write_ok off len buf (pk v buf off len)"
  proof (elim disjE exE)
    fix bs
    assume e: "pk v buf off len = (if int (length bs) > len then Ret (0, buf) else fetch (put buf off bs) (\<lambda>b. Ret (int (length bs), b)))"
    show ?thesis
    proof (cases "int (length bs) > len")
      case True
      with e a(2) show ?thesis by simp
    next
      case False
      with put_outside [of bs len off buf] a(3) obtain b where "put buf off bs = Some b" "same_outside off len buf b" by auto
      with False e show ?thesis by (simp add: fetch_def)
    qed
  qed simp
qed

lemma number_writer: "safe_writer (pack_number E) good"
proof (rule fixed_writer)
  fix v buf off len
  show "pack_number E v buf off len = Raise \<or>
    (\<exists>bs. pack_number E v buf off len = (if int (length bs) > len then Ret (0, buf) else fetch (put buf off bs) (\<lambda>b. Ret (int (length bs), b))))"
  proof (cases v)
    case (Lua_num n)
    let ?w = "if sint (number2int E n) < 0 then - number2int E n else number2int E n"
    have "pack_number E v buf off len = Raise \<or> (\<exists>k. pack_number E v buf off len =
        (if 1 + int k > len then Ret (0, buf)
         else fetch (put buf off (number_hdr (sint (number2int E n) < 0) k # le_bytes k ?w)) (\<lambda>b. Ret (1 + int k, b))))"
      unfolding pack_number_def Let_def Lua_num lua_val.case
      by (cases "?w \<le> 0xff"; cases "?w \<le> 0xffff"; cases "?w \<le> 0xffffff"; cases "?w \<le> 0xffffffff")
        (simp_all only: if_True if_False option.case, blast+)
    then show ?thesis
    proof (elim disjE exE)
      fix k
      assume "pack_number E v buf off len =
        (if 1 + int k > len then Ret (0, buf)
         else fetch (put buf off (number_hdr (sint (number2int E n) < 0) k # le_bytes k ?w)) (\<lambda>b. Ret (1 + int k, b)))"
      then show ?thesis
        by (intro disjI2 exI [of _ "number_hdr (sint (number2int E n) < 0) k # le_bytes k ?w"]) simp
    qed simp
  qed (simp_all add: pack_number_def)
qed

lemma width_writer:
  assumes "\<And>v buf off len. pk v buf off len = (case v of
     Lua_num n \<Rightarrow> if int w > len then Ret (0, buf) else fetch (put buf off (le_bytes w (number2int E n))) (\<lambda>b. Ret (int w, b))
   | _ \<Rightarrow> Raise)"
  shows "safe_writer pk good"
proof (rule fixed_writer)
  fix v buf off len
  show "pk v buf off len = Raise \<or>
    (\<exists>bs. pk v buf off len = (if int (length bs) > len then Ret (0, buf) else fetch (put buf off bs) (\<lambda>b. Ret (int (length bs), b))))"
  proof (cases v)
    case (Lua_num n)
    show ?thesis by (rule disjI2, rule exI [of _ "le_bytes w (number2int E n)"]) (simp add: assms Lua_num)
  qed (simp_all add: assms)
qed

lemma string_writer: "safe_writer (pack_string E) (good_val E)"
proof (rule fixed_writer)
  fix v buf off len
  assume g: "good_val E v"
  show "pack_string E v buf off len = Raise \<or>
    (\<exists>bs. pack_string E v buf off len = (if int (length bs) > len then Ret (0, buf) else fetch (put buf off bs) (\<lambda>b. Ret (int (length bs), b))))"
  proof (cases "check_lstring E v")
    case None
    then show ?thesis by (simp add: pack_string_def)
  next
    case (Some s)
    with g have s: "length s < 2 ^ 31 - 3"
      by (cases v) (auto simp: good_val_def short_str_def check_lstring_def)
    have z: "int_of_size (length s + 1) = int (length s) + 1" "int_of_size (length s + 3) = int (length s) + 3"
      using s int_of_size_small [of "length s + 1"] int_of_size_small [of "length s + 3"] by simp_all
    let ?d = "map byte_of_char s" and ?i = "word_of_int (int (length s) + 1) :: 32 word"
    show ?thesis
    proof (cases "int (length s) + 1 \<le> 0xff")
      case True
      then show ?thesis unfolding pack_string_def Some option.case Let_def z
        by (intro disjI2 exI [of _ "le_bytes 1 ?i @ ?d"]) (simp add: add.commute del: le_bytes.simps)
    next
      case False
      then show ?thesis unfolding pack_string_def Some option.case Let_def z
        by (cases "int (length s) + 1 \<le> 0xffff", intro disjI2 exI [of _ "0 # le_bytes 2 ?i @ ?d"])
          (simp_all add: add.commute del: le_bytes.simps)
    qed
  qed
qed

interpretation number_out: safe_writer "pack_number E" "good_val E" for E :: "'n lua_env"
  by (rule number_writer)

interpretation string_out: safe_writer "pack_string E" "good_val E" for E :: "'n lua_env"
  by (rule string_writer)

lemma wf_writer: "wf_arg a \<Longrightarrow> safe_writer (pack E a) (good_val E)"
proof (induction rule: wf_arg.induct)
  case 2
  show ?case by (rule width_writer [where w = 1 and E = E]) (simp add: pack_byte_def split: lua_val.split)
next
  case 3
  show ?case by (rule width_writer [where w = 2 and E = E]) (simp add: pack_word_def split: lua_val.split)
next
  case 4
  show ?case by (rule width_writer [where w = 4 and E = E]) (simp add: pack_dword_def split: lua_val.split)
next
  case (6 fs ty hs)
  show ?case unfolding pack.simps
  proof (rule table_writer)
    show "safe_writer (pack E a) (good_val E)" if "a \<in> \<Union> (field_args ` set fs)" for a
      using 6 that by blast
  qed (rule good_rawget)
next
  case (7 a hs sz)
  then show ?case using safe_writer.array_writer good_rawget by fastforce
qed (simp_all add: number_writer string_writer)

subsection \<open>Reading a format\<close>

text \<open>The number of tables of a format, the root included.\<close>

fun tables :: "('n fmt_key \<times> 'n fmt) list \<Rightarrow> nat" where
  "tables [] = 1"
| "tables ((k, Fmt_table fs) # es) = tables fs + tables es"
| "tables ((k, v) # es) = tables es"

lemma tables_pos: "0 < tables es"
  by (induction es rule: tables.induct) auto

text \<open>The travel counts every table it enters, nested or not, and raises at the eleventh.\<close>

lemma travel_tableE:
  assumes "travel_table s es st = Ret st'"
  obtains st2 where "tf_deep st + 1 \<le> max_table_deep" "travel_entries s es (st\<lparr>tf_deep := tf_deep st + 1\<rparr>) = Ret st2"
    "st' = st2\<lparr>tf_ops := tf_ops st2 @ [Tb_end]\<rparr>"
  using assms by (auto simp: Let_def lbind_eq_Ret split: if_splits)

declare travel_table.simps [simp del]

text \<open>The fields that a format describes.\<close>

definition key_of_fmt :: "'n fmt_key \<Rightarrow> 'n lkey option" where
  "key_of_fmt k = (case k of Fkey_number kr \<Rightarrow> Some kr | Fkey_string s \<Rightarrow> Some (Key_str s) | Fkey_other \<Rightarrow> None)"

fun fmt_fields :: "'n arg_reg \<Rightarrow> ('n fmt_key \<times> 'n fmt) list \<Rightarrow> ('n, 'n fcall_arg) field list option" where
  "fmt_fields s [] = Some []"
| "fmt_fields s ((k, v) # es) = do {
     kr \<leftarrow> key_of_fmt k;
     x \<leftarrow> (case v of
        Fmt_number \<Rightarrow> map_option (Leaf kr) (get_arg s ''number'')
      | Fmt_string ty \<Rightarrow> map_option (Leaf kr) (get_arg s (cstr ty))
      | Fmt_table fs \<Rightarrow> map_option (Sub kr) (fmt_fields s fs)
      | Fmt_other \<Rightarrow> None);
     xs \<leftarrow> fmt_fields s es;
     Some (x # xs) }"

lemma travel_key_eq: "travel_key k st = (case key_of_fmt k of None \<Rightarrow> Raise
   | Some kr \<Rightarrow> Ret (kr, st\<lparr>tf_hash := tf_hash st @ (case k of Fkey_string t \<Rightarrow> cstr t | _ \<Rightarrow> ''number'')\<rparr>))"
  by (auto simp: travel_key_def key_of_fmt_def split: fmt_key.split)

lemmas fmt_induct = tables.induct [case_names Empty Sub_table Number Name Other]

definition travelled :: "'n arg_reg \<Rightarrow> ('n fmt_key \<times> 'n fmt) list \<Rightarrow> 'n tfmt \<Rightarrow> 'n tfmt \<Rightarrow> bool" where
  "travelled s es st st' \<longleftrightarrow> (\<exists>fs. fmt_fields s es = Some fs \<and> tf_ops st' = tf_ops st @ compile fs \<and>
     tf_deep st' + 1 = tf_deep st + tables es \<and> (tf_deep st \<le> max_table_deep \<longrightarrow> tf_deep st' \<le> max_table_deep))"

lemma travelled_leaf:
  assumes "travelled s es (st\<lparr>tf_hash := h, tf_ops := tf_ops st @ [Push_value kr (Some a)]\<rparr>) st'"
    "key_of_fmt k = Some kr" "v = Fmt_number \<and> get_arg s ''number'' = Some a \<or> v = Fmt_string ty \<and> get_arg s (cstr ty) = Some a"
  shows "travelled s ((k, v) # es) st st'"
  using assms by (auto simp: travelled_def)

lemma travel_entries_spec: "travel_entries s es st = Ret st' \<Longrightarrow> travelled s es st st'"
proof (induction es arbitrary: st st' rule: fmt_induct)
  case Empty
  then show ?case by (simp add: travelled_def)
next
  case (Sub_table k fs es)
  obtain kr where kr: "key_of_fmt k = Some kr"
    using Sub_table.prems by (cases "key_of_fmt k") (simp_all add: travel_key_eq)
  then obtain h st1 where t: "travel_table s fs (st\<lparr>tf_hash := h, tf_ops := tf_ops st @ [Tb_begin kr]\<rparr>) = Ret st1"
    "travel_entries s es st1 = Ret st'"
    using Sub_table.prems by (auto simp: travel_key_eq lbind_eq_Ret)
  obtain st2 where st2: "tf_deep st + 1 \<le> max_table_deep"
    "travel_entries s fs (st\<lparr>tf_hash := h, tf_ops := tf_ops st @ [Tb_begin kr], tf_deep := tf_deep st + 1\<rparr>) = Ret st2"
    "st1 = st2\<lparr>tf_ops := tf_ops st2 @ [Tb_end]\<rparr>"
    using travel_tableE [OF t(1)] by auto
  from Sub_table.IH(1) [OF st2(2)] Sub_table.IH(2) [OF t(2)] st2(1,3) kr show ?case
    by (auto simp: travelled_def)
next
  case (Number k es)
  then obtain kr h a where "key_of_fmt k = Some kr" "get_arg s ''number'' = Some a"
    "travel_entries s es (st\<lparr>tf_hash := h, tf_ops := tf_ops st @ [Push_value kr (Some a)]\<rparr>) = Ret st'"
    by (auto simp: travel_key_eq travel_leaf_def lbind_eq_Ret split: option.splits)
  with Number.IH show ?case by (intro travelled_leaf) auto
next
  case (Name k ty es)
  then obtain kr h a where "key_of_fmt k = Some kr" "get_arg s (cstr ty) = Some a"
    "travel_entries s es (st\<lparr>tf_hash := h, tf_ops := tf_ops st @ [Push_value kr (Some a)]\<rparr>) = Ret st'"
    by (auto simp: travel_key_eq travel_leaf_def lbind_eq_Ret split: option.splits)
  with Name.IH show ?case by (intro travelled_leaf) auto
next
  case (Other k es)
  then show ?case by (auto simp: lbind_eq_Ret)
qed

lemma travel_entries_total:
  "fmt_fields s es = Some fs \<Longrightarrow> tf_deep st + tables es \<le> max_table_deep + 1 \<Longrightarrow>
   \<exists>st'. travel_entries s es st = Ret st'"
proof (induction es arbitrary: st fs rule: fmt_induct)
  case Empty
  then show ?case by simp
next
  case (Sub_table k gs es)
  then obtain kr ys xs where f: "key_of_fmt k = Some kr" "fmt_fields s gs = Some ys" "fmt_fields s es = Some xs"
    by (auto split: bind_splits)
  let ?st = "st\<lparr>tf_hash := tf_hash st @ (case k of Fkey_string t \<Rightarrow> cstr t | _ \<Rightarrow> ''number''),
    tf_ops := tf_ops st @ [Tb_begin kr]\<rparr>"
  have d: "tf_deep st + 1 \<le> max_table_deep" using Sub_table.prems(2) tables_pos [of gs] tables_pos [of es] by simp
  obtain st1 where st1: "travel_entries s gs (?st\<lparr>tf_deep := tf_deep st + 1\<rparr>) = Ret st1"
    using Sub_table.IH(1) [OF f(2), of "?st\<lparr>tf_deep := tf_deep st + 1\<rparr>"] Sub_table.prems(2) tables_pos [of es] by auto
  have "tf_deep st1 + 1 = tf_deep st + 1 + tables gs"
    using travel_entries_spec [OF st1] by (auto simp: travelled_def)
  then obtain st2 where "travel_entries s es (st1\<lparr>tf_ops := tf_ops st1 @ [Tb_end]\<rparr>) = Ret st2"
    using Sub_table.IH(2) [OF f(3), of "st1\<lparr>tf_ops := tf_ops st1 @ [Tb_end]\<rparr>"] Sub_table.prems(2) by auto
  then show ?case using f(1) st1 d by (simp add: travel_key_eq travel_table.simps Let_def)
next
  case (Number k es)
  then show ?case by (fastforce simp: travel_key_eq travel_leaf_def split: bind_splits option.splits)
next
  case (Name k ty es)
  then show ?case by (fastforce simp: travel_key_eq travel_leaf_def split: bind_splits option.splits)
next
  case (Other k es)
  then show ?case by (auto split: bind_splits)
qed

text \<open>A format becomes a packer exactly when its entries are valid and it has at most ten tables.\<close>

lemma travel_table_spec:
  assumes "tf_ops st = []" "tf_deep st = 0"
  shows "(\<exists>st'. travel_table s es st = Ret st') \<longleftrightarrow> fmt_fields s es \<noteq> None \<and> tables es \<le> max_table_deep"
    and "travel_table s es st = Ret st' \<Longrightarrow> tf_ops st' = compile (the (fmt_fields s es)) @ [Tb_end]"
proof -
  let ?st = "st\<lparr>tf_deep := 1\<rparr>"
  have e: "travel_table s es st = lbind (travel_entries s es ?st) (\<lambda>st2. Ret (st2\<lparr>tf_ops := tf_ops st2 @ [Tb_end]\<rparr>))"
    using assms(2) by (simp add: travel_table.simps Let_def max_table_deep_def)
  have sp: "fmt_fields s es \<noteq> None \<and> tf_ops st2 = compile (the (fmt_fields s es)) \<and> tables es \<le> max_table_deep"
    if "travel_entries s es ?st = Ret st2" for st2
    using travel_entries_spec [OF that] assms(1) by (auto simp: travelled_def max_table_deep_def)
  show "(\<exists>st'. travel_table s es st = Ret st') \<longleftrightarrow> fmt_fields s es \<noteq> None \<and> tables es \<le> max_table_deep"
    using sp travel_entries_total [of s es _ ?st] by (auto simp: e lbind_eq_Ret)
  show "travel_table s es st = Ret st' \<Longrightarrow> tf_ops st' = compile (the (fmt_fields s es)) @ [Tb_end]"
    using sp by (auto simp: e lbind_eq_Ret)
qed


lemma get_arg_in: "get_arg s ty = Some a \<Longrightarrow> a \<in> set s"
  by (induction s) (auto split: if_splits)

lemma fmt_fields_args: "fmt_fields s es = Some fs \<Longrightarrow> \<Union> (field_args ` set fs) \<subseteq> set s"
proof (induction es arbitrary: fs rule: fmt_induct)
  case (Sub_table k gs es)
  then obtain kr ys xs where f: "fmt_fields s gs = Some ys" "fmt_fields s es = Some xs" "fs = Sub kr ys # xs"
    by (auto split: bind_splits)
  show ?case using Sub_table.IH(1) [OF f(1)] Sub_table.IH(2) [OF f(2)] by (simp add: f(3))
next
  case (Number k es)
  then show ?case by (fastforce split: bind_splits dest: get_arg_in)
next
  case (Name k ty es)
  then show ?case by (fastforce split: bind_splits dest: get_arg_in)
qed (auto split: bind_splits)

lemma travel_wf:
  assumes "travel_table s es st = Ret st'" "tf_ops st = []" "tf_deep st = 0" "\<forall>a \<in> set s. wf_arg a"
  shows "wf_arg (Table_arg ty hs (tf_ops st'))"
proof -
  obtain fs where fs: "fmt_fields s es = Some fs" using travel_table_spec(1) [OF assms(2,3), of s es] assms(1) by auto
  then have "tf_ops st' = compile fs @ [Tb_end]" using travel_table_spec(2) [OF assms(2,3,1)] by simp
  moreover have "wf_arg a" if "a \<in> \<Union> (field_args ` set fs)" for a
    using fmt_fields_args [OF fs] assms(4) that by blast
  ultimately show ?thesis using wf_arg.intros(6) by metis
qed

end
