(* ===== verification/Db_Buf.thy ===== *)
theory Db_Buf
  imports Contracts
begin

section \<open>mydb: the output buffer\<close>

text \<open>
  \<open>mydb/buf.h\<close> and \<open>mydb/buf.c\<close>.  A buffer is a block of \<open>total\<close> bytes with a head and a
  tail; the pointers \<open>h\<close> and \<open>t\<close> are offsets from its start, and a null result is
  \<open>None\<close>.  The caller of \<open>db_buf_alloc\<close> writes at the tail it gets and then advances it
  with \<open>db_buf_seek_tail\<close>; \<open>append_bytes\<close> is that sequence.
\<close>

record 'b db_buf =
  bh :: nat
  bt :: nat
  btotal :: nat
  bdata :: "'b list"

definition buf_left :: "'b db_buf \<Rightarrow> nat" where
  "buf_left m = btotal m - bt m"

definition buf_size :: "'b db_buf \<Rightarrow> nat" where
  "buf_size m = bt m - bh m"

definition db_buf_Clear :: "'b db_buf \<Rightarrow> 'b db_buf" where
  "db_buf_Clear m = m\<lparr>bt := 0, bh := 0\<rparr>"

definition db_buf_full :: "'b db_buf \<Rightarrow> 'b db_buf" where
  "db_buf_full m = m\<lparr>bh := 0, bt := btotal m\<rparr>"

definition db_buf_new :: "'b \<Rightarrow> nat \<Rightarrow> 'b db_buf" where
  "db_buf_new junk n = db_buf_Clear \<lparr>bh = 0, bt = 0, btotal = n, bdata = replicate n junk\<rparr>"

definition db_buf_Move :: "'b db_buf \<Rightarrow> nat \<times> 'b db_buf" where
  "db_buf_Move m =
     (let sz = buf_size m;
          d = take sz (drop (bh m) (bdata m)) @ drop sz (bdata m)
      in (sz, m\<lparr>bdata := d, bt := sz, bh := 0\<rparr>))"

definition db_buf_AllocLess :: "'b db_buf \<Rightarrow> nat \<Rightarrow> (nat option \<times> nat) \<times> 'b db_buf" where
  "db_buf_AllocLess m len =
     (let m' = (if buf_left m < len then snd (db_buf_Move m) else m);
          rlen = (if buf_left m' \<ge> len then len else buf_left m')
      in ((if 0 < rlen then Some (bt m') else None, rlen), m'))"

definition db_buf_alloc :: "'b db_buf \<Rightarrow> nat \<Rightarrow> nat option \<times> 'b db_buf" where
  "db_buf_alloc m len =
     (let m' = (if buf_left m < len then snd (db_buf_Move m) else m)
      in (if buf_left m' \<ge> len then Some (bt m') else None, m'))"

definition db_buf_seek_tail :: "'b db_buf \<Rightarrow> nat \<Rightarrow> nat option \<times> 'b db_buf" where
  "db_buf_seek_tail m len =
     (if len \<le> buf_left m then (Some (bt m + len), m\<lparr>bt := bt m + len\<rparr>) else (None, m))"

definition db_buf_seek_head :: "'b db_buf \<Rightarrow> nat \<Rightarrow> nat option \<times> 'b db_buf" where
  "db_buf_seek_head m len =
     (if len > buf_size m then (None, m)
      else let h = bh m + len; m' = m\<lparr>bh := h\<rparr> in
        (Some h, if bh m' = bt m' then db_buf_Clear m' else m'))"

definition write_at :: "'b db_buf \<Rightarrow> nat \<Rightarrow> 'b list \<Rightarrow> 'b db_buf" where
  "write_at m p bs = m\<lparr>bdata := take p (bdata m) @ bs @ drop (p + length bs) (bdata m)\<rparr>"

definition append_bytes :: "'b db_buf \<Rightarrow> 'b list \<Rightarrow> 'b db_buf option" where
  "append_bytes m bs = (case db_buf_alloc m (length bs) of
     (None, m') \<Rightarrow> None
   | (Some p, m') \<Rightarrow> Some (snd (db_buf_seek_tail (write_at m' p bs) (length bs))))"

subsection \<open>The buffer is a byte queue\<close>

definition buf_ok :: "'b db_buf \<Rightarrow> bool" where
  "buf_ok m \<longleftrightarrow> bh m \<le> bt m \<and> bt m \<le> btotal m \<and> length (bdata m) = btotal m"

definition buf_contents :: "'b db_buf \<Rightarrow> 'b list" where
  "buf_contents m = take (buf_size m) (drop (bh m) (bdata m))"

lemma length_buf_contents: "buf_ok m \<Longrightarrow> length (buf_contents m) = buf_size m"
  by (auto simp: buf_ok_def buf_contents_def buf_size_def)

lemma new_ok: "buf_ok (db_buf_new junk n)" "buf_contents (db_buf_new junk n) = []"
  by (simp_all add: buf_ok_def db_buf_new_def db_buf_Clear_def buf_contents_def buf_size_def)

lemma move_ok:
  assumes "buf_ok m"
  shows "buf_ok (snd (db_buf_Move m))" "buf_contents (snd (db_buf_Move m)) = buf_contents m"
    "btotal (snd (db_buf_Move m)) = btotal m" "bt (snd (db_buf_Move m)) = buf_size m"
  using assms by (auto simp: buf_ok_def db_buf_Move_def Let_def buf_contents_def buf_size_def min_def)

lemma alloc_ok:
  assumes "buf_ok m" "db_buf_alloc m len = (r, m')"
  shows "buf_ok m'" "buf_contents m' = buf_contents m" "btotal m' = btotal m"
    "r = Some p \<Longrightarrow> p = bt m' \<and> p + len \<le> btotal m"
    "r = None \<longleftrightarrow> btotal m < buf_size m + len"
  using assms move_ok [OF assms(1)]
  by (auto simp: db_buf_alloc_def Let_def buf_left_def buf_size_def buf_ok_def split: if_splits)

lemma write_tail_contents:
  assumes "buf_ok m" "bt m + length bs \<le> btotal m"
  shows "buf_ok (snd (db_buf_seek_tail (write_at m (bt m) bs) (length bs)))"
    "buf_contents (snd (db_buf_seek_tail (write_at m (bt m) bs) (length bs))) = buf_contents m @ bs"
proof -
  let ?m = "snd (db_buf_seek_tail (write_at m (bt m) bs) (length bs))"
  have e: "bh ?m = bh m" "bt ?m = bt m + length bs" "btotal ?m = btotal m"
    "bdata ?m = take (bt m) (bdata m) @ bs @ drop (bt m + length bs) (bdata m)"
    using assms by (auto simp: db_buf_seek_tail_def write_at_def buf_left_def)
  show "buf_ok ?m" using assms by (simp add: buf_ok_def e)
  have "drop (bh m) (take (bt m) (bdata m)) = take (bt m - bh m) (drop (bh m) (bdata m))"
    by (simp add: drop_take)
  then show "buf_contents ?m = buf_contents m @ bs"
    using assms by (simp add: buf_contents_def buf_size_def e buf_ok_def)
qed

lemma append_ok:
  assumes "buf_ok m" "append_bytes m bs = Some m'"
  shows "buf_ok m' \<and> buf_contents m' = buf_contents m @ bs"
proof -
  obtain r m1 where a: "db_buf_alloc m (length bs) = (r, m1)" by fastforce
  with assms(2) obtain p where p: "r = Some p" "m' = snd (db_buf_seek_tail (write_at m1 p bs) (length bs))"
    by (auto simp: append_bytes_def split: option.splits)
  note k = alloc_ok [OF assms(1) a]
  from k(4) [OF p(1)] k(3) write_tail_contents [OF k(1), of bs] p(2) k(2) show ?thesis by simp
qed

definition drain_head :: "'b db_buf \<Rightarrow> nat \<Rightarrow> 'b db_buf" where
  "drain_head m n = snd (db_buf_seek_head m (min n (buf_size m)))"

lemma seek_head_ok:
  assumes "buf_ok m" "len \<le> buf_size m"
  shows "buf_ok (snd (db_buf_seek_head m len))"
    "buf_contents (snd (db_buf_seek_head m len)) = drop len (buf_contents m)"
  using assms
  by (auto simp: db_buf_seek_head_def Let_def buf_ok_def buf_contents_def buf_size_def db_buf_Clear_def
      drop_take add.commute)

interpretation dbq: byte_fifo buf_contents append_bytes drain_head buf_ok
proof
  fix s :: "'a db_buf" and n
  assume "buf_ok s"
  moreover have "drop (min n (buf_size s)) (buf_contents s) = drop n (buf_contents s)"
    using length_buf_contents [OF \<open>buf_ok s\<close>] by (auto simp: min_def)
  ultimately show "buf_ok (drain_head s n) \<and> buf_contents (drain_head s n) = drop n (buf_contents s)"
    using seek_head_ok [of s "min n (buf_size s)"] by (simp add: drain_head_def)
qed (use append_ok in blast)

end
