(* ===== verification/Db_Protocol.thy ===== *)
theory Db_Protocol
  imports Db_Safe Db_Buf
begin

section \<open>mydb: protocols\<close>

text \<open>
  \<open>mydb/protocol.h\<close> and \<open>mydb/protocol.c\<close>.  A protocol object lives in a store, because
  the closures registered in the Lua table \<open>for_caller\<close> keep a pointer to it.  The result of
  running a protocol description in Lua, the functions of \<open>for_maker\<close>, the calls of Lua
  functions and the allocation of the output buffer (\<open>db_buf_alloc_pack\<close>, whose body is
  commented out) are parameters.
\<close>

subsection \<open>Checksums\<close>

fun hash_loop :: "32 word \<Rightarrow> 32 word \<Rightarrow> byte list \<Rightarrow> 32 word" where
  "hash_loop nr nr2 [] = nr"
| "hash_loop nr nr2 (c # key) =
     hash_loop (nr XOR (((nr AND 63) + nr2) * scast c + push_bit 8 nr)) (nr2 + 3) key"

definition calc_hashnr :: "byte list \<Rightarrow> 32 word" where
  "calc_hashnr key = hash_loop 1 4 key"

subsection \<open>The name of a protocol\<close>

text \<open>
  \<open>std::string::find_last_of\<close> returns \<open>npos\<close>, the largest \<open>size_t\<close>, when there is no such
  character; a \<open>size_t\<close> is never negative.
\<close>

definition npos :: nat where
  "npos = 2 ^ 64 - 1"

definition find_last_of :: "char \<Rightarrow> string \<Rightarrow> nat" where
  "find_last_of c s = (if c \<in> set s then length s - 1 - length (takeWhile (\<lambda>x. x \<noteq> c) (rev s)) else npos)"

definition substr :: "string \<Rightarrow> nat \<Rightarrow> nat \<Rightarrow> string" where
  "substr s pos n = take n (drop pos s)"

text \<open>The two tests \<open>begin_pos < 0\<close> and \<open>end_pos < 0\<close> of the code are false.\<close>

definition process_type :: "string \<Rightarrow> string \<Rightarrow> (string \<times> bool) option" where
  "process_type cur_char path =
     (let begin_pos = find_last_of (CHR 0x2F) path;
          end_pos = find_last_of (CHR 0x2E) path in
      if begin_pos \<ge> end_pos then None
      else let b = begin_pos + 1; nm = substr path b (end_pos - b) in
        if substr nm 0 2 = ''c_'' then Some (nm, cur_char = ''client'')
        else if substr nm 0 2 = ''s_'' then Some (nm, cur_char = ''server'')
        else None)"

subsection \<open>Protocol objects\<close>

record 'n proto =
  p_args :: "'n fcall_arg list"
  p_name :: string
  p_ref :: "nat option"
  p_id :: int
  p_maker :: bool
  p_pack_count :: nat
  p_unpack_count :: nat

definition net_protocol :: "int \<Rightarrow> 'n proto" where
  "net_protocol i = \<lparr>p_args = [], p_name = '''', p_ref = None, p_id = i, p_maker = False,
     p_pack_count = 0, p_unpack_count = 0\<rparr>"

text \<open>
  What a description evaluates to: the optional \<open>func_name\<close>, and the argument list, whose
  entries are (type name, optional array size).  An entry that is not a table, or whose type
  is not a string, is \<open>None\<close>.
\<close>

record proto_desc =
  d_func :: "string option"
  d_args :: "(string \<times> int option) option list option"

datatype chunk_result = Load_failed | Run_failed | No_table | Desc proto_desc

record 'n pm =
  pm_heap :: "'n proto store"
  pm_protos :: "ptr list"
  pm_reg :: "'n arg_reg"
  pm_caller :: "string \<Rightarrow> ptr option"
  pm_static :: nat
  pm_packs :: nat
  pm_unpacks :: nat

text \<open>
  How loading a description ends: with \<open>PROTO_OK\<close>, with \<open>PROTO_ERROR\<close>, or by raising a Lua error,
  which leaves the object and the manager as they are at that point.
\<close>

datatype load_end = Proto_ok | Proto_error | Proto_raised

definition func_proc ::
  "(string \<Rightarrow> nat option) option \<Rightarrow> 'n proto \<Rightarrow> ptr \<Rightarrow> 'n pm \<Rightarrow> load_end \<times> 'n proto \<times> 'n pm" where
  "func_proc makers p self m =
     (if p_maker p then
        (case makers of
           None \<Rightarrow> (Proto_raised, p, m)
         | Some fs \<Rightarrow> (case fs (p_name p) of None \<Rightarrow> (Proto_raised, p, m) | Some r \<Rightarrow> (Proto_ok, p\<lparr>p_ref := Some r\<rparr>, m)))
      else (Proto_ok, p, m\<lparr>pm_caller := (pm_caller m)(p_name p \<mapsto> self)\<rparr>))"

fun arglist_loop ::
  "(string \<times> int option) option list \<Rightarrow> 'n fcall_arg list \<Rightarrow> 'n arg_reg \<Rightarrow> (load_end \<times> 'n fcall_arg list \<times> 'n arg_reg) lres" where
  "arglist_loop [] args reg = Ret (Proto_ok, args, reg)"
| "arglist_loop (d # ds) args reg = (case d of
     None \<Rightarrow> Ret (Proto_raised, args, reg)
   | Some (ty, None) \<Rightarrow> (case get_arg reg ty of
       None \<Rightarrow> Ret (Proto_raised, args, reg)
     | Some a \<Rightarrow> arglist_loop ds (args @ [a]) reg)
   | Some (ty, Some n) \<Rightarrow>
       if n < 0 \<or> n > 255 then Ret (Proto_raised, args, reg)
       else lbind (new_array_arg reg ty (nat n)) (\<lambda>a. arglist_loop ds (args @ [a]) (add_arg reg a)))"

definition convert_protocol ::
  "(string \<Rightarrow> nat option) option \<Rightarrow> proto_desc \<Rightarrow> 'n proto \<Rightarrow> ptr \<Rightarrow> 'n pm \<Rightarrow> (load_end \<times> 'n proto \<times> 'n pm) lres" where
  "convert_protocol makers d p self m =
     (let p1 = (case d_func d of None \<Rightarrow> p | Some nm \<Rightarrow> p\<lparr>p_name := cstr nm\<rparr>);
          (e, p2, m2) = func_proc makers p1 self m in
      if e \<noteq> Proto_ok then Ret (e, p2, m2)
      else case d_args d of
        None \<Rightarrow> Ret (Proto_error, p2, m2)
      | Some ds \<Rightarrow> lbind (arglist_loop ds (p_args p2) (pm_reg m2)) (\<lambda>(e, args, reg).
          Ret (e, p2\<lparr>p_args := args\<rparr>, m2\<lparr>pm_reg := reg\<rparr>)))"

definition load ::
  "(string \<Rightarrow> nat option) option \<Rightarrow> string \<Rightarrow> (byte list \<Rightarrow> chunk_result) \<Rightarrow> string \<Rightarrow> byte list option \<Rightarrow>
   'n proto \<Rightarrow> ptr \<Rightarrow> 'n pm \<Rightarrow> (load_end \<times> 'n proto \<times> 'n pm) lres" where
  "load makers cur_char run path file p self m = (case process_type cur_char path of
     None \<Rightarrow> Ret (Proto_raised, p, m)
   | Some (nm, mk) \<Rightarrow>
       (let p1 = p\<lparr>p_name := nm, p_maker := mk\<rparr>; bs = read_file file (100 * 1024) in
        if bs = [] then Ret (Proto_raised, p1, m)
        else case run bs of
          Load_failed \<Rightarrow> Ret (Proto_raised, p1, m)
        | Run_failed \<Rightarrow> Ret (Proto_error, p1, m)
        | No_table \<Rightarrow> Ret (Proto_error, p1, m)
        | Desc d \<Rightarrow> convert_protocol makers d p1 self m))"

subsection \<open>Marshalling\<close>

definition arg_value :: "'n lua_val list \<Rightarrow> nat \<Rightarrow> 'n lua_val" where
  "arg_value vals i = (if i < length vals then vals ! i else Lua_nil)"

fun marshal_loop ::
  "'n lua_env \<Rightarrow> 'n fcall_arg list \<Rightarrow> nat \<Rightarrow> 'n lua_val list \<Rightarrow> byte list \<Rightarrow> nat \<Rightarrow> int \<Rightarrow> int \<Rightarrow> (int \<times> byte list) lres" where
  "marshal_loop E [] i vals buf off len used = Ret (used, buf)"
| "marshal_loop E (a # args) i vals buf off len used =
     lbind (pack E a (arg_value vals i) buf (off + nat used) (len - used)) (\<lambda>r.
     if fst r = 0 then Raise
     else marshal_loop E args (i + 1) vals (snd r) off len (used + fst r))"

definition marshal ::
  "'n lua_env \<Rightarrow> 'n proto \<Rightarrow> 'n lua_val list \<Rightarrow> byte list \<Rightarrow> nat \<Rightarrow> int \<Rightarrow> (int \<times> byte list) lres" where
  "marshal E p vals buf off len =
     (if p_id p = 0 then Fault
      else if p_id p < 256 then
        fetch (put buf off (le_bytes 1 (word_of_int (p_id p)))) (\<lambda>b. marshal_loop E (p_args p) 0 vals b off len 1)
      else
        fetch (put buf off (0 # le_bytes 2 (word_of_int (p_id p)))) (\<lambda>b. marshal_loop E (p_args p) 0 vals b off len 3))"

subsection \<open>Sending\<close>

text \<open>A call of the send hook: the bytes, the destination or the number of them, and the two flags.\<close>

record sent =
  s_data :: "byte list"
  s_ext :: int
  s_multi :: bool
  s_payload :: int

definition vfd_null :: int where
  "vfd_null = 200000"

definition maxtonetd :: nat where
  "maxtonetd = 32768"

datatype dest = To_one int | To_many "int list" | To_other

text \<open>The loop over the destinations of a multicast: the buffer, the write position, \<open>c\<close> and \<open>t\<close>.\<close>

fun multicast_loop :: "int list \<Rightarrow> byte list \<Rightarrow> nat \<Rightarrow> nat \<Rightarrow> nat \<Rightarrow> nat \<Rightarrow> (byte list \<times> nat \<times> nat) option" where
  "multicast_loop [] data base pos c t = Some (data, c, t)"
| "multicast_loop (d # ds) data base pos c t =
     (if d > vfd_null then
        (if pos + 4 \<le> base + maxtonetd then do {
           data' \<leftarrow> put data pos (le_bytes 4 (word_of_int d));
           multicast_loop ds data' base (pos + 4) (c + 1) (t + 1) }
         else multicast_loop ds data base pos c (t + 1))
      else multicast_loop ds data base pos c t)"

text \<open>
  \<open>net_protocol::pack\<close>: \<open>alloc\<close> is the result of \<open>db_buf_alloc_pack\<close>, a buffer and the
  offset of its free space.  The result is the calls of the send hook.
\<close>

definition proto_pack ::
  "'n lua_env \<Rightarrow> 'n proto \<Rightarrow> dest \<Rightarrow> 'n lua_val list \<Rightarrow> (byte list \<times> nat) option \<Rightarrow> sent list lres" where
  "proto_pack E p d vals alloc = (case d of
     To_one ext \<Rightarrow>
       if vfd_null \<ge> ext then Ret []
       else (case alloc of
         None \<Rightarrow> Ret []
       | Some (buf, off) \<Rightarrow> lbind (marshal E p vals buf off (int maxtonetd)) (\<lambda>r.
           if fst r > 0
           then fetch (get (snd r) off (nat (fst r))) (\<lambda>bs. Ret [\<lparr>s_data = bs, s_ext = ext, s_multi = False, s_payload = 0\<rparr>])
           else Ret []))
   | To_many ds \<Rightarrow>
       if ds = [] then Ret []
       else (case alloc of
         None \<Rightarrow> Ret []
       | Some (buf, off) \<Rightarrow> lbind (marshal E p vals buf off (int maxtonetd)) (\<lambda>r.
           if fst r > 0
           then fetch (multicast_loop ds (snd r) off (off + nat (fst r)) 0 0) (\<lambda>q. case q of (data, c, t) \<Rightarrow>
             if c > 0
             then fetch (get data off (nat (fst r) + c * 4)) (\<lambda>bs.
               Ret [\<lparr>s_data = bs, s_ext = int c, s_multi = True, s_payload = fst r\<rparr>])
             else Ret [])
           else Ret []))
   | To_other \<Rightarrow> Ret [])"

text \<open>\<open>send_pack_data\<close> copies the caller's string without comparing its length to the buffer's.\<close>

definition send_pack_data :: "int \<Rightarrow> byte list \<Rightarrow> (byte list \<times> nat) option \<Rightarrow> sent list lres" where
  "send_pack_data vfd data alloc =
     (if data = [] then Ret []
      else case alloc of
        None \<Rightarrow> Ret []
      | Some (buf, off) \<Rightarrow> fetch (put buf off data) (\<lambda>b.
          Ret [\<lparr>s_data = data, s_ext = vfd, s_multi = False, s_payload = 0\<rparr>]))"

definition pack_protocol ::
  "'n lua_env \<Rightarrow> 'n proto \<Rightarrow> 'n lua_val list \<Rightarrow> (byte list \<times> nat) option \<Rightarrow> byte list option lres" where
  "pack_protocol E p vals alloc = (case alloc of
     None \<Rightarrow> Ret None
   | Some (buf, off) \<Rightarrow> lbind (marshal E p vals buf off (int maxtonetd)) (\<lambda>r.
       fetch (get (snd r) off (nat (fst r))) (\<lambda>bs. Ret (Some bs))))"

subsection \<open>Unpacking\<close>

definition xynet_error_unpack_format :: int where
  "xynet_error_unpack_format = -1"

definition xynet_error_unpack_script :: int where
  "xynet_error_unpack_script = -2"

fun unpack_args ::
  "'n lua_env \<Rightarrow> 'n fcall_arg list \<Rightarrow> byte list \<Rightarrow> nat \<Rightarrow> int \<Rightarrow> int \<Rightarrow> 'n lua_val list \<Rightarrow> (int \<times> 'n lua_val list) option lres" where
  "unpack_args E [] buf off len readed vals = Ret (Some (readed, vals))"
| "unpack_args E (a # args) buf off len readed vals =
     lbind (unpack E a buf (off + nat readed) (len - readed)) (\<lambda>r.
     if fst r = 0 then Ret None
     else fetch (snd r) (\<lambda>v. unpack_args E args buf off len (readed + fst r) (vals @ [v])))"

text \<open>
  A call of a Lua function is recorded as (reference, \<open>ext\<close>, arguments); \<open>lua_ok\<close> is whether
  it succeeds.
\<close>

definition proto_unpack ::
  "'n lua_env \<Rightarrow> (nat \<Rightarrow> int \<Rightarrow> 'n lua_val list \<Rightarrow> bool) \<Rightarrow> 'n proto \<Rightarrow> byte list \<Rightarrow> nat \<Rightarrow> int \<Rightarrow> int \<Rightarrow>
   (int \<times> (nat \<times> int \<times> 'n lua_val list) list) lres" where
  "proto_unpack E lua_ok p buf off len ext = (case p_ref p of
     None \<Rightarrow> Ret (xynet_error_unpack_format, [])
   | Some f \<Rightarrow> lbind (unpack_args E (p_args p) buf off len 0 []) (\<lambda>r. case r of
       None \<Rightarrow> Ret (xynet_error_unpack_format, [])
     | Some (readed, vals) \<Rightarrow>
         Ret (if lua_ok f ext vals then readed else xynet_error_unpack_script, [(f, ext, vals)])))"

definition proto_id_at :: "byte list \<Rightarrow> nat \<Rightarrow> int \<Rightarrow> (nat \<times> int) option lres" where
  "proto_id_at buf off len =
     (if 1 > len then Ret None
      else fetch (get buf off 1) (\<lambda>h.
        if unat (hd h) = 0 then
          (if 3 > len then Ret None
           else fetch (get buf (off + 1) 2) (\<lambda>ws. Ret (Some (unat (le_word ws), 3))))
        else Ret (Some (unat (hd h), 1))))"

definition unpack_data ::
  "'n lua_env \<Rightarrow> (nat \<Rightarrow> int \<Rightarrow> 'n lua_val list \<Rightarrow> bool) \<Rightarrow> 'n pm \<Rightarrow> byte list \<Rightarrow> nat \<Rightarrow> int \<Rightarrow> int \<Rightarrow>
   (int \<times> (nat \<times> int \<times> 'n lua_val list) list) lres" where
  "unpack_data E lua_ok m buf off len ext =
     lbind (proto_id_at buf off len) (\<lambda>r. case r of
       None \<Rightarrow> Ret (0, [])
     | Some (i, readed) \<Rightarrow>
         if i \<ge> length (pm_protos m) then Ret (xynet_error_unpack_format, [])
         else if pm_protos m ! i = Null then Ret (xynet_error_unpack_format, [])
         else fetch (deref (pm_heap m) (pm_protos m ! i)) (\<lambda>p.
           lbind (proto_unpack E lua_ok p buf (off + nat readed) (len - readed) ext) (\<lambda>q.
             if fst q < 0 then Ret q
             else if fst q = 0 \<and> p_args p \<noteq> [] then Ret (xynet_error_unpack_format, snd q)
             else Ret (readed + fst q, snd q))))"

subsection \<open>proto\_manager\<close>

text \<open>
  How a registration ends: with an id, without effect, or by raising after the object was
  created; then a new object that is not in the table is left behind, unless \<open>update_protocol\<close>
  itself raised, which deletes it first.
\<close>

datatype reg_result = Registered nat | Ignored | Raised

text \<open>\<open>new\<close> returns the address it is given, which must be free.\<close>

definition new_proto :: "nat \<Rightarrow> 'n proto \<Rightarrow> 'n pm \<Rightarrow> 'n pm option" where
  "new_proto a p m = (if pm_heap m a = None then Some (m\<lparr>pm_heap := (pm_heap m)(a \<mapsto> p)\<rparr>) else None)"

definition proto_manager :: "nat \<Rightarrow> 'n pm \<Rightarrow> 'n pm lres" where
  "proto_manager a m =
     (let m1 = m\<lparr>pm_reg := reg_init (pm_reg m)\<rparr> in
      if pm_protos m1 = [] then
        fetch (new_proto a (net_protocol 0) m1) (\<lambda>m2. Ret (m2\<lparr>pm_protos := [Ptr a]\<rparr>))
      else Ret m1)"

definition add_protocol ::
  "(string \<Rightarrow> nat option) option \<Rightarrow> string \<Rightarrow> (byte list \<Rightarrow> chunk_result) \<Rightarrow> nat \<Rightarrow> string \<Rightarrow> byte list option \<Rightarrow>
   'n pm \<Rightarrow> (reg_result \<times> 'n pm) lres" where
  "add_protocol makers cur_char run a path file m =
     (if pm_protos m = [] then Fault
      else let i = length (pm_protos m) in
      fetch (new_proto a (net_protocol (int i)) m) (\<lambda>m1.
      lbind (load makers cur_char run path file (net_protocol (int i)) (Ptr a) m1) (\<lambda>(e, p, m2).
        if e = Proto_ok
        then Ret (Registered i, m2\<lparr>pm_heap := (pm_heap m2)(a \<mapsto> p), pm_protos := pm_protos m2 @ [Ptr a]\<rparr>)
        else Ret (Raised, m2\<lparr>pm_heap := (pm_heap m2)(a \<mapsto> p)\<rparr>))))"

definition add_static_protocol ::
  "(string \<Rightarrow> nat option) option \<Rightarrow> string \<Rightarrow> (byte list \<Rightarrow> chunk_result) \<Rightarrow> nat \<Rightarrow> string \<Rightarrow> byte list option \<Rightarrow>
   'n pm \<Rightarrow> (reg_result \<times> 'n pm) lres" where
  "add_static_protocol makers cur_char run a path file m =
     lbind (add_protocol makers cur_char run a path file m) (\<lambda>r. case fst r of
       Registered i \<Rightarrow> Ret (fst r, (snd r)\<lparr>pm_static := pm_static (snd r) + 1\<rparr>)
     | _ \<Rightarrow> Ret r)"

definition update_protocol ::
  "(string \<Rightarrow> nat option) option \<Rightarrow> string \<Rightarrow> (byte list \<Rightarrow> chunk_result) \<Rightarrow> nat \<Rightarrow> nat \<Rightarrow> string \<Rightarrow> byte list option \<Rightarrow>
   'n pm \<Rightarrow> (reg_result \<times> 'n pm) lres" where
  "update_protocol makers cur_char run a i path file m =
     (if i \<ge> length (pm_protos m) then Ret (Ignored, m)
      else if pm_protos m ! i = Null then Fault
      else fetch (new_proto a (net_protocol (int i)) m) (\<lambda>m1.
      lbind (load makers cur_char run path file (net_protocol (int i)) (Ptr a) m1) (\<lambda>(e, p, m2). case e of
        Proto_ok \<Rightarrow> fetch (dispose (pm_heap m2) (pm_protos m2 ! i)) (\<lambda>h.
          Ret (Registered i, m2\<lparr>pm_heap := h(a \<mapsto> p), pm_protos := (pm_protos m2)[i := Ptr a]\<rparr>))
      | Proto_error \<Rightarrow> Ret (Raised, m2\<lparr>pm_heap := (pm_heap m2)(a := None)\<rparr>)
      | Proto_raised \<Rightarrow> Ret (Raised, m2\<lparr>pm_heap := (pm_heap m2)(a \<mapsto> p)\<rparr>))))"

text \<open>\<open>call_closure\<close>: the script calls \<open>for_caller[nm]\<close>, whose upvalue is the object's address.\<close>

definition call_closure ::
  "'n lua_env \<Rightarrow> 'n pm \<Rightarrow> string \<Rightarrow> dest \<Rightarrow> 'n lua_val list \<Rightarrow> (byte list \<times> nat) option \<Rightarrow> (sent list \<times> 'n pm) lres" where
  "call_closure E m nm d vals alloc = (case pm_caller m nm of
     None \<Rightarrow> Raise
   | Some q \<Rightarrow> fetch (deref (pm_heap m) q) (\<lambda>p.
       fetch (assign (pm_heap m) q (\<lambda>p. p\<lparr>p_pack_count := p_pack_count p + 1\<rparr>)) (\<lambda>h.
       lbind (proto_pack E p d vals alloc) (\<lambda>ss.
         Ret (ss, m\<lparr>pm_heap := h, pm_packs := pm_packs m + 1\<rparr>)))))"

definition get_check_id :: "'n proto \<Rightarrow> 32 word" where
  "get_check_id p = calc_hashnr (map byte_of_char
     (p_name p @ concat (map (\<lambda>a. get_type a @ get_hashstr a) (p_args p))))"

definition check_id_at :: "'n pm \<Rightarrow> ptr \<Rightarrow> 32 word option" where
  "check_id_at m q = (if q = Null then Some 0 else map_option get_check_id (deref (pm_heap m) q))"

fun check_ids :: "'n pm \<Rightarrow> ptr list \<Rightarrow> byte list option" where
  "check_ids m [] = Some []"
| "check_ids m (q # qs) = do {
     w \<leftarrow> check_id_at m q;
     bs \<leftarrow> check_ids m qs;
     Some (le_bytes 4 w @ bs) }"

definition get_ptos_checkid :: "'n pm \<Rightarrow> 32 word option" where
  "get_ptos_checkid m = map_option calc_hashnr (check_ids m (pm_protos m))"

subsection \<open>A message goes through\<close>

fun enc_list :: "'n lua_env \<Rightarrow> 'n fcall_arg list \<Rightarrow> 'n lua_val list \<Rightarrow> byte list \<Rightarrow> bool" where
  "enc_list E [] vals bs \<longleftrightarrow> vals = [] \<and> bs = []"
| "enc_list E (a # args) vals bs \<longleftrightarrow> (\<exists>v vs b1 b2. vals = v # vs \<and> bs = b1 @ b2 \<and> encodes E a v b1 \<and> enc_list E args vs b2)"

lemma marshal_loop_ok:
  assumes "enc_list E args (drop i vals) bs" "0 \<le> used" "used + int (length bs) \<le> len"
    "put buf (off + nat used) bs = Some b"
  shows "marshal_loop E args i vals buf off len used = Ret (used + int (length bs), b)"
  using assms
proof (induction args arbitrary: i bs used buf)
  case Nil
  then show ?case by (auto dest!: put_Some)
next
  case (Cons a args)
  then obtain v vs b1 b2 where v: "drop i vals = v # vs" "bs = b1 @ b2" "encodes E a v b1" "enc_list E args vs b2"
    by auto
  have i: "i < length vals" using v(1) by (metis drop_all linorder_not_le list.distinct(1))
  then have vi: "arg_value vals i = v" "vs = drop (i + 1) vals"
    using v(1) by (simp_all add: arg_value_def Cons_nth_drop_Suc [symmetric])
  obtain m where m: "put buf (off + nat used) b1 = Some m" "put m (off + nat used + length b1) b2 = Some b"
    using put_append Cons.prems(4) v(2) by blast
  have "pack E a v buf (off + nat used) (len - used) = Ret (int (length b1), m)"
    using Cons.prems v(2) m(1) by (intro arg.pack_ok v(3)) simp_all
  moreover have "b1 \<noteq> []" using arg.nonempty v(3) .
  moreover have "marshal_loop E args (i + 1) vals m off len (used + int (length b1)) =
      Ret (used + int (length b1) + int (length b2), b)"
    using Cons.prems v m vi by (intro Cons.IH) (simp_all add: nat_add_distrib add.assoc)
  ultimately show ?case using v(2) vi(1) by simp
qed

lemma unpack_args_ok:
  assumes "enc_list E args vs bs" "0 \<le> r" "r + int (length bs) \<le> len" "get buf (off + nat r) (length bs) = Some bs"
  shows "unpack_args E args buf off len r vals = Ret (Some (r + int (length bs), vals @ vs))"
  using assms
proof (induction args arbitrary: vs bs r vals)
  case Nil
  then show ?case by simp
next
  case (Cons a args)
  then obtain v ws b1 b2 where v: "vs = v # ws" "bs = b1 @ b2" "encodes E a v b1" "enc_list E args ws b2"
    by auto
  have g: "get buf (off + nat r) (length b1) = Some b1" "get buf (off + nat r + length b1) (length b2) = Some b2"
    using get_append Cons.prems(4) v(2) by blast+
  have "unpack E a buf (off + nat r) (len - r) = Ret (int (length b1), Some v)"
    using Cons.prems v(2) g(1) by (intro arg.unpack_ok v(3)) simp_all
  moreover have "b1 \<noteq> []" using arg.nonempty v(3) .
  moreover have "unpack_args E args buf off len (r + int (length b1)) (vals @ [v]) =
      Ret (Some (r + int (length b1) + int (length b2), (vals @ [v]) @ ws))"
    using Cons.prems v g by (intro Cons.IH) (simp_all add: nat_add_distrib add.assoc)
  ultimately show ?case using v(1,2) by (simp add: fetch_def)
qed

definition id_bytes :: "nat \<Rightarrow> byte list" where
  "id_bytes i = (if i < 256 then [word_of_nat i] else 0 # le_bytes 2 (word_of_nat i))"

lemma marshal_ok:
  assumes "p_id p = int i" "0 < i" "enc_list E (p_args p) vals bs" "int (length (id_bytes i @ bs)) \<le> len"
    "put buf off (id_bytes i @ bs) = Some b"
  shows "marshal E p vals buf off len = Ret (int (length (id_bytes i @ bs)), b)"
proof -
  obtain m where m: "put buf off (id_bytes i) = Some m" "put m (off + length (id_bytes i)) bs = Some b"
    using put_append assms(5) by blast
  show ?thesis
  proof (cases "i < 256")
    case True
    have "le_bytes 1 (word_of_int (int i)) = [word_of_nat i]" by (rule le_bytes_1)
    moreover have "marshal_loop E (p_args p) 0 vals m off len 1 = Ret (1 + int (length bs), b)"
      using assms(3,4) m(2) True by (intro marshal_loop_ok) (simp_all add: id_bytes_def)
    ultimately show ?thesis
      using True m(1) assms(1,2) by (simp add: marshal_def id_bytes_def fetch_def del: le_bytes.simps)
  next
    case False
    have "marshal_loop E (p_args p) 0 vals m off len 3 = Ret (3 + int (length bs), b)"
      using assms(3,4) m(2) False by (intro marshal_loop_ok) (simp_all add: id_bytes_def)
    then show ?thesis
      using False m(1) assms(1,2) by (simp add: marshal_def id_bytes_def fetch_def del: le_bytes.simps)
  qed
qed

lemma proto_id_ok:
  assumes "0 < i" "i < 65536" "int (length (id_bytes i)) \<le> len" "get buf off (length (id_bytes i)) = Some (id_bytes i)"
  shows "proto_id_at buf off len = Ret (Some (i, int (length (id_bytes i))))"
proof (cases "i < 256")
  case True
  then have "unat (word_of_nat i :: byte) = i" by (simp add: unsigned_of_nat take_bit_nat_eq_self)
  with True assms show ?thesis by (simp add: proto_id_at_def id_bytes_def fetch_def)
next
  case False
  have "uint (word_of_nat i :: 32 word) < 2 ^ 16" using uint_of_nat_small [of i, where 'a = 32] assms(2) by simp
  then have w: "le_word (le_bytes 2 (word_of_nat i)) = word_of_nat i" by (intro le_word_bytes_small) simp
  have g: "get buf off 1 = Some [0]" "get buf (off + 1) 2 = Some (le_bytes 2 (word_of_nat i))"
    using get_cons [of buf off "le_bytes 2 (word_of_nat i)" 0] assms(4) False by (simp_all add: id_bytes_def)
  have "unat (word_of_nat i :: 32 word) = i" using assms(2) by (simp add: unsigned_of_nat take_bit_nat_eq_self)
  with w g assms(3) False show ?thesis
    by (simp add: proto_id_at_def id_bytes_def fetch_def del: le_bytes.simps)
qed

lemma unpack_data_ok:
  assumes i: "0 < i" "i < 65536" "i < length (pm_protos m)" "pm_protos m ! i = Ptr a" "pm_heap m a = Some p"
    and f: "p_ref p = Some f" and e: "enc_list E (p_args p) vals bs"
    and g: "get buf off (length (id_bytes i @ bs)) = Some (id_bytes i @ bs)"
    and len: "int (length (id_bytes i @ bs)) \<le> len"
  shows "unpack_data E lua_ok m buf off len ext =
    Ret (if lua_ok f ext vals then int (length (id_bytes i @ bs)) else xynet_error_unpack_script, [(f, ext, vals)])"
proof -
  let ?n = "length (id_bytes i)"
  have g': "get buf off ?n = Some (id_bytes i)" "get buf (off + ?n) (length bs) = Some bs"
    using get_append g by blast+
  have id: "proto_id_at buf off len = Ret (Some (i, int ?n))"
    using i g'(1) len by (intro proto_id_ok) simp_all
  have "unpack_args E (p_args p) buf (off + ?n) (len - int ?n) 0 [] = Ret (Some (0 + int (length bs), [] @ vals))"
    using e g'(2) len by (intro unpack_args_ok) simp_all
  moreover have "bs = [] \<longleftrightarrow> p_args p = []"
  proof (cases "p_args p")
    case (Cons a args)
    with e obtain v b1 b2 where "bs = b1 @ b2" "encodes E a v b1" by auto
    with Cons arg.nonempty show ?thesis by auto
  qed (use e in simp)
  ultimately show ?thesis
    using id i f by (auto simp: unpack_data_def proto_unpack_def fetch_def xynet_error_unpack_script_def Let_def)
qed

subsection \<open>Arbitrary input\<close>

lemma unpack_args_safe:
  assumes "\<forall>a \<in> set args. wf_arg a" "0 \<le> r" "r \<le> len" "off + nat len \<le> length buf"
  shows "unpack_args E args buf off len r vals = Ret None \<or>
    (\<exists>r' vs. unpack_args E args buf off len r vals = Ret (Some (r', vs)) \<and> r \<le> r' \<and> r' \<le> len \<and>
      (args \<noteq> [] \<longrightarrow> r < r') \<and> length vs = length vals + length args)"
  using assms
proof (induction args arbitrary: r vals)
  case Nil
  then show ?case by simp
next
  case (Cons a args)
  have "safe_reader (unpack E a)" using Cons.prems(1) by (intro wf_reader) simp
  from safe_reader.safe_at [OF this Cons.prems(2-4)] show ?case
  proof (cases rule: read_ok_cases)
    case (2 c v)
    with Cons.prems Cons.IH [of "r + c" "vals @ [v]"] show ?thesis by (auto simp: fetch_def)
  qed (use Cons.prems in simp_all)
qed

text \<open>
  A message from the network: whatever its bytes, nothing outside it is read, and the result
  is an error code or a number of bytes that the message has.
\<close>

definition pm_ok :: "'n pm \<Rightarrow> bool" where
  "pm_ok m \<longleftrightarrow> (\<forall>a \<in> set (pm_reg m). wf_arg a) \<and>
     (\<forall>q \<in> set (pm_protos m). \<exists>p. deref (pm_heap m) q = Some p \<and> (\<forall>a \<in> set (p_args p). wf_arg a))"

lemma proto_id_safe:
  assumes "0 \<le> len" "off + nat len \<le> length buf"
  shows "proto_id_at buf off len = Ret None \<or>
    (\<exists>i r. proto_id_at buf off len = Ret (Some (i, r)) \<and> 0 < r \<and> r \<le> len)"
proof (cases "1 > len")
  case True
  then show ?thesis by (simp add: proto_id_at_def)
next
  case False
  then obtain h where h: "get buf off 1 = Some h" using get_fits [OF _ assms(2), of 0 1] by auto
  show ?thesis
  proof (cases "3 > len")
    case True
    with h False show ?thesis by (simp add: proto_id_at_def fetch_def)
  next
    case l: False
    then obtain ws where "get buf (off + 1) 2 = Some ws" using get_fits [OF _ assms(2), of 1 2] by auto
    with h False l show ?thesis by (simp add: proto_id_at_def fetch_def)
  qed
qed

definition data_ok :: "int \<Rightarrow> (int \<times> 'a) lres \<Rightarrow> bool" where
  "data_ok len res \<longleftrightarrow> (case res of
     Ret (r, cs) \<Rightarrow> r = xynet_error_unpack_format \<or> r = xynet_error_unpack_script \<or> 0 \<le> r \<and> r \<le> len
   | Raise \<Rightarrow> False | Fault \<Rightarrow> False)"

lemma data_ok_simps [simp]:
  "data_ok len (Ret (r, cs)) \<longleftrightarrow> r = xynet_error_unpack_format \<or> r = xynet_error_unpack_script \<or> 0 \<le> r \<and> r \<le> len"
  "\<not> data_ok len Raise" "\<not> data_ok len Fault"
  by (simp_all add: data_ok_def)

lemma unpack_data_safe:
  assumes "pm_ok m" "0 \<le> len" "off + nat len \<le> length buf"
  shows "data_ok len (unpack_data E lua_ok m buf off len ext)"
proof -
  from proto_id_safe [OF assms(2,3)] show ?thesis
  proof (elim disjE exE conjE)
    assume "proto_id_at buf off len = Ret None"
    then show ?thesis using assms(2) by (simp add: unpack_data_def)
  next
    fix i r
    assume r: "proto_id_at buf off len = Ret (Some (i, r))" "0 < r" "r \<le> len"
    show ?thesis
    proof (cases "i \<ge> length (pm_protos m) \<or> pm_protos m ! i = Null")
      case True
      with r show ?thesis by (auto simp: unpack_data_def)
    next
      case False
      then have "pm_protos m ! i \<in> set (pm_protos m)" by simp
      then obtain p where p: "deref (pm_heap m) (pm_protos m ! i) = Some p" "\<forall>a \<in> set (p_args p). wf_arg a"
        using assms(1) unfolding pm_ok_def by blast
      show ?thesis
      proof (cases "p_ref p")
        case None
        with False p r show ?thesis
          by (simp add: unpack_data_def proto_unpack_def fetch_def xynet_error_unpack_format_def)
      next
        case (Some f)
        have "off + nat r + nat (len - r) \<le> length buf" using assms(3) r(2,3) by (simp add: nat_diff_distrib)
        from unpack_args_safe [OF p(2), of 0 "len - r" "off + nat r" buf E "[]"] this r(3)
        have "unpack_args E (p_args p) buf (off + nat r) (len - r) 0 [] = Ret None \<or>
            (\<exists>r' vs. unpack_args E (p_args p) buf (off + nat r) (len - r) 0 [] = Ret (Some (r', vs)) \<and> 0 \<le> r' \<and>
              r' \<le> len - r \<and> (p_args p \<noteq> [] \<longrightarrow> 0 < r'))"
          by auto
        with False p(1) r Some show ?thesis
          by (elim disjE exE conjE) (simp_all add: unpack_data_def proto_unpack_def fetch_def
              xynet_error_unpack_format_def xynet_error_unpack_script_def split: if_split)
      qed
    qed
  qed
qed

lemma marshal_loop_safe:
  assumes "\<forall>a \<in> set args. wf_arg a" "\<And>j. good_val E (arg_value vals j)" "0 \<le> r" "r \<le> len" "off + nat len \<le> length buf"
  shows "marshal_loop E args i vals buf off len r = Raise \<or>
    (\<exists>r' b. marshal_loop E args i vals buf off len r = Ret (r', b) \<and> r \<le> r' \<and> r' \<le> len \<and> same_outside off len buf b)"
  using assms(1,3-)
proof (induction args arbitrary: i r buf)
  case Nil
  then show ?case by simp
next
  case (Cons a args)
  have w: "safe_writer (pack E a) (good_val E)" using Cons.prems(1) by (intro wf_writer) simp
  show ?case
  proof (cases rule: safe_writer.safe_at [OF w assms(2) Cons.prems(2-4), of i, case_names r z n, consumes 0])
    case (n c b)
    have "marshal_loop E args (i + 1) vals b off len (r + c) = Raise \<or>
      (\<exists>r' b'. marshal_loop E args (i + 1) vals b off len (r + c) = Ret (r', b') \<and> r + c \<le> r' \<and> r' \<le> len \<and> same_outside off len b b')"
      using Cons.prems n by (intro Cons.IH) (auto simp: same_outside_def)
    with n show ?thesis by (auto intro: same_outside_trans)
  qed simp_all
qed

lemma marshal_safe:
  assumes "\<forall>a \<in> set (p_args p). wf_arg a" "\<And>j. good_val E (arg_value vals j)" "0 < p_id p" "3 \<le> len"
    "off + nat len \<le> length buf"
  shows "marshal E p vals buf off len = Raise \<or>
    (\<exists>r b. marshal E p vals buf off len = Ret (r, b) \<and> 0 < r \<and> r \<le> len \<and> same_outside off len buf b)"
proof -
  define hdr where "hdr = (if p_id p < 256 then le_bytes 1 (word_of_int (p_id p)) else 0 # le_bytes 2 (word_of_int (p_id p)))"
  have h: "int (length hdr) = (if p_id p < 256 then 1 else 3)" by (simp add: hdr_def del: le_bytes.simps)
  then have "int (length hdr) \<le> len" using assms(4) by simp
  then obtain c where c: "put buf off hdr = Some c" "same_outside off len buf c"
    using put_outside assms(5) by blast
  then have "off + nat len \<le> length c" using assms(5) by (simp add: same_outside_def)
  moreover have "marshal E p vals buf off len = marshal_loop E (p_args p) 0 vals c off len (int (length hdr))"
    using c(1) assms(3) h by (auto simp: marshal_def hdr_def fetch_def simp del: le_bytes.simps split: if_splits)
  ultimately show ?thesis
    using marshal_loop_safe [OF assms(1,2), of "int (length hdr)" len off c 0] h assms(4) c(2)
    by (fastforce intro: same_outside_trans split: if_splits)
qed

subsection \<open>Protocol names\<close>

lemma find_last_of_append:
  assumes "c \<notin> set t"
  shows "find_last_of c (s @ c # t) = length s"
proof -
  have "takeWhile (\<lambda>x. x \<noteq> c) (rev (s @ c # t)) = rev t"
    using assms by (simp add: takeWhile_append)
  then show ?thesis by (simp add: find_last_of_def)
qed

lemma find_last_of_none: "c \<notin> set s \<Longrightarrow> find_last_of c s = npos"
  by (simp add: find_last_of_def)

lemma process_type_path:
  assumes "CHR 0x2F \<notin> set base" "CHR 0x2F \<notin> set ext" "CHR 0x2E \<notin> set ext" "substr base 0 2 \<in> {''c_'', ''s_''}"
  shows "process_type cur (dir @ CHR 0x2F # base @ CHR 0x2E # ext) =
    Some (base, cur = (if substr base 0 2 = ''c_'' then ''client'' else ''server''))"
proof -
  let ?p = "dir @ CHR 0x2F # base @ CHR 0x2E # ext"
  have "CHR 0x2F \<notin> set (base @ CHR 0x2E # ext)" using assms(1,2) by simp
  then have b: "find_last_of (CHR 0x2F) ?p = length dir" by (rule find_last_of_append)
  have e: "find_last_of (CHR 0x2E) ?p = length dir + 1 + length base"
    using find_last_of_append [OF assms(3), of "dir @ CHR 0x2F # base"] by simp
  have "substr ?p (length dir + 1) (length dir + 1 + length base - (length dir + 1)) = base"
    by (simp add: substr_def)
  then show ?thesis using assms(4) by (auto simp: process_type_def Let_def b e)
qed

text \<open>A path without a slash is rejected, even when it has backslashes; one without a dot is not.\<close>

lemma process_type_no_slash:
  assumes "CHR 0x2F \<notin> set path" "length path \<le> npos"
  shows "process_type cur path = None"
proof -
  have "find_last_of (CHR 0x2E) path \<le> npos"
    using assms(2) by (auto simp: find_last_of_def intro: le_trans [OF diff_le_self])
  then show ?thesis by (simp add: process_type_def find_last_of_none [OF assms(1)])
qed

lemma process_type_no_dot:
  assumes "CHR 0x2F \<notin> set base" "CHR 0x2E \<notin> set (dir @ base)" "substr base 0 2 = ''c_''"
    "length dir + length base < npos"
  shows "process_type cur (dir @ CHR 0x2F # base) = Some (base, cur = ''client'')"
proof -
  have b: "find_last_of (CHR 0x2F) (dir @ CHR 0x2F # base) = length dir"
    using assms(1) by (rule find_last_of_append)
  have e: "find_last_of (CHR 0x2E) (dir @ CHR 0x2F # base) = npos"
    using assms(2) by (intro find_last_of_none) auto
  have "substr (dir @ CHR 0x2F # base) (length dir + 1) (npos - (length dir + 1)) = base"
    using assms(4) by (simp add: substr_def)
  then show ?thesis using assms(3,4) by (simp add: process_type_def Let_def b e)
qed

subsection \<open>Sending\<close>

lemma send_pack_data_overflow:
  assumes "length data > maxtonetd" "off + maxtonetd = length buf"
  shows "send_pack_data vfd data (Some (buf, off)) = Fault"
  using assms by (cases data) (auto simp: send_pack_data_def put_def fetch_def)

lemma multicast_loop_spec:
  assumes "base + maxtonetd \<le> length data" "pos + 4 * n + r = base + maxtonetd" "r < 4"
  shows "\<exists>data'. multicast_loop ds data base pos c t =
      Some (data', c + min n (length (filter (\<lambda>d. d > vfd_null) ds)), t + length (filter (\<lambda>d. d > vfd_null) ds)) \<and>
    length data' = length data \<and> take pos data' = take pos data \<and>
    get data' pos (4 * min n (length (filter (\<lambda>d. d > vfd_null) ds))) =
      Some (concat (map (\<lambda>d. le_bytes 4 (word_of_int d)) (take n (filter (\<lambda>d. d > vfd_null) ds))))"
  using assms
proof (induction ds arbitrary: data pos n c t)
  case Nil
  then show ?case by (auto simp: get_def)
next
  case (Cons d ds)
  show ?case
  proof (cases "d > vfd_null")
    case False
    with Cons show ?thesis by simp
  next
    case True
    show ?thesis
    proof (cases n)
      case 0
      then have "\<not> pos + 4 \<le> base + maxtonetd" using Cons.prems by linarith
      with True Cons.IH [of data pos 0 c "t + 1"] Cons.prems 0 show ?thesis by simp
    next
      case (Suc m)
      let ?w = "le_bytes 4 (word_of_int d)"
      have room: "pos + 4 \<le> base + maxtonetd" using Cons.prems Suc by linarith
      then obtain data1 where p: "put data pos ?w = Some data1" using put_fits [of pos ?w data] Cons.prems(1) by auto
      have l1: "length data1 = length data" using put_length [OF p] .
      obtain data' where d': "multicast_loop ds data1 base (pos + 4) (c + 1) (t + 1) =
          Some (data', c + 1 + min m (length (filter (\<lambda>d. d > vfd_null) ds)), t + 1 + length (filter (\<lambda>d. d > vfd_null) ds))"
        "length data' = length data1" "take (pos + 4) data' = take (pos + 4) data1"
        "get data' (pos + 4) (4 * min m (length (filter (\<lambda>d. d > vfd_null) ds))) =
          Some (concat (map (\<lambda>d. le_bytes 4 (word_of_int d)) (take m (filter (\<lambda>d. d > vfd_null) ds))))"
        using Cons.IH [of data1 "pos + 4" m "c + 1" "t + 1"] Cons.prems Suc l1 room by auto
      have tk: "take pos data' = take pos data1"
        using d'(3) by (metis le_add1 min.absorb1 take_take)
      have t1: "take pos data1 = take pos data" using put_Some [OF p] by auto
      have "take 4 (drop pos data') = take 4 (drop pos data1)"
        using arg_cong [OF d'(3), of "drop pos"] by (simp add: drop_take)
      also have "\<dots> = ?w" using put_Some [OF p] by simp
      finally have g4: "take 4 (drop pos data') = ?w" .
      let ?k = "4 * min m (length (filter (\<lambda>d. d > vfd_null) ds))"
      have "take (4 + ?k) (drop pos data') = ?w @ take ?k (drop (pos + 4) data')"
        using g4 by (simp add: take_add add.commute)
      moreover have "pos + 4 + ?k \<le> length data'" "take ?k (drop (pos + 4) data') =
          concat (map (\<lambda>d. le_bytes 4 (word_of_int d)) (take m (filter (\<lambda>d. d > vfd_null) ds)))"
        using d'(4) by (auto simp: get_def split: if_splits)
      ultimately have "get data' pos (4 * min (Suc m) (Suc (length (filter (\<lambda>d. d > vfd_null) ds)))) =
          Some (?w @ concat (map (\<lambda>d. le_bytes 4 (word_of_int d)) (take m (filter (\<lambda>d. d > vfd_null) ds))))"
        by (simp add: get_def)
      then show ?thesis using True room p d'(1,2) tk t1 l1 Suc by simp
    qed
  qed
qed

subsection \<open>Updating a protocol leaves the closures of the old object\<close>

lemma load_caller:
  assumes "load makers cur run path file p self m = Ret (ok, p', m')"
  shows "pm_heap m' = pm_heap m \<and> pm_protos m' = pm_protos m \<and>
    (pm_caller m' = pm_caller m \<or> pm_caller m' = (pm_caller m)(p_name p' \<mapsto> self))"
  using assms
  by (auto simp: load_def convert_protocol_def func_proc_def Let_def lbind_eq_Ret
      split: option.splits prod.splits if_splits chunk_result.splits)

text \<open>The two functions that load a description, when they return: what was loaded, and the manager after it.\<close>

lemma add_loads:
  assumes "add_protocol makers cur run a path file m = Ret (r, m')"
  obtains m1 e p m2 where "new_proto a (net_protocol (int (length (pm_protos m)))) m = Some m1"
    "load makers cur run path file (net_protocol (int (length (pm_protos m)))) (Ptr a) m1 = Ret (e, p, m2)"
    "m' = (if e = Proto_ok then m2\<lparr>pm_heap := (pm_heap m2)(a \<mapsto> p), pm_protos := pm_protos m2 @ [Ptr a]\<rparr>
           else m2\<lparr>pm_heap := (pm_heap m2)(a \<mapsto> p)\<rparr>)"
proof (cases "pm_protos m = []")
  case False
  show ?thesis
    using assms that unfolding add_protocol_def Let_def if_not_P [OF False] fetch_eq_Ret lbind_eq_Ret
    by (fastforce split: if_splits)
qed (use assms in \<open>simp add: add_protocol_def\<close>)

lemma update_loads:
  assumes "update_protocol makers cur run a i path file m = Ret (r, m')" "i < length (pm_protos m)" "pm_protos m ! i \<noteq> Null"
  obtains m1 e p m2 where "new_proto a (net_protocol (int i)) m = Some m1"
    "load makers cur run path file (net_protocol (int i)) (Ptr a) m1 = Ret (e, p, m2)"
    "(case e of
       Proto_ok \<Rightarrow> fetch (dispose (pm_heap m2) (pm_protos m2 ! i)) (\<lambda>h.
         Ret (Registered i, m2\<lparr>pm_heap := h(a \<mapsto> p), pm_protos := (pm_protos m2)[i := Ptr a]\<rparr>))
     | Proto_error \<Rightarrow> Ret (Raised, m2\<lparr>pm_heap := (pm_heap m2)(a := None)\<rparr>)
     | Proto_raised \<Rightarrow> Ret (Raised, m2\<lparr>pm_heap := (pm_heap m2)(a \<mapsto> p)\<rparr>)) = Ret (r, m')"
  using assms(1) that
  unfolding update_protocol_def if_not_P [OF assms(2) [folded not_le]] if_not_P [OF assms(3)] fetch_eq_Ret lbind_eq_Ret
  by fastforce

lemma update_dangling:
  assumes "i < length (pm_protos m)" "pm_protos m ! i = Ptr b" "pm_heap m b \<noteq> None" "pm_caller m nm = Some (Ptr b)"
    "update_protocol makers cur run a i path file m = Ret (Registered i, m')"
    "pm_heap m' a = Some p'" "p_name p' \<noteq> nm"
  shows "call_closure E m' nm d vals alloc = Fault"
proof -
  have "pm_protos m ! i \<noteq> Null" using assms(2) by simp
  from update_loads [OF assms(5,1) this] obtain m1 p m2 h where u: "new_proto a (net_protocol (int i)) m = Some m1"
    "load makers cur run path file (net_protocol (int i)) (Ptr a) m1 = Ret (Proto_ok, p, m2)"
    "dispose (pm_heap m2) (pm_protos m2 ! i) = Some h"
    "m' = m2\<lparr>pm_heap := h(a \<mapsto> p), pm_protos := (pm_protos m2)[i := Ptr a]\<rparr>"
    by (fastforce simp: fetch_eq_Ret split: load_end.splits)
  have m1: "pm_heap m a = None" "m1 = m\<lparr>pm_heap := (pm_heap m)(a \<mapsto> net_protocol (int i))\<rparr>"
    using u(1) by (auto simp: new_proto_def split: if_splits)
  note ld = load_caller [OF u(2)]
  have pi: "pm_protos m2 ! i = Ptr b" using ld m1(2) assms(2) by simp
  then have hb: "h b = None" using u(3) by (auto split: option.splits)
  have ba: "b \<noteq> a" using assms(3) m1(1) by auto
  have "p' = p" using u(4) assms(6) by simp
  then have "pm_caller m' nm = Some (Ptr b)" using ld assms(4,7) u(4) m1(2) by auto
  moreover have "pm_heap m' b = None" using u(4) hb ba by simp
  ultimately show ?thesis by (simp add: call_closure_def fetch_def)
qed

end
