(* ===== verification/Db_Props.thy ===== *)
theory Db_Props
  imports Db_Protocol
begin

section \<open>mydb: properties\<close>

text \<open>
  The properties of the packers, of the protocol manager and of the output buffer, with
  witnesses over a Lua whose numbers are integers.
\<close>

subsection \<open>A concrete Lua\<close>

definition seq_len :: "(int lkey \<Rightarrow> int lua_val option) \<Rightarrow> nat" where
  "seq_len f = length (takeWhile (\<lambda>i. f (Key_num (int i + 1)) \<noteq> None) [0..<256])"

definition int_lua :: "int lua_env" where
  "int_lua = \<lparr>number2int = word_of_int, from_int = id, num_str = (\<lambda>_. ''''),
     objlen = (\<lambda>v. case v of Lua_table f \<Rightarrow> seq_len f | _ \<Rightarrow> 0)\<rparr>"

lemma int_lua_sel [simp]:
  "number2int int_lua = word_of_int" "from_int int_lua = id" "num_str int_lua n = ''''"
  "objlen int_lua (Lua_table f) = seq_len f"
  by (simp_all add: int_lua_def)

lemma int_lua_fill:
  "array_fill int_lua t i xs (Key_num m) = (if i < m \<and> m \<le> i + int (length xs) then Some (xs ! nat (m - i - 1)) else t (Key_num m))"
proof (induction xs arbitrary: t i)
  case Nil
  then show ?case by auto
next
  case (Cons x xs)
  have "nat (m - i - 1) = Suc (nat (m - (i + 1) - 1))" if "i + 1 < m" using that by simp
  then show ?case using Cons.IH [of _ "i + 1"] by auto
qed

lemma takeWhile_upt: "n \<le> m \<Longrightarrow> takeWhile (\<lambda>i. i < n) [0..<m] = [0..<n]"
proof (induction m)
  case (Suc m)
  then show ?case by (cases "n \<le> m") (auto simp: takeWhile_append le_Suc_eq)
qed simp

lemma int_lua_ok: "env_ok int_lua"
proof -
  have "objlen int_lua (lua_array int_lua xs) = length xs" if "length xs \<le> 255" for xs
  proof -
    have "(array_fill int_lua (\<lambda>_. None) 0 xs (Key_num (int i + 1)) \<noteq> None) = (i < length xs)" for i
      by (simp add: int_lua_fill)
    then have "objlen int_lua (lua_array int_lua xs) = length (takeWhile (\<lambda>i. i < length xs) [0..<256])"
      by (simp add: lua_array_def seq_len_def)
    then show ?thesis using takeWhile_upt [of "length xs" 256] that by simp
  qed
  then show ?thesis by (simp add: env_ok_def)
qed

lemma int_lua_num: "in_int i \<Longrightarrow> encodes int_lua Number_arg (Lua_num i) (number_bytes i)"
  by (auto simp: num_rel_def int_lua_ok)

subsection \<open>The packers\<close>

text \<open>
  C20. Round trip of the argument packers.  For every packer - numbers, bytes, words, double
  words, strings, tables of any nested format, arrays of any of these - a value that has an
  encoding is written as that encoding where it fits, and reading those bytes yields the value
  again and consumes exactly them.
\<close>

theorem pack_unpack_round_trip:
  assumes "encodes E a v bs" "int (length bs) \<le> len" "off + length bs \<le> length buf"
  shows "\<exists>b. pack E a v buf off len = Ret (int (length bs), b) \<and> get b off (length bs) = Some bs \<and>
    unpack E a b off len = Ret (int (length bs), Some v)"
proof -
  obtain b where b: "put buf off bs = Some b" using put_fits assms(3) by blast
  note g = put_get [OF b]
  show ?thesis using arg.pack_ok [OF assms(1,2) b] arg.unpack_ok [OF assms(1,2) g] g by blast
qed

theorem pack_unpack_round_trip_witness:
  "\<exists>b. pack int_lua (Array_arg '''' Number_arg 0) (lua_array int_lua [Lua_num 5, Lua_num (-300)]) (replicate 20 0) 3 16 =
      Ret (6, b) \<and>
    unpack int_lua (Array_arg '''' Number_arg 0) b 3 16 = Ret (6, Some (lua_array int_lua [Lua_num 5, Lua_num (-300)]))"
proof -
  let ?bs = "2 # number_bytes 5 @ number_bytes (-300)"
  have "list_all2 (encodes int_lua Number_arg) [Lua_num 5, Lua_num (-300)] [number_bytes 5, number_bytes (-300)]"
    using int_lua_num [of 5] int_lua_num [of "-300"] by (simp add: in_int_def del: encodes.simps)
  then have e: "encodes int_lua (Array_arg '''' Number_arg 0) (lua_array int_lua [Lua_num 5, Lua_num (-300)]) ?bs"
    unfolding encodes.simps(7) array_rel_def
    by (intro conjI int_lua_ok exI [of _ "[Lua_num 5, Lua_num (-300)]"] exI [of _ "[number_bytes 5, number_bytes (-300)]"]) simp_all
  have l: "length ?bs = 6" by (simp add: number_bytes_def Let_def)
  from pack_unpack_round_trip [OF e, of 16 3 "replicate 20 0"] show ?thesis unfolding l by auto
qed

text \<open>
  Reading is memory safe: for every packer whose table programs come from a format, and
  for any bytes at all, unpacking at most len bytes of a buffer that has them never reads
  outside, and returns an error (0) or the number of bytes it consumed, at most len, with a
  value.
\<close>

theorem unpack_memory_safe:
  assumes "wf_arg a" "0 \<le> len" "off + nat len \<le> length buf"
  shows "read_ok len (unpack E a buf off len)"
  using safe_reader.safe [OF wf_reader [OF assms(1)] assms(2,3)] .

theorem unpack_memory_safe_witness:
  "read_ok 3 (unpack int_lua (Table_arg '''' '''' (compile [Leaf (Key_str ''x'') String_arg] @ [Tb_end])) [0, 255, 255] 0 3)"
proof -
  have "wf_arg (Table_arg '''' '''' (compile [Leaf (Key_str ''x'') String_arg] @ [Tb_end]))"
    by (intro wf_arg.intros(6)) (auto intro: wf_arg.intros)
  then show ?thesis by (rule unpack_memory_safe) simp_all
qed

text \<open>
  C25. Writing is memory safe: packing any Lua value whose strings are shorter than 2^31 - 3
  bytes into at most len bytes changes nothing outside them, and returns 0 or the number of
  bytes written, at most len, or raises a Lua error.
\<close>

theorem pack_memory_safe:
  assumes "wf_arg a" "good_val E v" "0 \<le> len" "off + nat len \<le> length buf"
  shows "write_ok off len buf (pack E a v buf off len)"
  using safe_writer.safe [OF wf_writer [OF assms(1)] assms(2-4)] .

theorem pack_memory_safe_witness:
  "write_ok 1 2 [1, 2, 3, 4] (pack int_lua String_arg (Lua_str ''long'') [1, 2, 3, 4] 1 2)"
proof -
  have "good_val int_lua (Lua_str ''long'')" by (simp add: good_val_def short_str_def)
  then show ?thesis by (intro pack_memory_safe wf_arg.intros) simp_all
qed

text \<open>
  The word packer does not keep its documented range (an unsigned double byte): it writes
  the low 16 bits but reads them as a signed short, so a number from 32768 to 65535 comes back
  as that number minus 65536.
\<close>

theorem word_high_half_negated:
  assumes "env_ok E" "32768 \<le> i" "i < 65536" "2 \<le> len" "off + 2 \<le> length buf"
  shows "\<exists>b. pack E Word_arg (Lua_num (from_int E i)) buf off len = Ret (2, b) \<and>
    unpack E Word_arg b off len = Ret (2, Some (Lua_num (from_int E (i - 65536))))"
proof -
  let ?bs = "le_bytes 2 (word_of_int i)"
  have l: "length ?bs = 2" by (rule length_le_bytes)
  obtain b where b: "put buf off ?bs = Some b" using put_fits [of off ?bs buf] assms(5) l by auto
  have n: "number2int E (from_int E i) = word_of_int i" using assms(1-3) by (simp add: env_ok_def in_int_def)
  have g: "get b off 2 = Some ?bs" using put_get [OF b] l by simp
  have "uint (word_of_int i :: 32 word) = i" using uint_word_of_int_small assms(2,3) by simp
  then have w: "le_word ?bs = word_of_int i" using le_word_bytes_small [of "word_of_int i" 2] assms(3) by simp
  have "sint (ucast (word_of_int i :: 32 word) :: 16 word) = i - 65536"
  proof -
    have "(ucast (word_of_int i :: 32 word) :: 16 word) = word_of_int i"
      by (simp add: ucast_eq \<open>uint (word_of_int i :: 32 word) = i\<close>)
    also have "\<dots> = word_of_int (i - 65536)" by (simp add: word_of_int_eq_iff take_bit_eq_mod) presburger?
    finally have e: "(ucast (word_of_int i :: 32 word) :: 16 word) = word_of_int (i - 65536)" .
    have "sint (word_of_int (i - 65536) :: 16 word) = i - 65536"
      using assms(2,3) by (simp add: signed_of_int signed_take_bit_int_eq_self del: of_int_diff)
    with e show ?thesis by (simp only:)
  qed
  then have "unpack E Word_arg b off len = Ret (2, Some (Lua_num (from_int E (i - 65536))))"
    using g w assms(4) by (simp add: unpack_word_def fetch_def del: le_bytes.simps)
  moreover have "pack E Word_arg (Lua_num (from_int E i)) buf off len = Ret (2, b)"
    using b n assms(4) by (simp add: pack_word_def fetch_def del: le_bytes.simps)
  ultimately show ?thesis by blast
qed

theorem word_high_half_negated_witness:
  "\<exists>b. pack int_lua Word_arg (Lua_num 40000) [0, 0] 0 2 = Ret (2, b) \<and>
    unpack int_lua Word_arg b 0 2 = Ret (2, Some (Lua_num (-25536)))"
  using word_high_half_negated [OF int_lua_ok, of 40000 2 0 "[0, 0]"] by simp

text \<open>
  C27. Table formats: reading a format from an empty state succeeds exactly when all its keys
  and types are known and it has at most ten tables altogether, nested or side by side (the
  comment says the limit is on the nesting depth), and the packer it makes is the compiled
  program of its fields, which is safe to read and write with.
\<close>

theorem format_accepted_iff:
  assumes "\<forall>a \<in> set s. wf_arg a"
  shows "((\<exists>st'. travel_table s es \<lparr>tf_hash = nm, tf_ops = [], tf_deep = 0\<rparr> = Ret st') \<longleftrightarrow>
      fmt_fields s es \<noteq> None \<and> tables es \<le> max_table_deep) \<and>
    (\<forall>st'. travel_table s es \<lparr>tf_hash = nm, tf_ops = [], tf_deep = 0\<rparr> = Ret st' \<longrightarrow>
      tf_ops st' = compile (the (fmt_fields s es)) @ [Tb_end] \<and> wf_arg (Table_arg ty hs (tf_ops st')))"
proof -
  let ?st = "\<lparr>tf_hash = nm, tf_ops = [], tf_deep = 0\<rparr>"
  have z: "tf_ops ?st = []" "tf_deep ?st = 0" by simp_all
  show ?thesis using travel_table_spec [OF z, of s es] travel_wf [OF _ z assms, of es _ ty hs] by blast
qed

theorem format_accepted_iff_witness:
  "\<not> (\<exists>st'. travel_table [Number_arg] (replicate 10 (Fkey_string ''k'', Fmt_table []))
      \<lparr>tf_hash = '''', tf_ops = [] :: (int, int fcall_arg) tb_op list, tf_deep = 0\<rparr> = Ret st')"
proof -
  have "\<forall>a \<in> set [Number_arg :: int fcall_arg]. wf_arg a" by (simp add: wf_arg.intros)
  from format_accepted_iff [OF this] show ?thesis by (simp add: numeral_eq_Suc max_table_deep_def)
qed

subsection \<open>Protocols\<close>

text \<open>
  C1. A message goes through: when the sender's object and the receiver's object of a protocol
  have the same id (from 1 to 65535) and argument list, marshalling values that have encodings, with
  room for them in the buffer, and giving the bytes to the receiver's unpack_data calls the
  receiver's function with exactly those values, and when that function ends without an error
  unpack_data consumes exactly the bytes sent.
\<close>

theorem message_round_trip:
  assumes "p_id p = int i" "0 < i" "i < 65536" "enc_list E (p_args p) vals bs"
    "int (length (id_bytes i @ bs)) \<le> len" "off + length (id_bytes i @ bs) \<le> length buf"
    and "i < length (pm_protos m)" "pm_protos m ! i = Ptr a" "pm_heap m a = Some q" "p_args q = p_args p" "p_ref q = Some f"
  shows "\<exists>n b. marshal E p vals buf off len = Ret (n, b) \<and> n = int (length (id_bytes i @ bs)) \<and>
    unpack_data E lua_ok m b off n ext = Ret (if lua_ok f ext vals then n else xynet_error_unpack_script, [(f, ext, vals)])"
proof -
  obtain b where b: "put buf off (id_bytes i @ bs) = Some b" using put_fits assms(6) by blast
  have "marshal E p vals buf off len = Ret (int (length (id_bytes i @ bs)), b)"
    using marshal_ok [OF assms(1,2,4,5) b] .
  moreover have "unpack_data E lua_ok m b off (int (length (id_bytes i @ bs))) ext =
      Ret (if lua_ok f ext vals then int (length (id_bytes i @ bs)) else xynet_error_unpack_script, [(f, ext, vals)])"
    using assms(2,3,4,7-11) put_get [OF b] by (intro unpack_data_ok [where a = a and p = q]) simp_all
  ultimately show ?thesis by blast
qed

definition demo_proto :: "int proto" where
  "demo_proto = (net_protocol 1)\<lparr>p_args := [Number_arg, Number_arg], p_name := ''c_move'', p_ref := Some 9\<rparr>"

definition demo_pm :: "int pm" where
  "demo_pm = \<lparr>pm_heap = [10 \<mapsto> net_protocol 0, 11 \<mapsto> demo_proto], pm_protos = [Ptr 10, Ptr 11],
     pm_reg = reg_init [], pm_caller = [''c_move'' \<mapsto> Ptr 11], pm_static = 0, pm_packs = 0, pm_unpacks = 0\<rparr>"


theorem message_round_trip_witness:
  "\<exists>n b. marshal int_lua demo_proto [Lua_num 3, Lua_num 4] (replicate 64 0) 0 64 = Ret (n, b) \<and>
    unpack_data int_lua (\<lambda>_ _ _. True) demo_pm b 0 n 5 = Ret (n, [(9, 5, [Lua_num 3, Lua_num 4])])"
proof -
  have e: "enc_list int_lua (p_args demo_proto) [Lua_num 3, Lua_num 4] (number_bytes 3 @ number_bytes 4)"
    using int_lua_num [of 3] int_lua_num [of 4]
    by (simp add: demo_proto_def in_int_def del: encodes.simps) blast
  have l: "length (number_bytes 3 @ number_bytes 4) = 4" by (simp add: number_bytes_def Let_def)
  have "\<exists>n b. marshal int_lua demo_proto [Lua_num 3, Lua_num 4] (replicate 64 0) 0 64 = Ret (n, b) \<and>
    n = int (length (id_bytes 1 @ number_bytes 3 @ number_bytes 4)) \<and>
    unpack_data int_lua (\<lambda>_ _ _. True) demo_pm b 0 n 5 =
      Ret (if True then n else xynet_error_unpack_script, [(9, 5, [Lua_num 3, Lua_num 4])])"
    by (rule message_round_trip [where a = 11 and q = demo_proto])
      (use e l in \<open>simp_all add: demo_pm_def demo_proto_def net_protocol_def id_bytes_def\<close>)
  then show ?thesis by auto
qed



text \<open>
  Marshalling arbitrary Lua values never writes outside the output buffer: with an
  argument list from the registry and a positive id, marshal raises an error or fills at most
  len bytes and leaves the rest of the buffer as it was.
\<close>

theorem marshal_memory_safe:
  assumes "\<forall>a \<in> set (p_args p). wf_arg a" "\<forall>v \<in> set vals. good_val E v" "\<forall>n. short_str (num_str E n)"
    "0 < p_id p" "3 \<le> len" "off + nat len \<le> length buf"
  shows "marshal E p vals buf off len = Raise \<or>
    (\<exists>r b. marshal E p vals buf off len = Ret (r, b) \<and> 0 < r \<and> r \<le> len \<and> same_outside off len buf b)"
proof (rule marshal_safe)
  show "good_val E (arg_value vals j)" for j
    using assms(2,3) by (auto simp: arg_value_def good_val_def)
qed (use assms in auto)

theorem marshal_memory_safe_witness:
  "marshal int_lua demo_proto [Lua_num 3, Lua_nil] [0, 0, 0, 0, 7] 0 4 = Raise \<or>
    (\<exists>r b. marshal int_lua demo_proto [Lua_num 3, Lua_nil] [0, 0, 0, 0, 7] 0 4 = Ret (r, b) \<and> 0 < r \<and> r \<le> 4 \<and>
      same_outside 0 4 [0, 0, 0, 0, 7] b)"
  by (rule marshal_memory_safe)
    (simp_all add: demo_proto_def net_protocol_def wf_arg.intros good_val_def short_str_def)

text \<open>The objects of the manager stay well formed through every registration.\<close>

lemma new_array_wf: "new_array_arg s ty n = Ret a \<Longrightarrow> \<forall>x \<in> set s. wf_arg x \<Longrightarrow> wf_arg a"
  by (auto simp: new_array_arg_def fetch_eq_Ret intro!: wf_arg.intros(7) dest: get_arg_in)

lemma arglist_wf:
  "arglist_loop ds args reg = Ret (e, args', reg') \<Longrightarrow> \<forall>x \<in> set args. wf_arg x \<Longrightarrow> \<forall>x \<in> set reg. wf_arg x \<Longrightarrow>
   (\<forall>x \<in> set args'. wf_arg x) \<and> (\<forall>x \<in> set reg'. wf_arg x)"
proof (induction ds arbitrary: args reg)
  case Nil
  then show ?case by simp
next
  case (Cons d ds)
  have step: ?case if "wf_arg a" "arglist_loop ds (args @ [a]) r = Ret (e, args', reg')" "\<forall>x \<in> set r. wf_arg x" for a r
    using Cons.IH [OF that(2) _ that(3)] Cons.prems(2) that(1) by simp
  show ?case
  proof (cases d)
    case None
    then show ?thesis using Cons.prems by simp
  next
    case (Some x)
    obtain ty n where x: "x = (ty, n)" by (cases x)
    show ?thesis
    proof (cases n)
      case None
      show ?thesis
      proof (cases "get_arg reg ty")
        case None
        then show ?thesis using Cons.prems Some x \<open>n = None\<close> by simp
      next
        case a: (Some a)
        then have "arglist_loop ds (args @ [a]) reg = Ret (e, args', reg')" "wf_arg a"
          using Cons.prems(1,3) Some x \<open>n = None\<close> get_arg_in [OF a] by simp_all
        then show ?thesis using step Cons.prems(3) by blast
      qed
    next
      case n: (Some k)
      show ?thesis
      proof (cases "k < 0 \<or> k > 255")
        case True
        then show ?thesis using Cons.prems Some x n by auto
      next
        case False
        then obtain a where a: "new_array_arg reg ty (nat k) = Ret a" "arglist_loop ds (args @ [a]) (add_arg reg a) = Ret (e, args', reg')"
          using Cons.prems(1) Some x n by (auto simp: lbind_eq_Ret)
        have "wf_arg a" using Cons.prems(3) new_array_wf [OF a(1)] by simp
        then show ?thesis by (rule step [OF _ a(2)]) (use Cons.prems(3) \<open>wf_arg a\<close> in \<open>simp add: add_arg_def\<close>)
      qed
    qed
  qed
qed

lemma load_wf:
  assumes "load makers cur run path file p self m = Ret (ok, p', m')"
    "\<forall>x \<in> set (p_args p). wf_arg x" "\<forall>x \<in> set (pm_reg m). wf_arg x"
  shows "(\<forall>x \<in> set (p_args p'). wf_arg x) \<and> (\<forall>x \<in> set (pm_reg m'). wf_arg x) \<and> p_id p' = p_id p"
proof -
  have fp: "p_args q' = p_args q \<and> pm_reg n' = pm_reg n \<and> p_id q' = p_id q"
    if "func_proc makers q self n = (e, q', n')" for e and q q' :: "'n proto" and n n' :: "'n pm"
    using that by (auto simp: func_proc_def split: if_splits option.splits)
  show ?thesis using assms
    by (auto simp: load_def convert_protocol_def Let_def lbind_eq_Ret split: option.splits prod.splits chunk_result.splits if_splits
        dest!: fp arglist_wf)
qed

end
