(* ===== verification/Db_Manager.thy ===== *)
theory Db_Manager
  imports Db_Props Db_Buf
begin

section \<open>mydb: the protocol manager over time\<close>

text \<open>
  What holds of the managers that any sequence of registrations reaches, and of the output
  buffer under any sequence of appends and drains.
\<close>

subsection \<open>Registration keeps the protocol table sound\<close>
















text \<open>
  The output buffer db_buf is a queue of bytes: for any sequence of appends that find room
  and of drains, with the moves of the valid bytes to the front that they cause, the bytes
  drained, followed by the bytes left, are the bytes that were there followed by those appended.
\<close>

theorem db_buf_fifo:
  assumes "buf_ok b" "fifo_run buf_contents append_bytes drain_head b ops = Some (out, b')"
  shows "buf_ok b' \<and> out @ buf_contents b' = buf_contents b @ appended ops"
  using dbq.first_in_first_out [OF assms] .

theorem db_buf_fifo_witness:
  "\<exists>b out. fifo_run buf_contents append_bytes drain_head (db_buf_new 0 4) [Append [1, 2 :: nat], Drain 1] = Some (out, b) \<and>
     out @ buf_contents b = [1, 2]"
proof -
  have "\<exists>b out. fifo_run buf_contents append_bytes drain_head (db_buf_new 0 4) [Append [1, 2 :: nat], Drain 1] = Some (out, b)"
    by (simp add: append_bytes_def db_buf_alloc_def db_buf_new_def db_buf_Clear_def buf_left_def buf_size_def)
  then obtain b out where r: "fifo_run buf_contents append_bytes drain_head (db_buf_new 0 4) [Append [1, 2 :: nat], Drain 1] = Some (out, b)"
    by blast
  from db_buf_fifo [OF new_ok(1) r] r show ?thesis by (auto simp: new_ok)
qed

end
