(* ===== verification/Ev_Queue.thy ===== *)
theory Ev_Queue
  imports Contracts
begin

section \<open>my\_event: tail queues\<close>

text \<open>
  The macros of \<open>cs/my_event/queue.h\<close>.  The field \<open>tqe_prev\<close> of an entry is the address of the
  pointer that points to it: the head's \<open>tqh_first\<close> or the \<open>tqe_next\<close> of an entry.  The
  entries for one field of \<open>struct event\<close> are a store of their own.
\<close>

datatype tq_loc = Head | Next_of nat | Junk_loc

record entry =
  tqe_next :: ptr
  tqe_prev :: tq_loc

record tailq =
  tqh_first :: ptr
  tqh_last :: tq_loc

type_synonym tq = "tailq \<times> entry store"

definition tailq_init :: tailq where
  "tailq_init = \<lparr>tqh_first = Null, tqh_last = Head\<rparr>"

definition tailq_empty :: "tailq \<Rightarrow> bool" where
  "tailq_empty h \<longleftrightarrow> tqh_first h = Null"

text \<open>\<open>*loc = p\<close>\<close>

definition store_at :: "tq \<Rightarrow> tq_loc \<Rightarrow> ptr \<Rightarrow> tq option" where
  "store_at q loc p = (case loc of
     Head \<Rightarrow> Some ((fst q)\<lparr>tqh_first := p\<rparr>, snd q)
   | Next_of a \<Rightarrow> do { l \<leftarrow> assign (snd q) (Ptr a) (\<lambda>e. e\<lparr>tqe_next := p\<rparr>); Some (fst q, l) }
   | Junk_loc \<Rightarrow> None)"

definition tailq_insert_tail :: "tq \<Rightarrow> nat \<Rightarrow> tq option" where
  "tailq_insert_tail q a = do {
     l1 \<leftarrow> assign (snd q) (Ptr a) (\<lambda>e. e\<lparr>tqe_next := Null\<rparr>);
     l2 \<leftarrow> assign l1 (Ptr a) (\<lambda>e. e\<lparr>tqe_prev := tqh_last (fst q)\<rparr>);
     r \<leftarrow> store_at (fst q, l2) (tqh_last (fst q)) (Ptr a);
     Some ((fst r)\<lparr>tqh_last := Next_of a\<rparr>, snd r) }"

definition tailq_remove :: "tq \<Rightarrow> nat \<Rightarrow> tq option" where
  "tailq_remove q a = do {
     e \<leftarrow> snd q a;
     r \<leftarrow> (if tqe_next e \<noteq> Null
          then do { l \<leftarrow> assign (snd q) (tqe_next e) (\<lambda>n. n\<lparr>tqe_prev := tqe_prev e\<rparr>); Some (fst q, l) }
          else Some ((fst q)\<lparr>tqh_last := tqe_prev e\<rparr>, snd q));
     e' \<leftarrow> snd r a;
     store_at r (tqe_prev e') (tqe_next e') }"

subsection \<open>A queue holds a list\<close>

text \<open>
  \<open>lseg l loc p as loc' p'\<close>: from the field at \<open>loc\<close>, which contains \<open>p\<close>, the entries
  \<open>as\<close> lead to the field at \<open>loc'\<close>, which contains \<open>p'\<close>.
\<close>

fun lseg :: "entry store \<Rightarrow> tq_loc \<Rightarrow> ptr \<Rightarrow> nat list \<Rightarrow> tq_loc \<Rightarrow> ptr \<Rightarrow> bool" where
  "lseg l loc p [] loc' p' \<longleftrightarrow> loc = loc' \<and> p = p'"
| "lseg l loc p (a # as) loc' p' \<longleftrightarrow>
     p = Ptr a \<and> (\<exists>e. l a = Some e \<and> tqe_prev e = loc \<and> lseg l (Next_of a) (tqe_next e) as loc' p')"

definition tq_holds :: "tq \<Rightarrow> nat list \<Rightarrow> bool" where
  "tq_holds q as \<longleftrightarrow> lseg (snd q) Head (tqh_first (fst q)) as (tqh_last (fst q)) Null"

lemma lseg_append: "lseg l loc p (us @ vs) loc' p' \<longleftrightarrow> (\<exists>m q. lseg l loc p us m q \<and> lseg l m q vs loc' p')"
  by (induction us arbitrary: loc p) auto

lemma lseg_cong: "(\<And>a. a \<in> set us \<Longrightarrow> l' a = l a) \<Longrightarrow> lseg l' loc p us loc' p' = lseg l loc p us loc' p'"
  by (induction us arbitrary: loc p) auto

lemma lseg_upd [simp]: "a \<notin> set us \<Longrightarrow> lseg (l(a \<mapsto> x)) loc p us loc' p' = lseg l loc p us loc' p'"
  by (intro lseg_cong) auto

lemma lseg_chain: "lseg l loc p us loc' Null \<Longrightarrow> chain (\<lambda>a. map_option tqe_next (l a)) p us"
  by (induction us arbitrary: loc p) auto

lemma tq_distinct: "tq_holds q as \<Longrightarrow> distinct as"
  unfolding tq_holds_def by (auto dest: lseg_chain intro: chain_distinct)

lemma lseg_dom: "lseg l loc p us loc' p' \<Longrightarrow> a \<in> set us \<Longrightarrow> \<exists>e. l a = Some e"
  by (induction us arbitrary: loc p) auto

lemma lseg_last: "lseg l loc p us m q \<Longrightarrow> us \<noteq> [] \<Longrightarrow> m = Next_of (last us)"
  by (induction us arbitrary: loc p) (auto split: if_splits)

lemma lseg_redirect:
  assumes "lseg l loc p us m q" "us \<noteq> []" "distinct us" "l (last us) = Some e"
  shows "lseg (l(last us \<mapsto> e\<lparr>tqe_next := q'\<rparr>)) loc p us m q'"
  using assms
proof (induction us arbitrary: loc p)
  case Nil
  then show ?case by simp
next
  case (Cons a us)
  show ?case
  proof (cases "us = []")
    case True
    with Cons.prems show ?thesis by auto
  next
    case False
    then have "last us \<noteq> a" using Cons.prems(3) by auto
    with False Cons show ?thesis by auto
  qed
qed

lemma store_at_lseg:
  assumes "lseg l Head (tqh_first h) us m q" "distinct us"
  shows "\<exists>h' l'. store_at (h, l) m q' = Some (h', l') \<and> lseg l' Head (tqh_first h') us m q' \<and>
    tqh_last h' = tqh_last h \<and> (\<forall>b. b \<notin> set us \<longrightarrow> l' b = l b) \<and> dom l' = dom l"
proof (cases "us = []")
  case True
  with assms(1) show ?thesis by (auto simp: store_at_def)
next
  case False
  then have m: "m = Next_of (last us)" using assms(1) lseg_last by blast
  obtain e where e: "l (last us) = Some e" using lseg_dom [OF assms(1), of "last us"] False by auto
  have "store_at (h, l) m q' = Some (h, l(last us \<mapsto> e\<lparr>tqe_next := q'\<rparr>))"
    by (simp add: store_at_def m e)
  moreover have "b \<noteq> last us" if "b \<notin> set us" for b using that False by auto
  moreover have "dom (l(last us \<mapsto> e\<lparr>tqe_next := q'\<rparr>)) = dom l" using e by auto
  ultimately show ?thesis using lseg_redirect [OF assms(1) False assms(2) e]
    by (intro exI [of _ h] exI [of _ "l(last us \<mapsto> e\<lparr>tqe_next := q'\<rparr>)"]) auto
qed

lemma insert_tail_ok:
  assumes "tq_holds q as" "snd q a \<noteq> None" "a \<notin> set as"
  shows "\<exists>q'. tailq_insert_tail q a = Some q' \<and> tq_holds q' (as @ [a]) \<and> dom (snd q') = dom (snd q) \<and>
    (\<forall>b. b \<notin> set (as @ [a]) \<longrightarrow> snd q' b = snd q b)"
proof -
  obtain h l where q: "q = (h, l)" by fastforce
  obtain e where e: "l a = Some e" using assms(2) q by auto
  let ?l = "l(a \<mapsto> e\<lparr>tqe_next := Null, tqe_prev := tqh_last h\<rparr>)"
  have s: "lseg ?l Head (tqh_first h) as (tqh_last h) Null"
    using assms(1,3) q by (simp add: tq_holds_def)
  obtain h' l' where st: "store_at (h, ?l) (tqh_last h) (Ptr a) = Some (h', l')"
    "lseg l' Head (tqh_first h') as (tqh_last h) (Ptr a)" "tqh_last h' = tqh_last h"
    "\<forall>b. b \<notin> set as \<longrightarrow> l' b = ?l b" "dom l' = dom ?l"
    using store_at_lseg [OF s tq_distinct [OF assms(1)]] by blast
  have la: "l' a = Some (e\<lparr>tqe_next := Null, tqe_prev := tqh_last h\<rparr>)" using st(4) assms(3) by simp
  have "tailq_insert_tail q a = Some (h'\<lparr>tqh_last := Next_of a\<rparr>, l')"
    using q e st(1) by (simp add: tailq_insert_tail_def)
  moreover have "tq_holds (h'\<lparr>tqh_last := Next_of a\<rparr>, l') (as @ [a])"
    using st(2) la by (auto simp: tq_holds_def lseg_append)
  moreover have "dom l' = dom l" using st(5) e by auto
  ultimately show ?thesis using q st(4) by auto
qed

lemma remove_ok:
  assumes "tq_holds q as" "a \<in> set as"
  shows "\<exists>q'. tailq_remove q a = Some q' \<and> tq_holds q' (remove1 a as) \<and> dom (snd q') = dom (snd q) \<and>
    (\<forall>b. b \<notin> set as \<longrightarrow> snd q' b = snd q b)"
proof -
  obtain h l where q: "q = (h, l)" by fastforce
  obtain us vs where as: "as = us @ a # vs" "a \<notin> set us" using assms(2) by (auto dest: split_list_first)
  have d: "distinct as" using assms(1) tq_distinct by blast
  obtain m e where s: "lseg l Head (tqh_first h) us m (Ptr a)" "l a = Some e" "tqe_prev e = m"
    "lseg l (Next_of a) (tqe_next e) vs (tqh_last h) Null"
    using assms(1) q as by (auto simp: tq_holds_def lseg_append)
  have r1: "remove1 a as = us @ vs" using as by (simp add: remove1_append)
  show ?thesis
  proof (cases vs)
    case Nil
    then have nx: "tqe_next e = Null" "tqh_last h = Next_of a" using s(4) by auto
    let ?h = "h\<lparr>tqh_last := m\<rparr>"
    have "lseg l Head (tqh_first ?h) us m (Ptr a)" "distinct us" using s(1) d as by auto
    then obtain h' l' where st: "store_at (?h, l) m Null = Some (h', l')" "lseg l' Head (tqh_first h') us m Null"
      "tqh_last h' = tqh_last ?h" "\<forall>b. b \<notin> set us \<longrightarrow> l' b = l b" "dom l' = dom l"
      using store_at_lseg by blast
    have "tailq_remove q a = Some (h', l')" using q s(2,3) nx st(1) by (simp add: tailq_remove_def)
    moreover have "tq_holds (h', l') (us @ vs)" using st(2,3) Nil by (simp add: tq_holds_def)
    ultimately show ?thesis using q r1 st(4,5) as by auto
  next
    case (Cons b ws)
    then obtain f where b: "tqe_next e = Ptr b" "l b = Some f" "tqe_prev f = Next_of a"
      "lseg l (Next_of b) (tqe_next f) ws (tqh_last h) Null" using s(4) by auto
    have ne: "b \<noteq> a" "b \<notin> set us" "b \<notin> set ws" "a \<notin> set ws" "set us \<inter> set ws = {}" "distinct us" using d as Cons by auto
    let ?l = "l(b \<mapsto> f\<lparr>tqe_prev := m\<rparr>)"
    have "lseg ?l Head (tqh_first h) us m (Ptr a)" using s(1) ne(2) by simp
    then obtain h' l' where st: "store_at (h, ?l) m (Ptr b) = Some (h', l')" "lseg l' Head (tqh_first h') us m (Ptr b)"
      "tqh_last h' = tqh_last h" "\<forall>c. c \<notin> set us \<longrightarrow> l' c = ?l c" "dom l' = dom ?l"
      using store_at_lseg [OF _ ne(6)] by blast
    have lb: "l' b = Some (f\<lparr>tqe_prev := m\<rparr>)" using st(4) ne(2) by simp
    have "l' c = l c" if "c \<in> set ws" for c using st(4) that ne by auto
    then have "lseg l' (Next_of b) (tqe_next f) ws (tqh_last h) Null" using b(4) lseg_cong [of ws l' l] by blast
    then have "tq_holds (h', l') (us @ vs)" using st(2,3) lb Cons by (auto simp: tq_holds_def lseg_append)
    moreover have "tailq_remove q a = Some (h', l')"
      using q s(2,3) b(1,2) ne(1) st(1) by (simp add: tailq_remove_def)
    moreover have "dom l' = dom l" using st(5) b(2) by auto
    ultimately show ?thesis using q r1 st(4) as Cons by auto
  qed
qed

interpretation tqq: tail_queue tq_holds "\<lambda>q. dom (snd q)" tailq_insert_tail tailq_remove
proof
  fix s es e
  assume "tq_holds s es" "e \<in> dom (snd s)" "e \<notin> set es"
  then show "\<exists>s'. tailq_insert_tail s e = Some s' \<and> tq_holds s' (es @ [e]) \<and> dom (snd s') = dom (snd s)"
    using insert_tail_ok by fastforce
next
  fix s es e
  assume "tq_holds s es" "e \<in> set es"
  then show "\<exists>s'. tailq_remove s e = Some s' \<and> tq_holds s' (remove1 e es) \<and> dom (snd s') = dom (snd s)"
    using remove_ok by fastforce
qed

lemma init_holds: "tq_holds (tailq_init, l) []"
  by (simp add: tq_holds_def tailq_init_def)

lemma first_holds: "tq_holds q as \<Longrightarrow> tqh_first (fst q) = (case as of [] \<Rightarrow> Null | a # _ \<Rightarrow> Ptr a)"
  by (cases as) (auto simp: tq_holds_def)

end
