(* ===== verification/Ev_Event.thy ===== *)
theory Ev_Event
  imports Ev_Queue
begin

section \<open>my\_event: events and their queues\<close>

text \<open>
  \<open>cs/my_event/event.h\<close> and the queue operations of \<open>cs/my_event/event.c\<close>.  The state is the
  one event base of the program (\<open>current_base\<close>) with the global variables of \<open>event.c\<close> and
  \<open>signal.c\<close> and the descriptor table of \<open>epoll.c\<close>.  Events are addresses; the link fields
  \<open>ev_next\<close>, \<open>ev_active_next\<close>, \<open>ev_timeout_next\<close> and \<open>ev_signal_next\<close> are one entry store
  each.  \<open>ev_pncalls\<close> points to the local variable \<open>ncalls\<close> of a call of
  \<open>event_process_active\<close>: such variables live in \<open>frames\<close> while the call runs.  Time values are
  left out, because every function on them has an empty body.  \<open>Raise\<close> is the exit of
  \<open>event_errx\<close> or of a failed \<open>assert\<close>, \<open>Fault\<close> undefined behaviour or a call that does not
  return.  The allocations of events succeed; those for signal handlers and for buffered events are
  parameters.
\<close>

record event =
  ev_fd :: int
  ev_events :: "16 word"
  ev_callback :: nat
  ev_arg :: ptr
  ev_res :: "32 word"
  ev_base :: bool
  ev_flags :: "32 word"
  ev_ncalls :: "16 word"
  ev_pncalls :: ptr
  ev_pri :: nat

text \<open>\<open>sh_old\<close> is an array of pointers to saved signal actions.\<close>

datatype sh_slot = Sh_null | Sh_block | Sh_freed

record 'k event_base =
  events :: "event store"
  ins_links :: "entry store"
  act_links :: "entry store"
  tmo_links :: "entry store"
  sig_links :: "entry store"
  inserted_queue :: tailq
  active_queue :: "tailq list"
  timeout_queue :: tailq
  event_count :: int
  event_count_active :: int
  current_base :: bool
  evsignal_base :: bool
  ev_signal :: nat
  ev_signal_pair :: "int \<times> int"
  ev_signal_added :: bool
  evsignal_caught :: bool
  evsigevents :: "tailq list"
  evsigcaught :: "32 word list"
  sh_old :: "sh_slot list"
  epfds :: "(ptr \<times> ptr) list"
  kernel :: 'k
  frames :: "16 word store"
  next_frame :: nat

definition EVLIST_TIMEOUT :: "32 word" where "EVLIST_TIMEOUT = 0x01"
definition EVLIST_INSERTED :: "32 word" where "EVLIST_INSERTED = 0x02"
definition EVLIST_ACTIVE :: "32 word" where "EVLIST_ACTIVE = 0x08"
definition EVLIST_INTERNAL :: "32 word" where "EVLIST_INTERNAL = 0x10"
definition EVLIST_INIT :: "32 word" where "EVLIST_INIT = 0x80"

definition EV_TIMEOUT :: "16 word" where "EV_TIMEOUT = 0x01"
definition EV_READ :: "16 word" where "EV_READ = 0x02"
definition EV_WRITE :: "16 word" where "EV_WRITE = 0x04"
definition EV_SIGNAL :: "16 word" where "EV_SIGNAL = 0x08"
definition EV_PERSIST :: "16 word" where "EV_PERSIST = 0x10"

abbreviation wants :: "event \<Rightarrow> 16 word \<Rightarrow> bool" where
  "wants e m \<equiv> ev_events e AND m \<noteq> 0"

abbreviation listed_as :: "event \<Rightarrow> 32 word \<Rightarrow> bool" where
  "listed_as e m \<equiv> ev_flags e AND m \<noteq> 0"

subsection \<open>The operations\<close>

definition put_event :: "('k, 'z) event_base_scheme \<Rightarrow> nat \<Rightarrow> event \<Rightarrow> ('k, 'z) event_base_scheme" where
  "put_event s a e = s\<lparr>events := (events s)(a \<mapsto> e)\<rparr>"

definition event_queue_insert ::
  "('k, 'z) event_base_scheme \<Rightarrow> nat \<Rightarrow> 32 word \<Rightarrow> ('k, 'z) event_base_scheme lres" where
  "event_queue_insert s a queue = fetch (events s a) (\<lambda>e.
     if listed_as e queue then (if queue AND EVLIST_ACTIVE \<noteq> 0 then Ret s else Raise)
     else let s1 = put_event (s\<lparr>event_count := event_count s + 1\<rparr>) a (e\<lparr>ev_flags := ev_flags e OR queue\<rparr>) in
       if queue = EVLIST_INSERTED then
         fetch (tailq_insert_tail (inserted_queue s1, ins_links s1) a) (\<lambda>q.
           Ret (s1\<lparr>inserted_queue := fst q, ins_links := snd q\<rparr>))
       else if queue = EVLIST_ACTIVE then
         fetch (nth_opt (active_queue s1) (ev_pri e)) (\<lambda>h.
         fetch (tailq_insert_tail (h, act_links s1) a) (\<lambda>q.
           Ret (s1\<lparr>event_count_active := event_count_active s1 + 1,
                   active_queue := (active_queue s1)[ev_pri e := fst q], act_links := snd q\<rparr>)))
       else if queue = EVLIST_TIMEOUT then
         fetch (tailq_insert_tail (timeout_queue s1, tmo_links s1) a) (\<lambda>q.
           Ret (s1\<lparr>timeout_queue := fst q, tmo_links := snd q\<rparr>))
       else Raise)"

definition event_queue_remove ::
  "('k, 'z) event_base_scheme \<Rightarrow> nat \<Rightarrow> 32 word \<Rightarrow> ('k, 'z) event_base_scheme lres" where
  "event_queue_remove s a queue = fetch (events s a) (\<lambda>e.
     if \<not> listed_as e queue then Raise
     else let s1 = put_event (s\<lparr>event_count := event_count s - 1\<rparr>) a (e\<lparr>ev_flags := ev_flags e AND NOT queue\<rparr>) in
       if queue = EVLIST_INSERTED then
         fetch (tailq_remove (inserted_queue s1, ins_links s1) a) (\<lambda>q.
           Ret (s1\<lparr>inserted_queue := fst q, ins_links := snd q\<rparr>))
       else if queue = EVLIST_ACTIVE then
         fetch (nth_opt (active_queue s1) (ev_pri e)) (\<lambda>h.
         fetch (tailq_remove (h, act_links s1) a) (\<lambda>q.
           Ret (s1\<lparr>active_queue := (active_queue s1)[ev_pri e := fst q], act_links := snd q,
                   event_count_active := event_count_active s1 - 1\<rparr>)))
       else if queue = EVLIST_TIMEOUT then
         fetch (tailq_remove (timeout_queue s1, tmo_links s1) a) (\<lambda>q.
           Ret (s1\<lparr>timeout_queue := fst q, tmo_links := snd q\<rparr>))
       else Raise)"

text \<open>The result of \<open>event_base_priority_init\<close> is \<open>Some (-1)\<close> or not set.\<close>

definition event_base_priority_init ::
  "('k, 'z) event_base_scheme \<Rightarrow> nat \<Rightarrow> int option \<times> ('k, 'z) event_base_scheme" where
  "event_base_priority_init s npriorities =
     (if event_count_active s \<noteq> 0 then (Some (-1), s)
      else (None, s\<lparr>active_queue := replicate npriorities tailq_init\<rparr>))"

definition event_set ::
  "('k, 'z) event_base_scheme \<Rightarrow> nat \<Rightarrow> int \<Rightarrow> 16 word \<Rightarrow> nat \<Rightarrow> ptr \<Rightarrow> ('k, 'z) event_base_scheme lres" where
  "event_set s a fd evs callback arg = fetch (events s a) (\<lambda>e.
     Ret (put_event s a \<lparr>ev_fd = fd, ev_events = evs, ev_callback = callback, ev_arg = arg, ev_res = 0,
       ev_base = current_base s, ev_flags = EVLIST_INIT, ev_ncalls = 0, ev_pncalls = Null,
       ev_pri = (if current_base s then length (active_queue s) div 2 else ev_pri e)\<rparr>))"

text \<open>\<open>if (ev->ev_ncalls && ev->ev_pncalls) *ev->ev_pncalls = 0;\<close>\<close>

definition cancel_calls :: "('k, 'z) event_base_scheme \<Rightarrow> event \<Rightarrow> ('k, 'z) event_base_scheme lres" where
  "cancel_calls s e = (if ev_ncalls e \<noteq> 0 \<and> ev_pncalls e \<noteq> Null
     then fetch (assign (frames s) (ev_pncalls e) (\<lambda>_. 0)) (\<lambda>f. Ret (s\<lparr>frames := f\<rparr>)) else Ret s)"

definition remove_if_listed ::
  "('k, 'z) event_base_scheme \<Rightarrow> nat \<Rightarrow> 32 word \<Rightarrow> ('k, 'z) event_base_scheme lres" where
  "remove_if_listed s a queue = fetch (events s a) (\<lambda>e.
     if listed_as e queue then event_queue_remove s a queue else Ret s)"

text \<open>
  \<open>event_add\<close> over the engine's \<open>add\<close>, with \<open>tv\<close> saying that the time is not null, and
  \<open>event_del\<close> over the engine's \<open>del\<close>.
\<close>

definition event_add_by ::
  "(('k, 'z) event_base_scheme \<Rightarrow> nat \<Rightarrow> (int \<times> ('k, 'z) event_base_scheme) lres) \<Rightarrow>
   ('k, 'z) event_base_scheme \<Rightarrow> nat \<Rightarrow> bool \<Rightarrow> (int \<times> ('k, 'z) event_base_scheme) lres" where
  "event_add_by add s a tv = fetch (events s a) (\<lambda>e.
     if \<not> ev_base e then Fault
     else lbind
       (if wants e (EV_READ OR EV_WRITE OR EV_SIGNAL) \<and> \<not> listed_as e (EVLIST_INSERTED OR EVLIST_ACTIVE) then
          lbind (add s a) (\<lambda>(res, s1).
            if res \<noteq> -1 then lbind (event_queue_insert s1 a EVLIST_INSERTED) (\<lambda>s2. Ret (res, s2))
            else Ret (res, s1))
        else Ret (0, s))
       (\<lambda>(res, s1).
          if res \<noteq> -1 \<and> tv then
            lbind (remove_if_listed s1 a EVLIST_TIMEOUT) (\<lambda>s2.
            lbind (fetch (events s2 a) (\<lambda>e2.
                if listed_as e2 EVLIST_ACTIVE \<and> ev_res e2 AND ucast EV_TIMEOUT \<noteq> 0 then
                  lbind (cancel_calls s2 e2) (\<lambda>s3. event_queue_remove s3 a EVLIST_ACTIVE)
                else Ret s2)) (\<lambda>s4.
            lbind (event_queue_insert s4 a EVLIST_TIMEOUT) (\<lambda>s5. Ret (res, s5))))
          else Ret (res, s1)))"

definition event_del_by ::
  "(('k, 'z) event_base_scheme \<Rightarrow> nat \<Rightarrow> (int \<times> ('k, 'z) event_base_scheme) lres) \<Rightarrow>
   ('k, 'z) event_base_scheme \<Rightarrow> nat \<Rightarrow> (int \<times> ('k, 'z) event_base_scheme) lres" where
  "event_del_by del s a = fetch (events s a) (\<lambda>e.
     if \<not> ev_base e then Ret (-1, s)
     else lbind (cancel_calls s e) (\<lambda>s1.
          lbind (remove_if_listed s1 a EVLIST_TIMEOUT) (\<lambda>s2.
          lbind (remove_if_listed s2 a EVLIST_ACTIVE) (\<lambda>s3.
          fetch (events s3 a) (\<lambda>e3.
            if listed_as e3 EVLIST_INSERTED
            then lbind (event_queue_remove s3 a EVLIST_INSERTED) (\<lambda>s4. del s4 a)
            else Ret (0, s3))))))"

definition event_active ::
  "('k, 'z) event_base_scheme \<Rightarrow> nat \<Rightarrow> 32 word \<Rightarrow> 16 word \<Rightarrow> ('k, 'z) event_base_scheme lres" where
  "event_active s a res ncalls = fetch (events s a) (\<lambda>e.
     if listed_as e EVLIST_ACTIVE then Ret (put_event s a (e\<lparr>ev_res := ev_res e OR res\<rparr>))
     else if \<not> ev_base e then Fault
     else event_queue_insert (put_event s a (e\<lparr>ev_res := res, ev_ncalls := ncalls, ev_pncalls := Null\<rparr>))
            a EVLIST_ACTIVE)"

subsection \<open>Flags\<close>

lemmas evlist_defs = EVLIST_TIMEOUT_def EVLIST_INSERTED_def EVLIST_ACTIVE_def EVLIST_INTERNAL_def EVLIST_INIT_def

lemma flag_tests [simp]:
  "w AND EVLIST_TIMEOUT = 0 \<longleftrightarrow> \<not> bit w 0"
  "w AND EVLIST_INSERTED = 0 \<longleftrightarrow> \<not> bit w 1"
  "w AND EVLIST_ACTIVE = 0 \<longleftrightarrow> \<not> bit w 3"
  using and_exp_eq_0_iff_not_bit [of w 0] and_exp_eq_0_iff_not_bit [of w 1] and_exp_eq_0_iff_not_bit [of w 3]
  by (simp_all add: evlist_defs)

lemma flag_bits [simp]:
  "bit EVLIST_TIMEOUT n \<longleftrightarrow> n = 0" "bit EVLIST_INSERTED n \<longleftrightarrow> n = 1" "bit EVLIST_ACTIVE n \<longleftrightarrow> n = 3"
  using bit_exp_iff [of 0 n, where 'a = "32 word"] bit_exp_iff [of 1 n, where 'a = "32 word"]
    bit_exp_iff [of 3 n, where 'a = "32 word"]
  by (auto simp: evlist_defs)

lemma bit_clear [simp]: "bit (w AND NOT m) n \<longleftrightarrow> bit w n \<and> \<not> bit (m :: 32 word) n"
  by (auto simp: bit_and_iff bit_not_iff dest: bit_imp_le_length)

lemma flags_distinct [simp]:
  "EVLIST_ACTIVE \<noteq> EVLIST_INSERTED" "EVLIST_TIMEOUT \<noteq> EVLIST_INSERTED" "EVLIST_TIMEOUT \<noteq> EVLIST_ACTIVE"
  "EVLIST_INSERTED \<noteq> EVLIST_ACTIVE" "EVLIST_INSERTED \<noteq> EVLIST_TIMEOUT" "EVLIST_ACTIVE \<noteq> EVLIST_TIMEOUT"
  by (simp_all add: evlist_defs)

lemma flag_union [simp]: "w AND (EVLIST_INSERTED OR EVLIST_ACTIVE) = 0 \<longleftrightarrow> \<not> bit w 1 \<and> \<not> bit w 3"
proof -
  have "w AND (EVLIST_INSERTED OR EVLIST_ACTIVE) = (w AND EVLIST_INSERTED) OR (w AND EVLIST_ACTIVE)"
    by (rule bit.conj_disj_distrib)
  then show ?thesis by (simp add: or_eq_0_iff)
qed

subsection \<open>The queues and the flags agree\<close>

text \<open>\<open>flagged s n\<close>: the events with bit \<open>n\<close> of \<open>ev_flags\<close> set.\<close>

definition flagged :: "event store \<Rightarrow> nat \<Rightarrow> nat set" where
  "flagged evs n = {a. \<exists>e. evs a = Some e \<and> bit (ev_flags e) n}"

definition at_priority :: "event store \<Rightarrow> nat \<Rightarrow> nat set" where
  "at_priority evs i = {a. \<exists>e. evs a = Some e \<and> bit (ev_flags e) 3 \<and> ev_pri e = i}"

definition list_view :: "event store \<Rightarrow> tq \<Rightarrow> nat \<Rightarrow> nat list \<Rightarrow> bool" where
  "list_view evs q n as \<longleftrightarrow> tq_holds q as \<and> dom (snd q) = dom evs \<and> set as = flagged evs n"

definition active_view :: "event store \<Rightarrow> tailq list \<Rightarrow> entry store \<Rightarrow> nat list list \<Rightarrow> bool" where
  "active_view evs hs l acts \<longleftrightarrow> length acts = length hs \<and> dom l = dom evs \<and>
     (\<forall>i < length hs. tq_holds (hs ! i, l) (acts ! i) \<and> set (acts ! i) = at_priority evs i) \<and>
     (\<forall>a e. evs a = Some e \<longrightarrow> bit (ev_flags e) 3 \<longrightarrow> ev_pri e < length hs)"

definition active_total :: "nat list list \<Rightarrow> int" where
  "active_total acts = int (sum_list (map length acts))"

definition base_view :: "('k, 'z) event_base_scheme \<Rightarrow> nat list \<Rightarrow> nat list list \<Rightarrow> nat list \<Rightarrow> bool" where
  "base_view s ins acts tmo \<longleftrightarrow>
     list_view (events s) (inserted_queue s, ins_links s) 1 ins \<and>
     active_view (events s) (active_queue s) (act_links s) acts \<and>
     list_view (events s) (timeout_queue s, tmo_links s) 0 tmo \<and>
     event_count s = int (length ins) + active_total acts + int (length tmo) \<and>
     event_count_active s = active_total acts"

lemma in_flagged: "evs a = Some e \<Longrightarrow> a \<in> flagged evs n \<longleftrightarrow> bit (ev_flags e) n"
  by (simp add: flagged_def)

lemma in_priority: "evs a = Some e \<Longrightarrow> a \<in> at_priority evs i \<longleftrightarrow> bit (ev_flags e) 3 \<and> ev_pri e = i"
  by (simp add: at_priority_def)

text \<open>Changing an event without its flags (and priority) keeps the views.\<close>

lemma flagged_same: "evs a = Some e \<Longrightarrow> bit (ev_flags e') n = bit (ev_flags e) n \<Longrightarrow>
  flagged (evs(a \<mapsto> e')) n = flagged evs n"
  by (auto simp: flagged_def split: if_splits)

lemma list_view_same: "list_view evs q n as \<Longrightarrow> evs a = Some e \<Longrightarrow> bit (ev_flags e') n = bit (ev_flags e) n \<Longrightarrow>
  list_view (evs(a \<mapsto> e')) q n as"
  using flagged_same [of evs a e e' n] by (auto simp: list_view_def)

lemma active_view_same: "active_view evs hs l acts \<Longrightarrow> evs a = Some e \<Longrightarrow>
  bit (ev_flags e') 3 = bit (ev_flags e) 3 \<Longrightarrow> ev_pri e' = ev_pri e \<Longrightarrow> active_view (evs(a \<mapsto> e')) hs l acts"
proof -
  assume v: "active_view evs hs l acts" "evs a = Some e" "bit (ev_flags e') 3 = bit (ev_flags e) 3" "ev_pri e' = ev_pri e"
  have "at_priority (evs(a \<mapsto> e')) i = at_priority evs i" for i
    using v(2-4) by (auto simp: at_priority_def split: if_splits)
  then show ?thesis using v by (auto simp: active_view_def)
qed

lemma base_view_put:
  "base_view s ins acts tmo \<Longrightarrow> events s a = Some e \<Longrightarrow> ev_flags e' = ev_flags e \<Longrightarrow> ev_pri e' = ev_pri e \<Longrightarrow>
   base_view (put_event s a e') ins acts tmo"
  by (simp add: base_view_def put_event_def list_view_same active_view_same)

lemma list_view_insert:
  assumes v: "list_view evs q n as" and e: "evs a = Some e" "\<not> bit (ev_flags e) n"
    and e': "bit (ev_flags e') n"
  shows "\<exists>q'. tailq_insert_tail q a = Some q' \<and> list_view (evs(a \<mapsto> e')) q' n (as @ [a])"
proof -
  have "a \<notin> set as" "snd q a \<noteq> None" using v e by (auto simp: list_view_def flagged_def)
  then obtain q' where q': "tailq_insert_tail q a = Some q'" "tq_holds q' (as @ [a])" "dom (snd q') = dom (snd q)"
    using insert_tail_ok [of q as a] v by (auto simp: list_view_def)
  have "flagged (evs(a \<mapsto> e')) n = insert a (flagged evs n)" using e' by (auto simp: flagged_def split: if_splits)
  then show ?thesis using q' v e by (auto simp: list_view_def)
qed

lemma list_view_remove:
  assumes v: "list_view evs q n as" and e: "evs a = Some e" "bit (ev_flags e) n"
    and e': "\<not> bit (ev_flags e') n"
  shows "\<exists>q'. tailq_remove q a = Some q' \<and> list_view (evs(a \<mapsto> e')) q' n (remove1 a as)"
proof -
  have "a \<in> set as" using v e by (auto simp: list_view_def flagged_def)
  then obtain q' where q': "tailq_remove q a = Some q'" "tq_holds q' (remove1 a as)" "dom (snd q') = dom (snd q)"
    using remove_ok [of q as a] v by (auto simp: list_view_def)
  have "flagged (evs(a \<mapsto> e')) n = flagged evs n - {a}" using e' by (auto simp: flagged_def split: if_splits)
  moreover have "set (remove1 a as) = set as - {a}"
    using v tq_distinct [of q as] by (simp add: list_view_def)
  ultimately show ?thesis using q' v e by (auto simp: list_view_def)
qed

text \<open>Entries of one active queue are left alone by operations on another.\<close>

lemma tq_holds_cong: "tq_holds (h, l) as \<Longrightarrow> (\<And>b. b \<in> set as \<Longrightarrow> l' b = l b) \<Longrightarrow> tq_holds (h, l') as"
  unfolding tq_holds_def fst_conv snd_conv using lseg_cong [of as l' l] by blast

lemma active_view_step:
  assumes v: "active_view evs hs l acts" and e: "evs a = Some e" and pri: "ev_pri e' = ev_pri e" "ev_pri e < length hs"
    and q': "tq_holds q' as'" "dom (snd q') = dom l"
    and out: "\<forall>b. b \<notin> insert a (set (acts ! ev_pri e)) \<longrightarrow> snd q' b = l b"
    and as': "set as' = (if bit (ev_flags e') 3 then insert a (set (acts ! ev_pri e)) else set (acts ! ev_pri e) - {a})"
  shows "active_view (evs(a \<mapsto> e')) (hs[ev_pri e := fst q']) (snd q') (acts[ev_pri e := as'])"
proof -
  let ?p = "ev_pri e"
  have pr: "at_priority (evs(a \<mapsto> e')) i = (if i = ?p then set as' else at_priority evs i)" if "i < length hs" for i
    using v e pri as' that by (auto simp: at_priority_def active_view_def split: if_splits)
  have other: "tq_holds (hs ! i, snd q') (acts ! i)" if "i < length hs" "i \<noteq> ?p" for i
  proof (rule tq_holds_cong)
    show "tq_holds (hs ! i, l) (acts ! i)" using v that by (simp add: active_view_def)
    fix b assume "b \<in> set (acts ! i)"
    then have "b \<in> at_priority evs i" using v that by (simp add: active_view_def)
    then have "b \<notin> at_priority evs ?p" "b \<noteq> a" using that e by (auto simp: at_priority_def)
    then show "snd q' b = l b" using out v pri(2) by (simp add: active_view_def)
  qed
  show ?thesis
    unfolding active_view_def
  proof (intro conjI allI impI)
    fix i assume i: "i < length (hs[?p := fst q'])"
    have len: "length acts = length hs" using v by (simp add: active_view_def)
    show "tq_holds (hs[?p := fst q'] ! i, snd q') (acts[?p := as'] ! i)"
      using i q'(1) other [of i] pri(2) len by (cases "i = ?p") simp_all
    show "set (acts[?p := as'] ! i) = at_priority (evs(a \<mapsto> e')) i"
      using i pr [of i] v pri(2) len by (cases "i = ?p") (simp_all add: active_view_def)
  next
    fix b f assume "(evs(a \<mapsto> e')) b = Some f" "bit (ev_flags f) 3"
    then show "ev_pri f < length (hs[?p := fst q'])"
      using v pri by (auto simp: active_view_def split: if_splits)
  qed (use v q'(2) e in \<open>auto simp: active_view_def\<close>)
qed

lemma active_view_insert:
  assumes v: "active_view evs hs l acts" and e: "evs a = Some e" "\<not> bit (ev_flags e) 3" "ev_pri e < length hs"
    and e': "bit (ev_flags e') 3" "ev_pri e' = ev_pri e"
  shows "\<exists>q'. tailq_insert_tail (hs ! ev_pri e, l) a = Some q' \<and>
    active_view (evs(a \<mapsto> e')) (hs[ev_pri e := fst q']) (snd q') (acts[ev_pri e := acts ! ev_pri e @ [a]])"
proof -
  have a: "a \<notin> set (acts ! ev_pri e)" "l a \<noteq> None" "tq_holds (hs ! ev_pri e, l) (acts ! ev_pri e)"
    using v e by (auto simp: active_view_def at_priority_def)
  obtain q' where q': "tailq_insert_tail (hs ! ev_pri e, l) a = Some q'" "tq_holds q' (acts ! ev_pri e @ [a])"
    "dom (snd q') = dom l" "\<forall>b. b \<notin> set (acts ! ev_pri e @ [a]) \<longrightarrow> snd q' b = l b"
    using insert_tail_ok [OF a(3), of a] a by auto
  show ?thesis
    using active_view_step [OF v e(1) e'(2) e(3) q'(2,3)] q'(1,4) e'(1) by simp
qed

lemma active_view_remove:
  assumes v: "active_view evs hs l acts" and e: "evs a = Some e" "bit (ev_flags e) 3"
    and e': "\<not> bit (ev_flags e') 3" "ev_pri e' = ev_pri e"
  shows "ev_pri e < length hs \<and> (\<exists>q'. tailq_remove (hs ! ev_pri e, l) a = Some q' \<and>
    active_view (evs(a \<mapsto> e')) (hs[ev_pri e := fst q']) (snd q') (acts[ev_pri e := remove1 a (acts ! ev_pri e)]))"
proof -
  have p: "ev_pri e < length hs" using v e by (auto simp: active_view_def)
  have a: "a \<in> set (acts ! ev_pri e)" "tq_holds (hs ! ev_pri e, l) (acts ! ev_pri e)"
    using v e p by (auto simp: active_view_def at_priority_def)
  obtain q' where q': "tailq_remove (hs ! ev_pri e, l) a = Some q'" "tq_holds q' (remove1 a (acts ! ev_pri e))"
    "dom (snd q') = dom l" "\<forall>b. b \<notin> set (acts ! ev_pri e) \<longrightarrow> snd q' b = l b"
    using remove_ok [OF a(2,1)] by auto
  have "set (remove1 a (acts ! ev_pri e)) = set (acts ! ev_pri e) - {a}" using tq_distinct [OF a(2)] by simp
  then show ?thesis
    using active_view_step [OF v e(1) e'(2) p q'(2,3)] q'(1,4) e'(1) p by simp
qed

lemma active_total_update:
  "i < length acts \<Longrightarrow> active_total (acts[i := x]) = active_total acts + int (length x) - int (length (acts ! i))"
proof -
  assume i: "i < length acts"
  have "length (acts ! i) \<le> sum_list (map length acts)"
    using member_le_sum_list [of "length (acts ! i)" "map length acts"] i by simp
  then show ?thesis
    using sum_list_update [of i "map length acts" "length x"] i by (simp add: active_total_def map_update)
qed

lemma length_remove1_in: "x \<in> set xs \<Longrightarrow> int (length (remove1 x xs)) = int (length xs) - 1"
  using length_pos_if_in_set [of x xs] by (simp add: length_remove1 of_nat_diff Suc_leI del: length_greater_0_conv)

subsection \<open>Insertion and removal keep the agreement\<close>

lemma insert_inserted:
  assumes v: "base_view s ins acts tmo" and e: "events s a = Some e" "\<not> bit (ev_flags e) 1"
  shows "\<exists>h l s'. event_queue_insert s a EVLIST_INSERTED = Ret s' \<and> base_view s' (ins @ [a]) acts tmo \<and>
    s' = s\<lparr>event_count := event_count s + 1, events := (events s)(a \<mapsto> e\<lparr>ev_flags := ev_flags e OR EVLIST_INSERTED\<rparr>),
      inserted_queue := h, ins_links := l\<rparr>"
proof -
  let ?e = "e\<lparr>ev_flags := ev_flags e OR EVLIST_INSERTED\<rparr>"
  note w = v [unfolded base_view_def]
  have "list_view (events s) (inserted_queue s, ins_links s) 1 ins" using w by blast
  from list_view_insert [OF this e, of ?e]
  obtain q where q: "tailq_insert_tail (inserted_queue s, ins_links s) a = Some q"
    "list_view ((events s)(a \<mapsto> ?e)) q 1 (ins @ [a])" by (auto simp: bit_or_iff)
  have o: "list_view ((events s)(a \<mapsto> ?e)) (timeout_queue s, tmo_links s) 0 tmo"
    by (rule list_view_same [of "events s" _ _ _ a e ?e]) (use w e in \<open>auto simp: bit_or_iff\<close>)
  have c: "active_view ((events s)(a \<mapsto> ?e)) (active_queue s) (act_links s) acts"
    by (rule active_view_same [of "events s" _ _ _ a e ?e]) (use w e in \<open>auto simp: bit_or_iff\<close>)
  show ?thesis using w e q o c 
    by (intro exI [of _ "fst q"] exI [of _ "snd q"])
      (simp add: event_queue_insert_def base_view_def put_event_def Let_def)
qed

lemma insert_timeout:
  assumes v: "base_view s ins acts tmo" and e: "events s a = Some e" "\<not> bit (ev_flags e) 0"
  shows "\<exists>h l s'. event_queue_insert s a EVLIST_TIMEOUT = Ret s' \<and> base_view s' ins acts (tmo @ [a]) \<and>
    s' = s\<lparr>event_count := event_count s + 1, events := (events s)(a \<mapsto> e\<lparr>ev_flags := ev_flags e OR EVLIST_TIMEOUT\<rparr>),
      timeout_queue := h, tmo_links := l\<rparr>"
proof -
  let ?e = "e\<lparr>ev_flags := ev_flags e OR EVLIST_TIMEOUT\<rparr>"
  note w = v [unfolded base_view_def]
  have "list_view (events s) (timeout_queue s, tmo_links s) 0 tmo" using w by blast
  from list_view_insert [OF this e, of ?e]
  obtain q where q: "tailq_insert_tail (timeout_queue s, tmo_links s) a = Some q"
    "list_view ((events s)(a \<mapsto> ?e)) q 0 (tmo @ [a])" by (auto simp: bit_or_iff)
  have o: "list_view ((events s)(a \<mapsto> ?e)) (inserted_queue s, ins_links s) 1 ins"
    by (rule list_view_same [of "events s" _ _ _ a e ?e]) (use w e in \<open>auto simp: bit_or_iff\<close>)
  have c: "active_view ((events s)(a \<mapsto> ?e)) (active_queue s) (act_links s) acts"
    by (rule active_view_same [of "events s" _ _ _ a e ?e]) (use w e in \<open>auto simp: bit_or_iff\<close>)
  show ?thesis using w e q o c 
    by (intro exI [of _ "fst q"] exI [of _ "snd q"])
      (simp add: event_queue_insert_def base_view_def put_event_def Let_def)
qed

lemma remove_inserted:
  assumes v: "base_view s ins acts tmo" and e: "events s a = Some e" "bit (ev_flags e) 1"
  shows "\<exists>h l s'. event_queue_remove s a EVLIST_INSERTED = Ret s' \<and> base_view s' (remove1 a ins) acts tmo \<and>
    s' = s\<lparr>event_count := event_count s - 1, events := (events s)(a \<mapsto> e\<lparr>ev_flags := ev_flags e AND NOT EVLIST_INSERTED\<rparr>),
      inserted_queue := h, ins_links := l\<rparr>"
proof -
  let ?e = "e\<lparr>ev_flags := ev_flags e AND NOT EVLIST_INSERTED\<rparr>"
  note w = v [unfolded base_view_def]
  have "list_view (events s) (inserted_queue s, ins_links s) 1 ins" using w by blast
  from list_view_remove [OF this e, of ?e]
  obtain q where q: "tailq_remove (inserted_queue s, ins_links s) a = Some q"
    "list_view ((events s)(a \<mapsto> ?e)) q 1 (remove1 a ins)" by (auto simp: bit_or_iff)
  have o: "list_view ((events s)(a \<mapsto> ?e)) (timeout_queue s, tmo_links s) 0 tmo"
    by (rule list_view_same [of "events s" _ _ _ a e ?e]) (use w e in \<open>auto simp: bit_or_iff\<close>)
  have c: "active_view ((events s)(a \<mapsto> ?e)) (active_queue s) (act_links s) acts"
    by (rule active_view_same [of "events s" _ _ _ a e ?e]) (use w e in \<open>auto simp: bit_or_iff\<close>)
  have m: "a \<in> set ins" using w e by (auto simp: list_view_def flagged_def)
  show ?thesis using w e q o c m
    by (intro exI [of _ "fst q"] exI [of _ "snd q"])
      (simp add: event_queue_remove_def base_view_def put_event_def Let_def length_remove1_in)
qed

lemma remove_timeout:
  assumes v: "base_view s ins acts tmo" and e: "events s a = Some e" "bit (ev_flags e) 0"
  shows "\<exists>h l s'. event_queue_remove s a EVLIST_TIMEOUT = Ret s' \<and> base_view s' ins acts (remove1 a tmo) \<and>
    s' = s\<lparr>event_count := event_count s - 1, events := (events s)(a \<mapsto> e\<lparr>ev_flags := ev_flags e AND NOT EVLIST_TIMEOUT\<rparr>),
      timeout_queue := h, tmo_links := l\<rparr>"
proof -
  let ?e = "e\<lparr>ev_flags := ev_flags e AND NOT EVLIST_TIMEOUT\<rparr>"
  note w = v [unfolded base_view_def]
  have "list_view (events s) (timeout_queue s, tmo_links s) 0 tmo" using w by blast
  from list_view_remove [OF this e, of ?e]
  obtain q where q: "tailq_remove (timeout_queue s, tmo_links s) a = Some q"
    "list_view ((events s)(a \<mapsto> ?e)) q 0 (remove1 a tmo)" by (auto simp: bit_or_iff)
  have o: "list_view ((events s)(a \<mapsto> ?e)) (inserted_queue s, ins_links s) 1 ins"
    by (rule list_view_same [of "events s" _ _ _ a e ?e]) (use w e in \<open>auto simp: bit_or_iff\<close>)
  have c: "active_view ((events s)(a \<mapsto> ?e)) (active_queue s) (act_links s) acts"
    by (rule active_view_same [of "events s" _ _ _ a e ?e]) (use w e in \<open>auto simp: bit_or_iff\<close>)
  have m: "a \<in> set tmo" using w e by (auto simp: list_view_def flagged_def)
  show ?thesis using w e q o c m
    by (intro exI [of _ "fst q"] exI [of _ "snd q"])
      (simp add: event_queue_remove_def base_view_def put_event_def Let_def length_remove1_in)
qed

lemma insert_active:
  assumes v: "base_view s ins acts tmo" and e: "events s a = Some e" "\<not> bit (ev_flags e) 3" "ev_pri e < length (active_queue s)"
  shows "\<exists>hs l s'. event_queue_insert s a EVLIST_ACTIVE = Ret s' \<and>
    base_view s' ins (acts[ev_pri e := acts ! ev_pri e @ [a]]) tmo \<and>
    s' = s\<lparr>event_count := event_count s + 1, events := (events s)(a \<mapsto> e\<lparr>ev_flags := ev_flags e OR EVLIST_ACTIVE\<rparr>),
      event_count_active := event_count_active s + 1, active_queue := hs, act_links := l\<rparr>"
proof -
  let ?e = "e\<lparr>ev_flags := ev_flags e OR EVLIST_ACTIVE\<rparr>"
  note w = v [unfolded base_view_def]
  have a: "active_view (events s) (active_queue s) (act_links s) acts" using w by blast
  obtain q where q: "tailq_insert_tail (active_queue s ! ev_pri e, act_links s) a = Some q"
    "active_view ((events s)(a \<mapsto> ?e)) ((active_queue s)[ev_pri e := fst q]) (snd q) (acts[ev_pri e := acts ! ev_pri e @ [a]])"
    using active_view_insert [OF a e, of ?e] by (auto simp: bit_or_iff)
  have p: "ev_pri e < length (active_queue s)" "ev_pri e < length acts"
    using a e by (auto simp: active_view_def at_priority_def)
  have l0: "list_view ((events s)(a \<mapsto> ?e)) (timeout_queue s, tmo_links s) 0 tmo"
    by (rule list_view_same [of "events s" _ _ _ a e ?e]) (use w e in \<open>auto simp: bit_or_iff\<close>)
  have l1: "list_view ((events s)(a \<mapsto> ?e)) (inserted_queue s, ins_links s) 1 ins"
    by (rule list_view_same [of "events s" _ _ _ a e ?e]) (use w e in \<open>auto simp: bit_or_iff\<close>)
  have t: "active_total (acts[ev_pri e := acts ! ev_pri e @ [a]]) = active_total acts + 1"
    using p by (simp add: active_total_update)
  show ?thesis using w e q p l0 l1 t
    by (intro exI [of _ "(active_queue s)[ev_pri e := fst q]"] exI [of _ "snd q"])
      (simp add: event_queue_insert_def base_view_def put_event_def Let_def)
qed

lemma remove_active:
  assumes v: "base_view s ins acts tmo" and e: "events s a = Some e" "bit (ev_flags e) 3"
  shows "\<exists>hs l s'. event_queue_remove s a EVLIST_ACTIVE = Ret s' \<and>
    base_view s' ins (acts[ev_pri e := remove1 a (acts ! ev_pri e)]) tmo \<and>
    s' = s\<lparr>event_count := event_count s - 1, events := (events s)(a \<mapsto> e\<lparr>ev_flags := ev_flags e AND NOT EVLIST_ACTIVE\<rparr>),
      active_queue := hs, act_links := l, event_count_active := event_count_active s - 1\<rparr>"
proof -
  let ?e = "e\<lparr>ev_flags := ev_flags e AND NOT EVLIST_ACTIVE\<rparr>"
  note w = v [unfolded base_view_def]
  have a: "active_view (events s) (active_queue s) (act_links s) acts" using w by blast
  obtain q where q: "tailq_remove (active_queue s ! ev_pri e, act_links s) a = Some q"
    "active_view ((events s)(a \<mapsto> ?e)) ((active_queue s)[ev_pri e := fst q]) (snd q) (acts[ev_pri e := remove1 a (acts ! ev_pri e)])"
    using active_view_remove [OF a e, of ?e] by (auto simp: bit_or_iff)
  have p: "ev_pri e < length (active_queue s)" "ev_pri e < length acts" "a \<in> set (acts ! ev_pri e)"
    using a e by (auto simp: active_view_def at_priority_def)
  have l0: "list_view ((events s)(a \<mapsto> ?e)) (timeout_queue s, tmo_links s) 0 tmo"
    by (rule list_view_same [of "events s" _ _ _ a e ?e]) (use w e in \<open>auto simp: bit_or_iff\<close>)
  have l1: "list_view ((events s)(a \<mapsto> ?e)) (inserted_queue s, ins_links s) 1 ins"
    by (rule list_view_same [of "events s" _ _ _ a e ?e]) (use w e in \<open>auto simp: bit_or_iff\<close>)
  have t: "active_total (acts[ev_pri e := remove1 a (acts ! ev_pri e)]) = active_total acts - 1"
    using p by (simp add: active_total_update length_remove1_in)
  show ?thesis using w e q p l0 l1 t
    by (intro exI [of _ "(active_queue s)[ev_pri e := fst q]"] exI [of _ "snd q"])
      (simp add: event_queue_remove_def base_view_def put_event_def Let_def)
qed

end
