(* ===== verification/Ev_Loop.thy ===== *)
theory Ev_Loop
  imports Ev_Event "HOL-Library.Signed_Division"
begin

section \<open>my\_event: epoll, signals and the loop\<close>

text \<open>
  \<open>cs/my_event/epoll.c\<close>, \<open>cs/my_event/signal.c\<close> and the loop of \<open>cs/my_event/event.c\<close>.  The
  three files call one another (\<open>event_add\<close>, \<open>epoll_add\<close>, \<open>evsignal_add\<close>, \<open>event_add\<close> of the
  internal event), so the descriptor part of \<open>epoll_add\<close> comes first.  The kernel is a state
  of any type and \<open>epoll_ctl\<close> a function on it; the results of \<open>epoll_wait\<close>, of \<open>sigaction\<close> and
  of the two allocations for a signal handler, and the callbacks, are parameters.  A slot of the descriptor table is the pair
  \<open>evread\<close>, \<open>evwrite\<close>; \<open>epev.data.ptr\<close> is its index.  The socket pair that wakes the loop
  carries no information and its calls are left out.
\<close>

datatype ctl_op = Ctl_add | Ctl_mod | Ctl_del

definition EPOLLIN :: "32 word" where "EPOLLIN = 0x01"
definition EPOLLOUT :: "32 word" where "EPOLLOUT = 0x04"
definition EPOLLERR :: "32 word" where "EPOLLERR = 0x08"
definition EPOLLHUP :: "32 word" where "EPOLLHUP = 0x10"

text \<open>
  \<open>sys_ctl op fd events\<close>: \<open>None\<close> is a null \<open>epoll_event\<close> pointer.  \<open>sys_sh_array n\<close> says whether
  the array of saved actions can be made to hold \<open>n\<close> pointers, \<open>sys_sh_slot\<close> whether the block for
  the action of a signal is found.
\<close>

record 'k sys =
  sys_ctl :: "ctl_op \<Rightarrow> int \<Rightarrow> 32 word option \<Rightarrow> 'k \<Rightarrow> int \<times> 'k"
  sys_sigaction :: "nat \<Rightarrow> bool"
  sys_sh_array :: "nat \<Rightarrow> bool"
  sys_sh_slot :: "nat \<Rightarrow> bool"

subsection \<open>Adding and deleting descriptors\<close>

definition epoll_add_fd ::
  "'k sys \<Rightarrow> ('k, 'z) event_base_scheme \<Rightarrow> nat \<Rightarrow> (int \<times> ('k, 'z) event_base_scheme) lres" where
  "epoll_add_fd sys s a = fetch (events s a) (\<lambda>e.
     if ev_fd e \<ge> int (length (epfds s)) then Ret (-1, s)
     else if ev_fd e < 0 then Fault
     else let fd = nat (ev_fd e); r = fst (epfds s ! fd); w = snd (epfds s ! fd);
         op = (if r \<noteq> Null \<or> w \<noteq> Null then Ctl_mod else Ctl_add);
         evs = (if r \<noteq> Null then EPOLLIN else 0) OR (if w \<noteq> Null then EPOLLOUT else 0)
           OR (if wants e EV_READ then EPOLLIN else 0) OR (if wants e EV_WRITE then EPOLLOUT else 0);
         k = snd (sys_ctl sys op (ev_fd e) (Some evs) (kernel s))
       in Ret (0, s\<lparr>kernel := k, epfds := (epfds s)[fd :=
            (if wants e EV_READ then Ptr a else r, if wants e EV_WRITE then Ptr a else w)]\<rparr>))"

text \<open>
  \<open>evsignal_del\<close> has an empty body and \<open>epoll_del\<close> returns its value, which is undefined.
\<close>

definition evsignal_del :: "('k, 'z) event_base_scheme \<Rightarrow> nat \<Rightarrow> (int \<times> ('k, 'z) event_base_scheme) lres" where
  "evsignal_del s a = Fault"

definition epoll_del ::
  "'k sys \<Rightarrow> ('k, 'z) event_base_scheme \<Rightarrow> nat \<Rightarrow> (int \<times> ('k, 'z) event_base_scheme) lres" where
  "epoll_del sys s a = fetch (events s a) (\<lambda>e.
     if wants e EV_SIGNAL then evsignal_del s a
     else if ev_fd e \<ge> int (length (epfds s)) then Ret (0, s)
     else if ev_fd e < 0 then Fault
     else let fd = nat (ev_fd e); r = fst (epfds s ! fd); w = snd (epfds s ! fd);
         rd = wants e EV_READ; wr = wants e EV_WRITE;
         keepw = (\<not> (rd \<and> wr) \<and> rd \<and> w \<noteq> Null);
         keepr = (\<not> (rd \<and> wr) \<and> \<not> keepw \<and> wr \<and> r \<noteq> Null);
         op = (if keepw \<or> keepr then Ctl_mod else Ctl_del);
         s1 = s\<lparr>epfds := (epfds s)[fd := (if keepr then r else Null, if keepw then w else Null)]\<rparr>;
         (res, k) = sys_ctl sys op (ev_fd e) None (kernel s)
       in Ret (if res = -1 then -1 else 0, s1\<lparr>kernel := k\<rparr>))"

definition event_del ::
  "'k sys \<Rightarrow> ('k, 'z) event_base_scheme \<Rightarrow> nat \<Rightarrow> (int \<times> ('k, 'z) event_base_scheme) lres" where
  "event_del sys = event_del_by (epoll_del sys)"

subsection \<open>Signals\<close>

definition evsignal_init ::
  "int \<times> int \<Rightarrow> nat \<Rightarrow> nat \<Rightarrow> nat \<Rightarrow> ('k, 'z) event_base_scheme \<Rightarrow> ('k, 'z) event_base_scheme lres" where
  "evsignal_init pair nsig evsignal_cb arg s =
     (let s1 = s\<lparr>ev_signal_pair := pair, sh_old := [], evsignal_caught := False,
                evsigcaught := replicate nsig 0, evsigevents := replicate nsig tailq_init\<rparr> in
      lbind (event_set s1 (ev_signal s1) (snd pair) (EV_READ OR EV_PERSIST) evsignal_cb (Ptr arg)) (\<lambda>s2.
      fetch (events s2 (ev_signal s2)) (\<lambda>e.
        Ret (put_event s2 (ev_signal s2) (e\<lparr>ev_base := True, ev_flags := ev_flags e OR EVLIST_INTERNAL\<rparr>)))))"

definition evsignal_set_handler ::
  "'k sys \<Rightarrow> ('k, 'z) event_base_scheme \<Rightarrow> nat \<Rightarrow> int \<times> ('k, 'z) event_base_scheme" where
  "evsignal_set_handler sys s evsignal =
     (if evsignal \<ge> length (sh_old s) \<and> \<not> sys_sh_array sys (evsignal + 1) then (-1, s)
      else let old = (if evsignal \<ge> length (sh_old s)
                 then sh_old s @ replicate (evsignal + 1 - length (sh_old s)) Sh_null else sh_old s) in
        if \<not> sys_sh_slot sys evsignal then (-1, s\<lparr>sh_old := old[evsignal := Sh_null]\<rparr>)
        else if sys_sigaction sys evsignal then (0, s\<lparr>sh_old := old[evsignal := Sh_block]\<rparr>)
        else (-1, s\<lparr>sh_old := old[evsignal := Sh_freed]\<rparr>))"

definition handler_ok :: "'k sys \<Rightarrow> nat \<Rightarrow> bool" where
  "handler_ok sys n \<longleftrightarrow> sys_sh_array sys (n + 1) \<and> sys_sh_slot sys n \<and> sys_sigaction sys n"

definition evsignal_handler :: "('k, 'z) event_base_scheme \<Rightarrow> nat \<Rightarrow> ('k, 'z) event_base_scheme lres" where
  "evsignal_handler s sig =
     (if \<not> evsignal_base s then Ret s
      else fetch (nth_opt (evsigcaught s) sig) (\<lambda>c.
        let s1 = s\<lparr>evsigcaught := (evsigcaught s)[sig := c + 1], evsignal_caught := True\<rparr> in
        if current_base s1 then Ret s1 else Raise))"

text \<open>
  The internal event is added by \<open>event_add\<close> again; were it a signal event itself, the calls
  would never end.
\<close>

definition add_internal ::
  "'k sys \<Rightarrow> ('k, 'z) event_base_scheme \<Rightarrow> nat \<Rightarrow> (int \<times> ('k, 'z) event_base_scheme) lres" where
  "add_internal sys s a = fetch (events s a) (\<lambda>e.
     if wants e EV_SIGNAL then Fault else epoll_add_fd sys s a)"

definition evsignal_add ::
  "'k sys \<Rightarrow> ('k, 'z) event_base_scheme \<Rightarrow> nat \<Rightarrow> (int \<times> ('k, 'z) event_base_scheme) lres" where
  "evsignal_add sys s a = fetch (events s a) (\<lambda>e.
     if \<not> ev_base e then Fault
     else if wants e (EV_READ OR EV_WRITE) then Raise
     else if \<not> (0 \<le> ev_fd e \<and> ev_fd e < int (length (evsigevents s))) then Raise
     else let n = nat (ev_fd e) in
       lbind
         (if tailq_empty (evsigevents s ! n) then
            (let (r, s1) = evsignal_set_handler sys s n in
             if r = -1 then Ret (-1, s1)
             else let s2 = s1\<lparr>evsignal_base := True\<rparr> in
               if \<not> ev_signal_added s2 then
                 lbind (event_add_by (add_internal sys) s2 (ev_signal s2) False) (\<lambda>(r2, s3).
                   if r2 \<noteq> 0 then Ret (-1, s3) else Ret (0, s3\<lparr>ev_signal_added := True\<rparr>))
               else Ret (0, s2))
          else Ret (0, s))
         (\<lambda>(r :: int, s1). if r = -1 then Ret (-1, s1)
            else fetch (tailq_insert_tail (evsigevents s1 ! n, sig_links s1) a) (\<lambda>q.
              Ret (0, s1\<lparr>evsigevents := (evsigevents s1)[n := fst q], sig_links := snd q\<rparr>))))"

definition epoll_add ::
  "'k sys \<Rightarrow> ('k, 'z) event_base_scheme \<Rightarrow> nat \<Rightarrow> (int \<times> ('k, 'z) event_base_scheme) lres" where
  "epoll_add sys s a = fetch (events s a) (\<lambda>e.
     if wants e EV_SIGNAL then evsignal_add sys s a else epoll_add_fd sys s a)"

definition event_add ::
  "'k sys \<Rightarrow> ('k, 'z) event_base_scheme \<Rightarrow> nat \<Rightarrow> bool \<Rightarrow> (int \<times> ('k, 'z) event_base_scheme) lres" where
  "event_add sys = event_add_by (epoll_add sys)"

text \<open>The loop over the events of one signal; \<open>fuel\<close> bounds the number of events.\<close>

fun sig_events_loop ::
  "'k sys \<Rightarrow> 16 word \<Rightarrow> nat \<Rightarrow> ptr \<Rightarrow> ('k, 'z) event_base_scheme \<Rightarrow> ('k, 'z) event_base_scheme lres" where
  "sig_events_loop sys ncalls fuel Null s = Ret s"
| "sig_events_loop sys ncalls fuel Wild s = Fault"
| "sig_events_loop sys ncalls 0 (Ptr a) s = Fault"
| "sig_events_loop sys ncalls (Suc fuel) (Ptr a) s = fetch (sig_links s a) (\<lambda>l. fetch (events s a) (\<lambda>e.
     lbind (if \<not> wants e EV_PERSIST then lbind (event_del sys s a) (\<lambda>(_, s1). Ret s1) else Ret s) (\<lambda>s1.
     lbind (event_active s1 a (ucast EV_SIGNAL) ncalls) (\<lambda>s2.
       sig_events_loop sys ncalls fuel (tqe_next l) s2))))"

fun sig_loop ::
  "'k sys \<Rightarrow> nat \<Rightarrow> nat list \<Rightarrow> ('k, 'z) event_base_scheme \<Rightarrow> ('k, 'z) event_base_scheme lres" where
  "sig_loop sys fuel [] s = Ret s"
| "sig_loop sys fuel (i # is) s = fetch (nth_opt (evsigcaught s) i) (\<lambda>c.
     if c = 0 then sig_loop sys fuel is s
     else fetch (nth_opt (evsigevents s) i) (\<lambda>h.
       lbind (sig_events_loop sys (ucast c) fuel (tqh_first h) s) (\<lambda>s1.
         sig_loop sys fuel is (s1\<lparr>evsigcaught := (evsigcaught s1)[i := 0]\<rparr>))))"

definition evsignal_process ::
  "'k sys \<Rightarrow> nat \<Rightarrow> ('k, 'z) event_base_scheme \<Rightarrow> ('k, 'z) event_base_scheme lres" where
  "evsignal_process sys fuel s =
     sig_loop sys fuel [1..<length (evsigevents s)] (s\<lparr>evsignal_caught := False\<rparr>)"

subsection \<open>Waiting\<close>

definition max_epoll_timeout :: int where
  "max_epoll_timeout = 35 * 60 * 1000"

text \<open>Seconds and microseconds are \<open>long\<close>: a sum or product past 64 bits is undefined.\<close>

definition c_long :: "int \<Rightarrow> int option" where
  "c_long x = (if - (2 ^ 63) \<le> x \<and> x < 2 ^ 63 then Some x else None)"

definition epoll_timeout :: "(int \<times> int) option \<Rightarrow> int option" where
  "epoll_timeout tv = do {
     t \<leftarrow> (case tv of None \<Rightarrow> Some (-1)
       | Some (sec, usec) \<Rightarrow> do {
           ms \<leftarrow> c_long (sec * 1000);
           u \<leftarrow> c_long (usec + 999);
           n \<leftarrow> c_long (ms + u sdiv 1000);
           Some (sint (word_of_int n :: 32 word)) });
     Some (if t > max_epoll_timeout then max_epoll_timeout else t) }"

text \<open>The result of \<open>epoll_wait\<close>: an error, or for each ready slot what happened.\<close>

datatype waited = Wait_error | Interrupted | Ready "(nat \<times> 32 word) list"

definition activate :: "('k, 'z) event_base_scheme \<Rightarrow> ptr \<Rightarrow> 16 word \<Rightarrow> ('k, 'z) event_base_scheme lres" where
  "activate s p res = (case p of Null \<Rightarrow> Ret s | Wild \<Rightarrow> Fault | Ptr a \<Rightarrow> event_active s a (ucast res) 1)"

fun ready_loop :: "(nat \<times> 32 word) list \<Rightarrow> ('k, 'z) event_base_scheme \<Rightarrow> ('k, 'z) event_base_scheme lres" where
  "ready_loop [] s = Ret s"
| "ready_loop ((i, what) # rs) s = fetch (nth_opt (epfds s) i) (\<lambda>(r, w).
     let hup = (what AND (EPOLLHUP OR EPOLLERR) \<noteq> 0);
         evread = (if hup \<or> what AND EPOLLIN \<noteq> 0 then r else Null);
         evwrite = (if hup \<or> what AND EPOLLOUT \<noteq> 0 then w else Null) in
     lbind (activate s evread EV_READ) (\<lambda>s1. lbind (activate s1 evwrite EV_WRITE) (ready_loop rs)))"

definition epoll_dispatch ::
  "'k sys \<Rightarrow> nat \<Rightarrow> waited \<Rightarrow> ('k, 'z) event_base_scheme \<Rightarrow> (int \<times> ('k, 'z) event_base_scheme) lres" where
  "epoll_dispatch sys fuel w s = (case w of
     Wait_error \<Rightarrow> Ret (-1, s)
   | Interrupted \<Rightarrow> lbind (evsignal_process sys fuel s) (\<lambda>s1. Ret (0, s1))
   | Ready rs \<Rightarrow>
       lbind (if evsignal_caught s then evsignal_process sys fuel s else Ret s) (\<lambda>s1.
       lbind (ready_loop rs s1) (\<lambda>s2. Ret (0, s2))))"

subsection \<open>Calling the active events\<close>

type_synonym ('k, 'z) callbacks =
  "nat \<Rightarrow> int \<Rightarrow> 16 word \<Rightarrow> ptr \<Rightarrow> ('k, 'z) event_base_scheme \<Rightarrow> ('k, 'z) event_base_scheme lres"

text \<open>\<open>while (ncalls) {...}\<close>, with \<open>ncalls\<close> at \<open>fr\<close>.\<close>

fun call_loop ::
  "('k, 'z) callbacks \<Rightarrow> nat \<Rightarrow> nat \<Rightarrow> nat \<Rightarrow> ('k, 'z) event_base_scheme \<Rightarrow> ('k, 'z) event_base_scheme lres" where
  "call_loop run 0 fr a s = Fault"
| "call_loop run (Suc fuel) fr a s = fetch (frames s fr) (\<lambda>c.
     if c = 0 then Ret s
     else let s1 = s\<lparr>frames := (frames s)(fr \<mapsto> c - 1)\<rparr> in fetch (events s1 a) (\<lambda>e.
       lbind (run (ev_callback e) (ev_fd e) (ucast (ev_res e)) (ev_arg e)
               (put_event s1 a (e\<lparr>ev_ncalls := c - 1\<rparr>)))
         (call_loop run fuel fr a)))"

fun active_loop ::
  "'k sys \<Rightarrow> ('k, 'z) callbacks \<Rightarrow> nat \<Rightarrow> nat \<Rightarrow> nat \<Rightarrow> ('k, 'z) event_base_scheme \<Rightarrow> ('k, 'z) event_base_scheme lres" where
  "active_loop sys run 0 i fr s = Fault"
| "active_loop sys run (Suc fuel) i fr s = fetch (nth_opt (active_queue s) i) (\<lambda>h.
     case tqh_first h of Null \<Rightarrow> Ret s | Wild \<Rightarrow> Fault
     | Ptr a \<Rightarrow> fetch (events s a) (\<lambda>e.
         lbind (if wants e EV_PERSIST then event_queue_remove s a EVLIST_ACTIVE
                else lbind (event_del sys s a) (\<lambda>(_, s1). Ret s1)) (\<lambda>s1.
         fetch (events s1 a) (\<lambda>e1.
           lbind (call_loop run fuel fr a
                    (put_event (s1\<lparr>frames := (frames s1)(fr \<mapsto> ev_ncalls e1)\<rparr>) a (e1\<lparr>ev_pncalls := Ptr fr\<rparr>)))
             (active_loop sys run fuel i fr)))))"

fun first_active :: "nat \<Rightarrow> tailq list \<Rightarrow> nat option" where
  "first_active i [] = None"
| "first_active i (h # hs) = (if tqh_first h \<noteq> Null then Some i else first_active (Suc i) hs)"

definition event_process_active ::
  "'k sys \<Rightarrow> ('k, 'z) callbacks \<Rightarrow> nat \<Rightarrow> ('k, 'z) event_base_scheme \<Rightarrow> ('k, 'z) event_base_scheme lres" where
  "event_process_active sys run fuel s = (let fr = next_frame s in
     case first_active 0 (active_queue s) of None \<Rightarrow> Fault
     | Some i \<Rightarrow>
         lbind (active_loop sys run fuel i fr (s\<lparr>next_frame := fr + 1, frames := (frames s)(fr \<mapsto> 0)\<rparr>)) (\<lambda>s1.
           Ret (s1\<lparr>frames := (frames s1)(fr := None)\<rparr>)))"

text \<open>
  A round of \<open>event_base_loop\<close> from the dispatch on, and the rounds, which never end, for a list
  of what each finds: the result of \<open>epoll_wait\<close>, and before it the local variable \<open>tv\<close>, which
  nothing initialises, because \<open>timeout_next\<close> has an empty body.  Its address is taken, so that
  it holds some values, from which the dispatch computes the time to wait.
\<close>

definition event_loop_step ::
  "'k sys \<Rightarrow> ('k, 'z) callbacks \<Rightarrow> nat \<Rightarrow> waited \<Rightarrow> ('k, 'z) event_base_scheme \<Rightarrow> ('k, 'z) event_base_scheme lres" where
  "event_loop_step sys run fuel w s =
     lbind (epoll_dispatch sys fuel w s) (\<lambda>(_, s1).
       if event_count_active s1 \<noteq> 0 then event_process_active sys run fuel s1 else Ret s1)"

fun event_rounds ::
  "'k sys \<Rightarrow> ('k, 'z) callbacks \<Rightarrow> nat \<Rightarrow> ((int \<times> int) \<times> waited) list \<Rightarrow> ('k, 'z) event_base_scheme \<Rightarrow> ('k, 'z) event_base_scheme lres" where
  "event_rounds sys run fuel [] s = Ret s"
| "event_rounds sys run fuel ((tv, w) # ws) s = fetch (epoll_timeout (Some tv)) (\<lambda>_.
     lbind (event_loop_step sys run fuel w s) (event_rounds sys run fuel ws))"

definition event_base_loop ::
  "'k sys \<Rightarrow> ('k, 'z) callbacks \<Rightarrow> nat \<Rightarrow> ((int \<times> int) \<times> waited) list \<Rightarrow> ('k, 'z) event_base_scheme \<Rightarrow> ('k, 'z) event_base_scheme lres" where
  "event_base_loop sys run fuel ws s =
     event_rounds sys run fuel ws (if ev_signal_added s then s\<lparr>evsignal_base := True\<rparr> else s)"

subsection \<open>What the queue operations leave alone\<close>

definition rest_of where
  "rest_of s = (sig_links s, ev_signal s, ev_signal_added s, evsignal_caught s, evsigevents s, evsigcaught s,
     sh_old s, epfds s, kernel s, frames s, next_frame s, current_base s, evsignal_base s, event_base.more s)"

lemma rest_fields: "rest_of s' = rest_of s \<Longrightarrow> epfds s' = epfds s \<and> kernel s' = kernel s \<and> frames s' = frames s \<and>
  next_frame s' = next_frame s \<and> evsignal_caught s' = evsignal_caught s \<and> sig_links s' = sig_links s"
  by (simp add: rest_of_def)

lemma clear_flag: "\<not> bit w 0 \<Longrightarrow> w AND NOT EVLIST_TIMEOUT = w" "\<not> bit w 1 \<Longrightarrow> w AND NOT EVLIST_INSERTED = w"
  "\<not> bit w 3 \<Longrightarrow> w AND NOT EVLIST_ACTIVE = w"
  by (auto intro!: bit_eqI) (metis gr0I)

lemma not_in_list: "list_view evs q n as \<Longrightarrow> evs a = Some e \<Longrightarrow> \<not> bit (ev_flags e) n \<Longrightarrow> a \<notin> set as"
  by (auto simp: list_view_def flagged_def)

lemma active_pri: "base_view s ins acts tmo \<Longrightarrow> length acts = length (active_queue s) \<and>
  (\<forall>i < length acts. tqh_first (active_queue s ! i) = (case acts ! i of [] \<Rightarrow> Null | b # _ \<Rightarrow> Ptr b)) \<and>
  (\<forall>i < length acts. distinct (acts ! i) \<and> set (acts ! i) = at_priority (events s) i)"
  using first_holds tq_distinct by (fastforce simp: base_view_def active_view_def)

lemma remove_if_timeout:
  assumes v: "base_view s ins acts tmo" and e: "events s a = Some e"
  shows "\<exists>s'. remove_if_listed s a EVLIST_TIMEOUT = Ret s' \<and> base_view s' ins acts (remove1 a tmo) \<and>
    events s' = (events s)(a \<mapsto> e\<lparr>ev_flags := ev_flags e AND NOT EVLIST_TIMEOUT\<rparr>) \<and> rest_of s' = rest_of s"
proof (cases "bit (ev_flags e) 0")
  case True
  with remove_timeout [OF v e] e show ?thesis by (auto simp: remove_if_listed_def rest_of_def)
next
  case False
  then have "a \<notin> set tmo" using v e not_in_list by (auto simp: base_view_def)
  moreover have "(events s)(a \<mapsto> e) = events s" using e by auto
  ultimately show ?thesis using False v e by (simp add: remove_if_listed_def remove1_idem clear_flag)
qed

lemma remove_if_active:
  assumes v: "base_view s ins acts tmo" and e: "events s a = Some e"
  shows "\<exists>s'. remove_if_listed s a EVLIST_ACTIVE = Ret s' \<and>
    base_view s' ins (acts[ev_pri e := remove1 a (acts ! ev_pri e)]) tmo \<and>
    events s' = (events s)(a \<mapsto> e\<lparr>ev_flags := ev_flags e AND NOT EVLIST_ACTIVE\<rparr>) \<and> rest_of s' = rest_of s"
proof (cases "bit (ev_flags e) 3")
  case True
  with remove_active [OF v e] e show ?thesis by (auto simp: remove_if_listed_def rest_of_def)
next
  case False
  have "acts[ev_pri e := remove1 a (acts ! ev_pri e)] = acts"
  proof (cases "ev_pri e < length acts")
    case True
    then have "a \<notin> set (acts ! ev_pri e)" using active_pri [OF v] e False by (auto simp: at_priority_def)
    then show ?thesis by (simp add: remove1_idem)
  qed (simp add: list_update_beyond)
  moreover have "(events s)(a \<mapsto> e) = events s" using e by auto
  ultimately show ?thesis using False v e by (simp add: remove_if_listed_def clear_flag)
qed

lemma base_view_other [simp]:
  "base_view (s\<lparr>frames := f\<rparr>) ins acts tmo = base_view s ins acts tmo"
  "base_view (s\<lparr>kernel := k\<rparr>) ins acts tmo = base_view s ins acts tmo"
  "base_view (s\<lparr>epfds := p\<rparr>) ins acts tmo = base_view s ins acts tmo"
  "base_view (s\<lparr>next_frame := n\<rparr>) ins acts tmo = base_view s ins acts tmo"
  by (simp_all add: base_view_def)

subsection \<open>Deleting an event\<close>

definition calls_live :: "('k, 'z) event_base_scheme \<Rightarrow> event \<Rightarrow> bool" where
  "calls_live s e \<longleftrightarrow> ev_ncalls e = 0 \<or> ev_pncalls e = Null \<or> deref (frames s) (ev_pncalls e) \<noteq> None"

lemma cancel_ok:
  assumes c: "calls_live s e"
  shows "\<exists>f. cancel_calls s e = Ret (s\<lparr>frames := f\<rparr>) \<and> dom f = dom (frames s)"
proof (cases "ev_ncalls e \<noteq> 0 \<and> ev_pncalls e \<noteq> Null")
  case True
  then obtain p x where p: "ev_pncalls e = Ptr p" "frames s p = Some x"
    using c by (cases "ev_pncalls e") (auto simp: calls_live_def)
  have "cancel_calls s e = Ret (s\<lparr>frames := (frames s)(p \<mapsto> 0)\<rparr>)" using True p by (simp add: cancel_calls_def)
  moreover have "dom ((frames s)(p \<mapsto> 0)) = dom (frames s)" using p(2) by (simp add: insert_absorb domI)
  ultimately show ?thesis by blast
next
  case False
  then show ?thesis by (intro exI [of _ "frames s"]) (auto simp: cancel_calls_def)
qed

lemma calls_live_dom: "calls_live s e \<longleftrightarrow> ev_ncalls e = 0 \<or> ev_pncalls e \<in> insert Null (Ptr ` dom (frames s))"
  by (cases "ev_pncalls e") (auto simp: calls_live_def)

lemma calls_live_same: "dom (frames s') = dom (frames s) \<Longrightarrow> ev_ncalls e' = ev_ncalls e \<Longrightarrow> ev_pncalls e' = ev_pncalls e \<Longrightarrow>
  calls_live s' e' = calls_live s e"
  by (simp add: calls_live_dom)

text \<open>\<open>ctl_step\<close>: what one call of an event operation does to the kernel.\<close>

definition ctl_step :: "'k sys \<Rightarrow> 'k \<Rightarrow> 'k \<Rightarrow> bool" where
  "ctl_step sys k k' \<longleftrightarrow> k' = k \<or> (\<exists>op fd evs. k' = snd (sys_ctl sys op fd evs k))"

lemma ctl_step_intros [intro, simp]: "ctl_step sys k k" "ctl_step sys k (snd (sys_ctl sys op fd evs k))"
  by (auto simp: ctl_step_def)

lemma epoll_del_ok:
  assumes "events s a = Some e" "\<not> wants e EV_SIGNAL" "0 \<le> ev_fd e"
  shows "\<exists>r p k. epoll_del sys s a = Ret (r, s\<lparr>epfds := p, kernel := k\<rparr>) \<and> ctl_step sys (kernel s) k"
proof (cases "ev_fd e < int (length (epfds s))")
  case True
  have c: "(wants e EV_SIGNAL) = False" "(ev_fd e \<ge> int (length (epfds s))) = False" "(ev_fd e < 0) = False"
    using assms True by simp_all
  show ?thesis
    unfolding epoll_del_def assms(1) fetch_simps c if_False Let_def case_prod_unfold
    by (intro exI conjI, rule refl, rule ctl_step_intros)
next
  case False
  then show ?thesis using assms by (intro exI [of _ 0] exI [of _ "epfds s"] exI [of _ "kernel s"]) (simp add: epoll_del_def)
qed

lemma event_del_ok:
  assumes v: "base_view s ins acts tmo" and e: "events s a = Some e" "ev_base e"
    and fd: "\<not> wants e EV_SIGNAL" "0 \<le> ev_fd e" and c: "calls_live s e"
  shows "\<exists>r s'. event_del sys s a = Ret (r, s') \<and>
    base_view s' (remove1 a ins) (acts[ev_pri e := remove1 a (acts ! ev_pri e)]) (remove1 a tmo) \<and>
    (\<exists>w. events s' = (events s)(a \<mapsto> e\<lparr>ev_flags := w\<rparr>) \<and> \<not> bit w 0 \<and> \<not> bit w 1 \<and> \<not> bit w 3) \<and>
    cancel_calls s e = Ret (s\<lparr>frames := frames s'\<rparr>) \<and> next_frame s' = next_frame s \<and>
    evsignal_caught s' = evsignal_caught s \<and> ctl_step sys (kernel s) (kernel s')"
proof -
  obtain f where f: "cancel_calls s e = Ret (s\<lparr>frames := f\<rparr>)" using cancel_ok [OF c] by blast
  let ?s1 = "s\<lparr>frames := f\<rparr>"
  have v1: "base_view ?s1 ins acts tmo" "events ?s1 a = Some e" using v e by simp_all
  obtain s2 where s2: "remove_if_listed ?s1 a EVLIST_TIMEOUT = Ret s2" "base_view s2 ins acts (remove1 a tmo)"
    "events s2 = (events s)(a \<mapsto> e\<lparr>ev_flags := ev_flags e AND NOT EVLIST_TIMEOUT\<rparr>)" "rest_of s2 = rest_of ?s1"
    using remove_if_timeout [OF v1] by auto
  let ?e2 = "e\<lparr>ev_flags := ev_flags e AND NOT EVLIST_TIMEOUT\<rparr>"
  have e2: "events s2 a = Some ?e2" using s2(3) by simp
  obtain s3 where s3: "remove_if_listed s2 a EVLIST_ACTIVE = Ret s3"
    "base_view s3 ins (acts[ev_pri e := remove1 a (acts ! ev_pri e)]) (remove1 a tmo)"
    "events s3 = (events s)(a \<mapsto> e\<lparr>ev_flags := (ev_flags e AND NOT EVLIST_TIMEOUT) AND NOT EVLIST_ACTIVE\<rparr>)"
    "rest_of s3 = rest_of ?s1"
    using remove_if_active [OF s2(2) e2] s2(3,4) by auto
  let ?e3 = "e\<lparr>ev_flags := (ev_flags e AND NOT EVLIST_TIMEOUT) AND NOT EVLIST_ACTIVE\<rparr>"
  have e3: "events s3 a = Some ?e3" using s3(3) by simp
  note r3 = rest_fields [OF s3(4)]
  have run: "event_del sys s a = (if bit (ev_flags ?e3) 1
      then lbind (event_queue_remove s3 a EVLIST_INSERTED) (\<lambda>s4. epoll_del sys s4 a) else Ret (0, s3))"
    using e f s2(1) s3(1) e3 by (simp add: event_del_def event_del_by_def)
  show ?thesis
  proof (cases "bit (ev_flags ?e3) 1")
    case True
    obtain h l s4 where s4: "event_queue_remove s3 a EVLIST_INSERTED = Ret s4"
      "base_view s4 (remove1 a ins) (acts[ev_pri e := remove1 a (acts ! ev_pri e)]) (remove1 a tmo)"
      "s4 = s3\<lparr>event_count := event_count s3 - 1,
        events := (events s3)(a \<mapsto> ?e3\<lparr>ev_flags := ev_flags ?e3 AND NOT EVLIST_INSERTED\<rparr>),
        inserted_queue := h, ins_links := l\<rparr>"
      using remove_inserted [OF s3(2) e3 True] by blast
    have e4: "events s4 = (events s)(a \<mapsto> ?e3\<lparr>ev_flags := ev_flags ?e3 AND NOT EVLIST_INSERTED\<rparr>)"
      using s4(3) s3(3) by simp
    then obtain r p k where d: "epoll_del sys s4 a = Ret (r, s4\<lparr>epfds := p, kernel := k\<rparr>)" "ctl_step sys (kernel s4) k"
      using epoll_del_ok [of s4 a _ sys] fd by auto
    have "kernel s4 = kernel s" "frames s4 = f" "next_frame s4 = next_frame s" "evsignal_caught s4 = evsignal_caught s"
      using s4(3) r3 by simp_all
    then show ?thesis using run True s4(1,2) e4 d f
      by (intro exI [of _ r] exI [of _ "s4\<lparr>epfds := p, kernel := k\<rparr>"] conjI
          exI [of _ "ev_flags ?e3 AND NOT EVLIST_INSERTED"]) simp_all
  next
    case False
    then have "remove1 a ins = ins" using not_in_list [of "events s3" _ 1 ins a ?e3] s3(2) e3
      by (auto simp: base_view_def remove1_idem)
    then show ?thesis using run False s3(2,3) r3 f
      by (intro exI [of _ 0] exI [of _ s3] conjI exI [of _ "ev_flags ?e3"]) simp_all
  qed
qed

subsection \<open>Adding and activating an event\<close>

lemma active_ok:
  assumes v: "base_view s ins acts tmo" and e: "events s a = Some e" "ev_base e" "ev_pri e < length (active_queue s)"
  shows "\<exists>s'. event_active s a res n = Ret s' \<and> rest_of s' = rest_of s \<and>
    length (active_queue s') = length (active_queue s) \<and>
    base_view s' ins (if bit (ev_flags e) 3 then acts else acts[ev_pri e := acts ! ev_pri e @ [a]]) tmo \<and>
    events s' = (events s)(a \<mapsto> (if bit (ev_flags e) 3 then e\<lparr>ev_res := ev_res e OR res\<rparr>
      else e\<lparr>ev_res := res, ev_ncalls := n, ev_pncalls := Null, ev_flags := ev_flags e OR EVLIST_ACTIVE\<rparr>))"
proof (cases "bit (ev_flags e) 3")
  case True
  have "base_view (put_event s a (e\<lparr>ev_res := ev_res e OR res\<rparr>)) ins acts tmo"
    by (rule base_view_put [OF v e(1)]) simp_all
  with True e show ?thesis
    by (intro exI [of _ "put_event s a (e\<lparr>ev_res := ev_res e OR res\<rparr>)"])
      (simp add: event_active_def put_event_def rest_of_def)
next
  case False
  let ?e = "e\<lparr>ev_res := res, ev_ncalls := n, ev_pncalls := Null\<rparr>"
  let ?s = "put_event s a ?e"
  have v1: "base_view ?s ins acts tmo" by (rule base_view_put [OF v e(1)]) simp_all
  have "events ?s a = Some ?e" by (simp add: put_event_def)
  from insert_active [OF v1 this] False e
  obtain hs l s' where s': "event_queue_insert ?s a EVLIST_ACTIVE = Ret s'"
    "base_view s' ins (acts[ev_pri e := acts ! ev_pri e @ [a]]) tmo"
    "s' = ?s\<lparr>event_count := event_count ?s + 1, events := (events ?s)(a \<mapsto> ?e\<lparr>ev_flags := ev_flags ?e OR EVLIST_ACTIVE\<rparr>),
      event_count_active := event_count_active ?s + 1, active_queue := hs, act_links := l\<rparr>"
    by (auto simp: put_event_def)
  have "event_active s a res n = Ret s'" using e False s'(1) by (simp add: event_active_def)
  moreover have "length (active_queue s') = length (active_queue s)"
    using active_pri [OF s'(2)] active_pri [OF v] by simp
  ultimately show ?thesis using False s'(2,3) by (intro exI [of _ s']) (simp add: put_event_def rest_of_def)
qed

lemma epoll_add_fd_ok:
  assumes "events s a = Some e" "0 \<le> ev_fd e"
  shows "\<exists>p k. epoll_add_fd sys s a = Ret (if ev_fd e < int (length (epfds s)) then 0 else -1, s\<lparr>epfds := p, kernel := k\<rparr>)"
proof (cases "ev_fd e < int (length (epfds s))")
  case True
  have c: "(ev_fd e \<ge> int (length (epfds s))) = False" "(ev_fd e < 0) = False" using assms True by simp_all
  have "epoll_add_fd sys s a = Ret (0, s\<lparr>epfds := p, kernel := k\<rparr>) \<Longrightarrow> ?thesis" for p k using True by auto
  moreover have "\<exists>p k. epoll_add_fd sys s a = Ret (0, s\<lparr>kernel := k, epfds := p\<rparr>)"
    unfolding epoll_add_fd_def assms(1) fetch_simps c if_False Let_def by (intro exI, rule refl)
  moreover have "s\<lparr>kernel := k, epfds := p\<rparr> = s\<lparr>epfds := p, kernel := k\<rparr>" for p k by simp
  ultimately show ?thesis by metis
next
  case False
  then show ?thesis using assms
    by (intro exI [of _ "epfds s"] exI [of _ "kernel s"]) (simp add: epoll_add_fd_def)
qed

lemma event_add_ok:
  assumes v: "base_view s ins acts tmo" and e: "events s a = Some e" "ev_base e"
    and fd: "\<not> wants e EV_SIGNAL" "0 \<le> ev_fd e" and c: "calls_live s e"
  defines "fresh \<equiv> wants e (EV_READ OR EV_WRITE OR EV_SIGNAL) \<and> \<not> bit (ev_flags e) 1 \<and> \<not> bit (ev_flags e) 3"
  shows "\<exists>r s' ins' acts' tmo'. event_add sys s a tv = Ret (r, s') \<and> base_view s' ins' acts' tmo' \<and>
    (r = -1 \<longleftrightarrow> fresh \<and> ev_fd e \<ge> int (length (epfds s))) \<and>
    ins' = (if fresh \<and> r \<noteq> -1 then ins @ [a] else ins) \<and>
    tmo' = (if tv \<and> r \<noteq> -1 then remove1 a tmo @ [a] else tmo) \<and>
    (acts' = acts \<or> tv \<and> acts' = acts[ev_pri e := remove1 a (acts ! ev_pri e)]) \<and>
    (\<exists>w. events s' a = Some (e\<lparr>ev_flags := w\<rparr>)) \<and> dom (frames s') = dom (frames s)"
proof -
  have add: "epoll_add sys s a = epoll_add_fd sys s a" using e fd by (simp add: epoll_add_def)
  obtain p k where pk: "epoll_add_fd sys s a = Ret (if ev_fd e < int (length (epfds s)) then 0 else -1, s\<lparr>epfds := p, kernel := k\<rparr>)"
    using epoll_add_fd_ok [OF e(1) fd(2)] by blast
  define r :: int where "r = (if fresh \<and> ev_fd e \<ge> int (length (epfds s)) then -1 else 0)"
  define e1 where "e1 = (if fresh \<and> r \<noteq> -1 then e\<lparr>ev_flags := ev_flags e OR EVLIST_INSERTED\<rparr> else e)"
  have e1w: "\<exists>w. e1 = e\<lparr>ev_flags := w\<rparr>" by (cases "fresh \<and> r \<noteq> -1") (auto simp: e1_def intro: exI [of _ "ev_flags e"])
  define ins1 where "ins1 = (if fresh \<and> r \<noteq> -1 then ins @ [a] else ins)"
  let ?first = "if fresh then
          lbind (epoll_add sys s a) (\<lambda>(res, s1).
            if res \<noteq> -1 then lbind (event_queue_insert s1 a EVLIST_INSERTED) (\<lambda>s2. Ret (res, s2))
            else Ret (res, s1))
        else Ret (0, s)"
  have "\<exists>s1. ?first = Ret (r, s1) \<and> base_view s1 ins1 acts tmo \<and> events s1 a = Some e1 \<and> frames s1 = frames s"
  proof (cases "fresh \<and> r \<noteq> -1")
    case True
    let ?s = "s\<lparr>epfds := p, kernel := k\<rparr>"
    have "base_view ?s ins acts tmo" "events ?s a = Some e" "\<not> bit (ev_flags e) 1"
      using v e True by (auto simp: fresh_def)
    from insert_inserted [OF this] obtain h l s1 where s1: "event_queue_insert ?s a EVLIST_INSERTED = Ret s1"
      "base_view s1 (ins @ [a]) acts tmo"
      "s1 = ?s\<lparr>event_count := event_count ?s + 1, events := (events ?s)(a \<mapsto> e\<lparr>ev_flags := ev_flags e OR EVLIST_INSERTED\<rparr>),
        inserted_queue := h, ins_links := l\<rparr>" by blast
    have "?first = Ret (r, s1)" using True pk add s1(1) by (auto simp: r_def split: if_splits)
    then show ?thesis using True s1(2,3) by (auto simp: ins1_def e1_def)
  next
    case False
    then show ?thesis using pk add v e by (auto simp: r_def ins1_def e1_def)
  qed
  then obtain s1 where s1: "?first = Ret (r, s1)" "base_view s1 ins1 acts tmo" "events s1 a = Some e1" "frames s1 = frames s"
    by blast
  have run: "event_add sys s a tv = (if r \<noteq> -1 \<and> tv then
      lbind (remove_if_listed s1 a EVLIST_TIMEOUT) (\<lambda>s2.
      lbind (fetch (events s2 a) (\<lambda>e2.
          if listed_as e2 EVLIST_ACTIVE \<and> ev_res e2 AND ucast EV_TIMEOUT \<noteq> 0 then
            lbind (cancel_calls s2 e2) (\<lambda>s3. event_queue_remove s3 a EVLIST_ACTIVE)
          else Ret s2)) (\<lambda>s4.
      lbind (event_queue_insert s4 a EVLIST_TIMEOUT) (\<lambda>s5. Ret (r, s5)))) else Ret (r, s1))"
  proof -
    have "(wants e (EV_READ OR EV_WRITE OR EV_SIGNAL) \<and> \<not> listed_as e (EVLIST_INSERTED OR EVLIST_ACTIVE)) = fresh"
      by (simp add: fresh_def)
    then show ?thesis unfolding event_add_def event_add_by_def e(1) fetch_simps
      using s1(1) e(2) by (simp only: not_True_eq_False if_False lbind.simps prod.case)
  qed
  have r: "r = -1 \<longleftrightarrow> fresh \<and> ev_fd e \<ge> int (length (epfds s))" by (simp add: r_def)
  show ?thesis
  proof (cases "r \<noteq> -1 \<and> tv")
    case False
    then have "event_add sys s a tv = Ret (r, s1)" using run by auto
    then show ?thesis using s1(2-4) e1w r False
      by (intro exI [of _ r] exI [of _ s1] exI [of _ ins1] exI [of _ acts] exI [of _ tmo]) (auto simp: ins1_def)
  next
    case True
    obtain s2 where s2: "remove_if_listed s1 a EVLIST_TIMEOUT = Ret s2" "base_view s2 ins1 acts (remove1 a tmo)"
      "events s2 = (events s1)(a \<mapsto> e1\<lparr>ev_flags := ev_flags e1 AND NOT EVLIST_TIMEOUT\<rparr>)" "rest_of s2 = rest_of s1"
      using remove_if_timeout [OF s1(2,3)] by blast
    let ?e2 = "e1\<lparr>ev_flags := ev_flags e1 AND NOT EVLIST_TIMEOUT\<rparr>"
    have e2: "events s2 a = Some ?e2" using s2(3) by simp
    have live: "calls_live s2 ?e2" using c s1(4) rest_fields [OF s2(4)] by (auto simp: calls_live_def e1_def)
    have pri: "ev_pri ?e2 = ev_pri e" by (simp add: e1_def)
    have "\<exists>s4 acts' e4. (if listed_as ?e2 EVLIST_ACTIVE \<and> ev_res ?e2 AND ucast EV_TIMEOUT \<noteq> 0 then
            lbind (cancel_calls s2 ?e2) (\<lambda>s3. event_queue_remove s3 a EVLIST_ACTIVE)
          else Ret s2) = Ret s4 \<and> base_view s4 ins1 acts' (remove1 a tmo) \<and> events s4 a = Some e4 \<and>
          (\<exists>w. e4 = e1\<lparr>ev_flags := w\<rparr>) \<and> dom (frames s4) = dom (frames s2) \<and>
          \<not> bit (ev_flags e4) 0 \<and> (acts' = acts \<or> acts' = acts[ev_pri e := remove1 a (acts ! ev_pri e)])"
    proof (cases "listed_as ?e2 EVLIST_ACTIVE \<and> ev_res ?e2 AND ucast EV_TIMEOUT \<noteq> 0")
      case True
      obtain f where f: "cancel_calls s2 ?e2 = Ret (s2\<lparr>frames := f\<rparr>)" "dom f = dom (frames s2)"
        using cancel_ok [OF live] by blast
      have v3: "base_view (s2\<lparr>frames := f\<rparr>) ins1 acts (remove1 a tmo)" "events (s2\<lparr>frames := f\<rparr>) a = Some ?e2" "bit (ev_flags ?e2) 3"
        using s2(2) e2 True by simp_all
      obtain hs l s3 where s3: "event_queue_remove (s2\<lparr>frames := f\<rparr>) a EVLIST_ACTIVE = Ret s3"
        "base_view s3 ins1 (acts[ev_pri ?e2 := remove1 a (acts ! ev_pri ?e2)]) (remove1 a tmo)"
        "s3 = s2\<lparr>frames := f, event_count := event_count s2 - 1,
          events := (events s2)(a \<mapsto> ?e2\<lparr>ev_flags := ev_flags ?e2 AND NOT EVLIST_ACTIVE\<rparr>),
          active_queue := hs, act_links := l, event_count_active := event_count_active s2 - 1\<rparr>"
        using remove_active [OF v3] by auto
      show ?thesis using s3 True f pri
        by (intro exI [of _ s3] exI [of _ "acts[ev_pri ?e2 := remove1 a (acts ! ev_pri ?e2)]"]
            exI [of _ "?e2\<lparr>ev_flags := ev_flags ?e2 AND NOT EVLIST_ACTIVE\<rparr>"]) auto
    next
      case False
      then show ?thesis using s2(2) e2 by auto
    qed
    then obtain s4 acts' e4 where s4: "fetch (events s2 a) (\<lambda>e2. if listed_as e2 EVLIST_ACTIVE \<and> ev_res e2 AND ucast EV_TIMEOUT \<noteq> 0 then
            lbind (cancel_calls s2 e2) (\<lambda>s3. event_queue_remove s3 a EVLIST_ACTIVE) else Ret s2) = Ret s4"
      "base_view s4 ins1 acts' (remove1 a tmo)" "events s4 a = Some e4" "\<not> bit (ev_flags e4) 0"
      "\<exists>w. e4 = e1\<lparr>ev_flags := w\<rparr>" "dom (frames s4) = dom (frames s2)"
      "acts' = acts \<or> acts' = acts[ev_pri e := remove1 a (acts ! ev_pri e)]"
      using e2 by auto
    obtain h l s5 where s5: "event_queue_insert s4 a EVLIST_TIMEOUT = Ret s5" "base_view s5 ins1 acts' (remove1 a tmo @ [a])"
      "s5 = s4\<lparr>event_count := event_count s4 + 1, events := (events s4)(a \<mapsto> e4\<lparr>ev_flags := ev_flags e4 OR EVLIST_TIMEOUT\<rparr>),
        timeout_queue := h, tmo_links := l\<rparr>"
      using insert_timeout [OF s4(2-4)] by blast
    have "event_add sys s a tv = Ret (r, s5)" using run True s2(1) s4(1) s5(1) by simp
    moreover have "\<exists>w. events s5 a = Some (e\<lparr>ev_flags := w\<rparr>)" using s5(3) s4(5) e1w by auto
    moreover have "dom (frames s5) = dom (frames s)" using s5(3) s4(6) rest_fields [OF s2(4)] s1(4) by simp
    ultimately show ?thesis using s5(2) r True s4(7)
      by (intro exI [of _ r] exI [of _ s5] exI [of _ ins1] exI [of _ acts'] exI [of _ "remove1 a tmo @ [a]"])
        (auto simp: ins1_def)
  qed
qed

end
