(* ===== verification/Ev_Runs.thy ===== *)
theory Ev_Runs
  imports Ev_Loop
begin

section \<open>my\_event: what a round of the loop does\<close>

text \<open>
  The functional behaviour of \<open>event_process_active\<close> and of a round of \<open>event_base_loop\<close> for
  callbacks that act on the outside world only: every active event of the queue is called as
  often as it was activated for, in the order of the queue, and the queues stay well formed.
\<close>

text \<open>
  A call of a callback: the function, the descriptor, the result and the argument.  \<open>logging\<close>
  says that the calls can be read off the state of the world.
\<close>

type_synonym call = "nat \<times> int \<times> 16 word \<times> ptr"

definition logging :: "'k sys \<Rightarrow> ('k, 'z) callbacks \<Rightarrow> ('k \<Rightarrow> call list) \<Rightarrow> bool" where
  "logging sys run log \<longleftrightarrow>
     (\<forall>op fd evs k. log (snd (sys_ctl sys op fd evs k)) = log k) \<and>
     (\<forall>cb fd res arg s. \<exists>k. run cb fd res arg s = Ret (s\<lparr>kernel := k\<rparr>) \<and> log k = log (kernel s) @ [(cb, fd, res, arg)])"

lemma logging_ctl: "logging sys run log \<Longrightarrow> ctl_step sys k k' \<Longrightarrow> log k' = log k"
  by (auto simp: logging_def ctl_step_def)

definition call_of :: "event \<Rightarrow> call" where
  "call_of e = (ev_callback e, ev_fd e, ucast (ev_res e), ev_arg e)"

lemma unat_pred: "c \<noteq> 0 \<Longrightarrow> unat c = Suc (unat (c - 1))" for c :: "16 word"
  using unat_minus_one [of c] by (cases "unat c") (simp_all add: unat_eq_zero)

lemma call_loop_ok:
  assumes "logging sys run log"
  shows "frames s fr = Some c \<Longrightarrow> events s a = Some e \<Longrightarrow> unat c < fuel \<Longrightarrow>
    \<exists>n k. call_loop run fuel fr a s =
        Ret (s\<lparr>events := (events s)(a \<mapsto> e\<lparr>ev_ncalls := n\<rparr>), kernel := k, frames := (frames s)(fr \<mapsto> 0)\<rparr>) \<and>
      (c = ev_ncalls e \<longrightarrow> n = 0) \<and> log k = log (kernel s) @ replicate (unat c) (call_of e)"
proof (induction fuel arbitrary: s c e)
  case 0
  then show ?case by simp
next
  case (Suc fuel)
  show ?case
  proof (cases "c = 0")
    case True
    have "(events s)(a \<mapsto> e\<lparr>ev_ncalls := ev_ncalls e\<rparr>) = events s" "(frames s)(fr \<mapsto> 0) = frames s"
      using Suc.prems True by auto
    then show ?thesis using Suc.prems True
      by (intro exI [of _ "ev_ncalls e"] exI [of _ "kernel s"]) simp
  next
    case False
    let ?e = "e\<lparr>ev_ncalls := c - 1\<rparr>"
    let ?s = "s\<lparr>frames := (frames s)(fr \<mapsto> c - 1), events := (events s)(a \<mapsto> ?e)\<rparr>"
    obtain k where k: "run (ev_callback e) (ev_fd e) (ucast (ev_res e)) (ev_arg e) ?s = Ret (?s\<lparr>kernel := k\<rparr>)"
      "log k = log (kernel s) @ [call_of e]"
      using assms unfolding logging_def call_of_def by force
    have "call_loop run (Suc fuel) fr a s = call_loop run fuel fr a (?s\<lparr>kernel := k\<rparr>)"
      using Suc.prems False k(1) by (simp add: put_event_def Let_def)
    moreover obtain n k' where r: "call_loop run fuel fr a (?s\<lparr>kernel := k\<rparr>) =
        Ret (?s\<lparr>kernel := k, events := (events ?s)(a \<mapsto> ?e\<lparr>ev_ncalls := n\<rparr>), kernel := k', frames := (frames ?s)(fr \<mapsto> 0)\<rparr>)"
      "c - 1 = ev_ncalls ?e \<longrightarrow> n = 0" "log k' = log k @ replicate (unat (c - 1)) (call_of ?e)"
      using Suc.IH [of "?s\<lparr>kernel := k\<rparr>" "c - 1" ?e] Suc.prems(3) unat_pred [OF False]
      by (simp del: fun_upd_apply add: fun_upd_same) blast
    moreover have "call_of ?e = call_of e" by (simp add: call_of_def)
    moreover have "?s\<lparr>kernel := k, events := (events ?s)(a \<mapsto> ?e\<lparr>ev_ncalls := n\<rparr>), kernel := k', frames := (frames ?s)(fr \<mapsto> 0)\<rparr> =
        s\<lparr>events := (events s)(a \<mapsto> e\<lparr>ev_ncalls := n\<rparr>), kernel := k', frames := (frames s)(fr \<mapsto> 0)\<rparr>"
      by (simp del: fun_upd_apply)
    moreover have "log k' = log (kernel s) @ replicate (unat c) (call_of e)"
      using k(2) r(3) unat_pred [OF False] by (simp add: call_of_def)
    ultimately show ?thesis by (intro exI [of _ n] exI [of _ k']) (simp del: fun_upd_apply call_loop.simps)
  qed
qed

subsection \<open>One active event\<close>

text \<open>
  \<open>callable\<close>: an event that the loop can process: a persistent one, or one of a descriptor,
  activated but not being called.
\<close>

definition callable :: "event \<Rightarrow> bool" where
  "callable e \<longleftrightarrow> ev_pncalls e = Null \<and> (wants e EV_PERSIST \<or> ev_base e \<and> \<not> wants e EV_SIGNAL \<and> 0 \<le> ev_fd e)"

definition kept :: "event store \<Rightarrow> nat \<Rightarrow> bool" where
  "kept evs a \<longleftrightarrow> (\<exists>e. evs a = Some e \<and> wants e EV_PERSIST)"

text \<open>The part of an event that the loop does not change.\<close>

definition statics :: "event \<Rightarrow> event" where
  "statics e = e\<lparr>ev_res := 0, ev_flags := 0, ev_ncalls := 0, ev_pncalls := Null\<rparr>"

lemma statics_sel: "ev_fd (statics e) = ev_fd e" "ev_events (statics e) = ev_events e" "ev_callback (statics e) = ev_callback e"
  "ev_arg (statics e) = ev_arg e" "ev_base (statics e) = ev_base e" "ev_pri (statics e) = ev_pri e"
  by (simp_all add: statics_def)

lemma statics_eqs: "statics e' = statics e \<Longrightarrow> ev_fd e' = ev_fd e \<and> ev_events e' = ev_events e \<and>
  ev_callback e' = ev_callback e \<and> ev_arg e' = ev_arg e \<and> ev_base e' = ev_base e \<and> ev_pri e' = ev_pri e"
  by (metis statics_sel)

definition same_statics :: "event store \<Rightarrow> event store \<Rightarrow> bool" where
  "same_statics evs evs' \<longleftrightarrow> (\<forall>a. map_option statics (evs' a) = map_option statics (evs a))"

lemma same_statics_refl [simp]: "same_statics evs evs"
  by (simp add: same_statics_def)

lemma same_statics_trans: "same_statics evs evs' \<Longrightarrow> same_statics evs' evs'' \<Longrightarrow> same_statics evs evs''"
  by (simp add: same_statics_def)

lemma same_statics_upd: "evs a = Some e \<Longrightarrow> statics e' = statics e \<Longrightarrow> same_statics evs (evs(a \<mapsto> e'))"
  by (simp add: same_statics_def)

lemma same_staticsD: "same_statics evs evs' \<Longrightarrow> evs a = Some e \<Longrightarrow> \<exists>e'. evs' a = Some e' \<and> statics e' = statics e"
  unfolding same_statics_def by (metis map_option_eq_Some option.simps(9))

lemma same_statics_sym: "same_statics evs evs' \<Longrightarrow> same_statics evs' evs"
  by (simp add: same_statics_def)

lemma kept_same: "same_statics evs evs' \<Longrightarrow> kept evs' a = kept evs a"
proof -
  have "kept evs'' a" if s: "same_statics evs' evs''" "kept evs' a" for evs' evs''
  proof -
    obtain e where e: "evs' a = Some e" "wants e EV_PERSIST" using s(2) by (auto simp: kept_def)
    obtain e' where "evs'' a = Some e'" "statics e' = statics e" using same_staticsD [OF s(1) e(1)] by blast
    then show ?thesis using e(2) statics_eqs [of e' e] by (simp add: kept_def)
  qed
  then show "same_statics evs evs' \<Longrightarrow> kept evs' a = kept evs a" using same_statics_sym by blast
qed

definition drop_unkept :: "event store \<Rightarrow> nat list \<Rightarrow> nat list \<Rightarrow> nat list" where
  "drop_unkept evs as xs = fold (\<lambda>a ys. if kept evs a then ys else remove1 a ys) as xs"

lemma take_active:
  assumes v: "base_view s ins acts tmo" and e: "events s a = Some e" "callable e" "bit (ev_flags e) 3"
  shows "\<exists>s1 e1. (if wants e EV_PERSIST then event_queue_remove s a EVLIST_ACTIVE
                else lbind (event_del sys s a) (\<lambda>(_, s1). Ret s1)) = Ret s1 \<and>
    base_view s1 (drop_unkept (events s) [a] ins) (acts[ev_pri e := remove1 a (acts ! ev_pri e)])
      (drop_unkept (events s) [a] tmo) \<and>
    events s1 = (events s)(a \<mapsto> e1) \<and> (\<exists>w. e1 = e\<lparr>ev_flags := w\<rparr>) \<and> frames s1 = frames s \<and>
    next_frame s1 = next_frame s \<and> evsignal_caught s1 = evsignal_caught s \<and>
    ctl_step sys (kernel s) (kernel s1) \<and> (wants e EV_PERSIST \<longrightarrow> epfds s1 = epfds s)"
proof (cases "wants e EV_PERSIST")
  case True
  then have k: "kept (events s) a" using e(1) by (auto simp: kept_def)
  obtain hs l s1 where s1: "event_queue_remove s a EVLIST_ACTIVE = Ret s1"
    "base_view s1 ins (acts[ev_pri e := remove1 a (acts ! ev_pri e)]) tmo"
    "s1 = s\<lparr>event_count := event_count s - 1, events := (events s)(a \<mapsto> e\<lparr>ev_flags := ev_flags e AND NOT EVLIST_ACTIVE\<rparr>),
      active_queue := hs, act_links := l, event_count_active := event_count_active s - 1\<rparr>"
    using remove_active [OF v e(1,3)] by blast
  then show ?thesis using True k
    by (intro exI [of _ s1] exI [of _ "e\<lparr>ev_flags := ev_flags e AND NOT EVLIST_ACTIVE\<rparr>"])
      (auto simp: drop_unkept_def)
next
  case False
  then have k: "\<not> kept (events s) a" using e(1) by (auto simp: kept_def)
  have c: "ev_base e" "\<not> wants e EV_SIGNAL" "0 \<le> ev_fd e" "calls_live s e" "ev_pncalls e = Null"
    using e(2) False by (auto simp: callable_def calls_live_def)
  obtain r s1 w where s1: "event_del sys s a = Ret (r, s1)"
    "base_view s1 (remove1 a ins) (acts[ev_pri e := remove1 a (acts ! ev_pri e)]) (remove1 a tmo)"
    "events s1 = (events s)(a \<mapsto> e\<lparr>ev_flags := w\<rparr>)" "cancel_calls s e = Ret (s\<lparr>frames := frames s1\<rparr>)"
    "next_frame s1 = next_frame s" "evsignal_caught s1 = evsignal_caught s" "ctl_step sys (kernel s) (kernel s1)"
    using event_del_ok [OF v e(1) c(1-4)] by blast
  have "s = s\<lparr>frames := frames s1\<rparr>" using s1(4) c(5) by (simp add: cancel_calls_def)
  then have "frames s1 = frames s" by (metis event_base.select_convs(22) event_base.surjective event_base.update_convs(22))
  then show ?thesis using False k s1
    by (intro exI [of _ s1] exI [of _ "e\<lparr>ev_flags := w\<rparr>"]) (auto simp: drop_unkept_def)
qed

subsection \<open>A queue of active events\<close>

lemma drop_unkept_Cons: "drop_unkept evs (a # as) xs = drop_unkept evs as (drop_unkept evs [a] xs)"
  by (simp add: drop_unkept_def)

lemma drop_unkept_same: "same_statics evs evs' \<Longrightarrow> drop_unkept evs' as xs = drop_unkept evs as xs"
  by (simp add: drop_unkept_def kept_same)

definition calls_of :: "event store \<Rightarrow> nat \<Rightarrow> call list" where
  "calls_of evs a = (case evs a of None \<Rightarrow> [] | Some e \<Rightarrow> replicate (unat (ev_ncalls e)) (call_of e))"

lemma active_loop_ok:
  assumes log: "logging sys run log"
  shows "base_view s ins acts tmo \<Longrightarrow> i < length acts \<Longrightarrow> acts ! i = as \<Longrightarrow>
    \<forall>a \<in> set as. \<exists>e. events s a = Some e \<and> callable e \<and> length as + unat (ev_ncalls e) < fuel \<Longrightarrow> 0 < fuel \<Longrightarrow>
    \<exists>s'. active_loop sys run fuel i fr s = Ret s' \<and>
      base_view s' (drop_unkept (events s) as ins) (acts[i := []]) (drop_unkept (events s) as tmo) \<and>
      same_statics (events s) (events s') \<and> next_frame s' = next_frame s \<and> evsignal_caught s' = evsignal_caught s \<and>
      ((\<forall>a \<in> set as. kept (events s) a) \<longrightarrow> epfds s' = epfds s) \<and>
      log (kernel s') = log (kernel s) @ concat (map (calls_of (events s)) as)"
proof (induction as arbitrary: s ins acts tmo fuel)
  case Nil
  then obtain f where f: "fuel = Suc f" by (cases fuel) auto
  have h: "i < length (active_queue s)" "tqh_first (active_queue s ! i) = Null"
    using active_pri [OF Nil.prems(1)] Nil.prems(2,3) by auto
  have "acts[i := []] = acts" using Nil.prems(3) by (metis list_update_id)
  then show ?case using Nil.prems(1) f h by (auto simp: nth_opt_def drop_unkept_def)
next
  case (Cons a as)
  obtain f where f: "fuel = Suc f" using Cons.prems(5) by (cases fuel) auto
  obtain e where e: "events s a = Some e" "callable e" "length (a # as) + unat (ev_ncalls e) < fuel"
    using Cons.prems(4) by auto
  have h: "i < length (active_queue s)" "tqh_first (active_queue s ! i) = Ptr a" "distinct (a # as)"
    "a \<in> at_priority (events s) i"
    using active_pri [OF Cons.prems(1)] Cons.prems(2,3) list.set_intros(1) [of a as] by fastforce+
  have p: "bit (ev_flags e) 3" "ev_pri e = i" using h(4) e(1) by (simp_all add: in_priority)
  obtain s1 e1 w where s1: "(if wants e EV_PERSIST then event_queue_remove s a EVLIST_ACTIVE
                else lbind (event_del sys s a) (\<lambda>(_, s1). Ret s1)) = Ret s1"
    "base_view s1 (drop_unkept (events s) [a] ins) (acts[ev_pri e := remove1 a (acts ! ev_pri e)])
      (drop_unkept (events s) [a] tmo)"
    "events s1 = (events s)(a \<mapsto> e1)" "e1 = e\<lparr>ev_flags := w\<rparr>" "frames s1 = frames s" "next_frame s1 = next_frame s"
    "evsignal_caught s1 = evsignal_caught s" "ctl_step sys (kernel s) (kernel s1)" "wants e EV_PERSIST \<longrightarrow> epfds s1 = epfds s"
    using take_active [OF Cons.prems(1) e(1,2) p(1)] by blast
  let ?s2 = "put_event (s1\<lparr>frames := (frames s1)(fr \<mapsto> ev_ncalls e1)\<rparr>) a (e1\<lparr>ev_pncalls := Ptr fr\<rparr>)"
  have s2: "frames ?s2 fr = Some (ev_ncalls e1)" "events ?s2 a = Some (e1\<lparr>ev_pncalls := Ptr fr\<rparr>)" "unat (ev_ncalls e1) < f"
    using e(3) s1(4) f by (simp_all add: put_event_def)
  obtain n k where c: "call_loop run f fr a ?s2 =
      Ret (?s2\<lparr>events := (events ?s2)(a \<mapsto> e1\<lparr>ev_pncalls := Ptr fr, ev_ncalls := n\<rparr>), kernel := k, frames := (frames ?s2)(fr \<mapsto> 0)\<rparr>)"
    "log k = log (kernel ?s2) @ replicate (unat (ev_ncalls e1)) (call_of (e1\<lparr>ev_pncalls := Ptr fr\<rparr>))"
    using call_loop_ok [OF log s2] by blast
  define e3 where "e3 = e1\<lparr>ev_pncalls := Ptr fr, ev_ncalls := n\<rparr>"
  define s3 where "s3 = ?s2\<lparr>events := (events ?s2)(a \<mapsto> e3), kernel := k, frames := (frames ?s2)(fr \<mapsto> 0)\<rparr>"
  have ev3: "events s3 = (events s)(a \<mapsto> e3)" using s1(3) by (simp add: s3_def put_event_def)
  have st: "same_statics (events s) (events s3)" 
    using same_statics_upd [where evs = "events s" and a = a and e = e and e' = e3] e(1) ev3
    by (simp add: statics_def e3_def s1(4))
  have "events s1 a = Some e1" using s1(3) by simp
  then have "base_view (put_event s1 a e3) (drop_unkept (events s) [a] ins) (acts[i := as]) (drop_unkept (events s) [a] tmo)"
    using base_view_put [OF s1(2), of a e1 e3] p(2) Cons.prems(3) by (simp add: e3_def)
  then have v3: "base_view s3 (drop_unkept (events s) [a] ins) (acts[i := as]) (drop_unkept (events s) [a] tmo)"
    by (simp add: s3_def put_event_def base_view_def)
  have k3: "log (kernel s3) = log (kernel s) @ calls_of (events s) a"
    using c(2) logging_ctl [OF log s1(8)] e(1) s1(4) by (simp add: s3_def put_event_def calls_of_def call_of_def)
  have run: "active_loop sys run fuel i fr s = active_loop sys run f i fr s3"
    using h(1,2) e(1) s1(1,3) c(1) f by (simp add: nth_opt_def s3_def e3_def del: call_loop.simps)
  have pre: "\<forall>b \<in> set as. \<exists>e. events s3 b = Some e \<and> callable e \<and> length as + unat (ev_ncalls e) < f"
    using Cons.prems(4) h(3) f by (auto simp: ev3)
  obtain s' where s': "active_loop sys run f i fr s3 = Ret s'"
    "base_view s' (drop_unkept (events s3) as (drop_unkept (events s) [a] ins)) ((acts[i := as])[i := []])
      (drop_unkept (events s3) as (drop_unkept (events s) [a] tmo))"
    "same_statics (events s3) (events s')" "next_frame s' = next_frame s3" "evsignal_caught s' = evsignal_caught s3"
    "(\<forall>a \<in> set as. kept (events s3) a) \<longrightarrow> epfds s' = epfds s3"
    "log (kernel s') = log (kernel s3) @ concat (map (calls_of (events s3)) as)"
    using Cons.IH [OF v3 _ _ pre] Cons.prems(2) e(3) f by auto
  have k: "map (calls_of (events s3)) as = map (calls_of (events s)) as"
    using h(3) by (auto simp: ev3 calls_of_def)
  have "epfds s' = epfds s" if "\<forall>b \<in> set (a # as). kept (events s) b"
    using that s'(6) s1(9) e(1) kept_same [OF st] by (auto simp: kept_def s3_def put_event_def)
  moreover have "next_frame s3 = next_frame s" "evsignal_caught s3 = evsignal_caught s"
    using s1(6,7) by (simp_all add: s3_def put_event_def)
  ultimately show ?case using run s' [unfolded k drop_unkept_same [OF st]] same_statics_trans [OF st s'(3)] k3
    by (intro exI [of _ s']) (simp add: drop_unkept_Cons [of "events s" a as])
qed

lemma first_active_at:
  "i < length hs \<Longrightarrow> tqh_first (hs ! i) \<noteq> Null \<Longrightarrow> \<forall>j < i. tqh_first (hs ! j) = Null \<Longrightarrow> first_active n hs = Some (n + i)"
proof (induction hs arbitrary: i n)
  case (Cons h hs)
  show ?case
  proof (cases i)
    case 0
    then show ?thesis using Cons.prems by simp
  next
    case (Suc j)
    have "\<forall>k < j. tqh_first (hs ! k) = Null" using Cons.prems(3) Suc by (metis Suc_less_eq nth_Cons_Suc)
    then have "first_active (Suc n) hs = Some (Suc n + j)" using Cons.IH [of j "Suc n"] Cons.prems Suc by simp
    then show ?thesis using Cons.prems(3) Suc by (metis add_Suc_shift first_active.simps(2) nth_Cons_0 zero_less_Suc)
  qed
qed simp

lemma process_active_ok:
  assumes "logging sys run log" "base_view s ins acts tmo" "i < length acts" "acts ! i \<noteq> []" "\<forall>j < i. acts ! j = []"
    "\<forall>a \<in> set (acts ! i). \<exists>e. events s a = Some e \<and> callable e \<and> length (acts ! i) + unat (ev_ncalls e) < fuel"
  shows "\<exists>s'. event_process_active sys run fuel s = Ret s' \<and>
      base_view s' (drop_unkept (events s) (acts ! i) ins) (acts[i := []]) (drop_unkept (events s) (acts ! i) tmo) \<and>
      same_statics (events s) (events s') \<and> evsignal_caught s' = evsignal_caught s \<and>
      ((\<forall>a \<in> set (acts ! i). kept (events s) a) \<longrightarrow> epfds s' = epfds s) \<and>
      log (kernel s') = log (kernel s) @ concat (map (calls_of (events s)) (acts ! i))"
proof -
  note q = active_pri [OF assms(2)]
  have f: "first_active 0 (active_queue s) = Some i"
    using first_active_at [of i "active_queue s" 0] q assms(3-5) by (auto simp: neq_Nil_conv)
  let ?s = "s\<lparr>next_frame := next_frame s + 1, frames := (frames s)(next_frame s \<mapsto> 0)\<rparr>"
  have fuel: "0 < fuel" using assms(4,6) by (cases "acts ! i") auto
  obtain s' where s': "active_loop sys run fuel i (next_frame s) ?s = Ret s'"
    "base_view s' (drop_unkept (events ?s) (acts ! i) ins) (acts[i := []]) (drop_unkept (events ?s) (acts ! i) tmo)"
    "same_statics (events ?s) (events s')" "evsignal_caught s' = evsignal_caught ?s"
    "(\<forall>a \<in> set (acts ! i). kept (events ?s) a) \<longrightarrow> epfds s' = epfds ?s"
    "log (kernel s') = log (kernel ?s) @ concat (map (calls_of (events ?s)) (acts ! i))"
    using active_loop_ok [OF assms(1), of ?s ins acts tmo i "acts ! i" fuel "next_frame s"] assms(2,3,6) fuel by auto
  show ?thesis using f s' by (simp add: event_process_active_def Let_def)
qed

subsection \<open>Waking the events of ready descriptors\<close>

fun addrs :: "ptr \<Rightarrow> nat list" where
  "addrs (Ptr a) = [a]"
| "addrs p = []"

definition woken_at :: "ptr \<times> ptr \<Rightarrow> 32 word \<Rightarrow> (nat \<times> 16 word) list" where
  "woken_at slot what =
     (let hup = (what AND (EPOLLHUP OR EPOLLERR) \<noteq> 0) in
      (if hup \<or> what AND EPOLLIN \<noteq> 0 then map (\<lambda>a. (a, EV_READ)) (addrs (fst slot)) else []) @
      (if hup \<or> what AND EPOLLOUT \<noteq> 0 then map (\<lambda>a. (a, EV_WRITE)) (addrs (snd slot)) else []))"

definition woken :: "(ptr \<times> ptr) list \<Rightarrow> (nat \<times> 32 word) list \<Rightarrow> (nat \<times> 16 word) list" where
  "woken fds rs = concat (map (\<lambda>(i, what). woken_at (fds ! i) what) rs)"

definition good_slots :: "(ptr \<times> ptr) list \<Rightarrow> (nat \<times> 32 word) list \<Rightarrow> bool" where
  "good_slots fds rs \<longleftrightarrow> (\<forall>i \<in> fst ` set rs. i < length fds \<and> fst (fds ! i) \<noteq> Wild \<and> snd (fds ! i) \<noteq> Wild)"

fun active_all :: "(nat \<times> 16 word) list \<Rightarrow> ('k, 'z) event_base_scheme \<Rightarrow> ('k, 'z) event_base_scheme lres" where
  "active_all [] s = Ret s"
| "active_all (w # ws) s = lbind (event_active s (fst w) (ucast (snd w)) 1) (active_all ws)"

lemma active_all_append: "active_all (xs @ ys) s = lbind (active_all xs s) (active_all ys)"
proof (induction xs arbitrary: s)
  case (Cons x xs)
  then show ?case by (cases "event_active s (fst x) (ucast (snd x)) 1") simp_all
qed simp

lemma insert_epfds: "event_queue_insert s a q = Ret s' \<Longrightarrow> epfds s' = epfds s"
  by (auto simp: event_queue_insert_def fetch_eq_Ret Let_def put_event_def split: if_splits)

lemma active_all_epfds: "active_all ws s = Ret s' \<Longrightarrow> epfds s' = epfds s"
proof (induction ws arbitrary: s)
  case (Cons w ws)
  obtain s1 where s1: "event_active s (fst w) (ucast (snd w)) 1 = Ret s1" "active_all ws s1 = Ret s'"
    using Cons.prems by (auto simp: lbind_eq_Ret)
  have "epfds s1 = epfds s"
    using s1(1) insert_epfds by (fastforce simp: event_active_def fetch_eq_Ret put_event_def split: if_splits)
  then show ?case using Cons.IH [OF s1(2)] by simp
qed simp

lemma active_all_Nil: "active_all [] = Ret"
  by (rule ext) simp

lemma activate_all: "p \<noteq> Wild \<Longrightarrow> activate s p r = active_all (map (\<lambda>a. (a, r)) (addrs p)) s"
  by (cases p) (simp_all add: activate_def active_all_Nil)

lemma ready_loop_all: "good_slots (epfds s) rs \<Longrightarrow> ready_loop rs s = active_all (woken (epfds s) rs) s"
proof (induction rs arbitrary: s)
  case Nil
  then show ?case by (simp add: woken_def)
next
  case (Cons x rs)
  obtain i what where x: "x = (i, what)" by (cases x)
  obtain r w where slot: "epfds s ! i = (r, w)" by (cases "epfds s ! i")
  have g: "i < length (epfds s)" "r \<noteq> Wild" "w \<noteq> Wild" "good_slots (epfds s) rs"
    using Cons.prems x slot by (auto simp: good_slots_def)
  have one: "lbind (activate s (if b then r else Null) EV_READ) (\<lambda>s1. lbind (activate s1 (if c then w else Null) EV_WRITE) f) =
      lbind (active_all ((if b then map (\<lambda>a. (a, EV_READ)) (addrs r) else []) @
        (if c then map (\<lambda>a. (a, EV_WRITE)) (addrs w) else [])) s) f" for b c f
    using g(2,3) by (auto simp: activate_all active_all_append lbind_assoc)
  have "ready_loop (x # rs) s = lbind (active_all (woken_at (r, w) what) s) (ready_loop rs)"
    using x g(1) slot by (simp add: nth_opt_def woken_at_def Let_def one del: active_all.simps)
  also have "\<dots> = lbind (active_all (woken_at (r, w) what) s) (active_all (woken (epfds s) rs))"
  proof (cases "active_all (woken_at (r, w) what) s")
    case (Ret s1)
    then show ?thesis using Cons.IH [of s1] g(4) active_all_epfds by fastforce
  qed simp_all
  finally show ?case using x slot by (simp add: woken_def active_all_append)
qed

text \<open>An event that \<open>event_active\<close> can queue at priority 0.\<close>

definition sleeping :: "event \<Rightarrow> bool" where
  "sleeping e \<longleftrightarrow> ev_base e \<and> ev_pri e = 0 \<and> \<not> bit (ev_flags e) 3 \<and> (wants e EV_PERSIST \<or> \<not> wants e EV_SIGNAL \<and> 0 \<le> ev_fd e)"

definition woke :: "event \<Rightarrow> 16 word \<Rightarrow> event" where
  "woke e res = e\<lparr>ev_res := ucast res, ev_ncalls := 1, ev_pncalls := Null, ev_flags := ev_flags e OR EVLIST_ACTIVE\<rparr>"

lemma active_all_ok:
  "base_view s ins [q] tmo \<Longrightarrow> distinct (map fst ws) \<Longrightarrow>
   \<forall>a \<in> fst ` set ws. \<exists>e. events s a = Some e \<and> sleeping e \<Longrightarrow>
   \<exists>s'. active_all ws s = Ret s' \<and> base_view s' ins [q @ map fst ws] tmo \<and> rest_of s' = rest_of s \<and>
     (\<forall>w \<in> set ws. \<forall>e. events s (fst w) = Some e \<longrightarrow> events s' (fst w) = Some (woke e (snd w))) \<and>
     (\<forall>b. b \<notin> fst ` set ws \<longrightarrow> events s' b = events s b)"
proof (induction ws arbitrary: s q)
  case Nil
  then show ?case by simp
next
  case (Cons w ws)
  obtain a r where w: "w = (a, r)" by (cases w)
  obtain e where e: "events s a = Some e" "sleeping e" using Cons.prems(3) w by auto
  then have z: "ev_base e" "ev_pri e = 0" "\<not> bit (ev_flags e) 3" by (simp_all add: sleeping_def)
  have "length (active_queue s) = 1" using active_pri [OF Cons.prems(1)] by simp
  then have "ev_pri e < length (active_queue s)" using z(2) by simp
  from active_ok [OF Cons.prems(1) e(1) z(1) this, of "ucast r" 1] z
  obtain s1 where s1: "event_active s a (ucast r) 1 = Ret s1" "rest_of s1 = rest_of s" "base_view s1 ins [q @ [a]] tmo"
    "events s1 = (events s)(a \<mapsto> woke e r)"
    by (auto simp: woke_def)
  have "\<forall>b \<in> fst ` set ws. \<exists>e. events s1 b = Some e \<and> sleeping e"
    using Cons.prems(2,3) w s1(4) by (auto simp: image_iff)
  then obtain s' where s': "active_all ws s1 = Ret s'" "base_view s' ins [(q @ [a]) @ map fst ws] tmo" "rest_of s' = rest_of s1"
    "\<forall>w \<in> set ws. \<forall>e. events s1 (fst w) = Some e \<longrightarrow> events s' (fst w) = Some (woke e (snd w))"
    "\<forall>b. b \<notin> fst ` set ws \<longrightarrow> events s' b = events s1 b"
    using Cons.IH [OF s1(3)] Cons.prems(2) by auto
  have "events s' a = Some (woke e r)" using s'(5) Cons.prems(2) w s1(4) by auto
  moreover have "events s1 b = events s b" if "b \<in> fst ` set ws" for b using that Cons.prems(2) w s1(4) by auto
  then have "\<forall>w \<in> set ws. \<forall>e. events s (fst w) = Some e \<longrightarrow> events s' (fst w) = Some (woke e (snd w))"
    using s'(4) by simp
  moreover have "events s' b = events s b" if "b \<notin> fst ` set (w # ws)" for b using that s'(5) w s1(4) by auto
  ultimately show ?case using w s1(1,2) s'(1-3) e(1) by (intro exI [of _ s']) simp
qed

lemma callable_woke: "sleeping e \<Longrightarrow> callable (woke e r)"
  by (auto simp: sleeping_def callable_def woke_def)

lemma same_statics_woke:
  assumes "\<forall>w \<in> set ws. \<exists>e. events s (fst w) = Some e \<and> events s' (fst w) = Some (woke e (snd w))"
    "\<forall>b. b \<notin> fst ` set ws \<longrightarrow> events s' b = events s b"
  shows "same_statics (events s) (events s')"
proof -
  have "map_option statics (events s' a) = map_option statics (events s a)" for a
    using assms by (cases "a \<in> fst ` set ws") (auto simp: statics_def woke_def)
  then show ?thesis by (simp add: same_statics_def)
qed

definition call_for :: "event store \<Rightarrow> nat \<times> 16 word \<Rightarrow> call" where
  "call_for evs w = (case evs (fst w) of None \<Rightarrow> (0, 0, 0, Null)
     | Some e \<Rightarrow> (ev_callback e, ev_fd e, snd w, ev_arg e))"

lemma ucast_res: "ucast (ucast r :: 32 word) = (r :: 16 word)"
  by (rule ucast_up_ucast_id) (simp add: is_up)

lemma loop_round_ok:
  assumes "logging sys run log" "base_view s ins [[]] tmo" "\<not> evsignal_caught s" "good_slots (epfds s) rs"
    "distinct (map fst (woken (epfds s) rs))" "length (woken (epfds s) rs) + 1 < fuel"
    "\<forall>a \<in> fst ` set (woken (epfds s) rs). \<exists>e. events s a = Some e \<and> sleeping e"
  defines "as \<equiv> map fst (woken (epfds s) rs)"
  shows "\<exists>s'. event_loop_step sys run fuel (Ready rs) s = Ret s' \<and>
    base_view s' (drop_unkept (events s) as ins) [[]] (drop_unkept (events s) as tmo) \<and>
    same_statics (events s) (events s') \<and> \<not> evsignal_caught s' \<and>
    ((\<forall>a \<in> set as. kept (events s) a) \<longrightarrow> epfds s' = epfds s) \<and>
    log (kernel s') = log (kernel s) @ map (call_for (events s)) (woken (epfds s) rs)"
proof -
  let ?ws = "woken (epfds s) rs"
  obtain s1 where s1: "active_all ?ws s = Ret s1" "base_view s1 ins [as] tmo" "rest_of s1 = rest_of s"
    "\<forall>w \<in> set ?ws. \<forall>e. events s (fst w) = Some e \<longrightarrow> events s1 (fst w) = Some (woke e (snd w))"
    "\<forall>b. b \<notin> fst ` set ?ws \<longrightarrow> events s1 b = events s b"
    using active_all_ok [OF assms(2,5,7)] by (auto simp: as_def)
  have wk: "\<forall>w \<in> set ?ws. \<exists>e. events s (fst w) = Some e \<and> sleeping e \<and> events s1 (fst w) = Some (woke e (snd w))"
    using s1(4) assms(7) by force
  then have st: "same_statics (events s) (events s1)" using same_statics_woke [of ?ws s s1] s1(5) by blast
  have d: "epoll_dispatch sys fuel (Ready rs) s = Ret (0, s1)"
    using assms(3) ready_loop_all [OF assms(4)] s1(1) by (simp add: epoll_dispatch_def)
  note r = rest_fields [OF s1(3)]
  have n: "event_count_active s1 = int (length as)" using s1(2) by (simp add: base_view_def active_total_def)
  show ?thesis
  proof (cases "as = []")
    case True
    then have "event_loop_step sys run fuel (Ready rs) s = Ret s1" using d n by (simp add: event_loop_step_def)
    then show ?thesis using s1(2) True r st assms(3) by (intro exI [of _ s1]) (simp add: drop_unkept_def as_def)
  next
    case False
    have pre: "\<forall>a \<in> set ([as] ! 0). \<exists>e. events s1 a = Some e \<and> callable e \<and> length ([as] ! 0) + unat (ev_ncalls e) < fuel"
    proof
      fix a assume "a \<in> set ([as] ! 0)"
      then obtain w e where "w \<in> set ?ws" "a = fst w" "sleeping e" "events s1 a = Some (woke e (snd w))"
        using wk by (auto simp: as_def)
      then show "\<exists>e. events s1 a = Some e \<and> callable e \<and> length ([as] ! 0) + unat (ev_ncalls e) < fuel"
        using callable_woke assms(6) by (auto simp: as_def woke_def)
    qed
    obtain s' where s': "event_process_active sys run fuel s1 = Ret s'"
      "base_view s' (drop_unkept (events s1) as ins) [[]] (drop_unkept (events s1) as tmo)"
      "same_statics (events s1) (events s')" "evsignal_caught s' = evsignal_caught s1"
      "(\<forall>a \<in> set as. kept (events s1) a) \<longrightarrow> epfds s' = epfds s1"
      "log (kernel s') = log (kernel s1) @ concat (map (calls_of (events s1)) as)"
      using process_active_ok [OF assms(1) s1(2) _ _ _ pre] False by auto
    have "calls_of (events s1) (fst w) = [call_for (events s) w]" if w: "w \<in> set ?ws" for w
      using wk [rule_format, OF w] by (auto simp: calls_of_def call_for_def call_of_def woke_def ucast_res)
    then have "map (calls_of (events s1)) as = map (\<lambda>w. [call_for (events s) w]) ?ws" by (simp add: as_def)
    then have "concat (map (calls_of (events s1)) as) = map (call_for (events s)) ?ws"
      by (simp only: concat_map_singleton)
    then have "log (kernel s') = log (kernel s) @ map (call_for (events s)) ?ws" using s'(6) r by simp
    moreover have "event_loop_step sys run fuel (Ready rs) s = Ret s'"
      using d n False s'(1) by (simp add: event_loop_step_def)
    ultimately show ?thesis
      using s'(2,4,5) r assms(3) same_statics_trans [OF st s'(3)]
      by (intro exI [of _ s']) (simp add: drop_unkept_same [OF st] kept_same [OF st])
  qed
qed

end
