(* ===== verification/Ev_Buffer.thy ===== *)
theory Ev_Buffer
  imports Contracts
begin

section \<open>my\_event: evbuffer\<close>

text \<open>
  \<open>cs/my_event/buffer.c\<close> and \<open>struct evbuffer\<close> of \<open>cs/my_event/event.h\<close>.  The block at
  \<open>orig_buffer\<close> is a list (empty for the null pointer), and \<open>buffer\<close> is \<open>misalign\<close>
  bytes into it.  \<open>evbuffer_setcb\<close> has an empty body, so the change callback is null and is
  left out.  Sizes are \<open>size_t\<close>: the sums and the doubling wrap at 64 bits.  \<open>realloc\<close>,
  \<open>ioctl\<close>, \<open>recv\<close> and \<open>send\<close> are parameters.  \<open>None\<close> is undefined behaviour or a loop
  that does not end.
\<close>

record 'b evbuffer =
  ev_mem :: "'b list"
  misalign :: nat
  totallen :: nat
  ev_off :: nat

definition evbuffer_new :: "'b evbuffer" where
  "evbuffer_new = \<lparr>ev_mem = [], misalign = 0, totallen = 0, ev_off = 0\<rparr>"

definition evbuffer_drain :: "'b evbuffer \<Rightarrow> nat \<Rightarrow> 'b evbuffer" where
  "evbuffer_drain b len =
     (if len \<ge> ev_off b then b\<lparr>ev_off := 0, misalign := 0\<rparr>
      else b\<lparr>misalign := misalign b + len, ev_off := ev_off b - len\<rparr>)"

definition evbuffer_align :: "'b evbuffer \<Rightarrow> 'b evbuffer" where
  "evbuffer_align b = b\<lparr>ev_mem := take (ev_off b) (drop (misalign b) (ev_mem b)) @ drop (ev_off b) (ev_mem b),
     misalign := 0\<rparr>"

partial_function (option) double_until :: "nat \<Rightarrow> nat \<Rightarrow> nat option" where
  "double_until len need =
     (if len < need then double_until (u64 (2 * len)) need else Some len)"

text \<open>\<open>junk\<close> is what the new part of a reallocated block contains.\<close>

definition evbuffer_expand :: "'b \<Rightarrow> (nat \<Rightarrow> bool) \<Rightarrow> 'b evbuffer \<Rightarrow> nat \<Rightarrow> (int \<times> 'b evbuffer) option" where
  "evbuffer_expand junk realloc_ok b datlen =
     (let need = u64 (misalign b + ev_off b + datlen) in
      if totallen b \<ge> need then Some (0, b)
      else if misalign b \<ge> datlen then Some (0, evbuffer_align b)
      else do {
        len \<leftarrow> double_until (if totallen b < 256 then 256 else totallen b) need;
        let b1 = (if misalign b \<noteq> 0 then evbuffer_align b else b);
        if \<not> realloc_ok len then Some (-1, b1)
        else Some (0, b1\<lparr>ev_mem := take len (ev_mem b1) @ replicate (len - length (ev_mem b1)) junk, totallen := len\<rparr>) })"

definition evbuffer_add :: "'b \<Rightarrow> (nat \<Rightarrow> bool) \<Rightarrow> 'b evbuffer \<Rightarrow> 'b list \<Rightarrow> (int \<times> 'b evbuffer) option" where
  "evbuffer_add junk realloc_ok b data =
     (let datlen = length data; need = u64 (misalign b + ev_off b + datlen) in do {
      (r, b1) \<leftarrow> (if totallen b < need then evbuffer_expand junk realloc_ok b datlen else Some (0, b));
      if r = -1 then Some (-1, b1)
      else do {
        m \<leftarrow> mem_write (ev_mem b1) (misalign b1 + ev_off b1) data;
        Some (0, b1\<lparr>ev_mem := m, ev_off := ev_off b1 + datlen\<rparr>) } })"

definition evbuffer_max_read :: int where
  "evbuffer_max_read = 4096"

text \<open>
  \<open>fionread\<close> is the number of bytes \<open>ioctl\<close> reports, \<open>rcv n\<close> what \<open>recv\<close> stores when
  asked for \<open>n\<close> bytes (\<open>None\<close> for an error).
\<close>

definition read_size :: "int option \<Rightarrow> int \<Rightarrow> int" where
  "read_size fionread howmuch =
     (let n = (case fionread of None \<Rightarrow> evbuffer_max_read | Some k \<Rightarrow> if k = 0 then evbuffer_max_read else k) in
      if howmuch < 0 \<or> howmuch > n then n else howmuch)"

definition evbuffer_read ::
  "'b \<Rightarrow> (nat \<Rightarrow> bool) \<Rightarrow> int option \<Rightarrow> (int \<Rightarrow> 'b list option) \<Rightarrow> 'b evbuffer \<Rightarrow> int \<Rightarrow> (int \<times> 'b evbuffer) option" where
  "evbuffer_read junk realloc_ok fionread rcv b howmuch =
     (let hm = read_size fionread howmuch in do {
      (r, b1) \<leftarrow> evbuffer_expand junk realloc_ok b (nat hm);
      if r = -1 then Some (-1, b1)
      else (case rcv hm of
        None \<Rightarrow> Some (-1, b1)
      | Some bs \<Rightarrow>
          if bs = [] then Some (0, b1)
          else do {
            m \<leftarrow> mem_write (ev_mem b1) (misalign b1 + ev_off b1) bs;
            Some (int (length bs), b1\<lparr>ev_mem := m, ev_off := ev_off b1 + length bs\<rparr>) }) })"

definition ev_contents :: "'b evbuffer \<Rightarrow> 'b list" where
  "ev_contents b = take (ev_off b) (drop (misalign b) (ev_mem b))"

text \<open>\<open>snd_n bs\<close> is the result of \<open>send\<close>; the second result is the bytes sent.\<close>

definition evbuffer_write :: "('b list \<Rightarrow> int) \<Rightarrow> 'b evbuffer \<Rightarrow> int \<times> 'b evbuffer" where
  "evbuffer_write snd_n b =
     (let n = snd_n (ev_contents b) in
      if n = -1 then (-1, b) else if n = 0 then (0, b) else (n, evbuffer_drain b (nat n)))"

subsection \<open>An evbuffer is a byte queue\<close>

definition evbuf_ok :: "'b evbuffer \<Rightarrow> bool" where
  "evbuf_ok b \<longleftrightarrow> misalign b + ev_off b \<le> totallen b \<and> length (ev_mem b) = totallen b"

lemma length_ev_contents: "evbuf_ok b \<Longrightarrow> length (ev_contents b) = ev_off b"
  by (auto simp: evbuf_ok_def ev_contents_def)

lemma new_evbuf_ok: "evbuf_ok evbuffer_new" "ev_contents evbuffer_new = []"
  by (simp_all add: evbuf_ok_def evbuffer_new_def ev_contents_def)

lemma drain_ok:
  assumes "evbuf_ok b"
  shows "evbuf_ok (evbuffer_drain b n)" "ev_contents (evbuffer_drain b n) = drop n (ev_contents b)"
  using assms by (auto simp: evbuf_ok_def evbuffer_drain_def ev_contents_def drop_take add.commute)

lemma align_ok:
  assumes "evbuf_ok b"
  shows "evbuf_ok (evbuffer_align b)" "ev_contents (evbuffer_align b) = ev_contents b"
    "misalign (evbuffer_align b) = 0" "ev_off (evbuffer_align b) = ev_off b"
    "totallen (evbuffer_align b) = totallen b"
  using assms by (auto simp: evbuf_ok_def evbuffer_align_def ev_contents_def)

text \<open>The doubling loop: when it ends, the length is enough, and up to \<open>2 ^ 63\<close> it ends.\<close>

lemma double_until_ge:
  assumes "double_until l need = Some r"
  shows "need \<le> r"
  by (rule double_until.raw_induct [where P = "\<lambda>l need r. need \<le> r", OF _ assms]) (auto split: if_splits)

lemma double_until_total:
  "0 < l \<Longrightarrow> need \<le> 2 ^ 63 \<Longrightarrow> \<exists>r. double_until l need = Some r"
proof (induction "need - l" arbitrary: l rule: less_induct)
  case less
  show ?case
  proof (cases "l < need")
    case True
    have w: "u64 (2 * l) = 2 * l" using True less.prems(2) by (intro u64_small) simp
    obtain r where "double_until (2 * l) need = Some r"
      using less.hyps [of "2 * l"] less.prems True by (metis diff_less_mono2 less_add_same_cancel1 mult_2
          nat_0_less_mult_iff zero_less_numeral)
    with True w show ?thesis by (subst double_until.simps) auto
  qed (subst double_until.simps, simp)
qed

lemma double_until_lt:
  assumes "double_until l need = Some r" "l < 2 ^ 64"
  shows "r < 2 ^ 64"
proof -
  have "l < 2 ^ 64 \<longrightarrow> r < 2 ^ 64"
    by (rule double_until.raw_induct [where P = "\<lambda>l need r. l < 2 ^ 64 \<longrightarrow> r < 2 ^ 64", OF _ assms(1)])
      (auto split: if_splits simp: u64_def)
  then show ?thesis using assms(2) by simp
qed

lemma double_until_diverges:
  assumes "0 < need"
  shows "double_until 0 need = None"
proof (rule ccontr)
  assume "double_until 0 need \<noteq> None"
  then obtain r where r: "double_until 0 need = Some r" by blast
  have "(0::nat) = 0 \<longrightarrow> need = 0"
    by (rule double_until.raw_induct [where P = "\<lambda>l need r. l = 0 \<longrightarrow> need = 0", OF _ r])
      (auto split: if_splits simp: u64_def)
  with assms show False by simp
qed

lemma expand_ok:
  assumes b: "evbuf_ok b" and small: "totallen b < 2 ^ 64" "misalign b + ev_off b + n < 2 ^ 64"
    and e: "evbuffer_expand junk ra b n = Some (r, b')"
  shows "evbuf_ok b' \<and> ev_contents b' = ev_contents b \<and> ev_off b' = ev_off b \<and> (r = 0 \<or> r = -1) \<and>
    (r = 0 \<longrightarrow> misalign b' + ev_off b' + n \<le> totallen b')"
proof -
  let ?need = "misalign b + ev_off b + n"
  note a = align_ok [OF b]
  consider (fits) "?need \<le> totallen b" | (shift) "\<not> ?need \<le> totallen b" "n \<le> misalign b"
    | (grow) "\<not> ?need \<le> totallen b" "\<not> n \<le> misalign b" by blast
  then show ?thesis
  proof cases
    case fits
    then show ?thesis using b e small by (auto simp: evbuffer_expand_def Let_def)
  next
    case shift
    then have "r = 0 \<and> b' = evbuffer_align b" using e small by (simp add: evbuffer_expand_def Let_def)
    moreover have "n \<le> totallen b - ev_off b" using shift(2) b by (auto simp: evbuf_ok_def)
    ultimately show ?thesis using a b by (auto simp: evbuf_ok_def)
  next
    case grow
    define b1 where "b1 = (if misalign b \<noteq> 0 then evbuffer_align b else b)"
    have b1: "evbuf_ok b1" "ev_contents b1 = ev_contents b" "misalign b1 = 0" "ev_off b1 = ev_off b"
      "totallen b1 = totallen b"
      using a b by (auto simp: b1_def)
    obtain len where len: "double_until (if totallen b < 256 then 256 else totallen b) ?need = Some len"
      "(if \<not> ra len then Some (-1, b1) else Some (0, b1\<lparr>ev_mem := take len (ev_mem b1) @
          replicate (len - length (ev_mem b1)) junk, totallen := len\<rparr>)) = Some (r, b')"
      using e grow small unfolding evbuffer_expand_def Let_def b1_def [symmetric]
      by (simp add: bind_eq_Some_conv del: not_less not_le) blast
    have ge: "?need \<le> len" using double_until_ge [OF len(1)] .
    show ?thesis
    proof (cases "ra len")
      case False
      then show ?thesis using len(2) b1 by auto
    next
      case True
      have l: "length (ev_mem b1) = totallen b" "ev_off b \<le> totallen b" "totallen b \<le> len"
        using b1 grow ge by (auto simp: evbuf_ok_def)
      have "r = 0" "b' = b1\<lparr>ev_mem := ev_mem b1 @ replicate (len - totallen b) junk, totallen := len\<rparr>"
        using True len(2) l by auto
      then show ?thesis using b1 ge l by (auto simp: evbuf_ok_def ev_contents_def)
    qed
  qed
qed

lemma write_tail:
  assumes b: "evbuf_ok b" and room: "misalign b + ev_off b + length bs \<le> totallen b"
  shows "\<exists>m. mem_write (ev_mem b) (misalign b + ev_off b) bs = Some m \<and>
    evbuf_ok (b\<lparr>ev_mem := m, ev_off := ev_off b + length bs\<rparr>) \<and>
    ev_contents (b\<lparr>ev_mem := m, ev_off := ev_off b + length bs\<rparr>) = ev_contents b @ bs"
proof -
  have l: "length (ev_mem b) = totallen b" using b by (simp add: evbuf_ok_def)
  let ?m = "take (misalign b + ev_off b) (ev_mem b) @ bs @ drop (misalign b + ev_off b + length bs) (ev_mem b)"
  have "take (ev_off b + length bs) (drop (misalign b) ?m) = take (ev_off b) (drop (misalign b) (ev_mem b)) @ bs"
    using l room by (simp add: take_append drop_take)
  then show ?thesis using l room by (auto simp: mem_write_room evbuf_ok_def ev_contents_def)
qed

lemma add_ok:
  assumes b: "evbuf_ok b" and small: "totallen b < 2 ^ 64" "misalign b + ev_off b + length bs < 2 ^ 64"
    and e: "evbuffer_add junk ra b bs = Some (r, b')"
  shows "evbuf_ok b' \<and> ev_contents b' = ev_contents b @ (if r = 0 then bs else []) \<and> (r = 0 \<or> r = -1)"
proof -
  let ?need = "misalign b + ev_off b + length bs"
  obtain r1 b1 where s1: "(if totallen b < ?need then evbuffer_expand junk ra b (length bs) else Some (0, b)) = Some (r1, b1)"
    "(if r1 = -1 then Some (-1, b1) else do {
        m \<leftarrow> mem_write (ev_mem b1) (misalign b1 + ev_off b1) bs;
        Some (0, b1\<lparr>ev_mem := m, ev_off := ev_off b1 + length bs\<rparr>) }) = Some (r, b')"
    using e small by (auto simp: evbuffer_add_def Let_def bind_eq_Some_conv)
  have x: "evbuf_ok b1 \<and> ev_contents b1 = ev_contents b \<and> (r1 = 0 \<or> r1 = -1) \<and>
    (r1 = 0 \<longrightarrow> misalign b1 + ev_off b1 + length bs \<le> totallen b1)"
    using expand_ok [OF b small, of junk ra r1 b1] s1(1) b by (cases "totallen b < ?need") auto
  show ?thesis
  proof (cases "r1 = -1")
    case True
    then show ?thesis using s1(2) x by auto
  next
    case False
    then have "misalign b1 + ev_off b1 + length bs \<le> totallen b1" using x by blast
    with write_tail [of b1 bs] x False s1(2) show ?thesis by auto
  qed
qed

lemma expand_total:
  assumes b: "evbuf_ok b" and small: "misalign b + ev_off b + n \<le> 2 ^ 63" "totallen b < 2 ^ 64" and ra: "\<forall>n. ra n"
  shows "\<exists>b1. evbuffer_expand junk ra b n = Some (0, b1) \<and> evbuf_ok b1 \<and> ev_contents b1 = ev_contents b \<and>
    ev_off b1 = ev_off b \<and> misalign b1 + ev_off b1 + n \<le> totallen b1"
proof -
  let ?need = "misalign b + ev_off b + n"
  have u: "u64 ?need = ?need" "?need < 2 ^ 64" using small(1) by simp_all
  have "0 < (if totallen b < 256 then 256 else totallen b)" by simp
  from double_until_total [OF this small(1)]
  obtain len where "double_until (if totallen b < 256 then 256 else totallen b) ?need = Some len" by blast
  then have "\<exists>b1. evbuffer_expand junk ra b n = Some (0, b1)"
    using u ra unfolding evbuffer_expand_def Let_def by (cases "n \<le> misalign b") simp_all
  then obtain b1 where "evbuffer_expand junk ra b n = Some (0, b1)" by blast
  then show ?thesis using expand_ok [OF b small(2) u(2)] by blast
qed

lemma add_total:
  assumes b: "evbuf_ok b" and small: "misalign b + ev_off b + length bs \<le> 2 ^ 63"
    and ra: "\<forall>n. ra n"
  shows "\<exists>b'. evbuffer_add junk ra b bs = Some (0, b')"
proof -
  let ?need = "misalign b + ev_off b + length bs"
  have n: "u64 ?need = ?need" using small by simp
  have "\<exists>b1. (if totallen b < ?need then evbuffer_expand junk ra b (length bs) else Some (0, b)) = Some (0, b1) \<and>
    misalign b1 + ev_off b1 + length bs \<le> totallen b1 \<and> evbuf_ok b1"
    using expand_total [OF b small _ ra, of junk] b small by (cases "totallen b < ?need") auto
  then obtain b1 where b1: "(if totallen b < ?need then evbuffer_expand junk ra b (length bs) else Some (0, b)) = Some (0, b1)"
    "misalign b1 + ev_off b1 + length bs \<le> totallen b1" "evbuf_ok b1" by blast
  from write_tail [OF b1(3,2)] b1(1) show ?thesis
    using n by (auto simp: evbuffer_add_def Let_def)
qed

text \<open>Receiving appends what \<open>recv\<close> stored.\<close>

lemma read_ok:
  assumes b: "evbuf_ok b" "misalign b + ev_off b + nat (read_size avail howmuch) \<le> 2 ^ 63" "totallen b < 2 ^ 64" "\<forall>n. ra n"
    and r: "rcv (read_size avail howmuch) = Some bs" "length bs \<le> nat (read_size avail howmuch)"
  shows "\<exists>b'. evbuffer_read junk ra avail rcv b howmuch = Some (int (length bs), b') \<and> evbuf_ok b' \<and>
    ev_contents b' = ev_contents b @ bs"
proof -
  obtain b1 where b1: "evbuffer_expand junk ra b (nat (read_size avail howmuch)) = Some (0, b1)" "evbuf_ok b1"
    "ev_contents b1 = ev_contents b" "misalign b1 + ev_off b1 + nat (read_size avail howmuch) \<le> totallen b1"
    using expand_total [OF b] by blast
  show ?thesis
  proof (cases "bs = []")
    case True
    then show ?thesis using b1 r by (simp add: evbuffer_read_def Let_def)
  next
    case False
    have "misalign b1 + ev_off b1 + length bs \<le> totallen b1" using b1(4) r(2) by simp
    with write_tail [OF b1(2) this] show ?thesis using b1 r False by (auto simp: evbuffer_read_def Let_def)
  qed
qed

text \<open>The buffer with its append as a partial operation: an append that returns 0.\<close>

definition ev_append :: "'b \<Rightarrow> (nat \<Rightarrow> bool) \<Rightarrow> 'b evbuffer \<Rightarrow> 'b list \<Rightarrow> 'b evbuffer option" where
  "ev_append junk ra b bs = (if totallen b < 2 ^ 64 \<and> misalign b + ev_off b + length bs < 2 ^ 64 then
     (case evbuffer_add junk ra b bs of Some (r, b') \<Rightarrow> if r = 0 then Some b' else None | None \<Rightarrow> None)
   else None)"

text \<open>An append of any size that ends below \<open>2 ^ 63\<close> succeeds, and keeps the block below \<open>2 ^ 64\<close>.\<close>

lemma expand_size:
  assumes "evbuffer_expand junk ra b n = Some (r, b')" "totallen b < 2 ^ 64"
  shows "totallen b' < 2 ^ 64 \<and> misalign b' + ev_off b' \<le> misalign b + ev_off b"
  using assms double_until_lt [of "if totallen b < 256 then 256 else totallen b"]
  by (fastforce simp: evbuffer_expand_def evbuffer_align_def Let_def split: if_splits bind_splits)

lemma ev_append_total:
  assumes b: "evbuf_ok b" "totallen b < 2 ^ 64" and small: "misalign b + ev_off b + length bs \<le> 2 ^ 63" and ra: "\<forall>n. ra n"
  shows "\<exists>b'. ev_append junk ra b bs = Some b' \<and> evbuf_ok b' \<and> totallen b' < 2 ^ 64 \<and>
    misalign b' + ev_off b' \<le> misalign b + ev_off b + length bs"
proof -
  obtain b' where b': "evbuffer_add junk ra b bs = Some (0, b')" using add_total [OF b(1) small ra] by blast
  then have "evbuf_ok b'" using add_ok [OF b(1,2) _ b'] small by simp
  moreover have "totallen b' < 2 ^ 64 \<and> misalign b' + ev_off b' \<le> misalign b + ev_off b + length bs"
    using b' b(2) expand_size [where b = b] by (fastforce simp: evbuffer_add_def Let_def split: if_splits bind_splits prod.splits)
  ultimately show ?thesis using b' b(2) small by (simp add: ev_append_def)
qed

lemma drain_size: "totallen (evbuffer_drain b n) = totallen b"
  "misalign (evbuffer_drain b n) + ev_off (evbuffer_drain b n) \<le> misalign b + ev_off b"
  by (simp_all add: evbuffer_drain_def)

lemma ev_run_total:
  assumes ra: "\<forall>n. ra n"
  shows "evbuf_ok b \<Longrightarrow> totallen b < 2 ^ 64 \<Longrightarrow> misalign b + ev_off b + length (appended ops) \<le> 2 ^ 63 \<Longrightarrow>
    \<exists>out b'. fifo_run ev_contents (ev_append junk ra) evbuffer_drain b ops = Some (out, b')"
proof (induction ops arbitrary: b)
  case Nil
  then show ?case by simp
next
  case (Cons x ops)
  show ?case
  proof (cases x)
    case (Append bs)
    have "misalign b + ev_off b + length bs \<le> 2 ^ 63" using Cons.prems(3) Append by simp
    from ev_append_total [OF Cons.prems(1,2) this ra] obtain b1 where b1: "ev_append junk ra b bs = Some b1"
      "evbuf_ok b1" "totallen b1 < 2 ^ 64" "misalign b1 + ev_off b1 \<le> misalign b + ev_off b + length bs" by blast
    have "misalign b1 + ev_off b1 + length (appended ops) \<le> 2 ^ 63" using b1(4) Cons.prems(3) Append by simp
    from Cons.IH [OF b1(2,3) this] show ?thesis using Append b1(1) by simp
  next
    case (Drain n)
    have "misalign (evbuffer_drain b n) + ev_off (evbuffer_drain b n) + length (appended ops) \<le> 2 ^ 63"
      using Cons.prems(3) Drain drain_size(2) [of b n] by simp
    from Cons.IH [OF drain_ok(1) [OF Cons.prems(1)] _ this] show ?thesis
      using Cons.prems(2) Drain drain_size(1) [of b n] by auto
  qed
qed

interpretation evq: byte_fifo ev_contents "ev_append junk ra" evbuffer_drain evbuf_ok for junk :: 'b and ra
proof
  fix s s' :: "'b evbuffer" and bs
  assume "evbuf_ok s" "ev_append junk ra s bs = Some s'"
  then show "evbuf_ok s' \<and> ev_contents s' = ev_contents s @ bs"
    using add_ok [of s bs junk ra 0 s'] by (auto simp: ev_append_def split: option.splits if_splits)
qed (simp_all add: drain_ok)

end
