(* ===== verification/Ev_Props.thy ===== *)
theory Ev_Props
  imports Ev_Runs Ev_Buffer
begin

section \<open>my\_event: properties\<close>

text \<open>
  The properties of the event library, with witnesses over a small event base of two events
  and a world that records the calls.
\<close>

subsection \<open>A concrete event base\<close>

definition demo_sys :: "call list sys" where
  "demo_sys = \<lparr>sys_ctl = (\<lambda>op fd evs k. (0, k)), sys_sigaction = (\<lambda>_. True),
     sys_sh_array = (\<lambda>_. True), sys_sh_slot = (\<lambda>_. True)\<rparr>"

definition demo_run :: "(call list, unit) callbacks" where
  "demo_run cb fd res arg s = Ret (s\<lparr>kernel := kernel s @ [(cb, fd, res, arg)]\<rparr>)"

lemma demo_logging: "logging demo_sys demo_run id"
  by (simp add: logging_def demo_sys_def demo_run_def)

definition demo_event :: "int \<Rightarrow> 16 word \<Rightarrow> nat \<Rightarrow> event" where
  "demo_event fd evs cb = \<lparr>ev_fd = fd, ev_events = evs, ev_callback = cb, ev_arg = Null, ev_res = 0, ev_base = True,
     ev_flags = EVLIST_INIT, ev_ncalls = 0, ev_pncalls = Null, ev_pri = 0\<rparr>"

definition demo_base :: "call list event_base" where
  "demo_base = \<lparr>events = [1 \<mapsto> demo_event 0 (EV_READ OR EV_PERSIST) 7, 2 \<mapsto> demo_event 1 EV_WRITE 8],
     ins_links = [1 \<mapsto> \<lparr>tqe_next = Null, tqe_prev = Junk_loc\<rparr>, 2 \<mapsto> \<lparr>tqe_next = Null, tqe_prev = Junk_loc\<rparr>],
     act_links = [1 \<mapsto> \<lparr>tqe_next = Null, tqe_prev = Junk_loc\<rparr>, 2 \<mapsto> \<lparr>tqe_next = Null, tqe_prev = Junk_loc\<rparr>],
     tmo_links = [1 \<mapsto> \<lparr>tqe_next = Null, tqe_prev = Junk_loc\<rparr>, 2 \<mapsto> \<lparr>tqe_next = Null, tqe_prev = Junk_loc\<rparr>],
     sig_links = Map.empty, inserted_queue = tailq_init, active_queue = [tailq_init], timeout_queue = tailq_init,
     event_count = 0, event_count_active = 0, current_base = True, evsignal_base = False, ev_signal = 0,
     ev_signal_pair = (5, 6), ev_signal_added = False, evsignal_caught = False, evsigevents = [], evsigcaught = [],
     sh_old = [], epfds = [(Null, Null), (Null, Null)], kernel = [], frames = Map.empty, next_frame = 0\<rparr>"

lemma init_bits [simp]: "bit EVLIST_INIT n \<longleftrightarrow> n = 7"
  using bit_exp_iff [of 7 n, where 'a = "32 word"] by (auto simp: EVLIST_INIT_def)

lemma demo_view: "base_view demo_base [] [[]] []"
  by (auto simp: base_view_def list_view_def active_view_def active_total_def demo_base_def demo_event_def init_holds
      flagged_def at_priority_def)

subsection \<open>Adding, deleting and activating events\<close>

text \<open>
  The states of an event base that the operations on events of descriptors reach from a state
  whose queues agree with the flags: \<open>usable\<close> is what the operations need of the event.
\<close>

definition usable :: "('k, 'z) event_base_scheme \<Rightarrow> nat \<Rightarrow> bool" where
  "usable s a \<longleftrightarrow> (\<exists>e. events s a = Some e \<and> ev_base e \<and> \<not> wants e EV_SIGNAL \<and> 0 \<le> ev_fd e \<and>
     calls_live s e \<and> ev_pri e < length (active_queue s))"

inductive ev_reach :: "'k sys \<Rightarrow> ('k, 'z) event_base_scheme \<Rightarrow> ('k, 'z) event_base_scheme \<Rightarrow> bool" for sys s0 where
  Start: "ev_reach sys s0 s0"
| Add: "ev_reach sys s0 s \<Longrightarrow> usable s a \<Longrightarrow> event_add sys s a tv = Ret (r, s') \<Longrightarrow> ev_reach sys s0 s'"
| Del: "ev_reach sys s0 s \<Longrightarrow> usable s a \<Longrightarrow> event_del sys s a = Ret (r, s') \<Longrightarrow> ev_reach sys s0 s'"
| Activate: "ev_reach sys s0 s \<Longrightarrow> usable s a \<Longrightarrow> event_active s a res n = Ret s' \<Longrightarrow> ev_reach sys s0 s'"

lemma add_keeps:
  assumes "base_view s ins acts tmo" "usable s a"
  shows "\<exists>r s' ins' acts' tmo'. event_add sys s a tv = Ret (r, s') \<and> base_view s' ins' acts' tmo'"
proof -
  obtain e where "events s a = Some e" "ev_base e" "\<not> wants e EV_SIGNAL" "0 \<le> ev_fd e" "calls_live s e"
    using assms(2) usable_def by blast
  from event_add_ok [OF assms(1) this, of sys tv] show ?thesis by blast
qed

lemma del_keeps:
  assumes "base_view s ins acts tmo" "usable s a"
  shows "\<exists>r s' ins' acts' tmo'. event_del sys s a = Ret (r, s') \<and> base_view s' ins' acts' tmo'"
proof -
  obtain e where "events s a = Some e" "ev_base e" "\<not> wants e EV_SIGNAL" "0 \<le> ev_fd e" "calls_live s e"
    using assms(2) usable_def by blast
  from event_del_ok [OF assms(1) this, of sys] show ?thesis by blast
qed

lemma active_keeps: "base_view s ins acts tmo \<Longrightarrow> usable s a \<Longrightarrow>
    \<exists>s' acts'. event_active s a res n = Ret s' \<and> base_view s' ins acts' tmo"
  unfolding usable_def using active_ok by blast

definition agree :: "('k, 'z) event_base_scheme \<Rightarrow> bool" where
  "agree s \<longleftrightarrow> (\<exists>ins acts tmo. base_view s ins acts tmo)"

lemma keeps:
  assumes "agree s" "usable s a"
  shows "\<exists>r s'. event_add sys s a tv = Ret (r, s') \<and> agree s'" "\<exists>r s'. event_del sys s a = Ret (r, s') \<and> agree s'"
    "\<exists>s'. event_active s a res n = Ret s' \<and> agree s'"
proof -
  obtain ins acts tmo where v: "base_view s ins acts tmo" using assms(1) agree_def by blast
  show "\<exists>r s'. event_add sys s a tv = Ret (r, s') \<and> agree s'" "\<exists>r s'. event_del sys s a = Ret (r, s') \<and> agree s'"
    "\<exists>s'. event_active s a res n = Ret s' \<and> agree s'"
    using add_keeps [OF v assms(2)] del_keeps [OF v assms(2)] active_keeps [OF v assms(2)]
    unfolding agree_def by blast+
qed

lemma reach_agree: "ev_reach sys s0 s \<Longrightarrow> agree s0 \<Longrightarrow> agree s"
proof (induction rule: ev_reach.induct)
  case (Add s a tv r s')
  then show ?case using keeps(1) [OF Add.IH [OF Add.prems] Add.hyps(2), of sys tv] by auto
next
  case (Del s a r s')
  then show ?case using keeps(2) [OF Del.IH [OF Del.prems] Del.hyps(2), of sys] by auto
next
  case (Activate s a res n s')
  then show ?case using keeps(3) [OF Activate.IH [OF Activate.prems] Activate.hyps(2), of res n] by auto
qed

text \<open>
  C9. However events of descriptors are added, deleted and activated, starting from an event base
  whose queues agree with the flags, the agreement is kept - an event is on a queue exactly when
  its flag is set, and the two counters are the sizes of the queues - and none of the three
  operations is undefined on an event that is \<open>usable\<close>: one of the base, not a signal event, with
  a descriptor that is not negative, a priority that has a queue, and no call under way whose
  counter is gone.  Signal events are left out because event_del is undefined for them
  (\<open>signal_delete_undefined\<close>), negative descriptors because they are used as an index.
\<close>

theorem queues_match_flags:
  assumes "agree s0" "ev_reach sys s0 s"
  shows "agree s \<and>
    (\<forall>a tv res n. usable s a \<longrightarrow> (\<exists>r s'. event_add sys s a tv = Ret (r, s')) \<and>
       (\<exists>r s'. event_del sys s a = Ret (r, s')) \<and> (\<exists>s'. event_active s a res n = Ret s'))"
  using reach_agree [OF assms(2,1)] keeps by blast

lemma demo_usable: "usable demo_base 1" "usable demo_base 2"
  by (simp_all add: usable_def demo_base_def demo_event_def calls_live_def EV_READ_def EV_WRITE_def EV_PERSIST_def EV_SIGNAL_def)

theorem queues_match_flags_witness:
  "\<exists>r s. event_add demo_sys demo_base 1 True = Ret (r, s) \<and> agree s"
proof -
  have d: "agree demo_base" using demo_view agree_def by blast
  obtain r s where s: "event_add demo_sys demo_base 1 True = Ret (r, s)"
    using keeps(1) [OF d demo_usable(1)] by blast
  have "ev_reach demo_sys demo_base s" using ev_reach.Add [OF ev_reach.Start demo_usable(1) s] .
  from queues_match_flags [OF d this] s show ?thesis by blast
qed

text \<open>
  event_add in detail: it fails exactly for a descriptor beyond the table; otherwise it
  puts the event at the tail of the inserted queue unless it is inserted or active already,
  and with a timeout at the tail of the timeout queue.
\<close>

theorem event_add_behaviour:
  assumes "base_view s ins acts tmo" "events s a = Some e" "ev_base e" "\<not> wants e EV_SIGNAL" "0 \<le> ev_fd e" "calls_live s e"
  defines "fresh \<equiv> wants e (EV_READ OR EV_WRITE OR EV_SIGNAL) \<and> \<not> bit (ev_flags e) 1 \<and> \<not> bit (ev_flags e) 3"
  shows "\<exists>r s' acts'. event_add sys s a tv = Ret (r, s') \<and> (r = -1 \<longleftrightarrow> fresh \<and> ev_fd e \<ge> int (length (epfds s))) \<and>
    base_view s' (if fresh \<and> r \<noteq> -1 then ins @ [a] else ins) acts' (if tv \<and> r \<noteq> -1 then remove1 a tmo @ [a] else tmo)"
  using event_add_ok [OF assms(1-6), of sys tv] unfolding fresh_def by blast

theorem event_add_behaviour_witness:
  "\<exists>r s acts. event_add demo_sys demo_base 1 True = Ret (r, s) \<and> r \<noteq> -1 \<and> base_view s [1] acts [1]"
proof -
  have e: "events demo_base 1 = Some (demo_event 0 (EV_READ OR EV_PERSIST) 7)" by (simp add: demo_base_def)
  have x: "ev_base (demo_event 0 (EV_READ OR EV_PERSIST) 7)" "\<not> wants (demo_event 0 (EV_READ OR EV_PERSIST) 7) EV_SIGNAL"
    "0 \<le> ev_fd (demo_event 0 (EV_READ OR EV_PERSIST) 7)" "calls_live demo_base (demo_event 0 (EV_READ OR EV_PERSIST) 7)"
    by (simp_all add: demo_event_def calls_live_def EV_READ_def EV_PERSIST_def EV_SIGNAL_def)
  have "wants (demo_event 0 (EV_READ OR EV_PERSIST) 7) (EV_READ OR EV_WRITE OR EV_SIGNAL)"
    by (simp add: demo_event_def EV_READ_def EV_PERSIST_def EV_SIGNAL_def EV_WRITE_def)
  then show ?thesis using event_add_behaviour [OF demo_view e x, of demo_sys True]
    by (auto simp: demo_event_def demo_base_def)
qed

text \<open>
  event_del takes the event out of every queue it is on - the inserted, the timeout and its
  active queue - and leaves the other events where they are.
\<close>

theorem event_del_behaviour:
  assumes "base_view s ins acts tmo" "events s a = Some e" "ev_base e" "\<not> wants e EV_SIGNAL" "0 \<le> ev_fd e" "calls_live s e"
  shows "\<exists>r s'. event_del sys s a = Ret (r, s') \<and>
    base_view s' (remove1 a ins) (acts[ev_pri e := remove1 a (acts ! ev_pri e)]) (remove1 a tmo) \<and>
    (\<forall>b. b \<noteq> a \<longrightarrow> events s' b = events s b)"
  using event_del_ok [OF assms, of sys] by fastforce

theorem event_del_behaviour_witness:
  "\<exists>r s. event_del demo_sys demo_base 2 = Ret (r, s) \<and> base_view s [] [[]] []"
proof -
  have "\<exists>r s'. event_del demo_sys demo_base 2 = Ret (r, s') \<and>
      base_view s' (remove1 2 []) ([[]][ev_pri (demo_event 1 EV_WRITE 8) := remove1 2 ([[]] ! ev_pri (demo_event 1 EV_WRITE 8))]) (remove1 2 []) \<and>
      (\<forall>b. b \<noteq> 2 \<longrightarrow> events s' b = events demo_base b)"
    by (rule event_del_behaviour [OF demo_view])
      (simp_all add: demo_base_def demo_event_def calls_live_def EV_WRITE_def EV_SIGNAL_def)
  then show ?thesis by (auto simp: demo_event_def)
qed

subsection \<open>The loop\<close>

text \<open>
  C8. One round of the event loop.  When epoll_wait reports descriptors whose events are idle
  at the one priority, and callbacks act on the outside world only, the round calls the
  callback of every woken event exactly once, in the order reported and the reader before the
  writer, with the descriptor, the reason and the event's own argument; afterwards no event is
  active, and exactly the woken events without EV_PERSIST have left the other queues.
\<close>

theorem loop_round:
  assumes "logging sys run log" "base_view s ins [[]] tmo" "\<not> evsignal_caught s" "good_slots (epfds s) rs"
    "distinct (map fst (woken (epfds s) rs))" "length (woken (epfds s) rs) + 1 < fuel"
    "\<forall>a \<in> fst ` set (woken (epfds s) rs). \<exists>e. events s a = Some e \<and> sleeping e"
  shows "\<exists>s'. event_loop_step sys run fuel (Ready rs) s = Ret s' \<and>
    log (kernel s') = log (kernel s) @ map (call_for (events s)) (woken (epfds s) rs) \<and>
    base_view s' (drop_unkept (events s) (map fst (woken (epfds s) rs)) ins) [[]]
      (drop_unkept (events s) (map fst (woken (epfds s) rs)) tmo)"
  using loop_round_ok [OF assms] by blast

definition demo_waiting :: "call list event_base" where
  "demo_waiting = demo_base\<lparr>epfds := [(Ptr 1, Null), (Null, Ptr 2)]\<rparr>"

lemma demo_waiting_view: "base_view demo_waiting [] [[]] []"
  using demo_view by (simp add: demo_waiting_def)

lemma demo_woken: "woken (epfds demo_waiting) [(1, EPOLLHUP), (0, EPOLLIN)] = [(2, EV_WRITE), (1, EV_READ)]"
  by (simp add: woken_def woken_at_def demo_waiting_def EPOLLHUP_def EPOLLERR_def EPOLLIN_def EPOLLOUT_def Let_def)

lemma drop_nothing: "drop_unkept evs as [] = []"
  by (induction as) (simp_all add: drop_unkept_def)

lemma demo_sleeping: "\<exists>e. events demo_waiting 1 = Some e \<and> sleeping e" "\<exists>e. events demo_waiting 2 = Some e \<and> sleeping e"
  by (simp_all add: demo_waiting_def demo_base_def demo_event_def sleeping_def EV_READ_def EV_WRITE_def EV_PERSIST_def EV_SIGNAL_def)

theorem loop_round_witness:
  "\<exists>s. event_loop_step demo_sys demo_run 5 (Ready [(1, EPOLLHUP), (0, EPOLLIN)]) demo_waiting = Ret s \<and>
    kernel s = [(8, 1, EV_WRITE, Null), (7, 0, EV_READ, Null)] \<and> base_view s [] [[]] []"
proof -
  let ?rs = "[(1, EPOLLHUP), (0, EPOLLIN)]"
  have g: "good_slots (epfds demo_waiting) ?rs" "\<not> evsignal_caught demo_waiting"
    by (simp_all add: good_slots_def demo_waiting_def demo_base_def)
  have "\<exists>s'. event_loop_step demo_sys demo_run 5 (Ready ?rs) demo_waiting = Ret s' \<and>
    id (kernel s') = id (kernel demo_waiting) @ map (call_for (events demo_waiting)) (woken (epfds demo_waiting) ?rs) \<and>
    base_view s' (drop_unkept (events demo_waiting) (map fst (woken (epfds demo_waiting) ?rs)) []) [[]]
      (drop_unkept (events demo_waiting) (map fst (woken (epfds demo_waiting) ?rs)) [])"
    by (rule loop_round [OF demo_logging demo_waiting_view g(2,1)]; unfold demo_woken) (use demo_sleeping in simp_all)
  then show ?thesis unfolding demo_woken drop_nothing
    by (auto simp: call_for_def demo_waiting_def demo_base_def demo_event_def)
qed

lemma call_for_same:
  assumes "same_statics evs evs'"
  shows "call_for evs' w = call_for evs w"
proof (cases "evs (fst w)")
  case None
  have "map_option statics (evs' (fst w)) = map_option statics (evs (fst w))" using assms by (simp add: same_statics_def)
  then show ?thesis using None by (simp add: call_for_def)
next
  case (Some e)
  obtain e' where e': "evs' (fst w) = Some e'" "statics e' = statics e" using same_staticsD [OF assms Some] by blast
  then show ?thesis using Some statics_eqs [OF e'(2)] by (simp add: call_for_def)
qed

text \<open>\<open>listening\<close>: an event of a descriptor that stays in the loop after it is called.\<close>

definition listening :: "event store \<Rightarrow> nat \<Rightarrow> bool" where
  "listening evs a \<longleftrightarrow> (\<exists>e. evs a = Some e \<and> ev_base e \<and> ev_pri e = 0 \<and> wants e EV_PERSIST)"

lemma listening_same:
  assumes "same_statics evs evs'" "listening evs a"
  shows "listening evs' a"
proof -
  obtain e where e: "evs a = Some e" "ev_base e" "ev_pri e = 0" "wants e EV_PERSIST"
    using assms(2) by (auto simp: listening_def)
  obtain e' where e': "evs' a = Some e'" "statics e' = statics e" using same_staticsD [OF assms(1) e(1)] by blast
  then show ?thesis using e statics_eqs [OF e'(2)] by (simp add: listening_def)
qed

lemma idle_sleeping: "base_view s ins [[]] tmo \<Longrightarrow> listening (events s) a \<Longrightarrow> \<exists>e. events s a = Some e \<and> sleeping e"
proof -
  assume v: "base_view s ins [[]] tmo" and "listening (events s) a"
  then obtain e where e: "events s a = Some e" "ev_base e" "ev_pri e = 0" "wants e EV_PERSIST" by (auto simp: listening_def)
  have "at_priority (events s) 0 = {}" using active_pri [OF v] by simp
  then have "\<not> bit (ev_flags e) 3" using e(1,3) in_priority [of "events s" a e 0] by simp
  then show ?thesis using e by (simp add: sleeping_def)
qed

text \<open>A round of descriptors, with what the uninitialised time happens to hold.\<close>

abbreviation ready_rounds :: "((int \<times> int) \<times> (nat \<times> 32 word) list) list \<Rightarrow> ((int \<times> int) \<times> waited) list" where
  "ready_rounds rounds \<equiv> map (apsnd Ready) rounds"

definition round_ok :: "event store \<Rightarrow> (ptr \<times> ptr) list \<Rightarrow> nat \<Rightarrow> (nat \<times> 32 word) list \<Rightarrow> bool" where
  "round_ok evs fds fuel rs \<longleftrightarrow> good_slots fds rs \<and> distinct (map fst (woken fds rs)) \<and> length (woken fds rs) + 1 < fuel \<and>
     (\<forall>a \<in> fst ` set (woken fds rs). listening evs a)"

lemma drop_kept: "\<forall>a \<in> set as. kept evs a \<Longrightarrow> drop_unkept evs as xs = xs"
  by (induction as) (simp_all add: drop_unkept_def)

lemma rounds_ok:
  assumes "logging sys run log"
  shows "base_view s ins [[]] tmo \<Longrightarrow> \<not> evsignal_caught s \<Longrightarrow>
    \<forall>(tv, rs) \<in> set rounds. epoll_timeout (Some tv) \<noteq> None \<and> round_ok (events s) (epfds s) fuel rs \<Longrightarrow>
    \<exists>s'. event_rounds sys run fuel (ready_rounds rounds) s = Ret s' \<and> base_view s' ins [[]] tmo \<and>
      log (kernel s') = log (kernel s) @ concat (map (\<lambda>(tv, rs). map (call_for (events s)) (woken (epfds s) rs)) rounds)"
proof (induction rounds arbitrary: s)
  case Nil
  then show ?case by simp
next
  case (Cons r0 rounds)
  obtain tv rs where r0: "r0 = (tv, rs)" by (cases r0)
  obtain t where t: "epoll_timeout (Some tv) = Some t" using Cons.prems(3) r0 by auto
  have r: "good_slots (epfds s) rs" "distinct (map fst (woken (epfds s) rs))" "length (woken (epfds s) rs) + 1 < fuel"
    "\<forall>a \<in> fst ` set (woken (epfds s) rs). listening (events s) a"
    using Cons.prems(3) r0 by (simp_all add: round_ok_def)
  have sl: "\<forall>a \<in> fst ` set (woken (epfds s) rs). \<exists>e. events s a = Some e \<and> sleeping e"
    using r(4) idle_sleeping [OF Cons.prems(1)] by blast
  have k: "\<forall>a \<in> set (map fst (woken (epfds s) rs)). kept (events s) a"
    using r(4) by (auto simp: listening_def kept_def)
  then have d: "drop_unkept (events s) (map fst (woken (epfds s) rs)) xs = xs" for xs by (rule drop_kept)
  obtain s1 where s1: "event_loop_step sys run fuel (Ready rs) s = Ret s1" "base_view s1 ins [[]] tmo"
    "same_statics (events s) (events s1)" "\<not> evsignal_caught s1" "epfds s1 = epfds s"
    "log (kernel s1) = log (kernel s) @ map (call_for (events s)) (woken (epfds s) rs)"
    using loop_round_ok [OF assms Cons.prems(1,2) r(1-3) sl] k unfolding d by blast
  have "\<forall>(tv, rs) \<in> set rounds. epoll_timeout (Some tv) \<noteq> None \<and> round_ok (events s1) (epfds s1) fuel rs"
    using Cons.prems(3) listening_same [OF s1(3)] s1(5) by (fastforce simp: round_ok_def)
  from Cons.IH [OF s1(2,4) this] obtain s' where "event_rounds sys run fuel (ready_rounds rounds) s1 = Ret s'"
    "base_view s' ins [[]] tmo"
    "log (kernel s') = log (kernel s1) @ concat (map (\<lambda>(tv, rs). map (call_for (events s1)) (woken (epfds s1) rs)) rounds)" by blast
  then show ?case using s1 r0 t by (simp add: call_for_same [OF s1(3)] cong: map_cong)
qed

text \<open>
  C18. The event loop serves listening descriptors for ever: as long as the descriptors that
  epoll_wait reports belong to persistent events, every round calls exactly the woken events and
  no event leaves the loop, for any number of rounds.  The conditions: no signal has been caught;
  the callbacks act on the outside world only (\<open>logging\<close>), which holds of callbacks like sig_cb
  and timer_cb of \<open>main.c\<close> but not of its new_client, for which see \<open>main_serves\<close> of \<open>Ev_Server\<close>;
  no event is woken twice in a round; the fuel is more than the events of a round; and the
  uninitialised time that each round passes to the dispatch happens to hold a number of seconds
  and microseconds whose milliseconds do not overflow a \<open>long\<close> - elsewhere the round is undefined.
\<close>

theorem listeners_served:
  assumes "logging sys run log" "base_view s ins [[]] tmo" "\<not> evsignal_caught s"
    "\<forall>(tv, rs) \<in> set rounds. epoll_timeout (Some tv) \<noteq> None \<and> round_ok (events s) (epfds s) fuel rs"
  shows "\<exists>s'. event_base_loop sys run fuel (ready_rounds rounds) s = Ret s' \<and> base_view s' ins [[]] tmo \<and>
    log (kernel s') = log (kernel s) @ concat (map (\<lambda>(tv, rs). map (call_for (events s)) (woken (epfds s) rs)) rounds)"
proof (cases "ev_signal_added s")
  case True
  have "base_view (s\<lparr>evsignal_base := True\<rparr>) ins [[]] tmo" using assms(2) by (simp add: base_view_def)
  then show ?thesis using rounds_ok [OF assms(1), of "s\<lparr>evsignal_base := True\<rparr>" ins tmo rounds fuel] assms(3,4) True
    by (auto simp: event_base_loop_def)
next
  case False
  then show ?thesis using rounds_ok [OF assms(1-4)] by (simp add: event_base_loop_def)
qed

theorem listeners_served_witness:
  "\<exists>s. event_base_loop demo_sys demo_run 4
      (ready_rounds [((0, 0), [(0, EPOLLIN)]), ((7 :: int, -1 :: int), []), ((- (2 ^ 53), 5), [(0, EPOLLIN)])]) demo_waiting = Ret s \<and>
    kernel s = [(7, 0, EV_READ, Null), (7, 0, EV_READ, Null)]"
proof -
  have w: "woken (epfds demo_waiting) [(0, EPOLLIN)] = [(1, EV_READ)]" "woken (epfds demo_waiting) [] = []"
    by (simp_all add: woken_def woken_at_def demo_waiting_def EPOLLHUP_def EPOLLERR_def EPOLLIN_def EPOLLOUT_def Let_def)
  have l: "listening (events demo_waiting) 1"
    by (simp add: listening_def demo_waiting_def demo_base_def demo_event_def EV_READ_def EV_PERSIST_def)
  have "round_ok (events demo_waiting) (epfds demo_waiting) 4 [(0, EPOLLIN)]" "round_ok (events demo_waiting) (epfds demo_waiting) 4 []"
    using w l by (simp_all add: round_ok_def good_slots_def) (simp_all add: demo_waiting_def)
  then have "\<exists>s'. event_base_loop demo_sys demo_run 4
      (ready_rounds [((0, 0), [(0, EPOLLIN)]), ((7 :: int, -1 :: int), []), ((- (2 ^ 53), 5), [(0, EPOLLIN)])]) demo_waiting = Ret s' \<and>
    base_view s' [] [[]] [] \<and> id (kernel s') = id (kernel demo_waiting) @
      concat (map (\<lambda>(tv, rs). map (call_for (events demo_waiting)) (woken (epfds demo_waiting) rs))
        [((0, 0), [(0, EPOLLIN)]), ((7 :: int, -1 :: int), []), ((- (2 ^ 53), 5), [(0, EPOLLIN)])])"
    by (intro listeners_served [OF demo_logging demo_waiting_view])
      (simp_all add: demo_waiting_def demo_base_def epoll_timeout_def c_long_def)
  moreover have "call_for (events demo_waiting) (1, EV_READ) = (7, 0, EV_READ, Null)" "kernel demo_waiting = []"
    by (simp_all add: call_for_def demo_waiting_def demo_base_def demo_event_def)
  ultimately show ?thesis by (auto simp: w)
qed

subsection \<open>Deleting what the kernel or a signal still refers to\<close>

text \<open>
  Deleting the reader of a descriptor that also has a writer.  epoll_del asks epoll_ctl to
  modify the interest but passes no event, which epoll_ctl refuses: the call fails, the kernel
  keeps the interest in reading, and the table has forgotten the reader, so a readable
  descriptor ends every later wait at once without waking any event.
\<close>

theorem stale_interest_kept:
  assumes refuses: "\<forall>fd k. sys_ctl sys Ctl_mod fd None k = (-1, k)"
    and "events s a = Some e" "wants e EV_READ" "\<not> wants e EV_WRITE" "\<not> wants e EV_SIGNAL"
    and "ev_fd e = int fd" "fd < length (epfds s)" "epfds s ! fd = (Ptr a, Ptr b)"
  shows "\<exists>s'. epoll_del sys s a = Ret (-1, s') \<and> kernel s' = kernel s \<and> epfds s' ! fd = (Null, Ptr b) \<and>
    woken (epfds s') [(fd, EPOLLIN)] = []"
proof -
  have "epoll_del sys s a = Ret (-1, s\<lparr>epfds := (epfds s)[fd := (Null, Ptr b)], kernel := kernel s\<rparr>)"
    using assms by (simp add: epoll_del_def)
  then show ?thesis using assms(7)
    by (simp add: woken_def woken_at_def EPOLLIN_def EPOLLOUT_def EPOLLHUP_def EPOLLERR_def Let_def)
qed

definition strict_sys :: "call list sys" where
  "strict_sys = \<lparr>sys_ctl = (\<lambda>op fd evs k. (if op = Ctl_mod \<and> evs = None then -1 else 0, k)), sys_sigaction = (\<lambda>_. True),
     sys_sh_array = (\<lambda>_. True), sys_sh_slot = (\<lambda>_. True)\<rparr>"

definition demo_pair :: "call list event_base" where
  "demo_pair = demo_base\<lparr>epfds := [(Ptr 1, Ptr 2)]\<rparr>"

theorem stale_interest_kept_witness:
  "\<exists>s. epoll_del strict_sys demo_pair 1 = Ret (-1, s) \<and> kernel s = [] \<and> epfds s ! 0 = (Null, Ptr 2) \<and>
    woken (epfds s) [(0, EPOLLIN)] = []"
  using stale_interest_kept [of strict_sys demo_pair 1 "demo_event 0 (EV_READ OR EV_PERSIST) 7" 0 2]
  by (simp add: strict_sys_def demo_pair_def demo_base_def demo_event_def EV_READ_def EV_WRITE_def EV_PERSIST_def EV_SIGNAL_def)

text \<open>
  Deleting a signal event that is in the loop is undefined: event_del returns the value of
  evsignal_del, which has an empty body.
\<close>

theorem signal_delete_undefined:
  assumes "base_view s ins acts tmo" "events s a = Some e" "ev_base e" "wants e EV_SIGNAL" "bit (ev_flags e) 1"
    "calls_live s e"
  shows "event_del sys s a = Fault"
proof -
  obtain f where f: "cancel_calls s e = Ret (s\<lparr>frames := f\<rparr>)" using cancel_ok [OF assms(6)] by blast
  have v1: "base_view (s\<lparr>frames := f\<rparr>) ins acts tmo" "events (s\<lparr>frames := f\<rparr>) a = Some e" using assms(1,2) by simp_all
  obtain s2 where s2: "remove_if_listed (s\<lparr>frames := f\<rparr>) a EVLIST_TIMEOUT = Ret s2" "base_view s2 ins acts (remove1 a tmo)"
    "events s2 a = Some (e\<lparr>ev_flags := ev_flags e AND NOT EVLIST_TIMEOUT\<rparr>)"
    using remove_if_timeout [OF v1] by auto
  obtain acts' s3 e3 where s3: "remove_if_listed s2 a EVLIST_ACTIVE = Ret s3" "base_view s3 ins acts' (remove1 a tmo)"
    "events s3 a = Some e3" "ev_events e3 = ev_events e" "bit (ev_flags e3) 1"
    using remove_if_active [OF s2(2,3)] assms(5) by auto
  obtain h l s4 where s4: "event_queue_remove s3 a EVLIST_INSERTED = Ret s4"
    "s4 = s3\<lparr>event_count := event_count s3 - 1, events := (events s3)(a \<mapsto> e3\<lparr>ev_flags := ev_flags e3 AND NOT EVLIST_INSERTED\<rparr>),
      inserted_queue := h, ins_links := l\<rparr>"
    using remove_inserted [OF s3(2,3,5)] by blast
  have "epoll_del sys s4 a = Fault" using s4(2) s3(4) assms(4) by (simp add: epoll_del_def evsignal_del_def)
  then show ?thesis using assms(2,3) f s2(1) s3(1,3,5) s4(1) by (simp add: event_del_def event_del_by_def)
qed

definition demo_signal :: event where
  "demo_signal = (demo_event 2 EV_SIGNAL 9)\<lparr>ev_flags := EVLIST_INIT OR EVLIST_INSERTED\<rparr>"

definition demo_signals :: "call list event_base" where
  "demo_signals = demo_base\<lparr>events := [1 \<mapsto> demo_signal], ins_links := [1 \<mapsto> \<lparr>tqe_next = Null, tqe_prev = Head\<rparr>],
     act_links := [1 \<mapsto> \<lparr>tqe_next = Null, tqe_prev = Junk_loc\<rparr>], tmo_links := [1 \<mapsto> \<lparr>tqe_next = Null, tqe_prev = Junk_loc\<rparr>],
     inserted_queue := \<lparr>tqh_first = Ptr 1, tqh_last = Next_of 1\<rparr>, event_count := 1\<rparr>"

theorem signal_delete_undefined_witness: "event_del demo_sys demo_signals 1 = Fault"
proof (rule signal_delete_undefined)
  show "base_view demo_signals [1] [[]] []"
    by (auto simp: base_view_def list_view_def active_view_def active_total_def demo_signals_def demo_signal_def demo_base_def
        demo_event_def flagged_def at_priority_def tq_holds_def tailq_init_def bit_or_iff split: if_splits)
  show "events demo_signals 1 = Some demo_signal" by (simp add: demo_signals_def)
qed (simp_all add: demo_signal_def demo_event_def calls_live_def EV_SIGNAL_def bit_or_iff)

subsection \<open>Tail queues and buffers\<close>

text \<open>
  C33. The queue macros implement lists: any sequence of TAILQ_INSERT_TAIL and TAILQ_REMOVE that
  is legal on a list (no element inserted twice, only members removed) runs without touching
  memory outside the queue, and the queue then holds the list that the same sequence makes.
\<close>

theorem tail_queue_is_list:
  assumes "tq_holds q es" "list_run es ops = Some es'" "\<forall>e. Enq e \<in> set ops \<longrightarrow> e \<in> dom (snd q)"
  shows "\<exists>q'. queue_run tailq_insert_tail tailq_remove q ops = Some q' \<and> tq_holds q' es'"
  using tqq.run_ok [OF assms] .

theorem tail_queue_is_list_witness:
  "\<exists>q. queue_run tailq_insert_tail tailq_remove (tailq_init, ins_links demo_base) [Enq 2, Enq 1, Deq 2] = Some q \<and> tq_holds q [1]"
  by (rule tail_queue_is_list [OF init_holds]) (auto simp: demo_base_def)

text \<open>
  C32. An evbuffer is a queue of bytes: any sequence of evbuffer_add and evbuffer_drain, with any
  junk in the reallocated blocks, runs to its end without an access outside the block and without
  a failed append, and the bytes drained, followed by the bytes left, are the bytes that were in
  the buffer followed by the bytes appended.  The conditions: realloc succeeds, and the bytes in
  front of the contents, the contents and all that is appended are at most 2 ^ 63.
\<close>

theorem evbuffer_fifo:
  assumes "evbuf_ok b" "totallen b < 2 ^ 64" "\<forall>n. ra n" "misalign b + ev_off b + length (appended ops) \<le> 2 ^ 63"
  shows "\<exists>out b'. fifo_run ev_contents (ev_append junk ra) evbuffer_drain b ops = Some (out, b') \<and> evbuf_ok b' \<and>
    out @ ev_contents b' = ev_contents b @ appended ops"
  using ev_run_total [OF assms(3,1,2,4), of junk] evq.first_in_first_out [OF assms(1)] by blast

text \<open>
  evbuffer_add succeeds whenever realloc does and the data ends below 2^63, however the
  valid bytes are placed in the block.
\<close>

theorem evbuffer_add_succeeds:
  assumes "evbuf_ok b" "misalign b + ev_off b + length bs \<le> 2 ^ 63" "\<forall>n. ra n"
  shows "\<exists>b'. evbuffer_add junk ra b bs = Some (0, b') \<and> (totallen b < 2 ^ 64 \<longrightarrow> evbuf_ok b' \<and> ev_contents b' = ev_contents b @ bs)"
proof -
  obtain b' where b': "evbuffer_add junk ra b bs = Some (0, b')" using add_total [OF assms] by blast
  then show ?thesis using add_ok [OF assms(1) _ _ b'] assms(2) by auto
qed

theorem evbuffer_add_succeeds_witness:
  "\<exists>b. evbuffer_add 0 (\<lambda>_. True) evbuffer_new [1, 2, 3 :: 8 word] = Some (0, b) \<and> ev_contents b = [1, 2, 3]"
  using evbuffer_add_succeeds [OF new_evbuf_ok(1), of "[1, 2, 3]" "\<lambda>_. True" 0]
  by (auto simp: evbuffer_new_def new_evbuf_ok [unfolded evbuffer_new_def])

theorem evbuffer_fifo_witness:
  "\<exists>b out. fifo_run ev_contents (ev_append 0 (\<lambda>_. True)) evbuffer_drain evbuffer_new
      [Append (replicate 255 1), Drain 2, Append [2, 3, 4]] = Some (out, b) \<and>
    out @ ev_contents b = replicate 255 1 @ [2, 3, 4 :: 8 word]"
proof -
  have "misalign (evbuffer_new :: 8 word evbuffer) + ev_off (evbuffer_new :: 8 word evbuffer) +
      length (appended [Append (replicate 255 1), Drain 2, Append [2, 3, 4 :: 8 word]]) \<le> 2 ^ 63"
    by (simp add: evbuffer_new_def)
  from evbuffer_fifo [OF new_evbuf_ok(1) _ _ this, of "\<lambda>_. True" 0] show ?thesis
    by (simp add: new_evbuf_ok) (auto simp: evbuffer_new_def)
qed

text \<open>
  evbuffer_expand does not end when more than 2^63 bytes are needed: the doubled length
  overflows to 0 and stays there.
\<close>

lemma double_until_none: "k \<le> 63 \<Longrightarrow> 2 ^ 63 < need \<Longrightarrow> double_until (2 ^ k) need = None"
proof (induction "63 - k" arbitrary: k)
  case 0
  then have k: "k = 63" by simp
  have "double_until (2 ^ 63) need = double_until 0 need"
    using 0 by (subst double_until.simps) (simp add: u64_def)
  then show ?case using k double_until_diverges 0 by simp
next
  case (Suc n)
  have "(2::nat) ^ k < 2 ^ 63" using Suc by (intro power_strict_increasing) simp_all
  then have "double_until (2 ^ k) need = double_until (u64 (2 * 2 ^ k)) need"
    using Suc.prems by (subst double_until.simps) simp
  also have "u64 (2 * 2 ^ k) = 2 ^ (k + 1)"
  proof -
    have "(2::nat) ^ (k + 1) < 2 ^ 64" using Suc by (intro power_strict_increasing) simp_all
    then show ?thesis by simp
  qed
  also have "double_until (2 ^ (k + 1)) need = None" using Suc by (intro Suc.hyps(1)) simp_all
  finally show ?case .
qed

theorem expand_never_returns:
  assumes "2 ^ 63 < n" "n < 2 ^ 64"
  shows "evbuffer_expand junk ra evbuffer_new n = None"
  using assms double_until_none [of 8 n] by (simp add: evbuffer_expand_def evbuffer_new_def Let_def)

theorem expand_never_returns_witness: "evbuffer_expand (0 :: 8 word) (\<lambda>_. True) evbuffer_new (2 ^ 63 + 1) = None"
  by (rule expand_never_returns) simp_all

end
