(* ===== verification/Ev_Bufev.thy ===== *)
theory Ev_Bufev
  imports Ev_Runs Ev_Buffer
begin

section \<open>my\_event: buffered events\<close>

text \<open>
  \<open>cs/my_event/evbuffer.c\<close>.  The event base is extended by a store of \<open>bufferevent\<close>s; the
  two events of a \<open>bufferevent\<close> are named by their addresses.  The calls \<open>ioctl\<close>, \<open>recv\<close>,
  \<open>send\<close>, \<open>realloc\<close> and \<open>errno\<close> are functions of the state of the kernel, and
  \<open>net_next\<close> is the kernel after a call of \<open>recv\<close> or \<open>send\<close>.  A user's callback gets the
  \<open>bufferevent\<close>, what happened (\<open>None\<close> for \<open>readcb\<close> and \<open>writecb\<close>) and its argument.
  \<open>evbuffer_setcb\<close> has an empty body, so its calls are left out.
\<close>

datatype errno = EAGAIN | EINTR | EINPROGRESS | Other_errno

record 'k net =
  net_avail :: "int \<Rightarrow> 'k \<Rightarrow> int option"
  net_recv :: "int \<Rightarrow> 'k \<Rightarrow> int \<Rightarrow> byte list option"
  net_send :: "int \<Rightarrow> 'k \<Rightarrow> byte list \<Rightarrow> int"
  net_errno :: "'k \<Rightarrow> errno"
  net_next :: "'k \<Rightarrow> 'k"
  net_realloc :: "'k \<Rightarrow> nat \<Rightarrow> bool"

definition EVBUFFER_READ :: "16 word" where "EVBUFFER_READ = 0x01"
definition EVBUFFER_WRITE :: "16 word" where "EVBUFFER_WRITE = 0x02"
definition EVBUFFER_EOF :: "16 word" where "EVBUFFER_EOF = 0x10"
definition EVBUFFER_ERROR :: "16 word" where "EVBUFFER_ERROR = 0x20"
definition EVBUFFER_TIMEOUT :: "16 word" where "EVBUFFER_TIMEOUT = 0x40"

record watermark =
  wm_low :: nat
  wm_high :: nat

record bufev =
  be_read :: nat
  be_write :: nat
  be_input :: "byte evbuffer"
  be_output :: "byte evbuffer"
  wm_read :: watermark
  wm_write :: watermark
  be_readcb :: "nat option"
  be_writecb :: "nat option"
  be_errorcb :: "nat option"
  be_cbarg :: ptr
  timeout_read :: int
  timeout_write :: int
  enabled :: "16 word"

record 'k bev_base = "'k event_base" +
  bufevs :: "bufev store"

type_synonym 'k bev_cbs = "nat \<Rightarrow> nat \<Rightarrow> 16 word option \<Rightarrow> ptr \<Rightarrow> 'k bev_base \<Rightarrow> 'k bev_base lres"

definition put_bufev :: "'k bev_base \<Rightarrow> nat \<Rightarrow> bufev \<Rightarrow> 'k bev_base" where
  "put_bufev s b v = s\<lparr>bufevs := (bufevs s)(b \<mapsto> v)\<rparr>"

subsection \<open>Scheduling an event and calling the user\<close>

definition bufferevent_add :: "'k sys \<Rightarrow> 'k bev_base \<Rightarrow> nat \<Rightarrow> int \<Rightarrow> (int \<times> 'k bev_base) lres" where
  "bufferevent_add sys s a tmo = event_add sys s a (tmo \<noteq> 0)"

definition no_result :: "(int \<times> 'k bev_base) lres \<Rightarrow> 'k bev_base lres" where
  "no_result m = lbind m (\<lambda>(_, s). Ret s)"

definition call_opt :: "'k bev_cbs \<Rightarrow> nat option \<Rightarrow> nat \<Rightarrow> 16 word option \<Rightarrow> ptr \<Rightarrow> 'k bev_base \<Rightarrow> 'k bev_base lres" where
  "call_opt usr cb b what arg s = (case cb of None \<Rightarrow> Ret s | Some f \<Rightarrow> usr f b what arg s)"

subsection \<open>The two callbacks of the event loop\<close>

text \<open>\<open>howmuch\<close>, a \<open>size_t\<close> difference assigned to an \<open>int\<close>; -1 without a high watermark.\<close>

definition read_room :: "bufev \<Rightarrow> int" where
  "read_room v = (if wm_high (wm_read v) \<noteq> 0
     then sint (word_of_int (int (wm_high (wm_read v)) - int (ev_off (be_input v))) :: 32 word) else -1)"

definition bufferevent_readcb ::
  "'k sys \<Rightarrow> 'k net \<Rightarrow> 'k bev_cbs \<Rightarrow> int \<Rightarrow> 16 word \<Rightarrow> nat \<Rightarrow> 'k bev_base \<Rightarrow> 'k bev_base lres" where
  "bufferevent_readcb sys net usr fd ev b s = fetch (bufevs s b) (\<lambda>v.
     if ev = EV_TIMEOUT then call_opt usr (be_errorcb v) b (Some (EVBUFFER_READ OR EVBUFFER_TIMEOUT)) (be_cbarg v) s
     else if wm_high (wm_read v) \<noteq> 0 \<and> read_room v \<le> 0 then no_result (event_del sys s (be_read v))
     else let k = kernel s in
       fetch (evbuffer_read 0 (net_realloc net k) (net_avail net fd k) (net_recv net fd k) (be_input v) (read_room v)) (\<lambda>(res, buf).
       let v1 = v\<lparr>be_input := buf\<rparr>; s1 = put_bufev (s\<lparr>kernel := net_next net k\<rparr>) b v1 in
       if res = -1 \<and> net_errno net (net_next net k) \<in> {EAGAIN, EINTR} then no_result (bufferevent_add sys s1 (be_read v) (timeout_read v))
       else if res \<le> 0 then
         call_opt usr (be_errorcb v) b
           (Some (EVBUFFER_READ OR (if res = -1 then EVBUFFER_ERROR else if res = 0 then EVBUFFER_EOF else 0))) (be_cbarg v) s1
       else lbind (no_result (bufferevent_add sys s1 (be_read v) (timeout_read v))) (\<lambda>s2.
         let len = ev_off buf in
         if wm_low (wm_read v) \<noteq> 0 \<and> len < wm_low (wm_read v) then Ret s2
         else lbind (if wm_high (wm_read v) \<noteq> 0 \<and> len \<ge> wm_high (wm_write v)
                     then no_result (event_del sys s2 (be_read v)) else Ret s2)
           (call_opt usr (be_readcb v) b None (be_cbarg v)))))"

definition add_if_pending :: "'k sys \<Rightarrow> 'k bev_base \<Rightarrow> bufev \<Rightarrow> 'k bev_base lres" where
  "add_if_pending sys s v = (if ev_off (be_output v) \<noteq> 0
     then no_result (bufferevent_add sys s (be_write v) (timeout_write v)) else Ret s)"

definition bufferevent_writecb ::
  "'k sys \<Rightarrow> 'k net \<Rightarrow> 'k bev_cbs \<Rightarrow> int \<Rightarrow> 16 word \<Rightarrow> nat \<Rightarrow> 'k bev_base \<Rightarrow> 'k bev_base lres" where
  "bufferevent_writecb sys net usr fd ev b s = fetch (bufevs s b) (\<lambda>v.
     let error = (\<lambda>what s. fetch (be_errorcb v) (\<lambda>f. usr f b (Some what) (be_cbarg v) s)) in
     if ev = EV_TIMEOUT then error (EVBUFFER_WRITE OR EVBUFFER_TIMEOUT) s
     else if ev_off (be_output v) \<noteq> 0 then
       (let k = kernel s; (res, buf) = evbuffer_write (net_send net fd k) (be_output v);
            v1 = v\<lparr>be_output := buf\<rparr>; s1 = put_bufev (s\<lparr>kernel := net_next net k\<rparr>) b v1 in
        if res = -1 \<and> net_errno net (net_next net k) \<in> {EAGAIN, EINTR, EINPROGRESS} then add_if_pending sys s1 v1
        else if res \<le> 0 then error (EVBUFFER_WRITE OR (if res = 0 then EVBUFFER_EOF else 0)) s1
        else lbind (add_if_pending sys s1 v1) (call_opt usr (be_writecb v) b None (be_cbarg v)))
     else lbind (add_if_pending sys s v) (call_opt usr (be_writecb v) b None (be_cbarg v)))"

subsection \<open>The interface\<close>

definition zero_event :: event where
  "zero_event = \<lparr>ev_fd = 0, ev_events = 0, ev_callback = 0, ev_arg = Null, ev_res = 0, ev_base = False, ev_flags = 0,
     ev_ncalls = 0, ev_pncalls = Null, ev_pri = 0\<rparr>"

definition zero_entry :: entry where
  "zero_entry = \<lparr>tqe_next = Null, tqe_prev = Junk_loc\<rparr>"

definition alloc_event :: "nat \<Rightarrow> 'k bev_base \<Rightarrow> 'k bev_base" where
  "alloc_event a s = s\<lparr>events := (events s)(a \<mapsto> zero_event), ins_links := (ins_links s)(a \<mapsto> zero_entry),
     act_links := (act_links s)(a \<mapsto> zero_entry), tmo_links := (tmo_links s)(a \<mapsto> zero_entry),
     sig_links := (sig_links s)(a \<mapsto> zero_entry)\<rparr>"

definition free_event :: "nat \<Rightarrow> 'k bev_base \<Rightarrow> 'k bev_base" where
  "free_event a s = s\<lparr>events := (events s)(a := None), ins_links := (ins_links s)(a := None),
     act_links := (act_links s)(a := None), tmo_links := (tmo_links s)(a := None), sig_links := (sig_links s)(a := None)\<rparr>"

definition bufferevent_setcb :: "nat option \<Rightarrow> nat option \<Rightarrow> nat option \<Rightarrow> ptr \<Rightarrow> bufev \<Rightarrow> bufev" where
  "bufferevent_setcb rd wr er arg v = v\<lparr>be_readcb := rd, be_writecb := wr, be_errorcb := er, be_cbarg := arg\<rparr>"

text \<open>
  \<open>mem\<close> is the result of \<open>calloc\<close>: the addresses of the \<open>bufferevent\<close> and of its two events,
  which must be free; \<open>in_ok\<close> and \<open>out_ok\<close> say that the buffers could be allocated.  The
  callbacks of the events are the numbers 0 and 1.
\<close>

definition bufferevent_new ::
  "(nat \<times> nat \<times> nat) option \<Rightarrow> bool \<Rightarrow> bool \<Rightarrow> int \<Rightarrow> nat option \<Rightarrow> nat option \<Rightarrow> nat option \<Rightarrow> ptr \<Rightarrow>
   'k bev_base \<Rightarrow> (ptr \<times> 'k bev_base) lres" where
  "bufferevent_new mem in_ok out_ok fd rd wr er arg s = (case mem of
     None \<Rightarrow> Ret (Null, s)
   | Some (b, r, w) \<Rightarrow>
       if bufevs s b \<noteq> None \<or> events s r \<noteq> None \<or> events s w \<noteq> None \<or> r = w then Fault
       else if \<not> in_ok \<or> \<not> out_ok then Ret (Null, s)
       else let s1 = alloc_event w (alloc_event r s) in
         lbind (event_set s1 r fd EV_READ 0 (Ptr b)) (\<lambda>s2.
         lbind (event_set s2 w fd EV_WRITE 1 (Ptr b)) (\<lambda>s3.
         Ret (Ptr b, put_bufev s3 b (bufferevent_setcb rd wr er arg
           \<lparr>be_read = r, be_write = w, be_input = evbuffer_new, be_output = evbuffer_new,
            wm_read = \<lparr>wm_low = 0, wm_high = 0\<rparr>, wm_write = \<lparr>wm_low = 0, wm_high = 0\<rparr>, be_readcb = None, be_writecb = None,
            be_errorcb = None, be_cbarg = Null, timeout_read = 0, timeout_write = 0, enabled = EV_WRITE\<rparr>)))))"

definition bufferevent_free :: "'k sys \<Rightarrow> nat \<Rightarrow> 'k bev_base \<Rightarrow> 'k bev_base lres" where
  "bufferevent_free sys b s = fetch (bufevs s b) (\<lambda>v.
     lbind (no_result (event_del sys s (be_read v))) (\<lambda>s1.
     lbind (no_result (event_del sys s1 (be_write v))) (\<lambda>s2.
     Ret (free_event (be_write v) (free_event (be_read v) (s2\<lparr>bufevs := (bufevs s2)(b := None)\<rparr>))))))"

definition bufferevent_enable :: "'k sys \<Rightarrow> nat \<Rightarrow> 16 word \<Rightarrow> 'k bev_base \<Rightarrow> (int \<times> 'k bev_base) lres" where
  "bufferevent_enable sys b ev s = fetch (bufevs s b) (\<lambda>v.
     lbind (if ev AND EV_READ \<noteq> 0 then bufferevent_add sys s (be_read v) (timeout_read v) else Ret (0, s)) (\<lambda>(r :: int, s1).
     if r = -1 then Ret (-1, s1)
     else lbind (if ev AND EV_WRITE \<noteq> 0 then bufferevent_add sys s1 (be_write v) (timeout_read v) else Ret (0, s1)) (\<lambda>(r2 :: int, s2).
     if r2 = -1 then Ret (-1, s2)
     else Ret (0, put_bufev s2 b (v\<lparr>enabled := enabled v OR ev\<rparr>)))))"

definition bufferevent_read_pressure_cb :: "'k sys \<Rightarrow> nat \<Rightarrow> nat \<Rightarrow> 'k bev_base \<Rightarrow> 'k bev_base lres" where
  "bufferevent_read_pressure_cb sys now b s = fetch (bufevs s b) (\<lambda>v.
     if (wm_high (wm_read v) = 0 \<or> now < wm_high (wm_read v)) \<and> enabled v AND EV_READ \<noteq> 0
     then no_result (bufferevent_add sys s (be_read v) (timeout_read v)) else Ret s)"

definition bufferevent_setwatermark ::
  "'k sys \<Rightarrow> nat \<Rightarrow> 16 word \<Rightarrow> nat \<Rightarrow> nat \<Rightarrow> 'k bev_base \<Rightarrow> 'k bev_base lres" where
  "bufferevent_setwatermark sys b ev lowmark highmark s = fetch (bufevs s b) (\<lambda>v.
     let v1 = (if ev AND EV_READ \<noteq> 0 then v\<lparr>wm_read := \<lparr>wm_low = lowmark, wm_high = highmark\<rparr>\<rparr> else v);
         v2 = (if ev AND EV_WRITE \<noteq> 0 then v1\<lparr>wm_write := \<lparr>wm_low = lowmark, wm_high = highmark\<rparr>\<rparr> else v1) in
     bufferevent_read_pressure_cb sys (ev_off (be_input v2)) b (put_bufev s b v2))"

definition bufferevent_write :: "'k sys \<Rightarrow> 'k net \<Rightarrow> nat \<Rightarrow> byte list \<Rightarrow> 'k bev_base \<Rightarrow> (int \<times> 'k bev_base) lres" where
  "bufferevent_write sys net b data s = fetch (bufevs s b) (\<lambda>v.
     fetch (evbuffer_add 0 (net_realloc net (kernel s)) (be_output v) data) (\<lambda>(res, buf).
     let s1 = put_bufev s b (v\<lparr>be_output := buf\<rparr>) in
     if res = -1 then Ret (res, s1)
     else if data \<noteq> [] \<and> enabled v AND EV_WRITE \<noteq> 0
     then lbind (no_result (bufferevent_add sys s1 (be_write v) (timeout_write v))) (\<lambda>s2. Ret (res, s2))
     else Ret (res, s1)))"

text \<open>The bytes that \<open>bufferevent_read\<close> copies for a block of the given size.\<close>

definition bufferevent_read :: "nat \<Rightarrow> nat \<Rightarrow> 'k bev_base \<Rightarrow> (byte list \<times> 'k bev_base) lres" where
  "bufferevent_read b n s = fetch (bufevs s b) (\<lambda>v. Ret (take n (ev_contents (be_input v)), s))"

text \<open>The callbacks as the event loop sees them.\<close>

definition bufev_run :: "'k sys \<Rightarrow> 'k net \<Rightarrow> 'k bev_cbs \<Rightarrow> ('k, \<lparr>bufevs :: bufev store\<rparr>) callbacks" where
  "bufev_run sys net usr cb fd res arg s = (case arg of
     Ptr b \<Rightarrow> if cb = 0 then bufferevent_readcb sys net usr fd res b s
              else if cb = 1 then bufferevent_writecb sys net usr fd res b s else Fault
   | _ \<Rightarrow> Fault)"

subsection \<open>The event operations do not touch the buffers\<close>

lemma more_bind [leaves]:
  "leaves event_base.more y m \<Longrightarrow> (\<And>x. event_base.more x = y \<Longrightarrow> leaves g y (f x)) \<Longrightarrow> leaves g y (lbind m f)"
  by (rule leaves_bind)

lemma more_bind_pair [leaves]:
  "leaves (event_base.more \<circ> snd) y m \<Longrightarrow> (\<And>r x. event_base.more x = y \<Longrightarrow> leaves g y (f (r, x))) \<Longrightarrow> leaves g y (lbind m f)"
  by (rule leaves_bind) auto

named_theorems more_kept

lemma insert_more [more_kept]: "event_base.more s = y \<Longrightarrow> leaves event_base.more y (event_queue_insert s a q)"
  unfolding event_queue_insert_def Let_def put_event_def by (intro leaves) simp_all

lemma remove_more [more_kept]: "event_base.more s = y \<Longrightarrow> leaves event_base.more y (event_queue_remove s a q)"
  unfolding event_queue_remove_def Let_def put_event_def by (intro leaves) simp_all

lemma remove_if_more [more_kept]: "event_base.more s = y \<Longrightarrow> leaves event_base.more y (remove_if_listed s a q)"
  unfolding remove_if_listed_def by (intro leaves more_kept) simp_all

lemma cancel_more [more_kept]: "event_base.more s = y \<Longrightarrow> leaves event_base.more y (cancel_calls s e)"
  unfolding cancel_calls_def by (intro leaves) simp_all

lemma add_by_more:
  assumes "\<And>s y. event_base.more s = y \<Longrightarrow> leaves (event_base.more \<circ> snd) y (add s a)"
  shows "event_base.more s = y \<Longrightarrow> leaves (event_base.more \<circ> snd) y (event_add_by add s a tv)"
  unfolding event_add_by_def by (intro leaves more_kept assms) simp_all

lemma del_by_more:
  assumes "\<And>s y. event_base.more s = y \<Longrightarrow> leaves (event_base.more \<circ> snd) y (del s a)"
  shows "event_base.more s = y \<Longrightarrow> leaves (event_base.more \<circ> snd) y (event_del_by del s a)"
  unfolding event_del_by_def by (intro leaves more_kept assms) simp_all

lemma add_fd_more [more_kept]: "event_base.more s = y \<Longrightarrow> leaves (event_base.more \<circ> snd) y (epoll_add_fd sys s a)"
  unfolding epoll_add_fd_def Let_def by (intro leaves) simp_all

lemma add_internal_more [more_kept]: "event_base.more s = y \<Longrightarrow> leaves (event_base.more \<circ> snd) y (add_internal sys s a)"
  unfolding add_internal_def by (intro leaves more_kept) simp_all

lemma set_handler_more: "evsignal_set_handler sys s n = (r, s1) \<Longrightarrow> event_base.more s1 = event_base.more s"
  by (auto simp: evsignal_set_handler_def Let_def split: if_splits)

lemma signal_add_more [more_kept]: "event_base.more s = y \<Longrightarrow> leaves (event_base.more \<circ> snd) y (evsignal_add sys s a)"
  unfolding evsignal_add_def Let_def
  by (intro leaves add_by_more more_kept) (auto dest: set_handler_more)

lemma epoll_add_more [more_kept]: "event_base.more s = y \<Longrightarrow> leaves (event_base.more \<circ> snd) y (epoll_add sys s a)"
  unfolding epoll_add_def by (intro leaves more_kept)

lemma epoll_del_more [more_kept]: "event_base.more s = y \<Longrightarrow> leaves (event_base.more \<circ> snd) y (epoll_del sys s a)"
  unfolding epoll_del_def Let_def evsignal_del_def by (intro leaves) simp_all

lemma event_add_more [more_kept]: "event_base.more s = y \<Longrightarrow> leaves (event_base.more \<circ> snd) y (event_add sys s a tv)"
  unfolding event_add_def by (intro add_by_more more_kept)

lemma event_del_more [more_kept]: "event_base.more s = y \<Longrightarrow> leaves (event_base.more \<circ> snd) y (event_del sys s a)"
  unfolding event_del_def by (intro del_by_more more_kept)

lemma same_bufevs:
  assumes "event_base.more s' = event_base.more s"
  shows "bufevs s' = bufevs (s :: 'k bev_base)"
  using assms by (metis bev_base.surjective bev_base.select_convs(1) event_base.select_convs(24))

subsection \<open>Scheduling keeps the base and the buffers\<close>

text \<open>An event of a descriptor that the operations accept.\<close>

definition schedulable :: "('k, 'z) event_base_scheme \<Rightarrow> nat \<Rightarrow> bool" where
  "schedulable s a \<longleftrightarrow> (\<exists>e. events s a = Some e \<and> ev_base e \<and> \<not> wants e EV_SIGNAL \<and> 0 \<le> ev_fd e \<and> calls_live s e)"

text \<open>... and that is put on the inserted queue: it waits for its descriptor and does not yet.\<close>

definition off_queue :: "('k, 'z) event_base_scheme \<Rightarrow> nat \<Rightarrow> bool" where
  "off_queue s a \<longleftrightarrow> (\<exists>e. events s a = Some e \<and> wants e (EV_READ OR EV_WRITE OR EV_SIGNAL) \<and>
     \<not> bit (ev_flags e) 1 \<and> \<not> bit (ev_flags e) 3 \<and> ev_fd e < int (length (epfds s)))"

lemma schedule_ok:
  fixes s :: "'k bev_base"
  assumes "base_view s ins acts tmo" "schedulable s a"
  shows "\<exists>s' ins' acts' tmo'. no_result (bufferevent_add sys s a t) = Ret s' \<and> base_view s' ins' acts' tmo' \<and>
    bufevs s' = bufevs s \<and> schedulable s' a \<and> (off_queue s a \<longrightarrow> a \<in> set ins')"
proof -
  obtain e where e: "events s a = Some e" "ev_base e" "\<not> wants e EV_SIGNAL" "0 \<le> ev_fd e" "calls_live s e"
    using assms(2) by (auto simp: schedulable_def)
  define fresh where "fresh \<longleftrightarrow> wants e (EV_READ OR EV_WRITE OR EV_SIGNAL) \<and> \<not> bit (ev_flags e) 1 \<and> \<not> bit (ev_flags e) 3"
  obtain r s' acts' w where s': "event_add sys s a (t \<noteq> 0) = Ret (r, s')" "r = -1 \<longleftrightarrow> fresh \<and> ev_fd e \<ge> int (length (epfds s))"
    "base_view s' (if fresh \<and> r \<noteq> -1 then ins @ [a] else ins) acts' (if t \<noteq> 0 \<and> r \<noteq> -1 then remove1 a tmo @ [a] else tmo)"
    "events s' a = Some (e\<lparr>ev_flags := w\<rparr>)" "dom (frames s') = dom (frames s)"
    using event_add_ok [OF assms(1) e, of sys "t \<noteq> 0"] unfolding fresh_def by blast
  have "event_base.more s' = event_base.more s"
    using leavesD [OF event_add_more [OF refl] s'(1)] by simp
  then have "bufevs s' = bufevs s" by (rule same_bufevs)
  moreover have "schedulable s' a" using e s'(4,5) calls_live_same [of s' s "e\<lparr>ev_flags := w\<rparr>" e] by (simp add: schedulable_def)
  moreover have "a \<in> set (if fresh \<and> r \<noteq> -1 then ins @ [a] else ins)" if "off_queue s a"
    using that e(1) s'(2) by (auto simp: off_queue_def fresh_def)
  ultimately show ?thesis using s'(1,3) by (auto simp: no_result_def bufferevent_add_def)
qed

lemma unschedule_ok:
  fixes s :: "'k bev_base"
  assumes "base_view s ins acts tmo" "schedulable s a"
  shows "\<exists>s' acts'. no_result (event_del sys s a) = Ret s' \<and> base_view s' (remove1 a ins) acts' (remove1 a tmo) \<and>
    bufevs s' = bufevs s \<and> a \<notin> set (remove1 a ins) \<and> a \<notin> set (remove1 a tmo)"
proof -
  obtain e where e: "events s a = Some e" "ev_base e" "\<not> wants e EV_SIGNAL" "0 \<le> ev_fd e" "calls_live s e"
    using assms(2) by (auto simp: schedulable_def)
  obtain r s' acts' where s': "event_del sys s a = Ret (r, s')" "base_view s' (remove1 a ins) acts' (remove1 a tmo)"
    using event_del_ok [OF assms(1) e, of sys] by blast
  have "event_base.more s' = event_base.more s"
    using leavesD [OF event_del_more [OF refl] s'(1)] by simp
  then have "bufevs s' = bufevs s" by (rule same_bufevs)
  moreover have "distinct ins" "distinct tmo"
    using assms(1) tq_distinct by (auto simp: base_view_def list_view_def)
  ultimately show ?thesis using s' by (auto simp: no_result_def)
qed

lemma base_view_bev [simp]:
  "base_view (s\<lparr>bufevs := v\<rparr>) ins acts tmo = base_view s ins acts tmo"
  "base_view (put_bufev s b w) ins acts tmo = base_view s ins acts tmo"
  by (simp_all add: base_view_def put_bufev_def)

lemma schedulable_other [simp]:
  "schedulable (s\<lparr>kernel := k\<rparr>) a = schedulable s a" "schedulable (put_bufev s b w) a = schedulable s a"
  "off_queue (s\<lparr>kernel := k\<rparr>) a = off_queue s a" "off_queue (put_bufev s b w) a = off_queue s a"
  by (simp_all add: schedulable_def off_queue_def calls_live_def put_bufev_def)

subsection \<open>Receiving and sending\<close>

definition recv_room :: "'k net \<Rightarrow> int \<Rightarrow> 'k \<Rightarrow> bufev \<Rightarrow> int" where
  "recv_room net fd k v = read_size (net_avail net fd k) (read_room v)"

text \<open>The input buffer has room below \<open>2 ^ 63\<close> for what \<open>recv\<close> is asked for.\<close>

definition recv_ok :: "'k net \<Rightarrow> int \<Rightarrow> 'k \<Rightarrow> bufev \<Rightarrow> byte list \<Rightarrow> bool" where
  "recv_ok net fd k v bs \<longleftrightarrow> evbuf_ok (be_input v) \<and> totallen (be_input v) < 2 ^ 64 \<and>
     misalign (be_input v) + ev_off (be_input v) + nat (recv_room net fd k v) \<le> 2 ^ 63 \<and> (\<forall>n. net_realloc net k n) \<and>
     net_recv net fd k (recv_room net fd k v) = Some bs \<and> bs \<noteq> [] \<and> length bs \<le> nat (recv_room net fd k v)"

lemma readcb_ok:
  assumes "base_view s ins acts tmo" "bufevs s b = Some v" "schedulable s (be_read v)"
    and "ev \<noteq> EV_TIMEOUT" "wm_high (wm_read v) = 0 \<or> 0 < read_room v" "recv_ok net fd (kernel s) v bs"
  shows "\<exists>s2 buf ins' acts' tmo'. bufferevent_readcb sys net usr fd ev b s =
      (if wm_low (wm_read v) \<noteq> 0 \<and> ev_off buf < wm_low (wm_read v) then Ret s2
       else lbind (if wm_high (wm_read v) \<noteq> 0 \<and> ev_off buf \<ge> wm_high (wm_write v)
                   then no_result (event_del sys s2 (be_read v)) else Ret s2)
         (call_opt usr (be_readcb v) b None (be_cbarg v))) \<and>
    evbuf_ok buf \<and> ev_contents buf = ev_contents (be_input v) @ bs \<and> bufevs s2 b = Some (v\<lparr>be_input := buf\<rparr>) \<and>
    base_view s2 ins' acts' tmo' \<and> schedulable s2 (be_read v) \<and> (off_queue s (be_read v) \<longrightarrow> be_read v \<in> set ins')"
proof -
  obtain buf where buf: "evbuffer_read 0 (net_realloc net (kernel s)) (net_avail net fd (kernel s)) (net_recv net fd (kernel s))
      (be_input v) (read_room v) = Some (int (length bs), buf)" "evbuf_ok buf" "ev_contents buf = ev_contents (be_input v) @ bs"
    using read_ok [of "be_input v" "net_avail net fd (kernel s)" "read_room v" "net_realloc net (kernel s)"
        "net_recv net fd (kernel s)" bs 0] assms(6)
    by (auto simp: recv_ok_def recv_room_def)
  let ?s1 = "put_bufev (s\<lparr>kernel := net_next net (kernel s)\<rparr>) b (v\<lparr>be_input := buf\<rparr>)"
  have "base_view ?s1 ins acts tmo" "schedulable ?s1 (be_read v)" using assms(1,3) by simp_all
  from schedule_ok [OF this, of sys "timeout_read v"]
  obtain s2 ins' acts' tmo' where s2: "no_result (bufferevent_add sys ?s1 (be_read v) (timeout_read v)) = Ret s2"
    "base_view s2 ins' acts' tmo'" "bufevs s2 = bufevs ?s1" "schedulable s2 (be_read v)"
    "off_queue ?s1 (be_read v) \<longrightarrow> be_read v \<in> set ins'" by blast
  have "bufferevent_readcb sys net usr fd ev b s =
      (if wm_low (wm_read v) \<noteq> 0 \<and> ev_off buf < wm_low (wm_read v) then Ret s2
       else lbind (if wm_high (wm_read v) \<noteq> 0 \<and> ev_off buf \<ge> wm_high (wm_write v)
                   then no_result (event_del sys s2 (be_read v)) else Ret s2)
         (call_opt usr (be_readcb v) b None (be_cbarg v)))"
    using assms(2,4,5,6) buf(1) s2(1) by (auto simp: bufferevent_readcb_def recv_ok_def Let_def)
  moreover have "bufevs s2 b = Some (v\<lparr>be_input := buf\<rparr>)" using s2(3) by (simp add: put_bufev_def)
  moreover have "off_queue s (be_read v) \<longrightarrow> be_read v \<in> set ins'" using s2(5) by simp
  ultimately show ?thesis using buf(2,3) s2(2,4)
    by (intro exI [of _ s2] exI [of _ buf] exI [of _ ins'] exI [of _ acts'] exI [of _ tmo']) (intro conjI)
qed

lemma writecb_ok:
  assumes "base_view s ins acts tmo" "bufevs s b = Some v" "schedulable s (be_write v)"
    and "ev \<noteq> EV_TIMEOUT" "evbuf_ok (be_output v)" "ev_off (be_output v) \<noteq> 0"
    and "net_send net fd (kernel s) (ev_contents (be_output v)) = int n" "0 < n"
  shows "\<exists>s2 buf ins' acts' tmo'. bufferevent_writecb sys net usr fd ev b s = call_opt usr (be_writecb v) b None (be_cbarg v) s2 \<and>
    evbuf_ok buf \<and> ev_contents buf = drop n (ev_contents (be_output v)) \<and> bufevs s2 b = Some (v\<lparr>be_output := buf\<rparr>) \<and>
    base_view s2 ins' acts' tmo' \<and> (off_queue s (be_write v) \<and> ev_contents buf \<noteq> [] \<longrightarrow> be_write v \<in> set ins')"
proof -
  define buf where "buf = evbuffer_drain (be_output v) n"
  note d = drain_ok [OF assms(5), of n, folded buf_def]
  have w: "evbuffer_write (net_send net fd (kernel s)) (be_output v) = (int n, buf)"
    using assms(7,8) by (simp add: evbuffer_write_def buf_def)
  let ?v = "v\<lparr>be_output := buf\<rparr>"
  let ?s1 = "put_bufev (s\<lparr>kernel := net_next net (kernel s)\<rparr>) b ?v"
  have "base_view ?s1 ins acts tmo" "schedulable ?s1 (be_write v)" using assms(1,3) by simp_all
  from schedule_ok [OF this, of sys "timeout_write v"]
  obtain s2 ins' acts' tmo' where s2: "no_result (bufferevent_add sys ?s1 (be_write v) (timeout_write v)) = Ret s2"
    "base_view s2 ins' acts' tmo'" "bufevs s2 = bufevs ?s1" "off_queue s (be_write v) \<longrightarrow> be_write v \<in> set ins'" by auto
  have run: "bufferevent_writecb sys net usr fd ev b s =
      lbind (add_if_pending sys ?s1 ?v) (call_opt usr (be_writecb v) b None (be_cbarg v))"
    using assms(2,4,6,8) w by (simp add: bufferevent_writecb_def Let_def)
  show ?thesis
  proof (cases "ev_off buf = 0")
    case True
    then have "ev_contents buf = []" using length_ev_contents [OF d(1)] by simp
    moreover have "bufferevent_writecb sys net usr fd ev b s = call_opt usr (be_writecb v) b None (be_cbarg v) ?s1"
      using run True by (simp add: add_if_pending_def)
    moreover have "bufevs ?s1 b = Some ?v" by (simp add: put_bufev_def)
    moreover have "base_view ?s1 ins acts tmo" using assms(1) by simp
    ultimately show ?thesis using d
      by (intro exI [of _ ?s1] exI [of _ buf] exI [of _ ins] exI [of _ acts] exI [of _ tmo]) blast
  next
    case False
    then have "bufferevent_writecb sys net usr fd ev b s = call_opt usr (be_writecb v) b None (be_cbarg v) s2"
      using run s2(1) by (simp add: add_if_pending_def)
    moreover have "bufevs s2 b = Some ?v" using s2(3) by (simp add: put_bufev_def)
    ultimately show ?thesis using d s2(2,4)
      by (intro exI [of _ s2] exI [of _ buf] exI [of _ ins'] exI [of _ acts'] exI [of _ tmo']) blast
  qed
qed

end
