(* ===== verification/Ev_Start.thy ===== *)
theory Ev_Start
  imports Ev_Props Ev_Bufev
begin

section \<open>my\_event: making a base and the program around it\<close>

text \<open>
  \<open>event_base_new\<close>, \<open>event_init\<close>, \<open>event_loop\<close> and \<open>event_dispatch\<close> of
  \<open>cs/my_event/event.c\<close>, \<open>epoll_init\<close> of \<open>epoll.c\<close>, \<open>evsignal_cb\<close> of \<open>signal.c\<close>, and the
  program of \<open>main.c\<close> that listens, waits for a signal and sets a timer.  The results of the
  system calls of the start are the fields of \<open>start_env\<close>; the numbers of the functions
  \<open>evsignal_cb\<close>, \<open>new_client\<close>, \<open>sig_cb\<close> and \<open>timer_cb\<close> are its last ones.
\<close>

record start_env =
  env_rlimit :: "64 word option"
  env_epoll_create :: "int \<Rightarrow> int"
  env_base_ok :: bool
  env_eop_ok :: bool
  env_events_ok :: bool
  env_fds_ok :: bool
  env_pair :: "(int \<times> int) option"
  env_nsig :: nat
  evsignal_cb_nr :: nat
  new_client_nr :: nat
  sig_cb_nr :: nat
  timer_cb_nr :: nat

definition NEVENT :: int where "NEVENT = 20000"

text \<open>\<open>nfiles\<close> is an \<open>int\<close>: the limit wraps at 32 bits.\<close>

definition nfiles :: "start_env \<Rightarrow> int" where
  "nfiles env = (case env_rlimit env of None \<Rightarrow> NEVENT
     | Some cur \<Rightarrow> if cur \<noteq> -1 then sint (ucast (cur - 1) :: 32 word) else NEVENT)"

text \<open>What \<open>calloc\<close> makes of the structure: every field is zero, those of the internal event too.\<close>

definition zero_queue :: tailq where
  "zero_queue = \<lparr>tqh_first = Null, tqh_last = Junk_loc\<rparr>"

definition zero_base :: "nat \<Rightarrow> ('k, 'z) event_base_scheme \<Rightarrow> ('k, 'z) event_base_scheme" where
  "zero_base nsig s = (let a = ev_signal s in
     s\<lparr>events := (events s)(a \<mapsto> zero_event), ins_links := (ins_links s)(a \<mapsto> zero_entry),
       act_links := (act_links s)(a \<mapsto> zero_entry), tmo_links := (tmo_links s)(a \<mapsto> zero_entry),
       sig_links := (sig_links s)(a \<mapsto> zero_entry), inserted_queue := zero_queue, active_queue := [],
       timeout_queue := zero_queue, event_count := 0, event_count_active := 0, ev_signal_pair := (0, 0),
       ev_signal_added := False, evsignal_caught := False, evsigevents := replicate nsig zero_queue,
       evsigcaught := replicate nsig 0, sh_old := [], epfds := []\<rparr>)"

definition epoll_init ::
  "start_env \<Rightarrow> ('k, 'z) event_base_scheme \<Rightarrow> ((ptr \<times> ptr) list option \<times> ('k, 'z) event_base_scheme) lres" where
  "epoll_init env s =
     (if env_epoll_create env (nfiles env) = -1 then Ret (None, s)
      else if \<not> env_eop_ok env then Ret (None, s)
      else if \<not> env_events_ok env then Ret (None, s)
      else if \<not> env_fds_ok env then Ret (None, s)
      else case env_pair env of None \<Rightarrow> Raise
        | Some pair \<Rightarrow> lbind (evsignal_init pair (env_nsig env) (evsignal_cb_nr env) (ev_signal s) s) (\<lambda>s1.
            Ret (Some (replicate (nat (nfiles env)) (Null, Null)), s1)))"

definition event_base_new :: "start_env \<Rightarrow> ('k, 'z) event_base_scheme \<Rightarrow> ('k, 'z) event_base_scheme lres" where
  "event_base_new env s =
     (if \<not> env_base_ok env then Raise
      else lbind (epoll_init env ((zero_base (env_nsig env) s)\<lparr>ev_signal_pair := (-1, -1)\<rparr>)) (\<lambda>(fds, s1).
        case fds of None \<Rightarrow> Raise
        | Some t \<Rightarrow> let s2 = snd (event_base_priority_init (s1\<lparr>epfds := t, inserted_queue := tailq_init\<rparr>) 1) in
            Ret (s2\<lparr>timeout_queue := tailq_init\<rparr>)))"

definition event_init :: "start_env \<Rightarrow> ('k, 'z) event_base_scheme \<Rightarrow> ('k, 'z) event_base_scheme lres" where
  "event_init env s = lbind (event_base_new env s) (\<lambda>s1. Ret (s1\<lparr>current_base := True\<rparr>))"

definition event_loop ::
  "'k sys \<Rightarrow> ('k, 'z) callbacks \<Rightarrow> nat \<Rightarrow> ((int \<times> int) \<times> waited) list \<Rightarrow> ('k, 'z) event_base_scheme \<Rightarrow> ('k, 'z) event_base_scheme lres" where
  "event_loop sys run fuel ws s = (if current_base s then event_base_loop sys run fuel ws s else Fault)"

definition event_dispatch ::
  "'k sys \<Rightarrow> ('k, 'z) callbacks \<Rightarrow> nat \<Rightarrow> ((int \<times> int) \<times> waited) list \<Rightarrow> ('k, 'z) event_base_scheme \<Rightarrow> ('k, 'z) event_base_scheme lres" where
  "event_dispatch sys run fuel ws s = event_loop sys run fuel ws s"

text \<open>\<open>recv\<close> returns the number of bytes, or -1, and the kernel after it.\<close>

definition evsignal_cb ::
  "(int \<Rightarrow> nat \<Rightarrow> 'k \<Rightarrow> int \<times> 'k) \<Rightarrow> int \<Rightarrow> ('k, 'z) event_base_scheme \<Rightarrow> ('k, 'z) event_base_scheme lres" where
  "evsignal_cb recv fd s = (let (n, k) = recv fd 100 (kernel s) in
     if n = -1 then Raise else Ret (s\<lparr>kernel := k\<rparr>))"

subsection \<open>The program\<close>

text \<open>The calls of \<open>create_listen_sock\<close>: the descriptor, and whether the others succeed.\<close>

record listen_env =
  le_socket :: int
  le_nonblock :: bool
  le_bind :: bool
  le_listen :: bool

definition create_listen_sock :: "listen_env \<Rightarrow> int" where
  "create_listen_sock le =
     (if le_socket le = -1 then -1
      else if \<not> le_nonblock le then -1
      else if \<not> le_bind le then -1
      else if \<not> le_listen le then -1
      else le_socket le)"

definition SIGINT :: int where "SIGINT = 2"

text \<open>The events of \<open>main\<close> are its local variables, at \<open>la\<close>, \<open>sa\<close> and \<open>ta\<close>.\<close>

definition main_events ::
  "start_env \<Rightarrow> 'k sys \<Rightarrow> int \<Rightarrow> nat \<Rightarrow> nat \<Rightarrow> nat \<Rightarrow> ('k, 'z) event_base_scheme \<Rightarrow> ('k, 'z) event_base_scheme lres" where
  "main_events env sys fd la sa ta s =
     lbind (event_set s la fd (EV_READ OR EV_PERSIST) (new_client_nr env) Null) (\<lambda>s1.
     lbind (event_add sys s1 la False) (\<lambda>(_, s2).
     lbind (event_set s2 sa SIGINT (EV_SIGNAL OR EV_PERSIST) (sig_cb_nr env) (Ptr sa)) (\<lambda>s3.
     lbind (event_add sys s3 sa False) (\<lambda>(_, s4).
     lbind (event_set s4 ta (-1) 0 (timer_cb_nr env) (Ptr ta)) (\<lambda>s5.
     lbind (event_add sys s5 ta True) (\<lambda>(_, s6). Ret s6))))))"

definition main_prog ::
  "start_env \<Rightarrow> listen_env \<Rightarrow> 'k sys \<Rightarrow> ('k, 'z) callbacks \<Rightarrow> nat \<Rightarrow> ((int \<times> int) \<times> waited) list \<Rightarrow> nat \<Rightarrow> nat \<Rightarrow> nat \<Rightarrow>
   ('k, 'z) event_base_scheme \<Rightarrow> ('k, 'z) event_base_scheme lres" where
  "main_prog env le sys run fuel ws la sa ta s = (let fd = create_listen_sock le in
     if fd = -1 then Raise
     else lbind (event_init env s) (\<lambda>s1. lbind (main_events env sys fd la sa ta s1) (event_dispatch sys run fuel ws)))"

subsection \<open>A new base is well formed\<close>

text \<open>The state before the base is made: memory for events, none of them on a queue.\<close>

definition unlisted :: "event store \<Rightarrow> bool" where
  "unlisted evs \<longleftrightarrow> (\<forall>a e. evs a = Some e \<longrightarrow> \<not> bit (ev_flags e) 0 \<and> \<not> bit (ev_flags e) 1 \<and> \<not> bit (ev_flags e) 3)"

definition at_start :: "('k, 'z) event_base_scheme \<Rightarrow> bool" where
  "at_start s \<longleftrightarrow> \<not> current_base s \<and> unlisted (events s) \<and> dom (ins_links s) = dom (events s) \<and>
     dom (act_links s) = dom (events s) \<and> dom (tmo_links s) = dom (events s) \<and> dom (sig_links s) = dom (events s)"

definition start_ok :: "start_env \<Rightarrow> bool" where
  "start_ok env \<longleftrightarrow> env_base_ok env \<and> env_epoll_create env (nfiles env) \<noteq> -1 \<and> env_eop_ok env \<and> env_events_ok env \<and>
     env_fds_ok env \<and> env_pair env \<noteq> None"

definition internal_event :: "start_env \<Rightarrow> nat \<Rightarrow> event" where
  "internal_event env a = \<lparr>ev_fd = snd (the (env_pair env)), ev_events = EV_READ OR EV_PERSIST, ev_callback = evsignal_cb_nr env,
     ev_arg = Ptr a, ev_res = 0, ev_base = True, ev_flags = EVLIST_INIT OR EVLIST_INTERNAL, ev_ncalls = 0,
     ev_pncalls = Null, ev_pri = 0\<rparr>"

definition made_base :: "start_env \<Rightarrow> ('k, 'z) event_base_scheme \<Rightarrow> ('k, 'z) event_base_scheme" where
  "made_base env s = (let a = ev_signal s in
     s\<lparr>events := (events s)(a \<mapsto> internal_event env a), ins_links := (ins_links s)(a \<mapsto> zero_entry),
       act_links := (act_links s)(a \<mapsto> zero_entry), tmo_links := (tmo_links s)(a \<mapsto> zero_entry),
       sig_links := (sig_links s)(a \<mapsto> zero_entry), inserted_queue := tailq_init, active_queue := [tailq_init],
       timeout_queue := tailq_init, event_count := 0, event_count_active := 0, current_base := True,
       ev_signal_pair := the (env_pair env), ev_signal_added := False, evsignal_caught := False,
       evsigevents := replicate (env_nsig env) tailq_init,
       evsigcaught := replicate (env_nsig env) 0, sh_old := [], epfds := replicate (nat (nfiles env)) (Null, Null)\<rparr>)"

lemma event_init_eq:
  assumes "start_ok env" "\<not> current_base s"
  shows "event_init env s = Ret (made_base env s)"
proof -
  obtain pr where "env_pair env = Some pr" using assms(1) by (auto simp: start_ok_def)
  then show ?thesis using assms
    by (simp add: event_init_def event_base_new_def epoll_init_def start_ok_def zero_base_def evsignal_init_def event_set_def
        put_event_def zero_event_def event_base_priority_init_def made_base_def internal_event_def Let_def)
qed

lemma event_init_fails: "\<not> start_ok env \<Longrightarrow> event_init env s = Raise"
  by (cases "env_pair env") (auto simp: event_init_def event_base_new_def epoll_init_def start_ok_def)

lemma internal_bits: "\<not> bit (EVLIST_INIT OR EVLIST_INTERNAL) 0" "\<not> bit (EVLIST_INIT OR EVLIST_INTERNAL) 1"
  "\<not> bit (EVLIST_INIT OR EVLIST_INTERNAL) 3"
  by (simp_all add: EVLIST_INIT_def EVLIST_INTERNAL_def)

lemma made_unlisted: "unlisted (events s) \<Longrightarrow> unlisted (events (made_base env s))"
  using internal_bits by (auto simp: unlisted_def made_base_def internal_event_def Let_def)

lemma unlisted_view:
  assumes "unlisted (events s)" "dom (ins_links s) = dom (events s)" "dom (act_links s) = dom (events s)"
    "dom (tmo_links s) = dom (events s)" "inserted_queue s = tailq_init" "timeout_queue s = tailq_init"
    "active_queue s = [tailq_init]" "event_count s = 0" "event_count_active s = 0"
  shows "base_view s [] [[]] []"
proof -
  have "flagged (events s) 0 = {}" "flagged (events s) 1 = {}" "at_priority (events s) i = {}" for i
    using assms(1) by (auto simp: flagged_def at_priority_def unlisted_def)
  moreover have "\<forall>a e. events s a = Some e \<longrightarrow> \<not> bit (ev_flags e) 3" using assms(1) by (auto simp: unlisted_def)
  ultimately show ?thesis using assms by (simp add: base_view_def list_view_def active_view_def active_total_def init_holds)
qed

lemma made_view:
  assumes "at_start s"
  shows "base_view (made_base env s) [] [[]] []"
proof (rule unlisted_view)
  show "unlisted (events (made_base env s))" using assms made_unlisted by (auto simp: at_start_def)
qed (use assms in \<open>simp_all add: made_base_def at_start_def Let_def\<close>)

subsection \<open>Adding the first events\<close>

text \<open>An event that \<open>event_set\<close> has made, and one that is added to an empty slot or for a signal.\<close>

lemma event_set_view:
  fixes fd :: int and evs :: "16 word" and cb :: nat and arg :: ptr
  assumes "base_view s ins acts tmo" "events s a = Some e" "\<not> bit (ev_flags e) 0" "\<not> bit (ev_flags e) 1" "\<not> bit (ev_flags e) 3"
    "current_base s"
  defines "e' \<equiv> \<lparr>ev_fd = fd, ev_events = evs, ev_callback = cb, ev_arg = arg, ev_res = 0, ev_base = True,
    ev_flags = EVLIST_INIT, ev_ncalls = 0, ev_pncalls = Null, ev_pri = length (active_queue s) div 2\<rparr>"
  shows "event_set s a fd evs cb arg = Ret (put_event s a e') \<and> base_view (put_event s a e') ins acts tmo"
proof -
  have "at_priority ((events s)(a \<mapsto> e')) i = at_priority (events s) i" for i
    using assms(2,5) by (auto simp: at_priority_def e'_def split: if_splits)
  moreover have "flagged ((events s)(a \<mapsto> e')) n = flagged (events s) n" if "n = 0 \<or> n = 1" for n
    using that assms(2-4) by (auto simp: flagged_def e'_def split: if_splits)
  moreover have "dom ((events s)(a \<mapsto> e')) = dom (events s)" using assms(2) by auto
  ultimately have "base_view (put_event s a e') ins acts tmo"
    using assms(1) by (auto simp: base_view_def put_event_def list_view_def active_view_def e'_def split: if_splits)
  then show ?thesis using assms(2,6) by (simp add: event_set_def e'_def)
qed

lemma add_inserted:
  assumes "base_view s ins acts tmo" "events s a = Some e" "ev_base e" "wants e (EV_READ OR EV_WRITE OR EV_SIGNAL)"
    "\<not> bit (ev_flags e) 1" "\<not> bit (ev_flags e) 3"
    and add: "add s a = Ret (0, s1)" "base_view s1 ins1 acts tmo" "events s1 a = Some e"
  shows "\<exists>h l. let s2 = s1\<lparr>event_count := event_count s1 + 1,
      events := (events s1)(a \<mapsto> e\<lparr>ev_flags := ev_flags e OR EVLIST_INSERTED\<rparr>), inserted_queue := h, ins_links := l\<rparr> in
    event_add_by add s a False = Ret (0, s2) \<and> base_view s2 (ins1 @ [a]) acts tmo"
proof -
  obtain h l s2 where s2: "event_queue_insert s1 a EVLIST_INSERTED = Ret s2" "base_view s2 (ins1 @ [a]) acts tmo"
    "s2 = s1\<lparr>event_count := event_count s1 + 1, events := (events s1)(a \<mapsto> e\<lparr>ev_flags := ev_flags e OR EVLIST_INSERTED\<rparr>),
      inserted_queue := h, ins_links := l\<rparr>"
    using insert_inserted [OF add(2,3)] assms(5) by blast
  have "event_add_by add s a False = Ret (0, s2)" using assms(2-6) add(1) s2(1) by (simp add: event_add_by_def)
  then show ?thesis using s2(2,3) by (intro exI [of _ h] exI [of _ l]) (simp add: Let_def)
qed

lemma epoll_add_fd_new:
  assumes "events s a = Some e" "0 \<le> ev_fd e" "ev_fd e < int (length (epfds s))" "epfds s ! nat (ev_fd e) = (Null, Null)"
    "ev_events e = EV_READ OR EV_PERSIST"
  shows "\<exists>k. epoll_add_fd sys s a = Ret (0, s\<lparr>kernel := k, epfds := (epfds s)[nat (ev_fd e) := (Ptr a, Null)]\<rparr>) \<and>
    ctl_step sys (kernel s) k"
proof -
  have "wants e EV_READ" "\<not> wants e EV_WRITE" by (simp_all add: assms(5) EV_READ_def EV_PERSIST_def EV_WRITE_def)
  then show ?thesis using assms(1-4) by (auto simp: epoll_add_fd_def Let_def)
qed

text \<open>The first signal event brings the internal event with it.\<close>

lemma internal_add:
  assumes "base_view s ins acts tmo" "events s (ev_signal s) = Some i" "ev_base i" "ev_events i = EV_READ OR EV_PERSIST"
    "\<not> bit (ev_flags i) 1" "\<not> bit (ev_flags i) 3" "0 \<le> ev_fd i" "ev_fd i < int (length (epfds s))"
    "epfds s ! nat (ev_fd i) = (Null, Null)"
  shows "\<exists>h l k. let s2 = s\<lparr>kernel := k, epfds := (epfds s)[nat (ev_fd i) := (Ptr (ev_signal s), Null)],
      event_count := event_count s + 1, events := (events s)(ev_signal s \<mapsto> i\<lparr>ev_flags := ev_flags i OR EVLIST_INSERTED\<rparr>),
      inserted_queue := h, ins_links := l\<rparr> in
    event_add_by (add_internal sys) s (ev_signal s) False = Ret (0, s2) \<and> base_view s2 (ins @ [ev_signal s]) acts tmo \<and>
    ctl_step sys (kernel s) k"
proof -
  obtain k where k: "epoll_add_fd sys s (ev_signal s) =
      Ret (0, s\<lparr>kernel := k, epfds := (epfds s)[nat (ev_fd i) := (Ptr (ev_signal s), Null)]\<rparr>)" "ctl_step sys (kernel s) k"
    using epoll_add_fd_new [OF assms(2,7-9,4)] by blast
  let ?s1 = "s\<lparr>kernel := k, epfds := (epfds s)[nat (ev_fd i) := (Ptr (ev_signal s), Null)]\<rparr>"
  have w: "wants i (EV_READ OR EV_WRITE OR EV_SIGNAL)" "\<not> wants i EV_SIGNAL"
    by (simp_all add: assms(4) EV_READ_def EV_WRITE_def EV_SIGNAL_def EV_PERSIST_def)
  have "add_internal sys s (ev_signal s) = Ret (0, ?s1)" using k(1) w(2) assms(2) by (simp add: add_internal_def)
  moreover have "base_view ?s1 ins acts tmo" "events ?s1 (ev_signal s) = Some i" using assms(1,2) by simp_all
  ultimately obtain h l where "let s2 = ?s1\<lparr>event_count := event_count ?s1 + 1,
      events := (events ?s1)(ev_signal s \<mapsto> i\<lparr>ev_flags := ev_flags i OR EVLIST_INSERTED\<rparr>), inserted_queue := h, ins_links := l\<rparr> in
    event_add_by (add_internal sys) s (ev_signal s) False = Ret (0, s2) \<and> base_view s2 (ins @ [ev_signal s]) acts tmo"
    using add_inserted [where add = "add_internal sys", OF assms(1-3) w(1) assms(5,6)] by blast
  then show ?thesis using k(2) by (intro exI [of _ h] exI [of _ l] exI [of _ k]) (simp add: Let_def)
qed

lemma evsignal_add_first:
  assumes "base_view s ins acts tmo" "events s (ev_signal s) = Some i" "ev_base i" "ev_events i = EV_READ OR EV_PERSIST"
    "\<not> bit (ev_flags i) 1" "\<not> bit (ev_flags i) 3" "0 \<le> ev_fd i" "ev_fd i < int (length (epfds s))"
    "epfds s ! nat (ev_fd i) = (Null, Null)" "events s a = Some e" "ev_base e" "ev_events e = EV_SIGNAL OR EV_PERSIST"
    "0 \<le> ev_fd e" "ev_fd e < int (length (evsigevents s))" "evsigevents s ! nat (ev_fd e) = tailq_init"
    "handler_ok sys (nat (ev_fd e))" "\<not> ev_signal_added s" "a \<in> dom (sig_links s)" "a \<noteq> ev_signal s"
  shows "\<exists>s1. evsignal_add sys s a = Ret (0, s1) \<and> base_view s1 (ins @ [ev_signal s]) acts tmo \<and>
    events s1 = (events s)(ev_signal s \<mapsto> i\<lparr>ev_flags := ev_flags i OR EVLIST_INSERTED\<rparr>) \<and>
    epfds s1 = (epfds s)[nat (ev_fd i) := (Ptr (ev_signal s), Null)] \<and> ctl_step sys (kernel s) (kernel s1) \<and>
    active_queue s1 = active_queue s \<and> evsignal_caught s1 = evsignal_caught s \<and> current_base s1 = current_base s \<and>
    tq_holds (evsigevents s1 ! nat (ev_fd e), sig_links s1) [a]"
proof -
  let ?n = "nat (ev_fd e)"
  obtain old where old: "evsignal_set_handler sys s ?n = (0, s\<lparr>sh_old := old\<rparr>)"
    using assms(16) by (auto simp: evsignal_set_handler_def handler_ok_def Let_def)
  let ?s0 = "s\<lparr>sh_old := old, evsignal_base := True\<rparr>"
  have "base_view ?s0 ins acts tmo" using assms(1) by (simp add: base_view_def)
  then obtain h l k where "let s2 = ?s0\<lparr>kernel := k, epfds := (epfds ?s0)[nat (ev_fd i) := (Ptr (ev_signal ?s0), Null)],
      event_count := event_count ?s0 + 1, events := (events ?s0)(ev_signal ?s0 \<mapsto> i\<lparr>ev_flags := ev_flags i OR EVLIST_INSERTED\<rparr>),
      inserted_queue := h, ins_links := l\<rparr> in
    event_add_by (add_internal sys) ?s0 (ev_signal ?s0) False = Ret (0, s2) \<and> base_view s2 (ins @ [ev_signal ?s0]) acts tmo \<and>
    ctl_step sys (kernel ?s0) k"
    using internal_add [of ?s0 ins acts tmo i] assms(2-9) by (simp del: ex_simps) blast
  then obtain s2 where s2: "event_add_by (add_internal sys) ?s0 (ev_signal s) False = Ret (0, s2)"
    "base_view s2 (ins @ [ev_signal s]) acts tmo" "ctl_step sys (kernel s) k"
    "s2 = ?s0\<lparr>kernel := k, epfds := (epfds s)[nat (ev_fd i) := (Ptr (ev_signal s), Null)],
      event_count := event_count s + 1, events := (events s)(ev_signal s \<mapsto> i\<lparr>ev_flags := ev_flags i OR EVLIST_INSERTED\<rparr>),
      inserted_queue := h, ins_links := l\<rparr>" by (simp add: Let_def)
  obtain q where q: "tailq_insert_tail (tailq_init, sig_links s) a = Some q" "tq_holds q [a]"
    using insert_tail_ok [of "(tailq_init, sig_links s)" "[]" a] assms(18) init_holds by auto
  define s3 where "s3 = s2\<lparr>ev_signal_added := True, evsigevents := (evsigevents s)[?n := fst q], sig_links := snd q\<rparr>"
  have w: "\<not> wants e (EV_READ OR EV_WRITE)" by (simp add: assms(12) EV_READ_def EV_WRITE_def EV_SIGNAL_def EV_PERSIST_def)
  have "tailq_empty tailq_init" by (simp add: tailq_empty_def tailq_init_def)
  then have "evsignal_add sys s a = Ret (0, s3)"
    using assms(10,11,13-15,17) w old s2(1) q(1) by (simp add: evsignal_add_def s3_def s2(4) Let_def)
  moreover have "base_view s3 (ins @ [ev_signal s]) acts tmo" using s2(2) by (simp add: s3_def base_view_def)
  ultimately show ?thesis using s2(3) q(2) assms(13,14) by (intro exI [of _ s3]) (simp add: s3_def s2(4))
qed

lemma timer_add:
  assumes "base_view s ins acts tmo" "events s a = Some e" "ev_base e" "ev_events e = 0" "\<not> bit (ev_flags e) 0" "\<not> bit (ev_flags e) 3"
  shows "\<exists>h l. let s' = s\<lparr>event_count := event_count s + 1, events := (events s)(a \<mapsto> e\<lparr>ev_flags := ev_flags e OR EVLIST_TIMEOUT\<rparr>),
      timeout_queue := h, tmo_links := l\<rparr> in
    event_add sys s a True = Ret (0, s') \<and> base_view s' ins acts (tmo @ [a])"
proof -
  obtain h l s' where s': "event_queue_insert s a EVLIST_TIMEOUT = Ret s'" "base_view s' ins acts (tmo @ [a])"
    "s' = s\<lparr>event_count := event_count s + 1, events := (events s)(a \<mapsto> e\<lparr>ev_flags := ev_flags e OR EVLIST_TIMEOUT\<rparr>),
      timeout_queue := h, tmo_links := l\<rparr>" using insert_timeout [OF assms(1,2,5)] by blast
  have "event_add sys s a True = Ret (0, s')"
    using assms(2-6) s'(1) by (simp add: event_add_def event_add_by_def remove_if_listed_def)
  then show ?thesis using s'(2,3) by (intro exI [of _ h] exI [of _ l]) (simp add: Let_def)
qed

text \<open>What \<open>main\<close> needs of its environment, and the state in which it enters the loop.\<close>

definition main_ok :: "start_env \<Rightarrow> 'k sys \<Rightarrow> int \<Rightarrow> nat \<Rightarrow> nat \<Rightarrow> nat \<Rightarrow> ('k, 'z) event_base_scheme \<Rightarrow> bool" where
  "main_ok env sys fd la sa ta s \<longleftrightarrow> at_start s \<and> start_ok env \<and> {la, sa, ta} \<subseteq> dom (events s) \<and>
     distinct [la, sa, ta, ev_signal s] \<and> 0 \<le> fd \<and> fd < nfiles env \<and> 0 \<le> snd (the (env_pair env)) \<and>
     snd (the (env_pair env)) < nfiles env \<and> snd (the (env_pair env)) \<noteq> fd \<and> 2 < env_nsig env \<and> handler_ok sys 2"

definition in_loop ::
  "start_env \<Rightarrow> int \<Rightarrow> nat \<Rightarrow> nat \<Rightarrow> nat \<Rightarrow> nat \<Rightarrow> ('k, 'z) event_base_scheme \<Rightarrow> bool" where
  "in_loop env fd la sa ta ia s \<longleftrightarrow> base_view s [la, ia, sa] [[]] [ta] \<and> \<not> evsignal_caught s \<and> current_base s \<and>
     epfds s = (replicate (nat (nfiles env)) (Null, Null))
       [nat fd := (Ptr la, Null), nat (snd (the (env_pair env))) := (Ptr ia, Null)] \<and>
     tq_holds (evsigevents s ! 2, sig_links s) [sa] \<and>
     (\<exists>e. events s la = Some e \<and> ev_fd e = fd \<and> ev_events e = EV_READ OR EV_PERSIST \<and> ev_callback e = new_client_nr env \<and>
       ev_arg e = Null \<and> ev_base e \<and> ev_pri e = 0)"

text \<open>The three steps of \<open>main\<close>: the listening event, the signal event and the timer.\<close>

definition rest_part where
  "rest_part s = (sig_links s, evsigevents s, ev_signal_added s, ev_signal s, evsignal_caught s, current_base s, active_queue s)"

definition set_event :: "int \<Rightarrow> 16 word \<Rightarrow> nat \<Rightarrow> ptr \<Rightarrow> event" where
  "set_event fd evs cb arg = \<lparr>ev_fd = fd, ev_events = evs, ev_callback = cb, ev_arg = arg, ev_res = 0,
    ev_base = True, ev_flags = EVLIST_INIT, ev_ncalls = 0, ev_pncalls = Null, ev_pri = 0\<rparr>"

definition clear_flags :: "event \<Rightarrow> bool" where
  "clear_flags e \<longleftrightarrow> \<not> bit (ev_flags e) 0 \<and> \<not> bit (ev_flags e) 1 \<and> \<not> bit (ev_flags e) 3"

lemma set_event_sel: "ev_fd (set_event fd evs cb arg) = fd" "ev_events (set_event fd evs cb arg) = evs"
  "ev_base (set_event fd evs cb arg)" "clear_flags (set_event fd evs cb arg)" "ev_callback (set_event fd evs cb arg) = cb"
  "ev_arg (set_event fd evs cb arg) = arg" "ev_pri (set_event fd evs cb arg) = 0"
  by (simp_all add: set_event_def clear_flags_def)

lemma set_ok:
  assumes "base_view s ins acts tmo" "events s a = Some e" "clear_flags e" "current_base s" "length (active_queue s) = 1"
  shows "event_set s a fd evs cb arg = Ret (put_event s a (set_event fd evs cb arg))"
    "base_view (put_event s a (set_event fd evs cb arg)) ins acts tmo"
  using event_set_view [OF assms(1,2) _ _ _ assms(4), of fd evs cb arg] assms(3,5) by (simp_all add: clear_flags_def set_event_def)

lemma listen_ok:
  assumes v: "base_view s ins acts tmo" and e: "events s a = Some e" "clear_flags e" and c: "current_base s" "length (active_queue s) = 1"
    and fd: "0 \<le> fd" "fd < int (length (epfds s))" "epfds s ! nat fd = (Null, Null)"
  shows "\<exists>s1 w s2. event_set s a fd (EV_READ OR EV_PERSIST) cb arg = Ret s1 \<and> event_add sys s1 a False = Ret (0, s2) \<and>
    base_view s2 (ins @ [a]) acts tmo \<and> events s2 = (events s)(a \<mapsto> (set_event fd (EV_READ OR EV_PERSIST) cb arg)\<lparr>ev_flags := w\<rparr>) \<and>
    epfds s2 = (epfds s)[nat fd := (Ptr a, Null)] \<and> ctl_step sys (kernel s) (kernel s2) \<and> rest_part s2 = rest_part s"
proof -
  define e1 where "e1 = set_event fd (EV_READ OR EV_PERSIST) cb arg"
  note e1 = set_event_sel [of fd "EV_READ OR EV_PERSIST" cb arg, folded e1_def]
  define s1 where "s1 = put_event s a e1"
  note r1 = set_ok [OF v e c, of fd "EV_READ OR EV_PERSIST" cb arg, folded e1_def, folded s1_def]
  have f1: "events s1 = (events s)(a \<mapsto> e1)" "epfds s1 = epfds s" "kernel s1 = kernel s" "rest_part s1 = rest_part s"
    by (simp_all add: s1_def put_event_def rest_part_def)
  have ea: "events s1 a = Some e1" by (simp add: f1)
  have w: "wants e1 (EV_READ OR EV_WRITE OR EV_SIGNAL)" "\<not> wants e1 EV_SIGNAL"
    by (simp_all add: e1 EV_READ_def EV_WRITE_def EV_SIGNAL_def EV_PERSIST_def)
  obtain k where k: "epoll_add_fd sys s1 a = Ret (0, s1\<lparr>kernel := k, epfds := (epfds s)[nat fd := (Ptr a, Null)]\<rparr>)"
    "ctl_step sys (kernel s) k"
    using epoll_add_fd_new [OF ea, of sys] unfolding e1 f1 using fd by auto
  define t1 where "t1 = s1\<lparr>kernel := k, epfds := (epfds s)[nat fd := (Ptr a, Null)]\<rparr>"
  have t1: "epoll_add sys s1 a = Ret (0, t1)" "base_view t1 ins acts tmo" "events t1 a = Some e1"
    using k(1) w(2) r1(2) ea by (simp_all add: epoll_add_def t1_def)
  have "\<not> bit (ev_flags e1) 1" "\<not> bit (ev_flags e1) 3" using e1(4) by (simp_all add: clear_flags_def)
  from add_inserted [where add = "epoll_add sys", OF r1(2) ea e1(3) w(1) this t1]
  obtain h l where "let s2 = t1\<lparr>event_count := event_count t1 + 1,
      events := (events t1)(a \<mapsto> e1\<lparr>ev_flags := ev_flags e1 OR EVLIST_INSERTED\<rparr>), inserted_queue := h, ins_links := l\<rparr> in
    event_add_by (epoll_add sys) s1 a False = Ret (0, s2) \<and> base_view s2 (ins @ [a]) acts tmo" by blast
  then obtain s2 where s2: "event_add sys s1 a False = Ret (0, s2)" "base_view s2 (ins @ [a]) acts tmo"
    "s2 = t1\<lparr>event_count := event_count t1 + 1,
      events := (events t1)(a \<mapsto> e1\<lparr>ev_flags := ev_flags e1 OR EVLIST_INSERTED\<rparr>), inserted_queue := h, ins_links := l\<rparr>"
    by (simp add: event_add_def Let_def)
  have "events s2 = (events s)(a \<mapsto> e1\<lparr>ev_flags := ev_flags e1 OR EVLIST_INSERTED\<rparr>)"
    "epfds s2 = (epfds s)[nat fd := (Ptr a, Null)]" "kernel s2 = k" "rest_part s2 = rest_part s"
    using f1 by (simp_all add: s2(3) t1_def rest_part_def)
  then show ?thesis using r1(1) s2(1,2) k(2) unfolding e1_def by blast
qed

lemma signal_ok:
  assumes v: "base_view s ins acts tmo" and e: "events s a = Some e" "clear_flags e" and c: "current_base s" "length (active_queue s) = 1"
    and i: "events s (ev_signal s) = Some i" "ev_base i" "ev_events i = EV_READ OR EV_PERSIST" "clear_flags i"
    and fd: "0 \<le> ev_fd i" "ev_fd i < int (length (epfds s))" "epfds s ! nat (ev_fd i) = (Null, Null)"
    and g: "0 \<le> sig" "sig < int (length (evsigevents s))" "evsigevents s ! nat sig = tailq_init" "handler_ok sys (nat sig)"
    and f: "\<not> ev_signal_added s" "a \<in> dom (sig_links s)" "a \<noteq> ev_signal s"
  shows "\<exists>s1 w w' s2. event_set s a sig (EV_SIGNAL OR EV_PERSIST) cb arg = Ret s1 \<and> event_add sys s1 a False = Ret (0, s2) \<and>
    base_view s2 (ins @ [ev_signal s, a]) acts tmo \<and>
    events s2 = (events s)(a \<mapsto> (set_event sig (EV_SIGNAL OR EV_PERSIST) cb arg)\<lparr>ev_flags := w\<rparr>, ev_signal s \<mapsto> i\<lparr>ev_flags := w'\<rparr>) \<and>
    epfds s2 = (epfds s)[nat (ev_fd i) := (Ptr (ev_signal s), Null)] \<and> ctl_step sys (kernel s) (kernel s2) \<and>
    active_queue s2 = active_queue s \<and> evsignal_caught s2 = evsignal_caught s \<and> current_base s2 = current_base s \<and>
    tq_holds (evsigevents s2 ! nat sig, sig_links s2) [a]"
proof -
  define e1 where "e1 = set_event sig (EV_SIGNAL OR EV_PERSIST) cb arg"
  note e1 = set_event_sel [of sig "EV_SIGNAL OR EV_PERSIST" cb arg, folded e1_def]
  define s1 where "s1 = put_event s a e1"
  note r1 = set_ok [OF v e c, of sig "EV_SIGNAL OR EV_PERSIST" cb arg, folded e1_def, folded s1_def]
  have f1: "events s1 = (events s)(a \<mapsto> e1)" "epfds s1 = epfds s" "kernel s1 = kernel s" "ev_signal s1 = ev_signal s"
    "evsigevents s1 = evsigevents s" "sig_links s1 = sig_links s" "ev_signal_added s1 = ev_signal_added s"
    "active_queue s1 = active_queue s" "evsignal_caught s1 = evsignal_caught s" "current_base s1 = current_base s"
    by (simp_all add: s1_def put_event_def)
  have ea: "events s1 a = Some e1" "events s1 (ev_signal s1) = Some i" using i(1) f(3) by (simp_all add: f1)
  have w: "wants e1 (EV_READ OR EV_WRITE OR EV_SIGNAL)" "wants e1 EV_SIGNAL"
    by (simp_all add: e1 EV_READ_def EV_WRITE_def EV_SIGNAL_def EV_PERSIST_def)
  have b: "\<not> bit (ev_flags e1) 1" "\<not> bit (ev_flags e1) 3" "\<not> bit (ev_flags i) 1" "\<not> bit (ev_flags i) 3"
    using e1(4) i(4) by (simp_all add: clear_flags_def)
  note first = evsignal_add_first [OF r1(2) ea(2) i(2,3) b(3,4) fd(1) _ _ ea(1) e1(3,2), unfolded f1 e1, OF fd(2,3) g f]
  from first obtain t1 where t1: "evsignal_add sys s1 a = Ret (0, t1)" "base_view t1 (ins @ [ev_signal s]) acts tmo"
    "events t1 = (events s)(a \<mapsto> e1, ev_signal s \<mapsto> i\<lparr>ev_flags := ev_flags i OR EVLIST_INSERTED\<rparr>)"
    "epfds t1 = (epfds s)[nat (ev_fd i) := (Ptr (ev_signal s), Null)]" "ctl_step sys (kernel s) (kernel t1)"
    "active_queue t1 = active_queue s" "evsignal_caught t1 = evsignal_caught s" "current_base t1 = current_base s"
    "tq_holds (evsigevents t1 ! nat sig, sig_links t1) [a]" by blast
  have t2: "epoll_add sys s1 a = Ret (0, t1)" "events t1 a = Some e1" using t1(1,3) ea(1) w(2) f(3) by (simp_all add: epoll_add_def)
  from add_inserted [where add = "epoll_add sys", OF r1(2) ea(1) e1(3) w(1) b(1,2) t2(1) t1(2) t2(2)]
  obtain h l where "let s2 = t1\<lparr>event_count := event_count t1 + 1,
      events := (events t1)(a \<mapsto> e1\<lparr>ev_flags := ev_flags e1 OR EVLIST_INSERTED\<rparr>), inserted_queue := h, ins_links := l\<rparr> in
    event_add_by (epoll_add sys) s1 a False = Ret (0, s2) \<and> base_view s2 ((ins @ [ev_signal s]) @ [a]) acts tmo" by blast
  then obtain s2 where s2: "event_add sys s1 a False = Ret (0, s2)" "base_view s2 (ins @ [ev_signal s, a]) acts tmo"
    "s2 = t1\<lparr>event_count := event_count t1 + 1,
      events := (events t1)(a \<mapsto> e1\<lparr>ev_flags := ev_flags e1 OR EVLIST_INSERTED\<rparr>), inserted_queue := h, ins_links := l\<rparr>"
    by (simp add: event_add_def Let_def)
  have "events s2 = (events s)(a \<mapsto> e1\<lparr>ev_flags := ev_flags e1 OR EVLIST_INSERTED\<rparr>,
      ev_signal s \<mapsto> i\<lparr>ev_flags := ev_flags i OR EVLIST_INSERTED\<rparr>)"
    using f(3) by (simp add: s2(3) t1(3) fun_upd_twist)
  moreover have "epfds s2 = epfds t1" "kernel s2 = kernel t1" "active_queue s2 = active_queue t1" "evsignal_caught s2 = evsignal_caught t1"
    "current_base s2 = current_base t1" "evsigevents s2 = evsigevents t1" "sig_links s2 = sig_links t1"
    by (simp_all add: s2(3))
  ultimately show ?thesis using r1(1) s2(1,2) t1(4-9) unfolding e1_def by metis
qed

lemma timer_ok:
  assumes v: "base_view s ins acts tmo" and e: "events s a = Some e" "clear_flags e" and c: "current_base s" "length (active_queue s) = 1"
  shows "\<exists>s1 w s2. event_set s a fd 0 cb arg = Ret s1 \<and> event_add sys s1 a True = Ret (0, s2) \<and> base_view s2 ins acts (tmo @ [a]) \<and>
    events s2 = (events s)(a \<mapsto> (set_event fd 0 cb arg)\<lparr>ev_flags := w\<rparr>) \<and> epfds s2 = epfds s \<and> kernel s2 = kernel s \<and>
    rest_part s2 = rest_part s"
proof -
  define e1 where "e1 = set_event fd 0 cb arg"
  note e1 = set_event_sel [of fd 0 cb arg, folded e1_def]
  define s1 where "s1 = put_event s a e1"
  note r1 = set_ok [OF v e c, of fd 0 cb arg, folded e1_def, folded s1_def]
  have ea: "events s1 a = Some e1" by (simp add: s1_def put_event_def)
  have "\<not> bit (ev_flags e1) 0" "\<not> bit (ev_flags e1) 3" using e1(4) by (simp_all add: clear_flags_def)
  from timer_add [OF r1(2) ea e1(3,2) this, of sys] obtain h l where "let s2 = s1\<lparr>event_count := event_count s1 + 1,
      events := (events s1)(a \<mapsto> e1\<lparr>ev_flags := ev_flags e1 OR EVLIST_TIMEOUT\<rparr>), timeout_queue := h, tmo_links := l\<rparr> in
    event_add sys s1 a True = Ret (0, s2) \<and> base_view s2 ins acts (tmo @ [a])" by blast
  then obtain s2 where s2: "event_add sys s1 a True = Ret (0, s2)" "base_view s2 ins acts (tmo @ [a])"
    "s2 = s1\<lparr>event_count := event_count s1 + 1,
      events := (events s1)(a \<mapsto> e1\<lparr>ev_flags := ev_flags e1 OR EVLIST_TIMEOUT\<rparr>), timeout_queue := h, tmo_links := l\<rparr>"
    by (simp add: Let_def)
  have "events s2 = (events s)(a \<mapsto> e1\<lparr>ev_flags := ev_flags e1 OR EVLIST_TIMEOUT\<rparr>)" "epfds s2 = epfds s" "kernel s2 = kernel s"
    "rest_part s2 = rest_part s" by (simp_all add: s2(3) s1_def put_event_def rest_part_def)
  then show ?thesis using r1(1) s2(1,2) unfolding e1_def by blast
qed

lemma event_set_more [more_kept]: "event_base.more s = y \<Longrightarrow> leaves event_base.more y (event_set s a fd evs cb arg)"
  unfolding event_set_def put_event_def by (intro leaves) simp_all

lemma main_events_more: "leaves event_base.more (event_base.more s) (main_events env sys fd la sa ta s)"
  unfolding main_events_def by (intro leaves more_kept refl) simp_all

lemma main_events_ok:
  assumes "main_ok env sys fd la sa ta s"
  shows "\<exists>s6. main_events env sys fd la sa ta (made_base env s) = Ret s6 \<and> in_loop env fd la sa ta (ev_signal s) s6 \<and>
    event_base.more s6 = event_base.more s \<and> active_queue s6 = [tailq_init] \<and>
    (finite (dom (events s)) \<longrightarrow> finite (dom (events s6)))"
proof -
  let ?m = "made_base env s" and ?ia = "ev_signal s" and ?p = "snd (the (env_pair env))"
  note ok = assms [unfolded main_ok_def]
  have ne: "la \<noteq> sa" "la \<noteq> ta" "sa \<noteq> ta" "la \<noteq> ?ia" "sa \<noteq> ?ia" "ta \<noteq> ?ia" using ok by auto
  have fds: "0 \<le> fd" "fd < nfiles env" "0 \<le> ?p" "?p < nfiles env" "nat ?p \<noteq> nat fd" "2 < env_nsig env" "handler_ok sys 2"
    using ok by auto
  obtain el es et where e0: "events s la = Some el" "events s sa = Some es" "events s ta = Some et" using ok by auto
  have un: "clear_flags el" "clear_flags es" "clear_flags et" and sl: "sa \<in> dom (sig_links s)"
    using ok e0 by (auto simp: at_start_def unlisted_def clear_flags_def)
  have m: "events ?m = (events s)(?ia \<mapsto> internal_event env ?ia)" "active_queue ?m = [tailq_init]" "current_base ?m"
    "epfds ?m = replicate (nat (nfiles env)) (Null, Null)" "kernel ?m = kernel s" "\<not> evsignal_caught ?m" "\<not> ev_signal_added ?m"
    "ev_signal ?m = ?ia" "evsigevents ?m = replicate (env_nsig env) tailq_init" "sa \<in> dom (sig_links ?m)"
    using sl by (simp_all add: made_base_def Let_def domIff)
  have v0: "base_view ?m [] [[]] []" using ok by (intro made_view) simp
  have "\<exists>s1 w s2. event_set ?m la fd (EV_READ OR EV_PERSIST) (new_client_nr env) Null = Ret s1 \<and> event_add sys s1 la False = Ret (0, s2) \<and>
    base_view s2 ([] @ [la]) [[]] [] \<and> events s2 = (events ?m)(la \<mapsto> (set_event fd (EV_READ OR EV_PERSIST) (new_client_nr env) Null)\<lparr>ev_flags := w\<rparr>) \<and>
    epfds s2 = (epfds ?m)[nat fd := (Ptr la, Null)] \<and> ctl_step sys (kernel ?m) (kernel s2) \<and> rest_part s2 = rest_part ?m"
    by (rule listen_ok [OF v0 _ un(1)]) (use e0 ne m fds in simp_all)
  then obtain s1 w s2 where s2: "event_set ?m la fd (EV_READ OR EV_PERSIST) (new_client_nr env) Null = Ret s1"
    "event_add sys s1 la False = Ret (0, s2)" "base_view s2 [la] [[]] []"
    "events s2 = (events ?m)(la \<mapsto> (set_event fd (EV_READ OR EV_PERSIST) (new_client_nr env) Null)\<lparr>ev_flags := w\<rparr>)"
    "epfds s2 = (epfds ?m)[nat fd := (Ptr la, Null)]" "ctl_step sys (kernel s) (kernel s2)" "rest_part s2 = rest_part ?m"
    using m(5) by auto
  have i: "ev_base (internal_event env ?ia)" "ev_events (internal_event env ?ia) = EV_READ OR EV_PERSIST"
    "clear_flags (internal_event env ?ia)" "ev_fd (internal_event env ?ia) = ?p"
    using internal_bits by (simp_all add: internal_event_def clear_flags_def)
  have r2: "sig_links s2 = sig_links ?m" "evsigevents s2 = replicate (env_nsig env) tailq_init" "\<not> ev_signal_added s2" "ev_signal s2 = ?ia"
    "\<not> evsignal_caught s2" "current_base s2" "active_queue s2 = [tailq_init]"
    using s2(7) m by (simp_all add: rest_part_def)
  have "events s2 sa = Some es" "events s2 (ev_signal s2) = Some (internal_event env ?ia)"
    using s2(4) m(1) e0 ne r2(4) by simp_all
  note sg = signal_ok [OF s2(3) this(1) un(2) r2(6) _ this(2) i(1-3), unfolded i(4), where sig = SIGINT]
  have "\<exists>s3 w w' s4. event_set s2 sa SIGINT (EV_SIGNAL OR EV_PERSIST) (sig_cb_nr env) (Ptr sa) = Ret s3 \<and> event_add sys s3 sa False = Ret (0, s4) \<and>
    base_view s4 ([la] @ [ev_signal s2, sa]) [[]] [] \<and>
    events s4 = (events s2)(sa \<mapsto> (set_event SIGINT (EV_SIGNAL OR EV_PERSIST) (sig_cb_nr env) (Ptr sa))\<lparr>ev_flags := w\<rparr>,
      ev_signal s2 \<mapsto> (internal_event env ?ia)\<lparr>ev_flags := w'\<rparr>) \<and>
    epfds s4 = (epfds s2)[nat ?p := (Ptr (ev_signal s2), Null)] \<and> ctl_step sys (kernel s2) (kernel s4) \<and>
    active_queue s4 = active_queue s2 \<and> evsignal_caught s4 = evsignal_caught s2 \<and> current_base s4 = current_base s2 \<and>
    tq_holds (evsigevents s4 ! nat SIGINT, sig_links s4) [sa]"
    by (rule sg) (use r2 s2(5) m(4,10) fds ne in \<open>simp_all add: SIGINT_def\<close>)
  then obtain s3 w2 w3 s4 where s4: "event_set s2 sa SIGINT (EV_SIGNAL OR EV_PERSIST) (sig_cb_nr env) (Ptr sa) = Ret s3"
    "event_add sys s3 sa False = Ret (0, s4)" "base_view s4 [la, ?ia, sa] [[]] []"
    "events s4 = (events s2)(sa \<mapsto> (set_event SIGINT (EV_SIGNAL OR EV_PERSIST) (sig_cb_nr env) (Ptr sa))\<lparr>ev_flags := w2\<rparr>,
      ?ia \<mapsto> (internal_event env ?ia)\<lparr>ev_flags := w3\<rparr>)"
    "epfds s4 = (epfds s2)[nat ?p := (Ptr ?ia, Null)]" "ctl_step sys (kernel s2) (kernel s4)"
    "active_queue s4 = [tailq_init]" "\<not> evsignal_caught s4" "current_base s4" "tq_holds (evsigevents s4 ! 2, sig_links s4) [sa]"
    using r2 by (auto simp: SIGINT_def)
  have "events s4 ta = Some et" using s4(4) s2(4) m(1) e0 ne by simp
  from timer_ok [OF s4(3) this un(3) s4(9), of "-1" "timer_cb_nr env" "Ptr ta" sys] s4(7)
  obtain s5 w4 s6 where s6: "event_set s4 ta (-1) 0 (timer_cb_nr env) (Ptr ta) = Ret s5" "event_add sys s5 ta True = Ret (0, s6)"
    "base_view s6 [la, ?ia, sa] [[]] [ta]" "events s6 = (events s4)(ta \<mapsto> (set_event (-1) 0 (timer_cb_nr env) (Ptr ta))\<lparr>ev_flags := w4\<rparr>)"
    "epfds s6 = epfds s4" "kernel s6 = kernel s4" "rest_part s6 = rest_part s4" by auto
  have "main_events env sys fd la sa ta ?m = Ret s6" using s2(1,2) s4(1,2) s6(1,2) by (simp add: main_events_def)
  moreover have "in_loop env fd la sa ta ?ia s6"
    using s6(3-5,7) s4(4,5,8-10) s2(4,5) m(4) ne by (simp add: in_loop_def rest_part_def set_event_sel)
  moreover have "event_base.more s6 = event_base.more s"
    using leavesD [OF main_events_more calculation(1)] by (simp add: made_base_def Let_def)
  moreover have "active_queue s6 = [tailq_init]" using s6(7) s4(7) by (simp add: rest_part_def)
  moreover have "finite (dom (events s)) \<longrightarrow> finite (dom (events s6))" using s6(4) s4(4) s2(4) m(1) by simp
  ultimately show ?thesis by blast
qed

definition demo_start_env :: start_env where
  "demo_start_env = \<lparr>env_rlimit = Some 9, env_epoll_create = (\<lambda>_. 3), env_base_ok = True, env_eop_ok = True, env_events_ok = True,
     env_fds_ok = True, env_pair = Some (5, 6), env_nsig = 65, evsignal_cb_nr = 90, new_client_nr = 91, sig_cb_nr = 92, timer_cb_nr = 93\<rparr>"

definition demo_links :: "entry store" where
  "demo_links = [1 \<mapsto> zero_entry, 2 \<mapsto> zero_entry, 3 \<mapsto> zero_entry]"

definition demo_start :: "call list event_base" where
  "demo_start = demo_base\<lparr>events := [1 \<mapsto> zero_event, 2 \<mapsto> zero_event, 3 \<mapsto> zero_event], ins_links := demo_links,
     act_links := demo_links, tmo_links := demo_links, sig_links := demo_links, current_base := False, ev_signal := 9\<rparr>"

definition demo_listen :: listen_env where
  "demo_listen = \<lparr>le_socket = 4, le_nonblock = True, le_bind = True, le_listen = True\<rparr>"

end
