(* ===== verification/Ev_Bufev_Props.thy ===== *)
theory Ev_Bufev_Props
  imports Ev_Bufev Ev_Props
begin

section \<open>my\_event: properties of buffered events\<close>

text \<open>
  What the two callbacks of a \<open>bufferevent\<close> do to its buffers, to its events and to the user.
\<close>

subsection \<open>A concrete connection\<close>

definition demo_net :: "call list net" where
  "demo_net = \<lparr>net_avail = (\<lambda>_ _. Some 2), net_recv = (\<lambda>_ _ n. Some (take (nat n) [104, 105])),
     net_send = (\<lambda>_ _ bs. min 3 (int (length bs))), net_errno = (\<lambda>_. Other_errno), net_next = id, net_realloc = (\<lambda>_ _. True)\<rparr>"

definition demo_bufev :: bufev where
  "demo_bufev = \<lparr>be_read = 1, be_write = 2, be_input = evbuffer_new, be_output = \<lparr>ev_mem = [1, 2, 3, 4], misalign = 0,
     totallen = 4, ev_off = 4\<rparr>, wm_read = \<lparr>wm_low = 0, wm_high = 0\<rparr>, wm_write = \<lparr>wm_low = 0, wm_high = 0\<rparr>,
     be_readcb = Some 7, be_writecb = Some 8, be_errorcb = None, be_cbarg = Null, timeout_read = 0, timeout_write = 0, enabled = EV_WRITE\<rparr>"

definition demo_conn :: "bufev \<Rightarrow> call list bev_base" where
  "demo_conn v = event_base.extend demo_base \<lparr>bufevs = [9 \<mapsto> v]\<rparr>"

definition demo_user :: "call list bev_cbs" where
  "demo_user f b what arg s = Ret (s\<lparr>kernel := kernel s @ [(f, int b, 0, arg)]\<rparr>)"

lemma conn_fields [simp]:
  "events (demo_conn v) = events demo_base" "kernel (demo_conn v) = []" "bufevs (demo_conn v) = [9 \<mapsto> v]"
  "epfds (demo_conn v) = epfds demo_base" "frames (demo_conn v) = Map.empty"
  by (simp_all add: demo_conn_def event_base.defs demo_base_def)

lemma conn_view: "base_view (demo_conn v) [] [[]] []"
  using demo_view by (simp add: base_view_def demo_conn_def event_base.defs)

lemma conn_ready: "schedulable (demo_conn v) 1" "schedulable (demo_conn v) 2" "off_queue (demo_conn v) 1" "off_queue (demo_conn v) 2"
  by (simp_all add: schedulable_def off_queue_def calls_live_def demo_base_def demo_event_def
      EV_READ_def EV_WRITE_def EV_PERSIST_def EV_SIGNAL_def)

lemmas conn_ready_simps [simp] = conn_ready conn_ready [unfolded One_nat_def]

lemma conn_room: "read_room v = -1 \<Longrightarrow> be_input v = evbuffer_new \<Longrightarrow> recv_ok demo_net fd k v [104, 105]"
  by (simp add: recv_ok_def recv_room_def read_size_def demo_net_def new_evbuf_ok(1) evbuffer_new_def
      new_evbuf_ok(1) [unfolded evbuffer_new_def])

subsection \<open>Reading\<close>

text \<open>
  C30. A read event without watermarks: the bytes that recv returns are appended to the input
  buffer, the read event is put back on the inserted queue, and readcb is called once, after
  both.
\<close>

theorem read_delivers:
  assumes "base_view s ins acts tmo" "bufevs s b = Some v" "schedulable s (be_read v)" "off_queue s (be_read v)"
    "ev \<noteq> EV_TIMEOUT" "wm_read v = \<lparr>wm_low = 0, wm_high = 0\<rparr>" "recv_ok net fd (kernel s) v bs" "be_readcb v = Some f"
  shows "\<exists>s2 buf ins2 acts2 tmo2. bufferevent_readcb sys net usr fd ev b s = usr f b None (be_cbarg v) s2 \<and>
    bufevs s2 b = Some (v\<lparr>be_input := buf\<rparr>) \<and> ev_contents buf = ev_contents (be_input v) @ bs \<and>
    base_view s2 ins2 acts2 tmo2 \<and> be_read v \<in> set ins2"
proof -
  have w: "wm_low (wm_read v) = 0" "wm_high (wm_read v) = 0" using assms(6) by simp_all
  then show ?thesis
    using readcb_ok [OF assms(1,2,3,5) _ assms(7), of sys usr] assms(4,8) unfolding w by (fastforce simp: call_opt_def)
qed

theorem read_delivers_witness:
  "\<exists>s v. bufferevent_readcb demo_sys demo_net demo_user 0 EV_READ 9 (demo_conn demo_bufev) = demo_user 7 9 None Null s \<and>
    bufevs s 9 = Some v \<and> ev_contents (be_input v) = [104, 105]"
proof -
  let ?s = "demo_conn demo_bufev"
  have "\<exists>s2 buf ins2 acts2 tmo2. bufferevent_readcb demo_sys demo_net demo_user 0 EV_READ 9 ?s
      = demo_user 7 9 None (be_cbarg demo_bufev) s2 \<and> bufevs s2 9 = Some (demo_bufev\<lparr>be_input := buf\<rparr>) \<and>
      ev_contents buf = ev_contents (be_input demo_bufev) @ [104, 105] \<and> base_view s2 ins2 acts2 tmo2 \<and> be_read demo_bufev \<in> set ins2"
    by (rule read_delivers [OF conn_view])
      (simp_all add: conn_ready conn_room read_room_def demo_bufev_def EV_READ_def EV_TIMEOUT_def)
  then show ?thesis by (auto simp: demo_bufev_def new_evbuf_ok)
qed

text \<open>
  A high watermark for reading stops the connection: the code compares the length of the
  input with the high watermark for writing, so when that is zero any successful read takes the
  read event out of every queue, though the input is below the mark; evbuffer_setcb, which
  should resume it, has an empty body.
\<close>

theorem watermark_stops_reading:
  assumes "base_view s ins acts tmo" "bufevs s b = Some v" "schedulable s (be_read v)" "ev \<noteq> EV_TIMEOUT"
    "wm_low (wm_read v) = 0" "wm_high (wm_read v) \<noteq> 0" "wm_high (wm_write v) = 0" "0 < read_room v"
    "recv_ok net fd (kernel s) v bs" "be_readcb v = Some f"
  shows "\<exists>s2 buf ins2 acts2 tmo2. bufferevent_readcb sys net usr fd ev b s = usr f b None (be_cbarg v) s2 \<and>
    bufevs s2 b = Some (v\<lparr>be_input := buf\<rparr>) \<and> ev_contents buf = ev_contents (be_input v) @ bs \<and>
    base_view s2 ins2 acts2 tmo2 \<and> be_read v \<notin> set ins2 \<and> be_read v \<notin> set tmo2"
proof -
  obtain s2 buf ins' acts' tmo' where s2: "bufferevent_readcb sys net usr fd ev b s =
      lbind (no_result (event_del sys s2 (be_read v))) (call_opt usr (be_readcb v) b None (be_cbarg v))"
    "ev_contents buf = ev_contents (be_input v) @ bs" "bufevs s2 b = Some (v\<lparr>be_input := buf\<rparr>)"
    "base_view s2 ins' acts' tmo'" "schedulable s2 (be_read v)"
    using readcb_ok [OF assms(1-4) _ assms(9), of sys usr] assms(5-8) by auto
  obtain s3 acts3 where s3: "no_result (event_del sys s2 (be_read v)) = Ret s3"
    "base_view s3 (remove1 (be_read v) ins') acts3 (remove1 (be_read v) tmo')" "bufevs s3 = bufevs s2"
    "be_read v \<notin> set (remove1 (be_read v) ins')" "be_read v \<notin> set (remove1 (be_read v) tmo')"
    using unschedule_ok [OF s2(4,5), of sys] by blast
  have run: "bufferevent_readcb sys net usr fd ev b s = usr f b None (be_cbarg v) s3"
    using s2(1) s3(1) assms(10) by (simp add: call_opt_def)
  show ?thesis using run s2(2,3) s3(2-5) by metis
qed

definition demo_marked :: bufev where
  "demo_marked = demo_bufev\<lparr>wm_read := \<lparr>wm_low = 0, wm_high = 1000\<rparr>\<rparr>"

theorem watermark_stops_reading_witness:
  "\<exists>s v ins acts tmo. bufferevent_readcb demo_sys demo_net demo_user 0 EV_READ 9 (demo_conn demo_marked) = demo_user 7 9 None Null s \<and>
    bufevs s 9 = Some v \<and> ev_contents (be_input v) = [104, 105] \<and> wm_high (wm_read v) = 1000 \<and>
    base_view s ins acts tmo \<and> 1 \<notin> set ins \<and> 1 \<notin> set tmo"
proof -
  let ?s = "demo_conn demo_marked"
  have room: "read_room demo_marked = 1000"
    by (simp add: read_room_def demo_marked_def demo_bufev_def evbuffer_new_def)
  have r: "recv_ok demo_net 0 (kernel ?s) demo_marked [104, 105]"
    unfolding recv_ok_def recv_room_def room
    by (simp add: read_size_def demo_net_def demo_marked_def demo_bufev_def new_evbuf_ok(1) evbuffer_new_def
        new_evbuf_ok(1) [unfolded evbuffer_new_def])
  have "\<exists>s2 buf ins2 acts2 tmo2. bufferevent_readcb demo_sys demo_net demo_user 0 EV_READ 9 ?s
      = demo_user 7 9 None (be_cbarg demo_marked) s2 \<and> bufevs s2 9 = Some (demo_marked\<lparr>be_input := buf\<rparr>) \<and>
      ev_contents buf = ev_contents (be_input demo_marked) @ [104, 105] \<and> base_view s2 ins2 acts2 tmo2 \<and>
      be_read demo_marked \<notin> set ins2 \<and> be_read demo_marked \<notin> set tmo2"
    by (rule watermark_stops_reading [OF conn_view])
      (use conn_ready r room in \<open>simp_all add: demo_marked_def demo_bufev_def EV_READ_def EV_TIMEOUT_def\<close>)
  then obtain s v ins acts tmo where "bufferevent_readcb demo_sys demo_net demo_user 0 EV_READ 9 ?s
      = demo_user 7 9 None (be_cbarg demo_marked) s" "bufevs s 9 = Some (demo_marked\<lparr>be_input := v\<rparr>)"
    "ev_contents v = ev_contents (be_input demo_marked) @ [104, 105]" "base_view s ins acts tmo"
    "be_read demo_marked \<notin> set ins" "be_read demo_marked \<notin> set tmo" by blast
  then show ?thesis
    by (intro exI [of _ s] exI [of _ "demo_marked\<lparr>be_input := v\<rparr>"] exI [of _ ins] exI [of _ acts] exI [of _ tmo])
      (simp add: demo_marked_def demo_bufev_def new_evbuf_ok)
qed

subsection \<open>Writing\<close>

text \<open>
  C31. A write event with bytes pending, of which send accepts n: they leave the front of the
  output buffer, the write event is queued again when bytes are left, and writecb is called once.
\<close>

theorem write_sends:
  assumes "base_view s ins acts tmo" "bufevs s b = Some v" "schedulable s (be_write v)" "off_queue s (be_write v)"
    "ev \<noteq> EV_TIMEOUT" "evbuf_ok (be_output v)" "ev_off (be_output v) \<noteq> 0"
    "net_send net fd (kernel s) (ev_contents (be_output v)) = int n" "0 < n" "be_writecb v = Some f"
  shows "\<exists>s2 buf ins2 acts2 tmo2. bufferevent_writecb sys net usr fd ev b s = usr f b None (be_cbarg v) s2 \<and>
    bufevs s2 b = Some (v\<lparr>be_output := buf\<rparr>) \<and> ev_contents buf = drop n (ev_contents (be_output v)) \<and>
    base_view s2 ins2 acts2 tmo2 \<and> (ev_contents buf \<noteq> [] \<longrightarrow> be_write v \<in> set ins2)"
  using writecb_ok [OF assms(1-3,5-9), of sys usr] assms(4,10) by (fastforce simp: call_opt_def)

theorem write_sends_witness:
  "\<exists>s v. bufferevent_writecb demo_sys demo_net demo_user 0 EV_WRITE 9 (demo_conn demo_bufev) = demo_user 8 9 None Null s \<and>
    bufevs s 9 = Some v \<and> ev_contents (be_output v) = [4]"
proof -
  have "\<exists>s2 buf ins2 acts2 tmo2. bufferevent_writecb demo_sys demo_net demo_user 0 EV_WRITE 9 (demo_conn demo_bufev)
      = demo_user 8 9 None (be_cbarg demo_bufev) s2 \<and> bufevs s2 9 = Some (demo_bufev\<lparr>be_output := buf\<rparr>) \<and>
      ev_contents buf = drop 3 (ev_contents (be_output demo_bufev)) \<and> base_view s2 ins2 acts2 tmo2 \<and>
      (ev_contents buf \<noteq> [] \<longrightarrow> be_write demo_bufev \<in> set ins2)"
    by (rule write_sends [OF conn_view])
      (simp_all add: conn_ready demo_bufev_def demo_net_def evbuf_ok_def ev_contents_def EV_WRITE_def EV_TIMEOUT_def)
  then show ?thesis by (auto simp: demo_bufev_def ev_contents_def)
qed

text \<open>
  bufferevent_write appends the data to the output buffer when memory suffices and, when
  writing is enabled, queues the write event; the other connections are not touched.
\<close>

theorem write_queues:
  assumes "base_view s ins acts tmo" "bufevs s b = Some v" "schedulable s (be_write v)" "off_queue s (be_write v)"
    "evbuf_ok (be_output v)" "totallen (be_output v) < 2 ^ 64"
    "misalign (be_output v) + ev_off (be_output v) + length data \<le> 2 ^ 63" "\<forall>n. net_realloc net (kernel s) n"
    "data \<noteq> []" "enabled v AND EV_WRITE \<noteq> 0"
  shows "\<exists>s2 buf ins2 acts2 tmo2. bufferevent_write sys net b data s = Ret (0, s2) \<and>
    bufevs s2 = (bufevs s)(b \<mapsto> v\<lparr>be_output := buf\<rparr>) \<and> ev_contents buf = ev_contents (be_output v) @ data \<and>
    base_view s2 ins2 acts2 tmo2 \<and> be_write v \<in> set ins2"
proof -
  obtain buf where buf: "evbuffer_add 0 (net_realloc net (kernel s)) (be_output v) data = Some (0, buf)"
    using add_total [OF assms(5,7,8)] by blast
  have c: "ev_contents buf = ev_contents (be_output v) @ data"
    using add_ok [OF assms(5,6) _ buf] assms(7) by simp
  let ?s1 = "put_bufev s b (v\<lparr>be_output := buf\<rparr>)"
  have "base_view ?s1 ins acts tmo" "schedulable ?s1 (be_write v)" using assms(1,3) by simp_all
  from schedule_ok [OF this, of sys "timeout_write v"]
  obtain s2 ins2 acts2 tmo2 where s2: "no_result (bufferevent_add sys ?s1 (be_write v) (timeout_write v)) = Ret s2"
    "base_view s2 ins2 acts2 tmo2" "bufevs s2 = bufevs ?s1" "be_write v \<in> set ins2" using assms(4) by auto
  have "bufferevent_write sys net b data s = Ret (0, s2)"
    using assms(2,9,10) buf s2(1) by (simp add: bufferevent_write_def Let_def)
  moreover have "bufevs s2 = (bufevs s)(b \<mapsto> v\<lparr>be_output := buf\<rparr>)" using s2(3) by (simp add: put_bufev_def)
  ultimately show ?thesis using c s2(2,4) by blast
qed

theorem write_queues_witness:
  "\<exists>s v. bufferevent_write demo_sys demo_net 9 [5, 6] (demo_conn demo_bufev) = Ret (0, s) \<and>
    bufevs s 9 = Some v \<and> ev_contents (be_output v) = [1, 2, 3, 4, 5, 6]"
proof -
  have "\<exists>s2 buf ins2 acts2 tmo2. bufferevent_write demo_sys demo_net 9 [5, 6] (demo_conn demo_bufev) = Ret (0, s2) \<and>
    bufevs s2 = (bufevs (demo_conn demo_bufev))(9 \<mapsto> demo_bufev\<lparr>be_output := buf\<rparr>) \<and>
    ev_contents buf = ev_contents (be_output demo_bufev) @ [5, 6] \<and> base_view s2 ins2 acts2 tmo2 \<and> be_write demo_bufev \<in> set ins2"
    by (rule write_queues [OF conn_view])
      (simp_all add: conn_ready demo_bufev_def demo_net_def evbuf_ok_def EV_WRITE_def)
  then show ?thesis by (fastforce simp: demo_bufev_def ev_contents_def)
qed

text \<open>
  The write callback does not test errorcb: when send fails for good, reports the end of
  the connection, or the event timed out, a connection without an error callback calls a null
  pointer.
\<close>

theorem null_errorcb_called:
  assumes "bufevs s b = Some v" "be_errorcb v = None"
    "ev = EV_TIMEOUT \<or> ev_off (be_output v) \<noteq> 0 \<and> (net_send net fd (kernel s) (ev_contents (be_output v)) = 0 \<or>
       net_send net fd (kernel s) (ev_contents (be_output v)) = -1 \<and> net_errno net (net_next net (kernel s)) = Other_errno)"
  shows "bufferevent_writecb sys net usr fd ev b s = Fault"
  using assms by (auto simp: bufferevent_writecb_def evbuffer_write_def Let_def)

theorem null_errorcb_called_witness:
  "bufferevent_writecb demo_sys demo_net demo_user 0 EV_TIMEOUT 9 (demo_conn demo_bufev) = Fault"
  by (rule null_errorcb_called [of _ _ demo_bufev]) (simp_all add: demo_bufev_def)

end
