(* ===== verification/Ev_Server.thy ===== *)
theory Ev_Server
  imports Ev_Start Ev_Bufev_Props
begin

section \<open>my\_event: the callbacks of the example server\<close>

text \<open>
  \<open>new_client\<close>, \<open>client_readcb\<close>, \<open>client_writecb\<close> and \<open>client_errorcb\<close> of
  \<open>cs/my_event/main.c\<close>; the first is \<open>accept_client\<close> here.  \<open>accept\<close> and \<open>close\<close> act on the kernel; making the new descriptor
  non-blocking changes nothing here.  The user's callbacks are the numbers 0 (\<open>client_readcb\<close>),
  1 (\<open>client_writecb\<close>) and 2 (\<open>client_errorcb\<close>).
\<close>

definition client_readcb :: "nat \<Rightarrow> 'k bev_base \<Rightarrow> 'k bev_base lres" where
  "client_readcb b s = Ret s"

definition client_writecb :: "nat \<Rightarrow> 'k bev_base \<Rightarrow> 'k bev_base lres" where
  "client_writecb b s = Ret s"

definition client_errorcb ::
  "'k sys \<Rightarrow> 'k net \<Rightarrow> (int \<Rightarrow> 'k \<Rightarrow> 'k) \<Rightarrow> nat \<Rightarrow> 'k bev_base \<Rightarrow> 'k bev_base lres" where
  "client_errorcb sys net close b s = fetch (bufevs s b) (\<lambda>v. fetch (events s (be_write v)) (\<lambda>e.
     let fd = ev_fd e; len = sint (word_of_int (int (ev_off (be_output v))) :: 32 word) in
     lbind (if len > 0 then
              (let (n, buf) = evbuffer_write (net_send net fd (kernel s)) (be_output v);
                   s1 = put_bufev (s\<lparr>kernel := net_next net (kernel s)\<rparr>) b (v\<lparr>be_output := buf\<rparr>) in
               if n \<noteq> len then Raise else Ret s1)
            else Ret s) (\<lambda>s1.
     lbind (bufferevent_free sys b s1) (\<lambda>s2. Ret (s2\<lparr>kernel := close fd (kernel s2)\<rparr>)))))"

definition client_cbs :: "'k sys \<Rightarrow> 'k net \<Rightarrow> (int \<Rightarrow> 'k \<Rightarrow> 'k) \<Rightarrow> 'k bev_cbs" where
  "client_cbs sys net close f b what arg s =
     (if f = 0 then client_readcb b s else if f = 1 then client_writecb b s
      else if f = 2 then client_errorcb sys net close b s else Fault)"

definition accept_client ::
  "'k sys \<Rightarrow> (int \<Rightarrow> 'k \<Rightarrow> int \<times> 'k) \<Rightarrow> (nat \<times> nat \<times> nat) option \<Rightarrow> bool \<Rightarrow> bool \<Rightarrow> int \<Rightarrow> 'k bev_base \<Rightarrow> 'k bev_base lres" where
  "accept_client sys accept mem in_ok out_ok fd s =
     (let (user_fd, k) = accept fd (kernel s); s1 = s\<lparr>kernel := k\<rparr> in
      if user_fd < 0 then Ret s1
      else lbind (bufferevent_new mem in_ok out_ok user_fd (Some 0) None (Some 2) Null s1) (\<lambda>(p, s2).
        case p of Ptr b \<Rightarrow> no_result (bufferevent_enable sys b (EV_READ OR EV_WRITE) s2) | _ \<Rightarrow> Fault))"

subsection \<open>Making and freeing events\<close>

lemma flagged_other: "evs a = None \<Longrightarrow> \<not> bit (ev_flags e) n \<Longrightarrow> flagged (evs(a \<mapsto> e)) n = flagged evs n"
  by (auto simp: flagged_def)

lemma alloc_view:
  assumes "base_view s ins acts tmo" "events s a = None"
  shows "base_view (alloc_event a s) ins acts tmo"
proof -
  have f: "flagged ((events s)(a \<mapsto> zero_event)) n = flagged (events s) n" for n
    by (rule flagged_other) (simp_all add: assms(2) zero_event_def)
  have p: "at_priority ((events s)(a \<mapsto> zero_event)) i = at_priority (events s) i" for i
    using assms(2) by (auto simp: at_priority_def zero_event_def)
  have c: "b \<in> dom (events s)" if "b \<in> flagged (events s) n" for b n using that by (auto simp: flagged_def)
  have cp: "b \<in> dom (events s)" if "b \<in> at_priority (events s) n" for b n using that by (auto simp: at_priority_def)
  have na: "a \<notin> dom (events s)" using assms(2) by auto
  have l: "list_view ((events s)(a \<mapsto> zero_event)) (h, k(a \<mapsto> zero_entry)) n as" if "list_view (events s) (h, k) n as" for h k n as
  proof -
    have "tq_holds (h, k(a \<mapsto> zero_entry)) as"
      by (rule tq_holds_cong [of _ k]) (use that na c in \<open>auto simp: list_view_def\<close>)
    then show ?thesis using that by (simp add: list_view_def f)
  qed
  have "active_view ((events s)(a \<mapsto> zero_event)) (active_queue s) ((act_links s)(a \<mapsto> zero_entry)) acts"
  proof -
    have v: "active_view (events s) (active_queue s) (act_links s) acts" using assms(1) by (simp add: base_view_def)
    have "tq_holds (active_queue s ! i, (act_links s)(a \<mapsto> zero_entry)) (acts ! i)" if "i < length (active_queue s)" for i
      by (rule tq_holds_cong [of _ "act_links s"]) (use v that na cp in \<open>auto simp: active_view_def\<close>)
    moreover have "\<not> bit (ev_flags zero_event) 3" by (simp add: zero_event_def)
    ultimately show ?thesis using v by (auto simp: active_view_def p)
  qed
  then show ?thesis using assms(1) l by (simp add: base_view_def alloc_event_def)
qed

lemma free_view:
  assumes "base_view s ins acts tmo" "a \<notin> set ins" "a \<notin> set tmo" "\<forall>as \<in> set acts. a \<notin> set as"
  shows "base_view (free_event a s) ins acts tmo"
proof -
  have l: "list_view ((events s)(a := None)) (h, k(a := None)) n as" if "list_view (events s) (h, k) n as" "a \<notin> set as" for h k n as
  proof -
    have "tq_holds (h, k(a := None)) as" by (rule tq_holds_cong [of _ k]) (use that in \<open>auto simp: list_view_def\<close>)
    moreover have "flagged ((events s)(a := None)) n = flagged (events s) n - {a}" by (auto simp: flagged_def)
    ultimately show ?thesis using that by (auto simp: list_view_def)
  qed
  have "active_view ((events s)(a := None)) (active_queue s) ((act_links s)(a := None)) acts"
  proof -
    have v: "active_view (events s) (active_queue s) (act_links s) acts" using assms(1) by (simp add: base_view_def)
    have m: "a \<notin> set (acts ! i)" if "i < length (active_queue s)" for i using bspec [OF assms(4) nth_mem [of i acts]] v that by (simp add: active_view_def)
    have "at_priority ((events s)(a := None)) i = at_priority (events s) i - {a}" for i by (auto simp: at_priority_def)
    moreover have "tq_holds (active_queue s ! i, (act_links s)(a := None)) (acts ! i)" if "i < length (active_queue s)" for i
      by (rule tq_holds_cong [of _ "act_links s"]) (use v m that in \<open>auto simp: active_view_def\<close>)
    ultimately show ?thesis using v m by (auto simp: active_view_def)
  qed
  then show ?thesis using assms(1-3) l by (simp add: base_view_def free_event_def)
qed

lemma kernel_epfds_eq:
  assumes "s\<lparr>kernel := k, epfds := p\<rparr> = s\<lparr>kernel := k', epfds := p'\<rparr>"
  shows "k' = k \<and> p' = p"
  using arg_cong [where f = kernel, OF assms] arg_cong [where f = epfds, OF assms] by simp

text \<open>What \<open>epoll_add\<close> makes of the table and the kernel for a reader and for a writer.\<close>

lemma reader_slot:
  assumes "epoll_add_fd sys s a = Ret (0, s\<lparr>kernel := k, epfds := p\<rparr>)" "events s a = Some e" "0 \<le> ev_fd e"
    "ev_fd e < int (length (epfds s))" "wants e EV_READ" "\<not> wants e EV_WRITE"
  shows "length p = length (epfds s) \<and> (\<forall>i. i \<noteq> nat (ev_fd e) \<longrightarrow> p ! i = epfds s ! i) \<and>
    (epfds s ! nat (ev_fd e) = (Null, Null) \<longrightarrow> p = (epfds s)[nat (ev_fd e) := (Ptr a, Null)] \<and>
       k = snd (sys_ctl sys Ctl_add (ev_fd e) (Some EPOLLIN) (kernel s)))"
  using assms by (auto simp: epoll_add_fd_def Let_def dest!: kernel_epfds_eq)

lemma writer_slot:
  assumes "epoll_add_fd sys s a = Ret (0, s\<lparr>kernel := k, epfds := p\<rparr>)" "events s a = Some e" "0 \<le> ev_fd e"
    "ev_fd e < int (length (epfds s))" "wants e EV_WRITE" "\<not> wants e EV_READ"
  shows "length p = length (epfds s) \<and> (\<forall>i. i \<noteq> nat (ev_fd e) \<longrightarrow> p ! i = epfds s ! i) \<and>
    (epfds s ! nat (ev_fd e) = (Ptr r, Null) \<longrightarrow> p = (epfds s)[nat (ev_fd e) := (Ptr r, Ptr a)] \<and>
       k = snd (sys_ctl sys Ctl_mod (ev_fd e) (Some (EPOLLIN OR EPOLLOUT)) (kernel s)))"
  using assms by (auto simp: epoll_add_fd_def Let_def dest!: kernel_epfds_eq)

lemma add_desc:
  assumes v: "base_view s ins acts tmo" and e: "events s a = Some e" "ev_base e" "clear_flags e"
    and w: "wants e (EV_READ OR EV_WRITE OR EV_SIGNAL)" "\<not> wants e EV_SIGNAL" and fd: "0 \<le> ev_fd e" "ev_fd e < int (length (epfds s))"
  shows "\<exists>h l k p. epoll_add_fd sys s a = Ret (0, s\<lparr>kernel := k, epfds := p\<rparr>) \<and> (let s' = s\<lparr>kernel := k, epfds := p,
      event_count := event_count s + 1, events := (events s)(a \<mapsto> e\<lparr>ev_flags := ev_flags e OR EVLIST_INSERTED\<rparr>),
      inserted_queue := h, ins_links := l\<rparr> in
    event_add sys s a False = Ret (0, s') \<and> base_view s' (ins @ [a]) acts tmo)"
proof -
  have "epoll_add_fd sys s a = epoll_add sys s a" using e(1) w(2) by (simp add: epoll_add_def)
  moreover have "\<exists>p k. epoll_add_fd sys s a = Ret (0, s\<lparr>kernel := k, epfds := p\<rparr>)"
  proof -
    have c: "(ev_fd e \<ge> int (length (epfds s))) = False" "(ev_fd e < 0) = False" using fd by simp_all
    show ?thesis unfolding epoll_add_fd_def e(1) fetch_simps c if_False Let_def by (intro exI, rule refl)
  qed
  ultimately obtain p k where k: "epoll_add_fd sys s a = Ret (0, s\<lparr>kernel := k, epfds := p\<rparr>)"
    "epoll_add sys s a = Ret (0, s\<lparr>kernel := k, epfds := p\<rparr>)" by auto
  let ?t = "s\<lparr>kernel := k, epfds := p\<rparr>"
  have "\<not> bit (ev_flags e) 1" "\<not> bit (ev_flags e) 3" "base_view ?t ins acts tmo" "events ?t a = Some e"
    using v e by (simp_all add: clear_flags_def)
  from add_inserted [where add = "epoll_add sys", OF v e(1,2) w(1) this(1,2) k(2) this(3,4)]
  obtain h l where "let s2 = ?t\<lparr>event_count := event_count ?t + 1,
      events := (events ?t)(a \<mapsto> e\<lparr>ev_flags := ev_flags e OR EVLIST_INSERTED\<rparr>), inserted_queue := h, ins_links := l\<rparr> in
    event_add_by (epoll_add sys) s a False = Ret (0, s2) \<and> base_view s2 (ins @ [a]) acts tmo" by blast
  then show ?thesis using k(1)
    by (intro exI [of _ h] exI [of _ l] exI [of _ k] exI [of _ p]) (simp add: event_add_def Let_def)
qed

text \<open>Deleting an event that is on the inserted queue only, with no call under way.\<close>

lemma del_desc:
  assumes v: "base_view s ins acts tmo" and e: "events s a = Some e" "ev_base e" "ev_ncalls e = 0"
    "\<not> bit (ev_flags e) 0" "bit (ev_flags e) 1" "\<not> bit (ev_flags e) 3"
  shows "\<exists>h l. let s' = s\<lparr>event_count := event_count s - 1,
      events := (events s)(a \<mapsto> e\<lparr>ev_flags := ev_flags e AND NOT EVLIST_INSERTED\<rparr>), inserted_queue := h, ins_links := l\<rparr> in
    event_del sys s a = epoll_del sys s' a \<and> base_view s' (remove1 a ins) acts tmo"
proof -
  obtain h l s' where s': "event_queue_remove s a EVLIST_INSERTED = Ret s'" "base_view s' (remove1 a ins) acts tmo"
    "s' = s\<lparr>event_count := event_count s - 1, events := (events s)(a \<mapsto> e\<lparr>ev_flags := ev_flags e AND NOT EVLIST_INSERTED\<rparr>),
      inserted_queue := h, ins_links := l\<rparr>"
    using remove_inserted [OF v e(1,5)] by blast
  have "event_del sys s a = epoll_del sys s' a"
    using e s'(1) by (simp add: event_del_def event_del_by_def cancel_calls_def remove_if_listed_def)
  then show ?thesis using s'(2,3) by (intro exI [of _ h] exI [of _ l]) (simp add: Let_def)
qed

subsection \<open>The life of a connection\<close>

text \<open>The events of a connection after \<open>bufferevent_enable\<close>, and its \<open>bufferevent\<close>.\<close>

definition conn_event :: "int \<Rightarrow> 16 word \<Rightarrow> nat \<Rightarrow> nat \<Rightarrow> event" where
  "conn_event u evs cb b = (set_event u evs cb (Ptr b))\<lparr>ev_flags := EVLIST_INIT OR EVLIST_INSERTED\<rparr>"

definition conn_bufev :: "nat \<Rightarrow> nat \<Rightarrow> bufev" where
  "conn_bufev r w = \<lparr>be_read = r, be_write = w, be_input = evbuffer_new, be_output = evbuffer_new,
     wm_read = \<lparr>wm_low = 0, wm_high = 0\<rparr>, wm_write = \<lparr>wm_low = 0, wm_high = 0\<rparr>, be_readcb = Some 0, be_writecb = None,
     be_errorcb = Some 2, be_cbarg = Null, timeout_read = 0, timeout_write = 0, enabled = EV_READ OR EV_WRITE\<rparr>"

text \<open>What the loop does not see of a change: everything but the queues, the tables and the kernel.\<close>

definition loop_part where
  "loop_part s = (evsignal_caught s, current_base s, active_queue s, frames s, next_frame s, ev_signal s)"

lemma conn_event_sel: "ev_fd (conn_event u evs cb b) = u" "ev_events (conn_event u evs cb b) = evs" "ev_base (conn_event u evs cb b)"
  "ev_ncalls (conn_event u evs cb b) = 0" "\<not> bit (ev_flags (conn_event u evs cb b)) 0" "bit (ev_flags (conn_event u evs cb b)) 1"
  "\<not> bit (ev_flags (conn_event u evs cb b)) 3" "ev_pri (conn_event u evs cb b) = 0"
  by (simp_all add: conn_event_def set_event_def bit_or_iff)

lemma conn_event_added: "(set_event u evs cb (Ptr b))\<lparr>ev_flags := ev_flags (set_event u evs cb (Ptr b)) OR EVLIST_INSERTED\<rparr> =
  conn_event u evs cb b"
  by (simp add: conn_event_def set_event_def)

text \<open>A pair of a read and a write event, in the way that \<open>bufferevent_new\<close> makes it and \<open>bufferevent_enable\<close> adds it.\<close>

lemma accept_client_ok:
  assumes v: "base_view s ins acts tmo" and c: "current_base s" "length (active_queue s) = 1"
    and acc: "accept fd (kernel s) = (u, k)" "0 \<le> u" "u < int (length (epfds s))"
    and new: "bufevs s b = None" "events s r = None" "events s w = None" "r \<noteq> w"
  shows "\<exists>s'. accept_client sys accept (Some (b, r, w)) True True fd s = Ret s' \<and> base_view s' (ins @ [r, w]) acts tmo \<and>
    events s' = (events s)(r \<mapsto> conn_event u EV_READ 0 b, w \<mapsto> conn_event u EV_WRITE 1 b) \<and>
    bufevs s' = (bufevs s)(b \<mapsto> conn_bufev r w) \<and> loop_part s' = loop_part s \<and>
    length (epfds s') = length (epfds s) \<and> (\<forall>i. i \<noteq> nat u \<longrightarrow> epfds s' ! i = epfds s ! i) \<and>
    (epfds s ! nat u = (Null, Null) \<longrightarrow> epfds s' = (epfds s)[nat u := (Ptr r, Ptr w)] \<and>
       kernel s' = snd (sys_ctl sys Ctl_mod u (Some (EPOLLIN OR EPOLLOUT)) (snd (sys_ctl sys Ctl_add u (Some EPOLLIN) k))))"
proof -
  define t0 where "t0 = alloc_event w (alloc_event r (s\<lparr>kernel := k\<rparr>))"
  have v0: "base_view t0 ins acts tmo" unfolding t0_def using v new by (intro alloc_view) (simp_all add: alloc_event_def)
  have f0: "events t0 = (events s)(r \<mapsto> zero_event, w \<mapsto> zero_event)" "current_base t0" "length (active_queue t0) = 1"
    "epfds t0 = epfds s" "bufevs t0 = bufevs s" "kernel t0 = k" "loop_part t0 = loop_part s"
    using c by (simp_all add: t0_def alloc_event_def loop_part_def)
  have z: "clear_flags zero_event" by (simp add: clear_flags_def zero_event_def)
  define er where "er = set_event u EV_READ 0 (Ptr b)"
  define ew where "ew = set_event u EV_WRITE 1 (Ptr b)"
  define t1 where "t1 = put_event t0 r er"
  have r1: "event_set t0 r u EV_READ 0 (Ptr b) = Ret t1" "base_view t1 ins acts tmo"
    using set_ok [OF v0 _ z f0(2,3), of r u EV_READ 0 "Ptr b"] f0(1) new(4) by (simp_all add: t1_def er_def)
  define t2 where "t2 = put_event t1 w ew"
  have f1: "events t1 w = Some zero_event" "current_base t1" "length (active_queue t1) = 1"
    using f0 new(4) by (simp_all add: t1_def put_event_def)
  have r2: "event_set t1 w u EV_WRITE 1 (Ptr b) = Ret t2" "base_view t2 ins acts tmo"
    using set_ok [OF r1(2) f1(1) z f1(2,3), of u EV_WRITE 1 "Ptr b"] by (simp_all add: t2_def ew_def)
  define v0' where "v0' = (conn_bufev r w)\<lparr>enabled := EV_WRITE\<rparr>"
  define t3 where "t3 = put_bufev t2 b v0'"
  have made: "bufferevent_new (Some (b, r, w)) True True u (Some 0) None (Some 2) Null (s\<lparr>kernel := k\<rparr>) = Ret (Ptr b, t3)"
    using new r1(1) r2(1) by (simp add: bufferevent_new_def t0_def Let_def bufferevent_setcb_def t3_def v0'_def conn_bufev_def)
  have v3: "base_view t3 ins acts tmo" using r2(2) by (simp add: t3_def put_bufev_def base_view_def)
  have f3: "events t3 = (events s)(r \<mapsto> er, w \<mapsto> ew)" "epfds t3 = epfds s" "bufevs t3 = (bufevs s)(b \<mapsto> v0')"
    "kernel t3 = k" "loop_part t3 = loop_part s"
    using f0 new(4) by (simp_all add: t3_def t2_def t1_def put_event_def put_bufev_def fun_upd_twist loop_part_def)
  have wants: "wants er (EV_READ OR EV_WRITE OR EV_SIGNAL)" "\<not> wants er EV_SIGNAL" "wants ew (EV_READ OR EV_WRITE OR EV_SIGNAL)"
    "\<not> wants ew EV_SIGNAL" "wants er EV_READ" "\<not> wants er EV_WRITE" "wants ew EV_WRITE" "\<not> wants ew EV_READ"
    by (simp_all add: er_def ew_def set_event_sel EV_READ_def EV_WRITE_def EV_SIGNAL_def)
  have fd: "ev_fd er = u" "ev_fd ew = u" by (simp_all add: er_def ew_def set_event_sel)
  have sel: "ev_base er" "clear_flags er" "ev_base ew" "clear_flags ew" by (simp_all add: er_def ew_def set_event_sel)
  have e3: "events t3 r = Some er" using f3(1) new(4) by simp
  have b3: "0 \<le> ev_fd er" "ev_fd er < int (length (epfds t3))" using acc(2,3) fd f3(2) by simp_all
  obtain h4 l4 k4 p4 where a4: "epoll_add_fd sys t3 r = Ret (0, t3\<lparr>kernel := k4, epfds := p4\<rparr>)"
    and x4: "let t4 = t3\<lparr>kernel := k4, epfds := p4, event_count := event_count t3 + 1,
      events := (events t3)(r \<mapsto> er\<lparr>ev_flags := ev_flags er OR EVLIST_INSERTED\<rparr>), inserted_queue := h4, ins_links := l4\<rparr> in
    event_add sys t3 r False = Ret (0, t4) \<and> base_view t4 (ins @ [r]) acts tmo"
    using add_desc [OF v3 e3 sel(1,2) wants(1,2) b3, of sys] by blast
  define t4 where "t4 = t3\<lparr>kernel := k4, epfds := p4, event_count := event_count t3 + 1,
      events := (events t3)(r \<mapsto> er\<lparr>ev_flags := ev_flags er OR EVLIST_INSERTED\<rparr>), inserted_queue := h4, ins_links := l4\<rparr>"
  have r4: "event_add sys t3 r False = Ret (0, t4)" "base_view t4 (ins @ [r]) acts tmo" using x4 by (simp_all add: t4_def Let_def)
  have s4: "length p4 = length (epfds s)" "\<forall>i. i \<noteq> nat u \<longrightarrow> p4 ! i = epfds s ! i"
    "epfds s ! nat u = (Null, Null) \<Longrightarrow> p4 = (epfds s)[nat u := (Ptr r, Null)] \<and> k4 = snd (sys_ctl sys Ctl_add u (Some EPOLLIN) k)"
    using reader_slot [OF a4 e3 b3 wants(5,6)] f3(2,4) fd by auto
  have e4: "events t4 w = Some ew" using f3(1) new(4) by (simp add: t4_def)
  have b4: "0 \<le> ev_fd ew" "ev_fd ew < int (length (epfds t4))" using acc(2,3) fd s4(1) by (simp_all add: t4_def)
  obtain h5 l5 k5 p5 where a5: "epoll_add_fd sys t4 w = Ret (0, t4\<lparr>kernel := k5, epfds := p5\<rparr>)"
    and x5: "let t5 = t4\<lparr>kernel := k5, epfds := p5, event_count := event_count t4 + 1,
      events := (events t4)(w \<mapsto> ew\<lparr>ev_flags := ev_flags ew OR EVLIST_INSERTED\<rparr>), inserted_queue := h5, ins_links := l5\<rparr> in
    event_add sys t4 w False = Ret (0, t5) \<and> base_view t5 ((ins @ [r]) @ [w]) acts tmo"
    using add_desc [OF r4(2) e4 sel(3,4) wants(3,4) b4, of sys] by blast
  define t5 where "t5 = t4\<lparr>kernel := k5, epfds := p5, event_count := event_count t4 + 1,
      events := (events t4)(w \<mapsto> ew\<lparr>ev_flags := ev_flags ew OR EVLIST_INSERTED\<rparr>), inserted_queue := h5, ins_links := l5\<rparr>"
  have r5: "event_add sys t4 w False = Ret (0, t5)" "base_view t5 (ins @ [r, w]) acts tmo" using x5 by (simp_all add: t5_def Let_def)
  have f4: "epfds t4 = p4" "kernel t4 = k4" by (simp_all add: t4_def)
  have s5: "length p5 = length (epfds s)" "\<forall>i. i \<noteq> nat u \<longrightarrow> p5 ! i = p4 ! i"
    "p4 ! nat u = (Ptr r, Null) \<Longrightarrow> p5 = p4[nat u := (Ptr r, Ptr w)] \<and> k5 = snd (sys_ctl sys Ctl_mod u (Some (EPOLLIN OR EPOLLOUT)) k4)"
    using writer_slot [OF a5 e4 b4 wants(7,8), of r] f4 s4(1) fd by auto
  define t6 where "t6 = put_bufev t5 b (conn_bufev r w)"
  have en: "(EV_READ OR EV_WRITE) AND EV_READ \<noteq> 0" "(EV_READ OR EV_WRITE) AND EV_WRITE \<noteq> 0"
    "EV_WRITE OR (EV_READ OR EV_WRITE) = EV_READ OR EV_WRITE" by (simp_all add: EV_READ_def EV_WRITE_def)
  have "bufevs t3 b = Some v0'" by (simp add: f3(3))
  then have "bufferevent_enable sys b (EV_READ OR EV_WRITE) t3 = Ret (0, t6)"
    using r4(1) r5(1) en by (simp add: bufferevent_enable_def bufferevent_add_def v0'_def conn_bufev_def t6_def)
  then have "accept_client sys accept (Some (b, r, w)) True True fd s = Ret t6"
    using acc(1,2) made by (simp add: accept_client_def no_result_def)
  moreover have "base_view t6 (ins @ [r, w]) acts tmo" using r5(2) by (simp add: t6_def put_bufev_def base_view_def)
  moreover have "events t6 = (events s)(r \<mapsto> conn_event u EV_READ 0 b, w \<mapsto> conn_event u EV_WRITE 1 b)"
    using f3(1) by (simp add: t6_def t5_def t4_def put_bufev_def er_def ew_def conn_event_added fun_upd_twist new(4))
  moreover have "bufevs t6 = (bufevs s)(b \<mapsto> conn_bufev r w)" using f3(3) by (simp add: t6_def t5_def t4_def put_bufev_def)
  moreover have "loop_part t6 = loop_part s" using f3(5) by (simp add: t6_def t5_def t4_def put_bufev_def loop_part_def)
  moreover have "epfds t6 = p5" "kernel t6 = k5" by (simp_all add: t6_def t5_def put_bufev_def)
  moreover have "p5 = (epfds s)[nat u := (Ptr r, Ptr w)] \<and>
      k5 = snd (sys_ctl sys Ctl_mod u (Some (EPOLLIN OR EPOLLOUT)) (snd (sys_ctl sys Ctl_add u (Some EPOLLIN) k)))"
    if "epfds s ! nat u = (Null, Null)" using s4(3) [OF that] s5(3) acc(2,3) by simp
  ultimately show ?thesis using s4(2) s5(1,2) by (intro exI [of _ t6]) simp
qed

lemma clear_not_in:
  assumes "base_view s ins acts tmo" "events s a = Some e" "clear_flags e"
  shows "a \<notin> set ins" "a \<notin> set tmo" "\<forall>as \<in> set acts. a \<notin> set as"
proof -
  show "a \<notin> set ins" "a \<notin> set tmo"
    using assms by (auto simp: base_view_def list_view_def flagged_def clear_flags_def)
  show "\<forall>as \<in> set acts. a \<notin> set as"
  proof
    fix as assume "as \<in> set acts"
    then obtain i where "i < length acts" "as = acts ! i" by (auto simp: in_set_conv_nth)
    then show "a \<notin> set as" using active_pri [OF assms(1)] assms(2,3) in_priority [of "events s" a e i] by (auto simp: clear_flags_def)
  qed
qed

text \<open>Ending a connection whose events wait and whose buffers are empty.\<close>

lemma conn_close_ok:
  assumes v: "base_view s ins acts tmo" and b: "bufevs s b = Some (conn_bufev r w)" and ne: "r \<noteq> w"
    and e: "events s r = Some (conn_event u EV_READ 0 b)" "events s w = Some (conn_event u EV_WRITE 1 b)"
    and u: "0 \<le> u" "u < int (length (epfds s))" "epfds s ! nat u = (Ptr r, Ptr w)"
  shows "\<exists>s'. client_errorcb sys net close b s = Ret s' \<and> base_view s' (remove1 w (remove1 r ins)) acts tmo \<and>
    events s' = (events s)(r := None, w := None) \<and> bufevs s' = (bufevs s)(b := None) \<and> loop_part s' = loop_part s \<and>
    epfds s' = (epfds s)[nat u := (Null, Null)] \<and>
    kernel s' = close u (snd (sys_ctl sys Ctl_del u None (snd (sys_ctl sys Ctl_mod u None (kernel s)))))"
proof -
  let ?er = "conn_event u EV_READ 0 b" and ?ew = "conn_event u EV_WRITE 1 b"
  have wt: "wants ?er EV_READ" "\<not> wants ?er EV_WRITE" "\<not> wants ?er EV_SIGNAL" "wants ?ew EV_WRITE" "\<not> wants ?ew EV_READ" "\<not> wants ?ew EV_SIGNAL"
    by (simp_all add: conn_event_sel EV_READ_def EV_WRITE_def EV_SIGNAL_def)
  obtain h1 l1 where x1: "let t1 = s\<lparr>event_count := event_count s - 1,
      events := (events s)(r \<mapsto> ?er\<lparr>ev_flags := ev_flags ?er AND NOT EVLIST_INSERTED\<rparr>), inserted_queue := h1, ins_links := l1\<rparr> in
    event_del sys s r = epoll_del sys t1 r \<and> base_view t1 (remove1 r ins) acts tmo"
    using del_desc [OF v e(1) conn_event_sel(3-7), of sys] by blast
  define t1 where "t1 = s\<lparr>event_count := event_count s - 1,
      events := (events s)(r \<mapsto> ?er\<lparr>ev_flags := ev_flags ?er AND NOT EVLIST_INSERTED\<rparr>), inserted_queue := h1, ins_links := l1\<rparr>"
  have d1: "event_del sys s r = epoll_del sys t1 r" "base_view t1 (remove1 r ins) acts tmo" using x1 by (simp_all add: t1_def Let_def)
  obtain c2 k2 where c2: "sys_ctl sys Ctl_mod u None (kernel s) = (c2, k2)" by fastforce
  define t2 where "t2 = t1\<lparr>epfds := (epfds s)[nat u := (Null, Ptr w)], kernel := k2\<rparr>"
  have e1: "events t1 r = Some (?er\<lparr>ev_flags := ev_flags ?er AND NOT EVLIST_INSERTED\<rparr>)" "epfds t1 = epfds s" "kernel t1 = kernel s"
    by (simp_all add: t1_def)
  have "epoll_del sys t1 r = Ret (if c2 = -1 then -1 else 0, t2)"
    using e1 wt(1-3) u c2 by (simp add: epoll_del_def conn_event_sel t2_def Let_def)
  then have r2: "no_result (event_del sys s r) = Ret t2" using d1(1) by (simp add: no_result_def)
  have v2: "base_view t2 (remove1 r ins) acts tmo" using d1(2) by (simp add: t2_def)
  have e2: "events t2 w = Some ?ew" using e(2) ne by (simp add: t2_def t1_def)
  obtain h3 l3 where x3: "let t3 = t2\<lparr>event_count := event_count t2 - 1,
      events := (events t2)(w \<mapsto> ?ew\<lparr>ev_flags := ev_flags ?ew AND NOT EVLIST_INSERTED\<rparr>), inserted_queue := h3, ins_links := l3\<rparr> in
    event_del sys t2 w = epoll_del sys t3 w \<and> base_view t3 (remove1 w (remove1 r ins)) acts tmo"
    using del_desc [OF v2 e2 conn_event_sel(3-7), of sys] by blast
  define t3 where "t3 = t2\<lparr>event_count := event_count t2 - 1,
      events := (events t2)(w \<mapsto> ?ew\<lparr>ev_flags := ev_flags ?ew AND NOT EVLIST_INSERTED\<rparr>), inserted_queue := h3, ins_links := l3\<rparr>"
  have d3: "event_del sys t2 w = epoll_del sys t3 w" "base_view t3 (remove1 w (remove1 r ins)) acts tmo" using x3 by (simp_all add: t3_def Let_def)
  obtain c4 k4 where c4: "sys_ctl sys Ctl_del u None k2 = (c4, k4)" by fastforce
  define t4 where "t4 = t3\<lparr>epfds := (epfds s)[nat u := (Null, Null)], kernel := k4\<rparr>"
  have e3: "events t3 w = Some (?ew\<lparr>ev_flags := ev_flags ?ew AND NOT EVLIST_INSERTED\<rparr>)" "epfds t3 = (epfds s)[nat u := (Null, Ptr w)]"
    "kernel t3 = k2" by (simp_all add: t3_def t2_def)
  have "epoll_del sys t3 w = Ret (if c4 = -1 then -1 else 0, t4)"
    using e3 wt(4-6) u(1,2) c4 by (simp add: epoll_del_def conn_event_sel t4_def Let_def)
  then have r4: "no_result (event_del sys t2 w) = Ret t4" using d3(1) by (simp add: no_result_def)
  let ?t5 = "t4\<lparr>bufevs := (bufevs t4)(b := None)\<rparr>"
  have v5: "base_view ?t5 (remove1 w (remove1 r ins)) acts tmo" using d3(2) by (simp add: t4_def)
  have g: "clear_flags (?er\<lparr>ev_flags := ev_flags ?er AND NOT EVLIST_INSERTED\<rparr>)" "clear_flags (?ew\<lparr>ev_flags := ev_flags ?ew AND NOT EVLIST_INSERTED\<rparr>)"
    using conn_event_sel(5,7) by (simp_all add: clear_flags_def)
  have e5: "events ?t5 = (events s)(r \<mapsto> ?er\<lparr>ev_flags := ev_flags ?er AND NOT EVLIST_INSERTED\<rparr>,
      w \<mapsto> ?ew\<lparr>ev_flags := ev_flags ?ew AND NOT EVLIST_INSERTED\<rparr>)" by (simp add: t4_def t3_def t2_def t1_def)
  have "events ?t5 r = Some (?er\<lparr>ev_flags := ev_flags ?er AND NOT EVLIST_INSERTED\<rparr>)" using e5 ne by simp
  then have v6: "base_view (free_event r ?t5) (remove1 w (remove1 r ins)) acts tmo"
    by (intro free_view [OF v5] clear_not_in [OF v5 _ g(1)])
  have "events (free_event r ?t5) w = Some (?ew\<lparr>ev_flags := ev_flags ?ew AND NOT EVLIST_INSERTED\<rparr>)"
    using e5 ne by (simp add: free_event_def)
  then have v7: "base_view (free_event w (free_event r ?t5)) (remove1 w (remove1 r ins)) acts tmo"
    by (intro free_view [OF v6] clear_not_in [OF v6 _ g(2)])
  let ?t6 = "free_event w (free_event r ?t5)"
  have "client_errorcb sys net close b s = Ret (?t6\<lparr>kernel := close u (kernel ?t6)\<rparr>)"
    using b e(2) r2 r4 conn_event_sel(1)
    by (simp add: client_errorcb_def bufferevent_free_def Let_def conn_bufev_def evbuffer_new_def)
  moreover have "base_view (?t6\<lparr>kernel := close u (kernel ?t6)\<rparr>) (remove1 w (remove1 r ins)) acts tmo" using v7 by (simp add: base_view_def)
  moreover have "bufevs t4 = bufevs s" "loop_part t4 = loop_part s"
    by (simp_all add: loop_part_def t4_def t3_def t2_def t1_def)
  then have "bufevs (?t6\<lparr>kernel := close u (kernel ?t6)\<rparr>) = (bufevs s)(b := None)" "loop_part (?t6\<lparr>kernel := close u (kernel ?t6)\<rparr>) = loop_part s"
    by (simp_all add: free_event_def loop_part_def)
  moreover have "events (?t6\<lparr>kernel := close u (kernel ?t6)\<rparr>) = (events s)(r := None, w := None)"
    using e5 ne by (simp add: free_event_def fun_upd_twist)
  moreover have "epfds (?t6\<lparr>kernel := close u (kernel ?t6)\<rparr>) = (epfds s)[nat u := (Null, Null)]"
    "kernel ?t6 = snd (sys_ctl sys Ctl_del u None (snd (sys_ctl sys Ctl_mod u None (kernel s))))"
    using c2 c4 by (simp_all add: free_event_def t4_def)
  ultimately show ?thesis by (intro exI [of _ "?t6\<lparr>kernel := close u (kernel ?t6)\<rparr>"]) simp
qed

lemma remove_new: "distinct xs \<Longrightarrow> r \<notin> set xs \<Longrightarrow> w \<notin> set xs \<Longrightarrow> remove1 w (remove1 r (xs @ [r, w])) = xs"
  by (simp add: remove1_append remove1_idem)

text \<open>The calls of \<open>epoll_ctl\<close> and \<open>close\<close> for a connection, on the kernel as \<open>accept\<close> left it.\<close>

definition conn_calls :: "'k sys \<Rightarrow> (int \<Rightarrow> 'k \<Rightarrow> 'k) \<Rightarrow> int \<Rightarrow> 'k \<Rightarrow> 'k" where
  "conn_calls sys close u k =
     (let ctl = (\<lambda>op evs k. snd (sys_ctl sys op u evs k));
          opened = ctl Ctl_mod (Some (EPOLLIN OR EPOLLOUT)) (ctl Ctl_add (Some EPOLLIN) k) in
      close u (ctl Ctl_del None (ctl Ctl_mod None opened)))"

text \<open>
  C34. The life of a connection in the example server: new_client on an accepted descriptor, whose
  slot in the table is empty, makes a bufferevent whose read and write events wait at the end of
  the inserted queue and fill the slot; and when the error callback ends the connection with
  nothing received and nothing left to send, the queues, the memory of events, the bufferevents
  and the slots are what they were before, no queue holds a freed event, and the last thing done
  to the kernel is to close the descriptor, after epoll has been asked to add it, to change it, to
  change it again and to delete it.  The allocations succeed.
\<close>

theorem connection_leaves_no_trace:
  fixes s :: "'k bev_base"
  assumes "base_view s ins acts tmo" "current_base s" "length (active_queue s) = 1"
    "accept fd (kernel s) = (u, k)" "0 \<le> u" "u < int (length (epfds s))" "epfds s ! nat u = (Null, Null)"
    "bufevs s b = None" "events s r = None" "events s w = None" "r \<noteq> w"
  shows "\<exists>s1 s2. accept_client sys accept (Some (b, r, w)) True True fd s = Ret s1 \<and> base_view s1 (ins @ [r, w]) acts tmo \<and>
    epfds s1 = (epfds s)[nat u := (Ptr r, Ptr w)] \<and>
    client_errorcb sys net close b s1 = Ret s2 \<and> base_view s2 ins acts tmo \<and> events s2 = events s \<and> bufevs s2 = bufevs s \<and>
    epfds s2 = epfds s \<and> kernel s2 = conn_calls sys close u k"
proof -
  obtain s1 where s1: "accept_client sys accept (Some (b, r, w)) True True fd s = Ret s1" "base_view s1 (ins @ [r, w]) acts tmo"
    "events s1 = (events s)(r \<mapsto> conn_event u EV_READ 0 b, w \<mapsto> conn_event u EV_WRITE 1 b)"
    "bufevs s1 = (bufevs s)(b \<mapsto> conn_bufev r w)" "epfds s1 = (epfds s)[nat u := (Ptr r, Ptr w)]"
    "kernel s1 = snd (sys_ctl sys Ctl_mod u (Some (EPOLLIN OR EPOLLOUT)) (snd (sys_ctl sys Ctl_add u (Some EPOLLIN) k)))"
    using accept_client_ok [where accept = accept and fd = fd and sys = sys, OF assms(1-6,8-11)] assms(7) by blast
  have f: "bufevs s1 b = Some (conn_bufev r w)" "events s1 r = Some (conn_event u EV_READ 0 b)" "events s1 w = Some (conn_event u EV_WRITE 1 b)"
    "u < int (length (epfds s1))" "epfds s1 ! nat u = (Ptr r, Ptr w)"
    using s1(3-5) assms(5,6,11) by simp_all
  obtain s2 where s2: "client_errorcb sys net close b s1 = Ret s2" "base_view s2 (remove1 w (remove1 r (ins @ [r, w]))) acts tmo"
    "events s2 = (events s1)(r := None, w := None)" "bufevs s2 = (bufevs s1)(b := None)" "epfds s2 = (epfds s1)[nat u := (Null, Null)]"
    "kernel s2 = close u (snd (sys_ctl sys Ctl_del u None (snd (sys_ctl sys Ctl_mod u None (kernel s1)))))"
    using conn_close_ok [OF s1(2) f(1) assms(11) f(2,3) assms(5) f(4,5), of sys net close] by blast
  have d: "distinct ins" "r \<notin> set ins" "w \<notin> set ins"
    using assms(1,9,10) tq_distinct by (auto simp: base_view_def list_view_def flagged_def)
  have "events s2 = events s" "bufevs s2 = bufevs s"
    using s2(3,4) s1(3,4) assms(8-10) by (auto simp: fun_eq_iff)
  moreover have "epfds s2 = epfds s" using s2(5) s1(5) assms(7) by (metis list_update_id list_update_overwrite)
  moreover have "kernel s2 = conn_calls sys close u k" using s2(6) s1(6) by (simp add: conn_calls_def Let_def)
  ultimately show ?thesis using s1(1,2,5) s2(1,2) remove_new [OF d] by auto
qed

text \<open>An event base without events, and a kernel that records the calls with the descriptor.\<close>

definition demo_server :: "call list bev_base" where
  "demo_server = event_base.extend demo_base \<lparr>bufevs = Map.empty\<rparr>"

definition op_nr :: "ctl_op \<Rightarrow> nat" where
  "op_nr op = (case op of Ctl_add \<Rightarrow> 1 | Ctl_del \<Rightarrow> 2 | Ctl_mod \<Rightarrow> 3)"

definition trace_sys :: "call list sys" where
  "trace_sys = demo_sys\<lparr>sys_ctl := (\<lambda>op fd evs k. (0, k @ [(op_nr op, fd, 0, Null)]))\<rparr>"

definition trace_close :: "int \<Rightarrow> call list \<Rightarrow> call list" where
  "trace_close fd k = k @ [(9, fd, 0, Null)]"

theorem connection_leaves_no_trace_witness:
  "\<exists>s1 s2. accept_client trace_sys (\<lambda>fd k. (1, k)) (Some (9, 11, 12)) True True 4 demo_server = Ret s1 \<and> base_view s1 [11, 12] [[]] [] \<and>
    client_errorcb trace_sys demo_net trace_close 9 s1 = Ret s2 \<and> base_view s2 [] [[]] [] \<and> epfds s2 = [(Null, Null), (Null, Null)] \<and>
    kernel s2 = [(1, 1, 0, Null), (3, 1, 0, Null), (3, 1, 0, Null), (2, 1, 0, Null), (9, 1, 0, Null)]"
proof -
  have "base_view demo_server [] [[]] []" using demo_view by (simp add: base_view_def demo_server_def event_base.defs)
  note x = connection_leaves_no_trace [where s = demo_server and accept = "\<lambda>fd k. (1, k)" and fd = 4 and u = 1 and k = "kernel demo_server" and b = 9 and r = 11 and w = 12 and
    sys = trace_sys and net = demo_net and close = trace_close, OF this]
  have d: "current_base demo_server" "length (active_queue demo_server) = 1" "1 < int (length (epfds demo_server))"
    "epfds demo_server ! nat 1 = (Null, Null)" "bufevs demo_server 9 = None" "events demo_server 11 = None" "events demo_server 12 = None"
    by (simp_all add: demo_server_def event_base.defs demo_base_def)
  have c: "conn_calls trace_sys trace_close 1 (kernel demo_server) =
      [(1, 1, 0, Null), (3, 1, 0, Null), (3, 1, 0, Null), (2, 1, 0, Null), (9, 1, 0, Null)]" "epfds demo_server = [(Null, Null), (Null, Null)]"
    by (simp_all add: conn_calls_def trace_sys_def trace_close_def op_nr_def demo_server_def event_base.defs demo_base_def)
  from x [OF d(1,2) refl _ d(3-7)] show ?thesis unfolding c by auto
qed

end
