(* ===== verification/Ev_Main.thy ===== *)
theory Ev_Main
  imports Ev_Server
begin

section \<open>my\_event: the example program\<close>

text \<open>
  The program of \<open>cs/my_event/main.c\<close> with its own callbacks: \<open>main\<close> makes its events and enters
  the loop, and the loop calls new_client, which adds a bufferevent to the base that is being
  dispatched.
\<close>

text \<open>The callbacks of the signal and of the timer only print.\<close>

definition sig_cb :: "'k bev_base \<Rightarrow> 'k bev_base lres" where
  "sig_cb s = Ret s"

definition timer_cb :: "'k bev_base \<Rightarrow> 'k bev_base lres" where
  "timer_cb s = Ret s"

text \<open>
  All the callbacks of the program.  \<open>mem\<close> gives the addresses of the blocks for a new
  \<open>bufferevent\<close> and its events in a state; the allocations of a new connection succeed.
\<close>

definition program_cbs ::
  "start_env \<Rightarrow> 'k sys \<Rightarrow> 'k net \<Rightarrow> (int \<Rightarrow> 'k \<Rightarrow> int \<times> 'k) \<Rightarrow> (int \<Rightarrow> nat \<Rightarrow> 'k \<Rightarrow> int \<times> 'k) \<Rightarrow> (int \<Rightarrow> 'k \<Rightarrow> 'k) \<Rightarrow>
   ('k bev_base \<Rightarrow> nat \<times> nat \<times> nat) \<Rightarrow> ('k, \<lparr>bufevs :: bufev store\<rparr>) callbacks" where
  "program_cbs env sys net accept recv close mem cb fd res arg s =
     (if cb = evsignal_cb_nr env then evsignal_cb recv fd s
      else if cb = new_client_nr env then accept_client sys accept (Some (mem s)) True True fd s
      else if cb = sig_cb_nr env then sig_cb s
      else if cb = timer_cb_nr env then timer_cb s
      else bufev_run sys net (client_cbs sys net close) cb fd res arg s)"

subsection \<open>A round that accepts\<close>

text \<open>
  A round in which only one persistent event is woken, for any callback that leaves the queues
  well formed and the frame of the call alone.
\<close>

lemma listen_round:
  assumes v: "base_view s ins [[]] tmo" and ns: "\<not> evsignal_caught s"
    and e: "events s a = Some e" "ev_base e" "ev_pri e = 0" "wants e EV_PERSIST"
    and slot: "i < length (epfds s)" "epfds s ! i = (Ptr a, Null)" and fuel: "2 < fuel"
  shows "\<exists>t e'. base_view t ins [[]] tmo \<and> events t = (events s)(a \<mapsto> e') \<and> statics e' = statics e \<and> kernel t = kernel s \<and>
    epfds t = epfds s \<and> current_base t = current_base s \<and> evsignal_caught t = evsignal_caught s \<and> event_base.more t = event_base.more s \<and>
    (\<forall>t' ins' tmo'. run (ev_callback e) (ev_fd e) EV_READ (ev_arg e) t = Ret t' \<longrightarrow> base_view t' ins' [[]] tmo' \<longrightarrow>
       frames t' = frames t \<longrightarrow> (\<exists>f. event_loop_step sys run fuel (Ready [(i, EPOLLIN)]) s = Ret (t'\<lparr>frames := f\<rparr>)))"
proof -
  obtain m where m: "fuel = Suc (Suc (Suc m))" using fuel by (auto simp: less_iff_Suc_add numeral_2_eq_2)
  have q: "length (active_queue s) = 1" using active_pri [OF v] by simp
  have "set ([[]] ! 0) = at_priority (events s) 0" using v q by (simp add: base_view_def active_view_def)
  then have "at_priority (events s) 0 = {}" by simp
  then have "a \<notin> at_priority (events s) 0" by simp
  then have nb: "\<not> bit (ev_flags e) 3" using e(1,3) by (simp add: in_priority)
  let ?e1 = "e\<lparr>ev_res := ucast EV_READ, ev_ncalls := 1, ev_pncalls := Null, ev_flags := ev_flags e OR EVLIST_ACTIVE\<rparr>"
  obtain s1 where s1: "event_active s a (ucast EV_READ) 1 = Ret s1" "rest_of s1 = rest_of s" "length (active_queue s1) = 1"
    "base_view s1 ins [[a]] tmo" "events s1 = (events s)(a \<mapsto> ?e1)"
    using active_ok [OF v e(1,2), of "ucast EV_READ" 1] e(3) q nb by auto
  have r1: "epfds s1 = epfds s" "kernel s1 = kernel s" "frames s1 = frames s" "next_frame s1 = next_frame s"
    "evsignal_caught s1 = evsignal_caught s" "current_base s1 = current_base s" "event_base.more s1 = event_base.more s"
    using s1(2) by (simp_all add: rest_of_def)
  have "epoll_dispatch sys fuel (Ready [(i, EPOLLIN)]) s = Ret (0, s1)"
    using ns slot s1(1) by (simp add: epoll_dispatch_def activate_def nth_opt_def EPOLLIN_def EPOLLOUT_def EPOLLHUP_def EPOLLERR_def Let_def)
  moreover have "event_count_active s1 \<noteq> 0" using s1(4) by (simp add: base_view_def active_total_def)
  ultimately have step: "event_loop_step sys run fuel (Ready [(i, EPOLLIN)]) s = event_process_active sys run fuel s1"
    by (simp add: event_loop_step_def)
  define fr where "fr = next_frame s"
  define s2 where "s2 = s1\<lparr>next_frame := fr + 1, frames := (frames s)(fr \<mapsto> 0)\<rparr>"
  have v2: "base_view s2 ins [[a]] tmo" using s1(4) by (simp add: s2_def base_view_def)
  have e2: "events s2 a = Some ?e1" "bit (ev_flags ?e1) 3" "ev_pri ?e1 = 0" "wants ?e1 EV_PERSIST"
    using s1(5) e(3,4) by (simp_all add: s2_def bit_or_iff)
  have h2: "length (active_queue s2) = 1" "tqh_first (active_queue s2 ! 0) = Ptr a" using active_pri [OF v2] by auto
  have f2: "first_active 0 (active_queue s1) = Some 0"
    using first_active_at [of 0 "active_queue s1" 0] h2 by (cases "active_queue s1") (simp_all add: s2_def)
  obtain hs l s3 where s3: "event_queue_remove s2 a EVLIST_ACTIVE = Ret s3" "base_view s3 ins [[]] tmo"
    "s3 = s2\<lparr>event_count := event_count s2 - 1, events := (events s2)(a \<mapsto> ?e1\<lparr>ev_flags := ev_flags ?e1 AND NOT EVLIST_ACTIVE\<rparr>),
      active_queue := hs, act_links := l, event_count_active := event_count_active s2 - 1\<rparr>"
    using remove_active [OF v2 e2(1,2)] e2(3) by auto
  let ?e3 = "?e1\<lparr>ev_flags := ev_flags ?e1 AND NOT EVLIST_ACTIVE\<rparr>"
  define e4 where "e4 = ?e3\<lparr>ev_pncalls := Ptr fr, ev_ncalls := 0\<rparr>"
  define t where "t = s3\<lparr>frames := (frames s)(fr \<mapsto> 0), events := (events s)(a \<mapsto> e4)\<rparr>"
  have "events s3 a = Some ?e3" by (simp add: s3(3))
  from base_view_put [OF s3(2) this, of e4] have "base_view (put_event s3 a e4) ins [[]] tmo" by (simp add: e4_def)
  moreover have "events s3 = (events s)(a \<mapsto> ?e3)" by (simp add: s3(3) s2_def s1(5))
  ultimately have vt: "base_view t ins [[]] tmo" by (simp add: t_def put_event_def base_view_def)
  have st: "statics e4 = statics e" by (simp add: e4_def statics_def)
  have tf: "kernel t = kernel s" "epfds t = epfds s" "current_base t = current_base s" "evsignal_caught t = evsignal_caught s"
    "event_base.more t = event_base.more s" "frames t fr = Some 0" "events t = (events s)(a \<mapsto> e4)"
    by (simp_all add: t_def s3(3) s2_def r1)
  have calls: "event_loop_step sys run fuel (Ready [(i, EPOLLIN)]) s = Ret (t'\<lparr>frames := (frames t')(fr := None)\<rparr>)"
    if run: "run (ev_callback e) (ev_fd e) EV_READ (ev_arg e) t = Ret t'" and v': "base_view t' ins' [[]] tmo'" and f': "frames t' = frames t"
    for t' ins' tmo'
  proof -
    let ?c = "put_event (s3\<lparr>frames := (frames s3)(fr \<mapsto> 1)\<rparr>) a (?e3\<lparr>ev_pncalls := Ptr fr\<rparr>)"
    have "put_event (?c\<lparr>frames := (frames ?c)(fr \<mapsto> 0)\<rparr>) a (?e3\<lparr>ev_pncalls := Ptr fr, ev_ncalls := 0\<rparr>) = t"
      by (simp add: put_event_def t_def e4_def s3(3) s2_def s1(5))
    then have "call_loop run (Suc (Suc m)) fr a ?c = lbind (run (ev_callback e) (ev_fd e) EV_READ (ev_arg e) t) (call_loop run (Suc m) fr a)"
      by (simp add: put_event_def ucast_res Let_def)
    moreover have "call_loop run (Suc m) fr a t' = Ret t'" using f' tf(6) by simp
    ultimately have cl: "call_loop run (Suc (Suc m)) fr a ?c = Ret t'" using run by simp
    have h': "length (active_queue t') = 1" "tqh_first (active_queue t' ! 0) = Null" using active_pri [OF v'] by auto
    then have last: "active_loop sys run (Suc (Suc m)) 0 fr t' = Ret t'" by (simp add: nth_opt_def)
    have "active_loop sys run fuel 0 fr s2 = lbind (call_loop run (Suc (Suc m)) fr a ?c) (active_loop sys run (Suc (Suc m)) 0 fr)"
      unfolding m using h2 e2(1,4) s3(1) \<open>events s3 a = Some ?e3\<close> by (simp add: nth_opt_def del: call_loop.simps)
    then have "active_loop sys run fuel 0 fr s2 = Ret t'" using cl last by simp
    then show ?thesis using step f2 by (simp add: event_process_active_def Let_def s2_def fr_def r1)
  qed
  show ?thesis using vt tf(1-5,7) st calls by (intro exI [of _ t] exI [of _ e4]) blast
qed

subsection \<open>The program serves\<close>

text \<open>
  The state of the program in its loop: \<open>conns\<close> are the addresses of the bufferevents of its
  connections, with those of their events.
\<close>

definition conn_events :: "(nat \<times> nat \<times> nat) list \<Rightarrow> nat list" where
  "conn_events conns = concat (map (\<lambda>(b, r, w). [r, w]) conns)"

definition serving ::
  "start_env \<Rightarrow> int \<Rightarrow> nat \<Rightarrow> nat \<Rightarrow> nat \<Rightarrow> nat \<Rightarrow> (nat \<times> nat \<times> nat) list \<Rightarrow> 'k bev_base \<Rightarrow> bool" where
  "serving env fd la ia sa ta conns s \<longleftrightarrow> base_view s ([la, ia, sa] @ conn_events conns) [[]] [ta] \<and>
     \<not> evsignal_caught s \<and> current_base s \<and> length (epfds s) = nat (nfiles env) \<and> epfds s ! nat fd = (Ptr la, Null) \<and>
     (\<exists>e. events s la = Some e \<and> ev_fd e = fd \<and> ev_events e = EV_READ OR EV_PERSIST \<and> ev_callback e = new_client_nr env \<and>
       ev_arg e = Null \<and> ev_base e \<and> ev_pri e = 0) \<and>
     finite (dom (events s)) \<and> finite (dom (bufevs s)) \<and> (\<forall>(b, r, w) \<in> set conns. bufevs s b = Some (conn_bufev r w))"

text \<open>\<open>calloc\<close> returns free addresses, and \<open>accept\<close> a descriptor that is not in use and fits the table.\<close>

definition fresh_mem :: "('k bev_base \<Rightarrow> nat \<times> nat \<times> nat) \<Rightarrow> bool" where
  "fresh_mem mem \<longleftrightarrow> (\<forall>s b r w. finite (dom (events s)) \<longrightarrow> finite (dom (bufevs s)) \<longrightarrow> mem s = (b, r, w) \<longrightarrow>
     bufevs s b = None \<and> events s r = None \<and> events s w = None \<and> r \<noteq> w)"

definition good_accept :: "start_env \<Rightarrow> int \<Rightarrow> (int \<Rightarrow> 'k \<Rightarrow> int \<times> 'k) \<Rightarrow> bool" where
  "good_accept env fd accept \<longleftrightarrow> (\<forall>k. 0 \<le> fst (accept fd k) \<and> fst (accept fd k) < nfiles env \<and> fst (accept fd k) \<noteq> fd)"

lemma accept_round:
  assumes sv: "serving env fd la ia sa ta conns s" and fd: "0 \<le> fd" "fd < nfiles env" "2 < fuel"
    and ok: "fresh_mem mem" "good_accept env fd accept" "new_client_nr env \<noteq> evsignal_cb_nr env"
  shows "\<exists>s' c. event_loop_step sys (program_cbs env sys net accept recv close mem) fuel (Ready [(nat fd, EPOLLIN)]) s = Ret s' \<and>
    serving env fd la ia sa ta (conns @ [c]) s'"
proof -
  let ?run = "program_cbs env sys net accept recv close mem" and ?ins = "[la, ia, sa] @ conn_events conns"
  note S = sv [unfolded serving_def]
  obtain e where e: "events s la = Some e" "ev_fd e = fd" "ev_events e = EV_READ OR EV_PERSIST" "ev_callback e = new_client_nr env"
    "ev_arg e = Null" "ev_base e" "ev_pri e = 0" using S by blast
  have v: "base_view s ?ins [[]] [ta]" "\<not> evsignal_caught s" "nat fd < length (epfds s)" "epfds s ! nat fd = (Ptr la, Null)"
    using S fd(1,2) by auto
  have p: "wants e EV_PERSIST" by (simp add: e(3) EV_READ_def EV_PERSIST_def)
  obtain t e' where t: "base_view t ?ins [[]] [ta]" "events t = (events s)(la \<mapsto> e')" "statics e' = statics e" "epfds t = epfds s"
    "current_base t = current_base s" "evsignal_caught t = evsignal_caught s" "event_base.more t = event_base.more s"
    and step: "\<And>t' ins' tmo'. ?run (ev_callback e) (ev_fd e) EV_READ (ev_arg e) t = Ret t' \<Longrightarrow> base_view t' ins' [[]] tmo' \<Longrightarrow>
       frames t' = frames t \<Longrightarrow> \<exists>f. event_loop_step sys ?run fuel (Ready [(nat fd, EPOLLIN)]) s = Ret (t'\<lparr>frames := f\<rparr>)"
    using listen_round [OF v(1,2) e(1,6,7) p v(3,4) fd(3), of ?run sys] by blast
  have same: "bufevs t = bufevs s" using t(7) by (rule same_bufevs)
  obtain b r w where m: "mem t = (b, r, w)" by (cases "mem t") auto
  have "finite (dom (events t))" "finite (dom (bufevs t))" using S t(2) same by simp_all
  then have new: "bufevs t b = None" "events t r = None" "events t w = None" "r \<noteq> w" using ok(1) m unfolding fresh_mem_def by blast+
  obtain u k where acc: "accept fd (kernel t) = (u, k)" by fastforce
  have u: "0 \<le> u" "u < nfiles env" "u \<noteq> fd" using ok(2) acc unfolding good_accept_def by (metis fst_conv)+
  have q: "current_base t" "length (active_queue t) = 1" "u < int (length (epfds t))"
    using S t(4,5) active_pri [OF t(1)] u fd by simp_all
  obtain t' where t': "accept_client sys accept (Some (b, r, w)) True True fd t = Ret t'" "base_view t' (?ins @ [r, w]) [[]] [ta]"
    "events t' = (events t)(r \<mapsto> conn_event u EV_READ 0 b, w \<mapsto> conn_event u EV_WRITE 1 b)" "bufevs t' = (bufevs t)(b \<mapsto> conn_bufev r w)"
    "loop_part t' = loop_part t" "length (epfds t') = length (epfds t)" "\<forall>i. i \<noteq> nat u \<longrightarrow> epfds t' ! i = epfds t ! i"
    using accept_client_ok [where accept = accept and fd = fd and sys = sys, OF t(1) q(1,2) acc u(1) q(3) new] by blast
  have "?run (ev_callback e) (ev_fd e) EV_READ (ev_arg e) t = Ret t'"
    using t'(1) e(2,4) ok(3) m by (simp add: program_cbs_def)
  from step [OF this t'(2)] t'(5) obtain f where
    f: "event_loop_step sys ?run fuel (Ready [(nat fd, EPOLLIN)]) s = Ret (t'\<lparr>frames := f\<rparr>)" by (auto simp: loop_part_def)
  have la: "la \<noteq> r" "la \<noteq> w" "nat u \<noteq> nat fd" using new(2,3) t(2) u fd(1) by auto
  have e': "events t' la = Some e'" using t'(3) t(2) la by simp
  have "serving env fd la ia sa ta (conns @ [(b, r, w)]) (t'\<lparr>frames := f\<rparr>)"
    unfolding serving_def
  proof (intro conjI)
    show "base_view (t'\<lparr>frames := f\<rparr>) ([la, ia, sa] @ conn_events (conns @ [(b, r, w)])) [[]] [ta]"
      using t'(2) by (simp add: conn_events_def)
    show "\<exists>e. events (t'\<lparr>frames := f\<rparr>) la = Some e \<and> ev_fd e = fd \<and> ev_events e = EV_READ OR EV_PERSIST \<and>
        ev_callback e = new_client_nr env \<and> ev_arg e = Null \<and> ev_base e \<and> ev_pri e = 0"
      using e' e statics_eqs [OF t(3)] by simp
    show "\<forall>(b', r', w') \<in> set (conns @ [(b, r, w)]). bufevs (t'\<lparr>frames := f\<rparr>) b' = Some (conn_bufev r' w')"
    proof -
      have "bufevs s b' = Some (conn_bufev r' w')" if "(b', r', w') \<in> set conns" for b' r' w' using S that by blast
      then show ?thesis using t'(4) same new(1) by fastforce
    qed
  qed (use S t t' la same in \<open>simp_all add: loop_part_def\<close>)
  then show ?thesis using f by blast
qed

lemma idle_round: "\<not> evsignal_caught s \<Longrightarrow> base_view s ins [[]] tmo \<Longrightarrow> event_loop_step sys run fuel (Ready []) s = Ret s"
  by (simp add: event_loop_step_def epoll_dispatch_def base_view_def active_total_def)

lemma serving_rounds:
  assumes fd: "0 \<le> fd" "fd < nfiles env" "2 < fuel"
    and ok: "fresh_mem mem" "good_accept env fd accept" "new_client_nr env \<noteq> evsignal_cb_nr env"
  shows "serving env fd la ia sa ta conns s \<Longrightarrow>
    \<forall>(tv, rs) \<in> set rounds. epoll_timeout (Some tv) \<noteq> None \<and> (rs = [] \<or> rs = [(nat fd, EPOLLIN)]) \<Longrightarrow>
    \<exists>s' new. event_rounds sys (program_cbs env sys net accept recv close mem) fuel (ready_rounds rounds) s = Ret s' \<and>
      serving env fd la ia sa ta (conns @ new) s' \<and> length new = length (filter (\<lambda>(tv, rs). rs \<noteq> []) rounds)"
proof (induction rounds arbitrary: conns s)
  case Nil
  then show ?case by (intro exI [of _ s] exI [of _ "[]"]) simp
next
  case (Cons x rounds)
  obtain tv rs where x: "x = (tv, rs)" by (cases x)
  obtain n where n: "epoll_timeout (Some tv) = Some n" using Cons.prems(2) x by auto
  have rest: "\<forall>(tv, rs) \<in> set rounds. epoll_timeout (Some tv) \<noteq> None \<and> (rs = [] \<or> rs = [(nat fd, EPOLLIN)])" using Cons.prems(2) by simp
  show ?case
  proof (cases "rs = []")
    case True
    have "event_loop_step sys (program_cbs env sys net accept recv close mem) fuel (Ready []) s = Ret s"
      using Cons.prems(1) by (intro idle_round) (auto simp: serving_def)
    then show ?thesis using Cons.IH [OF Cons.prems(1) rest] x n True by simp
  next
    case False
    then have rs: "rs = [(nat fd, EPOLLIN)]" using Cons.prems(2) x by auto
    obtain s1 c where s1: "event_loop_step sys (program_cbs env sys net accept recv close mem) fuel (Ready [(nat fd, EPOLLIN)]) s = Ret s1"
      "serving env fd la ia sa ta (conns @ [c]) s1" using accept_round [OF Cons.prems(1) fd ok, of sys net recv close] by blast
    from Cons.IH [OF s1(2) rest] obtain s' new where
      "event_rounds sys (program_cbs env sys net accept recv close mem) fuel (ready_rounds rounds) s1 = Ret s'"
      "serving env fd la ia sa ta ((conns @ [c]) @ new) s'" "length new = length (filter (\<lambda>(tv, rs). rs \<noteq> []) rounds)" by blast
    then show ?thesis using s1(1) x n rs by (intro exI [of _ s'] exI [of _ "c # new"]) simp
  qed
qed

text \<open>
  C11. The example program, from its start and with its own callbacks: \<open>main\<close> sets up its three
  events and enters the loop, and after any number of rounds in which epoll_wait reports the
  listening socket or nothing, the queues are well formed, the events of \<open>main\<close> are where they
  were, and each of the rounds that reported the socket has left one more connection: a
  bufferevent with empty buffers and the callbacks of \<open>main.c\<close>, whose two events wait at the end of
  the inserted queue.  The conditions: the socket, the base, the table, the socket pair and the
  signal handler can be made (\<open>main_ok\<close>); the allocations succeed and return free addresses; every
  \<open>accept\<close> succeeds with a descriptor that fits the table and is not the listening one; no signal
  comes; and the time that each round passes uninitialised to the dispatch does not overflow.
\<close>

theorem main_serves:
  fixes s :: "'k bev_base"
  assumes "main_ok env sys (create_listen_sock le) la sa ta s" "finite (dom (events s))" "finite (dom (bufevs s))" "2 < fuel"
    "fresh_mem mem" "good_accept env (create_listen_sock le) accept" "new_client_nr env \<noteq> evsignal_cb_nr env"
    "\<forall>(tv, rs) \<in> set rounds. epoll_timeout (Some tv) \<noteq> None \<and> (rs = [] \<or> rs = [(nat (create_listen_sock le), EPOLLIN)])"
  shows "\<exists>s' conns. main_prog env le sys (program_cbs env sys net accept recv close mem) fuel (ready_rounds rounds) la sa ta s = Ret s' \<and>
    base_view s' ([la, ev_signal s, sa] @ concat (map (\<lambda>(b, r, w). [r, w]) conns)) [[]] [ta] \<and>
    length conns = length (filter (\<lambda>(tv, rs). rs \<noteq> []) rounds) \<and>
    (\<forall>(b, r, w) \<in> set conns. bufevs s' b = Some (conn_bufev r w))"
proof -
  define fd where "fd = create_listen_sock le"
  note ok = assms(1) [folded fd_def]
  note ok' = ok [unfolded main_ok_def]
  let ?run = "program_cbs env sys net accept recv close mem"
  obtain s6 where s6: "main_events env sys fd la sa ta (made_base env s) = Ret s6" "in_loop env fd la sa ta (ev_signal s) s6"
    "event_base.more s6 = event_base.more s" "active_queue s6 = [tailq_init]" "finite (dom (events s6))"
    using main_events_ok [OF ok] assms(2) by blast
  have init: "event_init env s = Ret (made_base env s)" using ok' by (intro event_init_eq) (simp_all add: at_start_def)
  have b6: "bufevs s6 = bufevs s" using s6(3) by (rule same_bufevs)
  have sl: "nat (snd (the (env_pair env))) \<noteq> nat fd" "0 \<le> fd" "fd < nfiles env" "fd \<noteq> -1" using ok' by auto
  have "serving env fd la (ev_signal s) sa ta [] s6"
    using s6(2,5) b6 assms(3) sl unfolding serving_def in_loop_def by (auto simp: conn_events_def)
  moreover have "serving env fd la (ev_signal s) sa ta [] (s6\<lparr>evsignal_base := True\<rparr>)"
    using calculation by (simp add: serving_def base_view_def)
  ultimately have "serving env fd la (ev_signal s) sa ta [] (if ev_signal_added s6 then s6\<lparr>evsignal_base := True\<rparr> else s6)" by simp
  from serving_rounds [OF sl(2,3) assms(4-5) assms(6) [folded fd_def] assms(7) this assms(8) [folded fd_def], of sys net recv close]
  obtain s' new where s': "event_base_loop sys ?run fuel (ready_rounds rounds) s6 = Ret s'"
    "serving env fd la (ev_signal s) sa ta new s'" "length new = length (filter (\<lambda>(tv, rs). rs \<noteq> []) rounds)"
    by (auto simp: event_base_loop_def)
  have "main_prog env le sys ?run fuel (ready_rounds rounds) la sa ta s = Ret s'"
    using sl(4) init s6(1,2) s'(1) by (simp add: main_prog_def fd_def in_loop_def event_dispatch_def event_loop_def Let_def)
  then show ?thesis using s'(2,3) by (intro exI [of _ s'] exI [of _ new]) (simp add: serving_def conn_events_def)
qed

definition demo_mem :: "call list bev_base \<Rightarrow> nat \<times> nat \<times> nat" where
  "demo_mem s = (let b = Suc (Max (insert 0 (dom (bufevs s)))); r = Suc (Max (insert 0 (dom (events s)))) in (b, r, Suc r))"

lemma beyond_dom:
  fixes f :: "nat \<rightharpoonup> 'a"
  assumes "finite (dom f)"
  shows "f (Suc (Max (insert 0 (dom f)))) = None" "f (Suc (Suc (Max (insert 0 (dom f))))) = None"
proof -
  have "x \<le> Max (insert 0 (dom f))" if "x \<in> dom f" for x using assms that by simp
  then show "f (Suc (Max (insert 0 (dom f)))) = None" "f (Suc (Suc (Max (insert 0 (dom f))))) = None"
    by (metis domIff Suc_n_not_le_n, metis domIff Suc_leD Suc_n_not_le_n)
qed

lemma demo_mem_fresh: "fresh_mem demo_mem"
  unfolding fresh_mem_def demo_mem_def Let_def
proof (intro allI impI)
  fix s :: "call list bev_base" and b r w
  assume f: "finite (dom (events s))" "finite (dom (bufevs s))"
    and m: "(Suc (Max (insert 0 (dom (bufevs s)))), Suc (Max (insert 0 (dom (events s)))), Suc (Suc (Max (insert 0 (dom (events s)))))) = (b, r, w)"
  have "bufevs s b = None" "events s r = None" "events s w = None" using m [symmetric] beyond_dom [OF f(1)] beyond_dom(1) [OF f(2)] by simp_all
  then show "bufevs s b = None \<and> events s r = None \<and> events s w = None \<and> r \<noteq> w" using m by auto
qed

text \<open>The descriptors 7 and 0 are free; every \<open>accept\<close> leaves a mark.\<close>

definition demo_accept :: "int \<Rightarrow> call list \<Rightarrow> int \<times> call list" where
  "demo_accept fd k = (if k = [] then 7 else 0, k @ [(0, fd, 0, Null)])"

theorem main_serves_witness:
  "\<exists>s b1 b2 r1 r2 w1 w2. main_prog demo_start_env demo_listen demo_sys
      (program_cbs demo_start_env demo_sys demo_net demo_accept (\<lambda>_ _ k. (0, k)) (\<lambda>_ k. k) demo_mem) 3
      (ready_rounds [((0, 0), [(4, EPOLLIN)]), ((1, 1), []), ((0, 0), [(4, EPOLLIN)])]) 1 2 3
      (event_base.extend demo_start \<lparr>bufevs = Map.empty\<rparr>) = Ret s \<and>
    base_view s [1, 9, 2, r1, w1, r2, w2] [[]] [3] \<and> bufevs s b1 = Some (conn_bufev r1 w1) \<and> bufevs s b2 = Some (conn_bufev r2 w2)"
proof -
  let ?s = "event_base.extend demo_start \<lparr>bufevs = Map.empty\<rparr>"
  have fd: "create_listen_sock demo_listen = 4" by (simp add: create_listen_sock_def demo_listen_def)
  have n: "nfiles demo_start_env = 8" by (simp add: nfiles_def demo_start_env_def)
  then have ok: "main_ok demo_start_env demo_sys (create_listen_sock demo_listen) 1 2 3 ?s"
    by (simp add: fd main_ok_def at_start_def start_ok_def unlisted_def demo_start_def demo_base_def demo_start_env_def demo_sys_def
        zero_event_def demo_links_def handler_ok_def event_base.defs)
  have fin: "finite (dom (events ?s))" "finite (dom (bufevs ?s))" by (simp_all add: event_base.defs demo_start_def demo_base_def)
  have acc: "good_accept demo_start_env (create_listen_sock demo_listen) demo_accept"
    by (simp add: good_accept_def demo_accept_def fd n)
  have ia: "ev_signal ?s = 9" by (simp add: event_base.defs demo_start_def demo_base_def)
  have "\<exists>s' conns. main_prog demo_start_env demo_listen demo_sys
      (program_cbs demo_start_env demo_sys demo_net demo_accept (\<lambda>_ _ k. (0, k)) (\<lambda>_ k. k) demo_mem) 3
      (ready_rounds [((0, 0), [(4, EPOLLIN)]), ((1, 1), []), ((0, 0), [(4, EPOLLIN)])]) 1 2 3 ?s = Ret s' \<and>
    base_view s' ([1, ev_signal ?s, 2] @ concat (map (\<lambda>(b, r, w). [r, w]) conns)) [[]] [3] \<and>
    length conns = length (filter (\<lambda>(tv, rs). rs \<noteq> []) [((0 :: int, 0 :: int), [(4 :: nat, EPOLLIN)]), ((1, 1), []), ((0, 0), [(4, EPOLLIN)])]) \<and>
    (\<forall>(b, r, w) \<in> set conns. bufevs s' b = Some (conn_bufev r w))"
    by (rule main_serves [OF ok fin _ demo_mem_fresh acc]) (simp_all add: fd demo_start_env_def epoll_timeout_def c_long_def)
  then obtain s' conns where s': "main_prog demo_start_env demo_listen demo_sys
      (program_cbs demo_start_env demo_sys demo_net demo_accept (\<lambda>_ _ k. (0, k)) (\<lambda>_ k. k) demo_mem) 3
      (ready_rounds [((0, 0), [(4, EPOLLIN)]), ((1, 1), []), ((0, 0), [(4, EPOLLIN)])]) 1 2 3 ?s = Ret s'"
    "base_view s' ([1, 9, 2] @ concat (map (\<lambda>(b, r, w). [r, w]) conns)) [[]] [3]" "length conns = 2"
    "\<forall>(b, r, w) \<in> set conns. bufevs s' b = Some (conn_bufev r w)" unfolding ia by auto
  obtain b1 r1 w1 b2 r2 w2 where "conns = [(b1, r1, w1), (b2, r2, w2)]"
    using s'(3) by (auto simp: length_Suc_conv numeral_2_eq_2)
  then have "base_view s' [1, 9, 2, r1, w1, r2, w2] [[]] [3]" "bufevs s' b1 = Some (conn_bufev r1 w1)" "bufevs s' b2 = Some (conn_bufev r2 w2)"
    using s'(2,4) by simp_all
  then show ?thesis using s'(1) by blast
qed

end
