(* ===== verification/Mp_Chunk.thy ===== *)
theory Mp_Chunk
  imports Prelude
begin

section \<open>multi\_progress: buffers and chunk queues\<close>

text \<open>
  \<open>multi_progress/buffer.c\<close> and \<open>chunk.c\<close>.  A chunk owns its buffer, so the buffer is part of
  the chunk (\<open>None\<close> is a null \<open>mem\<close>); chunks and queues live in stores.  Every call of \<open>malloc\<close>
  takes the next fresh address; \<open>e_oom\<close> says which calls fail and \<open>e_junk\<close> what fresh memory
  holds.  \<open>chunk_new\<close> and \<open>chunkqueue_new\<close> end without a return statement: \<open>e_left\<close> is the
  pointer that their callers find in the result register.  Sizes are \<open>size_t\<close> of 64 bits.
  \<open>None\<close> is undefined behaviour or a loop that does not end.
\<close>

record buffer =
  b_mem :: "byte list option"
  b_size :: nat
  b_used :: nat

record chunk =
  c_mem :: "buffer option"
  c_offset :: int
  c_next :: ptr

record chunkqueue =
  q_head :: ptr
  q_tail :: ptr
  q_unused :: ptr
  unused_chunks :: nat

record cmem =
  chunks :: "chunk store"
  queues :: "chunkqueue store"
  next_addr :: nat

record env =
  e_oom :: "nat \<Rightarrow> bool"
  e_junk :: byte
  e_left :: "ptr \<Rightarrow> ptr"

definition malloc :: "env \<Rightarrow> ('z cmem_scheme) \<Rightarrow> ptr \<times> 'z cmem_scheme" where
  "malloc E m = (if e_oom E (next_addr m) then Null else Ptr (next_addr m), m\<lparr>next_addr := next_addr m + 1\<rparr>)"

subsection \<open>Buffers\<close>

definition buffer_new :: "env \<Rightarrow> 'z cmem_scheme \<Rightarrow> buffer option \<times> 'z cmem_scheme" where
  "buffer_new E m = (let (p, m1) = malloc E m in
     (if p = Null then None else Some \<lparr>b_mem = None, b_size = 0, b_used = 0\<rparr>, m1))"

definition buffer_reset :: "buffer option \<Rightarrow> buffer option option" where
  "buffer_reset b0 = (case b0 of
     None \<Rightarrow> Some None
   | Some b \<Rightarrow> do {
       b1 \<leftarrow> (if b_size b > 0 then do {
                 p \<leftarrow> b_mem b;
                 p' \<leftarrow> set_opt p 0 0;
                 Some (b\<lparr>b_mem := Some p'\<rparr>) }
               else Some b);
       Some (Some (b1\<lparr>b_used := 0\<rparr>)) })"

text \<open>
  The growth of a full block: \<open>less\<close> is an \<open>int\<close>, and its arithmetic must not overflow; the
  remainder of a negative \<open>less\<close> is negative.
\<close>

definition growth :: "buffer \<Rightarrow> nat \<Rightarrow> int option" where
  "growth b n = (let less = sint (word_of_int (int n - (int (b_size b) - int (b_used b))) :: 32 word);
                     k = less + (128 - (if less < 0 then - (- less mod 128) else less mod 128)) in
     if k < 2 ^ 31 then Some k else None)"

definition resize :: "byte \<Rightarrow> byte list \<Rightarrow> nat \<Rightarrow> byte list" where
  "resize junk p sz = take sz p @ replicate (sz - length p) junk"

definition buffer_append :: "env \<Rightarrow> 'z cmem_scheme \<Rightarrow> buffer option \<Rightarrow> byte list \<Rightarrow> (int \<times> buffer option \<times> 'z cmem_scheme) option" where
  "buffer_append E m b0 bs = (case b0 of
     None \<Rightarrow> Some (-1, None, m)
   | Some b \<Rightarrow> let n = length bs in do {
       (b1, m1) \<leftarrow>
         (if b_size b = 0 then
            let sz = u64 (n + (128 - n mod 128)); (p, m1) = malloc E m in
            Some (b\<lparr>b_size := sz, b_mem := if p = Null then None else Some (replicate sz (e_junk E))\<rparr>, m1)
          else if u64_sub (b_size b) (b_used b) < n then do {
            k \<leftarrow> growth b n;
            let sz = nat ((int (b_size b) + k) mod 2 ^ 64);
            let (p, m1) = malloc E m;
            Some (b\<lparr>b_size := sz, b_mem := if p = Null then None
                      else Some (resize (e_junk E) (case b_mem b of None \<Rightarrow> [] | Some old \<Rightarrow> old) sz)\<rparr>, m1) }
          else Some (b, m));
       if (b_size b = 0 \<or> u64_sub (b_size b) (b_used b) < n) \<and> b_mem b1 = None then Some (-1, Some b1, m1)
       else do {
         p \<leftarrow> b_mem b1;
         p' \<leftarrow> mem_write p (b_used b1) bs;
         Some (0, Some (b1\<lparr>b_mem := Some p', b_used := u64 (b_used b1 + n)\<rparr>), m1) } })"

subsection \<open>Chunks\<close>

definition chunk_new :: "env \<Rightarrow> 'z cmem_scheme \<Rightarrow> ptr \<times> 'z cmem_scheme" where
  "chunk_new E m = (case malloc E m of
     (Ptr a, m1) \<Rightarrow> let (b, m2) = buffer_new E m1 in
       (e_left E (Ptr a), m2\<lparr>chunks := (chunks m2)(a \<mapsto> \<lparr>c_mem = b, c_offset = 0, c_next = Null\<rparr>)\<rparr>)
   | (_, m1) \<Rightarrow> (Null, m1))"

text \<open>The buffer of a chunk goes with it.\<close>

definition chunk_free :: "'z cmem_scheme \<Rightarrow> ptr \<Rightarrow> 'z cmem_scheme option" where
  "chunk_free m c = map_option (\<lambda>h. m\<lparr>chunks := h\<rparr>) (dispose (chunks m) c)"

definition chunk_reset :: "'z cmem_scheme \<Rightarrow> ptr \<Rightarrow> 'z cmem_scheme option" where
  "chunk_reset m c = (if c = Null then Some m else do {
     x \<leftarrow> deref (chunks m) c;
     b \<leftarrow> buffer_reset (c_mem x);
     h \<leftarrow> assign (chunks m) c (\<lambda>x. x\<lparr>c_offset := 0, c_mem := b\<rparr>);
     Some (m\<lparr>chunks := h\<rparr>) })"

subsection \<open>Chunk queues\<close>

definition set_queue :: "'z cmem_scheme \<Rightarrow> ptr \<Rightarrow> (chunkqueue \<Rightarrow> chunkqueue) \<Rightarrow> 'z cmem_scheme option" where
  "set_queue m q f = map_option (\<lambda>h. m\<lparr>queues := h\<rparr>) (assign (queues m) q f)"

definition set_chunk :: "'z cmem_scheme \<Rightarrow> ptr \<Rightarrow> (chunk \<Rightarrow> chunk) \<Rightarrow> 'z cmem_scheme option" where
  "set_chunk m c f = map_option (\<lambda>h. m\<lparr>chunks := h\<rparr>) (assign (chunks m) c f)"

definition chunkqueue_new :: "env \<Rightarrow> 'z cmem_scheme \<Rightarrow> ptr \<times> 'z cmem_scheme" where
  "chunkqueue_new E m = (case malloc E m of
     (Ptr a, m1) \<Rightarrow> (e_left E (Ptr a),
       m1\<lparr>queues := (queues m1)(a \<mapsto> \<lparr>q_head = Null, q_tail = Null, q_unused = Null, unused_chunks = 0\<rparr>)\<rparr>)
   | (_, m1) \<Rightarrow> (Null, m1))"

partial_function (option) free_used_loop :: "'z cmem_scheme \<Rightarrow> ptr \<Rightarrow> 'z cmem_scheme option" where
  "free_used_loop m c = (if c = Null then Some m else
     Option.bind (deref (chunks m) c) (\<lambda>x.
     Option.bind (chunk_free m c) (\<lambda>m1. free_used_loop m1 (c_next x))))"

text \<open>The second loop steps twice: \<open>c = tmp\<close> in its body, then \<open>c = c->next\<close>.\<close>

partial_function (option) free_unused_loop :: "'z cmem_scheme \<Rightarrow> ptr \<Rightarrow> 'z cmem_scheme option" where
  "free_unused_loop m c = (if c = Null then Some m else
     Option.bind (deref (chunks m) c) (\<lambda>x.
     Option.bind (chunk_free m c) (\<lambda>m1.
     Option.bind (deref (chunks m1) (c_next x)) (\<lambda>y. free_unused_loop m1 (c_next y)))))"

definition chunkqueue_free :: "'z cmem_scheme \<Rightarrow> ptr \<Rightarrow> 'z cmem_scheme option" where
  "chunkqueue_free m q = (if q = Null then Some m else do {
     cq \<leftarrow> deref (queues m) q;
     m1 \<leftarrow> free_used_loop m (q_head cq);
     m2 \<leftarrow> free_unused_loop m1 (q_unused cq);
     map_option (\<lambda>h. m2\<lparr>queues := h\<rparr>) (dispose (queues m2) q) })"

definition chunkqueue_get_unused_chunk :: "env \<Rightarrow> 'z cmem_scheme \<Rightarrow> ptr \<Rightarrow> (ptr \<times> 'z cmem_scheme) option" where
  "chunkqueue_get_unused_chunk E m q = do {
     cq \<leftarrow> deref (queues m) q;
     if q_unused cq = Null then Some (chunk_new E m)
     else do {
       x \<leftarrow> deref (chunks m) (q_unused cq);
       m1 \<leftarrow> set_chunk m (q_unused cq) (\<lambda>x. x\<lparr>c_next := Null\<rparr>);
       m2 \<leftarrow> set_queue m1 q (\<lambda>cq. cq\<lparr>q_unused := c_next x, unused_chunks := u64_sub (unused_chunks cq) 1\<rparr>);
       Some (q_unused cq, m2) } }"

definition chunkqueue_append_chunk :: "'z cmem_scheme \<Rightarrow> ptr \<Rightarrow> ptr \<Rightarrow> 'z cmem_scheme option" where
  "chunkqueue_append_chunk m q c = do {
     cq \<leftarrow> deref (queues m) q;
     m1 \<leftarrow> (if q_tail cq \<noteq> Null then set_chunk m (q_tail cq) (\<lambda>x. x\<lparr>c_next := c\<rparr>) else Some m);
     set_queue m1 q (\<lambda>cq. cq\<lparr>q_tail := c, q_head := if q_head cq = Null then c else q_head cq\<rparr>) }"

definition chunkqueue_get_append_chunk :: "env \<Rightarrow> 'z cmem_scheme \<Rightarrow> ptr \<Rightarrow> (ptr \<times> 'z cmem_scheme) option" where
  "chunkqueue_get_append_chunk E m q = do {
     (c, m1) \<leftarrow> chunkqueue_get_unused_chunk E m q;
     if c = Null then Some (Null, m1) else do {
       m2 \<leftarrow> chunkqueue_append_chunk m1 q c;
       Some (c, m2) } }"

text \<open>The test of a chunk: \<open>offset\<close>, an \<open>off_t\<close>, is compared with the \<open>size_t\<close> \<open>used - 1\<close>.\<close>

definition finished :: "chunk \<Rightarrow> bool option" where
  "finished x = map_option (\<lambda>b. b_used b = 0 \<or> c_offset x mod 2 ^ 64 = (int (b_used b) - 1) mod 2 ^ 64) (c_mem x)"

partial_function (option) remove_finished_loop :: "'z cmem_scheme \<Rightarrow> ptr \<Rightarrow> bool \<Rightarrow> 'z cmem_scheme option" where
  "remove_finished_loop m q is_finished =
     Option.bind (deref (queues m) q) (\<lambda>cq. let c = q_head cq in
     if c = Null then Some m else
     Option.bind (deref (chunks m) c) (\<lambda>x.
     Option.bind (finished x) (\<lambda>fin. let fin = (fin \<or> is_finished) in
     if \<not> fin then Some m else
     Option.bind (chunk_reset m c) (\<lambda>m1.
     Option.bind (set_queue m1 q (\<lambda>cq. cq\<lparr>q_head := c_next x, q_tail := if c = q_tail cq then Null else q_tail cq\<rparr>)) (\<lambda>m2.
     Option.bind
       (if unused_chunks cq \<ge> 4 then chunk_free m2 c
        else Option.bind (set_chunk m2 c (\<lambda>x. x\<lparr>c_next := q_unused cq\<rparr>)) (\<lambda>m3.
             set_queue m3 q (\<lambda>cq. cq\<lparr>q_unused := c, unused_chunks := unused_chunks cq + 1\<rparr>))) (\<lambda>m4.
     remove_finished_loop m4 q fin))))))"

definition chunkqueue_remove_finished_chunks :: "'z cmem_scheme \<Rightarrow> ptr \<Rightarrow> 'z cmem_scheme option" where
  "chunkqueue_remove_finished_chunks m q = remove_finished_loop m q False"

partial_function (option) mark_read_loop :: "'z cmem_scheme \<Rightarrow> ptr \<Rightarrow> 'z cmem_scheme option" where
  "mark_read_loop m c = (if c = Null then Some m else
     Option.bind (deref (chunks m) c) (\<lambda>x.
     Option.bind (c_mem x) (\<lambda>b.
     Option.bind (set_chunk m c (\<lambda>x. x\<lparr>c_offset := sint (word_of_int (int (b_used b) - 1) :: 64 word)\<rparr>)) (\<lambda>m1.
     mark_read_loop m1 (c_next x)))))"

definition chunkqueue_reset :: "'z cmem_scheme \<Rightarrow> ptr \<Rightarrow> 'z cmem_scheme option" where
  "chunkqueue_reset m q = (if q = Null then Some m else do {
     cq \<leftarrow> deref (queues m) q;
     m1 \<leftarrow> mark_read_loop m (q_head cq);
     chunkqueue_remove_finished_chunks m1 q })"

subsection \<open>Appending to a buffer\<close>

definition buf_ok :: "buffer \<Rightarrow> bool" where
  "buf_ok b \<longleftrightarrow> (case b_mem b of None \<Rightarrow> b_size b = 0 | Some p \<Rightarrow> length p = b_size b) \<and> b_used b \<le> b_size b \<and> b_size b < 2 ^ 64"

definition b_contents :: "buffer \<Rightarrow> byte list" where
  "b_contents b = (case b_mem b of None \<Rightarrow> [] | Some p \<Rightarrow> take (b_used b) p)"

lemma new_buf_ok: "buf_ok \<lparr>b_mem = None, b_size = 0, b_used = 0\<rparr>" "b_contents \<lparr>b_mem = None, b_size = 0, b_used = 0\<rparr> = []"
  by (simp_all add: buf_ok_def b_contents_def)

lemma buffer_reset_ok: "buf_ok b \<Longrightarrow> \<exists>b'. buffer_reset (Some b) = Some (Some b') \<and> buf_ok b' \<and> b_used b' = 0 \<and> b_contents b' = []"
proof (cases "b_mem b")
  case None
  assume "buf_ok b"
  then show ?thesis using None by (simp add: buf_ok_def buffer_reset_def b_contents_def)
next
  case (Some p)
  assume b: "buf_ok b"
  show ?thesis
  proof (cases "b_size b = 0")
    case True
    then show ?thesis using b Some by (simp add: buf_ok_def buffer_reset_def b_contents_def)
  next
    case False
    then have "buffer_reset (Some b) = Some (Some (b\<lparr>b_mem := Some (p[0 := 0]), b_used := 0\<rparr>))"
      using b Some by (auto simp: buf_ok_def buffer_reset_def set_opt_def)
    then show ?thesis using b Some by (simp add: buf_ok_def b_contents_def)
  qed
qed

lemma length_resize: "length (resize junk p sz) = sz"
  by (simp add: resize_def)

lemma take_resize: "n \<le> length p \<Longrightarrow> length p \<le> sz \<Longrightarrow> take n (resize junk p sz) = take n p"
  by (simp add: resize_def)

lemma growth_ok:
  assumes "buf_ok b" "b_size b - b_used b < n" "n < 2 ^ 31 - 256"
  shows "\<exists>k. growth b n = Some k \<and> int n - (int (b_size b) - int (b_used b)) \<le> k \<and> k < 2 ^ 31"
proof -
  define less where "less = int n - (int (b_size b) - int (b_used b))"
  have r: "0 < less" "less < 2 ^ 31 - 256" using assms by (auto simp: less_def buf_ok_def)
  then have s: "sint (word_of_int less :: 32 word) = less"
    by (simp add: sint_sbintrunc' signed_take_bit_int_eq_self)
  have m: "0 \<le> less mod 128" "less mod 128 < 128" by simp_all
  have "growth b n = Some (less + (128 - less mod 128))"
    using r m unfolding growth_def less_def [symmetric] s Let_def by simp
  then show ?thesis using m r unfolding less_def [symmetric] by auto
qed

text \<open>Room for the rounded-up data; \<open>calls\<close> is the number of calls of \<open>malloc\<close> that must succeed.\<close>

definition supplied :: "env \<Rightarrow> 'z cmem_scheme \<Rightarrow> nat \<Rightarrow> bool" where
  "supplied E m calls \<longleftrightarrow> (\<forall>i < calls. \<not> e_oom E (next_addr m + i))"

lemma write_end:
  assumes "length p = sz" "used + length bs \<le> sz"
  shows "mem_write p used bs = Some (take used p @ bs @ drop (used + length bs) p)"
    "length (take used p @ bs @ drop (used + length bs) p) = sz"
    "take (used + length bs) (take used p @ bs @ drop (used + length bs) p) = take used p @ bs"
  using assms by (simp_all add: mem_write_def)

lemma buffer_append_ok:
  assumes b: "buf_ok b" "b_size b < 2 ^ 62" and n: "length bs < 2 ^ 31 - 256" and E: "supplied E m 1"
  shows "\<exists>b' m'. buffer_append E m (Some b) bs = Some (0, Some b', m') \<and> buf_ok b' \<and>
    b_contents b' = b_contents b @ bs \<and> (m' = m \<or> m' = m\<lparr>next_addr := next_addr m + 1\<rparr>)"
proof -
  have ne: "\<not> e_oom E (next_addr m)" using E by (auto simp: supplied_def)
  have fin: "\<exists>b'. (do { p \<leftarrow> b_mem b1; p' \<leftarrow> mem_write p (b_used b1) bs;
       Some (0 :: int, Some (b1\<lparr>b_mem := Some p', b_used := u64 (b_used b1 + length bs)\<rparr>), m1) }) = Some (0, Some b', m1) \<and> buf_ok b' \<and>
     b_contents b' = b_contents b @ bs"
    if "b_mem b1 = Some p" "length p = b_size b1" "b_used b1 + length bs \<le> b_size b1" "b_size b1 < 2 ^ 64"
      "take (b_used b1) p = b_contents b" for b1 p and m1 :: "'a cmem_scheme"
    using that write_end [OF that(2,3)] by (simp add: buf_ok_def b_contents_def)
  consider (first) "b_size b = 0" | (full) "b_size b \<noteq> 0" "b_size b - b_used b < length bs"
    | (room) "b_size b \<noteq> 0" "length bs \<le> b_size b - b_used b" by linarith
  then show ?thesis
  proof cases
    case first
    define sz where "sz = length bs + (128 - length bs mod 128)"
    have sz: "u64 sz = sz" "length bs \<le> sz" "sz < 2 ^ 64" using n by (simp_all add: sz_def)
    have z: "b_used b = 0" "b_contents b = []" using b(1) first by (auto simp: buf_ok_def b_contents_def split: option.splits)
    let ?b = "b\<lparr>b_size := sz, b_mem := Some (replicate sz (e_junk E))\<rparr>" and ?m = "m\<lparr>next_addr := next_addr m + 1\<rparr>"
    have "buffer_append E m (Some b) bs = do { p \<leftarrow> b_mem ?b; p' \<leftarrow> mem_write p (b_used ?b) bs;
       Some (0, Some (?b\<lparr>b_mem := Some p', b_used := u64 (b_used ?b + length bs)\<rparr>), ?m) }"
      using first ne sz(1) unfolding buffer_append_def sz_def [symmetric] Let_def malloc_def by simp
    then show ?thesis using fin [of ?b "replicate sz (e_junk E)" ?m] sz z by (auto simp del: bind_eq_Some_conv)
  next
    case full
    obtain p where p: "b_mem b = Some p" "length p = b_size b" using b(1) full(1) by (auto simp: buf_ok_def split: option.splits)
    have u: "u64_sub (b_size b) (b_used b) = b_size b - b_used b" using b by (simp add: buf_ok_def)
    obtain k where k: "growth b (length bs) = Some k" "int (length bs) - (int (b_size b) - int (b_used b)) \<le> k" "k < 2 ^ 31"
      using growth_ok [OF b(1) full(2) n] by blast
    define sz where "sz = nat ((int (b_size b) + k) mod 2 ^ 64)"
    have le: "b_used b \<le> b_size b" using b(1) by (simp add: buf_ok_def)
    have "int (b_size b) < 2 ^ 62" using b(2) by simp
    with le have "0 \<le> int (b_size b) + k" "int (b_size b) + k < 2 ^ 64" using k(2,3) full(2) by auto
    then have sz: "int sz = int (b_size b) + k" by (simp add: sz_def)
    have "int sz < 2 ^ 64" using sz k(3) \<open>int (b_size b) < 2 ^ 62\<close> by simp
    then have "sz < 2 ^ 64" by simp
    moreover have "b_size b \<le> sz" "b_used b + length bs \<le> sz" using sz k(2) full(2) le by linarith+
    note r = calculation this
    let ?b = "b\<lparr>b_size := sz, b_mem := Some (resize (e_junk E) p sz)\<rparr>" and ?m = "m\<lparr>next_addr := next_addr m + 1\<rparr>"
    have run: "buffer_append E m (Some b) bs = do { p \<leftarrow> b_mem ?b; p' \<leftarrow> mem_write p (b_used ?b) bs;
       Some (0, Some (?b\<lparr>b_mem := Some p', b_used := u64 (b_used ?b + length bs)\<rparr>), ?m) }"
      using full ne u k(1) p(1) unfolding buffer_append_def Let_def malloc_def by (simp add: sz_def)
    have "take (b_used b) (resize (e_junk E) p sz) = b_contents b"
      using r p le by (simp add: take_resize b_contents_def)
    then show ?thesis using run fin [of ?b "resize (e_junk E) p sz" ?m] r by (auto simp: length_resize simp del: bind_eq_Some_conv)
  next
    case room
    obtain p where p: "b_mem b = Some p" "length p = b_size b" using b(1) room(1) by (auto simp: buf_ok_def split: option.splits)
    have u: "u64_sub (b_size b) (b_used b) = b_size b - b_used b" "b_used b \<le> b_size b" using b by (simp_all add: buf_ok_def)
    have "\<exists>b'. buffer_append E m (Some b) bs = Some (0, Some b', m) \<and> buf_ok b' \<and> b_contents b' = b_contents b @ bs"
      using fin [of b p m] room u p b(2) unfolding buffer_append_def Let_def by (auto simp: b_contents_def)
    then show ?thesis by blast
  qed
qed

end
