(* ===== verification/Mp_Queue.thy ===== *)
theory Mp_Queue
  imports Mp_Chunk
begin

section \<open>multi\_progress: what the chunk queues do\<close>

text \<open>
  The lists that a chunk queue holds, the effect of every operation on them, and the view of all
  the queues of a process, whose chunks are disjoint.
\<close>

subsection \<open>What a chunk queue holds\<close>

definition nexts :: "'z cmem_scheme \<Rightarrow> nat \<Rightarrow> ptr option" where
  "nexts m a = map_option c_next (chunks m a)"

definition chunk_ok :: "'z cmem_scheme \<Rightarrow> nat \<Rightarrow> bool" where
  "chunk_ok m a \<longleftrightarrow> (\<exists>x b. chunks m a = Some x \<and> c_mem x = Some b \<and> buf_ok b)"

definition idle :: "'z cmem_scheme \<Rightarrow> nat \<Rightarrow> bool" where
  "idle m a \<longleftrightarrow> (\<exists>x b. chunks m a = Some x \<and> c_mem x = Some b \<and> b_used b = 0 \<and> c_offset x = 0)"

definition queue_view :: "'z cmem_scheme \<Rightarrow> nat \<Rightarrow> nat list \<Rightarrow> nat list \<Rightarrow> bool" where
  "queue_view m k hs us \<longleftrightarrow> (\<exists>cq. queues m k = Some cq \<and> chain (nexts m) (q_head cq) hs \<and> chain (nexts m) (q_unused cq) us \<and>
     q_tail cq = (if hs = [] then Null else Ptr (last hs)) \<and> unused_chunks cq = length us) \<and>
     length us \<le> 4 \<and> set hs \<inter> set us = {} \<and> (\<forall>a \<in> set hs \<union> set us. chunk_ok m a) \<and> (\<forall>a \<in> set us. idle m a)"

definition fresh :: "'z cmem_scheme \<Rightarrow> bool" where
  "fresh m \<longleftrightarrow> (\<forall>a \<ge> next_addr m. chunks m a = None \<and> queues m a = None)"

text \<open>The unused chunks after the chunks \<open>hs\<close> were recycled one by one.\<close>

fun recycle :: "nat list \<Rightarrow> nat list \<Rightarrow> nat list" where
  "recycle [] us = us"
| "recycle (h # hs) us = recycle hs (if length us \<ge> 4 then us else h # us)"

lemma view_distinct: "queue_view m k hs us \<Longrightarrow> distinct hs \<and> distinct us"
  using chain_distinct by (auto simp: queue_view_def)

lemma nexts_upd [simp]: "nexts (m\<lparr>chunks := (chunks m)(a \<mapsto> x)\<rparr>) = (nexts m)(a \<mapsto> c_next x)"
  by (auto simp: nexts_def)

lemma nexts_other [simp]: "nexts (m\<lparr>queues := q\<rparr>) = nexts m" "nexts (m\<lparr>next_addr := n\<rparr>) = nexts m"
  by (auto simp: nexts_def)

lemma upd_order [simp]: "m\<lparr>queues := q, chunks := c\<rparr> = m\<lparr>chunks := c, queues := q\<rparr>"
  by simp

lemma chain_upd: "a \<notin> set as \<Longrightarrow> chain (nx(a := r)) p as = chain nx p as"
  by (rule chain_cong) auto

text \<open>One round of \<open>chunkqueue_remove_finished_chunks\<close>: the head goes to the unused list or is freed.\<close>

lemma remove_round:
  assumes v: "queue_view m k (h # hs) us" and x: "chunks m h = Some x" "finished x = Some fin" "fin \<or> isf"
  shows "\<exists>m'. remove_finished_loop m (Ptr k) isf = remove_finished_loop m' (Ptr k) True \<and>
    queue_view m' k hs (if length us \<ge> 4 then us else h # us) \<and> cmem.more m' = cmem.more m \<and> next_addr m' = next_addr m \<and>
    (\<forall>a. a \<noteq> h \<longrightarrow> chunks m' a = chunks m a) \<and> (\<forall>j. j \<noteq> k \<longrightarrow> queues m' j = queues m j)"
proof -
  obtain cq where cq: "queues m k = Some cq" "chain (nexts m) (q_head cq) (h # hs)" "chain (nexts m) (q_unused cq) us"
    "q_tail cq = Ptr (last (h # hs))" "unused_chunks cq = length us" and d: "length us \<le> 4" "set (h # hs) \<inter> set us = {}"
    "\<forall>a \<in> set (h # hs) \<union> set us. chunk_ok m a" "\<forall>a \<in> set us. idle m a"
    using v by (auto simp: queue_view_def)
  have dist: "h \<notin> set hs" "h \<notin> set us" using view_distinct [OF v] d(2) by auto
  have hd: "q_head cq = Ptr h" "chain (nexts m) (c_next x) hs" using cq(2) x(1) by (auto simp: nexts_def)
  obtain b where b: "c_mem x = Some b" "buf_ok b" using d(3) x(1) by (auto simp: chunk_ok_def)
  obtain b' where b': "buffer_reset (Some b) = Some (Some b')" "buf_ok b'" "b_used b' = 0" using buffer_reset_ok [OF b(2)] by blast
  let ?x = "x\<lparr>c_offset := 0, c_mem := Some b'\<rparr>"
  let ?tail = "if Ptr h = q_tail cq then Null else q_tail cq"
  let ?q = "cq\<lparr>q_head := c_next x, q_tail := ?tail\<rparr>"
  let ?m2 = "m\<lparr>chunks := (chunks m)(h \<mapsto> ?x), queues := (queues m)(k \<mapsto> ?q)\<rparr>"
  have tail: "?tail = (if hs = [] then Null else Ptr (last hs))" using cq(4) dist by (cases hs) auto
  have others: "\<forall>a \<in> set hs \<union> set us. a \<noteq> h \<and> chunk_ok m a" "\<forall>a \<in> set us. a \<noteq> h \<and> idle m a" using d(3,4) dist by auto
  show ?thesis
  proof (cases "length us \<ge> 4")
    case True
    let ?m = "m\<lparr>chunks := (chunks m)(h := None), queues := (queues m)(k \<mapsto> ?q)\<rparr>"
    have "remove_finished_loop m (Ptr k) isf = remove_finished_loop ?m (Ptr k) True"
      using cq(1,5) hd(1) x(1,2) b b' True
      by (subst remove_finished_loop.simps) (simp add: chunk_reset_def set_queue_def chunk_free_def Let_def, use x(3) in blast)
    moreover have "nexts ?m = (nexts m)(h := None)" by (auto simp: nexts_def)
    then have "queue_view ?m k hs us"
      using cq(3,5) hd(2) d(1,2) tail others dist by (auto simp: queue_view_def chain_upd chunk_ok_def idle_def)
    ultimately show ?thesis using True by (intro exI [of _ ?m]) auto
  next
    case False
    let ?m = "m\<lparr>chunks := (chunks m)(h \<mapsto> ?x\<lparr>c_next := q_unused cq\<rparr>),
      queues := (queues m)(k \<mapsto> ?q\<lparr>q_unused := Ptr h, unused_chunks := length us + 1\<rparr>)\<rparr>"
    have "remove_finished_loop m (Ptr k) isf = remove_finished_loop ?m (Ptr k) True"
      using cq(1,5) hd(1) x(1,2) b b' False
      by (subst remove_finished_loop.simps) (simp add: chunk_reset_def set_queue_def set_chunk_def Let_def, use x(3) in blast)
    moreover have "nexts ?m = (nexts m)(h \<mapsto> q_unused cq)" by (auto simp: nexts_def)
    then have "queue_view ?m k hs (h # us)"
      using cq(3,5) hd(2) d(1,2) tail others dist False b'(2,3) by (auto simp: queue_view_def chain_upd chunk_ok_def idle_def)
    ultimately show ?thesis using False by (intro exI [of _ ?m]) auto
  qed
qed

lemma finished_defined: "chunk_ok m a \<Longrightarrow> \<exists>x fin. chunks m a = Some x \<and> finished x = Some fin"
  by (auto simp: chunk_ok_def finished_def)

lemma remove_all:
  assumes "queue_view m k hs us"
  shows "\<exists>m'. remove_finished_loop m (Ptr k) True = Some m' \<and> queue_view m' k [] (recycle hs us) \<and>
    cmem.more m' = cmem.more m \<and> next_addr m' = next_addr m \<and>
    (\<forall>a. a \<notin> set hs \<longrightarrow> chunks m' a = chunks m a) \<and> (\<forall>j. j \<noteq> k \<longrightarrow> queues m' j = queues m j)"
  using assms
proof (induction hs arbitrary: m us)
  case Nil
  then have "remove_finished_loop m (Ptr k) True = Some m"
    by (subst remove_finished_loop.simps) (auto simp: queue_view_def)
  then show ?case using Nil by (intro exI [of _ m] conjI) simp_all
next
  case (Cons h hs)
  have "chunk_ok m h" using Cons.prems by (simp add: queue_view_def)
  then obtain x fin where x: "chunks m h = Some x" "finished x = Some fin" using finished_defined by blast
  from remove_round [OF Cons.prems x, of True]
  obtain m1 where m1: "remove_finished_loop m (Ptr k) True = remove_finished_loop m1 (Ptr k) True"
    "queue_view m1 k hs (if length us \<ge> 4 then us else h # us)" "cmem.more m1 = cmem.more m \<and> next_addr m1 = next_addr m"
    "\<forall>a. a \<noteq> h \<longrightarrow> chunks m1 a = chunks m a" "\<forall>j. j \<noteq> k \<longrightarrow> queues m1 j = queues m j" by auto
  from Cons.IH [OF m1(2)]
  obtain m2 where m2: "remove_finished_loop m1 (Ptr k) True = Some m2"
    "queue_view m2 k [] (recycle hs (if length us \<ge> 4 then us else h # us))" "cmem.more m2 = cmem.more m1 \<and> next_addr m2 = next_addr m1"
    "\<forall>a. a \<notin> set hs \<longrightarrow> chunks m2 a = chunks m1 a" "\<forall>j. j \<noteq> k \<longrightarrow> queues m2 j = queues m1 j" by blast
  then show ?case using m1(1,3,4,5) m2 by (intro exI [of _ m2]) auto
qed

text \<open>What a call does to the queue: nothing when the head is unfinished, and otherwise everything goes.\<close>

definition head_finished :: "'z cmem_scheme \<Rightarrow> nat list \<Rightarrow> bool" where
  "head_finished m hs \<longleftrightarrow> (\<exists>h x. hs \<noteq> [] \<and> h = hd hs \<and> chunks m h = Some x \<and> finished x = Some True)"

lemma remove_finished_ok:
  assumes v: "queue_view m k hs us"
  shows "\<exists>m'. chunkqueue_remove_finished_chunks m (Ptr k) = Some m' \<and>
    (if head_finished m hs then queue_view m' k [] (recycle hs us) else m' = m) \<and>
    cmem.more m' = cmem.more m \<and> next_addr m' = next_addr m \<and>
    (\<forall>a. a \<notin> set hs \<longrightarrow> chunks m' a = chunks m a) \<and> (\<forall>j. j \<noteq> k \<longrightarrow> queues m' j = queues m j)"
proof (cases "head_finished m hs")
  case True
  then obtain h hs' x where h: "hs = h # hs'" "chunks m h = Some x" "finished x = Some True"
    by (cases hs) (auto simp: head_finished_def)
  from remove_round [OF v [unfolded h(1)] h(2,3), of False]
  obtain m1 where m1: "remove_finished_loop m (Ptr k) False = remove_finished_loop m1 (Ptr k) True"
    "queue_view m1 k hs' (if length us \<ge> 4 then us else h # us)" "cmem.more m1 = cmem.more m \<and> next_addr m1 = next_addr m"
    "\<forall>a. a \<noteq> h \<longrightarrow> chunks m1 a = chunks m a" "\<forall>j. j \<noteq> k \<longrightarrow> queues m1 j = queues m j" by auto
  from remove_all [OF m1(2)]
  obtain m2 where m2: "remove_finished_loop m1 (Ptr k) True = Some m2"
    "queue_view m2 k [] (recycle hs' (if length us \<ge> 4 then us else h # us))" "cmem.more m2 = cmem.more m1 \<and> next_addr m2 = next_addr m1"
    "\<forall>a. a \<notin> set hs' \<longrightarrow> chunks m2 a = chunks m1 a" "\<forall>j. j \<noteq> k \<longrightarrow> queues m2 j = queues m1 j" by blast
  then show ?thesis using True h(1) m1(1,3,4,5) m2
    by (intro exI [of _ m2]) (auto simp: chunkqueue_remove_finished_chunks_def)
next
  case False
  obtain cq where cq: "queues m k = Some cq" "chain (nexts m) (q_head cq) hs" "\<forall>a \<in> set hs. chunk_ok m a"
    using v by (auto simp: queue_view_def)
  have "remove_finished_loop m (Ptr k) False = Some m"
  proof (cases hs)
    case Nil
    then show ?thesis using cq by (subst remove_finished_loop.simps) auto
  next
    case (Cons h hs')
    then obtain x fin where x: "chunks m h = Some x" "finished x = Some fin" using finished_defined cq(3) by (meson list.set_intros(1))
    then show ?thesis using False Cons cq by (subst remove_finished_loop.simps) (auto simp: head_finished_def)
  qed
  then show ?thesis using False
    by (intro exI [of _ m] conjI) (simp_all add: chunkqueue_remove_finished_chunks_def)
qed

subsection \<open>The other operations of a queue\<close>

lemma upd_addr [simp]: "m\<lparr>next_addr := n, chunks := c\<rparr> = m\<lparr>chunks := c, next_addr := n\<rparr>"
  "m\<lparr>next_addr := n, queues := q\<rparr> = m\<lparr>queues := q, next_addr := n\<rparr>"
  by simp_all

lemma chunk_new_ok:
  assumes "supplied E m 2" "e_left E = id"
  shows "chunk_new E m = (Ptr (next_addr m), m\<lparr>chunks := (chunks m)(next_addr m \<mapsto>
    \<lparr>c_mem = Some \<lparr>b_mem = None, b_size = 0, b_used = 0\<rparr>, c_offset = 0, c_next = Null\<rparr>), next_addr := next_addr m + 2\<rparr>)"
proof -
  have "\<not> e_oom E (next_addr m)" "\<not> e_oom E (Suc (next_addr m))"
    using assms(1) supplied_def [of E m 2] by (metis add_0_right add_Suc_right less_2_cases_iff One_nat_def)+
  then show ?thesis using assms(2) by (simp add: chunk_new_def malloc_def buffer_new_def Let_def)
qed

definition chunk_data :: "'z cmem_scheme \<Rightarrow> nat \<Rightarrow> byte list" where
  "chunk_data m a = (case chunks m a of None \<Rightarrow> [] | Some x \<Rightarrow> (case c_mem x of None \<Rightarrow> [] | Some b \<Rightarrow> b_contents b))"

lemma idle_data: "idle m a \<Longrightarrow> chunk_data m a = []"
  by (auto simp: idle_def chunk_data_def b_contents_def split: option.splits)

text \<open>Appending a chunk that is in no list.\<close>

lemma append_chunk_ok:
  assumes v: "queue_view m k hs us" and c: "c \<notin> set hs" "c \<notin> set us" "chunk_ok m c" "nexts m c = Some Null"
  shows "\<exists>m'. chunkqueue_append_chunk m (Ptr k) (Ptr c) = Some m' \<and> queue_view m' k (hs @ [c]) us \<and>
    cmem.more m' = cmem.more m \<and> next_addr m' = next_addr m \<and> (\<forall>a. a \<notin> set hs \<longrightarrow> chunks m' a = chunks m a) \<and>
    (\<forall>a. chunk_data m' a = chunk_data m a) \<and> (\<forall>j. j \<noteq> k \<longrightarrow> queues m' j = queues m j)"
proof -
  obtain cq where cq: "queues m k = Some cq" "chain (nexts m) (q_head cq) hs" "chain (nexts m) (q_unused cq) us"
    "q_tail cq = (if hs = [] then Null else Ptr (last hs))" "unused_chunks cq = length us" and d: "length us \<le> 4"
    "set hs \<inter> set us = {}" "\<forall>a \<in> set hs \<union> set us. chunk_ok m a" "\<forall>a \<in> set us. idle m a"
    using v by (auto simp: queue_view_def)
  show ?thesis
  proof (cases hs rule: rev_cases)
    case Nil
    let ?m = "m\<lparr>chunks := chunks m, queues := (queues m)(k \<mapsto> cq\<lparr>q_tail := Ptr c, q_head := Ptr c\<rparr>)\<rparr>"
    have "chunkqueue_append_chunk m (Ptr k) (Ptr c) = Some ?m"
      using cq Nil by (simp add: chunkqueue_append_chunk_def set_queue_def)
    moreover have "queue_view ?m k (hs @ [c]) us"
      using cq d c Nil by (auto simp: queue_view_def chunk_ok_def idle_def nexts_def)
    moreover have "\<forall>a. chunk_data ?m a = chunk_data m a" by (simp add: chunk_data_def)
    ultimately show ?thesis by (intro exI [of _ ?m]) auto
  next
    case (snoc hs' l)
    obtain x where x: "chunks m l = Some x" "\<exists>b. c_mem x = Some b \<and> buf_ok b" using d(3) snoc by (auto simp: chunk_ok_def)
    have ne: "q_head cq \<noteq> Null" using cq(2) snoc by (cases hs') auto
    have l: "l \<notin> set hs'" "l \<noteq> c" "l \<notin> set us" using view_distinct [OF v] snoc c(1) d(2) by auto
    let ?m = "m\<lparr>chunks := (chunks m)(l \<mapsto> x\<lparr>c_next := Ptr c\<rparr>), queues := (queues m)(k \<mapsto> cq\<lparr>q_tail := Ptr c\<rparr>)\<rparr>"
    have run: "chunkqueue_append_chunk m (Ptr k) (Ptr c) = Some ?m"
      using cq snoc x ne by (simp add: chunkqueue_append_chunk_def set_queue_def set_chunk_def)
    have cs: "c \<notin> set hs'" using c(1) snoc by simp
    have "chain ((nexts m)(l \<mapsto> Ptr c)) p (hs' @ [l, c])" if "chain (nexts m) p (hs' @ [l])" for p
      using that l(1,2) cs c(4) by (induction hs' arbitrary: p) (auto split: if_splits)
    then have "chain ((nexts m)(l \<mapsto> Ptr c)) (q_head cq) (hs @ [c])" using cq(2) snoc by simp
    moreover have "nexts ?m = (nexts m)(l \<mapsto> Ptr c)" by (auto simp: nexts_def)
    moreover have "\<forall>a \<in> set (hs @ [c]) \<union> set us. chunk_ok ?m a" "\<forall>a \<in> set us. idle ?m a"
      using d(3,4) c(3) l x by (auto simp: chunk_ok_def idle_def)
    ultimately have "queue_view ?m k (hs @ [c]) us"
      using cq(3,5) d(1,2) l c(1,2) by (auto simp: queue_view_def chain_upd)
    moreover have "\<forall>a. chunk_data ?m a = chunk_data m a" using x by (simp add: chunk_data_def)
    moreover have "l \<in> set hs" using snoc by simp
    ultimately show ?thesis using run by (intro exI [of _ ?m]) auto
  qed
qed

lemma get_append_ok:
  assumes v: "queue_view m k hs us" and f: "fresh m" "us = [] \<longrightarrow> supplied E m 2 \<and> e_left E = id" "\<forall>a \<in> set hs. a < next_addr m"
  defines "c \<equiv> (if us = [] then next_addr m else hd us)"
  shows "\<exists>m'. chunkqueue_get_append_chunk E m (Ptr k) = Some (Ptr c, m') \<and> queue_view m' k (hs @ [c]) (tl us) \<and>
    cmem.more m' = cmem.more m \<and> next_addr m \<le> next_addr m' \<and> fresh m' \<and> chunk_data m' c = [] \<and>
    (\<exists>x b. chunks m' c = Some x \<and> c_mem x = Some b \<and> (b_size b = 0 \<or> (\<exists>y. chunks m c = Some y \<and> c_mem y = Some b))) \<and>
    (\<forall>a. a \<noteq> c \<longrightarrow> chunk_data m' a = chunk_data m a) \<and>
    (\<forall>a. a \<notin> set (c # hs) \<longrightarrow> chunks m' a = chunks m a) \<and> (\<forall>j. j \<noteq> k \<longrightarrow> queues m' j = queues m j)"
proof -
  obtain cq where cq: "queues m k = Some cq" "chain (nexts m) (q_head cq) hs" "chain (nexts m) (q_unused cq) us"
    "q_tail cq = (if hs = [] then Null else Ptr (last hs))" "unused_chunks cq = length us" and d: "length us \<le> 4"
    "set hs \<inter> set us = {}" "\<forall>a \<in> set hs \<union> set us. chunk_ok m a" "\<forall>a \<in> set us. idle m a"
    using v by (auto simp: queue_view_def)
  have "\<exists>m1. chunkqueue_get_unused_chunk E m (Ptr k) = Some (Ptr c, m1) \<and> queue_view m1 k hs (tl us) \<and> c \<notin> set hs \<and>
    c \<notin> set (tl us) \<and> chunk_ok m1 c \<and> nexts m1 c = Some Null \<and> idle m1 c \<and> fresh m1 \<and>
    (\<exists>x b. chunks m1 c = Some x \<and> c_mem x = Some b \<and> (b_size b = 0 \<or> (\<exists>y. chunks m c = Some y \<and> c_mem y = Some b))) \<and>
    cmem.more m1 = cmem.more m \<and> next_addr m \<le> next_addr m1 \<and>
    (\<forall>a. a \<noteq> c \<longrightarrow> chunks m1 a = chunks m a) \<and> (\<forall>j. j \<noteq> k \<longrightarrow> queues m1 j = queues m j)"
  proof (cases us)
    case Nil
    let ?new = "\<lparr>c_mem = Some \<lparr>b_mem = None, b_size = 0, b_used = 0\<rparr>, c_offset = 0, c_next = Null\<rparr>"
    let ?m = "m\<lparr>chunks := (chunks m)(next_addr m \<mapsto> ?new), queues := queues m, next_addr := next_addr m + 2\<rparr>"
    have "chunkqueue_get_unused_chunk E m (Ptr k) = Some (Ptr c, ?m)"
      using cq(1,3) Nil f(2) chunk_new_ok [of E m] by (simp add: chunkqueue_get_unused_chunk_def c_def)
    moreover have "c \<notin> set hs" using f(3) Nil by (auto simp: c_def)
    moreover have "nexts ?m = (nexts m)(c \<mapsto> Null)" using Nil by (auto simp: nexts_def c_def)
    ultimately show ?thesis using cq d Nil f(1)
      by (intro exI [of _ ?m]) (auto simp: queue_view_def chain_upd chunk_ok_def idle_def c_def fresh_def new_buf_ok(1))
  next
    case (Cons u us')
    obtain x where x: "chunks m u = Some x" using d(3) Cons by (auto simp: chunk_ok_def)
    have u: "q_unused cq = Ptr u" "chain (nexts m) (c_next x) us'" "u \<notin> set us'" "u \<notin> set hs"
      using cq(3) Cons x view_distinct [OF v] d(2) by (auto simp: nexts_def)
    let ?m = "m\<lparr>chunks := (chunks m)(u \<mapsto> x\<lparr>c_next := Null\<rparr>),
      queues := (queues m)(k \<mapsto> cq\<lparr>q_unused := c_next x, unused_chunks := length us'\<rparr>), next_addr := next_addr m\<rparr>"
    have "chunkqueue_get_unused_chunk E m (Ptr k) = Some (Ptr c, ?m)"
      using cq(1,5) Cons u(1) x d(1) by (simp add: chunkqueue_get_unused_chunk_def set_chunk_def set_queue_def c_def)
    moreover have "nexts ?m = (nexts m)(u \<mapsto> Null)" by (auto simp: nexts_def)
    moreover have "u < next_addr m" "k < next_addr m" using f(1) x cq(1) by (auto simp: fresh_def not_le [symmetric])
    ultimately show ?thesis using cq d Cons f(1) u x
      by (intro exI [of _ ?m]) (auto simp: queue_view_def chain_upd chunk_ok_def idle_def c_def fresh_def)
  qed
  then obtain m1 where m1: "chunkqueue_get_unused_chunk E m (Ptr k) = Some (Ptr c, m1)" "queue_view m1 k hs (tl us)" "c \<notin> set hs"
    "c \<notin> set (tl us)" "chunk_ok m1 c" "nexts m1 c = Some Null" "idle m1 c" "fresh m1"
    "\<exists>x b. chunks m1 c = Some x \<and> c_mem x = Some b \<and> (b_size b = 0 \<or> (\<exists>y. chunks m c = Some y \<and> c_mem y = Some b))"
    "cmem.more m1 = cmem.more m" "next_addr m \<le> next_addr m1"
    "\<forall>a. a \<noteq> c \<longrightarrow> chunks m1 a = chunks m a" "\<forall>j. j \<noteq> k \<longrightarrow> queues m1 j = queues m j" by blast
  from append_chunk_ok [OF m1(2-6)]
  obtain m2 where m2: "chunkqueue_append_chunk m1 (Ptr k) (Ptr c) = Some m2" "queue_view m2 k (hs @ [c]) (tl us)"
    "cmem.more m2 = cmem.more m1 \<and> next_addr m2 = next_addr m1" "\<forall>a. a \<notin> set hs \<longrightarrow> chunks m2 a = chunks m1 a"
    "\<forall>a. chunk_data m2 a = chunk_data m1 a" "\<forall>j. j \<noteq> k \<longrightarrow> queues m2 j = queues m1 j" by blast
  have "fresh m2"
  proof -
    have "\<forall>a \<ge> next_addr m2. a \<notin> set hs \<and> a \<noteq> k"
      using f(1,3) m1(11) m2(3) cq(1) by (auto simp: fresh_def)
    then show ?thesis using m1(8) m2(3,4,6) by (auto simp: fresh_def)
  qed
  moreover have "\<forall>a. a \<noteq> c \<longrightarrow> chunk_data m2 a = chunk_data m a" using m1(12) m2(5) by (simp add: chunk_data_def)
  ultimately show ?thesis using m1(1,3,9-13) m2(1-6) idle_data [OF m1(7)]
    by (intro exI [of _ m2]) (auto simp: chunkqueue_get_append_chunk_def)
qed

subsection \<open>Resetting a queue\<close>

lemma wrapped_offset: "sint (word_of_int i :: 64 word) mod 2 ^ 64 = i mod 2 ^ 64"
proof -
  have "take_bit 64 (signed_take_bit 63 i) = take_bit 64 i" by (simp add: take_bit_signed_take_bit)
  then show ?thesis by (simp add: sint_sbintrunc' take_bit_eq_mod)
qed

lemma view_same:
  assumes "queue_view m k hs us" "queues m' k = queues m k" "\<forall>a \<in> set hs \<union> set us. chunks m' a = chunks m a"
  shows "queue_view m' k hs us"
proof -
  have c: "chain (nexts m') p as = chain (nexts m) p as" if "set as \<subseteq> set hs \<union> set us" for p as
    using that assms(3) by (intro chain_cong) (auto simp: nexts_def)
  show ?thesis using assms c [of hs] c [of us] by (auto simp: queue_view_def chunk_ok_def idle_def)
qed

lemma mark_read_ok:
  assumes "chain (nexts m) p hs" "\<forall>a \<in> set hs. chunk_ok m a"
  shows "\<exists>m'. mark_read_loop m p = Some m' \<and> queues m' = queues m \<and> cmem.more m' = cmem.more m \<and> next_addr m' = next_addr m \<and>
    nexts m' = nexts m \<and> (\<forall>a. a \<notin> set hs \<longrightarrow> chunks m' a = chunks m a) \<and>
    (\<forall>a \<in> set hs. chunk_ok m' a \<and> (\<exists>x. chunks m' a = Some x \<and> finished x = Some True))"
  using assms
proof (induction hs arbitrary: m p)
  case Nil
  then show ?case by (subst mark_read_loop.simps) simp
next
  case (Cons h hs)
  obtain x b where x: "chunks m h = Some x" "c_mem x = Some b" "buf_ok b" using Cons.prems(2) by (auto simp: chunk_ok_def)
  have "nexts m h = Some (c_next x)" using x(1) by (simp add: nexts_def)
  then have p: "p = Ptr h" "chain (nexts m) (c_next x) hs" using Cons.prems(1) by auto
  have h: "h \<notin> set hs" using chain_distinct [OF Cons.prems(1)] by simp
  define y where "y = x\<lparr>c_offset := sint (word_of_int (int (b_used b) - 1) :: 64 word)\<rparr>"
  let ?m = "m\<lparr>chunks := (chunks m)(h \<mapsto> y)\<rparr>"
  have nx: "nexts ?m = nexts m" using x(1) by (auto simp: nexts_def y_def)
  have ok: "\<forall>a \<in> set hs. chunk_ok ?m a" using Cons.prems(2) h by (auto simp: chunk_ok_def)
  have ch: "chain (nexts ?m) (c_next x) hs" unfolding nx by (rule p(2))
  obtain m' where m': "mark_read_loop ?m (c_next x) = Some m'" "queues m' = queues m" "cmem.more m' = cmem.more m"
    "next_addr m' = next_addr m" "nexts m' = nexts m" "\<forall>a. a \<notin> set hs \<longrightarrow> chunks m' a = chunks ?m a"
    "\<forall>a \<in> set hs. chunk_ok m' a \<and> (\<exists>x. chunks m' a = Some x \<and> finished x = Some True)"
    using Cons.IH [OF ch ok] unfolding nx by auto
  have "mark_read_loop m p = Some m'"
    using p(1) x m'(1) by (subst mark_read_loop.simps) (simp add: set_chunk_def y_def)
  moreover have "chunks m' h = Some y" using m'(6) h by simp
  then have "chunk_ok m' h" "\<exists>x. chunks m' h = Some x \<and> finished x = Some True"
    using x wrapped_offset [of "int (b_used b) - 1"] by (simp_all add: chunk_ok_def finished_def y_def)
  ultimately show ?case using m'(2-7) by (intro exI [of _ m']) auto
qed

lemma reset_ok:
  assumes v: "queue_view m k hs us"
  shows "\<exists>m'. chunkqueue_reset m (Ptr k) = Some m' \<and> queue_view m' k [] (recycle hs us) \<and>
    cmem.more m' = cmem.more m \<and> next_addr m' = next_addr m \<and>
    (\<forall>a. a \<notin> set hs \<longrightarrow> chunks m' a = chunks m a) \<and> (\<forall>j. j \<noteq> k \<longrightarrow> queues m' j = queues m j)"
proof -
  obtain cq where cq: "queues m k = Some cq" "chain (nexts m) (q_head cq) hs" "\<forall>a \<in> set hs. chunk_ok m a"
    using v by (auto simp: queue_view_def)
  obtain m1 where m1: "mark_read_loop m (q_head cq) = Some m1" "queues m1 = queues m" "cmem.more m1 = cmem.more m"
    "next_addr m1 = next_addr m" "nexts m1 = nexts m" "\<forall>a. a \<notin> set hs \<longrightarrow> chunks m1 a = chunks m a"
    "\<forall>a \<in> set hs. chunk_ok m1 a \<and> (\<exists>x. chunks m1 a = Some x \<and> finished x = Some True)"
    using mark_read_ok [OF cq(2,3)] by blast
  have "set hs \<inter> set us = {}" using v by (simp add: queue_view_def)
  then have idle: "\<forall>a \<in> set us. idle m1 a \<and> chunk_ok m1 a"
    using v m1(6) by (auto simp: queue_view_def idle_def chunk_ok_def)
  have v1: "queue_view m1 k hs us"
    using v m1(2,5,7) idle by (auto simp: queue_view_def)
  obtain m2 where m2: "chunkqueue_remove_finished_chunks m1 (Ptr k) = Some m2"
    "if head_finished m1 hs then queue_view m2 k [] (recycle hs us) else m2 = m1" "cmem.more m2 = cmem.more m1"
    "next_addr m2 = next_addr m1" "\<forall>a. a \<notin> set hs \<longrightarrow> chunks m2 a = chunks m1 a" "\<forall>j. j \<noteq> k \<longrightarrow> queues m2 j = queues m1 j"
    using remove_finished_ok [OF v1] by blast
  have "queue_view m2 k [] (recycle hs us)"
  proof (cases hs)
    case Nil
    then show ?thesis using m2(2) v1 by (auto simp: head_finished_def)
  next
    case (Cons h hs')
    then have "head_finished m1 hs" using m1(7) by (auto simp: head_finished_def)
    then show ?thesis using m2(2) by simp
  qed
  then show ?thesis using cq(1) m1 m2 by (intro exI [of _ m2]) (auto simp: chunkqueue_reset_def)
qed

lemma recycle_set: "set (recycle hs us) \<subseteq> set hs \<union> set us"
  by (induction hs us rule: recycle.induct) (auto split: if_splits)

subsection \<open>All the queues of the process\<close>

definition foot :: "nat list \<times> nat list \<Rightarrow> nat set" where
  "foot v = set (fst v) \<union> set (snd v)"

definition heap_view :: "'z cmem_scheme \<Rightarrow> (nat \<rightharpoonup> nat list \<times> nat list) \<Rightarrow> bool" where
  "heap_view m Q \<longleftrightarrow> fresh m \<and> (\<forall>k v. Q k = Some v \<longrightarrow> queue_view m k (fst v) (snd v)) \<and>
     (\<forall>j k v w. Q j = Some v \<longrightarrow> Q k = Some w \<longrightarrow> j \<noteq> k \<longrightarrow> foot v \<inter> foot w = {})"

lemma view_below: "queue_view m k hs us \<Longrightarrow> fresh m \<Longrightarrow> a \<in> set hs \<union> set us \<Longrightarrow> a < next_addr m"
proof (rule ccontr)
  assume v: "queue_view m k hs us" "fresh m" "a \<in> set hs \<union> set us" "\<not> a < next_addr m"
  then have "chunk_ok m a" by (auto simp: queue_view_def)
  moreover have "chunks m a = None" using v(2,4) by (simp add: fresh_def)
  ultimately show False by (simp add: chunk_ok_def)
qed

lemma view_known: "queue_view m k hs us \<Longrightarrow> fresh m \<Longrightarrow> k < next_addr m"
proof (rule ccontr)
  assume v: "queue_view m k hs us" "fresh m" "\<not> k < next_addr m"
  then have "queues m k = None" by (simp add: fresh_def)
  then show False using v(1) by (simp add: queue_view_def)
qed

lemma heap_step:
  assumes h: "heap_view m Q" "Q k = Some (hs, us)" and n: "fresh m'" "queue_view m' k hs' us'"
    and f: "set hs' \<union> set us' \<subseteq> set hs \<union> set us \<union> {a. next_addr m \<le> a}"
      "\<forall>a. a \<notin> set hs \<union> set us \<longrightarrow> a < next_addr m \<longrightarrow> chunks m' a = chunks m a" "\<forall>j. j \<noteq> k \<longrightarrow> queues m' j = queues m j"
  shows "heap_view m' (Q(k \<mapsto> (hs', us')))"
proof -
  have other: "queue_view m' j (fst v) (snd v) \<and> foot v \<inter> (set hs' \<union> set us') = {}" if j: "j \<noteq> k" "Q j = Some v" for j v
  proof -
    have v: "queue_view m j (fst v) (snd v)" "foot v \<inter> (set hs \<union> set us) = {}" "fresh m"
      using h j by (auto simp: heap_view_def foot_def)
    have b: "\<forall>a \<in> foot v. a < next_addr m" using view_below [OF v(1,3)] by (auto simp: foot_def)
    then have "\<forall>a \<in> set (fst v) \<union> set (snd v). chunks m' a = chunks m a" using v(2) f(2) by (auto simp: foot_def)
    then have "queue_view m' j (fst v) (snd v)" using view_same [OF v(1)] f(3) j(1) by blast
    moreover have "foot v \<inter> (set hs' \<union> set us') = {}"
    proof (intro equals0I)
      fix a assume a: "a \<in> foot v \<inter> (set hs' \<union> set us')"
      then have "a < next_addr m" "a \<notin> set hs \<union> set us" using b v(2) by blast+
      then show False using a f(1) by auto
    qed
    ultimately show ?thesis by blast
  qed
  show ?thesis unfolding heap_view_def
  proof (intro conjI allI impI n(1))
    fix j v assume "(Q(k \<mapsto> (hs', us'))) j = Some v"
    then show "queue_view m' j (fst v) (snd v)" using other [of j v] n(2) by (auto split: if_splits)
  next
    fix i j v w
    assume "(Q(k \<mapsto> (hs', us'))) i = Some v" "(Q(k \<mapsto> (hs', us'))) j = Some w" "i \<noteq> j"
    then show "foot v \<inter> foot w = {}"
      using h(1) other [of i v] other [of j w] by (auto simp: heap_view_def foot_def split: if_splits)
  qed
qed

lemma heap_reset:
  assumes h: "heap_view m Q" "k \<in> dom Q"
  shows "\<exists>m' v. chunkqueue_reset m (Ptr k) = Some m' \<and> heap_view m' (Q(k \<mapsto> v)) \<and> fst v = [] \<and>
    cmem.more m' = cmem.more m \<and> next_addr m' = next_addr m"
proof -
  obtain hs us where q: "Q k = Some (hs, us)" using h(2) by auto
  have v: "queue_view m k hs us" "fresh m" using h(1) q by (auto simp: heap_view_def)
  obtain m' where m': "chunkqueue_reset m (Ptr k) = Some m'" "queue_view m' k [] (recycle hs us)"
    "cmem.more m' = cmem.more m" "next_addr m' = next_addr m"
    "\<forall>a. a \<notin> set hs \<longrightarrow> chunks m' a = chunks m a" "\<forall>j. j \<noteq> k \<longrightarrow> queues m' j = queues m j"
    using reset_ok [OF v(1)] by blast
  have "fresh m'" unfolding fresh_def m'(4)
  proof (intro allI impI)
    fix a assume a: "next_addr m \<le> a"
    then have "a \<notin> set hs" "a \<noteq> k" using view_below [OF v, of a] view_known [OF v] by auto
    then show "chunks m' a = None \<and> queues m' a = None" using a v(2) m'(5,6) by (simp add: fresh_def)
  qed
  then have "heap_view m' (Q(k \<mapsto> ([], recycle hs us)))"
    using heap_step [OF h(1) q _ m'(2)] recycle_set [of hs us] m'(5,6) by (simp add: le_supI1)
  then show ?thesis using m'(1,3,4) by (intro exI [of _ m'] exI [of _ "([], recycle hs us)"]) simp
qed

lemma heap_new:
  assumes "heap_view m Q" "\<not> e_oom E (next_addr m)" "e_left E = id"
  shows "\<exists>m'. chunkqueue_new E m = (Ptr (next_addr m), m') \<and> heap_view m' (Q(next_addr m \<mapsto> ([], []))) \<and>
    cmem.more m' = cmem.more m \<and> next_addr m' = next_addr m + 1 \<and> Q (next_addr m) = None"
proof -
  let ?a = "next_addr m" and ?new = "\<lparr>q_head = Null, q_tail = Null, q_unused = Null, unused_chunks = 0\<rparr>"
  let ?m = "m\<lparr>queues := (queues m)(?a \<mapsto> ?new), next_addr := ?a + 1\<rparr>"
  have f: "fresh m" using assms(1) by (simp add: heap_view_def)
  have a: "Q ?a = None"
  proof (rule ccontr)
    assume "Q ?a \<noteq> None"
    then obtain v where "Q ?a = Some v" by auto
    then have "queue_view m ?a (fst v) (snd v)" using assms(1) by (auto simp: heap_view_def)
    then show False using view_known f by blast
  qed
  have run: "chunkqueue_new E m = (Ptr ?a, ?m)" using assms(2,3) by (simp add: chunkqueue_new_def malloc_def)
  have "queue_view ?m ?a [] []" by (simp add: queue_view_def)
  have old: "queue_view ?m k (fst v) (snd v)" if "Q k = Some v" for k v
  proof -
    have k: "k \<noteq> ?a" using that a by auto
    have "queue_view m k (fst v) (snd v)" using that assms(1) by (simp add: heap_view_def)
    then show ?thesis by (rule view_same) (use k in simp_all)
  qed
  have fr: "fresh ?m" using f by (simp add: fresh_def)
  have apart: "foot v \<inter> foot w = {}" if "Q j = Some v" "Q k = Some w" "j \<noteq> k" for j k v w
    using that assms(1) unfolding heap_view_def by blast
  have "heap_view ?m (Q(?a \<mapsto> ([], [])))"
    unfolding heap_view_def
  proof (intro conjI allI impI fr)
    fix k v assume "(Q(?a \<mapsto> ([], []))) k = Some v"
    then show "queue_view ?m k (fst v) (snd v)" using old [of k v] \<open>queue_view ?m ?a [] []\<close>
      by (auto split: if_splits)
  next
    fix j k v w assume "(Q(?a \<mapsto> ([], []))) j = Some v" "(Q(?a \<mapsto> ([], []))) k = Some w" "j \<noteq> k"
    then show "foot v \<inter> foot w = {}" using apart [of j v k w] by (auto simp: foot_def split: if_splits)
  qed
  then show ?thesis using a run by (intro exI [of _ ?m]) simp
qed

end
