(* ===== verification/Mp_Conn.thy ===== *)
theory Mp_Conn
  imports Mp_Queue
begin

section \<open>multi\_progress: the connection pool and the server\<close>

text \<open>
  \<open>multi_progress/conn.c\<close> and the listening callback of \<open>server.c\<close>.  The state adds the
  connections, the pool of the one global server and the world outside to the chunks and queues.
  libevent and the system calls are the functions of a record; \<open>None\<close> from one of them is
  undefined behaviour inside it.  The array of the pool is a list, empty for a null pointer.
\<close>

record conn =
  co_fd :: int
  ndx :: int
  co_bev :: ptr
  read_q :: ptr
  write_q :: ptr

record conn_mgr =
  cm_ptr :: "ptr list"
  cm_size :: nat
  cm_used :: nat

record 'w mp = cmem +
  conns :: "conn store"
  mgr :: conn_mgr
  world :: 'w

datatype handlers = Conn_handlers | Cgi_handlers

text \<open>\<open>lib_enable\<close> enables reading and, with \<open>True\<close>, writing.\<close>

record 'w lib =
  lib_new :: "int \<Rightarrow> handlers \<Rightarrow> ptr \<Rightarrow> 'w \<Rightarrow> ptr \<times> 'w"
  lib_enable :: "ptr \<Rightarrow> bool \<Rightarrow> 'w \<Rightarrow> 'w option"
  lib_free :: "ptr \<Rightarrow> 'w \<Rightarrow> 'w option"
  lib_input :: "ptr \<Rightarrow> 'w \<Rightarrow> nat option"
  lib_read :: "ptr \<Rightarrow> nat \<Rightarrow> 'w \<Rightarrow> byte list \<times> 'w"
  lib_write :: "ptr \<Rightarrow> byte list \<Rightarrow> 'w \<Rightarrow> int \<times> 'w"
  os_close :: "int \<Rightarrow> 'w \<Rightarrow> 'w"
  os_accept :: "int \<Rightarrow> 'w \<Rightarrow> int \<times> 'w"
  os_pipe :: "'w \<Rightarrow> (int \<times> int) option \<times> 'w"
  os_fork :: "'w \<Rightarrow> int \<times> 'w"
  os_exec :: "int \<Rightarrow> 'w \<Rightarrow> 'w option"

definition set_conn :: "'w mp \<Rightarrow> ptr \<Rightarrow> (conn \<Rightarrow> conn) \<Rightarrow> 'w mp lres" where
  "set_conn m c f = fetch (assign (conns m) c f) (\<lambda>h. Ret (m\<lparr>conns := h\<rparr>))"

definition outside :: "'w mp \<Rightarrow> ('w \<Rightarrow> 'w option) \<Rightarrow> 'w mp lres" where
  "outside m f = fetch (f (world m)) (\<lambda>w. Ret (m\<lparr>world := w\<rparr>))"

subsection \<open>One connection\<close>

definition conn_new :: "env \<Rightarrow> 'w mp \<Rightarrow> (ptr \<times> 'w mp) lres" where
  "conn_new E m = (case malloc E m of
     (Ptr a, m1) \<Rightarrow>
       let (r, m2) = chunkqueue_new E m1; (w, m3) = chunkqueue_new E m2 in
       Ret (Ptr a, m3\<lparr>conns := (conns m3)(a \<mapsto> \<lparr>co_fd = -1, ndx = -1, co_bev = Null, read_q = r, write_q = w\<rparr>)\<rparr>)
   | (_, m1) \<Rightarrow> Raise)"

definition conn_free :: "'w lib \<Rightarrow> 'w mp \<Rightarrow> ptr \<Rightarrow> 'w mp lres" where
  "conn_free L m c = (if c = Null then Ret m else fetch (deref (conns m) c) (\<lambda>x.
     lbind (if co_bev x \<noteq> Null then outside m (lib_free L (co_bev x)) else Ret m) (\<lambda>m1.
     fetch (chunkqueue_free m1 (read_q x)) (\<lambda>m2.
     fetch (chunkqueue_free m2 (write_q x)) (\<lambda>m3.
     fetch (dispose (conns m3) c) (\<lambda>h.
     Ret (m3\<lparr>conns := h, world := os_close L (co_fd x) (world m3)\<rparr>)))))))"

definition conn_register_event :: "'w lib \<Rightarrow> 'w mp \<Rightarrow> ptr \<Rightarrow> 'w mp lres" where
  "conn_register_event L m c = fetch (deref (conns m) c) (\<lambda>x.
     let (b, w) = lib_new L (co_fd x) Conn_handlers c (world m) in
     lbind (set_conn (m\<lparr>world := w\<rparr>) c (\<lambda>x. x\<lparr>co_bev := b\<rparr>)) (\<lambda>m1.
     if b = Null then Ret m1 else outside m1 (lib_enable L b True)))"

definition conn_unregister_event :: "'w lib \<Rightarrow> 'w mp \<Rightarrow> ptr \<Rightarrow> 'w mp lres" where
  "conn_unregister_event L m c = fetch (deref (conns m) c) (\<lambda>x. outside m (lib_free L (co_bev x)))"

definition conn_reset :: "'w lib \<Rightarrow> 'w mp \<Rightarrow> ptr \<Rightarrow> 'w mp lres" where
  "conn_reset L m c = (if c = Null then Ret m else
     lbind (conn_unregister_event L m c) (\<lambda>m1.
     fetch (deref (conns m1) c) (\<lambda>x.
     fetch (if read_q x \<noteq> Null then chunkqueue_reset m1 (read_q x) else Some m1) (\<lambda>m2.
     fetch (if write_q x \<noteq> Null then chunkqueue_reset m2 (write_q x) else Some m2) (\<lambda>m3.
     set_conn (m3\<lparr>world := os_close L (co_fd x) (world m3)\<rparr>) c (\<lambda>x. x\<lparr>co_fd := -1, ndx := -1\<rparr>))))))"

subsection \<open>The pool\<close>

definition conn_mgr_new :: conn_mgr where
  "conn_mgr_new = \<lparr>cm_ptr = [], cm_size = 0, cm_used = 0\<rparr>"

fun free_conns :: "'w lib \<Rightarrow> 'w mp \<Rightarrow> ptr list \<Rightarrow> 'w mp lres" where
  "free_conns L m [] = Ret m"
| "free_conns L m (c # cs) = lbind (conn_free L m c) (\<lambda>m1. free_conns L m1 cs)"

text \<open>The loop runs to \<open>used\<close> only; the array may be null only when it is empty.\<close>

definition conn_mgr_free :: "'w lib \<Rightarrow> 'w mp \<Rightarrow> 'w mp lres" where
  "conn_mgr_free L m = free_conns L m (take (cm_used (mgr m)) (cm_ptr (mgr m)))"

fun new_conns :: "env \<Rightarrow> 'w mp \<Rightarrow> nat \<Rightarrow> (ptr list \<times> 'w mp) lres" where
  "new_conns E m 0 = Ret ([], m)"
| "new_conns E m (Suc n) = lbind (conn_new E m) (\<lambda>(c, m1). lbind (new_conns E m1 n) (\<lambda>(cs, m2). Ret (c # cs, m2)))"

text \<open>The array itself takes one call of \<open>calloc\<close> or \<open>realloc\<close>, whose failure is not tested.\<close>

definition grow :: "env \<Rightarrow> 'w mp \<Rightarrow> 'w mp lres" where
  "grow E m = (let g = mgr m; (p, m1) = malloc E m in
     if p = Null then Fault
     else lbind (new_conns E m1 128) (\<lambda>(cs, m2).
       Ret (m2\<lparr>mgr := \<lparr>cm_ptr = cm_ptr g @ cs, cm_size = cm_size g + 128, cm_used = cm_used g\<rparr>\<rparr>)))"

definition conn_mgr_add_conn :: "env \<Rightarrow> 'w lib \<Rightarrow> 'w mp \<Rightarrow> int \<Rightarrow> 'w mp lres" where
  "conn_mgr_add_conn E L m sock =
     lbind (if cm_size (mgr m) = 0 \<or> cm_size (mgr m) = cm_used (mgr m) then grow E m else Ret m) (\<lambda>m1.
     let g = mgr m1 in
     fetch (nth_opt (cm_ptr g) (cm_used g)) (\<lambda>c.
     lbind (set_conn m1 c (\<lambda>x. x\<lparr>ndx := sint (word_of_nat (cm_used g) :: 32 word)\<rparr>)) (\<lambda>m2.
     lbind (set_conn (m2\<lparr>mgr := g\<lparr>cm_used := cm_used g + 1\<rparr>\<rparr>) c (\<lambda>x. x\<lparr>co_fd := sock\<rparr>)) (\<lambda>m3.
     conn_register_event L m3 c))))"

text \<open>\<open>c\<close> is dereferenced for the log before it is tested.\<close>

definition conn_mgr_del_conn :: "'w lib \<Rightarrow> 'w mp \<Rightarrow> ptr \<Rightarrow> 'w mp lres" where
  "conn_mgr_del_conn L m c = fetch (deref (conns m) c) (\<lambda>x.
     let g = mgr m; n = u64_sub (cm_used g) 1 in
     if ndx x = -1 then Ret m
     else if ndx x mod 2 ^ 64 = int n then
       lbind (set_conn m c (\<lambda>x. x\<lparr>ndx := -1\<rparr>)) (\<lambda>m1.
       lbind (conn_reset L m1 c) (\<lambda>m2. Ret (m2\<lparr>mgr := (mgr m2)\<lparr>cm_used := n\<rparr>\<rparr>)))
     else if ndx x < 0 then Fault
     else let i = nat (ndx x) in
       fetch (nth_opt (cm_ptr g) n) (\<lambda>l.
       fetch (set_opt (cm_ptr g) i l) (\<lambda>p.
       lbind (set_conn m l (\<lambda>y. y\<lparr>ndx := ndx x\<rparr>)) (\<lambda>m1.
       fetch (set_opt p n c) (\<lambda>p'.
       lbind (set_conn m1 c (\<lambda>y. y\<lparr>ndx := -1\<rparr>)) (\<lambda>m2.
       conn_reset L (m2\<lparr>mgr := g\<lparr>cm_ptr := p', cm_used := n\<rparr>\<rparr>) c))))))"

subsection \<open>The callbacks of a connection\<close>

text \<open>
  The body that the two read callbacks share; the log after \<open>buffer_append\<close> dereferences the
  buffer, whose allocation \<open>chunk_new\<close> does not test.
\<close>

definition read_into :: "env \<Rightarrow> 'w lib \<Rightarrow> 'w mp \<Rightarrow> ptr \<Rightarrow> ('w mp \<Rightarrow> ptr option) \<Rightarrow> ('w mp \<Rightarrow> 'w mp lres) \<Rightarrow> 'w mp lres" where
  "read_into E L m bev queue cont = fetch (lib_input L bev (world m)) (\<lambda>len.
     if len = 0 then Ret m
     else let (bs, w) = lib_read L bev len (world m); m0 = m\<lparr>world := w\<rparr> in
       if bs = [] then Ret m0
       else fetch (queue m0) (\<lambda>q. fetch (chunkqueue_get_append_chunk E m0 q) (\<lambda>(ck, m1).
         if ck = Null then Ret m1
         else fetch (deref (chunks m1) ck) (\<lambda>x.
           fetch (buffer_append E m1 (c_mem x) bs) (\<lambda>(r, b0, m2).
           fetch b0 (\<lambda>b. fetch (set_chunk m2 ck (\<lambda>x. x\<lparr>c_mem := Some b\<rparr>)) cont))))))"

text \<open>
  A failed \<open>pipe\<close> ends the function; in the child, \<open>os_exec\<close> replaces the process (\<open>Raise\<close>) or
  fails and the child runs on; a failed \<open>fork\<close> leaks the pipe.
\<close>

definition conn_parse_request :: "'w lib \<Rightarrow> 'w mp \<Rightarrow> ptr \<Rightarrow> 'w mp lres" where
  "conn_parse_request L m c = (case os_pipe L (world m) of
     (None, w) \<Rightarrow> Ret (m\<lparr>world := w\<rparr>)
   | (Some (rd, wr), w) \<Rightarrow> (case os_fork L w of (pid, w1) \<Rightarrow>
       if pid = 0 then (case os_exec L wr (os_close L rd w1) of None \<Rightarrow> Raise | Some w2 \<Rightarrow> Ret (m\<lparr>world := w2\<rparr>))
       else if pid = -1 then Ret (m\<lparr>world := w1\<rparr>)
       else let (b, w2) = lib_new L rd Cgi_handlers c (os_close L wr w1) in outside (m\<lparr>world := w2\<rparr>) (lib_enable L b False)))"

text \<open>
  The loop of \<open>_conn_write_response\<close>: \<open>size\<close> is a \<open>size_t\<close>, so the test \<open>size < 0\<close> never holds,
  and \<open>ck\<close> is never assigned in the loop.
\<close>

partial_function (option) write_loop :: "'w lib \<Rightarrow> 'w mp \<Rightarrow> ptr \<Rightarrow> ptr \<Rightarrow> 'w mp option" where
  "write_loop L m bev ck = (if ck = Null then Some m else
     Option.bind (deref (chunks m) ck) (\<lambda>x.
     Option.bind (c_mem x) (\<lambda>b.
     Option.bind (b_mem b) (\<lambda>p.
     if c_offset x < 0 \<or> c_offset x > int (b_used b) then None
     else let (r, w) = lib_write L bev (drop (nat (c_offset x)) (take (b_used b) p)) (world m) in
       Option.bind (set_chunk (m\<lparr>world := w\<rparr>) ck (\<lambda>x. x\<lparr>c_offset := sint (word_of_int (c_offset x + r) :: 64 word)\<rparr>))
         (\<lambda>m1. write_loop L m1 bev ck)))))"

definition hello :: "byte list" where
  "hello = [104, 101, 108, 108, 111]"

definition conn_write_response :: "'w lib \<Rightarrow> 'w mp \<Rightarrow> ptr \<Rightarrow> 'w mp lres" where
  "conn_write_response L m c = fetch (deref (conns m) c) (\<lambda>x.
     fetch (chunkqueue_remove_finished_chunks m (write_q x)) (\<lambda>m1.
     fetch (deref (queues m1) (write_q x)) (\<lambda>q.
     fetch (write_loop L m1 (co_bev x) (q_head q)) (\<lambda>m2.
     let (r, w) = lib_write L (co_bev x) hello (world m2) in Ret (m2\<lparr>world := w\<rparr>)))))"

definition conn_process_read :: "'w lib \<Rightarrow> 'w mp \<Rightarrow> ptr \<Rightarrow> 'w mp lres" where
  "conn_process_read L m c = fetch (deref (conns m) c) (\<lambda>x.
     fetch (chunkqueue_remove_finished_chunks m (read_q x)) (\<lambda>m1.
     lbind (conn_parse_request L m1 c) (\<lambda>m2. conn_write_response L m2 c)))"

definition conn_handle_read :: "env \<Rightarrow> 'w lib \<Rightarrow> 'w mp \<Rightarrow> ptr \<Rightarrow> ptr \<Rightarrow> 'w mp lres" where
  "conn_handle_read E L m bev c = fetch (deref (conns m) c) (\<lambda>x.
     read_into E L m bev (\<lambda>m. map_option read_q (deref (conns m) c)) (\<lambda>m1. conn_process_read L m1 c))"

definition conn_handle_err :: "'w lib \<Rightarrow> 'w mp \<Rightarrow> ptr \<Rightarrow> 'w mp lres" where
  "conn_handle_err L m c = lbind (conn_mgr_del_conn L m c) (\<lambda>m1. fetch (deref (conns m1) c) (\<lambda>x. Ret m1))"

definition cgi_handle_read :: "env \<Rightarrow> 'w lib \<Rightarrow> 'w mp \<Rightarrow> ptr \<Rightarrow> ptr \<Rightarrow> 'w mp lres" where
  "cgi_handle_read E L m bev c = read_into E L m bev (\<lambda>m. map_option write_q (deref (conns m) c)) Ret"

definition cgi_handle_err :: "'w lib \<Rightarrow> 'w mp \<Rightarrow> ptr \<Rightarrow> 'w mp lres" where
  "cgi_handle_err L m bev = outside m (lib_free L bev)"

subsection \<open>Accepting\<close>

text \<open>\<open>used\<close> is a \<open>size_t\<close>, so \<open>max_conns\<close> is converted to one for the comparison.\<close>

definition server_handle_listen :: "env \<Rightarrow> 'w lib \<Rightarrow> int \<Rightarrow> 'w mp \<Rightarrow> int \<Rightarrow> 'w mp lres" where
  "server_handle_listen E L max_conns m fd =
     (if int (cm_used (mgr m)) > max_conns mod 2 ^ 64 then Ret m
      else case os_accept L fd (world m) of (sock, w) \<Rightarrow>
        if sock < 0 then Ret (m\<lparr>world := w\<rparr>) else conn_mgr_add_conn E L (m\<lparr>world := w\<rparr>) sock)"

end
