(* ===== verification/Mp_Pool.thy ===== *)
theory Mp_Pool
  imports Mp_Conn
begin

section \<open>multi\_progress: the connection pool is a list\<close>

text \<open>
  The invariant of the pool - every slot holds its connection with its own index, the used ones
  with a live \<open>bufferevent\<close> - and the effect of taking and giving back a slot on the list of the
  descriptors that are served.
\<close>

subsection \<open>What the pool needs of libevent\<close>

text \<open>
  \<open>live w\<close> are the \<open>bufferevent\<close>s that exist: a new one is another one, and enabling and freeing
  an existing one is defined.
\<close>

definition lib_ok :: "'w lib \<Rightarrow> ('w \<Rightarrow> ptr set) \<Rightarrow> bool" where
  "lib_ok L live \<longleftrightarrow>
     (\<forall>fd h c w. fst (lib_new L fd h c w) \<noteq> Null \<and> fst (lib_new L fd h c w) \<notin> live w \<and>
        live (snd (lib_new L fd h c w)) = insert (fst (lib_new L fd h c w)) (live w)) \<and>
     (\<forall>b e w. b \<in> live w \<longrightarrow> (\<exists>w'. lib_enable L b e w = Some w' \<and> live w' = live w)) \<and>
     (\<forall>b w. b \<in> live w \<longrightarrow> (\<exists>w'. lib_free L b w = Some w' \<and> live w' = live w - {b})) \<and>
     (\<forall>fd w. live (os_close L fd w) = live w) \<and> (\<forall>fd w. live (snd (os_accept L fd w)) = live w)"

lemma lib_enableD: "lib_ok L live \<Longrightarrow> b \<in> live w \<Longrightarrow> \<exists>w'. lib_enable L b e w = Some w' \<and> live w' = live w"
  by (simp add: lib_ok_def)

lemma lib_freeD: "lib_ok L live \<Longrightarrow> b \<in> live w \<Longrightarrow> \<exists>w'. lib_free L b w = Some w' \<and> live w' = live w - {b}"
  by (simp add: lib_ok_def)

lemma mp_same:
  assumes "cmem.more m' = cmem.more (m :: 'w mp)"
  shows "conns m' = conns m" "mgr m' = mgr m" "world m' = world m"
proof -
  have e: "cmem.more x = \<lparr>conns = conns x, mgr = mgr x, world = world x\<rparr>" for x :: "'w mp"
    by (cases x) simp
  have "\<lparr>conns = conns m', mgr = mgr m', world = world m'\<rparr> = \<lparr>conns = conns m, mgr = mgr m, world = world m\<rparr>"
    using assms unfolding e .
  then show "conns m' = conns m" "mgr m' = mgr m" "world m' = world m" by simp_all
qed

lemma nexts_mp [simp]: "nexts (m\<lparr>conns := c\<rparr>) = nexts (m :: 'w mp)" "nexts (m\<lparr>mgr := g\<rparr>) = nexts (m :: 'w mp)"
  "nexts (m\<lparr>world := w\<rparr>) = nexts (m :: 'w mp)"
  by (auto simp: nexts_def)

lemma heap_mp [simp]: "heap_view (m\<lparr>conns := c\<rparr>) Q = heap_view (m :: 'w mp) Q"
  "heap_view (m\<lparr>mgr := g\<rparr>) Q = heap_view (m :: 'w mp) Q" "heap_view (m\<lparr>world := w\<rparr>) Q = heap_view (m :: 'w mp) Q"
  by (simp_all add: heap_view_def queue_view_def fresh_def chunk_ok_def idle_def)

subsection \<open>Making connections\<close>

definition has_queues :: "conn \<Rightarrow> (nat \<rightharpoonup> nat list \<times> nat list) \<Rightarrow> bool" where
  "has_queues x Q \<longleftrightarrow> (\<exists>r w. read_q x = Ptr r \<and> write_q x = Ptr w \<and> r \<in> dom Q \<and> w \<in> dom Q)"

lemma has_queues_mono: "has_queues x Q \<Longrightarrow> dom Q \<subseteq> dom Q' \<Longrightarrow> has_queues x Q'"
  unfolding has_queues_def by blast

definition blank :: "conn \<Rightarrow> (nat \<rightharpoonup> nat list \<times> nat list) \<Rightarrow> bool" where
  "blank x Q \<longleftrightarrow> ndx x = -1 \<and> has_queues x Q"

definition no_later :: "'w mp \<Rightarrow> bool" where
  "no_later m \<longleftrightarrow> (\<forall>a \<ge> next_addr m. conns m a = None)"

lemma conn_new_ok:
  assumes "heap_view m Q" "no_later m" "\<forall>i. \<not> e_oom E i" "e_left E = id"
  shows "\<exists>m' Q' x. conn_new E m = Ret (Ptr (next_addr m), m') \<and> heap_view m' Q' \<and> no_later m' \<and> dom Q \<subseteq> dom Q' \<and> blank x Q' \<and>
    conns m' = (conns m)(next_addr m \<mapsto> x) \<and> mgr m' = mgr m \<and> world m' = world m \<and> next_addr m' = next_addr m + 3"
proof -
  let ?m1 = "m\<lparr>next_addr := next_addr m + 1\<rparr>"
  have "heap_view ?m1 Q"
    using assms(1) by (auto simp: heap_view_def queue_view_def fresh_def chunk_ok_def idle_def)
  from heap_new [OF this _ assms(4)] obtain m2 where m2: "chunkqueue_new E ?m1 = (Ptr (next_addr m + 1), m2)"
    "heap_view m2 (Q(next_addr m + 1 \<mapsto> ([], [])))" "cmem.more m2 = cmem.more ?m1" "next_addr m2 = next_addr m + 2"
    using assms(3) by auto
  from heap_new [OF m2(2) _ assms(4)] obtain m3 where m3: "chunkqueue_new E m2 = (Ptr (next_addr m + 2), m3)"
    "heap_view m3 (Q(next_addr m + 1 \<mapsto> ([], []), next_addr m + 2 \<mapsto> ([], [])))" "cmem.more m3 = cmem.more m2"
    "next_addr m3 = next_addr m + 3"
    using assms(3) m2(4) by auto
  have s: "conns m3 = conns m" "mgr m3 = mgr m" "world m3 = world m"
    using mp_same [OF m2(3)] mp_same [OF m3(3)] by simp_all
  let ?x = "\<lparr>co_fd = -1, ndx = -1, co_bev = Null, read_q = Ptr (next_addr m + 1), write_q = Ptr (next_addr m + 2)\<rparr>"
  let ?m = "m3\<lparr>conns := (conns m3)(next_addr m \<mapsto> ?x)\<rparr>"
  let ?Q = "Q(next_addr m + 1 \<mapsto> ([], []), next_addr m + 2 \<mapsto> ([], []))"
  have "conn_new E m = Ret (Ptr (next_addr m), ?m)"
    using assms(3) m2(1) m3(1) by (simp add: conn_new_def malloc_def)
  moreover have "heap_view ?m ?Q" using m3(2) by simp
  moreover have "no_later ?m" using assms(2) s(1) m3(4) by (auto simp: no_later_def)
  moreover have "blank ?x ?Q" by (simp add: blank_def has_queues_def)
  moreover have "dom Q \<subseteq> dom ?Q" by auto
  ultimately show ?thesis using s m3(4) by (intro exI [of _ ?m] exI [of _ ?Q] exI [of _ ?x]) simp
qed

lemma blank_mono: "blank x Q \<Longrightarrow> dom Q \<subseteq> dom Q' \<Longrightarrow> blank x Q'"
  using has_queues_mono by (auto simp: blank_def)

lemma new_conns_ok:
  assumes "heap_view m Q" "no_later m" "\<forall>i. \<not> e_oom E i" "e_left E = id"
  shows "\<exists>m' Q' as. new_conns E m n = Ret (map Ptr as, m') \<and> length as = n \<and> heap_view m' Q' \<and> no_later m' \<and> dom Q \<subseteq> dom Q' \<and>
    distinct as \<and> (\<forall>a \<in> set as. next_addr m \<le> a \<and> (\<exists>x. conns m' a = Some x \<and> blank x Q')) \<and>
    (\<forall>a. a < next_addr m \<longrightarrow> conns m' a = conns m a) \<and> mgr m' = mgr m \<and> world m' = world m"
  using assms(1,2)
proof (induction n arbitrary: m Q)
  case 0
  then show ?case by (intro exI [of _ m] exI [of _ Q] exI [of _ "[]"]) simp
next
  case (Suc n)
  obtain m1 Q1 x where m1: "conn_new E m = Ret (Ptr (next_addr m), m1)" "heap_view m1 Q1" "no_later m1" "dom Q \<subseteq> dom Q1"
    "blank x Q1" "conns m1 = (conns m)(next_addr m \<mapsto> x)" "mgr m1 = mgr m" "world m1 = world m" "next_addr m1 = next_addr m + 3"
    using conn_new_ok [OF Suc.prems assms(3,4)] by blast
  obtain m2 Q2 as where m2: "new_conns E m1 n = Ret (map Ptr as, m2)" "length as = n" "heap_view m2 Q2" "no_later m2"
    "dom Q1 \<subseteq> dom Q2" "distinct as" "\<forall>a \<in> set as. next_addr m1 \<le> a \<and> (\<exists>x. conns m2 a = Some x \<and> blank x Q2)"
    "\<forall>a. a < next_addr m1 \<longrightarrow> conns m2 a = conns m1 a" "mgr m2 = mgr m1" "world m2 = world m1"
    using Suc.IH [OF m1(2,3)] by blast
  have "conns m2 (next_addr m) = Some x" using m2(8) m1(6,9) by simp
  moreover have "blank x Q2" using blank_mono [OF m1(5) m2(5)] .
  moreover have "next_addr m \<notin> set as" using m2(7) m1(9) by auto
  moreover have "\<forall>a \<in> set as. next_addr m \<le> a" using m2(7) m1(9) by auto
  moreover have "\<forall>a. a < next_addr m \<longrightarrow> conns m2 a = conns m a" using m2(8) m1(6,9) by auto
  ultimately show ?case using m1(1,4,7,8) m2
    by (intro exI [of _ m2] exI [of _ Q2] exI [of _ "next_addr m # as"]) auto
qed

subsection \<open>The pool as a list\<close>

definition in_slot :: "('w \<Rightarrow> ptr set) \<Rightarrow> 'w mp \<Rightarrow> (nat \<rightharpoonup> nat list \<times> nat list) \<Rightarrow> nat \<Rightarrow> conn \<Rightarrow> bool" where
  "in_slot live m Q i x \<longleftrightarrow> has_queues x Q \<and>
     (if i < cm_used (mgr m) then ndx x = int i \<and> co_bev x \<in> live (world m) else ndx x = -1)"

definition pool_view :: "('w \<Rightarrow> ptr set) \<Rightarrow> 'w mp \<Rightarrow> (nat \<rightharpoonup> nat list \<times> nat list) \<Rightarrow> nat list \<Rightarrow> (nat \<Rightarrow> conn) \<Rightarrow> bool" where
  "pool_view live m Q as xs \<longleftrightarrow> heap_view m Q \<and> no_later m \<and>
     cm_ptr (mgr m) = map Ptr as \<and> cm_size (mgr m) = length as \<and> cm_used (mgr m) \<le> length as \<and> distinct as \<and>
     (\<forall>i < length as. conns m (as ! i) = Some (xs i) \<and> in_slot live m Q i (xs i)) \<and> inj_on (co_bev \<circ> xs) {..<cm_used (mgr m)}"

text \<open>The descriptors of the connections in use, in the order of the slots.\<close>

definition served :: "'w mp \<Rightarrow> int list" where
  "served m = map (\<lambda>p. case deref (conns m) p of None \<Rightarrow> -1 | Some x \<Rightarrow> co_fd x) (take (cm_used (mgr m)) (cm_ptr (mgr m)))"

lemma served_view: "pool_view live m Q as xs \<Longrightarrow> served m = map (co_fd \<circ> xs) [0..<cm_used (mgr m)]"
  by (rule nth_equalityI) (auto simp: served_def pool_view_def)

lemma grow_ok:
  assumes v: "pool_view live m Q as xs" and f: "cm_used (mgr m) = length as" and E: "\<forall>i. \<not> e_oom E i" "e_left E = id"
  shows "\<exists>m' Q' as' xs'. grow E m = Ret m' \<and> pool_view live m' Q' (as @ as') xs' \<and> length as' = 128 \<and> served m' = served m \<and>
    cm_used (mgr m') = cm_used (mgr m) \<and> world m' = world m"
proof -
  let ?m1 = "m\<lparr>next_addr := next_addr m + 1\<rparr>"
  have h: "heap_view ?m1 Q" "no_later ?m1"
    using v by (auto simp: pool_view_def heap_view_def queue_view_def fresh_def chunk_ok_def idle_def no_later_def)
  obtain m2 Q2 as2 where m2: "new_conns E ?m1 128 = Ret (map Ptr as2, m2)" "length as2 = 128" "heap_view m2 Q2" "no_later m2"
    "dom Q \<subseteq> dom Q2" "distinct as2" "\<forall>a \<in> set as2. next_addr ?m1 \<le> a \<and> (\<exists>x. conns m2 a = Some x \<and> blank x Q2)"
    "\<forall>a. a < next_addr ?m1 \<longrightarrow> conns m2 a = conns ?m1 a" "mgr m2 = mgr ?m1" "world m2 = world ?m1"
    using new_conns_ok [OF h E] by blast
  let ?g = "\<lparr>cm_ptr = map Ptr (as @ as2), cm_size = length as + 128, cm_used = length as\<rparr>"
  let ?m = "m2\<lparr>mgr := ?g\<rparr>"
  have g: "cm_ptr (mgr m) = map Ptr as" "cm_size (mgr m) = length as" "distinct as" using v by (simp_all add: pool_view_def)
  have run: "grow E m = Ret ?m" using E(1) m2(1) g f by (simp add: grow_def malloc_def Let_def)
  have old: "conns m2 (as ! i) = Some (xs i)" "as ! i < next_addr m" if "i < length as" for i
  proof -
    have "conns m (as ! i) = Some (xs i)" using v that by (simp add: pool_view_def)
    then show "as ! i < next_addr m" using v by (auto simp: pool_view_def no_later_def not_le [symmetric])
    then show "conns m2 (as ! i) = Some (xs i)" using m2(8) \<open>conns m (as ! i) = Some (xs i)\<close> by simp
  qed
  define ys where "ys i = the (conns m2 ((as @ as2) ! i))" for i
  have ys: "ys i = xs i" if "i < length as" for i using old(1) [OF that] that by (simp add: ys_def nth_append)
  have slot: "conns ?m ((as @ as2) ! i) = Some (ys i) \<and> in_slot live ?m Q2 i (ys i)" if i: "i < length (as @ as2)" for i
  proof (cases "i < length as")
    case True
    then have "in_slot live m Q i (xs i)" using v by (simp add: pool_view_def)
    then show ?thesis using True ys old(1) [OF True] f m2(10) has_queues_mono [OF _ m2(5)] by (auto simp: in_slot_def nth_append)
  next
    case False
    then have "as2 ! (i - length as) \<in> set as2" using i by simp
    then obtain x where "conns m2 (as2 ! (i - length as)) = Some x" "blank x Q2" using m2(7) by blast
    then show ?thesis using False by (auto simp: ys_def nth_append in_slot_def blank_def)
  qed
  have "distinct (as @ as2)"
  proof -
    have "a < next_addr m" if "a \<in> set as" for a using that old(2) by (metis in_set_conv_nth)
    then show ?thesis using g(3) m2(6,7) by fastforce
  qed
  moreover have "inj_on (co_bev \<circ> ys) {..<length as}"
    using v f ys by (auto simp: pool_view_def inj_on_def)
  ultimately have view: "pool_view live ?m Q2 (as @ as2) ys"
    using m2(2,3,4) slot by (simp add: pool_view_def no_later_def)
  have "served ?m = served m" unfolding served_view [OF view] served_view [OF v] using ys f by simp
  then show ?thesis using run view m2(2,10) f by (intro exI [of _ ?m] exI [of _ Q2] exI [of _ as2] exI [of _ ys]) simp
qed

subsection \<open>Taking a slot\<close>

lemma small_index: "n < 2 ^ 31 \<Longrightarrow> sint (word_of_nat n :: 32 word) = int n"
proof -
  assume "n < 2 ^ 31"
  then have "signed_take_bit 31 (int n) = int n" by (intro signed_take_bit_int_eq_self) simp_all
  moreover have "sint (word_of_int (int n) :: 32 word) = signed_take_bit 31 (int n)" by (simp add: sint_sbintrunc' del: of_int_of_nat_eq)
  ultimately show ?thesis by simp
qed

lemma take_slot_ok:
  assumes v: "pool_view live m Q as xs" and u: "cm_used (mgr m) < length as" "length as < 2 ^ 31" and L: "lib_ok L live"
    and nog: "cm_size (mgr m) \<noteq> 0" "cm_size (mgr m) \<noteq> cm_used (mgr m)"
  shows "\<exists>m' xs'. conn_mgr_add_conn E L m sock = Ret m' \<and> pool_view live m' Q as xs' \<and>
    served m' = served m @ [sock] \<and> cm_used (mgr m') = cm_used (mgr m) + 1"
proof -
  let ?n = "cm_used (mgr m)" and ?g = "mgr m"
  let ?a = "as ! ?n" and ?x = "xs ?n"
  have x: "conns m ?a = Some ?x" "has_queues ?x Q" using v u by (simp_all add: pool_view_def in_slot_def)
  have p: "nth_opt (cm_ptr ?g) ?n = Some (Ptr ?a)" using v u by (simp add: pool_view_def)
  define b w where "b = fst (lib_new L sock Conn_handlers (Ptr ?a) (world m))" and
    "w = snd (lib_new L sock Conn_handlers (Ptr ?a) (world m))"
  have new: "lib_new L sock Conn_handlers (Ptr ?a) (world m) = (b, w)" by (simp add: b_def w_def)
  have b: "b \<noteq> Null" "b \<notin> live (world m)" "live w = insert b (live (world m))"
    using L by (simp_all add: lib_ok_def b_def w_def)
  then have "b \<in> live w" by simp
  then obtain w' where w': "lib_enable L b True w = Some w'" "live w' = live w" using lib_enableD [OF L] by blast
  let ?y = "?x\<lparr>ndx := int ?n, co_fd := sock, co_bev := b\<rparr>"
  let ?m = "m\<lparr>conns := (conns m)(?a \<mapsto> ?y), mgr := ?g\<lparr>cm_used := ?n + 1\<rparr>, world := w'\<rparr>"
  have run: "conn_mgr_add_conn E L m sock = Ret ?m"
    using nog p x(1) new w'(1) b(1) small_index [of ?n] u
    by (simp add: conn_mgr_add_conn_def set_conn_def conn_register_event_def outside_def Let_def)
  define ys where "ys = xs(?n := ?y)"
  have at: "as ! i \<noteq> ?a" if "i < length as" "i \<noteq> ?n" for i
    using that u v nth_eq_iff_index_eq [of as i ?n] by (simp add: pool_view_def)
  have slot: "conns ?m (as ! i) = Some (ys i) \<and> in_slot live ?m Q i (ys i)" if i: "i < length as" for i
  proof (cases "i = ?n")
    case True
    then show ?thesis using x(2) b(3) w'(2) by (simp add: ys_def in_slot_def has_queues_def)
  next
    case False
    then have "conns m (as ! i) = Some (xs i)" "in_slot live m Q i (xs i)" using v i by (simp_all add: pool_view_def)
    then show ?thesis using False at [OF i False] b(3) w'(2) by (auto simp: ys_def in_slot_def)
  qed
  have "\<forall>i < ?n. co_bev (xs i) \<noteq> b"
    using v u b(2) by (auto simp: pool_view_def in_slot_def)
  moreover have "inj_on (co_bev \<circ> xs) {..<?n}" using v by (simp add: pool_view_def)
  ultimately have "inj_on (co_bev \<circ> ys) (insert ?n {..<?n})"
    unfolding inj_on_insert by (auto simp: ys_def inj_on_def)
  then have "inj_on (co_bev \<circ> ys) {..<?n + 1}" by (simp add: lessThan_Suc)
  then have view: "pool_view live ?m Q as ys"
    using v u slot by (simp add: pool_view_def no_later_def)
      (use x(1) in \<open>metis option.simps(3)\<close>)
  have "served ?m = served m @ [sock]"
    unfolding served_view [OF view] served_view [OF v] by (simp add: ys_def)
  then show ?thesis using run view by (intro exI [of _ ?m] exI [of _ ys]) simp
qed

lemma add_conn_ok:
  assumes v: "pool_view live m Q as xs" and L: "lib_ok L live" and E: "\<forall>i. \<not> e_oom E i" "e_left E = id" and n: "length as + 128 < 2 ^ 31"
  shows "\<exists>m' Q' as' xs'. conn_mgr_add_conn E L m sock = Ret m' \<and> pool_view live m' Q' as' xs' \<and>
    served m' = served m @ [sock] \<and> cm_used (mgr m') = cm_used (mgr m) + 1 \<and> length as' \<le> length as + 128"
proof (cases "cm_size (mgr m) = 0 \<or> cm_size (mgr m) = cm_used (mgr m)")
  case False
  then have "cm_used (mgr m) < length as" using v by (simp add: pool_view_def)
  then obtain m' xs' where "conn_mgr_add_conn E L m sock = Ret m'" "pool_view live m' Q as xs'" "served m' = served m @ [sock]"
    "cm_used (mgr m') = cm_used (mgr m) + 1"
    using take_slot_ok [OF v _ _ L] False n by fastforce
  then show ?thesis by (intro exI [of _ m'] exI [of _ Q] exI [of _ as] exI [of _ xs']) simp
next
  case True
  then have full: "cm_used (mgr m) = length as" using v by (auto simp: pool_view_def)
  obtain m1 Q1 as1 xs1 where m1: "grow E m = Ret m1" "pool_view live m1 Q1 (as @ as1) xs1" "length as1 = 128" "served m1 = served m"
    "cm_used (mgr m1) = cm_used (mgr m)"
    using grow_ok [OF v full E] by blast
  have c: "cm_size (mgr m1) = length as + 128" using m1(2,3) by (simp add: pool_view_def)
  obtain m' xs' where m': "conn_mgr_add_conn E L m1 sock = Ret m'" "pool_view live m' Q1 (as @ as1) xs'" "served m' = served m1 @ [sock]"
    "cm_used (mgr m') = cm_used (mgr m1) + 1"
    using take_slot_ok [OF m1(2) _ _ L, of E sock] m1(3,5) full n c by auto
  have "conn_mgr_add_conn E L m sock = conn_mgr_add_conn E L m1 sock"
    using True m1(1,5) c full unfolding conn_mgr_add_conn_def by simp
  then show ?thesis using m1(3,4,5) m' by (intro exI [of _ m'] exI [of _ Q1] exI [of _ "as @ as1"] exI [of _ xs']) simp
qed

subsection \<open>Giving a slot back\<close>

text \<open>\<open>conn_reset\<close> empties the queues and frees the \<open>bufferevent\<close> of a connection.\<close>

lemma conn_reset_ok:
  assumes h: "heap_view m Q" and x: "conns m a = Some x" "has_queues x Q" "co_bev x \<in> live (world m)" and L: "lib_ok L live"
  shows "\<exists>m' Q'. conn_reset L m (Ptr a) = Ret m' \<and> heap_view m' Q' \<and> dom Q \<subseteq> dom Q' \<and>
    conns m' = (conns m)(a \<mapsto> x\<lparr>co_fd := -1, ndx := -1\<rparr>) \<and> mgr m' = mgr m \<and> next_addr m' = next_addr m \<and>
    live (world m') = live (world m) - {co_bev x}"
proof -
  obtain w where w: "lib_free L (co_bev x) (world m) = Some w" "live w = live (world m) - {co_bev x}"
    using lib_freeD [OF L x(3)] by blast
  let ?m1 = "m\<lparr>world := w\<rparr>"
  obtain r q where q: "read_q x = Ptr r" "write_q x = Ptr q" "r \<in> dom Q" "q \<in> dom Q" using x(2) by (auto simp: has_queues_def)
  have "heap_view ?m1 Q" using h by simp
  from heap_reset [OF this q(3)] obtain m2 v where m2: "chunkqueue_reset ?m1 (Ptr r) = Some m2" "heap_view m2 (Q(r \<mapsto> v))"
    "cmem.more m2 = cmem.more ?m1" "next_addr m2 = next_addr m" by auto
  have "q \<in> dom (Q(r \<mapsto> v))" using q(4) by simp
  from heap_reset [OF m2(2) this] obtain m3 v' where m3: "chunkqueue_reset m2 (Ptr q) = Some m3" "heap_view m3 (Q(r \<mapsto> v, q \<mapsto> v'))"
    "cmem.more m3 = cmem.more m2" "next_addr m3 = next_addr m2" by blast
  have s: "conns m3 = conns m" "mgr m3 = mgr m" "world m3 = w"
    using mp_same [OF m2(3)] mp_same [OF m3(3)] by simp_all
  let ?m = "m3\<lparr>conns := (conns m)(a \<mapsto> x\<lparr>co_fd := -1, ndx := -1\<rparr>), world := os_close L (co_fd x) w\<rparr>"
  have "conn_reset L m (Ptr a) = Ret ?m"
    using x(1) w(1) q(1,2) m2(1) m3(1) s by (simp add: conn_reset_def conn_unregister_event_def outside_def set_conn_def)
  moreover have "live (os_close L (co_fd x) w) = live w" using L by (simp add: lib_ok_def)
  moreover have "dom Q \<subseteq> dom (Q(r \<mapsto> v, q \<mapsto> v'))" by auto
  ultimately show ?thesis using m3(2,4) m2(4) s w(2)
    by (intro exI [of _ ?m] exI [of _ "Q(r \<mapsto> v, q \<mapsto> v')"]) simp
qed

text \<open>A pool of which the connection \<open>as ! i\<close> was moved to the slot \<open>n\<close> behind the used ones and reset.\<close>

lemma freed_view:
  assumes v: "pool_view live m Q as xs" and i: "i \<le> n" "cm_used (mgr m) = Suc n"
    and h: "heap_view m' Q'" "dom Q \<subseteq> dom Q'" "next_addr m' = next_addr m"
    and g: "mgr m' = \<lparr>cm_ptr = map Ptr (as[i := as ! n, n := as ! i]), cm_size = cm_size (mgr m), cm_used = n\<rparr>"
    and c: "conns m' = (conns m)(as ! n \<mapsto> (xs n)\<lparr>ndx := int i\<rparr>, as ! i \<mapsto> (xs i)\<lparr>co_fd := -1, ndx := -1\<rparr>)"
    and w: "live (world m') = live (world m) - {co_bev (xs i)}"
  shows "\<exists>xs'. pool_view live m' Q' (as[i := as ! n, n := as ! i]) xs' \<and>
    served m' = butlast ((served m)[i := last (served m)])"
proof -
  define as' where "as' = as[i := as ! n, n := as ! i]"
  define ys where "ys = xs(i := (xs n)\<lparr>ndx := int i\<rparr>, n := (xs i)\<lparr>co_fd := -1, ndx := -1\<rparr>)"
  have a: "n < length as" "distinct as" "length as' = length as" using v i by (simp_all add: pool_view_def as'_def)
  have at: "as ! j = as ! k \<longleftrightarrow> j = k" if "j < length as" "k < length as" for j k
    using that a(2) by (simp add: nth_eq_iff_index_eq)
  have x: "conns m (as ! j) = Some (xs j) \<and> has_queues (xs j) Q'" if "j < length as" for j
    using v that has_queues_mono [OF _ h(2)] by (simp add: pool_view_def in_slot_def)
  have bev: "co_bev (xs j) \<noteq> co_bev (xs k)" if "j < Suc n" "k < Suc n" "j \<noteq> k" for j k
    using v that i by (auto simp: pool_view_def inj_on_def)
  have nd: "ndx (xs j) = (if j < Suc n then int j else -1)" "j < Suc n \<longrightarrow> co_bev (xs j) \<in> live (world m)" if "j < length as" for j
    using v that i by (auto simp: pool_view_def in_slot_def)
  have slot: "conns m' (as' ! j) = Some (ys j) \<and> in_slot live m' Q' j (ys j)" if j: "j < length as" for j
  proof -
    consider "j = n" | "j = i" "j \<noteq> n" | "j \<noteq> i" "j \<noteq> n" by blast
    then show ?thesis
    proof cases
      case 1
      then show ?thesis using x [of i] i a(1) by (simp add: as'_def ys_def c in_slot_def g has_queues_def)
    next
      case 2
      then show ?thesis using x [of n] i a(1) at [of i n] nd(2) [of n] bev [of n i]
        by (simp add: as'_def ys_def c in_slot_def g has_queues_def w)
    next
      case 3
      then show ?thesis using x [of j] i a(1) j at [of j i] at [of j n] nd [of j] bev [of j i]
        by (auto simp: as'_def ys_def c in_slot_def g w)
    qed
  qed
  have swap: "distinct as'"
    using a(1,2) i unfolding as'_def by (simp add: distinct_swap)
  have "inj_on (co_bev \<circ> ys) {..<n}"
  proof (rule inj_onI)
    fix j k assume jk: "j \<in> {..<n}" "k \<in> {..<n}" "(co_bev \<circ> ys) j = (co_bev \<circ> ys) k"
    then show "j = k"
      using bev [of "if j = i then n else j" "if k = i then n else k"] by (auto simp: ys_def split: if_splits)
  qed
  moreover have "no_later m'"
  proof -
    have "as ! j < next_addr m" if "j < length as" for j
      using x [OF that] v by (auto simp: pool_view_def no_later_def not_le [symmetric])
    then show ?thesis using v i a(1) by (auto simp: no_later_def pool_view_def c h(3))
  qed
  ultimately have view: "pool_view live m' Q' as' ys"
    using v h(1) a swap slot by (simp add: pool_view_def g as'_def [symmetric])
  have s: "served m = map (co_fd \<circ> xs) [0..<Suc n]" using served_view [OF v] i(2) by simp
  have l: "last (map (co_fd \<circ> xs) [0..<Suc n]) = co_fd (xs n)" by simp
  have "served m' = butlast ((served m)[i := last (served m)])"
    unfolding served_view [OF view] s l by (rule nth_equalityI) (auto simp: g nth_butlast nth_list_update ys_def simp del: upt_Suc)
  then show ?thesis using view unfolding as'_def by blast
qed

lemma del_conn_ok:
  assumes v: "pool_view live m Q as xs" and L: "lib_ok L live" and i: "i < cm_used (mgr m)" and n: "length as < 2 ^ 31"
  shows "\<exists>m' Q' as' xs'. conn_mgr_del_conn L m (cm_ptr (mgr m) ! i) = Ret m' \<and> pool_view live m' Q' as' xs' \<and>
    served m' = butlast ((served m)[i := last (served m)]) \<and> length as' = length as \<and> cm_used (mgr m') = cm_used (mgr m) - 1"
proof -
  define k where "k = cm_used (mgr m) - 1"
  have k: "cm_used (mgr m) = Suc k" "i \<le> k" "k < length as" "cm_ptr (mgr m) = map Ptr as" "distinct as"
    using v i by (auto simp: k_def pool_view_def)
  have u: "u64_sub (cm_used (mgr m)) 1 = k" using k n by simp
  have ptr: "cm_ptr (mgr m) ! i = Ptr (as ! i)" using k by simp
  let ?a = "as ! i" and ?x = "xs i"
  have x: "conns m ?a = Some ?x" "has_queues ?x Q" "ndx ?x = int i" "co_bev ?x \<in> live (world m)"
    using v i k by (simp_all add: pool_view_def in_slot_def)
  have h: "heap_view m Q" using v by (simp add: pool_view_def)
  show ?thesis
  proof (cases "i = k")
    case True
    let ?m1 = "m\<lparr>conns := (conns m)(?a \<mapsto> ?x\<lparr>ndx := -1\<rparr>)\<rparr>"
    have "heap_view ?m1 Q" "conns ?m1 ?a = Some (?x\<lparr>ndx := -1\<rparr>)" "has_queues (?x\<lparr>ndx := -1\<rparr>) Q"
      "co_bev (?x\<lparr>ndx := -1\<rparr>) \<in> live (world ?m1)" using h x by (simp_all add: has_queues_def)
    from conn_reset_ok [OF this L] obtain m2 Q2 where m2: "conn_reset L ?m1 (Ptr ?a) = Ret m2" "heap_view m2 Q2" "dom Q \<subseteq> dom Q2"
      "conns m2 = (conns ?m1)(?a \<mapsto> ?x\<lparr>ndx := -1\<rparr>\<lparr>co_fd := -1, ndx := -1\<rparr>)" "mgr m2 = mgr ?m1" "next_addr m2 = next_addr ?m1"
      "live (world m2) = live (world ?m1) - {co_bev (?x\<lparr>ndx := -1\<rparr>)}" by blast
    let ?m = "m2\<lparr>mgr := (mgr m2)\<lparr>cm_used := k\<rparr>\<rparr>"
    have run: "conn_mgr_del_conn L m (cm_ptr (mgr m) ! i) = Ret ?m"
      unfolding ptr conn_mgr_del_conn_def u Let_def using x(1,3) True m2(1) k n by (simp add: set_conn_def)
    have "as[i := as ! k, k := as ! i] = as" using True by simp
    then have g: "mgr ?m = \<lparr>cm_ptr = map Ptr (as[i := as ! k, k := as ! i]), cm_size = cm_size (mgr m), cm_used = k\<rparr>"
      using m2(5) k by (cases "mgr m") simp
    have c: "conns ?m = (conns m)(as ! k \<mapsto> (xs k)\<lparr>ndx := int i\<rparr>, as ! i \<mapsto> (xs i)\<lparr>co_fd := -1, ndx := -1\<rparr>)"
      using m2(4) True by simp
    have "heap_view ?m Q2" "next_addr ?m = next_addr m" "live (world ?m) = live (world m) - {co_bev ?x}" using m2 by simp_all
    from freed_view [OF v k(2,1) this(1) m2(3) this(2) g c this(3)] run k show ?thesis
      by (intro exI [of _ ?m] exI [of _ Q2] exI [of _ as]) (use True in auto)
  next
    case False
    let ?p = "map Ptr (as[i := as ! k, k := as ! i])"
    have ne: "as ! k \<noteq> ?a" using False k nth_eq_iff_index_eq [of as k i] by simp
    have xk: "conns m (as ! k) = Some (xs k)" using v k by (simp add: pool_view_def)
    let ?m1 = "m\<lparr>conns := (conns m)(as ! k \<mapsto> (xs k)\<lparr>ndx := int i\<rparr>, ?a \<mapsto> ?x\<lparr>ndx := -1\<rparr>),
      mgr := (mgr m)\<lparr>cm_ptr := ?p, cm_used := k\<rparr>\<rparr>"
    have "heap_view ?m1 Q" "conns ?m1 ?a = Some (?x\<lparr>ndx := -1\<rparr>)" "has_queues (?x\<lparr>ndx := -1\<rparr>) Q"
      "co_bev (?x\<lparr>ndx := -1\<rparr>) \<in> live (world ?m1)" using h x by (simp_all add: has_queues_def)
    from conn_reset_ok [OF this L] obtain m2 Q2 where m2: "conn_reset L ?m1 (Ptr ?a) = Ret m2" "heap_view m2 Q2" "dom Q \<subseteq> dom Q2"
      "conns m2 = (conns ?m1)(?a \<mapsto> ?x\<lparr>ndx := -1\<rparr>\<lparr>co_fd := -1, ndx := -1\<rparr>)" "mgr m2 = mgr ?m1" "next_addr m2 = next_addr ?m1"
      "live (world m2) = live (world ?m1) - {co_bev (?x\<lparr>ndx := -1\<rparr>)}" by blast
    have p: "set_opt (cm_ptr (mgr m)) i (Ptr (as ! k)) = Some (map Ptr (as[i := as ! k]))"
      "set_opt (map Ptr (as[i := as ! k])) k (Ptr ?a) = Some ?p" "nth_opt (cm_ptr (mgr m)) k = Some (Ptr (as ! k))"
      using k by (simp_all add: map_update)
    have run: "conn_mgr_del_conn L m (cm_ptr (mgr m) ! i) = Ret m2"
      unfolding ptr conn_mgr_del_conn_def u Let_def using x(1,3) False m2(1) k n p xk ne by (simp add: set_conn_def)
    have g: "mgr m2 = \<lparr>cm_ptr = ?p, cm_size = cm_size (mgr m), cm_used = k\<rparr>" using m2(5) by (cases "mgr m") simp
    have c: "conns m2 = (conns m)(as ! k \<mapsto> (xs k)\<lparr>ndx := int i\<rparr>, as ! i \<mapsto> (xs i)\<lparr>co_fd := -1, ndx := -1\<rparr>)"
      using m2(4) by simp
    have "next_addr m2 = next_addr m" "live (world m2) = live (world m) - {co_bev ?x}" using m2 by simp_all
    from freed_view [OF v k(2,1) m2(2,3) this(1) g c this(2)] run k g show ?thesis
      by (intro exI [of _ m2] exI [of _ Q2] exI [of _ "as[i := as ! k, k := as ! i]"]) auto
  qed
qed

end
