(* ===== verification/Mp_Props.thy ===== *)
theory Mp_Props
  imports Mp_Pool
begin

section \<open>multi\_progress: properties\<close>

text \<open>
  The properties of the chunk queues and of the connection pool, with witnesses over a libevent
  that counts its \<open>bufferevent\<close>s.
\<close>

subsection \<open>The pool\<close>

text \<open>Joining is \<open>conn_mgr_add_conn\<close>, leaving is \<open>conn_mgr_del_conn\<close> of the connection in a slot.\<close>

datatype pool_op = Join int | Leave nat

fun pool_run :: "env \<Rightarrow> 'w lib \<Rightarrow> 'w mp \<Rightarrow> pool_op list \<Rightarrow> 'w mp lres" where
  "pool_run E L m [] = Ret m"
| "pool_run E L m (Join sock # ops) = lbind (conn_mgr_add_conn E L m sock) (\<lambda>m1. pool_run E L m1 ops)"
| "pool_run E L m (Leave i # ops) = fetch (nth_opt (cm_ptr (mgr m)) i) (\<lambda>c. lbind (conn_mgr_del_conn L m c) (\<lambda>m1. pool_run E L m1 ops))"

fun fds_run :: "int list \<Rightarrow> pool_op list \<Rightarrow> int list option" where
  "fds_run fds [] = Some fds"
| "fds_run fds (Join sock # ops) = fds_run (fds @ [sock]) ops"
| "fds_run fds (Leave i # ops) = (if i < length fds then fds_run (butlast (fds[i := last fds])) ops else None)"

definition pool_ok :: "('w \<Rightarrow> ptr set) \<Rightarrow> nat \<Rightarrow> 'w mp \<Rightarrow> bool" where
  "pool_ok live n m \<longleftrightarrow> (\<exists>Q as xs. pool_view live m Q as xs \<and> length as \<le> n)"

lemma length_served: "pool_view live m Q as xs \<Longrightarrow> length (served m) = cm_used (mgr m)"
  using served_view by fastforce

text \<open>
  C7. The connection pool is a list of descriptors.  Any sequence of accepted and closed
  connections runs to its end - through the growth of the pool by 128, the swap with the last
  slot, the reset of the queues and the reuse of slots - and serves exactly the descriptors of
  the list on which the same sequence appends and replaces by the last.  The conditions: every
  \<open>malloc\<close> succeeds; libevent behaves (\<open>lib_ok\<close>); the slots, at most 128 more per call, stay below
  2 ^ 31; and the compiler leaves in \<open>chunk_new\<close> and \<open>chunkqueue_new\<close>, which end without a return
  statement, the pointer from \<open>malloc\<close> in the result register (\<open>e_left E = id\<close>).  By the letter of
  C the last one is never promised, and the first connection is undefined; what is shown is
  that nothing else in the pool is.
\<close>

theorem pool_is_list:
  assumes "pool_ok live n m" "lib_ok L live" "\<forall>i. \<not> e_oom E i" "e_left E = id"
    and "fds_run (served m) ops = Some fds" "n + 128 * (length ops + 1) < 2 ^ 31"
  shows "\<exists>m'. pool_run E L m ops = Ret m' \<and> served m' = fds \<and> pool_ok live (n + 128 * length ops) m'"
  using assms(1,5,6)
proof (induction ops arbitrary: m n)
  case Nil
  then show ?case by simp
next
  case (Cons x ops)
  obtain Q as xs where v: "pool_view live m Q as xs" "length as \<le> n" using Cons.prems(1) by (auto simp: pool_ok_def)
  show ?case
  proof (cases x)
    case (Join sock)
    have "length as + 128 < 2 ^ 31" using v(2) Cons.prems(3) by simp
    from add_conn_ok [OF v(1) assms(2-4) this, of sock] obtain m1 Q' as' xs' where
      m1: "conn_mgr_add_conn E L m sock = Ret m1" "pool_view live m1 Q' as' xs'" "served m1 = served m @ [sock]"
      "length as' \<le> length as + 128" by blast
    have "pool_ok live (n + 128) m1" using m1(2,4) v(2) unfolding pool_ok_def by (meson add_le_mono1 order_trans)
    moreover have "fds_run (served m1) ops = Some fds" using Cons.prems(2) Join m1(3) by simp
    ultimately show ?thesis using Cons.IH [of "n + 128" m1] Cons.prems(3) Join m1(1) by (simp add: algebra_simps)
  next
    case (Leave i)
    have i: "i < cm_used (mgr m)" "fds_run (butlast ((served m)[i := last (served m)])) ops = Some fds"
      using Cons.prems(2) Leave length_served [OF v(1)] by (simp_all split: if_splits)
    have "length as < 2 ^ 31" using v(2) Cons.prems(3) by simp
    from del_conn_ok [OF v(1) assms(2) i(1) this] obtain m1 Q' as' xs' where
      m1: "conn_mgr_del_conn L m (cm_ptr (mgr m) ! i) = Ret m1" "pool_view live m1 Q' as' xs'"
      "served m1 = butlast ((served m)[i := last (served m)])" "length as' = length as" by blast
    have "nth_opt (cm_ptr (mgr m)) i = Some (cm_ptr (mgr m) ! i)" using v(1) i(1) by (simp add: pool_view_def)
    moreover have "length as' \<le> n + 128" using m1(4) v(2) by simp
    then have "pool_ok live (n + 128) m1" using m1(2) unfolding pool_ok_def by blast
    ultimately show ?thesis using Cons.IH [of "n + 128" m1] Cons.prems(3) Leave m1(1,3) i(2) by (simp add: algebra_simps)
  qed
qed

text \<open>A libevent whose world is the number of the next \<open>bufferevent\<close> and the live ones.\<close>

definition demo_lib :: "(nat \<times> nat list) lib" where
  "demo_lib = \<lparr>lib_new = (\<lambda>fd h c (n, bs). (Ptr n, (n + 1, n # filter (\<lambda>b. b < n) bs))),
     lib_enable = (\<lambda>b e w. Some w),
     lib_free = (\<lambda>b (n, bs). case b of Ptr k \<Rightarrow> if k < n \<and> k \<in> set bs then Some (n, removeAll k bs) else None | _ \<Rightarrow> None),
     lib_input = (\<lambda>b w. Some 2), lib_read = (\<lambda>b n w. (take n [7, 8], w)), lib_write = (\<lambda>b bs w. (0, w)), os_close = (\<lambda>fd w. w),
     os_accept = (\<lambda>fd w. (5, w)), os_pipe = (\<lambda>w. (None, w)), os_fork = (\<lambda>w. (-1, w)), os_exec = (\<lambda>fd w. None)\<rparr>"

definition demo_live :: "nat \<times> nat list \<Rightarrow> ptr set" where
  "demo_live w = Ptr ` {b \<in> set (snd w). b < fst w}"

lemma demo_lib_ok: "lib_ok demo_lib demo_live"
  by (auto simp: lib_ok_def demo_lib_def demo_live_def split: ptr.splits)

definition demo_env :: env where
  "demo_env = \<lparr>e_oom = (\<lambda>_. False), e_junk = 0, e_left = id\<rparr>"

definition demo_mp :: "(nat \<times> nat list) mp" where
  "demo_mp = \<lparr>chunks = Map.empty, queues = Map.empty, next_addr = 0, conns = Map.empty, mgr = conn_mgr_new, world = (0, [])\<rparr>"

lemma demo_pool: "pool_ok demo_live 0 demo_mp"
  by (auto simp: pool_ok_def pool_view_def demo_mp_def heap_view_def fresh_def no_later_def conn_mgr_new_def
      intro!: exI [of _ Map.empty] exI [of _ "[]"])

theorem pool_is_list_witness:
  "\<exists>m. pool_run demo_env demo_lib demo_mp [Join 4, Join 5, Join 6, Leave 0, Join 7] = Ret m \<and> served m = [6, 5, 7]"
proof -
  have "\<exists>m. pool_run demo_env demo_lib demo_mp [Join 4, Join 5, Join 6, Leave 0, Join 7] = Ret m \<and> served m = [6, 5, 7] \<and>
      pool_ok demo_live (0 + 128 * length [Join 4, Join 5, Join 6, Leave 0, Join 7]) m"
    by (rule pool_is_list [OF demo_pool demo_lib_ok]) (simp_all add: demo_env_def demo_mp_def served_def conn_mgr_new_def)
  then show ?thesis by blast
qed

text \<open>
  The listening callback accepts when the pool already serves \<open>max_conns\<close> connections, so the
  pool grows to \<open>max_conns + 1\<close>, and never further: beyond that the callback changes nothing.
\<close>

theorem accept_limit:
  assumes "pool_ok live n m" "lib_ok L live" "\<forall>i. \<not> e_oom E i" "e_left E = id" "n + 128 < 2 ^ 31"
    and "0 \<le> max_conns" "max_conns < 2 ^ 31" "int (length (served m)) \<le> max_conns + 1"
    and "os_accept L fd (world m) = (sock, w)" "0 \<le> sock"
  shows "\<exists>m'. server_handle_listen E L max_conns m fd = Ret m' \<and> int (length (served m')) \<le> max_conns + 1 \<and>
    (if int (length (served m)) \<le> max_conns then served m' = served m @ [sock] else m' = m)"
proof -
  obtain Q as xs where v: "pool_view live m Q as xs" "length as \<le> n" using assms(1) by (auto simp: pool_ok_def)
  have u: "length (served m) = cm_used (mgr m)" using length_served [OF v(1)] .
  show ?thesis
  proof (cases "int (length (served m)) \<le> max_conns")
    case False
    then show ?thesis using assms(6-8) u by (simp add: server_handle_listen_def)
  next
    case True
    let ?m = "m\<lparr>world := w\<rparr>"
    have "live w = live (world m)" using assms(2,9) unfolding lib_ok_def by (metis snd_conv)
    then have v1: "pool_view live ?m Q as xs" using v(1) by (simp add: pool_view_def no_later_def in_slot_def)
    have s: "served ?m = served m" by (simp add: served_def)
    have "length as + 128 < 2 ^ 31" using v(2) assms(5) by simp
    from add_conn_ok [OF v1 assms(2-4) this, of sock] s obtain m1 where
      m1: "conn_mgr_add_conn E L ?m sock = Ret m1" "served m1 = served m @ [sock]" by auto
    then show ?thesis using True u assms(6,7,9,10) by (simp add: server_handle_listen_def)
  qed
qed

lemma demo_served: "served demo_mp = []"
  by (simp add: demo_mp_def served_def conn_mgr_new_def)

theorem accept_limit_witness:
  "\<exists>m. server_handle_listen demo_env demo_lib 0 demo_mp 3 = Ret m \<and> served m = [5]"
proof -
  have "\<exists>m'. server_handle_listen demo_env demo_lib 0 demo_mp 3 = Ret m' \<and> int (length (served m')) \<le> 0 + 1 \<and>
    (if int (length (served demo_mp)) \<le> 0 then served m' = served demo_mp @ [5] else m' = demo_mp)"
    by (rule accept_limit [OF demo_pool demo_lib_ok])
      (simp_all add: demo_env_def demo_served demo_lib_def)
  then show ?thesis by (auto simp: demo_served)
qed

subsection \<open>Data\<close>

lemma fill_ok:
  assumes "queue_view m k hs us" "a \<in> set hs" "chunks m a = Some x" "buf_ok b"
  shows "queue_view (m\<lparr>chunks := (chunks m)(a \<mapsto> x\<lparr>c_mem := Some b\<rparr>)\<rparr>) k hs us"
proof -
  have "nexts (m\<lparr>chunks := (chunks m)(a \<mapsto> x\<lparr>c_mem := Some b\<rparr>)\<rparr>) = nexts m" using assms(3) by (auto simp: nexts_def)
  moreover have "a \<notin> set us" using assms(1,2) by (auto simp: queue_view_def)
  ultimately show ?thesis using assms by (auto simp: queue_view_def chunk_ok_def idle_def)
qed

definition queued :: "'z cmem_scheme \<Rightarrow> nat list \<Rightarrow> byte list" where
  "queued m hs = concat (map (chunk_data m) hs)"

lemma read_into_ok:
  assumes v: "queue_view m k hs us" "fresh m" and E: "\<forall>i. \<not> e_oom E i" "e_left E = id"
    and q: "queue (m\<lparr>world := w\<rparr>) = Some (Ptr k)" and r: "lib_input L bev (world m) = Some n" "lib_read L bev n (world m) = (bs, w)"
    and bs: "bs \<noteq> []" "n \<noteq> 0" "length bs < 2 ^ 31 - 256"
    and small: "\<forall>a x b. chunks m a = Some x \<longrightarrow> c_mem x = Some b \<longrightarrow> b_size b < 2 ^ 62"
  shows "\<exists>m' c us'. read_into E L m bev queue cont = cont m' \<and> queue_view m' k (hs @ [c]) us' \<and>
    queued m' (hs @ [c]) = queued m hs @ bs \<and> conns m' = conns m \<and> mgr m' = mgr m"
proof -
  let ?m = "m\<lparr>world := w\<rparr>"
  have v1: "queue_view ?m k hs us" "fresh ?m" using v by (simp_all add: queue_view_def fresh_def chunk_ok_def idle_def)
  define c where "c = (if us = [] then next_addr ?m else hd us)"
  have "supplied E ?m 2" using E(1) by (simp add: supplied_def)
  from get_append_ok [OF v1, of E, folded c_def] this E(2) view_below [OF v1] obtain m1 where
    m1: "chunkqueue_get_append_chunk E ?m (Ptr k) = Some (Ptr c, m1)" "queue_view m1 k (hs @ [c]) (tl us)" "cmem.more m1 = cmem.more ?m"
    "chunk_data m1 c = []" "\<forall>a. a \<noteq> c \<longrightarrow> chunk_data m1 a = chunk_data ?m a"
    and "\<exists>x b. chunks m1 c = Some x \<and> c_mem x = Some b \<and> (b_size b = 0 \<or> (\<exists>y. chunks ?m c = Some y \<and> c_mem y = Some b))"
    by fastforce
  then obtain x b where x: "chunks m1 c = Some x" "c_mem x = Some b" "b_size b < 2 ^ 62" using small by fastforce
  have "chunk_ok m1 c" using m1(2) by (simp add: queue_view_def)
  then have b: "buf_ok b" "b_contents b = []" using x(1,2) m1(4) by (simp_all add: chunk_ok_def chunk_data_def)
  have "supplied E m1 1" using E(1) by (simp add: supplied_def)
  from buffer_append_ok [OF b(1) x(3) bs(3) this] b(2) obtain b2 m2 where b2: "buffer_append E m1 (Some b) bs = Some (0, Some b2, m2)"
    "buf_ok b2" "b_contents b2 = bs" "m2 = m1 \<or> m2 = m1\<lparr>next_addr := next_addr m1 + 1\<rparr>" by auto
  have m2: "queue_view m2 k (hs @ [c]) (tl us)" "chunks m2 = chunks m1" "conns m2 = conns m1" "mgr m2 = mgr m1"
    using b2(4) m1(2) by (auto simp: queue_view_def chunk_ok_def idle_def)
  let ?m3 = "m2\<lparr>chunks := (chunks m2)(c \<mapsto> x\<lparr>c_mem := Some b2\<rparr>)\<rparr>"
  have "read_into E L m bev queue cont = cont ?m3"
    using r bs(1,2) q m1(1) x b2(1) m2(2) by (simp add: read_into_def Let_def set_chunk_def)
  moreover have "queue_view ?m3 k (hs @ [c]) (tl us)" using fill_ok [OF m2(1) _ _ b2(2), of c x] x(1) m2(2) by simp
  moreover have "queued ?m3 (hs @ [c]) = queued m hs @ bs"
  proof -
    have "c \<notin> set hs" using view_distinct [OF m1(2)] by simp
    then have "map (chunk_data ?m3) hs = map (chunk_data m) hs" using m1(5) m2(2) by (auto simp: chunk_data_def)
    moreover have "chunk_data ?m3 c = bs" using b2(3) by (simp add: chunk_data_def)
    ultimately show ?thesis by (simp add: queued_def del: map_eq_conv)
  qed
  moreover have "conns ?m3 = conns m" "mgr ?m3 = mgr m" using mp_same [OF m1(3)] m2(3,4) by simp_all
  ultimately show ?thesis by blast
qed

text \<open>
  C35. Output of a CGI program is queued in order: the bytes read from the pipe go into one more
  chunk at the end of the connection's write queue, and what the queue held stays in front.
  The conditions: the queue is well formed; every \<open>malloc\<close> succeeds; at least one byte and less
  than 2 ^ 31 - 256 are read; every buffer of the program has less than 2 ^ 62 bytes; and
  \<open>chunk_new\<close>, which ends without a return statement and whose value is undefined by the letter
  of C, yields the chunk that it has allocated (\<open>e_left E = id\<close>).
\<close>

theorem cgi_output_queued:
  assumes "conns m c = Some x" "write_q x = Ptr k" "queue_view m k hs us" "fresh m" "\<forall>i. \<not> e_oom E i" "e_left E = id"
    and "lib_input L bev (world m) = Some n" "lib_read L bev n (world m) = (bs, w)" "bs \<noteq> []" "n \<noteq> 0" "length bs < 2 ^ 31 - 256"
    and "\<forall>a x b. chunks m a = Some x \<longrightarrow> c_mem x = Some b \<longrightarrow> b_size b < 2 ^ 62"
  shows "\<exists>m' ck us'. cgi_handle_read E L m bev (Ptr c) = Ret m' \<and> queue_view m' k (hs @ [ck]) us' \<and>
    queued m' (hs @ [ck]) = queued m hs @ bs \<and> conns m' = conns m \<and> mgr m' = mgr m"
  unfolding cgi_handle_read_def
  by (rule read_into_ok [OF assms(3-6) _ assms(7-12)]) (simp add: assms(1,2))

definition demo_link :: conn where
  "demo_link = \<lparr>co_fd = 4, ndx = 0, co_bev = Ptr 0, read_q = Ptr 1, write_q = Ptr 1\<rparr>"

definition demo_conn1 :: "(nat \<times> nat list) mp" where
  "demo_conn1 = demo_mp\<lparr>queues := [1 \<mapsto> \<lparr>q_head = Null, q_tail = Null, q_unused = Null, unused_chunks = 0\<rparr>],
     conns := [0 \<mapsto> demo_link], next_addr := 2\<rparr>"

theorem cgi_output_queued_witness:
  "\<exists>m ck us. cgi_handle_read demo_env demo_lib demo_conn1 (Ptr 3) (Ptr 0) = Ret m \<and> queue_view m 1 [ck] us \<and> queued m [ck] = [7, 8]"
proof -
  have "\<exists>m' ck us'. cgi_handle_read demo_env demo_lib demo_conn1 (Ptr 3) (Ptr 0) = Ret m' \<and> queue_view m' 1 ([] @ [ck]) us' \<and>
    queued m' ([] @ [ck]) = queued demo_conn1 [] @ [7, 8] \<and> conns m' = conns demo_conn1 \<and> mgr m' = mgr demo_conn1"
    by (rule cgi_output_queued [where x = demo_link and us = "[]" and n = 2 and w = "world demo_conn1"])
      (simp_all add: demo_conn1_def demo_link_def demo_mp_def demo_env_def demo_lib_def queue_view_def fresh_def)
  then show ?thesis by (auto simp: queued_def)
qed

text \<open>
  C36. A response is never sent: when the write queue has a first chunk that is not read up,
  \<open>_conn_write_response\<close> does not return, because its loop never moves to the next chunk.
\<close>

lemma write_loop_stuck:
  assumes "write_loop L m bev ck = Some m'"
  shows "ck = Null"
  by (rule write_loop.raw_induct [where P = "\<lambda>L m bev ck m'. ck = Null", OF _ assms])
    (auto split: if_splits option.splits bind_splits prod.splits)

theorem response_never_returns:
  assumes "conns m c = Some x" "write_q x = Ptr k" "queue_view m k (h # hs) us" "\<not> head_finished m (h # hs)"
  shows "conn_write_response L m (Ptr c) = Fault"
proof -
  have "chunkqueue_remove_finished_chunks m (Ptr k) = Some m" using remove_finished_ok [OF assms(3)] assms(4) by auto
  moreover obtain q where "queues m k = Some q" "q_head q = Ptr h" using assms(3) by (auto simp: queue_view_def)
  moreover have "write_loop L m (co_bev x) (Ptr h) = None" using write_loop_stuck [of L m "co_bev x" "Ptr h"] by (cases "write_loop L m (co_bev x) (Ptr h)") auto
  ultimately show ?thesis using assms(1,2) by (simp add: conn_write_response_def)
qed

definition demo_chunk :: "byte list \<Rightarrow> ptr \<Rightarrow> chunk" where
  "demo_chunk bs p = \<lparr>c_mem = Some \<lparr>b_mem = Some bs, b_size = length bs, b_used = length bs\<rparr>, c_offset = 0, c_next = p\<rparr>"

definition demo_conn2 :: "byte list \<Rightarrow> (nat \<times> nat list) mp" where
  "demo_conn2 bs = demo_conn1\<lparr>queues := [1 \<mapsto> \<lparr>q_head = Ptr 2, q_tail = Ptr 3, q_unused = Null, unused_chunks = 0\<rparr>],
     chunks := [2 \<mapsto> demo_chunk bs (Ptr 3), 3 \<mapsto> demo_chunk [4, 5, 6] Null], next_addr := 4\<rparr>"

lemma demo_conn2_view: "length bs < 100 \<Longrightarrow> queue_view (demo_conn2 bs) 1 [2, 3] []"
  by (auto simp: queue_view_def demo_conn2_def nexts_def chunk_ok_def demo_chunk_def buf_ok_def)

theorem response_never_returns_witness: "conn_write_response demo_lib (demo_conn2 [1, 2]) (Ptr 0) = Fault"
  by (rule response_never_returns [OF _ _ demo_conn2_view, where x = demo_link])
    (simp_all add: demo_conn2_def demo_conn1_def demo_link_def head_finished_def demo_chunk_def finished_def)

text \<open>
  Unread data is dropped: once the first chunk counts as read, every chunk behind it is
  removed too, because the flag of the loop is never reset; and a chunk of one byte of which
  nothing has been read already counts.
\<close>

theorem unread_chunks_dropped:
  assumes "queue_view m k (h # hs) us" "chunks m h = Some x" "c_mem x = Some b" "b_used b = 1" "c_offset x = 0"
  shows "\<exists>m'. chunkqueue_remove_finished_chunks m (Ptr k) = Some m' \<and> queue_view m' k [] (recycle (h # hs) us)"
proof -
  have "head_finished m (h # hs)" using assms by (simp add: head_finished_def finished_def)
  then show ?thesis using remove_finished_ok [OF assms(1)] by auto
qed

theorem unread_chunks_dropped_witness:
  "queued (demo_conn2 [9]) [2, 3] = [9, 4, 5, 6] \<and>
   (\<exists>m. chunkqueue_remove_finished_chunks (demo_conn2 [9]) (Ptr 1) = Some m \<and> queue_view m 1 [] [3, 2])"
proof -
  have "\<exists>m. chunkqueue_remove_finished_chunks (demo_conn2 [9]) (Ptr 1) = Some m \<and> queue_view m 1 [] (recycle [2, 3] [])"
    by (rule unread_chunks_dropped [OF demo_conn2_view, where x = "demo_chunk [9] (Ptr 3)" and
      b = "\<lparr>b_mem = Some [9], b_size = 1, b_used = 1\<rparr>"]) (simp_all add: demo_conn2_def demo_chunk_def)
  then show ?thesis by (simp add: queued_def chunk_data_def demo_conn2_def demo_chunk_def b_contents_def)
qed

subsection \<open>Freeing a queue\<close>

lemma nexts_free: "nexts (m\<lparr>chunks := (chunks m)(a := None)\<rparr>) = (nexts m)(a := None)"
  by (auto simp: nexts_def)

lemma free_used_ok:
  "chain (nexts m) p hs \<Longrightarrow> \<exists>m'. free_used_loop m p = Some m' \<and> queues m' = queues m \<and>
     (\<forall>a. a \<notin> set hs \<longrightarrow> chunks m' a = chunks m a)"
proof (induction hs arbitrary: m p)
  case Nil
  then show ?case by (subst free_used_loop.simps) simp
next
  case (Cons h hs)
  obtain x where x: "chunks m h = Some x" using chain_in_dom [OF Cons.prems, of h] by (auto simp: nexts_def)
  then have "nexts m h = Some (c_next x)" by (simp add: nexts_def)
  then have p: "p = Ptr h" "chain (nexts m) (c_next x) hs" using Cons.prems by auto
  let ?m = "m\<lparr>chunks := (chunks m)(h := None)\<rparr>"
  have "h \<notin> set hs" using chain_distinct [OF Cons.prems] by simp
  then have "chain (nexts ?m) (c_next x) hs" using p(2) unfolding nexts_free by (simp add: chain_upd)
  from Cons.IH [OF this] obtain m' where m': "free_used_loop ?m (c_next x) = Some m'" "queues m' = queues m"
    "\<forall>a. a \<notin> set hs \<longrightarrow> chunks m' a = chunks ?m a" by auto
  have "free_used_loop m p = Some m'"
    using p(1) x m'(1) by (subst free_used_loop.simps) (simp add: chunk_free_def)
  then show ?case using m'(2,3) by (intro exI [of _ m']) auto
qed

lemma free_unused_iff:
  "chain (nexts m) p us \<Longrightarrow> (free_unused_loop m p = None) = odd (length us) \<and>
     (\<forall>m'. free_unused_loop m p = Some m' \<longrightarrow> queues m' = queues m)"
proof (induction us arbitrary: m p rule: induct_list012)
  case 1
  then show ?case by (subst (1 2) free_unused_loop.simps) auto
next
  case (2 a)
  then obtain x where "chunks m a = Some x" "p = Ptr a" "c_next x = Null" by (auto simp: nexts_def)
  then have "free_unused_loop m p = None" by (subst free_unused_loop.simps) (simp add: chunk_free_def)
  then show ?case by simp
next
  case (3 a b us)
  obtain x y where x: "chunks m a = Some x" "chunks m b = Some y"
    using chain_in_dom [OF "3.prems", of a] chain_in_dom [OF "3.prems", of b] by (auto simp: nexts_def)
  then have "nexts m a = Some (c_next x)" "nexts m b = Some (c_next y)" by (simp_all add: nexts_def)
  then have p: "p = Ptr a" "c_next x = Ptr b" "chain (nexts m) (c_next y) us" using "3.prems" by auto
  let ?m = "m\<lparr>chunks := (chunks m)(a := None)\<rparr>"
  have d: "a \<noteq> b" "a \<notin> set us" using chain_distinct [OF "3.prems"] by auto
  have "free_unused_loop m p = free_unused_loop ?m (c_next y)"
    using p x d(1) by (subst free_unused_loop.simps) (simp add: chunk_free_def)
  moreover have "chain (nexts ?m) (c_next y) us" using p(3) d(2) unfolding nexts_free by (simp add: chain_upd)
  ultimately show ?case using "3.IH"(1) [of ?m "c_next y"] by simp
qed

text \<open>
  chunkqueue_free is undefined exactly when the number of unused chunks is odd: its second
  loop advances twice per round, so it frees every other chunk and reads the link of the null
  pointer behind an odd last one.
\<close>

theorem queue_free_undefined_iff:
  assumes "queue_view m k hs us"
  shows "chunkqueue_free m (Ptr k) = None \<longleftrightarrow> odd (length us)"
proof -
  obtain cq where cq: "queues m k = Some cq" "chain (nexts m) (q_head cq) hs" "chain (nexts m) (q_unused cq) us" "set hs \<inter> set us = {}"
    using assms by (auto simp: queue_view_def)
  obtain m1 where m1: "free_used_loop m (q_head cq) = Some m1" "queues m1 = queues m"
    "\<forall>a. a \<notin> set hs \<longrightarrow> chunks m1 a = chunks m a"
    using free_used_ok [OF cq(2)] by blast
  have "chain (nexts m1) (q_unused cq) us = chain (nexts m) (q_unused cq) us"
    using m1(3) cq(4) by (intro chain_cong) (auto simp: nexts_def)
  then have "(free_unused_loop m1 (q_unused cq) = None) = odd (length us) \<and>
     (\<forall>m'. free_unused_loop m1 (q_unused cq) = Some m' \<longrightarrow> queues m' = queues m1)"
    using cq(3) free_unused_iff by blast
  then show ?thesis using cq(1) m1(1,2) by (auto simp: chunkqueue_free_def split: bind_splits)
qed

theorem queue_free_undefined_iff_witness: "chunkqueue_free (demo_conn2 [1, 2]) (Ptr 1) \<noteq> None"
proof -
  have "queue_view (demo_conn2 [1, 2]) 1 [2, 3] []" by (rule demo_conn2_view) simp
  from queue_free_undefined_iff [OF this] show ?thesis by simp
qed

end
