(* ===== verification/Mp_Process.thy ===== *)
theory Mp_Process
  imports Prelude
begin

section \<open>multi\_progress: the master and its workers\<close>

text \<open>
  \<open>multi_progress/process.c\<close>.  The state is what the kernel keeps about the children of the
  master: the running ones, the dead ones that were not waited for, and the next pid;
  \<open>no_fork\<close> says which calls of \<open>fork\<close> fail.  Logging, the empty functions and the libevent
  calls that register the handlers are left out.  A signal handler returns, ends the process
  with \<open>exit\<close>, or blocks in \<open>wait\<close>.
\<close>

datatype sig = SIGINT | SIGTERM | SIGCHLD | SIGHUP | Other_sig int

record procs =
  running :: "nat list"
  zombies :: "nat list"
  next_pid :: nat

datatype 'a outcome = Returned 'a | Exited | Blocked

text \<open>\<open>wait\<close> reaps a dead child, fails without children and blocks otherwise.\<close>

definition wait_child :: "'z procs_scheme \<Rightarrow> (int \<times> 'z procs_scheme) option" where
  "wait_child s = (case zombies s of
     z # zs \<Rightarrow> Some (int z, s\<lparr>zombies := zs\<rparr>)
   | [] \<Rightarrow> if running s = [] then Some (-1, s) else None)"

text \<open>The parent's side; the child enters \<open>_worker_cycle\<close> and does not come back.\<close>

definition master_spawn_worker :: "(nat \<Rightarrow> bool) \<Rightarrow> 'z procs_scheme \<Rightarrow> int \<times> 'z procs_scheme" where
  "master_spawn_worker no_fork s = (let p = next_pid s in
     if no_fork p then (-1, s\<lparr>next_pid := p + 1\<rparr>)
     else (int p, s\<lparr>running := running s @ [p], next_pid := p + 1\<rparr>))"

fun start_loop :: "(nat \<Rightarrow> bool) \<Rightarrow> nat \<Rightarrow> 'z procs_scheme \<Rightarrow> 'z procs_scheme" where
  "start_loop no_fork 0 s = s"
| "start_loop no_fork (Suc i) s = start_loop no_fork i (snd (master_spawn_worker no_fork s))"

definition master_start_worker :: "(nat \<Rightarrow> bool) \<Rightarrow> 'z procs_scheme \<Rightarrow> 'z procs_scheme" where
  "master_start_worker no_fork s = start_loop no_fork 2 s"

definition sig_callback_master :: "(nat \<Rightarrow> bool) \<Rightarrow> sig \<Rightarrow> 'z procs_scheme \<Rightarrow> 'z procs_scheme outcome" where
  "sig_callback_master no_fork n s = (case n of
     SIGCHLD \<Rightarrow> (case wait_child s of
         None \<Rightarrow> Blocked
       | Some (r, s1) \<Rightarrow> if r = -1 then Returned s1 else Returned (snd (master_spawn_worker no_fork s1)))
   | SIGINT \<Rightarrow> Exited
   | SIGTERM \<Rightarrow> Exited
   | SIGHUP \<Rightarrow> Returned s
   | Other_sig k \<Rightarrow> Returned s)"

definition sig_callback_worker :: "sig \<Rightarrow> 'z procs_scheme \<Rightarrow> 'z procs_scheme outcome" where
  "sig_callback_worker n s = (case n of
     SIGCHLD \<Rightarrow> (case wait_child s of None \<Rightarrow> Blocked | Some (r, s1) \<Rightarrow> Returned s1)
   | SIGINT \<Rightarrow> Exited
   | SIGTERM \<Rightarrow> Exited
   | SIGHUP \<Rightarrow> Returned s
   | Other_sig k \<Rightarrow> Returned s)"

definition sig_callback :: "(nat \<Rightarrow> bool) \<Rightarrow> bool \<Rightarrow> sig \<Rightarrow> 'z procs_scheme \<Rightarrow> 'z procs_scheme outcome" where
  "sig_callback no_fork is_child n s =
     (if is_child then sig_callback_worker n s else sig_callback_master no_fork n s)"

subsection \<open>The master in the system\<close>

text \<open>
  The kernel keeps one bit for a pending \<open>SIGCHLD\<close>; libevent counts the signals it caught and
  calls the callback once for each.
\<close>

record master = procs +
  pending :: bool
  caught :: nat

inductive mp_step :: "(nat \<Rightarrow> bool) \<Rightarrow> master \<Rightarrow> master \<Rightarrow> bool" for no_fork where
  Die: "p \<in> set (running s) \<Longrightarrow>
    mp_step no_fork s (s\<lparr>running := remove1 p (running s), zombies := zombies s @ [p], pending := True\<rparr>)"
| Catch: "pending s \<Longrightarrow> mp_step no_fork s (s\<lparr>pending := False, caught := caught s + 1\<rparr>)"
| Call: "0 < caught s \<Longrightarrow> sig_callback no_fork False SIGCHLD s = Returned s' \<Longrightarrow>
    mp_step no_fork s (s'\<lparr>caught := caught s - 1\<rparr>)"

definition started :: "(nat \<Rightarrow> bool) \<Rightarrow> master" where
  "started no_fork = master_start_worker no_fork \<lparr>running = [], zombies = [], next_pid = 1, pending = False, caught = 0\<rparr>"

definition balanced :: "master \<Rightarrow> bool" where
  "balanced s \<longleftrightarrow> length (running s) + length (zombies s) = 2 \<and> caught s + (if pending s then 1 else 0) \<le> length (zombies s)"

lemma started_balanced: "\<forall>p. \<not> no_fork p \<Longrightarrow> balanced (started no_fork)"
  by (simp add: balanced_def started_def master_start_worker_def master_spawn_worker_def numeral_2_eq_2)

lemma callback_reaps:
  assumes "zombies s = z # zs" "\<forall>p. \<not> no_fork p"
  shows "sig_callback no_fork False SIGCHLD s =
    Returned (s\<lparr>zombies := zs, running := running s @ [next_pid s], next_pid := next_pid s + 1\<rparr>)"
  using assms by (simp add: sig_callback_def sig_callback_master_def wait_child_def master_spawn_worker_def Let_def)

lemma step_balanced:
  assumes "mp_step no_fork s s'" "balanced s" "\<forall>p. \<not> no_fork p"
  shows "balanced s'"
  using assms(1)
proof cases
  case (Die p)
  then obtain n where "length (running s) = Suc n" by (cases "running s") auto
  then show ?thesis using Die assms(2) by (auto simp: balanced_def length_remove1)
next
  case Catch
  then show ?thesis using assms(2) by (simp add: balanced_def)
next
  case (Call s1)
  obtain z zs where z: "zombies s = z # zs" using Call(2) assms(2) by (cases "zombies s") (auto simp: balanced_def)
  then show ?thesis using Call assms(2) callback_reaps [OF z assms(3)] by (auto simp: balanced_def)
qed

text \<open>
  C19. When fork never fails, the master and its workers stay balanced in every state that deaths
  of children, deliveries of SIGCHLD and calls of its handler reach: two children exist, running
  or dead, and there are never more signals under way, caught or pending, than dead children.  So
  whenever libevent calls the handler of SIGCHLD, it does not block in wait: it reaps a dead child,
  the first, and starts one new worker.
\<close>

theorem workers_balanced:
  assumes "\<forall>p. \<not> no_fork p" "(mp_step no_fork)\<^sup>*\<^sup>* (started no_fork) s"
  shows "length (running s) + length (zombies s) = 2 \<and>
    caught s + (if pending s then 1 else 0) \<le> length (zombies s) \<and>
    (0 < caught s \<longrightarrow> zombies s \<noteq> [] \<and> sig_callback no_fork False SIGCHLD s =
       Returned (s\<lparr>zombies := tl (zombies s), running := running s @ [next_pid s], next_pid := next_pid s + 1\<rparr>))"
proof -
  have b: "balanced s" using assms(2)
    by (induction rule: rtranclp_induct) (use started_balanced step_balanced assms(1) in blast)+
  have "zombies s \<noteq> [] \<and> sig_callback no_fork False SIGCHLD s =
      Returned (s\<lparr>zombies := tl (zombies s), running := running s @ [next_pid s], next_pid := next_pid s + 1\<rparr>)"
    if c: "0 < caught s"
  proof -
    obtain z zs where z: "zombies s = z # zs" using c b by (cases "zombies s") (auto simp: balanced_def)
    then show ?thesis using callback_reaps [OF z assms(1)] by simp
  qed
  then show ?thesis using b by (simp add: balanced_def)
qed

definition both_dead :: master where
  "both_dead = \<lparr>running = [], zombies = [1, 2], next_pid = 3, pending = True, caught = 0\<rparr>"

lemma both_die: "(mp_step (\<lambda>_. False))\<^sup>*\<^sup>* (started (\<lambda>_. False)) both_dead"
proof -
  let ?s = "started (\<lambda>_. False)"
  have s: "?s = \<lparr>running = [1, 2], zombies = [], next_pid = 3, pending = False, caught = 0\<rparr>"
    by (simp add: started_def master_start_worker_def master_spawn_worker_def numeral_2_eq_2)
  have "mp_step (\<lambda>_. False) ?s \<lparr>running = [2], zombies = [1], next_pid = 3, pending = True, caught = 0\<rparr>"
    using mp_step.Die [of 1 ?s "\<lambda>_. False"] by (simp add: s)
  moreover have "mp_step (\<lambda>_. False) \<lparr>running = [2], zombies = [1], next_pid = 3, pending = True, caught = 0\<rparr> both_dead"
    using mp_step.Die [of 2 "\<lparr>running = [2], zombies = [1], next_pid = 3, pending = True, caught = 0\<rparr>" "\<lambda>_. False"]
    by (simp add: both_dead_def)
  ultimately show ?thesis by (meson converse_rtranclp_into_rtranclp rtranclp.rtrancl_refl)
qed

lemma both_caught: "(mp_step (\<lambda>_. False))\<^sup>*\<^sup>* (started (\<lambda>_. False)) (both_dead\<lparr>pending := False, caught := 1\<rparr>)"
proof -
  have "mp_step (\<lambda>_. False) both_dead (both_dead\<lparr>pending := False, caught := 1\<rparr>)"
    using mp_step.Catch [of both_dead "\<lambda>_. False"] by (simp add: both_dead_def)
  then show ?thesis using both_die by (meson rtranclp.rtrancl_into_rtrancl)
qed

text \<open>Both workers died, and the first signal was caught.\<close>

theorem workers_balanced_witness:
  "sig_callback (\<lambda>_. False) False SIGCHLD (both_dead\<lparr>pending := False, caught := 1\<rparr>) =
   Returned (both_dead\<lparr>pending := False, caught := 1, zombies := [2], running := [3], next_pid := 4\<rparr>)"
  using workers_balanced [OF _ both_caught] by (simp add: both_dead_def)

text \<open>
  Workers are lost: when both die before the handler of the first signal runs, the kernel
  delivers one SIGCHLD, the callback waits once, and the master goes on with one worker and one
  zombie while no signal is under way.
\<close>

theorem worker_lost:
  "\<exists>s. (mp_step (\<lambda>_. False))\<^sup>*\<^sup>* (started (\<lambda>_. False)) s \<and> \<not> pending s \<and> caught s = 0 \<and>
     length (running s) = 1 \<and> length (zombies s) = 1"
proof -
  let ?c = "both_dead\<lparr>pending := False, caught := 1\<rparr>"
  let ?e = "both_dead\<lparr>pending := False, running := [3], zombies := [2], next_pid := 4\<rparr>"
  have "mp_step (\<lambda>_. False) both_dead ?c"
    using mp_step.Catch [of both_dead "\<lambda>_. False"] by (simp add: both_dead_def)
  moreover have "mp_step (\<lambda>_. False) ?c ?e"
    using mp_step.Call [of ?c "\<lambda>_. False"] callback_reaps [of ?c 1 "[2]" "\<lambda>_. False"] by (simp add: both_dead_def)
  ultimately have "(mp_step (\<lambda>_. False))\<^sup>*\<^sup>* (started (\<lambda>_. False)) ?e"
    using both_die by (meson rtranclp.rtrancl_into_rtrancl)
  then show ?thesis by (intro exI [of _ ?e]) (simp add: both_dead_def)
qed

end
