(* ===== verification/Mp_Start.thy ===== *)
theory Mp_Start
  imports Mp_Conn Mp_Process
begin

section \<open>multi\_progress: configuration and start\<close>

text \<open>
  \<open>multi_progress/conf.c\<close>, \<open>log_init\<close> of \<open>log.c\<close>, the rest of \<open>server.c\<close> and \<open>process.c\<close>, and
  \<open>main.c\<close>.  The configuration file is a Lua program; its effect is a parameter, the value of
  the global \<open>server\<close>.  A table is a function from field names.  The arrays of 20 characters of
  the configuration are lists; allocations of \<open>conf_init\<close> succeed, those that the program asserts
  are a parameter.  \<open>Raise\<close> is \<open>exit\<close> or a failed assertion.
\<close>

subsection \<open>The configuration\<close>

datatype 'n conf_val = Cv_nil | Cv_num 'n | Cv_str string | Cv_table "string \<Rightarrow> 'n conf_val" | Cv_other

record 'n conf_lua =
  cl_int :: "'n \<Rightarrow> int"
  cl_str_num :: "string \<Rightarrow> 'n option"
  cl_num_str :: "'n \<Rightarrow> string"

record config =
  cf_port :: int
  cf_max_conns :: int
  cf_log_level :: int
  cf_log_file :: string
  cf_log_dir :: string
  cf_doc_root :: string
  cf_daemon :: int

definition lua_isnumber :: "'n conf_lua \<Rightarrow> 'n conf_val \<Rightarrow> bool" where
  "lua_isnumber L v = (case v of Cv_num n \<Rightarrow> True | Cv_str s \<Rightarrow> cl_str_num L s \<noteq> None | _ \<Rightarrow> False)"

text \<open>\<open>lua_tointeger\<close>, which gives 0 for what is no number, assigned to an \<open>int\<close>.\<close>

definition int_field :: "'n conf_lua \<Rightarrow> 'n conf_val \<Rightarrow> int" where
  "int_field L v = signed_take_bit 31 (case v of Cv_num n \<Rightarrow> cl_int L n
     | Cv_str s \<Rightarrow> (case cl_str_num L s of None \<Rightarrow> 0 | Some n \<Rightarrow> cl_int L n) | _ \<Rightarrow> 0)"

text \<open>\<open>lua_tostring\<close> as a C string; \<open>None\<close> is the null pointer.\<close>

definition str_field :: "'n conf_lua \<Rightarrow> 'n conf_val \<Rightarrow> string option" where
  "str_field L v = (case v of Cv_num n \<Rightarrow> Some (takeWhile (\<lambda>c. c \<noteq> CHR 0x00) (cl_num_str L n))
     | Cv_str s \<Rightarrow> Some (takeWhile (\<lambda>c. c \<noteq> CHR 0x00) s) | _ \<Rightarrow> None)"

text \<open>\<open>strlen\<close> and \<open>memcpy\<close> into an array of 20 zeros.\<close>

definition copy_field :: "'n conf_lua \<Rightarrow> 'n conf_val \<Rightarrow> string option" where
  "copy_field L v = Option.bind (str_field L v) (\<lambda>s. mem_write (replicate 20 (CHR 0x00)) 0 s)"

definition field :: "'n conf_val \<Rightarrow> string \<Rightarrow> 'n conf_val" where
  "field v k = (case v of Cv_table f \<Rightarrow> f k | _ \<Rightarrow> Cv_nil)"

definition is_table :: "'n conf_val \<Rightarrow> bool" where
  "is_table v \<longleftrightarrow> (\<exists>f. v = Cv_table f)"

lemma is_table_code [code, simp]:
  "is_table (Cv_table f)" "\<not> is_table Cv_nil" "\<not> is_table (Cv_num n)" "\<not> is_table (Cv_str s)" "\<not> is_table Cv_other"
  by (simp_all add: is_table_def)

text \<open>\<open>conf_print\<close> prints the arrays as C strings: without a null byte it reads past their end.\<close>

definition conf_print :: "config \<Rightarrow> unit lres" where
  "conf_print c = (if CHR 0x00 \<in> set (cf_log_file c) \<and> CHR 0x00 \<in> set (cf_log_dir c) \<and> CHR 0x00 \<in> set (cf_doc_root c)
     then Ret () else Fault)"

definition conf_init :: "'n conf_lua \<Rightarrow> 'n conf_val option \<Rightarrow> config lres" where
  "conf_init L chunk = (case chunk of None \<Rightarrow> Raise | Some server \<Rightarrow>
     if \<not> is_table server then Raise
     else let network = field server ''network'' in
     if \<not> is_table network then Raise
     else if \<not> lua_isnumber L (field network ''port'') then Raise
     else if \<not> lua_isnumber L (field network ''max_conns'') then Raise
     else let logt = field server ''log'' in
     if \<not> is_table logt then Raise
     else fetch (copy_field L (field logt ''log_file'')) (\<lambda>lf.
     fetch (copy_field L (field logt ''log_dir'')) (\<lambda>ld.
     fetch (copy_field L (field server ''doc_root'')) (\<lambda>dr.
     if \<not> lua_isnumber L (field server ''daemon'') then Raise
     else let c = \<lparr>cf_port = int_field L (field network ''port''), cf_max_conns = int_field L (field network ''max_conns''),
         cf_log_level = int_field L (field logt ''log_level''), cf_log_file = lf, cf_log_dir = ld, cf_doc_root = dr,
         cf_daemon = int_field L (field server ''daemon'')\<rparr> in
       lbind (conf_print c) (\<lambda>_. Ret c)))))"

text \<open>\<open>log_init\<close>: \<open>strcpy\<close> into blocks of 20 bytes, and the file is opened.\<close>

definition strcpy20 :: "string \<Rightarrow> unit option" where
  "strcpy20 s = (if CHR 0x00 \<in> set s \<and> length (takeWhile (\<lambda>c. c \<noteq> CHR 0x00) s) < 20 then Some () else None)"

definition log_init :: "int \<Rightarrow> config \<Rightarrow> int lres" where
  "log_init opened c = fetch (strcpy20 (cf_log_file c)) (\<lambda>_. fetch (strcpy20 (cf_log_dir c)) (\<lambda>_.
     if opened = -1 then Raise else Ret opened))"

subsection \<open>The server\<close>

record mp_server =
  sv_port :: int
  sv_max_conns :: int
  sv_listen_sock :: int
  sv_conns :: conn_mgr

text \<open>The results of \<open>socket\<close>, the two calls of \<open>fcntl\<close>, \<open>setsockopt\<close>, \<open>bind\<close> and \<open>listen\<close>.\<close>

record sock_env =
  se_socket :: int
  se_getfl :: int
  se_setfl :: int
  se_setopt :: int
  se_bind :: "16 word \<Rightarrow> int"
  se_listen :: int

definition server_create_listen_sock :: "sock_env \<Rightarrow> int \<Rightarrow> int lres" where
  "server_create_listen_sock E port =
     (if port < 0 then Raise
      else if se_socket E < 0 then Raise
      else if se_getfl E = -1 then Raise
      else if se_setfl E < 0 then Raise
      else if se_setopt E = -1 then Raise
      else if se_bind E (word_of_int port) < 0 then Raise
      else if se_listen E < 0 then Raise
      else Ret (se_socket E))"

datatype obj = Obj_server | Obj_listen_ev | Obj_conns | Obj_signal sig

definition server_init :: "(obj \<Rightarrow> bool) \<Rightarrow> sock_env \<Rightarrow> config \<Rightarrow> mp_server lres" where
  "server_init alloc E c =
     (if \<not> alloc Obj_server then Raise
      else lbind (server_create_listen_sock E (cf_port c)) (\<lambda>sock.
        if \<not> alloc Obj_listen_ev then Raise
        else if \<not> alloc Obj_conns then Raise
        else Ret \<lparr>sv_port = cf_port c, sv_max_conns = cf_max_conns c, sv_listen_sock = sock, sv_conns = conn_mgr_new\<rparr>))"

subsection \<open>The processes\<close>

text \<open>
  What one process does, seen from outside: handlers of signals, watching the listening socket,
  becoming a daemon, the results of \<open>fork\<close>.  A process leaves the start by staying in
  \<open>event_dispatch\<close>, by ending, or in undefined behaviour.
\<close>

datatype act = Act_signal sig | Act_daemon | Act_fork int | Act_watch int

datatype 'a flow = Goes_on 'a | Stays "act list" | Ends | Undefined

fun then_flow :: "'a flow \<Rightarrow> ('a \<Rightarrow> 'b flow) \<Rightarrow> 'b flow" where
  "then_flow (Goes_on x) f = f x"
| "then_flow (Stays t) f = Stays t"
| "then_flow Ends f = Ends"
| "then_flow Undefined f = Undefined"

definition of_lres :: "'a lres \<Rightarrow> 'a flow" where
  "of_lres m = (case m of Ret x \<Rightarrow> Goes_on x | Raise \<Rightarrow> Ends | Fault \<Rightarrow> Undefined)"

fun signal_loop :: "(obj \<Rightarrow> bool) \<Rightarrow> sig list \<Rightarrow> act list \<Rightarrow> act list lres" where
  "signal_loop alloc [] t = Ret t"
| "signal_loop alloc (s # ss) t = (if \<not> alloc (Obj_signal s) then Raise else signal_loop alloc ss (t @ [Act_signal s]))"

definition signal_init :: "(obj \<Rightarrow> bool) \<Rightarrow> act list \<Rightarrow> act list lres" where
  "signal_init alloc t = signal_loop alloc [SIGINT, SIGTERM, SIGCHLD, SIGHUP] t"

definition daemon_run :: "config \<Rightarrow> act list \<Rightarrow> act list" where
  "daemon_run c t = (if cf_daemon c = 1 then t @ [Act_daemon] else t)"

definition server_network_register :: "mp_server \<Rightarrow> act list \<Rightarrow> act list" where
  "server_network_register srv t = t @ [Act_watch (sv_listen_sock srv)]"

text \<open>\<open>returns\<close>: whether \<open>event_dispatch\<close> comes back, which it does on an error only.\<close>

definition worker_cycle :: "bool \<Rightarrow> mp_server \<Rightarrow> act list \<Rightarrow> act list flow" where
  "worker_cycle returns srv t = (let t1 = server_network_register srv t in if returns then Goes_on t1 else Stays t1)"

text \<open>After \<open>_worker_cycle\<close> the function ends without a value, which the caller uses.\<close>

definition spawn_worker :: "bool \<Rightarrow> mp_server \<Rightarrow> int \<Rightarrow> act list \<Rightarrow> (int \<times> act list) flow" where
  "spawn_worker returns srv f t = (let t1 = t @ [Act_fork f] in
     if f = -1 then Goes_on (-1, t1)
     else if f = 0 then then_flow (worker_cycle returns srv t1) (\<lambda>_. Undefined)
     else Goes_on (f, t1))"

definition start_workers :: "bool \<Rightarrow> mp_server \<Rightarrow> int \<Rightarrow> int \<Rightarrow> act list \<Rightarrow> act list flow" where
  "start_workers returns srv f1 f2 t = then_flow (spawn_worker returns srv f1 t) (\<lambda>(_, t1).
     then_flow (spawn_worker returns srv f2 t1) (\<lambda>(_, t2). Goes_on t2))"

definition master_cycle :: "bool \<Rightarrow> mp_server \<Rightarrow> int \<Rightarrow> int \<Rightarrow> act list \<Rightarrow> act list flow" where
  "master_cycle returns srv f1 f2 t = then_flow (start_workers returns srv f1 f2 t) (\<lambda>t1.
     if returns then Goes_on t1 else Stays t1)"

definition mp_main ::
  "'n conf_lua \<Rightarrow> 'n conf_val option \<Rightarrow> int \<Rightarrow> (obj \<Rightarrow> bool) \<Rightarrow> sock_env \<Rightarrow> bool \<Rightarrow> int \<Rightarrow> int \<Rightarrow> act list flow" where
  "mp_main L chunk opened alloc E returns f1 f2 =
     then_flow (of_lres (conf_init L chunk)) (\<lambda>c.
     then_flow (of_lres (log_init opened c)) (\<lambda>_.
     then_flow (of_lres (signal_init alloc [])) (\<lambda>t.
     then_flow (of_lres (server_init alloc E c)) (\<lambda>srv.
       master_cycle returns srv f1 f2 (daemon_run c t)))))"

subsection \<open>Which configurations are accepted\<close>

text \<open>
  What a configuration needs: the tables and the numbers up to the table \<open>log\<close>; three names that
  are strings or numbers, of at most \<open>n\<close> characters; and what is then stored.
\<close>

definition name_fits :: "'n conf_lua \<Rightarrow> nat \<Rightarrow> 'n conf_val \<Rightarrow> bool" where
  "name_fits L n v \<longleftrightarrow> (case str_field L v of None \<Rightarrow> False | Some s \<Rightarrow> length s \<le> n)"

definition names_fit :: "'n conf_lua \<Rightarrow> nat \<Rightarrow> 'n conf_val \<Rightarrow> bool" where
  "names_fit L n g \<longleftrightarrow> name_fits L n (field (field g ''log'') ''log_file'') \<and>
     name_fits L n (field (field g ''log'') ''log_dir'') \<and> name_fits L n (field g ''doc_root'')"

definition tables_ok :: "'n conf_lua \<Rightarrow> 'n conf_val \<Rightarrow> bool" where
  "tables_ok L g \<longleftrightarrow> is_table g \<and> is_table (field g ''network'') \<and> lua_isnumber L (field (field g ''network'') ''port'') \<and>
     lua_isnumber L (field (field g ''network'') ''max_conns'') \<and> is_table (field g ''log'')"

definition stored_name :: "'n conf_lua \<Rightarrow> 'n conf_val \<Rightarrow> string" where
  "stored_name L v = (case str_field L v of None \<Rightarrow> [] | Some s \<Rightarrow> s @ replicate (20 - length s) (CHR 0x00))"

definition conf_of :: "'n conf_lua \<Rightarrow> 'n conf_val \<Rightarrow> config" where
  "conf_of L g = \<lparr>cf_port = int_field L (field (field g ''network'') ''port''),
     cf_max_conns = int_field L (field (field g ''network'') ''max_conns''),
     cf_log_level = int_field L (field (field g ''log'') ''log_level''),
     cf_log_file = stored_name L (field (field g ''log'') ''log_file''),
     cf_log_dir = stored_name L (field (field g ''log'') ''log_dir''),
     cf_doc_root = stored_name L (field g ''doc_root''), cf_daemon = int_field L (field g ''daemon'')\<rparr>"

lemma str_field_no_null: "str_field L v = Some s \<Longrightarrow> CHR 0x00 \<notin> set s"
  by (auto simp: str_field_def dest: set_takeWhileD split: conf_val.splits)

lemma copy_field_eq: "copy_field L v = (if name_fits L 20 v then Some (stored_name L v) else None)"
  by (cases "str_field L v") (auto simp: copy_field_def mem_write_def name_fits_def stored_name_def)

lemma stored_ends: "name_fits L 20 v \<Longrightarrow> CHR 0x00 \<in> set (stored_name L v) \<longleftrightarrow> name_fits L 19 v"
  using str_field_no_null [of L v] by (auto simp: name_fits_def stored_name_def split: option.splits)

lemma fits_less: "name_fits L 19 v \<Longrightarrow> name_fits L 20 v"
  by (auto simp: name_fits_def split: option.splits)

lemma conf_init_eq:
  "conf_init L (Some g) =
    (if \<not> tables_ok L g then Raise
     else if \<not> names_fit L 20 g then Fault
     else if \<not> lua_isnumber L (field g ''daemon'') then Raise
     else if \<not> names_fit L 19 g then Fault
     else Ret (conf_of L g))"
proof (cases "tables_ok L g")
  case False
  then show ?thesis by (auto simp: conf_init_def tables_ok_def Let_def)
next
  case t: True
  show ?thesis
  proof (cases "names_fit L 20 g")
    case False
    then show ?thesis using t by (auto simp: conf_init_def tables_ok_def names_fit_def copy_field_eq Let_def)
  next
    case True
    then have "conf_print (conf_of L g) = (if names_fit L 19 g then Ret () else Fault)"
      by (auto simp: conf_print_def conf_of_def names_fit_def stored_ends)
    moreover have "conf_init L (Some g) = (if \<not> lua_isnumber L (field g ''daemon'') then Raise
        else lbind (conf_print (conf_of L g)) (\<lambda>_. Ret (conf_of L g)))"
      using t True unfolding tables_ok_def names_fit_def by (simp add: conf_init_def copy_field_eq conf_of_def Let_def)
    ultimately show ?thesis using t True by simp
  qed
qed

lemma log_init_accepted: "conf_init L (Some g) = Ret c \<Longrightarrow> log_init fd c = (if fd = -1 then Raise else Ret fd)"
proof -
  assume c: "conf_init L (Some g) = Ret c"
  have st: "strcpy20 (stored_name L v) = Some ()" if fit: "name_fits L 19 v" for v
  proof -
    obtain s where s: "str_field L v = Some s" "length s < 20" using fit by (cases "str_field L v") (auto simp: name_fits_def)
    have "takeWhile (\<lambda>c. c \<noteq> CHR 0x00) (s @ replicate (20 - length s) (CHR 0x00)) = s"
      using str_field_no_null [OF s(1)] s(2) by (subst takeWhile_append2) (auto simp: takeWhile_replicate)
    then show ?thesis using s by (simp add: strcpy20_def stored_name_def)
  qed
  have "c = conf_of L g" "names_fit L 19 g" using c unfolding conf_init_eq by (auto split: if_splits)
  then show ?thesis using st by (simp add: names_fit_def conf_of_def log_init_def)
qed

text \<open>
  C26. What the server does with the value of the global \<open>server\<close> of its configuration, in every case.
  Without the tables or the numbers for the port and the connections it exits.  The names of the log
  file, of its directory and of the document root must be there, as strings or as numbers, which
  count as strings: when one is missing the null pointer is read, and when one has more than 20
  characters a write leaves its array of 20 bytes.  Then a missing number for \<open>daemon\<close> is an exit.  A
  name of exactly 20 characters leaves no null byte, and printing it reads past the array.  Otherwise
  the configuration is accepted with the values of the table, and log_init can copy its names.
\<close>

theorem conf_accepted_iff:
  "conf_init L (Some g) =
    (if \<not> tables_ok L g then Raise
     else if \<not> names_fit L 20 g then Fault
     else if \<not> lua_isnumber L (field g ''daemon'') then Raise
     else if \<not> names_fit L 19 g then Fault
     else Ret (conf_of L g)) \<and>
   (\<forall>c fd. conf_init L (Some g) = Ret c \<longrightarrow> log_init fd c = (if fd = -1 then Raise else Ret fd))"
  using log_init_accepted conf_init_eq by blast

text \<open>
  What each process of the server does at the start, when everything can be made and
  \<open>event_dispatch\<close> does not return: every process has the four signal handlers before the
  first \<open>fork\<close>, a worker watches the listening socket, and the master never does.
\<close>

theorem start_roles:
  assumes "conf_init L (Some g) = Ret c" "fd \<noteq> -1" "\<And>x. alloc x" "server_create_listen_sock E (cf_port c) = Ret s"
  shows "mp_main L (Some g) fd alloc E False f1 f2 = Stays
    (map Act_signal [SIGINT, SIGTERM, SIGCHLD, SIGHUP] @ (if cf_daemon c = 1 then [Act_daemon] else []) @
     (if f1 = 0 then [Act_fork 0, Act_watch s] else if f2 = 0 then [Act_fork f1, Act_fork 0, Act_watch s]
      else [Act_fork f1, Act_fork f2]))"
proof -
  have "log_init fd c = Ret fd" using log_init_accepted [OF assms(1), of fd] assms(2) by simp
  then show ?thesis using assms
    by (simp add: mp_main_def of_lres_def signal_init_def server_init_def master_cycle_def start_workers_def spawn_worker_def
        worker_cycle_def server_network_register_def daemon_run_def Let_def)
qed

subsection \<open>The configuration of the repository\<close>

definition demo_conf_lua :: "int conf_lua" where
  "demo_conf_lua = \<lparr>cl_int = id, cl_str_num = (\<lambda>_. None), cl_num_str = (\<lambda>_. [])\<rparr>"

definition table_of :: "(string \<times> 'n conf_val) list \<Rightarrow> 'n conf_val" where
  "table_of kvs = Cv_table (\<lambda>k. case map_of kvs k of None \<Rightarrow> Cv_nil | Some v \<Rightarrow> v)"

definition mp_conf :: "string \<Rightarrow> int conf_val" where
  "mp_conf root = table_of [(''network'', table_of [(''port'', Cv_num 10031), (''max_conns'', Cv_num 4096)]),
     (''log'', table_of [(''log_level'', Cv_num 1), (''log_file'', Cv_str ''mp.log''), (''log_dir'', Cv_str ''logs'')]),
     (''doc_root'', Cv_str root), (''daemon'', Cv_num 0)]"

lemma mp_conf_ok: "tables_ok demo_conf_lua (mp_conf root)" "lua_isnumber demo_conf_lua (field (mp_conf root) ''daemon'')"
  by (simp_all add: tables_ok_def mp_conf_def table_of_def field_def lua_isnumber_def)

lemma mp_conf_fits: "6 \<le> n \<Longrightarrow> names_fit demo_conf_lua n (mp_conf root) \<longleftrightarrow> length (takeWhile (\<lambda>c. c \<noteq> CHR 0x00) root) \<le> n"
  by (simp add: names_fit_def name_fits_def mp_conf_def table_of_def field_def str_field_def)

text \<open>Roots of 3, 20 and 22 characters.\<close>

theorem conf_accepted_iff_witness:
  "(\<exists>c. conf_init demo_conf_lua (Some (mp_conf ''cgi'')) = Ret c \<and> log_init 3 c = Ret 3) \<and>
   conf_init demo_conf_lua (Some (mp_conf ''/usr/local/httpd/cgi'')) = Fault \<and>
   conf_init demo_conf_lua (Some (mp_conf ''/usr/local/share/httpd'')) = Fault"
  using conf_accepted_iff [of demo_conf_lua "mp_conf ''cgi''"] conf_accepted_iff [of demo_conf_lua "mp_conf ''/usr/local/httpd/cgi''"]
    conf_accepted_iff [of demo_conf_lua "mp_conf ''/usr/local/share/httpd''"]
  by (simp add: mp_conf_ok mp_conf_fits)

end
