(* ===== verification/Rank_Core.thy ===== *)
theory Rank_Core
  imports Prelude "HOL-Library.Signed_Division"
begin

section \<open>rank: the ranking of users by score\<close>

text \<open>
  \<open>rank/core.h\<close> and \<open>rank/core.c\<close>.  A score node holds the users with one score; the nodes of
  a thousand scores are a descending list, and an array of 10000 heads leads to the lists.  The
  globals \<open>gia\<close> and \<open>ght\<close> are \<open>None\<close> until \<open>core_init\<close> runs.  \<open>None\<close> as a result is
  undefined behaviour.  An allocation returns the pointer it is given: \<open>Null\<close> or the address of
  a block that is not in use, which is written without a test.  The counters and their sums are
  signed 32-bit integers, and a sum that does not fit is undefined.
\<close>

subsection \<open>Data\<close>

record score_node =
  sn_score :: int
  sn_cnt :: int
  next_score :: ptr
  uid_head :: ptr

record idx_node =
  idx_cnt :: int
  score_head :: ptr

record uid_node =
  un_uid :: int
  next_uid :: ptr
  pre_uid :: ptr
  owner_score :: ptr

record idx_array =
  ia_array :: "idx_node list"
  ia_len :: int

record rank =
  gia :: "idx_array option"
  ght :: "(int \<rightharpoonup> ptr) option"
  sns :: "score_node store"
  uns :: "uid_node store"

definition IDX_LEN :: nat where "IDX_LEN = 10000"

definition BASE :: int where "BASE = 1000"

definition s32 :: "int \<Rightarrow> int option" where
  "s32 i = (if - (2 ^ 31) \<le> i \<and> i < 2 ^ 31 then Some i else None)"

definition mem_alloc :: "'a store \<Rightarrow> ptr \<Rightarrow> 'a \<Rightarrow> 'a store option" where
  "mem_alloc h p x = (case p of Ptr a \<Rightarrow> if h a = None then Some (h(a \<mapsto> x)) else None | _ \<Rightarrow> None)"

text \<open>The index of an array by an int, which can be negative.\<close>

definition idx_at :: "idx_array \<Rightarrow> int \<Rightarrow> idx_node option" where
  "idx_at ia i = (if 0 \<le> i then nth_opt (ia_array ia) (nat i) else None)"

text \<open>\<open>core_init\<close>: the two blocks may be null.\<close>

definition core_init :: "bool \<Rightarrow> bool \<Rightarrow> rank \<Rightarrow> rank option" where
  "core_init ia_ok array_ok s = do {
     _ \<leftarrow> must ia_ok;
     _ \<leftarrow> must array_ok;
     Some (s\<lparr>gia := Some \<lparr>ia_array = replicate IDX_LEN \<lparr>idx_cnt = 0, score_head = Null\<rparr>, ia_len = int IDX_LEN\<rparr>,
             ght := Some Map.empty\<rparr>) }"

subsection \<open>Scores\<close>

text \<open>Division truncates towards zero, as in C.\<close>

definition score_idx :: "idx_array \<Rightarrow> int \<Rightarrow> int" where
  "score_idx ia score = (let idx = score sdiv BASE in if idx \<ge> ia_len ia then ia_len ia - 1 else idx)"

partial_function (option) score_find :: "score_node store \<Rightarrow> int \<Rightarrow> ptr \<Rightarrow> ptr option" where
  "score_find h score cur = (if cur = Null then Some Null else
     Option.bind (deref h cur) (\<lambda>x.
       if sn_score x > score then score_find h score (next_score x)
       else if sn_score x = score then Some cur
       else Some Null))"

definition score_get :: "rank \<Rightarrow> int \<Rightarrow> ptr option" where
  "score_get s score = do {
     ia \<leftarrow> gia s;
     n \<leftarrow> idx_at ia (score_idx ia score);
     score_find (sns s) score (score_head n) }"

partial_function (option) score_gap :: "score_node store \<Rightarrow> int \<Rightarrow> ptr \<Rightarrow> ptr \<Rightarrow> (ptr \<times> ptr) option" where
  "score_gap h score pre cur = (if cur = Null then Some (pre, cur) else
     Option.bind (deref h cur) (\<lambda>x.
       if sn_score x > score then score_gap h score cur (next_score x) else Some (pre, cur)))"

definition score_new :: "ptr \<Rightarrow> rank \<Rightarrow> int \<Rightarrow> (ptr \<times> rank) option" where
  "score_new a s score = do {
     sn \<leftarrow> score_get s score;
     if sn \<noteq> Null then Some (sn, s)
     else do {
       ia \<leftarrow> gia s;
       n \<leftarrow> idx_at ia (score_idx ia score);
       (pre, cur) \<leftarrow> score_gap (sns s) score (score_head n) (score_head n);
       h \<leftarrow> mem_alloc (sns s) a \<lparr>sn_score = score, sn_cnt = 0, next_score = Null, uid_head = Null\<rparr>;
       (n1, h1) \<leftarrow> (if pre = cur then Some (n\<lparr>score_head := a\<rparr>, h)
          else do {
            h1 \<leftarrow> assign h pre (\<lambda>x. x\<lparr>next_score := a\<rparr>);
            h2 \<leftarrow> assign h1 a (\<lambda>x. x\<lparr>next_score := cur\<rparr>);
            Some (n, h2) });
       c \<leftarrow> s32 (idx_cnt n1 + 1);
       let n2 = n1\<lparr>idx_cnt := c\<rparr>;
           ia1 = ia\<lparr>ia_array := (ia_array ia)[nat (score_idx ia score) := n2]\<rparr>
       in Some (a, s\<lparr>gia := Some ia1, sns := h1\<rparr>) } }"

subsection \<open>Users\<close>

text \<open>\<open>uid_get\<close> follows the iterator that \<open>find\<close> returns also when it is \<open>end()\<close>.\<close>

definition uid_get :: "rank \<Rightarrow> int \<Rightarrow> ptr option" where
  "uid_get s uid = do { ht \<leftarrow> ght s; ht uid }"

definition uid_new :: "ptr \<Rightarrow> rank \<Rightarrow> int \<Rightarrow> (ptr \<times> rank) option" where
  "uid_new a s uid = do {
     un \<leftarrow> uid_get s uid;
     if un \<noteq> Null then Some (un, s)
     else do {
       u \<leftarrow> mem_alloc (uns s) a \<lparr>un_uid = uid, next_uid = Null, pre_uid = Null, owner_score = Null\<rparr>;
       ht \<leftarrow> ght s;
       Some (a, s\<lparr>uns := u, ght := Some (if ht uid = None then ht(uid \<mapsto> a) else ht)\<rparr>) } }"

definition bind_score_uid :: "rank \<Rightarrow> ptr \<Rightarrow> ptr \<Rightarrow> rank option" where
  "bind_score_uid s sn un = do {
     x0 \<leftarrow> deref (sns s) sn;
     c \<leftarrow> s32 (sn_cnt x0 + 1);
     h \<leftarrow> assign (sns s) sn (\<lambda>x. x\<lparr>sn_cnt := c\<rparr>);
     x \<leftarrow> deref h sn;
     if uid_head x = Null then do {
       h1 \<leftarrow> assign h sn (\<lambda>x. x\<lparr>uid_head := un\<rparr>);
       u \<leftarrow> assign (uns s) un (\<lambda>y. y\<lparr>next_uid := Null, pre_uid := Null, owner_score := sn\<rparr>);
       Some (s\<lparr>sns := h1, uns := u\<rparr>) }
     else do {
       u \<leftarrow> assign (uns s) un (\<lambda>y. y\<lparr>next_uid := uid_head x, pre_uid := Null\<rparr>);
       u1 \<leftarrow> assign u (uid_head x) (\<lambda>y. y\<lparr>pre_uid := un\<rparr>);
       h1 \<leftarrow> assign h sn (\<lambda>x. x\<lparr>uid_head := un\<rparr>);
       Some (s\<lparr>sns := h1, uns := u1\<rparr>) } }"

definition unbind_score_uid :: "rank \<Rightarrow> ptr \<Rightarrow> ptr \<Rightarrow> rank option" where
  "unbind_score_uid s sn un = do {
     x0 \<leftarrow> deref (sns s) sn;
     c \<leftarrow> s32 (sn_cnt x0 - 1);
     h \<leftarrow> assign (sns s) sn (\<lambda>x. x\<lparr>sn_cnt := c\<rparr>);
     x \<leftarrow> deref h sn;
     if uid_head x = un then do {
       y \<leftarrow> deref (uns s) un;
       h1 \<leftarrow> assign h sn (\<lambda>x. x\<lparr>uid_head := next_uid y\<rparr>);
       u \<leftarrow> (if next_uid y \<noteq> Null then assign (uns s) (next_uid y) (\<lambda>z. z\<lparr>pre_uid := Null\<rparr>) else Some (uns s));
       u1 \<leftarrow> assign u un (\<lambda>y. y\<lparr>pre_uid := Null, next_uid := Null, owner_score := Null\<rparr>);
       Some (s\<lparr>sns := h1, uns := u1\<rparr>) }
     else do {
       y \<leftarrow> deref (uns s) un;
       u \<leftarrow> assign (uns s) (pre_uid y) (\<lambda>z. z\<lparr>next_uid := next_uid y\<rparr>);
       y1 \<leftarrow> deref u un;
       u1 \<leftarrow> (if next_uid y1 \<noteq> Null then assign u (next_uid y1) (\<lambda>z. z\<lparr>pre_uid := pre_uid y1\<rparr>) else Some u);
       u2 \<leftarrow> assign u1 un (\<lambda>y. y\<lparr>pre_uid := Null, next_uid := Null, owner_score := Null\<rparr>);
       Some (s\<lparr>sns := h, uns := u2\<rparr>) } }"

subsection \<open>The interface\<close>

definition score_node_for :: "ptr \<Rightarrow> rank \<Rightarrow> int \<Rightarrow> (ptr \<times> rank) option" where
  "score_node_for a s score = do {
     sn \<leftarrow> score_get s score;
     if sn = Null then score_new a s score else Some (sn, s) }"

text \<open>\<open>core_insert\<close> from the point where the user is known to be new.\<close>

definition insert_new :: "ptr \<Rightarrow> ptr \<Rightarrow> rank \<Rightarrow> int \<Rightarrow> int \<Rightarrow> (int \<times> rank) option" where
  "insert_new ua sa s uid score = do {
     (un, s1) \<leftarrow> uid_new ua s uid;
     (sn, s2) \<leftarrow> score_node_for sa s1 score;
     s3 \<leftarrow> bind_score_uid s2 sn un;
     Some (0, s3) }"

text \<open>
  \<open>core_update\<close> of an unknown user calls \<open>core_insert\<close>, which finds that the user is new, and
  then goes on with the null pointer it had before.
\<close>

definition core_update :: "ptr \<Rightarrow> ptr \<Rightarrow> rank \<Rightarrow> int \<Rightarrow> int \<Rightarrow> (int \<times> rank) option" where
  "core_update ua sa s uid score = do {
     un \<leftarrow> uid_get s uid;
     s0 \<leftarrow> (if un = Null then map_option snd (insert_new ua sa s uid score) else Some s);
     y \<leftarrow> deref (uns s0) un;
     old \<leftarrow> deref (sns s0) (owner_score y);
     if score = sn_score old then Some (0, s0)
     else do {
       (new_sn, s1) \<leftarrow> score_node_for sa s0 score;
       s2 \<leftarrow> unbind_score_uid s1 (owner_score y) un;
       s3 \<leftarrow> bind_score_uid s2 new_sn un;
       Some (0, s3) } }"

definition core_insert :: "ptr \<Rightarrow> ptr \<Rightarrow> rank \<Rightarrow> int \<Rightarrow> int \<Rightarrow> (int \<times> rank) option" where
  "core_insert ua sa s uid score = do {
     un \<leftarrow> uid_get s uid;
     if un \<noteq> Null then core_update ua sa s uid score else insert_new ua sa s uid score }"

function rank_above :: "idx_array \<Rightarrow> int \<Rightarrow> int \<Rightarrow> int \<Rightarrow> int option" where
  "rank_above ia idx i rank = (if i > idx
     then (case idx_at ia i of None \<Rightarrow> None | Some n \<Rightarrow>
       (case s32 (rank + idx_cnt n) of None \<Rightarrow> None | Some r \<Rightarrow> rank_above ia idx (i - 1) r))
     else Some rank)"
  by pat_completeness auto
termination by (relation "measure (\<lambda>(ia, idx, i, rank). nat (i - idx))") auto

declare rank_above.simps [simp del]

partial_function (option) rank_before :: "score_node store \<Rightarrow> ptr \<Rightarrow> ptr \<Rightarrow> int \<Rightarrow> int option" where
  "rank_before h sn tmp rank = (if tmp = sn then Some rank else
     Option.bind (deref h tmp) (\<lambda>x. Option.bind (s32 (rank + sn_cnt x)) (\<lambda>r. rank_before h sn (next_score x) r)))"

definition core_get_rank :: "rank \<Rightarrow> int \<Rightarrow> int option" where
  "core_get_rank s uid = do {
     un \<leftarrow> uid_get s uid;
     if un = Null then Some (-1)
     else do {
       y \<leftarrow> deref (uns s) un;
       x \<leftarrow> deref (sns s) (owner_score y);
       let idx = sn_score x sdiv 1000;
       ia \<leftarrow> gia s;
       rank \<leftarrow> rank_above ia idx (10000 - 1) 0;
       n \<leftarrow> idx_at ia idx;
       rank_before (sns s) (owner_score y) (score_head n) rank } }"

text \<open>
  \<open>core_get_topn\<close>: the array \<open>top\<close> of the caller is part of the state, and the result gives what
  it holds in the end.  The body of the second loop does not change \<open>sn\<close>; it runs for as many
  rounds as there is fuel.
\<close>

record us =
  us_uid :: int
  us_score :: int

datatype 'a run = Done 'a | Undefined | Running

function topn_up :: "idx_array \<Rightarrow> int \<Rightarrow> int \<Rightarrow> int \<Rightarrow> (int \<times> int) option" where
  "topn_up ia topn i cnt = (if i \<ge> 0
     then (case idx_at ia i of None \<Rightarrow> None | Some n \<Rightarrow>
       (case s32 (cnt + idx_cnt n) of None \<Rightarrow> None | Some c \<Rightarrow>
         if c \<ge> topn then Some (c - idx_cnt n, i) else topn_up ia topn (i - 1) c))
     else Some (cnt, 0))"
  by pat_completeness auto
termination by (relation "measure (\<lambda>(ia, topn, i, cnt). nat (i + 1))") auto

declare topn_up.simps [simp del]

fun topn_scan :: "nat \<Rightarrow> score_node store \<Rightarrow> ptr \<Rightarrow> int \<Rightarrow> int run" where
  "topn_scan 0 h sn cnt = Running"
| "topn_scan (Suc k) h sn cnt = (if sn = Null then Done 0 else (case deref h sn of
     None \<Rightarrow> Undefined
   | Some x \<Rightarrow> (case s32 (cnt + sn_cnt x) of None \<Rightarrow> Undefined | Some c \<Rightarrow> topn_scan k h sn c)))"

definition core_get_topn :: "nat \<Rightarrow> rank \<Rightarrow> us list \<Rightarrow> int \<Rightarrow> (int \<times> us list) run" where
  "core_get_topn k s t topn = (case gia s of
     None \<Rightarrow> Undefined
   | Some ia \<Rightarrow> (case topn_up ia topn (10000 - 1) 0 of
       None \<Rightarrow> Undefined
     | Some (cnt, up) \<Rightarrow> (case idx_at ia up of
         None \<Rightarrow> Undefined
       | Some n \<Rightarrow> (case topn_scan k (sns s) (score_head n) cnt of
           Done r \<Rightarrow> Done (r, t)
         | Undefined \<Rightarrow> Undefined
         | Running \<Rightarrow> Running))))"

end
