(* ===== verification/Rank_Props.thy ===== *)
theory Rank_Props
  imports Rank_Core
begin

section \<open>rank: what the operations do\<close>

text \<open>
  The score lists of the index as lists of addresses:
  looking a score up, and making a node for a new one.
\<close>

subsection \<open>The lists of score nodes\<close>

text \<open>
  \<open>index_view s Ls\<close>: the list of the array's slot \<open>i\<close> visits the nodes \<open>Ls ! i\<close>, whose scores
  belong to the slot and descend.  As the division truncates, the negative scores above \<open>-BASE\<close>
  belong to the slot 0.
\<close>

definition sc :: "rank \<Rightarrow> nat \<Rightarrow> int" where
  "sc s a = sn_score (the (sns s a))"

definition next_of :: "rank \<Rightarrow> nat \<Rightarrow> ptr option" where
  "next_of s a = map_option next_score (sns s a)"

lemma next_of_Some [store_simps]: "next_of s a = Some q \<longleftrightarrow> (\<exists>x. sns s a = Some x \<and> q = next_score x)"
  by (auto simp: next_of_def)

definition slot :: "int \<Rightarrow> nat" where
  "slot score = min (nat (score div BASE)) (IDX_LEN - 1)"

definition slot_ok :: "rank \<Rightarrow> nat \<Rightarrow> ptr \<Rightarrow> nat list \<Rightarrow> bool" where
  "slot_ok s i p as \<longleftrightarrow> chain (next_of s) p as \<and> sorted_wrt (>) (map (sc s) as) \<and>
     (\<forall>a \<in> set as. - BASE < sc s a \<and> slot (sc s a) = i)"

definition index_view :: "rank \<Rightarrow> nat list list \<Rightarrow> bool" where
  "index_view s Ls \<longleftrightarrow> (\<exists>ia. gia s = Some ia \<and> ia_len ia = int IDX_LEN \<and> length (ia_array ia) = IDX_LEN \<and>
     length Ls = IDX_LEN \<and> (\<forall>i < IDX_LEN. slot_ok s i (score_head (ia_array ia ! i)) (Ls ! i)))"

lemma score_idx_slot:
  assumes "- BASE < score" "ia_len ia = int IDX_LEN"
  shows "score_idx ia score = int (slot score)" "slot score < IDX_LEN"
proof -
  have "score sdiv BASE = (if 0 \<le> score then score div BASE else 0)" "0 \<le> score \<Longrightarrow> 0 \<le> score div BASE"
    using assms(1) by (cases "score = 0"; simp add: signed_divide_int_def BASE_def pos_imp_zdiv_nonneg_iff)+
  moreover have "score < 0 \<Longrightarrow> score div BASE < 0" by (simp add: BASE_def)
  ultimately show "score_idx ia score = int (slot score)"
    using assms(2) by (auto simp: score_idx_def slot_def Let_def IDX_LEN_def)
  show "slot score < IDX_LEN" by (simp add: slot_def IDX_LEN_def)
qed

text \<open>A score of \<open>-BASE\<close> or less leads to an index below 0.\<close>

lemma score_get_below:
  assumes "score \<le> - BASE" "gia s = Some ia" "ia_len ia = int IDX_LEN"
  shows "score_get s score = None"
proof -
  have "(- score) div BASE \<ge> 1" using assms(1) by (simp add: BASE_def)
  then have "score sdiv BASE < 0" using assms(1) by (auto simp: signed_divide_int_def BASE_def)
  then show ?thesis using assms(2,3) by (simp add: score_get_def score_idx_def Let_def idx_at_def IDX_LEN_def)
qed

lemma idx_at_int [simp]: "i < length (ia_array ia) \<Longrightarrow> idx_at ia (int i) = Some (ia_array ia ! i)"
  by (simp add: idx_at_def)

lemma score_find_chain:
  "chain (next_of s) p as \<Longrightarrow> sorted_wrt (>) (map (sc s) as) \<Longrightarrow>
   score_find (sns s) score p = Some (case find (\<lambda>a. sc s a = score) as of None \<Rightarrow> Null | Some a \<Rightarrow> Ptr a)"
proof (induction as arbitrary: p)
  case Nil
  then show ?case by (simp add: score_find.simps)
next
  case (Cons a as)
  then obtain x where x: "p = Ptr a" "sns s a = Some x" "chain (next_of s) (next_score x) as"
    by (auto simp: store_simps)
  have below: "\<forall>b \<in> set as. sc s b < sc s a" using Cons.prems(2) by auto
  have xs: "sn_score x = sc s a" by (simp add: sc_def x(2))
  consider "sc s a > score" | "sc s a = score" | "sc s a < score" by linarith
  then show ?case
  proof cases
    case 3
    then have "find (\<lambda>a. sc s a = score) as = None" using below by (fastforce simp: find_None_iff)
    then show ?thesis using x xs 3 by (simp add: score_find.simps [of _ _ "Ptr a"])
  qed (use x xs Cons in \<open>simp_all add: score_find.simps [of _ _ "Ptr a"]\<close>)
qed

lemma find_concat_at:
  assumes "i < length Ls" "\<And>j a. j < length Ls \<Longrightarrow> j \<noteq> i \<Longrightarrow> a \<in> set (Ls ! j) \<Longrightarrow> \<not> P a"
  shows "find P (concat Ls) = find P (Ls ! i)"
proof -
  have app: "find P (xs @ ys) = (case find P xs of None \<Rightarrow> find P ys | Some x \<Rightarrow> Some x)" for xs ys :: "'a list"
    by (induction xs) auto
  have no: "find P (concat Ms) = None" if "\<And>M a. M \<in> set Ms \<Longrightarrow> a \<in> set M \<Longrightarrow> \<not> P a" for Ms
    using that by (auto simp: find_None_iff)
  have "Ls = take i Ls @ Ls ! i # drop (Suc i) Ls" using assms(1) by (rule id_take_nth_drop)
  then have "find P (concat Ls) = find P (concat (take i Ls) @ Ls ! i @ concat (drop (Suc i) Ls))"
    by (metis concat.simps(2) concat_append)
  moreover have "find P (concat (take i Ls)) = None"
  proof (rule no)
    fix M a
    assume "M \<in> set (take i Ls)" "a \<in> set M"
    then obtain j where "j < i" "M = Ls ! j" using assms(1) by (auto simp: in_set_conv_nth)
    then show "\<not> P a" using assms(1) assms(2) [of j] \<open>a \<in> set M\<close> by simp
  qed
  moreover have "find P (concat (drop (Suc i) Ls)) = None"
  proof (rule no)
    fix M a
    assume "M \<in> set (drop (Suc i) Ls)" "a \<in> set M"
    then obtain k where k: "k < length (drop (Suc i) Ls)" "M = drop (Suc i) Ls ! k" by (metis in_set_conv_nth)
    then have "Suc i + k < length Ls" "M = Ls ! (Suc i + k)" by simp_all
    then show "\<not> P a" using assms(2) [of "Suc i + k"] \<open>a \<in> set M\<close> by simp
  qed
  ultimately show ?thesis by (simp add: app split: option.splits)
qed

lemma index_slot:
  assumes "index_view s Ls" "- BASE < score"
  obtains ia where "gia s = Some ia" "ia_len ia = int IDX_LEN" "length (ia_array ia) = IDX_LEN" "length Ls = IDX_LEN"
    "score_idx ia score = int (slot score)" "slot score < IDX_LEN"
    "slot_ok s (slot score) (score_head (ia_array ia ! slot score)) (Ls ! slot score)"
    "\<forall>i < IDX_LEN. slot_ok s i (score_head (ia_array ia ! i)) (Ls ! i)"
proof -
  obtain ia where ia: "gia s = Some ia" "ia_len ia = int IDX_LEN" "length (ia_array ia) = IDX_LEN" "length Ls = IDX_LEN"
    "\<forall>i < IDX_LEN. slot_ok s i (score_head (ia_array ia ! i)) (Ls ! i)"
    using assms(1) unfolding index_view_def by blast
  note sl = score_idx_slot [OF assms(2) ia(2)]
  show thesis using that [OF ia(1-4) sl _ ia(5)] ia(5) sl(2) by blast
qed

text \<open>
  C13. In an index whose lists descend, the search of score_get through the array and one list,
  which stops at the first smaller score, is equivalent to a search through the nodes of all lists
  of the index: for a score above -1000 it finds the node with the score when some list has it, and
  otherwise the null pointer.  A score of -1000 or less makes it read in front of the array, which
  is undefined.  Nodes that are in no list any more are not found; score_new can lose them.
\<close>

theorem score_get_searches_all:
  assumes "index_view s Ls"
  shows "score_get s score = (if score \<le> - BASE then None else
    Some (case find (\<lambda>a. sc s a = score) (concat Ls) of None \<Rightarrow> Null | Some a \<Rightarrow> Ptr a))"
proof (cases "score \<le> - BASE")
  case True
  then show ?thesis using assms score_get_below by (auto simp: index_view_def)
next
  case False
  then have below: "- BASE < score" by simp
  obtain ia where ia: "gia s = Some ia" "length (ia_array ia) = IDX_LEN" "length Ls = IDX_LEN"
    "score_idx ia score = int (slot score)" "slot score < IDX_LEN"
    "slot_ok s (slot score) (score_head (ia_array ia ! slot score)) (Ls ! slot score)"
    "\<forall>i < IDX_LEN. slot_ok s i (score_head (ia_array ia ! i)) (Ls ! i)"
    using index_slot [OF assms below] by metis
  have "find (\<lambda>a. sc s a = score) (concat Ls) = find (\<lambda>a. sc s a = score) (Ls ! slot score)"
    using ia(3,5,7) by (intro find_concat_at) (auto simp: slot_ok_def)
  then show ?thesis using ia(1,2,4,5,6) score_find_chain [of s _ "Ls ! slot score"] False
    by (simp add: score_get_def slot_ok_def)
qed

subsection \<open>New scores\<close>

lemma score_gap_chain:
  "chain (next_of s) p as \<Longrightarrow> as = us @ vs \<Longrightarrow> \<forall>a \<in> set us. sc s a > score \<Longrightarrow> vs = [] \<or> sc s (hd vs) \<le> score \<Longrightarrow>
   score_gap (sns s) score q p =
     Some (if us = [] then q else Ptr (last us), case vs of [] \<Rightarrow> Null | v # _ \<Rightarrow> Ptr v)"
proof (induction us arbitrary: p q as)
  case Nil
  then show ?case
    by (cases vs) (auto simp: score_gap.simps [of _ _ _ "Ptr _"] score_gap.simps [of _ _ _ Null] next_of_def sc_def)
next
  case (Cons u us)
  then obtain x where x: "p = Ptr u" "sns s u = Some x" "chain (next_of s) (next_score x) (us @ vs)"
    by (auto simp: store_simps)
  moreover have "sn_score x > score" using Cons.prems(3) x(2) by (simp add: sc_def)
  ultimately show ?case using Cons.IH [OF x(3) refl, of p] Cons.prems(3,4)
    by (simp add: score_gap.simps [of _ _ _ "Ptr u"])
qed


text \<open>
  What \<open>score_new\<close> makes of the nodes of a slot: a score above all of them does not go in front
  of them, it replaces them.
\<close>

definition into :: "(nat \<Rightarrow> int) \<Rightarrow> nat \<Rightarrow> int \<Rightarrow> nat list \<Rightarrow> nat list" where
  "into f a score as = (if as = [] \<or> f (hd as) < score then [a]
     else takeWhile (\<lambda>b. f b > score) as @ a # dropWhile (\<lambda>b. f b > score) as)"

lemma chain_splice:
  "chain nx p (us @ vs) \<Longrightarrow> us \<noteq> [] \<Longrightarrow> distinct (us @ vs) \<Longrightarrow> a \<notin> set (us @ vs) \<Longrightarrow>
   chain (nx(last us := Some (Ptr a), a := Some (case vs of [] \<Rightarrow> Null | v # _ \<Rightarrow> Ptr v))) p (us @ a # vs)"
proof (induction us arbitrary: p)
  case Nil
  then show ?case by simp
next
  case (Cons u us)
  let ?nx = "\<lambda>z. nx(z := Some (Ptr a), a := Some (case vs of [] \<Rightarrow> Null | v # _ \<Rightarrow> Ptr v))"
  obtain q where q: "p = Ptr u" "nx u = Some q" "chain nx q (us @ vs)" using Cons.prems(1) by auto
  show ?case
  proof (cases "us = []")
    case True
    have "chain (?nx u) q vs = chain nx q vs" using Cons.prems(3,4) True by (intro chain_cong) auto
    moreover have "q = (case vs of [] \<Rightarrow> Null | v # _ \<Rightarrow> Ptr v)" using q(3) True by (cases vs) auto
    ultimately show ?thesis using q True Cons.prems(4) by (auto simp: fun_upd_def)
  next
    case False
    have "u \<noteq> last us" "u \<noteq> a" using Cons.prems(3,4) False last_in_set [OF False] by auto
    then show ?thesis using Cons.IH [OF q(3) False] Cons.prems(3,4) q(1,2) False by simp
  qed
qed

lemma slot_ok_cong:
  assumes "slot_ok s i p as" "\<And>b. b \<in> set as \<Longrightarrow> sns s' b = sns s b"
  shows "slot_ok s' i p as"
proof -
  have "chain (next_of s') p as = chain (next_of s) p as" using assms(2) by (intro chain_cong) (simp add: next_of_def)
  moreover have "\<And>b. b \<in> set as \<Longrightarrow> sc s' b = sc s b" using assms(2) by (simp add: sc_def)
  then have "map (sc s') as = map (sc s) as" by simp
  ultimately show ?thesis using assms \<open>\<And>b. b \<in> set as \<Longrightarrow> sc s' b = sc s b\<close> by (simp add: slot_ok_def del: map_eq_conv)
qed

lemma slot_live: "slot_ok s i p as \<Longrightarrow> b \<in> set as \<Longrightarrow> sns s b \<noteq> None"
  unfolding slot_ok_def using chain_in_dom [of "next_of s" p as b] by (auto simp: next_of_def)

lemma sorted_into:
  fixes f g :: "nat \<Rightarrow> int"
  assumes "sorted_wrt (>) (map f as)" "\<forall>b \<in> set as. f b \<noteq> score" "g a = score" "\<forall>b \<in> set as. g b = f b"
  shows "sorted_wrt (>) (map g (takeWhile (\<lambda>b. f b > score) as @ a # dropWhile (\<lambda>b. f b > score) as))"
  using assms
proof (induction as)
  case Nil
  then show ?case by simp
next
  case (Cons b as)
  have m: "\<forall>x \<in> set (takeWhile (\<lambda>b. f b > score) as) \<union> set (dropWhile (\<lambda>b. f b > score) as). x \<in> set as"
    by (auto dest: set_takeWhileD set_dropWhileD)
  show ?case
  proof (cases "f b > score")
    case True
    have "g x < f b" if "x \<in> set (takeWhile (\<lambda>b. f b > score) as @ a # dropWhile (\<lambda>b. f b > score) as)" for x
    proof -
      have "x = a \<or> x \<in> set as" using that m by auto
      then show ?thesis using Cons.prems(1,3,4) True by (elim disjE) simp_all
    qed
    then show ?thesis using True Cons by auto
  next
    case False
    then have "f b < score" using Cons.prems(2) by fastforce
    moreover have "map g as = map f as" using Cons.prems(4) by simp
    ultimately show ?thesis using Cons.prems by (auto simp del: map_eq_conv)
  qed
qed


lemma index_view_upd:
  assumes "ia_len ia = int IDX_LEN" "length (ia_array ia) = IDX_LEN" "length Ls = IDX_LEN" "i < IDX_LEN"
    "\<forall>i < IDX_LEN. slot_ok s i (score_head (ia_array ia ! i)) (Ls ! i)"
    "gia s' = Some (ia\<lparr>ia_array := (ia_array ia)[i := n]\<rparr>)" "slot_ok s' i (score_head n) bs"
    "\<And>j b. j < IDX_LEN \<Longrightarrow> j \<noteq> i \<Longrightarrow> b \<in> set (Ls ! j) \<Longrightarrow> sns s' b = sns s b"
  shows "index_view s' (Ls[i := bs])"
proof -
  have "slot_ok s' j (score_head ((ia_array ia)[i := n] ! j)) (Ls[i := bs] ! j)" if j: "j < IDX_LEN" for j
  proof (cases "j = i")
    case True
    then show ?thesis using assms(2,3,7) j by simp
  next
    case False
    have "slot_ok s' j (score_head (ia_array ia ! j)) (Ls ! j)"
      by (rule slot_ok_cong [of s]) (use assms(5) j in blast, rule assms(8) [OF j False])
    then show ?thesis using False by simp
  qed
  then show ?thesis using assms(1-3,6) by (simp add: index_view_def)
qed

text \<open>
  Where a score that is not there yet comes: its slot \<open>n\<close> of the array, the nodes \<open>us\<close> with greater
  scores and the nodes \<open>vs\<close> after them, the gap that \<open>score_gap\<close> finds, and that a change of this slot
  and of its nodes keeps the index.
\<close>

definition new_place :: "rank \<Rightarrow> nat list list \<Rightarrow> int \<Rightarrow> nat \<Rightarrow> idx_array \<Rightarrow> idx_node \<Rightarrow> nat list \<Rightarrow> nat list \<Rightarrow> bool" where
  "new_place s Ls score a ia n us vs \<longleftrightarrow>
     gia s = Some ia \<and> score_idx ia score = int (slot score) \<and> idx_at ia (int (slot score)) = Some n \<and>
     Ls ! slot score = us @ vs \<and> us = takeWhile (\<lambda>b. sc s b > score) (us @ vs) \<and> vs = dropWhile (\<lambda>b. sc s b > score) (us @ vs) \<and>
     slot_ok s (slot score) (score_head n) (us @ vs) \<and> (\<forall>b \<in> set (us @ vs). sc s b \<noteq> score) \<and> a \<notin> set (us @ vs) \<and>
     score_gap (sns s) score (score_head n) (score_head n) =
       Some (if us = [] then score_head n else Ptr (last us), case vs of [] \<Rightarrow> Null | v # _ \<Rightarrow> Ptr v) \<and>
     (\<forall>s' nd bs. gia s' = Some (ia\<lparr>ia_array := (ia_array ia)[slot score := nd]\<rparr>) \<longrightarrow>
        slot_ok s' (slot score) (score_head nd) bs \<longrightarrow> (\<forall>b. b \<noteq> a \<longrightarrow> b \<notin> set (us @ vs) \<longrightarrow> sns s' b = sns s b) \<longrightarrow>
        index_view s' (Ls[slot score := bs]))"

lemma new_place_ex:
  assumes "index_view s Ls" "- BASE < score" "score_get s score = Some Null" "sns s a = None"
  shows "\<exists>ia n us vs. new_place s Ls score a ia n us vs"
proof -
  let ?i = "slot score" and ?gt = "\<lambda>b. sc s b > score"
  let ?as = "Ls ! ?i"
  obtain ia where ia: "gia s = Some ia" "ia_len ia = int IDX_LEN" "length (ia_array ia) = IDX_LEN" "length Ls = IDX_LEN"
    "score_idx ia score = int ?i" "?i < IDX_LEN" "slot_ok s ?i (score_head (ia_array ia ! ?i)) ?as"
    "\<forall>i < IDX_LEN. slot_ok s i (score_head (ia_array ia ! i)) (Ls ! i)"
    using index_slot [OF assms(1,2)] by metis
  define n where "n = ia_array ia ! ?i"
  have ch: "chain (next_of s) (score_head n) ?as" "sorted_wrt (>) (map (sc s) ?as)" using ia(7) by (simp_all add: slot_ok_def n_def)
  have ne: "\<forall>b \<in> set ?as. sc s b \<noteq> score"
    using score_find_chain [OF ch, of score] assms(3) ia(1,3,5,6)
    by (auto simp: score_get_def n_def find_None_iff split: option.splits)
  have fresh: "\<forall>i < IDX_LEN. a \<notin> set (Ls ! i)" using slot_live assms(4) ia(8) by blast
  have others: "\<forall>j < IDX_LEN. j \<noteq> ?i \<longrightarrow> (\<forall>b \<in> set (Ls ! j). b \<notin> set ?as)"
  proof (intro allI impI ballI notI)
    fix j b
    assume "j < IDX_LEN" "j \<noteq> ?i" "b \<in> set (Ls ! j)" "b \<in> set ?as"
    moreover from this have "slot (sc s b) = j" using ia(8) unfolding slot_ok_def by blast
    moreover have "slot (sc s b) = ?i" using ia(7) \<open>b \<in> set ?as\<close> unfolding slot_ok_def by blast
    ultimately show False by simp
  qed
  define us vs where "us = takeWhile ?gt ?as" and "vs = dropWhile ?gt ?as"
  have uv: "?as = us @ vs" "\<forall>b \<in> set us. ?gt b" "vs = [] \<or> sc s (hd vs) \<le> score"
    unfolding us_def vs_def by (simp, blast dest: set_takeWhileD) (metis hd_dropWhile not_less)
  have gap: "score_gap (sns s) score (score_head n) (score_head n) =
      Some (if us = [] then score_head n else Ptr (last us), case vs of [] \<Rightarrow> Null | v # _ \<Rightarrow> Ptr v)"
    using score_gap_chain [OF ch(1) uv] .
  have view: "index_view s' (Ls[?i := bs])"
    if s': "gia s' = Some (ia\<lparr>ia_array := (ia_array ia)[?i := nd]\<rparr>)" "slot_ok s' ?i (score_head nd) bs"
      "\<And>b. b \<noteq> a \<Longrightarrow> b \<notin> set ?as \<Longrightarrow> sns s' b = sns s b" for s' nd bs
  proof (rule index_view_upd [OF ia(2-4,6,8) s'(1,2)])
    fix j b
    assume "j < IDX_LEN" "j \<noteq> ?i" "b \<in> set (Ls ! j)"
    then show "sns s' b = sns s b" using others fresh by (intro s'(3)) blast+
  qed
  have at: "idx_at ia (int ?i) = Some n" using ia(3,6) by (simp add: n_def)
  have "new_place s Ls score a ia n us vs"
    unfolding new_place_def
  proof (intro conjI)
    show "us = takeWhile ?gt (us @ vs)" "vs = dropWhile ?gt (us @ vs)" unfolding us_def vs_def by simp_all
    show "slot_ok s ?i (score_head n) (us @ vs)" using ia(7) unfolding uv(1) n_def .
    show "\<forall>b \<in> set (us @ vs). sc s b \<noteq> score" using ne unfolding uv(1) .
    show "a \<notin> set (us @ vs)" using fresh ia(6) unfolding uv(1) [symmetric] by blast
    show "\<forall>s' nd bs. gia s' = Some (ia\<lparr>ia_array := (ia_array ia)[?i := nd]\<rparr>) \<longrightarrow> slot_ok s' ?i (score_head nd) bs \<longrightarrow>
        (\<forall>b. b \<noteq> a \<longrightarrow> b \<notin> set (us @ vs) \<longrightarrow> sns s' b = sns s b) \<longrightarrow> index_view s' (Ls[?i := bs])"
      using view unfolding uv(1) by blast
  qed (rule ia(1) ia(5) at uv(1) gap)+
  then show ?thesis by blast
qed

text \<open>
  \<open>score_added s a score Ls s'\<close>: what adding a node \<open>a\<close> for the score comes to.  The node has the score,
  no users and the counter 0; the other nodes keep their score, their counter and their users, and
  those outside the slot also their successor; the counter of the slot goes up by one; the other
  slots, the map of the users and the users stay; and the lists of the index are as \<open>into\<close> says.
\<close>

definition score_added :: "rank \<Rightarrow> nat \<Rightarrow> int \<Rightarrow> nat list list \<Rightarrow> rank \<Rightarrow> bool" where
  "score_added s a score Ls s' \<longleftrightarrow>
     (\<exists>x. sns s' a = Some x \<and> sn_score x = score \<and> sn_cnt x = 0 \<and> uid_head x = Null) \<and>
     (\<forall>b. b \<noteq> a \<longrightarrow> map_option (\<lambda>x. (sn_score x, sn_cnt x, uid_head x)) (sns s' b) =
                 map_option (\<lambda>x. (sn_score x, sn_cnt x, uid_head x)) (sns s b)) \<and>
     (\<forall>b. b \<noteq> a \<longrightarrow> b \<notin> set (Ls ! slot score) \<longrightarrow> sns s' b = sns s b) \<and>
     (\<exists>ia ia'. gia s = Some ia \<and> gia s' = Some ia' \<and>
       idx_cnt (ia_array ia' ! slot score) = idx_cnt (ia_array ia ! slot score) + 1 \<and>
       (\<forall>i < IDX_LEN. i \<noteq> slot score \<longrightarrow> ia_array ia' ! i = ia_array ia ! i)) \<and>
     ght s' = ght s \<and> uns s' = uns s \<and>
     index_view s' (Ls[slot score := into (sc s) a score (Ls ! slot score)])"

definition slot_cnt :: "rank \<Rightarrow> nat \<Rightarrow> int" where
  "slot_cnt s i = (case gia s of None \<Rightarrow> 0 | Some ia \<Rightarrow> idx_cnt (ia_array ia ! i))"

text \<open>No node of the slot has a greater score: the new node becomes its head, and the only one.\<close>

lemma new_in_front:
  assumes "new_place s Ls score a ia n [] vs" "- BASE < score" "score_get s score = Some Null" "sns s a = None"
    "0 \<le> idx_cnt n" "idx_cnt n < 2 ^ 31 - 1"
  shows "\<exists>s'. score_new (Ptr a) s score = Some (Ptr a, s') \<and> score_added s a score Ls s'"
proof -
  let ?i = "slot score" and ?new = "\<lparr>sn_score = score, sn_cnt = 0, next_score = Null, uid_head = Null\<rparr>"
  note pl = assms(1) [unfolded new_place_def]
  let ?s = "s\<lparr>gia := Some (ia\<lparr>ia_array := (ia_array ia)[?i := n\<lparr>score_head := Ptr a, idx_cnt := idx_cnt n + 1\<rparr>]\<rparr>),
    sns := (sns s)(a \<mapsto> ?new)\<rparr>"
  have i: "into (sc s) a score (Ls ! ?i) = [a]"
  proof (cases vs)
    case (Cons b bs)
    then have "sc s b < score" using pl by (auto split: if_splits)
    then show ?thesis using Cons pl by (simp add: into_def)
  qed (use pl in \<open>simp add: into_def\<close>)
  have "score_head n = (case vs of [] \<Rightarrow> Null | v # _ \<Rightarrow> Ptr v)" using pl by (cases vs) (auto simp: slot_ok_def)
  then have "score_new (Ptr a) s score = Some (Ptr a, ?s)"
    using pl assms(3-6) by (simp add: score_new_def mem_alloc_def s32_def)
  moreover have "index_view ?s (Ls[?i := [a]])"
  proof -
    have "slot_ok ?s ?i (Ptr a) [a]" using assms(2) by (auto simp: slot_ok_def next_of_def sc_def)
    then show ?thesis using pl by simp
  qed
  moreover have "?i < length (ia_array ia)" "ia_array ia ! ?i = n" using pl by (auto simp: idx_at_def nth_opt_def split: if_splits)
  ultimately show ?thesis using i pl by (intro exI [of _ ?s]) (simp add: score_added_def)
qed

text \<open>Otherwise it comes between \<open>us\<close> and \<open>vs\<close>.\<close>

lemma new_behind:
  assumes "new_place s Ls score a ia n us vs" "us \<noteq> []" "- BASE < score" "score_get s score = Some Null" "sns s a = None"
    "0 \<le> idx_cnt n" "idx_cnt n < 2 ^ 31 - 1"
  shows "\<exists>s'. score_new (Ptr a) s score = Some (Ptr a, s') \<and> score_added s a score Ls s'"
proof -
  let ?i = "slot score" and ?new = "\<lparr>sn_score = score, sn_cnt = 0, next_score = Null, uid_head = Null\<rparr>"
  note pl = assms(1) [unfolded new_place_def]
  have ch: "chain (next_of s) (score_head n) (us @ vs)" "sorted_wrt (>) (map (sc s) (us @ vs))" "a \<notin> set (us @ vs)"
    "\<forall>b \<in> set (us @ vs). sc s b \<noteq> score" "us = takeWhile (\<lambda>b. sc s b > score) (us @ vs)" "vs = dropWhile (\<lambda>b. sc s b > score) (us @ vs)"
    using pl by (simp_all add: slot_ok_def)
  define c where "c = (case vs of [] \<Rightarrow> Null | v # _ \<Rightarrow> Ptr v)"
  have lu: "last us \<in> set (us @ vs)" "last us \<noteq> a" using ch(3) last_in_set [OF assms(2)] by auto
  obtain x where x: "sns s (last us) = Some x" using slot_live [of s ?i "score_head n" "us @ vs"] pl lu(1) by blast
  let ?h = "(sns s)(a \<mapsto> ?new\<lparr>next_score := c\<rparr>, last us \<mapsto> x\<lparr>next_score := Ptr a\<rparr>)"
  define t where "t = s\<lparr>gia := Some (ia\<lparr>ia_array := (ia_array ia)[?i := n\<lparr>idx_cnt := idx_cnt n + 1\<rparr>]\<rparr>), sns := ?h\<rparr>"
  have "Ptr (last us) \<noteq> c"
    using chain_distinct [OF ch(1)] last_in_set [OF assms(2)] by (auto simp: c_def split: list.splits)
  then have new: "score_new (Ptr a) s score = Some (Ptr a, t)"
    using assms(2,4-7) pl x lu(2) by (simp add: score_new_def mem_alloc_def c_def [symmetric] t_def fun_upd_twist s32_def)
  have nx: "next_of t = (next_of s)(last us := Some (Ptr a), a := Some c)" using lu(2) by (auto simp: next_of_def t_def)
  have c: "sc t a = score" "\<forall>b. b \<noteq> a \<longrightarrow> sc t b = sc s b" using lu(2) x by (auto simp: sc_def t_def)
  have "us \<noteq> [] \<Longrightarrow> sc s (hd us) > score" using ch(5) by (metis hd_in_set set_takeWhileD)
  then have i: "into (sc s) a score (Ls ! ?i) = us @ a # vs"
    using pl ch(5,6) assms(2) by (cases us) (auto simp: into_def)
  have "chain (next_of t) (score_head n) (us @ a # vs)"
    unfolding nx c_def using chain_splice [OF ch(1) assms(2) chain_distinct [OF ch(1)]] ch(3) by simp
  moreover have "sorted_wrt (>) (map (sc t) (us @ a # vs))"
  proof -
    have "\<forall>b \<in> set (us @ vs). sc t b = sc s b" using c(2) ch(3) by auto
    from sorted_into [OF ch(2,4) c(1) this] show ?thesis unfolding ch(5,6) [symmetric] .
  qed
  moreover have "\<forall>b \<in> set (us @ a # vs). - BASE < sc t b \<and> slot (sc t b) = ?i"
    using pl c assms(3) ch(3) by (auto simp: slot_ok_def)
  ultimately have "slot_ok t ?i (score_head n) (us @ a # vs)" by (simp only: slot_ok_def)
  moreover have "sns t b = sns s b" if "b \<noteq> a" "b \<notin> set (us @ vs)" for b using that lu(1) by (auto simp: t_def)
  moreover have "gia t = Some (ia\<lparr>ia_array := (ia_array ia)[?i := n\<lparr>idx_cnt := idx_cnt n + 1\<rparr>]\<rparr>)" by (simp add: t_def)
  ultimately have "index_view t (Ls[?i := us @ a # vs])" using pl by simp
  moreover have "?i < length (ia_array ia)" "ia_array ia ! ?i = n" using pl by (auto simp: idx_at_def nth_opt_def split: if_splits)
  moreover have "sns t b = sns s b" if "b \<noteq> a" "b \<notin> set (Ls ! ?i)" for b using that lu(1) pl by (auto simp: t_def)
  moreover have "sns t a = Some (?new\<lparr>next_score := c\<rparr>)" "ght t = ght s" "uns t = uns s" using lu(2) by (simp_all add: t_def)
  moreover have "map_option (\<lambda>x. (sn_score x, sn_cnt x, uid_head x)) (sns t b) =
      map_option (\<lambda>x. (sn_score x, sn_cnt x, uid_head x)) (sns s b)" if "b \<noteq> a" for b
    using that x by (simp add: t_def)
  ultimately show ?thesis using new pl i by (intro exI [of _ t]) (simp add: score_added_def t_def)
qed

text \<open>
  C17. A score above -1000 that is not there yet, in an index whose slot counter does not overflow
  and with memory for a node: score_new returns a new node with the score, the counter 0 and no
  users.  When some node of the slot has a greater score, the new node comes into its place in the
  descending list of its slot; when none has, the new node becomes the whole list and the nodes
  that were there are lost.  In both cases the counter of the slot goes up by one, and everything
  else stays as it was: the score, the counter and the users of every other node, the nodes and
  heads of every other slot, the map of the users and the users themselves.
\<close>

theorem score_new_behaviour:
  assumes "index_view s Ls" "- BASE < score" "score_get s score = Some Null" "sns s a = None"
    "0 \<le> slot_cnt s (slot score)" "slot_cnt s (slot score) < 2 ^ 31 - 1"
  shows "\<exists>s'. score_new (Ptr a) s score = Some (Ptr a, s') \<and> score_added s a score Ls s'"
proof -
  obtain ia n us vs where pl: "new_place s Ls score a ia n us vs" using new_place_ex [OF assms(1-4)] by blast
  then have "idx_cnt n = slot_cnt s (slot score)"
    by (auto simp: new_place_def slot_cnt_def idx_at_def nth_opt_def split: if_splits)
  then show ?thesis
    using new_in_front [OF _ assms(2-4)] new_behind [OF pl _ assms(2-4)] pl assms(5,6) by (cases "us = []") auto
qed

text \<open>The index that \<open>core_init\<close> makes, and one with two scores in the slot 2.\<close>

definition no_rank :: rank where
  "no_rank = \<lparr>gia = None, ght = None, sns = Map.empty, uns = Map.empty\<rparr>"

definition fresh_rank :: rank where
  "fresh_rank = the (core_init True True no_rank)"

lemma fresh_view: "index_view fresh_rank (replicate IDX_LEN [])"
  by (simp add: index_view_def fresh_rank_def core_init_def no_rank_def slot_ok_def)

definition two_scores :: rank where
  "two_scores = no_rank\<lparr>
     gia := Some \<lparr>ia_array = (replicate IDX_LEN \<lparr>idx_cnt = 0, score_head = Null\<rparr>)[2 := \<lparr>idx_cnt = 2, score_head = Ptr 7\<rparr>],
                  ia_len = int IDX_LEN\<rparr>,
     sns := [7 \<mapsto> \<lparr>sn_score = 2900, sn_cnt = 1, next_score = Ptr 8, uid_head = Ptr 1\<rparr>,
             8 \<mapsto> \<lparr>sn_score = 2500, sn_cnt = 1, next_score = Null, uid_head = Ptr 2\<rparr>]\<rparr>"

lemma slot_two: "2000 \<le> score \<Longrightarrow> score < 3000 \<Longrightarrow> slot score = 2"
proof -
  assume a: "2000 \<le> score" "score < 3000"
  then have "score div BASE = 2" by (simp add: BASE_def)
  then show ?thesis by (simp add: slot_def IDX_LEN_def)
qed

lemma two_view: "index_view two_scores ((replicate IDX_LEN [])[2 := [7, 8]])"
proof -
  have "slot_ok two_scores 2 (Ptr 7) [7, 8]"
    by (simp add: slot_ok_def two_scores_def next_of_def sc_def slot_two BASE_def)
  moreover have "2 < IDX_LEN" by (simp add: IDX_LEN_def)
  ultimately have "slot_ok two_scores i (score_head (ia_array (the (gia two_scores)) ! i)) (((replicate IDX_LEN [])[2 := [7, 8]]) ! i)"
    if "i < IDX_LEN" for i
    using that by (cases "i = 2") (simp_all add: two_scores_def slot_ok_def)
  then show ?thesis by (simp add: index_view_def two_scores_def)
qed

lemma concat_one: "i < n \<Longrightarrow> concat ((replicate n [])[i := xs]) = xs"
proof (induction n arbitrary: i)
  case (Suc n)
  have "concat (replicate n []) = ([] :: 'a list)" by simp
  then show ?case using Suc by (cases i) simp_all
qed simp

theorem score_get_searches_all_witness:
  "score_get two_scores 2500 = Some (Ptr 8) \<and> score_get two_scores 2700 = Some Null \<and>
   score_get two_scores (-5) = Some Null \<and> score_get two_scores (-1000) = None"
proof -
  have "2 < IDX_LEN" by (simp add: IDX_LEN_def)
  then show ?thesis
    using score_get_searches_all [OF two_view] by (simp add: concat_one BASE_def sc_def two_scores_def)
qed

text \<open>A score between the two, and one above both.\<close>

theorem score_new_behaviour_witness:
  "(\<exists>s'. score_new (Ptr 9) two_scores 2700 = Some (Ptr 9, s') \<and> index_view s' ((replicate IDX_LEN [])[2 := [7, 9, 8]])) \<and>
   (\<exists>s'. score_new (Ptr 9) two_scores 2950 = Some (Ptr 9, s') \<and> index_view s' ((replicate IDX_LEN [])[2 := [9]]) \<and>
      slot_cnt s' 2 = 3)"
proof -
  have l: "2 < IDX_LEN" by (simp add: IDX_LEN_def)
  have g: "score_get two_scores score = Some Null" if "score = 2700 \<or> score = 2950" for score
  proof -
    have "score_idx (the (gia two_scores)) score = int (slot score)" "slot score = 2"
      using that score_idx_slot [of score "the (gia two_scores)"] slot_two [of score] by (auto simp: two_scores_def BASE_def)
    then show ?thesis using that l
      by (auto simp: two_scores_def score_get_def idx_at_def score_find.simps [of _ _ "Ptr _"])
  qed
  have c: "slot_cnt two_scores (slot score) = 2" if "score = 2700 \<or> score = 2950" for score
    using that l slot_two [of score] by (auto simp: slot_cnt_def two_scores_def)
  have f: "sns two_scores 9 = None" by (simp add: two_scores_def no_rank_def)
  have ex: "\<exists>s'. score_new (Ptr 9) two_scores score = Some (Ptr 9, s') \<and> score_added two_scores 9 score ((replicate IDX_LEN [])[2 := [7, 8]]) s'"
    if "score = 2700 \<or> score = 2950" for score
    using score_new_behaviour [OF two_view _ g [OF that] f] that c [OF that] by (auto simp: BASE_def)
  have i: "into (sc two_scores) 9 2700 [7, 8] = [7, 9, 8]" "into (sc two_scores) 9 2950 [7, 8] = [9]"
    by (simp_all add: into_def sc_def two_scores_def)
  show ?thesis
    using ex [of 2700] ex [of 2950] l i c [of 2950]
    by (auto simp: score_added_def slot_two slot_cnt_def)
qed

end
