(* ===== verification/Rank_Users.thy ===== *)
theory Rank_Users
  imports Rank_Props Contracts
begin

section \<open>rank: users and queries\<close>

text \<open>
  The users of a score as a list, and what the functions of the
  interface come to.
\<close>

subsection \<open>The users of a score\<close>

text \<open>
  \<open>users s sn us\<close>: the doubly linked list of the score node \<open>sn\<close> visits the users \<open>us\<close>, and there are
  so few user nodes that a counter holds their number.
\<close>

fun dll :: "uid_node store \<Rightarrow> ptr \<Rightarrow> ptr \<Rightarrow> nat list \<Rightarrow> bool" where
  "dll u q p [] \<longleftrightarrow> p = Null"
| "dll u q p (a # as) \<longleftrightarrow> p = Ptr a \<and> (\<exists>y. u a = Some y \<and> pre_uid y = q \<and> dll u (Ptr a) (next_uid y) as)"

definition users :: "nat \<Rightarrow> rank \<Rightarrow> nat list \<Rightarrow> bool" where
  "users sn s us \<longleftrightarrow> (\<exists>x. sns s sn = Some x \<and> dll (uns s) Null (uid_head x) us \<and> sn_cnt x = int (length us)) \<and>
     finite (dom (uns s)) \<and> card (dom (uns s)) < 2 ^ 31"

lemma dll_cong: "(\<And>a. a \<in> set as \<Longrightarrow> u' a = u a) \<Longrightarrow> dll u' q p as = dll u q p as"
  by (induction as arbitrary: q p) auto

lemma dll_upd [simp]: "a \<notin> set as \<Longrightarrow> dll (u(a := x)) q p as = dll u q p as"
  by (intro dll_cong) auto

lemma dll_chain: "dll u q p as \<Longrightarrow> chain (\<lambda>a. map_option next_uid (u a)) p as"
  by (induction as arbitrary: q p) auto

lemma dll_distinct: "dll u q p as \<Longrightarrow> distinct as"
  using dll_chain chain_distinct by blast

lemma dll_dom: "dll u q p as \<Longrightarrow> set as \<subseteq> dom u"
  by (induction as arbitrary: q p) auto

lemma users_few: "users sn s us \<Longrightarrow> length us < 2 ^ 31"
  unfolding users_def by (metis card_mono distinct_card dll_dom dll_distinct le_less_trans)

lemma users_more: "users sn s us \<Longrightarrow> uns s un = Some y \<Longrightarrow> un \<notin> set us \<Longrightarrow> Suc (length us) < 2 ^ 31"
proof -
  assume u: "users sn s us" "uns s un = Some y" "un \<notin> set us"
  then have "distinct (un # us)" "set (un # us) \<subseteq> dom (uns s)" "finite (dom (uns s))" "card (dom (uns s)) < 2 ^ 31"
    using dll_dom dll_distinct by (fastforce simp: users_def)+
  then show ?thesis by (metis card_mono distinct_card le_less_trans length_Cons)
qed

lemma dll_Null [simp]: "dll u q Null as \<longleftrightarrow> as = []"
  by (cases as) auto

lemma dll_Ptr: "dll u q (Ptr a) as \<Longrightarrow> \<exists>bs y. as = a # bs \<and> u a = Some y \<and> pre_uid y = q \<and> dll u (Ptr a) (next_uid y) bs"
  by (cases as) auto

lemma bind_ok:
  assumes "users sn s us" "uns s un = Some y" "un \<notin> set us"
  shows "\<exists>s'. bind_score_uid s (Ptr sn) (Ptr un) = Some s' \<and> users sn s' (un # us) \<and> dom (uns s') = dom (uns s) \<and>
    map_option owner_score (uns s' un) = Some (if us = [] then Ptr sn else owner_score y)"
proof -
  obtain x where x: "sns s sn = Some x" "dll (uns s) Null (uid_head x) us" "sn_cnt x = int (length us)"
    "finite (dom (uns s))" "card (dom (uns s)) < 2 ^ 31"
    using assms(1) by (auto simp: users_def)
  have few: "s32 (int (length us) + 1) = Some (int (length us) + 1)"
    using users_more [OF assms] by (simp add: s32_def)
  have un: "insert un (dom (uns s)) = dom (uns s)" using assms(2) by auto
  show ?thesis
  proof (cases us)
    case Nil
    with x few un assms(2) show ?thesis by (auto simp: bind_score_uid_def users_def)
  next
    case (Cons a as)
    then obtain z where z: "uid_head x = Ptr a" "uns s a = Some z" "dll (uns s) (Ptr a) (next_uid z) as" using x(2) by auto
    have a: "a \<notin> set as" "un \<noteq> a" "un \<notin> set as" using dll_distinct [OF x(2)] assms(3) Cons by auto
    have "insert a (insert un (dom (uns s))) = dom (uns s)" "insert un (insert a (dom (uns s))) = dom (uns s)"
      using z(2) assms(2) by auto
    then show ?thesis using x z a Cons few assms(2) by (auto simp: bind_score_uid_def users_def)
  qed
qed

text \<open>A part of the list: \<open>dseg u q p as m r\<close> ends before \<open>r\<close>, with the back pointer \<open>m\<close>.\<close>

fun dseg :: "uid_node store \<Rightarrow> ptr \<Rightarrow> ptr \<Rightarrow> nat list \<Rightarrow> ptr \<Rightarrow> ptr \<Rightarrow> bool" where
  "dseg u q p [] m r \<longleftrightarrow> q = m \<and> p = r"
| "dseg u q p (a # as) m r \<longleftrightarrow> p = Ptr a \<and> (\<exists>y. u a = Some y \<and> pre_uid y = q \<and> dseg u (Ptr a) (next_uid y) as m r)"

lemma dll_append: "dll u q p (us @ vs) \<longleftrightarrow> (\<exists>m r. dseg u q p us m r \<and> dll u m r vs)"
  by (induction us arbitrary: q p) auto

lemma dseg_snoc: "dseg u q p (us @ [b]) m r \<longleftrightarrow>
    (\<exists>n y. dseg u q p us n (Ptr b) \<and> u b = Some y \<and> pre_uid y = n \<and> m = Ptr b \<and> next_uid y = r)"
  by (induction us arbitrary: q p) auto

lemma dseg_cong: "(\<And>a. a \<in> set as \<Longrightarrow> u' a = u a) \<Longrightarrow> dseg u' q p as m r = dseg u q p as m r"
  by (induction as arbitrary: q p) auto

text \<open>The list behind a removed element gets a new back pointer.\<close>

lemma dll_repoint:
  assumes "dll u q p vs" "distinct vs"
  shows "\<exists>u'. (if p \<noteq> Null then assign u p (\<lambda>z. z\<lparr>pre_uid := q'\<rparr>) else Some u) = Some u' \<and> dll u' q' p vs \<and>
    (\<forall>c. c \<notin> set vs \<longrightarrow> u' c = u c) \<and> dom u' = dom u"
proof (cases vs)
  case Nil
  then show ?thesis using assms by simp
next
  case (Cons c ws)
  then show ?thesis using assms by (auto split: option.splits)
qed

lemma unbind_ok:
  assumes "users sn s us" "un \<in> set us"
  shows "\<exists>s'. unbind_score_uid s (Ptr sn) (Ptr un) = Some s' \<and> users sn s' (remove1 un us) \<and> dom (uns s') = dom (uns s)"
proof -
  obtain x where x: "sns s sn = Some x" "dll (uns s) Null (uid_head x) us" "sn_cnt x = int (length us)"
    and fin: "finite (dom (uns s))" "card (dom (uns s)) < 2 ^ 31"
    using assms(1) by (auto simp: users_def)
  have few: "s32 (int (length us) - 1) = Some (int (length us) - 1)"
    using users_few [OF assms(1)] assms(2) by (cases us) (simp_all add: s32_def)
  obtain ps vs where us: "us = ps @ un # vs" using assms(2) by (auto simp: in_set_conv_decomp)
  have dis: "distinct us" using dll_distinct [OF x(2)] .
  obtain m where m: "dseg (uns s) Null (uid_head x) ps m (Ptr un)" "dll (uns s) m (Ptr un) (un # vs)"
    using x(2) us by (auto simp: dll_append)
  then obtain y where y: "uns s un = Some y" "pre_uid y = m" "dll (uns s) (Ptr un) (next_uid y) vs" by auto
  have r: "remove1 un us = ps @ vs" using us dis by (simp add: remove1_append)
  show ?thesis
  proof (cases ps rule: rev_cases)
    case Nil
    then have "uid_head x = Ptr un" using m(1) by simp
    moreover obtain u' where "(if next_uid y \<noteq> Null then assign (uns s) (next_uid y) (\<lambda>z. z\<lparr>pre_uid := Null\<rparr>) else Some (uns s)) = Some u'"
      "dll u' Null (next_uid y) vs" "\<forall>c. c \<notin> set vs \<longrightarrow> u' c = uns s c" "dom u' = dom (uns s)"
      using dll_repoint [OF y(3), of Null] dis us by auto
    moreover have "un \<notin> set vs" using dis us by simp
    moreover have "s32 (int (length vs)) = Some (int (length vs))" using few us Nil by simp
    moreover have "insert un (dom (uns s)) = dom (uns s)" using y(1) by auto
    ultimately show ?thesis using x(1,3) y(1) r us Nil fin by (auto simp: unbind_score_uid_def users_def)
  next
    case (snoc qs b)
    have ne: "un \<noteq> b" "un \<notin> set qs" "un \<notin> set vs" "b \<notin> set qs" "b \<notin> set vs" "distinct vs" "set qs \<inter> set vs = {}"
      using dis us snoc by auto
    obtain n yb where b: "dseg (uns s) Null (uid_head x) qs n (Ptr b)" "uns s b = Some yb" "pre_uid yb = n" "m = Ptr b"
      using m(1) snoc by (auto simp: dseg_snoc)
    have hd: "uid_head x \<noteq> Ptr un" using b(1) ne(1,2) by (cases qs) auto
    define u1 where "u1 = (uns s)(b \<mapsto> yb\<lparr>next_uid := next_uid y\<rparr>)"
    have "dll u1 (Ptr un) (next_uid y) vs" using y(3) ne by (simp add: u1_def)
    from dll_repoint [OF this ne(6), of "Ptr b"] obtain u2 where
      u2: "(if next_uid y \<noteq> Null then assign u1 (next_uid y) (\<lambda>z. z\<lparr>pre_uid := Ptr b\<rparr>) else Some u1) = Some u2"
      "dll u2 (Ptr b) (next_uid y) vs" "\<forall>c. c \<notin> set vs \<longrightarrow> u2 c = u1 c" "dom u2 = dom u1" by blast
    let ?u3 = "u2(un \<mapsto> y\<lparr>pre_uid := Null, next_uid := Null, owner_score := Null\<rparr>)"
    have "dseg ?u3 Null (uid_head x) (qs @ [b]) (Ptr b) (next_uid y)"
    proof -
      have "dseg ?u3 Null (uid_head x) qs n (Ptr b) = dseg (uns s) Null (uid_head x) qs n (Ptr b)"
        using ne u2(3) by (intro dseg_cong) (auto simp: u1_def)
      then show ?thesis using b ne u2(3) by (simp add: dseg_snoc u1_def)
    qed
    moreover have "dll ?u3 (Ptr b) (next_uid y) vs" using u2(2) ne by simp
    ultimately have "dll ?u3 Null (uid_head x) (remove1 un us)" unfolding r snoc dll_append by blast
    moreover have "unbind_score_uid s (Ptr sn) (Ptr un) = Some (s\<lparr>sns := (sns s)(sn \<mapsto> x\<lparr>sn_cnt := sn_cnt x - 1\<rparr>), uns := ?u3\<rparr>)"
    proof -
      have "u2 un = Some y" using u2(3) ne y(1) by (simp add: u1_def)
      moreover have "u1 un = Some y" using ne y(1) by (simp add: u1_def)
      ultimately show ?thesis
        using x(1) hd y(1,2) b(2,4) u2(1) ne(1) few [folded x(3)]
        by (cases "next_uid y = Null") (simp add: unbind_score_uid_def u1_def, simp add: unbind_score_uid_def u1_def [symmetric])
    qed
    moreover have "dom ?u3 = dom (uns s)" using u2(4) y(1) b(2) by (auto simp: u1_def)
    ultimately show ?thesis using x fin r us few by (auto simp: users_def)
  qed
qed


interpretation score_users: list_store "\<lambda>us un. un # us" "users sn" "\<lambda>s. dom (uns s)"
  "\<lambda>s un. bind_score_uid s (Ptr sn) (Ptr un)" "\<lambda>s un. unbind_score_uid s (Ptr sn) (Ptr un)"
  by unfold_locales (use bind_ok unbind_ok in \<open>blast | fastforce\<close>)+

text \<open>
  The users of a score are a list: whatever sequence of bindings and unbindings of existing
  users is made at a score node, it succeeds, the doubly linked list holds the users that a list
  with insertion in front and removal holds, and the counter is its length.
\<close>

theorem score_users_list:
  assumes "users sn s us" "list_run_by (\<lambda>us un. un # us) us ops = Some us'" "\<forall>un. Enq un \<in> set ops \<longrightarrow> un \<in> dom (uns s)"
  shows "\<exists>s'. queue_run (\<lambda>s un. bind_score_uid s (Ptr sn) (Ptr un)) (\<lambda>s un. unbind_score_uid s (Ptr sn) (Ptr un)) s ops = Some s' \<and>
    users sn s' us'"
  using score_users.run_ok [OF assms] .

definition new_user :: "int \<Rightarrow> uid_node" where
  "new_user uid = \<lparr>un_uid = uid, next_uid = Null, pre_uid = Null, owner_score = Null\<rparr>"

definition one_score :: rank where
  "one_score = fresh_rank\<lparr>sns := [7 \<mapsto> \<lparr>sn_score = 2500, sn_cnt = 0, next_score = Null, uid_head = Null\<rparr>],
     uns := [1 \<mapsto> new_user 11, 2 \<mapsto> new_user 22, 3 \<mapsto> new_user 33]\<rparr>"

theorem score_users_list_witness:
  "\<exists>s'. queue_run (\<lambda>s un. bind_score_uid s (Ptr 7) (Ptr un)) (\<lambda>s un. unbind_score_uid s (Ptr 7) (Ptr un)) one_score
      [Enq 1, Enq 2, Enq 3, Deq 2] = Some s' \<and> users 7 s' [3, 1]"
  by (rule score_users_list [where us = "[]"]) (auto simp: users_def one_score_def)


subsection \<open>No user is ever known\<close>

text \<open>The states that the interface reaches from the start, with any pointers from \<open>malloc\<close>.\<close>

inductive rank_reach :: "rank \<Rightarrow> bool" where
  Start: "rank_reach no_rank"
| Init: "rank_reach s \<Longrightarrow> core_init b c s = Some s' \<Longrightarrow> rank_reach s'"
| Insert: "rank_reach s \<Longrightarrow> core_insert ua sa s uid score = Some (r, s') \<Longrightarrow> rank_reach s'"
| Update: "rank_reach s \<Longrightarrow> core_update ua sa s uid score = Some (r, s') \<Longrightarrow> rank_reach s'"

lemma reach_unknown: "rank_reach s \<Longrightarrow> uid_get s uid = None"
  by (induction arbitrary: uid rule: rank_reach.induct)
    (auto simp: no_rank_def core_init_def uid_get_def core_insert_def core_update_def split: bind_splits if_splits)

text \<open>
  No user is ever known: uid_get follows the iterator also when the user is not in the map,
  so in every state that the interface can reach core_insert, core_update and core_get_rank are
  undefined for every user.
\<close>

theorem no_user_known:
  assumes "rank_reach s"
  shows "core_insert ua sa s uid score = None \<and> core_update ua sa s uid score = None \<and> core_get_rank s uid = None"
  using reach_unknown [OF assms] by (simp add: core_insert_def core_update_def core_get_rank_def)

theorem no_user_known_witness: "core_insert (Ptr 1) (Ptr 2) fresh_rank 5 100 = None"
proof -
  have "core_init True True no_rank = Some fresh_rank" by (simp add: fresh_rank_def core_init_def)
  from no_user_known [OF rank_reach.Init [OF rank_reach.Start this]] show ?thesis by blast
qed

subsection \<open>The first scores\<close>








end
