(* ===== verification/Enet_List.thy ===== *)
theory Enet_List
  imports Contracts
begin

section \<open>my\_enet: circular lists\<close>

text \<open>
  \<open>cs/my_enet/list.c\<close> and \<open>include/enet/list.h\<close>.  A list is a sentinel node; the links of all
  nodes, sentinels included, are one store.  A node is the first member of the command that it
  links, so the address of the command is the address of the node.
\<close>

record enode =
  en_next :: ptr
  en_prev :: ptr

type_synonym links = "enode store"

definition enet_list_clear :: "links \<Rightarrow> nat \<Rightarrow> links option" where
  "enet_list_clear k l = do {
     k1 \<leftarrow> assign k (Ptr l) (\<lambda>e. e\<lparr>en_next := Ptr l\<rparr>);
     assign k1 (Ptr l) (\<lambda>e. e\<lparr>en_prev := Ptr l\<rparr>) }"

definition enet_list_begin :: "links \<Rightarrow> nat \<Rightarrow> ptr option" where
  "enet_list_begin k l = map_option en_next (k l)"

definition enet_list_end :: "nat \<Rightarrow> ptr" where
  "enet_list_end l = Ptr l"

definition enet_list_empty :: "links \<Rightarrow> nat \<Rightarrow> bool option" where
  "enet_list_empty k l = map_option (\<lambda>p. p = enet_list_end l) (enet_list_begin k l)"

definition enet_list_remove :: "links \<Rightarrow> ptr \<Rightarrow> links option" where
  "enet_list_remove k p = do {
     e \<leftarrow> deref k p;
     k1 \<leftarrow> assign k (en_prev e) (\<lambda>x. x\<lparr>en_next := en_next e\<rparr>);
     e1 \<leftarrow> deref k1 p;
     assign k1 (en_next e1) (\<lambda>x. x\<lparr>en_prev := en_prev e1\<rparr>) }"

definition enet_list_insert :: "links \<Rightarrow> ptr \<Rightarrow> ptr \<Rightarrow> links option" where
  "enet_list_insert k p d = do {
     e \<leftarrow> deref k p;
     k1 \<leftarrow> assign k d (\<lambda>x. x\<lparr>en_prev := en_prev e\<rparr>);
     k2 \<leftarrow> assign k1 d (\<lambda>x. x\<lparr>en_next := p\<rparr>);
     r \<leftarrow> deref k2 d;
     k3 \<leftarrow> assign k2 (en_prev r) (\<lambda>x. x\<lparr>en_next := d\<rparr>);
     assign k3 p (\<lambda>x. x\<lparr>en_prev := d\<rparr>) }"

text \<open>The loop of \<open>enet_list_size\<close>; the function itself ends without returning the count.\<close>

partial_function (option) list_size_loop :: "links \<Rightarrow> nat \<Rightarrow> ptr \<Rightarrow> nat \<Rightarrow> nat option" where
  "list_size_loop k l pos n = (if pos = enet_list_end l then Some n else
     Option.bind (deref k pos) (\<lambda>e. list_size_loop k l (en_next e) (n + 1)))"

subsection \<open>A ring holds a list\<close>

text \<open>
  \<open>eseg k q p as m r\<close>: from \<open>p\<close>, whose back pointer is \<open>q\<close>, the nodes \<open>as\<close> lead to \<open>r\<close>, whose
  back pointer is \<open>m\<close>.
\<close>

fun eseg :: "links \<Rightarrow> ptr \<Rightarrow> ptr \<Rightarrow> nat list \<Rightarrow> ptr \<Rightarrow> ptr \<Rightarrow> bool" where
  "eseg k q p [] m r \<longleftrightarrow> m = q \<and> p = r"
| "eseg k q p (a # as) m r \<longleftrightarrow> p = Ptr a \<and> (\<exists>e. k a = Some e \<and> en_prev e = q \<and> eseg k (Ptr a) (en_next e) as m r)"

definition ring :: "nat \<Rightarrow> links \<Rightarrow> nat list \<Rightarrow> bool" where
  "ring l k as \<longleftrightarrow> distinct (l # as) \<and> (\<exists>e. k l = Some e \<and> eseg k (Ptr l) (en_next e) as (en_prev e) (Ptr l))"

lemma eseg_cong: "(\<And>a. a \<in> set as \<Longrightarrow> k' a = k a) \<Longrightarrow> eseg k' q p as m r = eseg k q p as m r"
  by (induction as arbitrary: q p) auto

lemma eseg_upd [simp]: "a \<notin> set as \<Longrightarrow> eseg (k(a := x)) q p as m r = eseg k q p as m r"
  by (intro eseg_cong) auto

lemma eseg_append: "eseg k q p (us @ vs) m r \<longleftrightarrow> (\<exists>n s. eseg k q p us n s \<and> eseg k n s vs m r)"
  by (induction us arbitrary: q p) auto

lemma eseg_snoc: "eseg k q p (us @ [b]) m r \<longleftrightarrow>
    (\<exists>n e. eseg k q p us n (Ptr b) \<and> k b = Some e \<and> en_prev e = n \<and> m = Ptr b \<and> en_next e = r)"
  by (induction us arbitrary: q p) auto

lemma eseg_dom: "eseg k q p as m r \<Longrightarrow> a \<in> set as \<Longrightarrow> a \<in> dom k"
  by (induction as arbitrary: q p) auto

lemma ring_dom: "ring l k as \<Longrightarrow> set (l # as) \<subseteq> dom k"
  using eseg_dom by (fastforce simp: ring_def)

lemma ring_cong: "(\<And>a. a \<in> set (l # as) \<Longrightarrow> k' a = k a) \<Longrightarrow> ring l k as \<Longrightarrow> ring l k' as"
  using eseg_cong [of as k' k] by (simp add: ring_def)

text \<open>Everything a ring says, read from the node before a place and the node behind it.\<close>

lemma ring_split:
  "ring l k (us @ vs) \<longleftrightarrow> distinct (l # us @ vs) \<and>
     (\<exists>e m s. k l = Some e \<and> eseg k (Ptr l) (en_next e) us m s \<and> eseg k m s vs (en_prev e) (Ptr l))"
  by (auto simp: ring_def eseg_append)

lemma clear_ok:
  assumes "l \<in> dom k"
  shows "\<exists>k'. enet_list_clear k l = Some k' \<and> ring l k' [] \<and> dom k' = dom k \<and> (\<forall>a. a \<noteq> l \<longrightarrow> k' a = k a)"
  using assms by (auto simp: enet_list_clear_def ring_def)

lemma begin_ring: "ring l k as \<Longrightarrow> enet_list_begin k l = Some (case as of [] \<Rightarrow> Ptr l | a # _ \<Rightarrow> Ptr a)"
  by (cases as) (auto simp: ring_def enet_list_begin_def)

lemma empty_ring: "ring l k as \<Longrightarrow> enet_list_empty k l = Some (as = [])"
  using begin_ring [of l k as] by (cases as) (auto simp: enet_list_empty_def enet_list_end_def ring_def)

lemma insert_end_ok:
  assumes "ring l k as" "a \<in> dom k" "a \<notin> set (l # as)"
  shows "\<exists>k'. enet_list_insert k (Ptr l) (Ptr a) = Some k' \<and> ring l k' (as @ [a]) \<and> dom k' = dom k \<and>
    (\<forall>b. b \<notin> set (l # a # as) \<longrightarrow> k' b = k b)"
proof -
  obtain e x where e: "k l = Some e" "k a = Some x" "eseg k (Ptr l) (en_next e) as (en_prev e) (Ptr l)" "distinct (l # as)"
    using assms(1,2) by (auto simp: ring_def)
  show ?thesis
  proof (cases as rule: rev_cases)
    case Nil
    then show ?thesis using e assms(3) by (auto simp: enet_list_insert_def ring_def)
  next
    case (snoc us b)
    then obtain n y where b: "eseg k (Ptr l) (en_next e) us n (Ptr b)" "k b = Some y" "en_prev y = n" "en_prev e = Ptr b" "en_next y = Ptr l"
      using e(3) by (auto simp: eseg_snoc)
    have ne: "a \<noteq> l" "b \<noteq> l" "a \<noteq> b" "a \<notin> set us" "b \<notin> set us" "l \<notin> set us" using e(4) assms(3) snoc by auto
    let ?k = "k(a \<mapsto> x\<lparr>en_prev := Ptr b, en_next := Ptr l\<rparr>, b \<mapsto> y\<lparr>en_next := Ptr a\<rparr>, l \<mapsto> e\<lparr>en_prev := Ptr a\<rparr>)"
    have "enet_list_insert k (Ptr l) (Ptr a) = Some ?k" using e b ne by (simp add: enet_list_insert_def)
    moreover have "ring l ?k (as @ [a])"
      using e(4) assms(3) ne b(1-3) snoc by (simp add: ring_def eseg_snoc del: append_assoc)
    moreover have "dom ?k = dom k" using e b by auto
    ultimately show ?thesis using snoc by (intro exI [of _ ?k]) simp
  qed
qed


lemma remove_link_ok:
  assumes "ring l k as" "a \<in> set as"
  shows "\<exists>k'. enet_list_remove k (Ptr a) = Some k' \<and> ring l k' (remove1 a as) \<and> dom k' = dom k \<and> k' a = k a \<and>
    (\<forall>b. b \<notin> set (l # as) \<longrightarrow> k' b = k b)"
proof -
  obtain us vs where as: "as = us @ a # vs" using assms(2) by (auto simp: in_set_conv_decomp)
  have dis: "distinct (l # us @ a # vs)" using assms(1) as by (simp add: ring_def)
  obtain e m s where e: "k l = Some e" "eseg k (Ptr l) (en_next e) us m s" "eseg k m s (a # vs) (en_prev e) (Ptr l)"
    using assms(1) as by (auto simp: ring_split)
  then obtain x where x: "s = Ptr a" "k a = Some x" "en_prev x = m" "eseg k (Ptr a) (en_next x) vs (en_prev e) (Ptr l)" by auto
  have r: "remove1 a as = us @ vs" using dis as by (simp add: remove1_append)
  show ?thesis
  proof (cases us rule: rev_cases)
    case us: Nil
    show ?thesis
    proof (cases vs)
      case Nil
      then show ?thesis using us e(1,2) x dis as by (auto simp: enet_list_remove_def ring_def)
    next
      case (Cons c ws)
      then obtain z where z: "en_next x = Ptr c" "k c = Some z" "en_prev z = Ptr a" "eseg k (Ptr c) (en_next z) ws (en_prev e) (Ptr l)"
        using x(4) by auto
      let ?k = "k(l \<mapsto> e\<lparr>en_next := Ptr c\<rparr>, c \<mapsto> z\<lparr>en_prev := Ptr l\<rparr>)"
      have "enet_list_remove k (Ptr a) = Some ?k" using us Cons e(1,2) x z dis by (auto simp: enet_list_remove_def)
      moreover have "ring l ?k (us @ vs)" using us Cons e(1) z dis by (simp add: ring_def)
      moreover have "dom ?k = dom k" using e(1) z(2) by auto
      ultimately show ?thesis using us Cons dis as r by (intro exI [of _ ?k]) auto
    qed
  next
    case us: (snoc qs b)
    then obtain n y where b: "eseg k (Ptr l) (en_next e) qs n (Ptr b)" "k b = Some y" "en_prev y = n" "m = Ptr b" "en_next y = Ptr a"
      using e(2) x(1) by (auto simp: eseg_snoc)
    show ?thesis
    proof (cases vs)
      case Nil
      let ?k = "k(b \<mapsto> y\<lparr>en_next := Ptr l\<rparr>, l \<mapsto> e\<lparr>en_prev := Ptr b\<rparr>)"
      have "enet_list_remove k (Ptr a) = Some ?k" using us Nil e(1) x b dis by (auto simp: enet_list_remove_def)
      moreover have "ring l ?k (us @ vs)" using us Nil e(1) b dis by (simp add: ring_def eseg_snoc)
      moreover have "dom ?k = dom k" using e(1) b(2) by auto
      ultimately show ?thesis using us Nil dis as r by (intro exI [of _ ?k]) auto
    next
      case (Cons c ws)
      then obtain z where z: "en_next x = Ptr c" "k c = Some z" "en_prev z = Ptr a" "eseg k (Ptr c) (en_next z) ws (en_prev e) (Ptr l)"
        using x(4) by auto
      let ?k = "k(b \<mapsto> y\<lparr>en_next := Ptr c\<rparr>, c \<mapsto> z\<lparr>en_prev := Ptr b\<rparr>)"
      have "enet_list_remove k (Ptr a) = Some ?k" using us Cons x b z dis by (auto simp: enet_list_remove_def)
      moreover have "ring l ?k (us @ vs)"
        unfolding ring_split us Cons using us Cons e(1) b z dis by (auto simp: eseg_snoc)
      moreover have "dom ?k = dom k" using b(2) z(2) by auto
      ultimately show ?thesis using us Cons dis as r by (intro exI [of _ ?k]) auto
    qed
  qed
qed

interpretation ringq: tail_queue "ring l" "\<lambda>k. dom k - {l}" "\<lambda>k a. enet_list_insert k (Ptr l) (Ptr a)" "\<lambda>k a. enet_list_remove k (Ptr a)"
proof
  fix k as a
  assume "ring l k as" "a \<in> dom k - {l}" "a \<notin> set as"
  then show "\<exists>k'. enet_list_insert k (Ptr l) (Ptr a) = Some k' \<and> ring l k' (as @ [a]) \<and> dom k' - {l} = dom k - {l}"
    using insert_end_ok [of l k as a] by auto
next
  fix k as a
  assume "ring l k as" "a \<in> set as"
  then show "\<exists>k'. enet_list_remove k (Ptr a) = Some k' \<and> ring l k' (remove1 a as) \<and> dom k' - {l} = dom k - {l}"
    using remove_link_ok [of l k as a] by auto
qed

lemma size_loop_ok:
  "eseg k q p as m (Ptr l) \<Longrightarrow> l \<notin> set as \<Longrightarrow> list_size_loop k l p n = Some (n + length as)"
proof (induction as arbitrary: q p n)
  case Nil
  then show ?case by (simp add: list_size_loop.simps enet_list_end_def)
next
  case (Cons a as)
  then obtain e where "p = Ptr a" "k a = Some e" "eseg k (Ptr a) (en_next e) as m (Ptr l)" by auto
  then show ?case using Cons by (subst list_size_loop.simps) (simp add: enet_list_end_def)
qed

text \<open>
  A list of my_enet is a queue: whatever sequence of insertions at its end and removals is
  made, it succeeds and the ring of nodes around the sentinel holds the elements of the abstract
  list, and the loop of enet_list_size counts them.
\<close>

theorem enet_list_is_queue:
  assumes "ring l k as" "list_run as ops = Some as'" "\<forall>a. Enq a \<in> set ops \<longrightarrow> a \<in> dom k - {l}"
  shows "\<exists>k' p. queue_run (\<lambda>k a. enet_list_insert k (Ptr l) (Ptr a)) (\<lambda>k a. enet_list_remove k (Ptr a)) k ops = Some k' \<and>
    ring l k' as' \<and> enet_list_begin k' l = Some p \<and> list_size_loop k' l p 0 = Some (length as')"
proof -
  obtain k' where k': "queue_run (\<lambda>k a. enet_list_insert k (Ptr l) (Ptr a)) (\<lambda>k a. enet_list_remove k (Ptr a)) k ops = Some k'"
    "ring l k' as'" using ringq.run_ok [OF assms] by blast
  then obtain e where "k' l = Some e" "eseg k' (Ptr l) (en_next e) as' (en_prev e) (Ptr l)" "l \<notin> set as'"
    by (auto simp: ring_def)
  then show ?thesis using k' size_loop_ok [of k' "Ptr l" "en_next e" as' "en_prev e" l 0] by (simp add: enet_list_begin_def)
qed

theorem enet_list_is_queue_witness:
  "\<exists>k p. queue_run (\<lambda>k a. enet_list_insert k (Ptr 0) (Ptr a)) (\<lambda>k a. enet_list_remove k (Ptr a))
      [0 \<mapsto> \<lparr>en_next = Ptr 0, en_prev = Ptr 0\<rparr>, 1 \<mapsto> \<lparr>en_next = Wild, en_prev = Wild\<rparr>, 2 \<mapsto> \<lparr>en_next = Wild, en_prev = Wild\<rparr>]
      [Enq 2, Enq 1, Deq 2] = Some k \<and> list_size_loop k 0 p 0 = Some 1"
  using enet_list_is_queue [of 0 "[0 \<mapsto> \<lparr>en_next = Ptr 0, en_prev = Ptr 0\<rparr>, 1 \<mapsto> \<lparr>en_next = Wild, en_prev = Wild\<rparr>,
    2 \<mapsto> \<lparr>en_next = Wild, en_prev = Wild\<rparr>]" "[]" "[Enq 2, Enq 1, Deq 2]" "[1]"] by (auto simp: ring_def)

end
