(* ===== verification/Enet_Host.thy ===== *)
theory Enet_Host
  imports Enet_List
begin

section \<open>my\_enet: peers and hosts\<close>

text \<open>
  \<open>cs/my_enet/peer.c\<close>, \<open>host.c\<close> and the command sizes of \<open>protocol.c\<close>.  Commands, channels,
  packets and the blocks of a host live in stores; the sentinels of a peer's five lists follow
  each other from the address \<open>pe_lists\<close>, and those of a channel are in the channel.  \<open>enet_malloc\<close>
  takes the next addresses and aborts the process (\<open>Raise\<close>) when memory is out; fresh memory
  holds \<open>e_junk16\<close> where the code reads it without a write, and \<open>Wild\<close> links.  The socket calls
  are recorded; what \<open>socket\<close> and \<open>bind\<close> return are parameters.  Fields that no function uses
  are left out: the pointer from a peer to its host, its \<open>mtu\<close>, the number of attempts to send,
  the arrays of commands and buffers of a host and the time of its last service.
\<close>

subsection \<open>Data\<close>

record addr =
  ad_host :: "32 word"
  ad_port :: "32 word"

record packet =
  referenceCount :: nat
  pk_flags :: "32 word"
  pk_data :: "byte list"

text \<open>The union \<open>ENetProtocol\<close>: the header and the fields of \<open>ENetProtocolConnect\<close>.\<close>

record protocol =
  h_command :: byte
  h_channelID :: byte
  h_reliable :: "16 word"
  c_windowSize :: "32 word"
  c_channelCount :: "32 word"
  c_sessionID :: "32 word"

record outgoing =
  oc_reliable :: "16 word"
  oc_unreliable :: "16 word"
  oc_sentTime :: "32 word"
  oc_roundTripTimeout :: "32 word"
  oc_roundTripTimeoutLimit :: "32 word"
  oc_fragmentOffset :: "32 word"
  oc_fragmentLength :: "32 word"
  oc_command :: protocol
  oc_packet :: ptr

record incoming =
  ic_reliable :: "16 word"
  ic_unreliable :: "16 word"
  ic_command :: protocol
  ic_fragmentCount :: "32 word"
  ic_fragmentRemaining :: "32 word"
  ic_fragments :: ptr
  ic_packet :: ptr

record channel =
  ch_outgoing :: "16 word"
  ch_incoming :: "16 word"
  ch_reliable :: nat
  ch_unreliable :: nat

datatype peer_state = DISCONNECTED | CONNECTING | ACKNOWLEDGING_CONNECT | CONNECTION_PENDING | CONNECTION_SUCCEEDED
  | CONNECTED | DISCONNECT_LATER | DISCONNECTING | ACKNOWLEDGING_DISCONNECT | ZOMBIE

record peer =
  outgoingPeerID :: "16 word"
  incomingPeerID :: "16 word"
  sessionID :: "32 word"
  pe_address :: addr
  pe_data :: ptr
  pe_state :: peer_state
  channels :: ptr
  channelCount :: nat
  incomingDataTotal :: "32 word"
  outgoingDataTotal :: "32 word"
  lastSendTime :: "32 word"
  lastReceiveTime :: "32 word"
  nextTimeout :: "32 word"
  earliestTimeout :: "32 word"
  packetLossEpoch :: "32 word"
  packetSent :: "32 word"
  packetLost :: "32 word"
  packetLoss :: "32 word"
  packetLossVariance :: "32 word"
  lastRoundTripTime :: "32 word"
  lowestRoundTripTime :: "32 word"
  lastRoundTripTimeVariance :: "32 word"
  highestRoundTripTimeVariance :: "32 word"
  roundTripTime :: "32 word"
  roundTripTimeVariance :: "32 word"
  windowSize :: "32 word"
  reliableDataInTransit :: "32 word"
  outgoingReliable :: "16 word"
  pe_lists :: nat

definition acknowledgements :: "peer \<Rightarrow> nat" where "acknowledgements p = pe_lists p"
definition outgoingReliableCommands :: "peer \<Rightarrow> nat" where "outgoingReliableCommands p = pe_lists p + 1"
definition outgoingUnreliableCommands :: "peer \<Rightarrow> nat" where "outgoingUnreliableCommands p = pe_lists p + 2"
definition sentReliableCommands :: "peer \<Rightarrow> nat" where "sentReliableCommands p = pe_lists p + 3"
definition sentUnreliableCommands :: "peer \<Rightarrow> nat" where "sentUnreliableCommands p = pe_lists p + 4"

record host =
  ho_socket :: int
  ho_address :: "addr option"
  incomingBandwidth :: "32 word"
  outgoingBandwidth :: "32 word"
  peers :: "peer list"
  lastServicedPeer :: nat
  commandCount :: nat
  bufferCount :: nat
  receivedAddress :: addr
  ho_block :: ptr
  ho_peers :: ptr

datatype os_event = Socket | Bind int "addr option" | Nonblock int | Rcvbuf int nat | Sndbuf int nat | Close int

text \<open>
  \<open>stray\<close> records that the program has computed a pointer to an element beyond an array: the
  language leaves this undefined also when the pointer is not used.
\<close>

record enet =
  links :: links
  outs :: "outgoing store"
  ins :: "incoming store"
  acks :: "32 word store"
  chans :: "channel list store"
  frags :: "32 word list store"
  packets :: "packet store"
  blocks :: "nat store"
  brk :: nat
  os :: "os_event list"
  stray :: bool

record enet_env =
  e_oom :: "nat \<Rightarrow> bool"
  e_junk16 :: "16 word"

text \<open>\<open>enet_malloc\<close> of a block with \<open>n\<close> addresses.\<close>

definition enet_malloc :: "enet_env \<Rightarrow> nat \<Rightarrow> enet \<Rightarrow> (nat \<times> enet) lres" where
  "enet_malloc E n s = (if e_oom E (brk s) then Raise else Ret (brk s, s\<lparr>brk := brk s + n\<rparr>))"

definition swap16 :: "16 word \<Rightarrow> 16 word" where
  "swap16 w = push_bit 8 w OR drop_bit 8 w"

definition swap32 :: "32 word \<Rightarrow> 32 word" where
  "swap32 w = push_bit 24 w OR (push_bit 8 w AND 0xff0000) OR (drop_bit 8 w AND 0xff00) OR drop_bit 24 w"

subsection \<open>Command sizes\<close>

definition commandSize :: "nat list" where
  "commandSize = [0, 16, 0, 0, 0, 0, 0, 0, 0, 0, 0, 0]"

definition enet_protocol_command_size :: "byte \<Rightarrow> nat option" where
  "enet_protocol_command_size n = nth_opt commandSize (unat (n AND 0x0f))"

subsection \<open>Resetting a peer\<close>

definition dec_ref :: "packet \<Rightarrow> packet" where
  "dec_ref k = k\<lparr>referenceCount := u64_sub (referenceCount k) 1\<rparr>"

text \<open>\<open>enet_packet_destroy\<close>, called when the count is 0, has an empty body.\<close>

definition release :: "packet store \<Rightarrow> ptr \<Rightarrow> packet store option" where
  "release h p = (if p = Null then Some h else assign h p dec_ref)"

partial_function (option) reset_outgoing_commands :: "enet \<Rightarrow> nat \<Rightarrow> enet option" where
  "reset_outgoing_commands s q = Option.bind (enet_list_empty (links s) q) (\<lambda>b. if b then Some s else
     Option.bind (enet_list_begin (links s) q) (\<lambda>p.
     Option.bind (enet_list_remove (links s) p) (\<lambda>k.
     Option.bind (deref (outs s) p) (\<lambda>c.
     Option.bind (release (packets s) (oc_packet c)) (\<lambda>h.
     Option.bind (dispose k p) (\<lambda>k1.
     Option.bind (dispose (outs s) p) (\<lambda>o1.
     reset_outgoing_commands (s\<lparr>links := k1, outs := o1, packets := h\<rparr>) q)))))))"

partial_function (option) reset_incoming_commands :: "enet \<Rightarrow> nat \<Rightarrow> enet option" where
  "reset_incoming_commands s q = Option.bind (enet_list_empty (links s) q) (\<lambda>b. if b then Some s else
     Option.bind (enet_list_begin (links s) q) (\<lambda>p.
     Option.bind (enet_list_remove (links s) p) (\<lambda>k.
     Option.bind (deref (ins s) p) (\<lambda>c.
     Option.bind (release (packets s) (ic_packet c)) (\<lambda>h.
     Option.bind (if ic_fragments c \<noteq> Null then dispose (frags s) (ic_fragments c) else Some (frags s)) (\<lambda>f.
     Option.bind (dispose k p) (\<lambda>k1.
     Option.bind (dispose (ins s) p) (\<lambda>i1.
     reset_incoming_commands (s\<lparr>links := k1, ins := i1, packets := h, frags := f\<rparr>) q))))))))"

partial_function (option) reset_acknowledgements :: "enet \<Rightarrow> nat \<Rightarrow> enet option" where
  "reset_acknowledgements s q = Option.bind (enet_list_empty (links s) q) (\<lambda>b. if b then Some s else
     Option.bind (enet_list_begin (links s) q) (\<lambda>p.
     Option.bind (enet_list_remove (links s) p) (\<lambda>k.
     Option.bind (dispose k p) (\<lambda>k1.
     Option.bind (dispose (acks s) p) (\<lambda>a1.
     reset_acknowledgements (s\<lparr>links := k1, acks := a1\<rparr>) q)))))"

fun reset_channels :: "enet \<Rightarrow> channel list \<Rightarrow> enet option" where
  "reset_channels s [] = Some s"
| "reset_channels s (c # cs) = do {
     s1 \<leftarrow> reset_incoming_commands s (ch_reliable c);
     s2 \<leftarrow> reset_incoming_commands s1 (ch_unreliable c);
     reset_channels s2 cs }"

text \<open>\<open>enet_free\<close> of the array of channels: the sentinels in it are gone with it.\<close>

definition free_channels :: "enet \<Rightarrow> ptr \<Rightarrow> enet option" where
  "free_channels s p = do {
     cs \<leftarrow> deref (chans s) p;
     h \<leftarrow> dispose (chans s) p;
     Some (s\<lparr>chans := h, links := links s |` (- (set (map ch_reliable cs) \<union> set (map ch_unreliable cs)))\<rparr>) }"

definition enet_peer_reset_queues :: "enet \<Rightarrow> peer \<Rightarrow> (enet \<times> peer) option" where
  "enet_peer_reset_queues s p = do {
     s1 \<leftarrow> reset_acknowledgements s (acknowledgements p);
     s2 \<leftarrow> reset_outgoing_commands s1 (sentReliableCommands p);
     s3 \<leftarrow> reset_outgoing_commands s2 (sentUnreliableCommands p);
     s4 \<leftarrow> reset_outgoing_commands s3 (outgoingReliableCommands p);
     s5 \<leftarrow> reset_outgoing_commands s4 (outgoingUnreliableCommands p);
     s6 \<leftarrow> (if channels p \<noteq> Null \<and> channelCount p > 0 then do {
         cs \<leftarrow> deref (chans s5) (channels p);
         _ \<leftarrow> must (channelCount p \<le> length cs);
         s6 \<leftarrow> reset_channels s5 (take (channelCount p) cs);
         free_channels s6 (channels p) }
       else Some s5);
     Some (s6, p\<lparr>channels := Null, channelCount := 0\<rparr>) }"

definition ROUND_TRIP_TIME :: "32 word" where "ROUND_TRIP_TIME = 500"

definition enet_peer_reset :: "enet \<Rightarrow> peer \<Rightarrow> (enet \<times> peer) option" where
  "enet_peer_reset s p = enet_peer_reset_queues s (p\<lparr>
     outgoingPeerID := 0x7FFF, pe_state := DISCONNECTED,
     incomingDataTotal := 0, outgoingDataTotal := 0,
     lastSendTime := 0, lastReceiveTime := 0,
     nextTimeout := 0, earliestTimeout := 0,
     packetLossEpoch := 0, packetSent := 0, packetLost := 0, packetLoss := 0, packetLossVariance := 0,
     lastRoundTripTime := ROUND_TRIP_TIME, lowestRoundTripTime := ROUND_TRIP_TIME,
     lastRoundTripTimeVariance := 0, highestRoundTripTimeVariance := 0,
     roundTripTime := ROUND_TRIP_TIME, roundTripTimeVariance := 0,
     reliableDataInTransit := 0\<rparr>)"

subsection \<open>Queuing a command\<close>

definition ACKNOWLEDGE :: byte where "ACKNOWLEDGE = 0x80"

text \<open>
  Without the channel \<open>0xff\<close> no sequence number is written, and junk is sent.  The pointer
  to the channel is computed and not used; the one to the channel \<open>0xff\<close> is beyond the array of the
  peer's channels, and beyond its end when there are fewer than 255.  The function ends without a
  return statement, and its caller does not use the value.
\<close>

definition enet_peer_queue_outgoing_command ::
  "enet_env \<Rightarrow> enet \<Rightarrow> peer \<Rightarrow> protocol \<Rightarrow> ptr \<Rightarrow> 32 word \<Rightarrow> 16 word \<Rightarrow> (enet \<times> peer) lres" where
  "enet_peer_queue_outgoing_command E s p command pk offset len =
     fetch (enet_protocol_command_size (h_command command)) (\<lambda>sz.
     let p1 = p\<lparr>outgoingDataTotal := outgoingDataTotal p + of_nat sz + ucast len\<rparr> in
     lbind (enet_malloc E 1 s) (\<lambda>(a, s1).
     let rel = (if h_channelID command = 0xff then outgoingReliable p1 + 1 else e_junk16 E);
         p2 = (if h_channelID command = 0xff then p1\<lparr>outgoingReliable := rel\<rparr> else p1);
         oc = \<lparr>oc_reliable = rel, oc_unreliable = (if h_channelID command = 0xff then 0 else e_junk16 E),
           oc_sentTime = 0, oc_roundTripTimeout = 0, oc_roundTripTimeoutLimit = 0,
           oc_fragmentOffset = offset, oc_fragmentLength = ucast len,
           oc_command = command\<lparr>h_reliable := swap16 rel\<rparr>, oc_packet = pk\<rparr>;
         k = (links s1)(a \<mapsto> \<lparr>en_next = Wild, en_prev = Wild\<rparr>);
         q = (if h_command command AND ACKNOWLEDGE \<noteq> 0 then outgoingReliableCommands p2 else outgoingUnreliableCommands p2) in
     fetch (if pk = Null then Some (packets s1)
            else assign (packets s1) pk (\<lambda>x. x\<lparr>referenceCount := u64 (referenceCount x + 1)\<rparr>)) (\<lambda>h.
     fetch (enet_list_insert k (enet_list_end q) (Ptr a)) (\<lambda>k1.
     Ret (s1\<lparr>links := k1, outs := (outs s1)(a \<mapsto> oc), packets := h,
       stray := stray s1 \<or> unat (h_channelID command) > channelCount p\<rparr>, p2)))))"


subsection \<open>Hosts\<close>

text \<open>A peer after \<open>memset\<close> with 0, whose lists are at \<open>l\<close>.\<close>

definition zero_peer :: "nat \<Rightarrow> peer" where
  "zero_peer l = \<lparr>outgoingPeerID = 0, incomingPeerID = 0, sessionID = 0, pe_address = \<lparr>ad_host = 0, ad_port = 0\<rparr>,
     pe_data = Null, pe_state = DISCONNECTED, channels = Null, channelCount = 0,
     incomingDataTotal = 0, outgoingDataTotal = 0, lastSendTime = 0, lastReceiveTime = 0,
     nextTimeout = 0, earliestTimeout = 0, packetLossEpoch = 0, packetSent = 0, packetLost = 0, packetLoss = 0,
     packetLossVariance = 0, lastRoundTripTime = 0, lowestRoundTripTime = 0, lastRoundTripTimeVariance = 0,
     highestRoundTripTimeVariance = 0, roundTripTime = 0, roundTripTimeVariance = 0, windowSize = 0,
     reliableDataInTransit = 0, outgoingReliable = 0, pe_lists = l\<rparr>"

definition init_peer :: "enet \<Rightarrow> nat \<Rightarrow> nat \<Rightarrow> (enet \<times> peer) option" where
  "init_peer s base i = do {
     let p = (zero_peer (base + 5 * i))\<lparr>incomingPeerID := of_nat i, pe_data := Null\<rparr>;
     k1 \<leftarrow> enet_list_clear (links s) (acknowledgements p);
     k2 \<leftarrow> enet_list_clear k1 (outgoingReliableCommands p);
     k3 \<leftarrow> enet_list_clear k2 (outgoingUnreliableCommands p);
     k4 \<leftarrow> enet_list_clear k3 (sentReliableCommands p);
     k5 \<leftarrow> enet_list_clear k4 (sentUnreliableCommands p);
     enet_peer_reset (s\<lparr>links := k5\<rparr>) p }"

fun init_peers :: "enet \<Rightarrow> nat \<Rightarrow> nat \<Rightarrow> nat \<Rightarrow> (enet \<times> peer list) option" where
  "init_peers s base i 0 = Some (s, [])"
| "init_peers s base i (Suc n) = do {
     (s1, p) \<leftarrow> init_peer s base i;
     (s2, ps) \<leftarrow> init_peers s1 base (i + 1) n;
     Some (s2, p # ps) }"

definition MAXIMUM_PEER_ID :: nat where "MAXIMUM_PEER_ID = 0x7FFF"

text \<open>\<open>sock\<close> and \<open>bound\<close> are the results of \<open>socket\<close> and \<open>bind\<close>; the options are not checked.\<close>

definition enet_host_create ::
  "enet_env \<Rightarrow> int \<Rightarrow> int \<Rightarrow> addr option \<Rightarrow> nat \<Rightarrow> 32 word \<Rightarrow> 32 word \<Rightarrow> enet \<Rightarrow> (host option \<times> enet) lres" where
  "enet_host_create E sock bound address peerCount inb outb s =
     lbind (enet_malloc E 1 s) (\<lambda>(a, s1). let s1 = s1\<lparr>blocks := (blocks s1)(a \<mapsto> 1)\<rparr> in
     if peerCount > MAXIMUM_PEER_ID then Ret (None, s1)
     else lbind (enet_malloc E (5 * peerCount + 1) s1) (\<lambda>(b, s2).
       let s3 = s2\<lparr>blocks := (blocks s2)(b \<mapsto> peerCount),
                   links := (\<lambda>l. if b \<le> l \<and> l < b + 5 * peerCount then Some \<lparr>en_next = Null, en_prev = Null\<rparr> else links s2 l)\<rparr>;
           s4 = s3\<lparr>os := os s3 @ [Socket]\<rparr>;
           try_bind = (sock \<noteq> -1 \<and> address \<noteq> None);
           s5 = (if try_bind then s4\<lparr>os := os s4 @ [Bind sock address]\<rparr> else s4) in
       if sock = -1 \<or> (address \<noteq> None \<and> bound < 0) then
         let s6 = (if sock \<noteq> -1 then s5\<lparr>os := os s5 @ [Close sock]\<rparr> else s5) in
         fetch (dispose (blocks s6) (Ptr b)) (\<lambda>h1.
         fetch (dispose h1 (Ptr a)) (\<lambda>h2.
         Ret (None, s6\<lparr>blocks := h2, links := (\<lambda>l. if b \<le> l \<and> l < b + 5 * peerCount then None else links s6 l)\<rparr>)))
       else
         let s6 = s5\<lparr>os := os s5 @ [Nonblock sock, Rcvbuf sock 262144, Sndbuf sock 262144]\<rparr> in
         fetch (init_peers s6 b 0 peerCount) (\<lambda>(s7, ps).
         Ret (Some \<lparr>ho_socket = sock, ho_address = address, incomingBandwidth = inb, outgoingBandwidth = outb,
                    peers = ps, lastServicedPeer = 0, commandCount = 0, bufferCount = 0, receivedAddress = \<lparr>ad_host = 0, ad_port = 0\<rparr>,
                    ho_block = Ptr a, ho_peers = Ptr b\<rparr>, s7))))"

fun find_disconnected :: "peer list \<Rightarrow> nat" where
  "find_disconnected [] = 0"
| "find_disconnected (p # ps) = (if pe_state p = DISCONNECTED then 0 else 1 + find_disconnected ps)"

definition clamp_channels :: "nat \<Rightarrow> nat" where
  "clamp_channels n = (if n < 1 then 1 else if n > 255 then 255 else n)"

definition window_size :: "32 word \<Rightarrow> 32 word" where
  "window_size out =
     (let w = (if out = 0 then 32768 else (out div 65536) * 4096) in
      if w < 4096 then 4096 else if w > 32768 then 32768 else w)"

text \<open>The channels at \<open>c\<close>: their sentinels are the two addresses after each other from \<open>c\<close> on.\<close>

fun clear_channels :: "links \<Rightarrow> nat \<Rightarrow> nat \<Rightarrow> (links \<times> channel list) option" where
  "clear_channels k c 0 = Some (k, [])"
| "clear_channels k c (Suc n) = do {
     k1 \<leftarrow> enet_list_clear k c;
     k2 \<leftarrow> enet_list_clear k1 (c + 1);
     (k3, cs) \<leftarrow> clear_channels k2 (c + 2) n;
     Some (k3, \<lparr>ch_outgoing = 0, ch_incoming = 0, ch_reliable = c, ch_unreliable = c + 1\<rparr> # cs) }"

definition COMMAND_CONNECT :: byte where "COMMAND_CONNECT = 2"

definition enet_host_connect ::
  "enet_env \<Rightarrow> 32 word \<Rightarrow> host \<Rightarrow> addr \<Rightarrow> nat \<Rightarrow> enet \<Rightarrow> (nat option \<times> host \<times> enet) lres" where
  "enet_host_connect E rand h address nchan s =
     (let n = clamp_channels nchan; i = find_disconnected (peers h) in
      if i \<ge> length (peers h) then Ret (None, h, s)
      else let p = (peers h ! i)\<lparr>pe_state := CONNECTING, pe_address := address\<rparr> in
      lbind (enet_malloc E (2 * n) s) (\<lambda>(c, s1).
      let w = window_size (outgoingBandwidth h);
          p1 = p\<lparr>channels := Ptr c, channelCount := n, sessionID := rand, windowSize := w\<rparr>;
          k = (\<lambda>l. if c \<le> l \<and> l < c + 2 * n then Some \<lparr>en_next = Wild, en_prev = Wild\<rparr> else links s1 l) in
      fetch (clear_channels k c n) (\<lambda>(k1, cs).
      let s2 = s1\<lparr>links := k1, chans := (chans s1)(c \<mapsto> cs)\<rparr>;
          command = \<lparr>h_command = COMMAND_CONNECT, h_channelID = 0xff, h_reliable = e_junk16 E,
            c_windowSize = swap32 w, c_channelCount = swap32 (of_nat n), c_sessionID = rand\<rparr> in
      lbind (enet_peer_queue_outgoing_command E s2 p1 command Null 0 0) (\<lambda>(s3, p2).
      Ret (Some i, h\<lparr>peers := (peers h)[i := p2]\<rparr>, s3)))))"

subsection \<open>Waiting for a socket\<close>

text \<open>
  \<open>enet_socket_wait\<close>, with \<open>select\<close> as a parameter: it is given which of writing and reading are
  asked for and the time to wait, and returns its result and the two sets.
\<close>

definition WAIT_SEND :: "32 word" where "WAIT_SEND = 1"
definition WAIT_RECEIVE :: "32 word" where "WAIT_RECEIVE = 2"

definition enet_socket_wait ::
  "(bool \<Rightarrow> bool \<Rightarrow> nat \<times> nat \<Rightarrow> int \<times> bool \<times> bool) \<Rightarrow> 32 word \<Rightarrow> 32 word \<Rightarrow> int \<times> 32 word" where
  "enet_socket_wait select condition tmo =
     (let (n, w, r) = select (condition AND WAIT_SEND \<noteq> 0) (condition AND WAIT_RECEIVE \<noteq> 0)
            (unat (tmo div 1000), unat ((tmo mod 1000) * 1000)) in
      if n < 0 then (-1, condition)
      else if n = 0 then (0, 0)
      else (0, (if w then WAIT_SEND else 0) OR (if r then WAIT_RECEIVE else 0)))"

end
