(* ===== verification/Enet_Peers.thy ===== *)
theory Enet_Peers
  imports Enet_Host
begin

section \<open>my\_enet: what the peers of a host are\<close>

text \<open>
  The lists of a peer are emptied and their commands released; each peer of a host owns an area
  of memory, and what changes one peer in its own area and in fresh memory keeps the others.
\<close>

subsection \<open>Queued commands are released\<close>

text \<open>\<open>refs h o as b\<close>: how many of the commands \<open>as\<close> refer to the packet \<open>b\<close>.\<close>

definition refs :: "outgoing store \<Rightarrow> nat list \<Rightarrow> nat \<Rightarrow> nat" where
  "refs h as b = length (filter (\<lambda>a. map_option oc_packet (h a) = Some (Ptr b)) as)"

definition command_ok :: "enet \<Rightarrow> nat \<Rightarrow> bool" where
  "command_ok s a \<longleftrightarrow> (\<exists>c. outs s a = Some c \<and> (oc_packet c = Null \<or> (\<exists>b x. oc_packet c = Ptr b \<and> packets s b = Some x)))"

lemma release_ok:
  assumes "p = Null \<or> (\<exists>b x. p = Ptr b \<and> h b = Some x)"
  shows "release h p = Some (\<lambda>b. if p = Ptr b then map_option dec_ref (h b) else h b)"
  using assms by (auto simp: release_def intro!: ext)

lemma refs_Cons: "outs s a = Some c \<Longrightarrow> refs (outs s) (a # as) b = (if oc_packet c = Ptr b then 1 else 0) + refs (outs s) as b"
  by (simp add: refs_def)

lemma refs_cong: "(\<And>a. a \<in> set as \<Longrightarrow> h' a = h a) \<Longrightarrow> refs h' as b = refs h as b"
  unfolding refs_def by (intro arg_cong [of _ _ length] filter_cong) auto

text \<open>Only the links, the commands and the packets differ.\<close>

definition same_rest :: "enet \<Rightarrow> enet \<Rightarrow> bool" where
  "same_rest s s' \<longleftrightarrow> s' = s\<lparr>links := links s', outs := outs s', packets := packets s'\<rparr>"

lemma same_rest_fields: "same_rest s s' \<Longrightarrow> ins s' = ins s \<and> acks s' = acks s \<and> chans s' = chans s \<and> frags s' = frags s \<and>
    blocks s' = blocks s \<and> brk s' = brk s \<and> os s' = os s"
  unfolding same_rest_def by (erule ssubst) simp

lemma reset_outgoing_ok:
  assumes "ring q (links s) as" "\<forall>a \<in> set as. command_ok s a"
  shows "\<exists>s'. reset_outgoing_commands s q = Some s' \<and> ring q (links s') [] \<and>
    (\<forall>a \<in> set as. links s' a = None \<and> outs s' a = None) \<and>
    (\<forall>x. x \<notin> set (q # as) \<longrightarrow> links s' x = links s x) \<and> (\<forall>x. x \<notin> set as \<longrightarrow> outs s' x = outs s x) \<and>
    (\<forall>b. packets s' b = map_option (dec_ref ^^ refs (outs s) as b) (packets s b)) \<and>
    same_rest s s'"
  using assms
proof (induction as arbitrary: s)
  case Nil
  have "reset_outgoing_commands s q = Some s" using empty_ring [OF Nil(1)] by (subst reset_outgoing_commands.simps) simp
  then show ?case using Nil by (intro exI [of _ s]) (simp add: same_rest_def refs_def option.map_id0 flip: id_def)
next
  case (Cons a as)
  obtain c where c: "outs s a = Some c" "oc_packet c = Null \<or> (\<exists>b x. oc_packet c = Ptr b \<and> packets s b = Some x)"
    using Cons.prems(2) by (auto simp: command_ok_def)
  obtain k where k: "enet_list_remove (links s) (Ptr a) = Some k" "ring q k as" "k a = links s a"
    "\<forall>b. b \<notin> set (q # a # as) \<longrightarrow> k b = links s b"
    using remove_link_ok [OF Cons.prems(1), of a] by auto
  have dis: "a \<notin> set (q # as)" using Cons.prems(1) by (auto simp: ring_def)
  obtain x where x: "links s a = Some x" using ring_dom [OF Cons.prems(1)] by auto
  define h where "h = (\<lambda>b. if oc_packet c = Ptr b then map_option dec_ref (packets s b) else packets s b)"
  define t where "t = s\<lparr>links := k(a := None), outs := (outs s)(a := None), packets := h\<rparr>"
  have "reset_outgoing_commands s q = reset_outgoing_commands t q"
    using empty_ring [OF Cons.prems(1)] begin_ring [OF Cons.prems(1)] k(1,3) c release_ok [OF c(2)] x
    by (subst reset_outgoing_commands.simps) (simp add: t_def h_def)
  moreover have "ring q (links t) as" using k(2) dis by (intro ring_cong [OF _ k(2)]) (auto simp: t_def)
  moreover have "\<forall>a \<in> set as. command_ok t a"
  proof
    fix d
    assume d: "d \<in> set as"
    then have "command_ok s d" "d \<noteq> a" using Cons.prems(2) dis by auto
    then show "command_ok t d" by (force simp: command_ok_def t_def h_def)
  qed
  ultimately obtain s' where s': "reset_outgoing_commands s q = Some s'" "ring q (links s') []"
    "\<forall>a \<in> set as. links s' a = None \<and> outs s' a = None"
    "\<forall>x. x \<notin> set (q # as) \<longrightarrow> links s' x = links t x" "\<forall>x. x \<notin> set as \<longrightarrow> outs s' x = outs t x"
    "\<forall>b. packets s' b = map_option (dec_ref ^^ refs (outs t) as b) (packets t b)"
    "same_rest t s'"
    using Cons.IH [of t] by auto
  have r: "refs (outs t) as b = refs (outs s) as b" for b using dis by (intro refs_cong) (auto simp: t_def)
  have "packets s' b = map_option (dec_ref ^^ refs (outs s) (a # as) b) (packets s b)" for b
    using s'(6) r by (cases "packets s b") (auto simp: refs_Cons [where s = s, OF c(1)] t_def h_def funpow_swap1)
  moreover have "same_rest s s'" using s'(7) by (simp add: t_def same_rest_def)
  moreover have "links s' a = None" "outs s' a = None" using s'(4,5) dis by (auto simp: t_def)
  moreover have "\<forall>x. x \<notin> set (q # a # as) \<longrightarrow> links s' x = links s x" using s'(4) k(4) by (auto simp: t_def)
  moreover have "\<forall>x. x \<notin> set (a # as) \<longrightarrow> outs s' x = outs s x" using s'(5) by (auto simp: t_def)
  ultimately show ?case using s'(1-3) by (intro exI [of _ s']) simp
qed

lemma reset_empty:
  assumes "ring q (links s) []"
  shows "reset_outgoing_commands s q = Some s" "reset_acknowledgements s q = Some s" "reset_incoming_commands s q = Some s"
  using empty_ring [OF assms]
  by (simp_all add: reset_outgoing_commands.simps reset_acknowledgements.simps reset_incoming_commands.simps)

lemma reset_channels_empty:
  "\<forall>c \<in> set cs. ring (ch_reliable c) (links s) [] \<and> ring (ch_unreliable c) (links s) [] \<Longrightarrow> reset_channels s cs = Some s"
  by (induction cs) (simp_all add: reset_empty)


subsection \<open>The peers of a host\<close>

text \<open>
  \<open>peer_ok s p F\<close>: the peer \<open>p\<close> owns the addresses \<open>F\<close>.  A disconnected peer has five empty
  lists and no channels; a connecting one has the command \<open>a\<close> in its unreliable queue and \<open>n\<close>
  channels at \<open>c\<close>, all of whose lists are empty.
\<close>

definition list_area :: "peer \<Rightarrow> nat set" where
  "list_area p = {pe_lists p..<pe_lists p + 5}"

definition channel_at :: "nat \<Rightarrow> channel" where
  "channel_at c = \<lparr>ch_outgoing = 0, ch_incoming = 0, ch_reliable = c, ch_unreliable = c + 1\<rparr>"

definition channels_at :: "nat \<Rightarrow> nat \<Rightarrow> channel list" where
  "channels_at c n = map (\<lambda>j. channel_at (c + 2 * j)) [0..<n]"

definition other_lists_empty :: "enet \<Rightarrow> peer \<Rightarrow> bool" where
  "other_lists_empty s p \<longleftrightarrow> ring (acknowledgements p) (links s) [] \<and> ring (outgoingReliableCommands p) (links s) [] \<and>
     ring (sentReliableCommands p) (links s) [] \<and> ring (sentUnreliableCommands p) (links s) []"

definition idle :: "enet \<Rightarrow> peer \<Rightarrow> bool" where
  "idle s p \<longleftrightarrow> pe_state p = DISCONNECTED \<and> ring (outgoingUnreliableCommands p) (links s) [] \<and> channels p = Null \<and> channelCount p = 0"

definition calling :: "enet \<Rightarrow> peer \<Rightarrow> nat \<Rightarrow> nat \<Rightarrow> bool" where
  "calling s p a c \<longleftrightarrow> pe_state p = CONNECTING \<and> ring (outgoingUnreliableCommands p) (links s) [a] \<and>
     (\<exists>oc. outs s a = Some oc \<and> oc_packet oc = Null \<and> h_command (oc_command oc) = COMMAND_CONNECT) \<and>
     channels p = Ptr c \<and> 1 \<le> channelCount p \<and> channelCount p \<le> 255 \<and> chans s c = Some (channels_at c (channelCount p)) \<and>
     (\<forall>l. c \<le> l \<and> l < c + 2 * channelCount p \<longrightarrow> ring l (links s) []) \<and>
     4096 \<le> windowSize p \<and> windowSize p \<le> 32768 \<and>
     a \<notin> list_area p \<and> a \<notin> {c..<c + 2 * channelCount p} \<and> list_area p \<inter> {c..<c + 2 * channelCount p} = {}"

definition peer_ok :: "enet \<Rightarrow> peer \<Rightarrow> nat set \<Rightarrow> bool" where
  "peer_ok s p F \<longleftrightarrow> other_lists_empty s p \<and> (idle s p \<and> F = list_area p \<or>
     (\<exists>a c. calling s p a c \<and> F = list_area p \<union> {c..<c + 2 * channelCount p} \<union> {a}))"

lemmas list_defs = acknowledgements_def outgoingReliableCommands_def outgoingUnreliableCommands_def sentReliableCommands_def
  sentUnreliableCommands_def list_area_def

definition agree :: "nat set \<Rightarrow> enet \<Rightarrow> enet \<Rightarrow> bool" where
  "agree F s s' \<longleftrightarrow> (\<forall>x \<in> F. links s' x = links s x \<and> outs s' x = outs s x \<and> chans s' x = chans s x)"

lemma agree_ring: "agree F s s' \<Longrightarrow> set (l # as) \<subseteq> F \<Longrightarrow> ring l (links s) as \<Longrightarrow> ring l (links s') as"
  by (rule ring_cong) (auto simp: agree_def)

lemma agree_trans: "agree F s t \<Longrightarrow> agree F t u \<Longrightarrow> agree F s u"
  by (simp add: agree_def)

lemma list_in_area: "acknowledgements p \<in> list_area p" "outgoingReliableCommands p \<in> list_area p"
  "outgoingUnreliableCommands p \<in> list_area p" "sentReliableCommands p \<in> list_area p" "sentUnreliableCommands p \<in> list_area p"
  by (simp_all add: list_defs)

lemma other_lists_not_unreliable: "acknowledgements p \<noteq> outgoingUnreliableCommands p"
  "outgoingReliableCommands p \<noteq> outgoingUnreliableCommands p" "sentReliableCommands p \<noteq> outgoingUnreliableCommands p"
  "sentUnreliableCommands p \<noteq> outgoingUnreliableCommands p"
  by (simp_all add: list_defs)

lemma other_lists_agree:
  assumes "other_lists_empty s p" "agree F s s'" "list_area p - {outgoingUnreliableCommands p} \<subseteq> F"
  shows "other_lists_empty s' p"
proof -
  have "ring l (links s') []" if "l \<in> list_area p" "l \<noteq> outgoingUnreliableCommands p" "ring l (links s) []" for l
    using that assms(3) by (intro agree_ring [OF assms(2) _ that(3)]) auto
  then show ?thesis using assms(1) list_in_area [of p] other_lists_not_unreliable [of p] by (simp add: other_lists_empty_def)
qed

lemma peer_ok_agree:
  assumes "peer_ok s p F" "agree F s s'"
  shows "peer_ok s' p F"
proof -
  have F: "list_area p \<subseteq> F" using assms(1) by (auto simp: peer_ok_def)
  have o: "other_lists_empty s' p" using other_lists_agree [OF _ assms(2)] F assms(1) by (auto simp: peer_ok_def)
  have u: "outgoingUnreliableCommands p \<in> F" using F by (auto simp: list_defs)
  from assms(1) consider "idle s p" "F = list_area p"
    | a c where "calling s p a c" "F = list_area p \<union> {c..<c + 2 * channelCount p} \<union> {a}"
    unfolding peer_ok_def by blast
  then show ?thesis
  proof cases
    case 1
    then have "idle s' p" using agree_ring [OF assms(2), of _ "[]"] u by (auto simp: idle_def)
    then show ?thesis using o 1 by (simp add: peer_ok_def)
  next
    case 2
    have "c \<in> F" using 2 by (auto simp: calling_def)
    then have "calling s' p a c"
      using 2 assms(2) agree_ring [OF assms(2), of _ "[]"] agree_ring [OF assms(2), of _ "[a]"] u
      by (auto simp: calling_def agree_def)
    then show ?thesis using o 2 by (auto simp: peer_ok_def)
  qed
qed

lemma channels_at_sentinels:
  "set (map ch_reliable (channels_at c n)) \<union> set (map ch_unreliable (channels_at c n)) = {c..<c + 2 * n}"
proof -
  have sub: "l \<in> (\<lambda>j. c + 2 * j) ` {0..<n} \<union> (\<lambda>j. Suc (c + 2 * j)) ` {0..<n}" if "c \<le> l" "l < c + 2 * n" for l
  proof (cases "even (l - c)")
    case True
    then have "l = c + 2 * ((l - c) div 2)" "(l - c) div 2 < n" using that by auto
    then show ?thesis by (intro UnI1 image_eqI) auto
  next
    case False
    then have "l = Suc (c + 2 * ((l - c) div 2))" "(l - c) div 2 < n" using that by presburger+
    then show ?thesis by (intro UnI2 image_eqI) auto
  qed
  then have "{c..<c + 2 * n} \<subseteq> (\<lambda>j. c + 2 * j) ` {0..<n} \<union> (\<lambda>j. Suc (c + 2 * j)) ` {0..<n}"
    using sub by (intro subsetI) simp
  moreover have "(\<lambda>j. c + 2 * j) ` {0..<n} \<union> (\<lambda>j. Suc (c + 2 * j)) ` {0..<n} \<subseteq> {c..<c + 2 * n}" by auto
  ultimately show ?thesis by (simp add: channels_at_def channel_at_def image_image)
qed

lemma sentinels_compl: "- ch_reliable ` set (channels_at c n) \<inter> - ch_unreliable ` set (channels_at c n) = - {c..<c + 2 * n}"
  using channels_at_sentinels [of c n] by auto

lemma queues_reset:
  assumes "peer_ok s p F"
  shows "\<exists>s' p'. enet_peer_reset_queues s p = Some (s', p') \<and> p' = p\<lparr>channels := Null, channelCount := 0\<rparr> \<and>
    other_lists_empty s' p \<and> ring (outgoingUnreliableCommands p) (links s') [] \<and> agree (- F) s s' \<and> brk s' = brk s"
proof -
  have o: "other_lists_empty s p" using assms by (simp add: peer_ok_def)
  then have e: "ring (acknowledgements p) (links s) []" "ring (sentReliableCommands p) (links s) []"
    "ring (sentUnreliableCommands p) (links s) []" "ring (outgoingReliableCommands p) (links s) []"
    by (simp_all add: other_lists_empty_def)
  from assms consider "idle s p" "F = list_area p"
    | a c where "calling s p a c" "F = list_area p \<union> {c..<c + 2 * channelCount p} \<union> {a}"
    unfolding peer_ok_def by blast
  then show ?thesis
  proof cases
    case 1
    then show ?thesis using o e by (simp add: enet_peer_reset_queues_def reset_empty idle_def agree_def)
  next
    case 2
    let ?q = "outgoingUnreliableCommands p" and ?n = "channelCount p"
    have q: "ring ?q (links s) [a]" and cmd: "command_ok s a" and ch: "channels p = Ptr c" "1 \<le> ?n" "chans s c = Some (channels_at c ?n)"
      "\<forall>l. c \<le> l \<and> l < c + 2 * ?n \<longrightarrow> ring l (links s) []"
      "a \<notin> list_area p" "a \<notin> {c..<c + 2 * ?n}" "list_area p \<inter> {c..<c + 2 * ?n} = {}"
      using 2(1) by (auto simp: calling_def command_ok_def)
    obtain s5 where s5: "reset_outgoing_commands s ?q = Some s5" "ring ?q (links s5) []"
      "\<forall>x. x \<notin> {?q, a} \<longrightarrow> links s5 x = links s x" "\<forall>x. x \<noteq> a \<longrightarrow> outs s5 x = outs s x" "same_rest s s5"
      using reset_outgoing_ok [OF q] cmd by auto
    note rest = same_rest_fields [OF s5(5)]
    have qa: "?q \<in> list_area p" by (simp add: list_defs)
    have ne: "\<forall>m \<in> {c..<c + 2 * ?n}. m \<noteq> ?q \<and> m \<noteq> a" using ch(6,7) qa by blast
    have len: "length (channels_at c ?n) = ?n" by (simp add: channels_at_def)
    have "ring (ch_reliable x) (links s5) [] \<and> ring (ch_unreliable x) (links s5) []" if "x \<in> set (channels_at c ?n)" for x
    proof -
      have m: "ch_reliable x \<in> {c..<c + 2 * ?n}" "ch_unreliable x \<in> {c..<c + 2 * ?n}" using that channels_at_sentinels [of c ?n] by auto
      then have "links s5 (ch_reliable x) = links s (ch_reliable x)" "links s5 (ch_unreliable x) = links s (ch_unreliable x)"
        using s5(3) ne by auto
      moreover have "ring (ch_reliable x) (links s) []" "ring (ch_unreliable x) (links s) []" using m ch(4) by auto
      ultimately show ?thesis by (simp add: ring_def)
    qed
    then have "reset_channels s5 (take ?n (channels_at c ?n)) = Some s5" using len by (intro reset_channels_empty) auto
    then have r: "enet_peer_reset_queues s p =
        Some (s5\<lparr>chans := (chans s)(c := None), links := links s5 |` (- {c..<c + 2 * ?n})\<rparr>, p\<lparr>channels := Null, channelCount := 0\<rparr>)"
    proof -
      have "free_channels s5 (Ptr c) = Some (s5\<lparr>chans := (chans s)(c := None), links := links s5 |` (- {c..<c + 2 * ?n})\<rparr>)"
        using ch(3) rest by (simp add: free_channels_def sentinels_compl)
      then show ?thesis using \<open>reset_channels s5 _ = Some s5\<close> e s5(1) ch(1-3) rest len
        by (simp add: enet_peer_reset_queues_def reset_empty)
    qed
    let ?s = "s5\<lparr>chans := (chans s)(c := None), links := links s5 |` (- {c..<c + 2 * ?n})\<rparr>"
    have la: "\<forall>x \<in> list_area p. x \<notin> {c..<c + 2 * ?n} \<and> x \<noteq> a \<and> x \<noteq> c" using ch(2,5,7) by fastforce
    have "agree (list_area p - {?q}) s ?s" unfolding agree_def
    proof
      fix x
      assume "x \<in> list_area p - {?q}"
      then have "x \<notin> {c..<c + 2 * ?n}" "x \<noteq> a" "x \<noteq> c" "x \<noteq> ?q" using la by blast+
      then show "links ?s x = links s x \<and> outs ?s x = outs s x \<and> chans ?s x = chans s x" using s5(3,4) by (simp del: atLeastLessThan_iff)
    qed
    then have "other_lists_empty ?s p"
      using other_lists_agree [OF o] by blast
    moreover have "ring ?q (links ?s) []" 
    proof -
      have "?q \<notin> {c..<c + 2 * ?n}" using qa la by blast
      then show ?thesis by (intro ring_cong [OF _ s5(2)]) (simp del: atLeastLessThan_iff)
    qed
    moreover have "agree (- F) s ?s" using 2(2) s5(3,4) qa ch(2) rest by (auto simp: agree_def restrict_map_def)
    ultimately show ?thesis using r rest by auto
  qed
qed


lemma reset_queues_fields:
  assumes "pe_lists p' = pe_lists p" "channels p' = channels p" "channelCount p' = channelCount p"
    "enet_peer_reset_queues s p = Some (s', p\<lparr>channels := Null, channelCount := 0\<rparr>)"
  shows "enet_peer_reset_queues s p' = Some (s', p'\<lparr>channels := Null, channelCount := 0\<rparr>)"
  using assms(4) unfolding enet_peer_reset_queues_def list_defs assms(1-3) by (auto simp: bind_eq_Some_conv)

lemma list_area_cong: "pe_lists p' = pe_lists p \<Longrightarrow> list_area p' = list_area p"
  by (simp add: list_area_def)

lemma other_lists_cong: "pe_lists p' = pe_lists p \<Longrightarrow> other_lists_empty s p' = other_lists_empty s p"
  by (simp add: other_lists_empty_def list_defs)

lemma peer_reset_ok:
  assumes "peer_ok s p F"
  shows "\<exists>s' p'. enet_peer_reset s p = Some (s', p') \<and> peer_ok s' p' (list_area p) \<and> pe_state p' = DISCONNECTED \<and>
    incomingPeerID p' = incomingPeerID p \<and> list_area p \<subseteq> F \<and> agree (- F) s s' \<and> brk s' = brk s"
proof -
  obtain s' where s': "enet_peer_reset_queues s p = Some (s', p\<lparr>channels := Null, channelCount := 0\<rparr>)"
    "other_lists_empty s' p" "ring (outgoingUnreliableCommands p) (links s') []" "agree (- F) s s'" "brk s' = brk s"
    using queues_reset [OF assms] by blast
  let ?p = "p\<lparr>outgoingPeerID := 0x7FFF, pe_state := DISCONNECTED, incomingDataTotal := 0, outgoingDataTotal := 0,
     lastSendTime := 0, lastReceiveTime := 0, nextTimeout := 0, earliestTimeout := 0,
     packetLossEpoch := 0, packetSent := 0, packetLost := 0, packetLoss := 0, packetLossVariance := 0,
     lastRoundTripTime := ROUND_TRIP_TIME, lowestRoundTripTime := ROUND_TRIP_TIME,
     lastRoundTripTimeVariance := 0, highestRoundTripTimeVariance := 0,
     roundTripTime := ROUND_TRIP_TIME, roundTripTimeVariance := 0, reliableDataInTransit := 0\<rparr>"
  let ?r = "?p\<lparr>channels := Null, channelCount := 0\<rparr>"
  have "enet_peer_reset s p = Some (s', ?r)"
    unfolding enet_peer_reset_def using reset_queues_fields [of ?p p s s'] s'(1) by simp
  moreover have "idle s' ?r" using s'(3) by (simp add: idle_def outgoingUnreliableCommands_def)
  then have "peer_ok s' ?r (list_area p)" using s'(2) other_lists_cong [of ?r p s'] list_area_cong [of ?r p] by (simp add: peer_ok_def)
  moreover have "list_area p \<subseteq> F" using assms by (auto simp: peer_ok_def)
  ultimately show ?thesis using s'(4,5) by (intro exI [of _ s'] exI [of _ ?r]) simp
qed

definition host_ok :: "enet \<Rightarrow> host \<Rightarrow> bool" where
  "host_ok s h \<longleftrightarrow> (\<exists>Fs. length Fs = length (peers h) \<and>
     (\<forall>i < length Fs. peer_ok s (peers h ! i) (Fs ! i) \<and> Fs ! i \<subseteq> {..<brk s}) \<and>
     (\<forall>i j. i < length Fs \<longrightarrow> j < length Fs \<longrightarrow> i \<noteq> j \<longrightarrow> Fs ! i \<inter> Fs ! j = {}))"

lemma agree_mono: "agree F s s' \<Longrightarrow> G \<subseteq> F \<Longrightarrow> agree G s s'"
  by (auto simp: agree_def)

text \<open>One peer changes, in its own area and in fresh memory; the others do not notice.\<close>

lemma host_update:
  assumes "host_ok s h" "i < length (peers h)" "\<And>F. peer_ok s (peers h ! i) F \<Longrightarrow> F \<subseteq> {..<brk s} \<Longrightarrow>
      \<exists>F'. peer_ok s' p' F' \<and> F' \<subseteq> {..<brk s'} \<and> F' \<subseteq> F \<union> {brk s..} \<and> agree ({..<brk s} - F) s s' \<and> brk s \<le> brk s'"
  shows "host_ok s' (h\<lparr>peers := (peers h)[i := p']\<rparr>)"
proof -
  obtain Fs where Fs: "length Fs = length (peers h)" "\<And>j. j < length Fs \<Longrightarrow> peer_ok s (peers h ! j) (Fs ! j) \<and> Fs ! j \<subseteq> {..<brk s}"
    "\<And>j k. j < length Fs \<Longrightarrow> k < length Fs \<Longrightarrow> j \<noteq> k \<Longrightarrow> Fs ! j \<inter> Fs ! k = {}"
    using assms(1) by (auto simp: host_ok_def)
  obtain F' where F': "peer_ok s' p' F'" "F' \<subseteq> {..<brk s'}" "F' \<subseteq> Fs ! i \<union> {brk s..}"
    "agree ({..<brk s} - Fs ! i) s s'" "brk s \<le> brk s'"
    using assms(3) [of "Fs ! i"] Fs(2) [of i] assms(2) Fs(1) by auto
  have other: "peer_ok s' (peers h ! j) (Fs ! j)" "Fs ! j \<inter> F' = {}" if "j < length Fs" "j \<noteq> i" for j
  proof -
    have d: "Fs ! j \<inter> Fs ! i = {}" using Fs(3) that assms(2) Fs(1) by auto
    have b: "Fs ! j \<subseteq> {..<brk s}" "peer_ok s (peers h ! j) (Fs ! j)" using Fs(2) that by auto
    have "agree (Fs ! j) s s'" using d b by (intro agree_mono [OF F'(4)]) auto
    then show "peer_ok s' (peers h ! j) (Fs ! j)" using b(2) by (rule peer_ok_agree [rotated])
    show "Fs ! j \<inter> F' = {}" using d b(1) F'(3) by fastforce
  qed
  show ?thesis unfolding host_ok_def
  proof (intro exI [of _ "Fs[i := F']"] conjI allI impI)
    fix j
    assume j: "j < length (Fs[i := F'])"
    show "peer_ok s' (peers (h\<lparr>peers := (peers h)[i := p']\<rparr>) ! j) (Fs[i := F'] ! j)"
      using j F'(1) other(1) [of j] assms(2) Fs(1) by (cases "j = i") simp_all
    show "Fs[i := F'] ! j \<subseteq> {..<brk s'}"
      using j F'(2,5) Fs(2) [of j] assms(2) Fs(1) by (cases "j = i") fastforce+
  next
    fix j k
    assume "j < length (Fs[i := F'])" "k < length (Fs[i := F'])" "j \<noteq> k"
    then show "Fs[i := F'] ! j \<inter> Fs[i := F'] ! k = {}"
      using Fs(3) [of j k] other(2) [of j] other(2) [of k] assms(2) Fs(1) by (cases "j = i"; cases "k = i") auto
  qed (use Fs(1) in simp)
qed

lemma reset_keeps_host:
  assumes "host_ok s h" "i < length (peers h)"
  shows "\<exists>s' p'. enet_peer_reset s (peers h ! i) = Some (s', p') \<and> pe_state p' = DISCONNECTED \<and>
    host_ok s' (h\<lparr>peers := (peers h)[i := p']\<rparr>)"
proof -
  obtain F where F: "peer_ok s (peers h ! i) F" using assms by (auto simp: host_ok_def)
  obtain s' p' where r: "enet_peer_reset s (peers h ! i) = Some (s', p')" "pe_state p' = DISCONNECTED"
    using peer_reset_ok [OF F] by blast
  have "host_ok s' (h\<lparr>peers := (peers h)[i := p']\<rparr>)"
  proof (rule host_update [OF assms])
    fix G
    assume G: "peer_ok s (peers h ! i) G" "G \<subseteq> {..<brk s}"
    from peer_reset_ok [OF G(1)] r(1) have g: "peer_ok s' p' (list_area (peers h ! i))" "list_area (peers h ! i) \<subseteq> G"
      "agree (- G) s s'" "brk s' = brk s" by auto
    have "agree ({..<brk s} - G) s s'" using g(3) by (rule agree_mono) auto
    then show "\<exists>F'. peer_ok s' p' F' \<and> F' \<subseteq> {..<brk s'} \<and> F' \<subseteq> G \<union> {brk s..} \<and> agree ({..<brk s} - G) s s' \<and> brk s \<le> brk s'"
      using g(1,2,4) G(2) by (intro exI [of _ "list_area (peers h ! i)"]) auto
  qed
  then show ?thesis using r by blast
qed

end
