(* ===== verification/Enet_Props.thy ===== *)
theory Enet_Props
  imports Enet_Peers
begin

section \<open>my\_enet: the life of a host\<close>

text \<open>
  What creating a host, connecting and resetting peers do, and what holds in every state that
  they reach.
\<close>

subsection \<open>Connecting\<close>

lemma channels_at_Suc: "channels_at c (Suc n) = channel_at c # channels_at (c + 2) n"
  unfolding channels_at_def map_upt_Suc by simp

lemma clear_channels_ok:
  "{c..<c + 2 * n} \<subseteq> dom k \<Longrightarrow>
   \<exists>k'. clear_channels k c n = Some (k', channels_at c n) \<and> (\<forall>l. c \<le> l \<and> l < c + 2 * n \<longrightarrow> ring l k' []) \<and>
     (\<forall>l. l < c \<or> c + 2 * n \<le> l \<longrightarrow> k' l = k l)"
proof (induction n arbitrary: c k)
  case 0
  then show ?case by (auto simp: channels_at_def)
next
  case (Suc n)
  obtain k1 where k1: "enet_list_clear k c = Some k1" "ring c k1 []" "dom k1 = dom k" "\<forall>a. a \<noteq> c \<longrightarrow> k1 a = k a"
    using clear_ok [OF subsetD [OF Suc.prems, of c]] by auto
  obtain k2 where k2: "enet_list_clear k1 (c + 1) = Some k2" "ring (c + 1) k2 []" "dom k2 = dom k1" "\<forall>a. a \<noteq> c + 1 \<longrightarrow> k2 a = k1 a"
    using clear_ok [OF subsetD [OF Suc.prems [folded k1(3)], of "c + 1"]] by auto
  have "{c + 2..<c + 2 + 2 * n} \<subseteq> {c..<c + 2 * Suc n}" by auto
  then have "{c + 2..<c + 2 + 2 * n} \<subseteq> dom k2" using Suc.prems k1(3) k2(3) by blast
  from Suc.IH [OF this] obtain k3 where k3: "clear_channels k2 (c + 2) n = Some (k3, channels_at (c + 2) n)"
    "\<forall>l. c + 2 \<le> l \<and> l < c + 2 + 2 * n \<longrightarrow> ring l k3 []" "\<forall>l. l < c + 2 \<or> c + 2 + 2 * n \<le> l \<longrightarrow> k3 l = k2 l"
    by blast
  have r: "ring c k3 []" "ring (c + 1) k3 []"
    using ring_cong [OF _ k1(2), of k3] ring_cong [OF _ k2(2), of k3] k3(3) k2(4) by simp_all
  have "ring l k3 []" if "c \<le> l" "l < c + 2 * Suc n" for l
  proof -
    consider "l = c" | "l = c + 1" | "c + 2 \<le> l" "l < c + 2 + 2 * n" using \<open>c \<le> l\<close> \<open>l < c + 2 * Suc n\<close> by (cases "l = c \<or> l = c + 1") auto
    then show ?thesis using r k3(2) by cases auto
  qed
  moreover have "\<forall>l. l < c \<or> c + 2 * Suc n \<le> l \<longrightarrow> k3 l = k l" using k3(3) k2(4) k1(4) by simp
  moreover have "clear_channels k c (Suc n) = Some (k3, channels_at c (Suc n))"
    using k1(1) k2(1) k3(1) by (simp add: channels_at_Suc channel_at_def)
  ultimately show ?case by blast
qed

lemma window_bounds: "4096 \<le> window_size b \<and> window_size b \<le> 32768"
  by (simp add: window_size_def Let_def not_less)

lemma clamp_bounds: "1 \<le> clamp_channels n \<and> clamp_channels n \<le> 255"
  by (simp add: clamp_channels_def)

lemma find_disconnected_spec:
  "(find_disconnected ps < length ps \<longrightarrow> pe_state (ps ! find_disconnected ps) = DISCONNECTED) \<and>
   (\<forall>j < find_disconnected ps. j < length ps \<longrightarrow> pe_state (ps ! j) \<noteq> DISCONNECTED) \<and> find_disconnected ps \<le> length ps"
  by (induction ps) (auto simp: less_Suc_eq_0_disj)

text \<open>What \<open>enet_peer_queue_outgoing_command\<close> does with the command \<open>CONNECT\<close>.\<close>

definition counted :: "peer \<Rightarrow> peer \<Rightarrow> bool" where
  "counted p p' \<longleftrightarrow> p' = p\<lparr>outgoingDataTotal := outgoingDataTotal p', outgoingReliable := outgoingReliable p + 1\<rparr>"

lemma counted_fields:
  assumes "counted p p'"
  shows "pe_state p' = pe_state p" "channels p' = channels p" "channelCount p' = channelCount p" "windowSize p' = windowSize p"
    "pe_lists p' = pe_lists p" "pe_address p' = pe_address p" "sessionID p' = sessionID p" "outgoingReliable p' = outgoingReliable p + 1"
  by (subst assms [unfolded counted_def], simp)+

lemma queue_connect:
  assumes "h_command cmd = COMMAND_CONNECT" "h_channelID cmd = 0xff" "ring (outgoingUnreliableCommands p) (links s) []"
    "outgoingUnreliableCommands p < brk s" "\<not> e_oom E (brk s)"
  shows "\<exists>s' p' oc. enet_peer_queue_outgoing_command E s p cmd Null 0 0 = Ret (s', p') \<and>
    counted p p' \<and>
    ring (outgoingUnreliableCommands p) (links s') [brk s] \<and>
    (\<forall>x. x \<noteq> outgoingUnreliableCommands p \<and> x \<noteq> brk s \<longrightarrow> links s' x = links s x) \<and>
    outs s' = (outs s)(brk s \<mapsto> oc) \<and> oc_packet oc = Null \<and> h_command (oc_command oc) = COMMAND_CONNECT \<and>
    oc_reliable oc = outgoingReliable p + 1 \<and> h_reliable (oc_command oc) = swap16 (outgoingReliable p + 1) \<and>
    c_windowSize (oc_command oc) = c_windowSize cmd \<and> c_channelCount (oc_command oc) = c_channelCount cmd \<and>
    chans s' = chans s \<and> brk s' = brk s + 1"
proof -
  let ?q = "outgoingUnreliableCommands p"
  have sz: "enet_protocol_command_size (h_command cmd) = Some 0"
    using assms(1) by (simp add: enet_protocol_command_size_def commandSize_def COMMAND_CONNECT_def)
  have na: "h_command cmd AND ACKNOWLEDGE = 0" using assms(1) by (simp add: COMMAND_CONNECT_def ACKNOWLEDGE_def)
  let ?k = "(links s)(brk s \<mapsto> \<lparr>en_next = Wild, en_prev = Wild\<rparr>)"
  have "ring ?q ?k []" using assms(4) by (intro ring_cong [OF _ assms(3)]) simp
  from insert_end_ok [OF this, of "brk s"] assms(4) obtain k' where
    k': "enet_list_insert ?k (Ptr ?q) (Ptr (brk s)) = Some k'" "ring ?q k' [brk s]" "\<forall>b. b \<notin> set (?q # [brk s]) \<longrightarrow> k' b = ?k b"
    by auto
  let ?n = "outgoingReliable p + 1"
  let ?oc = "\<lparr>oc_reliable = ?n, oc_unreliable = 0, oc_sentTime = 0, oc_roundTripTimeout = 0, oc_roundTripTimeoutLimit = 0,
    oc_fragmentOffset = 0, oc_fragmentLength = 0, oc_command = cmd\<lparr>h_reliable := swap16 ?n\<rparr>, oc_packet = Null\<rparr>"
  show ?thesis using sz na assms(2,5) k'
    by (simp add: counted_def enet_peer_queue_outgoing_command_def enet_malloc_def enet_list_end_def Let_def outgoingUnreliableCommands_def)
      (rule exI [of _ ?oc], simp add: assms(1))
qed


text \<open>The pointer to the channel.\<close>

lemma malloc_stray: "enet_malloc E n s = Ret (a, s') \<Longrightarrow> stray s' = stray s"
  by (auto simp: enet_malloc_def split: if_splits)

lemma queue_stray:
  "enet_peer_queue_outgoing_command E s p c pk o' l = Ret (s', p') \<Longrightarrow>
   stray s' = (stray s \<or> channelCount p < unat (h_channelID c))"
  by (auto simp: enet_peer_queue_outgoing_command_def Let_def fetch_eq_Ret lbind_eq_Ret dest: malloc_stray)

lemma connect_stray:
  assumes "enet_host_connect E rand h address n s = Ret (Some i, h', s')"
  shows "stray s' = (stray s \<or> clamp_channels n < 255)"
  using assms
  by (auto simp: enet_host_connect_def Let_def fetch_eq_Ret lbind_eq_Ret dest!: malloc_stray queue_stray split: if_splits)

lemma clamp_channels_eq: "clamp_channels n = max 1 (min n 255)"
  by (simp add: clamp_channels_def)

text \<open>A connection that is under way: what the caller of \<open>enet_host_connect\<close> asked for.\<close>

definition requested :: "enet \<Rightarrow> peer \<Rightarrow> addr \<Rightarrow> 32 word \<Rightarrow> nat \<Rightarrow> 32 word \<Rightarrow> bool" where
  "requested s p address rand n bandwidth \<longleftrightarrow>
     pe_state p = CONNECTING \<and> pe_address p = address \<and> sessionID p = rand \<and> channelCount p = max 1 (min n 255) \<and>
     windowSize p = window_size bandwidth \<and>
     (\<exists>a oc. ring (outgoingUnreliableCommands p) (links s) [a] \<and> outs s a = Some oc \<and> h_command (oc_command oc) = COMMAND_CONNECT \<and>
       oc_reliable oc = outgoingReliable p \<and> c_channelCount (oc_command oc) = swap32 (of_nat (channelCount p)) \<and>
       c_windowSize (oc_command oc) = swap32 (windowSize p))"

lemma connect_ok:
  assumes "host_ok s h" "find_disconnected (peers h) = i" "i < length (peers h)" "\<not> e_oom E (brk s)"
    "\<not> e_oom E (brk s + 2 * clamp_channels n)"
  shows "\<exists>s' p'. enet_host_connect E rand h address n s = Ret (Some i, h\<lparr>peers := (peers h)[i := p']\<rparr>, s') \<and>
    host_ok s' (h\<lparr>peers := (peers h)[i := p']\<rparr>) \<and> requested s' p' address rand n (outgoingBandwidth h) \<and>
    outgoingReliable p' = outgoingReliable (peers h ! i) + 1"
proof -
  let ?p = "peers h ! i" and ?n = "clamp_channels n" and ?c = "brk s" and ?w = "window_size (outgoingBandwidth h)"
  define p1 where "p1 = ?p\<lparr>pe_state := CONNECTING, pe_address := address, channels := Ptr ?c, channelCount := ?n, sessionID := rand, windowSize := ?w\<rparr>"
  define k where "k = (\<lambda>l. if ?c \<le> l \<and> l < ?c + 2 * ?n then Some \<lparr>en_next = Wild, en_prev = Wild\<rparr> else links s l)"
  have "{?c..<?c + 2 * ?n} \<subseteq> dom k" by (auto simp: k_def)
  from clear_channels_ok [OF this] obtain k1 where k1: "clear_channels k ?c ?n = Some (k1, channels_at ?c ?n)"
    "\<forall>l. ?c \<le> l \<and> l < ?c + 2 * ?n \<longrightarrow> ring l k1 []" "\<forall>l. l < ?c \<or> ?c + 2 * ?n \<le> l \<longrightarrow> k1 l = links s l"
    by (auto simp: k_def)
  define s2 where "s2 = s\<lparr>brk := ?c + 2 * ?n, links := k1, chans := (chans s)(?c \<mapsto> channels_at ?c ?n)\<rparr>"
  define cmd where "cmd = \<lparr>h_command = COMMAND_CONNECT, h_channelID = 0xff, h_reliable = e_junk16 E,
    c_windowSize = swap32 ?w, c_channelCount = swap32 (of_nat ?n), c_sessionID = rand\<rparr>"
  have st: "pe_state ?p = DISCONNECTED" using find_disconnected_spec [of "peers h"] assms(2,3) by auto
  obtain F where F: "peer_ok s ?p F" "F \<subseteq> {..<?c}" using assms(1,3) by (auto simp: host_ok_def)
  have idle: "idle s ?p" "F = list_area ?p" "other_lists_empty s ?p" using F(1) st by (auto simp: peer_ok_def calling_def)
  have q: "outgoingUnreliableCommands p1 = outgoingUnreliableCommands ?p" by (simp add: p1_def outgoingUnreliableCommands_def)
  have low: "outgoingUnreliableCommands p1 < ?c" using F(2) idle(2) list_in_area(3) [of ?p] q by auto
  have rg: "ring (outgoingUnreliableCommands p1) (links s2) []"
  proof (rule ring_cong [where k = "links s"])
    show "ring (outgoingUnreliableCommands p1) (links s) []" using idle(1) q by (simp add: idle_def)
    fix x
    assume "x \<in> set [outgoingUnreliableCommands p1]"
    then show "links s2 x = links s x" using low k1(3) by (simp add: s2_def)
  qed
  have pre: "h_command cmd = COMMAND_CONNECT" "h_channelID cmd = 0xff" "outgoingUnreliableCommands p1 < brk s2" "\<not> e_oom E (brk s2)"
    using low assms(5) by (simp_all add: cmd_def s2_def)
  obtain s' p' oc where
    r: "enet_peer_queue_outgoing_command E s2 p1 cmd Null 0 0 = Ret (s', p')"
    "counted p1 p'"
    "ring (outgoingUnreliableCommands p1) (links s') [brk s2]"
    "\<forall>x. x \<noteq> outgoingUnreliableCommands p1 \<and> x \<noteq> brk s2 \<longrightarrow> links s' x = links s2 x"
    "outs s' = (outs s2)(brk s2 \<mapsto> oc)" "oc_packet oc = Null" "h_command (oc_command oc) = COMMAND_CONNECT"
    "oc_reliable oc = outgoingReliable p1 + 1" "c_windowSize (oc_command oc) = c_windowSize cmd"
    "c_channelCount (oc_command oc) = c_channelCount cmd" "chans s' = chans s2" "brk s' = brk s2 + 1"
    using queue_connect [OF pre(1,2) rg pre(3,4)] by (elim exE conjE) (rule that; assumption)
  have run: "enet_host_connect E rand h address n s = Ret (Some i, h\<lparr>peers := (peers h)[i := p']\<rparr>, s')"
    using r(1) assms(2-4) k1(1)
    by (simp add: enet_host_connect_def Let_def enet_malloc_def k_def p1_def s2_def cmd_def cong: if_cong)
  have g: "pe_state p' = CONNECTING" "channels p' = Ptr ?c" "channelCount p' = ?n" "windowSize p' = ?w" "pe_lists p' = pe_lists ?p"
    "pe_address p' = address" "sessionID p' = rand" "outgoingReliable p' = outgoingReliable ?p + 1"
    using counted_fields [OF r(2)] by (simp_all add: p1_def)
  have b2: "brk s2 = ?c + 2 * ?n" "chans s2 = (chans s)(?c \<mapsto> channels_at ?c ?n)" "outs s2 = outs s" "links s2 = k1"
    by (simp_all add: s2_def)
  have n: "1 \<le> ?n" "?n \<le> 255" using clamp_bounds by auto
  let ?a = "?c + 2 * ?n" and ?q = "outgoingUnreliableCommands ?p"
  have q': "outgoingUnreliableCommands p' = ?q" by (simp add: outgoingUnreliableCommands_def g(5))
  have la: "list_area p' = list_area ?p" by (rule list_area_cong [OF g(5)])
  have lo: "x < ?c" if "x \<in> list_area ?p" for x using that F(2) idle(2) by auto
  have fr: "links s' x = links s x \<and> outs s' x = outs s x \<and> chans s' x = chans s x" if "x < ?c" "x \<noteq> ?q" for x
    using that r(4,5,11) q k1(3) b2 by simp
  have call: "calling s' p' ?a ?c"
  proof -
    have "ring l (links s') []" if l: "?c \<le> l" "l < ?c + 2 * ?n" for l
    proof (rule ring_cong [where k = k1])
      show "ring l k1 []" using k1(2) l by blast
      fix x
      assume "x \<in> set [l]"
      then show "links s' x = k1 x" using l r(4) low b2(1,4) pre(3) by simp
    qed
    moreover have "ring (outgoingUnreliableCommands p') (links s') [?a]" using r(3) q q' b2 by simp
    moreover have "outs s' ?a = Some oc" "chans s' ?c = Some (channels_at ?c ?n)" using r(5,11) b2 by simp_all
    moreover have "?a \<notin> list_area p'" "list_area p' \<inter> {?c..<?c + 2 * ?n} = {}" "?a \<notin> {?c..<?c + 2 * ?n}"
      using lo [of ?a] lo by (auto simp: la dest: lo)
    ultimately show ?thesis using g(1-4) n r(6,7) window_bounds [of "outgoingBandwidth h"] by (simp add: calling_def)
  qed
  have others: "other_lists_empty s' p'"
  proof -
    have "agree (list_area ?p - {?q}) s s'" using fr lo by (auto simp: agree_def)
    from other_lists_agree [OF idle(3) this] show ?thesis using other_lists_cong [OF g(5)] by blast
  qed
  let ?F = "list_area ?p \<union> {?c..<?c + 2 * ?n} \<union> {?a}"
  have ok: "peer_ok s' p' ?F"
    unfolding peer_ok_def using call others by (intro conjI disjI2 exI [of _ ?a] exI [of _ ?c]) (simp_all add: la g(3))
  have Fb: "?F \<subseteq> {..<brk s'}" "?F \<subseteq> list_area ?p \<union> {?c..}" using lo r(12) b2(1) by (auto dest: lo)
  have "host_ok s' (h\<lparr>peers := (peers h)[i := p']\<rparr>)"
  proof (rule host_update [OF assms(1,3)])
    fix G
    assume G: "peer_ok s ?p G" "G \<subseteq> {..<?c}"
    then have GA: "G = list_area ?p" using st by (auto simp: peer_ok_def calling_def)
    have "agree ({..<?c} - G) s s'" using fr list_in_area(3) [of ?p] GA by (auto simp: agree_def)
    then show "\<exists>F'. peer_ok s' p' F' \<and> F' \<subseteq> {..<brk s'} \<and> F' \<subseteq> G \<union> {?c..} \<and> agree ({..<?c} - G) s s' \<and> ?c \<le> brk s'"
      using ok GA Fb r(12) b2(1) by (intro exI [of _ ?F]) simp
  qed
  moreover have "requested s' p' address rand n (outgoingBandwidth h)"
    using g r(3,5,7-10) q q' b2(1) counted_fields(8) [OF r(2)]
    by (auto simp: requested_def clamp_channels_def cmd_def intro!: exI [of _ ?a])
  ultimately show ?thesis using run g(8) by blast
qed


subsection \<open>Creating a host\<close>

lemma clear_step:
  assumes "l \<in> dom k"
  obtains k' where "enet_list_clear k l = Some k'" "ring l k' []" "dom k' = dom k" "\<forall>a. a \<noteq> l \<longrightarrow> k' a = k a"
  using clear_ok [OF assms] by blast

lemma init_peer_ok:
  assumes "{base + 5 * i..<base + 5 * i + 5} \<subseteq> dom (links s)"
  shows "\<exists>s' p. init_peer s base i = Some (s', p) \<and> peer_ok s' p {base + 5 * i..<base + 5 * i + 5} \<and>
    pe_state p = DISCONNECTED \<and> incomingPeerID p = of_nat i \<and> agree (- {base + 5 * i..<base + 5 * i + 5}) s s' \<and> brk s' = brk s"
proof -
  let ?l = "base + 5 * i"
  let ?p = "(zero_peer ?l)\<lparr>incomingPeerID := of_nat i, pe_data := Null\<rparr>"
  have la: "list_area ?p = {?l..<?l + 5}" by (simp add: list_area_def zero_peer_def)
  have d: "acknowledgements ?p \<in> dom (links s)" "outgoingReliableCommands ?p \<in> dom (links s)" "outgoingUnreliableCommands ?p \<in> dom (links s)"
    "sentReliableCommands ?p \<in> dom (links s)" "sentUnreliableCommands ?p \<in> dom (links s)"
    using list_in_area [of ?p] assms unfolding la by blast+
  obtain k1 where k1: "enet_list_clear (links s) (acknowledgements ?p) = Some k1" "ring (acknowledgements ?p) k1 []"
    "dom k1 = dom (links s)" "\<forall>a. a \<noteq> acknowledgements ?p \<longrightarrow> k1 a = links s a" using clear_step [OF d(1)] .
  obtain k2 where k2: "enet_list_clear k1 (outgoingReliableCommands ?p) = Some k2" "ring (outgoingReliableCommands ?p) k2 []"
    "dom k2 = dom k1" "\<forall>a. a \<noteq> outgoingReliableCommands ?p \<longrightarrow> k2 a = k1 a" using clear_step [OF d(2) [folded k1(3)]] .
  obtain k3 where k3: "enet_list_clear k2 (outgoingUnreliableCommands ?p) = Some k3" "ring (outgoingUnreliableCommands ?p) k3 []"
    "dom k3 = dom k2" "\<forall>a. a \<noteq> outgoingUnreliableCommands ?p \<longrightarrow> k3 a = k2 a" using clear_step [OF d(3) [folded k1(3) k2(3)]] .
  obtain k4 where k4: "enet_list_clear k3 (sentReliableCommands ?p) = Some k4" "ring (sentReliableCommands ?p) k4 []"
    "dom k4 = dom k3" "\<forall>a. a \<noteq> sentReliableCommands ?p \<longrightarrow> k4 a = k3 a" using clear_step [OF d(4) [folded k1(3) k2(3) k3(3)]] .
  obtain k5 where k5: "enet_list_clear k4 (sentUnreliableCommands ?p) = Some k5" "ring (sentUnreliableCommands ?p) k5 []"
    "dom k5 = dom k4" "\<forall>a. a \<noteq> sentUnreliableCommands ?p \<longrightarrow> k5 a = k4 a" using clear_step [OF d(5) [folded k1(3) k2(3) k3(3) k4(3)]] .
  let ?s = "s\<lparr>links := k5\<rparr>"
  note later = k2(4) k3(4) k4(4) k5(4)
  have r: "ring (acknowledgements ?p) k5 []" "ring (outgoingReliableCommands ?p) k5 []" "ring (outgoingUnreliableCommands ?p) k5 []"
      "ring (sentReliableCommands ?p) k5 []"
    by (rule ring_cong [OF _ k1(2)], use later in \<open>simp add: list_defs\<close>,
        rule ring_cong [OF _ k2(2)], use later in \<open>simp add: list_defs\<close>,
        rule ring_cong [OF _ k3(2)], use later in \<open>simp add: list_defs\<close>,
        rule ring_cong [OF _ k4(2)], use later in \<open>simp add: list_defs\<close>)
  have "peer_ok ?s ?p (list_area ?p)"
    using r k5(2) by (simp add: peer_ok_def other_lists_empty_def idle_def) (simp add: zero_peer_def)
  from peer_reset_ok [OF this] obtain s' p where p: "enet_peer_reset ?s ?p = Some (s', p)" "peer_ok s' p (list_area ?p)"
    "pe_state p = DISCONNECTED" "incomingPeerID p = of_nat i" "agree (- list_area ?p) ?s s'" "brk s' = brk s"
    by auto
  have "k5 x = links s x" if "x \<notin> list_area ?p" for x
  proof -
    have "x \<noteq> acknowledgements ?p \<and> x \<noteq> outgoingReliableCommands ?p \<and> x \<noteq> outgoingUnreliableCommands ?p \<and>
      x \<noteq> sentReliableCommands ?p \<and> x \<noteq> sentUnreliableCommands ?p" using that list_in_area [of ?p] by metis
    then show ?thesis using later k1(4) by simp
  qed
  then have "agree (- list_area ?p) s ?s" by (simp add: agree_def)
  from agree_trans [OF this p(5)] p k1(1) k2(1) k3(1) k4(1) k5(1) show ?thesis
    unfolding la by (auto simp: init_peer_def Let_def)
qed


lemma init_peers_ok:
  "{base + 5 * i..<base + 5 * (i + n)} \<subseteq> dom (links s) \<Longrightarrow>
   \<exists>s' ps. init_peers s base i n = Some (s', ps) \<and> length ps = n \<and> brk s' = brk s \<and>
     agree (- {base + 5 * i..<base + 5 * (i + n)}) s s' \<and>
     (\<forall>j < n. peer_ok s' (ps ! j) {base + 5 * (i + j)..<base + 5 * (i + j) + 5} \<and> pe_state (ps ! j) = DISCONNECTED \<and>
       incomingPeerID (ps ! j) = of_nat (i + j))"
proof (induction n arbitrary: i s)
  case 0
  then show ?case by (simp add: agree_def)
next
  case (Suc n)
  let ?A = "{base + 5 * i..<base + 5 * i + 5}" and ?B = "{base + 5 * (i + 1)..<base + 5 * (i + 1 + n)}"
  have sub: "?A \<union> ?B \<subseteq> {base + 5 * i..<base + 5 * (i + Suc n)}" "?A \<inter> ?B = {}" by auto
  then have A: "?A \<subseteq> dom (links s)" using Suc.prems by blast
  obtain s1 p where p: "init_peer s base i = Some (s1, p)" "peer_ok s1 p ?A" "pe_state p = DISCONNECTED" "incomingPeerID p = of_nat i"
    "agree (- ?A) s s1" "brk s1 = brk s" using init_peer_ok [OF A] by auto
  have "?B \<subseteq> dom (links s1)"
  proof
    fix x
    assume x: "x \<in> ?B"
    then have "x \<in> dom (links s)" "x \<notin> ?A" using Suc.prems sub by blast+
    then show "x \<in> dom (links s1)" using p(5) unfolding agree_def dom_def by (metis ComplI mem_Collect_eq)
  qed
  from Suc.IH [OF this] obtain s2 ps where ps: "init_peers s1 base (i + 1) n = Some (s2, ps)" "length ps = n" "brk s2 = brk s1"
    "agree (- ?B) s1 s2" "\<forall>j < n. peer_ok s2 (ps ! j) {base + 5 * (i + 1 + j)..<base + 5 * (i + 1 + j) + 5} \<and>
      pe_state (ps ! j) = DISCONNECTED \<and> incomingPeerID (ps ! j) = of_nat (i + 1 + j)" by blast
  have "peer_ok s2 p ?A" using sub(2) by (intro peer_ok_agree [OF p(2) agree_mono [OF ps(4)]]) blast
  moreover have "agree (- {base + 5 * i..<base + 5 * (i + Suc n)}) s s2"
    using sub(1) by (intro agree_trans [OF agree_mono [OF p(5)] agree_mono [OF ps(4)]]) blast+
  moreover have "init_peers s base i (Suc n) = Some (s2, p # ps)" using p(1) ps(1) by simp
  moreover have "peer_ok s2 ((p # ps) ! j) {base + 5 * (i + j)..<base + 5 * (i + j) + 5} \<and> pe_state ((p # ps) ! j) = DISCONNECTED \<and>
    incomingPeerID ((p # ps) ! j) = of_nat (i + j)" if "j < Suc n" for j
  proof (cases j)
    case 0
    then show ?thesis using p(3,4) calculation(1) by simp
  next
    case (Suc k)
    then have e: "i + j = i + 1 + k" "k < n" using that by simp_all
    then show ?thesis using ps(5) [rule_format, OF e(2)] Suc unfolding e(1) by simp
  qed
  ultimately show ?case using p(6) ps(2,3) by (intro exI [of _ s2] exI [of _ "p # ps"]) (simp del: of_nat_add)
qed

lemma create_ok:
  assumes "enet_host_create E sock bound address n inb outb s = Ret (Some h, s')"
  shows "host_ok s' h \<and> length (peers h) = n \<and> n \<le> MAXIMUM_PEER_ID \<and>
    (\<forall>i < n. pe_state (peers h ! i) = DISCONNECTED \<and> incomingPeerID (peers h ! i) = of_nat i)"
proof -
  have n: "n \<le> MAXIMUM_PEER_ID" "\<not> e_oom E (brk s)" "\<not> e_oom E (brk s + 1)" "\<not> (sock = -1 \<or> (address \<noteq> None \<and> bound < 0))"
    using assms by (auto simp: enet_host_create_def enet_malloc_def Let_def fetch_eq_Ret split: if_splits)
  let ?b = "brk s + 1"
  obtain t where t: "dom (links t) \<supseteq> {?b..<?b + 5 * n}" "brk t = ?b + (5 * n + 1)"
    "enet_host_create E sock bound address n inb outb s = fetch (init_peers t ?b 0 n) (\<lambda>(s7, ps).
         Ret (Some \<lparr>ho_socket = sock, ho_address = address, incomingBandwidth = inb, outgoingBandwidth = outb,
                    peers = ps, lastServicedPeer = 0, commandCount = 0, bufferCount = 0, receivedAddress = \<lparr>ad_host = 0, ad_port = 0\<rparr>,
                    ho_block = Ptr (brk s), ho_peers = Ptr ?b\<rparr>, s7))"
    using n by (auto simp: enet_host_create_def enet_malloc_def Let_def intro!: that)
  have "{?b + 5 * 0..<?b + 5 * (0 + n)} \<subseteq> dom (links t)" using t(1) by simp
  from init_peers_ok [OF this] obtain ps where ps: "init_peers t ?b 0 n = Some (s', ps)" "length ps = n" "brk s' = brk t" "peers h = ps"
    "\<forall>j < n. peer_ok s' (ps ! j) {?b + 5 * j..<?b + 5 * j + 5} \<and> pe_state (ps ! j) = DISCONNECTED \<and> incomingPeerID (ps ! j) = of_nat j"
    using assms t(3) by auto
  have "host_ok s' h" unfolding host_ok_def
  proof (intro exI [of _ "map (\<lambda>j. {?b + 5 * j..<?b + 5 * j + 5}) [0..<n]"] conjI allI impI)
    fix i j
    assume "i < length (map (\<lambda>j. {?b + 5 * j..<?b + 5 * j + 5}) [0..<n])" "j < length (map (\<lambda>j. {?b + 5 * j..<?b + 5 * j + 5}) [0..<n])"
      "i \<noteq> j"
    then have "i < n" "j < n" "i < j \<or> j < i" by auto
    then show "map (\<lambda>j. {?b + 5 * j..<?b + 5 * j + 5}) [0..<n] ! i \<inter> map (\<lambda>j. {?b + 5 * j..<?b + 5 * j + 5}) [0..<n] ! j = {}"
      by auto
  qed (use ps t(2) in auto)
  then show ?thesis using n ps by auto
qed

subsection \<open>The life of a host\<close>

inductive host_reach :: "enet_env \<Rightarrow> enet \<Rightarrow> host \<Rightarrow> bool" for E where
  Create: "enet_host_create E sock bound address n inb outb s0 = Ret (Some h, s) \<Longrightarrow> host_reach E s h"
| Connect: "host_reach E s h \<Longrightarrow> enet_host_connect E rand h address n s = Ret (r, h', s') \<Longrightarrow> host_reach E s' h'"
| Reset: "host_reach E s h \<Longrightarrow> i < length (peers h) \<Longrightarrow> enet_peer_reset s (peers h ! i) = Some (s', p') \<Longrightarrow>
    host_reach E s' (h\<lparr>peers := (peers h)[i := p']\<rparr>)"

lemma connect_cases:
  assumes "host_ok s h"
  obtains (Full) "enet_host_connect E rand h address n s = Ret (None, h, s)" "\<forall>p \<in> set (peers h). pe_state p \<noteq> DISCONNECTED"
  | (Abort) "enet_host_connect E rand h address n s = Raise" "e_oom E (brk s) \<or> e_oom E (brk s + 2 * clamp_channels n)"
  | (Slot) i s' p' where "i < length (peers h)" "enet_host_connect E rand h address n s = Ret (Some i, h\<lparr>peers := (peers h)[i := p']\<rparr>, s')"
    "host_ok s' (h\<lparr>peers := (peers h)[i := p']\<rparr>)" "requested s' p' address rand n (outgoingBandwidth h)"
    "pe_state (peers h ! i) = DISCONNECTED" "\<forall>j < i. pe_state (peers h ! j) \<noteq> DISCONNECTED"
    "outgoingReliable p' = outgoingReliable (peers h ! i) + 1"
proof (cases "find_disconnected (peers h) < length (peers h)")
  case False
  then have "enet_host_connect E rand h address n s = Ret (None, h, s)" by (simp add: enet_host_connect_def Let_def)
  moreover have "\<forall>p \<in> set (peers h). pe_state p \<noteq> DISCONNECTED"
    using False find_disconnected_spec [of "peers h"] by (auto simp: in_set_conv_nth)
  ultimately show thesis using Full by blast
next
  case i: True
  show thesis
  proof (cases "e_oom E (brk s) \<or> e_oom E (brk s + 2 * clamp_channels n)")
    case False
    then obtain s' p' where c: "enet_host_connect E rand h address n s = Ret (Some (find_disconnected (peers h)),
        h\<lparr>peers := (peers h)[find_disconnected (peers h) := p']\<rparr>, s')"
      "host_ok s' (h\<lparr>peers := (peers h)[find_disconnected (peers h) := p']\<rparr>)"
      "requested s' p' address rand n (outgoingBandwidth h)"
      "outgoingReliable p' = outgoingReliable (peers h ! find_disconnected (peers h)) + 1"
      using connect_ok [OF assms refl i, of E n rand address] by blast
    have "pe_state (peers h ! find_disconnected (peers h)) = DISCONNECTED"
      "\<forall>j < find_disconnected (peers h). pe_state (peers h ! j) \<noteq> DISCONNECTED"
      using find_disconnected_spec [of "peers h"] i by auto
    then show thesis using Slot [OF i c(1-3) _ _ c(4)] by blast
  next
    case True
    have "enet_host_connect E rand h address n s = Raise"
    proof (cases "e_oom E (brk s)")
      case True
      then show ?thesis using i by (simp add: enet_host_connect_def Let_def enet_malloc_def)
    next
      case False
      let ?k = "\<lambda>l. if brk s \<le> l \<and> l < brk s + 2 * clamp_channels n then Some \<lparr>en_next = Wild, en_prev = Wild\<rparr> else links s l"
      have "{brk s..<brk s + 2 * clamp_channels n} \<subseteq> dom ?k" by auto
      from clear_channels_ok [OF this] obtain k where
        "clear_channels ?k (brk s) (clamp_channels n) = Some (k, channels_at (brk s) (clamp_channels n))" by blast
      then show ?thesis using i False True
        by (simp add: enet_host_connect_def Let_def enet_malloc_def enet_peer_queue_outgoing_command_def
            enet_protocol_command_size_def commandSize_def COMMAND_CONNECT_def cong: if_cong)
    qed
    then show thesis using Abort True by blast
  qed
qed

lemma reach_host_ok: "host_reach E s h \<Longrightarrow> host_ok s h \<and> length (peers h) \<le> MAXIMUM_PEER_ID"
proof (induction rule: host_reach.induct)
  case (Create sock bound address n inb outb s0 h s)
  then show ?case using create_ok by fastforce
next
  case (Connect s h rand address n r h' s')
  from Connect.IH have "host_ok s h" by blast
  then show ?case by (cases rule: connect_cases [where E = E and rand = rand and address = address and n = n]) (use Connect in auto)
next
  case (Reset s h i s' p')
  then show ?case using reset_keeps_host [of s h i] by auto
qed


text \<open>What the types of the fields promise, which C does not check.\<close>

definition peer_typed :: "enet \<Rightarrow> peer \<Rightarrow> bool" where
  "peer_typed s p \<longleftrightarrow>
     (pe_state p = DISCONNECTED \<and> channels p = Null \<and> channelCount p = 0) \<or>
     (pe_state p = CONNECTING \<and> 1 \<le> channelCount p \<and> channelCount p \<le> 255 \<and> 4096 \<le> windowSize p \<and> windowSize p \<le> 32768 \<and>
      (\<exists>c cs. channels p = Ptr c \<and> chans s c = Some cs \<and> length cs = channelCount p))"

lemma peer_ok_typed: "peer_ok s p F \<Longrightarrow> peer_typed s p"
  by (auto simp: peer_ok_def peer_typed_def idle_def calling_def channels_at_def)

text \<open>
  C14. Hosts are well typed: in every state that creating a host, connecting and resetting peers
  reach, each peer is disconnected without channels, or connecting with a channel array of its
  count, between 1 and 255, and a window between 4096 and 32768.  Every peer can then be reset.
  Connecting never reads or writes outside the memory it owns.  It is not free of undefined
  behaviour, though: with fewer than 255 channels, and only then, it computes a pointer to the
  channel 255, beyond the end of the channel array, which it does not use (\<open>stray\<close>).
\<close>

theorem hosts_well_typed:
  assumes "host_reach E s h"
  shows "length (peers h) \<le> 0x7FFF \<and> (\<forall>p \<in> set (peers h). peer_typed s p) \<and>
    enet_host_connect E rand h address n s \<noteq> Fault \<and>
    (\<forall>i h' s'. enet_host_connect E rand h address n s = Ret (Some i, h', s') \<longrightarrow> stray s' = (stray s \<or> max 1 (min n 255) < 255)) \<and>
    (\<forall>p \<in> set (peers h). \<exists>s' p'. enet_peer_reset s p = Some (s', p') \<and> pe_state p' = DISCONNECTED)"
proof -
  have ok: "host_ok s h" "length (peers h) \<le> 0x7FFF" using reach_host_ok [OF assms] by (simp_all add: MAXIMUM_PEER_ID_def)
  have "\<forall>p \<in> set (peers h). peer_typed s p" 
  proof
    fix p
    assume "p \<in> set (peers h)"
    then obtain i where "i < length (peers h)" "p = peers h ! i" by (auto simp: in_set_conv_nth)
    moreover obtain F where "peer_ok s (peers h ! i) F" using ok(1) calculation by (auto simp: host_ok_def)
    ultimately show "peer_typed s p" using peer_ok_typed by blast
  qed
  moreover have "\<forall>p \<in> set (peers h). \<exists>s' p'. enet_peer_reset s p = Some (s', p') \<and> pe_state p' = DISCONNECTED"
    using reset_keeps_host [OF ok(1)] by (metis in_set_conv_nth)
  moreover have "enet_host_connect E rand h address n s \<noteq> Fault"
    using ok(1) by (cases rule: connect_cases [where E = E and rand = rand and address = address and n = n]) simp_all
  moreover have "\<forall>i h' s'. enet_host_connect E rand h address n s = Ret (Some i, h', s') \<longrightarrow>
      stray s' = (stray s \<or> max 1 (min n 255) < 255)"
    using connect_stray by (metis clamp_channels_eq)
  ultimately show ?thesis using ok(2) by blast
qed

text \<open>
  C16. enet_host_connect takes the first disconnected peer and no other, and asks for what the
  caller wanted: the address, the channels clamped to 1 to 255, and a CONNECT command in the
  queue whose counts are in network order and whose number is the peer's next one; without a
  free peer it changes nothing and returns NULL, and it aborts only when memory is out.
\<close>

theorem connect_behaviour:
  assumes "host_reach E s h"
  shows "(enet_host_connect E rand h address n s = Ret (None, h, s) \<and> (\<forall>p \<in> set (peers h). pe_state p \<noteq> DISCONNECTED)) \<or>
    (enet_host_connect E rand h address n s = Raise \<and> (e_oom E (brk s) \<or> e_oom E (brk s + 2 * clamp_channels n))) \<or>
    (\<exists>i s' p'. i < length (peers h) \<and> pe_state (peers h ! i) = DISCONNECTED \<and> (\<forall>j < i. pe_state (peers h ! j) \<noteq> DISCONNECTED) \<and>
       enet_host_connect E rand h address n s = Ret (Some i, h\<lparr>peers := (peers h)[i := p']\<rparr>, s') \<and>
       requested s' p' address rand n (outgoingBandwidth h) \<and> outgoingReliable p' = outgoingReliable (peers h ! i) + 1)"
proof -
  have "host_ok s h" using reach_host_ok [OF assms] by blast
  then show ?thesis
    by (cases rule: connect_cases [where E = E and rand = rand and address = address and n = n]) blast+
qed

definition enet_start :: enet where
  "enet_start = \<lparr>links = Map.empty, outs = Map.empty, ins = Map.empty, acks = Map.empty, chans = Map.empty,
     frags = Map.empty, packets = Map.empty, blocks = Map.empty, brk = 0, os = [], stray = False\<rparr>"

definition plenty :: enet_env where
  "plenty = \<lparr>e_oom = (\<lambda>_. False), e_junk16 = 0xDEAD\<rparr>"

lemma some_host: "\<exists>h s. enet_host_create plenty 3 0 None 2 0 0 enet_start = Ret (Some h, s)"
proof -
  let ?t = "enet_start\<lparr>brk := 12, blocks := [0 \<mapsto> 1, 1 \<mapsto> 2],
    links := (\<lambda>l. if 1 \<le> l \<and> l < 11 then Some \<lparr>en_next = Null, en_prev = Null\<rparr> else None),
    os := [Socket, Nonblock 3, Rcvbuf 3 262144, Sndbuf 3 262144]\<rparr>"
  have "{1 + 5 * 0..<1 + 5 * (0 + 2)} \<subseteq> dom (links ?t)" by auto
  from init_peers_ok [OF this] obtain s ps where "init_peers ?t 1 0 2 = Some (s, ps)" by blast
  then show ?thesis
    by (simp add: enet_host_create_def enet_malloc_def plenty_def enet_start_def MAXIMUM_PEER_ID_def Let_def cong: if_cong)
qed

theorem hosts_well_typed_witness: "\<exists>s h. host_reach plenty s h \<and> (\<forall>p \<in> set (peers h). peer_typed s p)"
  using hosts_well_typed [OF host_reach.Create] some_host by (metis host_reach.Create)

theorem connect_behaviour_witness:
  "\<exists>s h i s' p'. enet_host_connect plenty 7 h \<lparr>ad_host = 1, ad_port = 2\<rparr> 300 s = Ret (Some i, h\<lparr>peers := (peers h)[i := p']\<rparr>, s') \<and>
     channelCount p' = 255"
proof -
  obtain h s where h: "enet_host_create plenty 3 0 None 2 0 0 enet_start = Ret (Some h, s)" using some_host by blast
  have "pe_state (peers h ! 0) = DISCONNECTED" "length (peers h) = 2" using create_ok [OF h] by auto
  then have "\<exists>p \<in> set (peers h). pe_state p = DISCONNECTED" by (metis nth_mem zero_less_numeral)
  then obtain i s' p' where "enet_host_connect plenty 7 h \<lparr>ad_host = 1, ad_port = 2\<rparr> 300 s = Ret (Some i, h\<lparr>peers := (peers h)[i := p']\<rparr>, s')"
    "requested s' p' \<lparr>ad_host = 1, ad_port = 2\<rparr> 7 300 (outgoingBandwidth h)"
    using connect_behaviour [OF host_reach.Create [OF h], of 7 "\<lparr>ad_host = 1, ad_port = 2\<rparr>" 300] by (auto simp: plenty_def)
  moreover from this(2) have "channelCount p' = 255" by (simp add: requested_def)
  ultimately show ?thesis by blast
qed

text \<open>Waiting reports only what was asked for, as long as \<open>select\<close> adds nothing to its sets.\<close>

lemma and_flag: "c AND 1 \<noteq> (0 :: 32 word) \<Longrightarrow> 1 AND c = 1" "c AND 2 \<noteq> (0 :: 32 word) \<Longrightarrow> 2 AND c = 2"
proof -
  show "1 AND c = 1" if "c AND 1 \<noteq> 0" using that by (auto simp: and_one_eq one_and_eq)
  have two: "(2 :: 32 word) = push_bit 1 1" by simp
  show "2 AND c = 2" if "c AND 2 \<noteq> 0"
  proof -
    have "bit c 1"
    proof (rule ccontr)
      assume "\<not> bit c 1"
      then have "c AND 2 = 0" unfolding two by (intro bit_eqI) (auto simp: bit_simps)
      with that show False by simp
    qed
    then show ?thesis unfolding two by (intro bit_eqI) (auto simp: bit_simps)
  qed
qed

lemma and_flags: "c AND 1 \<noteq> (0 :: 32 word) \<Longrightarrow> c AND 2 \<noteq> 0 \<Longrightarrow> c AND 3 = 3"
  using and_flag [of c] bit.conj_disj_distrib [of c 1 2] by (simp add: and.commute)

lemma wait_reports_subset:
  assumes "\<forall>w r t m w' r'. select w r t = (m, w', r') \<longrightarrow> (w' \<longrightarrow> w) \<and> (r' \<longrightarrow> r)" "enet_socket_wait select cond tmo = (res, cond')"
  shows "cond' AND cond = cond' \<and> (res = 0 \<or> res = -1 \<and> cond' = cond)"
proof -
  obtain m w r where s: "select (cond AND WAIT_SEND \<noteq> 0) (cond AND WAIT_RECEIVE \<noteq> 0)
      (unat (tmo div 1000), unat ((tmo mod 1000) * 1000)) = (m, w, r)" by (metis surj_pair)
  then have "w \<longrightarrow> cond AND 1 \<noteq> 0" "r \<longrightarrow> cond AND 2 \<noteq> 0" using assms(1) unfolding WAIT_SEND_def WAIT_RECEIVE_def by blast+
  then show ?thesis using assms(2) s and_flag [of cond] and_flags [of cond]
    by (auto simp: enet_socket_wait_def WAIT_SEND_def WAIT_RECEIVE_def bit.conj_disj_distrib2 and.commute split: if_splits)
qed

end
