(* ===== verification/Pool_Core.thy ===== *)
theory Pool_Core
  imports Prelude
begin

section \<open>mempool: a pool of equal units\<close>

text \<open>
  The classes \<open>MemBlock\<close> and \<open>MemPool\<close> of \<open>mempool/memorypool.cpp\<close>.  A block is an array of
  units; the first two bytes of a free unit hold the index of the next free one, and they are
  the only bytes of a unit that the pool reads: \<open>mb_units\<close> are these bytes, as numbers, for all
  units.  \<open>mb_data\<close> is the address of the array.  An \<open>ushort\<close> has 16 bits.  \<open>operator new\<close> does not
  return when memory is out (\<open>Raise\<close>); otherwise it returns the block and the address it is
  given, which must not be in use; fresh memory holds \<open>junk\<close>.
\<close>

definition u16 :: "nat \<Rightarrow> nat" where
  "u16 n = n mod 2 ^ 16"

lemma u16_small [simp]: "n < 2 ^ 16 \<Longrightarrow> u16 n = n"
  by (simp add: u16_def)

record mem_block =
  mb_size :: nat
  mb_free :: nat
  mb_first :: nat
  mb_next :: ptr
  mb_data :: nat
  mb_units :: "nat list"

record mem_pool =
  mp_block :: ptr
  mp_unit :: nat
  mp_init :: nat
  mp_grow :: nat
  mp_heap :: "mem_block store"

subsection \<open>Blocks\<close>

text \<open>
  The constructor counts the first unit as handed out; its loop writes \<open>i\<close> into the unit before
  unit \<open>i\<close>, and leaves the last one as it is.
\<close>

fun link_units :: "nat \<Rightarrow> nat \<Rightarrow> nat list \<Rightarrow> nat list" where
  "link_units 0 i us = us"
| "link_units (Suc k) i us = link_units k (i + 1) (us[i - 1 := u16 i])"

definition new_block :: "nat \<Rightarrow> nat \<Rightarrow> nat \<Rightarrow> nat \<Rightarrow> mem_block" where
  "new_block junk data unitCnt unitSize = \<lparr>mb_size = u16 (unitCnt * unitSize), mb_free = u16 (unitCnt + 65535), mb_first = 1,
     mb_next = Null, mb_data = data, mb_units = link_units (unitCnt - 1) 1 (replicate unitCnt junk)\<rparr>"

subsection \<open>Pools\<close>

text \<open>\<open>_unitSize\<close> is read before it is written when units are larger than four bytes.\<close>

definition new_pool :: "nat \<Rightarrow> nat \<Rightarrow> nat \<Rightarrow> nat \<Rightarrow> mem_pool" where
  "new_pool junk unitSize initSize growSize = \<lparr>mp_block = Null,
     mp_unit = (if unitSize > 4 then u16 ((junk + 1) div 2 * 2) else if unitSize \<le> 2 then 2 else 4),
     mp_init = initSize, mp_grow = growSize, mp_heap = Map.empty\<rparr>"

partial_function (option) find_free :: "mem_block store \<Rightarrow> ptr \<Rightarrow> ptr option" where
  "find_free h p = (if p = Null then Some Null else
     Option.bind (deref h p) (\<lambda>b. if mb_free b \<noteq> 0 then Some p else find_free h (mb_next b)))"

record memory =
  m_oom :: bool
  m_addr :: nat
  m_data :: nat
  m_junk :: nat

definition alloc_mem :: "memory \<Rightarrow> mem_pool \<Rightarrow> (nat option \<times> mem_pool) lres" where
  "alloc_mem M s =
     (if mp_block s = Null then
        if m_oom M then Raise
        else Ret (Some (m_data M), s\<lparr>mp_block := Ptr (m_addr M),
               mp_heap := (mp_heap s)(m_addr M \<mapsto> new_block (m_junk M) (m_data M) (mp_init s) (mp_unit s))\<rparr>)
      else fetch (find_free (mp_heap s) (mp_block s)) (\<lambda>p.
        if p \<noteq> Null then
          fetch (deref (mp_heap s) p) (\<lambda>b.
          fetch (nth_opt (mb_units b) (mb_first b)) (\<lambda>nx.
          fetch (assign (mp_heap s) p (\<lambda>b. b\<lparr>mb_first := nx, mb_free := u16 (mb_free b + 65535)\<rparr>)) (\<lambda>h.
          Ret (Some (mb_data b + mb_first b * mp_unit s), s\<lparr>mp_heap := h\<rparr>))))
        else if mp_grow s = 0 then Ret (None, s)
        else if m_oom M then Raise
        else Ret (Some (m_data M), s\<lparr>mp_block := Ptr (m_addr M),
               mp_heap := (mp_heap s)(m_addr M \<mapsto> (new_block (m_junk M) (m_data M) (mp_grow s) (mp_unit s))\<lparr>mb_next := mp_block s\<rparr>)\<rparr>)))"

text \<open>The block whose array has the address, and the block before it; \<open>None\<close> when there is none.\<close>

partial_function (option) find_block :: "mem_block store \<Rightarrow> nat \<Rightarrow> ptr \<Rightarrow> ptr \<Rightarrow> (ptr \<times> ptr) option option" where
  "find_block h a pre p = Option.bind (deref h p) (\<lambda>b.
     if mb_data b > a \<or> a \<ge> mb_data b + mb_size b
     then if mb_next b = Null then Some None else find_block h a p (mb_next b)
     else Some (Some (pre, p)))"

text \<open>An address inside a unit would make the pool write across it: the result is undefined.\<close>

definition free_mem :: "nat \<Rightarrow> mem_pool \<Rightarrow> mem_pool option" where
  "free_mem a s =
     (if mp_block s = Null then Some s
      else do {
        r \<leftarrow> find_block (mp_heap s) a (mp_block s) (mp_block s);
        case r of
          None \<Rightarrow> Some s
        | Some (pre, p) \<Rightarrow> do {
            b \<leftarrow> deref (mp_heap s) p;
            _ \<leftarrow> must (mp_unit s \<noteq> 0);
            let i = (a - mb_data b) div mp_unit s;
            _ \<leftarrow> must ((a - mb_data b) mod mp_unit s = 0);
            us \<leftarrow> set_opt (mb_units b) i (mb_first b);
            let b1 = b\<lparr>mb_free := u16 (mb_free b + 1), mb_units := us, mb_first := u16 i\<rparr>;
            h1 \<leftarrow> assign (mp_heap s) p (\<lambda>_. b1);
            if mb_free b1 * mp_unit s = mb_size b1 then
              if p \<noteq> mp_block s then do {
                h2 \<leftarrow> assign h1 pre (\<lambda>x. x\<lparr>mb_next := mb_next b1\<rparr>);
                h3 \<leftarrow> dispose h2 p;
                Some (s\<lparr>mp_heap := h3\<rparr>) }
              else Some (s\<lparr>mp_heap := h1\<rparr>)
            else
              if p \<noteq> mp_block s then do {
                h2 \<leftarrow> assign h1 pre (\<lambda>x. x\<lparr>mb_next := mb_next b1\<rparr>);
                hd \<leftarrow> deref h2 (mp_block s);
                h3 \<leftarrow> assign h2 p (\<lambda>x. x\<lparr>mb_next := mb_next hd\<rparr>);
                Some (s\<lparr>mp_heap := h3, mp_block := p\<rparr>) }
              else Some (s\<lparr>mp_heap := h1\<rparr>) } })"

partial_function (option) free_blocks :: "mem_block store \<Rightarrow> ptr \<Rightarrow> mem_block store option" where
  "free_blocks h p = (if p = Null then Some h else
     Option.bind (deref h p) (\<lambda>b.
     Option.bind (dispose h p) (\<lambda>h1. free_blocks h1 (mb_next b))))"

definition delete_pool :: "mem_pool \<Rightarrow> mem_block store option" where
  "delete_pool s = free_blocks (mp_heap s) (mp_block s)"

text \<open>The owner of a unit writes its first two bytes.\<close>

definition write_unit :: "nat \<Rightarrow> nat \<Rightarrow> nat \<Rightarrow> mem_pool \<Rightarrow> mem_pool option" where
  "write_unit c i v s = do {
     b \<leftarrow> mp_heap s c;
     us \<leftarrow> set_opt (mb_units b) i (u16 v);
     Some (s\<lparr>mp_heap := (mp_heap s)(c \<mapsto> b\<lparr>mb_units := us\<rparr>)\<rparr>) }"

end
