(* ===== verification/Pool_Props.thy ===== *)
theory Pool_Props
  imports Pool_Core
begin

section \<open>mempool: what is handed out\<close>

text \<open>
  The states that a pool and its users reach, with the set of the addresses in use, and the
  invariant that no address is handed out twice.
\<close>

subsection \<open>Free lists\<close>

lemma link_units_nth:
  "1 \<le> i \<Longrightarrow> i + k \<le> length us \<Longrightarrow> length us < 2 ^ 16 \<Longrightarrow> j < length us \<Longrightarrow>
   link_units k i us ! j = (if i \<le> j + 1 \<and> j + 1 < i + k then j + 1 else us ! j)"
proof (induction k arbitrary: i us)
  case 0
  then show ?case by simp
next
  case (Suc k)
  have "link_units (Suc k) i us ! j = (if i + 1 \<le> j + 1 \<and> j + 1 < i + 1 + k then j + 1 else us[i - 1 := u16 i] ! j)"
    using Suc.IH [of "i + 1" "us[i - 1 := u16 i]"] Suc.prems by simp
  then show ?case using Suc.prems by (auto simp: nth_list_update)
qed

lemma link_units_length [simp]: "length (link_units k i us) = length us"
  by (induction k arbitrary: i us) simp_all

fun free_list :: "nat list \<Rightarrow> nat \<Rightarrow> nat list \<Rightarrow> bool" where
  "free_list us f [] \<longleftrightarrow> True"
| "free_list us f (x # xs) \<longleftrightarrow> f = x \<and> x < length us \<and> free_list us (us ! x) xs"

lemma free_list_upd: "i \<notin> set xs \<Longrightarrow> free_list (us[i := v]) f xs = free_list us f xs"
  by (induction xs arbitrary: f) auto

lemma free_list_range: "free_list us f xs \<Longrightarrow> set xs \<subseteq> {..<length us}"
  by (induction xs arbitrary: f) auto

lemma free_list_upt:
  "(\<And>j. i \<le> j \<Longrightarrow> j + 1 < n \<Longrightarrow> us ! j = j + 1) \<Longrightarrow> length us = n \<Longrightarrow> i < n \<Longrightarrow> free_list us i [i..<n]"
proof (induction "n - i" arbitrary: i)
  case 0
  then show ?case by simp
next
  case (Suc k)
  show ?case
  proof (cases "i + 1 < n")
    case True
    then have "free_list us (i + 1) [i + 1..<n]" using Suc by (intro Suc.hyps(1)) auto
    then show ?thesis using Suc.prems True by (simp add: upt_conv_Cons)
  next
    case False
    then have "[i..<n] = [i]" using Suc.prems(3) by (simp add: upt_conv_Cons)
    then show ?thesis using Suc.prems by simp
  qed
qed

subsection \<open>The invariant\<close>

text \<open>
  \<open>block_ok u L b\<close>: the units of the block that its free list leaves out are the addresses in
  use; \<open>area\<close> is the memory of its array.
\<close>

definition area :: "nat \<Rightarrow> mem_block \<Rightarrow> nat set" where
  "area u b = {mb_data b..<mb_data b + length (mb_units b) * u}"

definition block_sized :: "nat \<Rightarrow> mem_block \<Rightarrow> bool" where
  "block_sized u b \<longleftrightarrow> mb_size b = length (mb_units b) * u \<and> length (mb_units b) * u < 2 ^ 16 \<and> mb_units b \<noteq> []"

definition block_ok :: "nat \<Rightarrow> nat set \<Rightarrow> mem_block \<Rightarrow> nat list \<Rightarrow> bool" where
  "block_ok u L b fl \<longleftrightarrow> distinct fl \<and> length fl = mb_free b \<and> free_list (mb_units b) (mb_first b) fl \<and>
     (\<forall>i < length (mb_units b). mb_data b + i * u \<in> L \<longleftrightarrow> i \<notin> set fl)"

definition mp_next :: "mem_pool \<Rightarrow> nat \<Rightarrow> ptr option" where
  "mp_next s c = map_option mb_next (mp_heap s c)"

lemma mp_next_Some [store_simps]: "mp_next s c = Some p \<longleftrightarrow> (\<exists>b. mp_heap s c = Some b \<and> p = mb_next b)"
  by (auto simp: mp_next_def)

definition pool_inv :: "mem_pool \<Rightarrow> nat set \<Rightarrow> nat list \<Rightarrow> bool" where
  "pool_inv s L cs \<longleftrightarrow> 0 < mp_unit s \<and> chain (mp_next s) (mp_block s) cs \<and>
     (\<forall>c b. mp_heap s c = Some b \<longrightarrow> block_sized (mp_unit s) b) \<and>
     (\<forall>c b. c \<in> set cs \<longrightarrow> mp_heap s c = Some b \<longrightarrow> (\<exists>fl. block_ok (mp_unit s) L b fl)) \<and>
     (\<forall>c d b e. mp_heap s c = Some b \<longrightarrow> mp_heap s d = Some e \<longrightarrow> c \<noteq> d \<longrightarrow> area (mp_unit s) b \<inter> area (mp_unit s) e = {}) \<and>
     (\<forall>a \<in> L. \<exists>c b i. mp_heap s c = Some b \<and> i < length (mb_units b) \<and> a = mb_data b + i * mp_unit s)"

lemma unit_in_area: "i < length (mb_units b) \<Longrightarrow> 0 < u \<Longrightarrow> mb_data b + i * u \<in> area u b"
  by (simp add: area_def)

lemma new_block_ok:
  assumes "0 < n" "n * u < 2 ^ 16" "0 < u"
  shows "block_sized u (new_block junk d n u)" "length (mb_units (new_block junk d n u)) = n"
    "\<forall>i < n. d + i * u \<notin> L \<Longrightarrow> block_ok u (insert d L) (new_block junk d n u) [1..<n]"
proof -
  have n: "n < 2 ^ 16" using assms(2,3) le_less_trans [of n "n * u"] by simp
  then have fr: "u16 (n + 65535) = n - 1" using assms(1) by (simp add: u16_def mod_if)
  show "block_sized u (new_block junk d n u)" "length (mb_units (new_block junk d n u)) = n"
    using assms by (auto simp: block_sized_def new_block_def simp flip: length_0_conv)
  show "block_ok u (insert d L) (new_block junk d n u) [1..<n]" if "\<forall>i < n. d + i * u \<notin> L"
  proof -
    let ?us = "link_units (n - 1) 1 (replicate n junk)"
    have "free_list ?us 1 [1..<n]"
    proof (cases "1 < n")
      case True
      have "?us ! j = j + 1" if "1 \<le> j" "j + 1 < n" for j
        using link_units_nth [of 1 "n - 1" "replicate n junk" j] that n by simp
      then show ?thesis using True by (intro free_list_upt) auto
    qed simp
    then show ?thesis using that assms fr by (auto simp: block_ok_def new_block_def)
  qed
qed


subsection \<open>Allocation\<close>

lemma invD:
  assumes "pool_inv s L cs"
  shows "0 < mp_unit s" "chain (mp_next s) (mp_block s) cs"
    "mp_heap s c = Some b \<Longrightarrow> block_sized (mp_unit s) b"
    "c \<in> set cs \<Longrightarrow> mp_heap s c = Some b \<Longrightarrow> \<exists>fl. block_ok (mp_unit s) L b fl"
    "mp_heap s c = Some b \<Longrightarrow> mp_heap s d = Some e \<Longrightarrow> c \<noteq> d \<Longrightarrow> area (mp_unit s) b \<inter> area (mp_unit s) e = {}"
    "a \<in> L \<Longrightarrow> \<exists>c b i. mp_heap s c = Some b \<and> i < length (mb_units b) \<and> a = mb_data b + i * mp_unit s"
  using assms unfolding pool_inv_def by blast+

lemma in_chain_live: "chain (mp_next s) p cs \<Longrightarrow> c \<in> set cs \<Longrightarrow> \<exists>b. mp_heap s c = Some b"
  using chain_in_dom [of "mp_next s" p cs c] by (auto simp: mp_next_def)

lemma find_free_chain:
  "chain (mp_next s) p cs \<Longrightarrow>
   \<exists>r. find_free (mp_heap s) p = Some r \<and> (r = Null \<or> (\<exists>c b. c \<in> set cs \<and> r = Ptr c \<and> mp_heap s c = Some b \<and> mb_free b \<noteq> 0))"
proof (induction cs arbitrary: p)
  case Nil
  then show ?case by (simp add: find_free.simps)
next
  case (Cons c cs)
  then obtain b where b: "p = Ptr c" "mp_heap s c = Some b" "chain (mp_next s) (mb_next b) cs" by (auto simp: store_simps)
  from Cons.IH [OF b(3)] b show ?case by (subst find_free.simps) auto
qed

text \<open>Another address in use does not change what a block says, when it is not in the block's array.\<close>

lemma block_ok_insert:
  assumes "block_ok u L b fl" "a \<notin> area u b" "0 < u"
  shows "block_ok u (insert a L) b fl" "block_ok u (L - {a}) b fl"
  using assms unit_in_area [of _ b u] by (auto simp: block_ok_def)

definition want :: "mem_pool \<Rightarrow> nat" where
  "want s = (if mp_block s = Null then mp_init s else mp_grow s)"

text \<open>The block that \<open>operator new\<close> returns is in no block that is in use.\<close>

definition fresh :: "memory \<Rightarrow> mem_pool \<Rightarrow> bool" where
  "fresh M s \<longleftrightarrow> mp_heap s (m_addr M) = None \<and>
     (\<forall>c b. mp_heap s c = Some b \<longrightarrow> {m_data M..<m_data M + want s * mp_unit s} \<inter> area (mp_unit s) b = {})"

lemma add_block:
  assumes "pool_inv s L cs" "fresh M s" "0 < want s" "want s * mp_unit s < 2 ^ 16"
    "nb = (new_block (m_junk M) (m_data M) (want s) (mp_unit s))\<lparr>mb_next := mp_block s\<rparr>"
    "s' = s\<lparr>mp_block := Ptr (m_addr M), mp_heap := (mp_heap s)(m_addr M \<mapsto> nb)\<rparr>"
  shows "m_data M \<notin> L \<and> pool_inv s' (insert (m_data M) L) (m_addr M # cs)"
proof -
  let ?u = "mp_unit s" and ?d = "m_data M" and ?a = "m_addr M" and ?n = "want s"
  note inv = invD [OF assms(1)]
  have ar: "area ?u nb = {?d..<?d + ?n * ?u}"
    using new_block_ok(2) [OF assms(3,4) inv(1)] by (simp add: area_def assms(5)) (simp add: new_block_def)
  have dis: "area ?u nb \<inter> area ?u b = {}" if "mp_heap s c = Some b" for c b
    using assms(2) that unfolding ar fresh_def by blast
  have unused: "?d + i * ?u \<notin> L" if "i < ?n" for i
  proof
    assume "?d + i * ?u \<in> L"
    then obtain c b j where b: "mp_heap s c = Some b" "j < length (mb_units b)" "?d + i * ?u = mb_data b + j * ?u" using inv(6) by blast
    moreover have "?d + i * ?u \<in> area ?u nb" using that inv(1) unfolding ar by simp
    moreover have "mb_data b + j * ?u \<in> area ?u b" using b(2) inv(1) by (rule unit_in_area)
    ultimately show False using dis [OF b(1)] by auto
  qed
  have d: "?d \<notin> L" using unused [of 0] assms(3) by simp
  have dn: "?d \<in> area ?u nb" using assms(3) inv(1) unfolding ar by simp
  have a: "?a \<notin> set cs" "mp_heap s ?a = None" using assms(2) in_chain_live [OF inv(2), of ?a] by (auto simp: fresh_def)
  have nb: "block_sized ?u nb" "block_ok ?u (insert ?d L) nb [1..<?n]"
    using new_block_ok(1) [OF assms(3,4) inv(1), of "m_junk M" ?d] new_block_ok(3) [OF assms(3,4) inv(1), of ?d L "m_junk M"] unused
    by (auto simp: assms(5) block_sized_def block_ok_def)
  have "chain (mp_next s') (mp_block s) cs = chain (mp_next s) (mp_block s) cs"
    using a(1) by (intro chain_cong) (auto simp: mp_next_def assms(6))
  then have chain: "chain (mp_next s') (mp_block s') (?a # cs)" using inv(2) by (simp add: mp_next_def assms(5,6))
  have oks: "\<exists>fl. block_ok ?u (insert ?d L) b fl" if "c \<in> set (?a # cs)" "mp_heap s' c = Some b" for c b
  proof (cases "c = ?a")
    case True
    then show ?thesis using that nb(2) by (auto simp: assms(6))
  next
    case False
    then have c: "c \<in> set cs" "mp_heap s c = Some b" using that by (auto simp: assms(6))
    then obtain fl where "block_ok ?u L b fl" using inv(4) by blast
    then have "block_ok ?u (insert ?d L) b fl" using dis [OF c(2)] dn inv(1) by (intro block_ok_insert(1)) auto
    then show ?thesis by blast
  qed
  have sized: "block_sized ?u b" if "mp_heap s' c = Some b" for c b
    using that nb(1) inv(3) by (auto simp: assms(6) split: if_splits)
  have areas: "area ?u b \<inter> area ?u e = {}" if "mp_heap s' c = Some b" "mp_heap s' f = Some e" "c \<noteq> f" for c f b e
    using that dis [of c b] dis [of f e] inv(5) [of c b f e] by (auto simp: assms(6) split: if_splits)
  have cover: "\<exists>c b i. mp_heap s' c = Some b \<and> i < length (mb_units b) \<and> x = mb_data b + i * ?u" if "x \<in> insert ?d L" for x
  proof (cases "x = ?d")
    case True
    then show ?thesis using new_block_ok(2) [OF assms(3,4) inv(1)] assms(3)
      by (intro exI [of _ ?a] exI [of _ nb] exI [of _ 0]) (simp add: assms(5,6), simp add: new_block_def)
  next
    case False
    then have "x \<in> L" using that by simp
    then obtain c b i where "mp_heap s c = Some b" "i < length (mb_units b)" "x = mb_data b + i * ?u" using inv(6) by blast
    then show ?thesis using a(2) by (intro exI [of _ c] exI [of _ b] exI [of _ i]) (auto simp: assms(6))
  qed
  have u: "mp_unit s' = ?u" by (simp add: assms(6))
  have "pool_inv s' (insert ?d L) (?a # cs)" unfolding pool_inv_def u
  proof (intro conjI allI impI ballI)
    show "0 < ?u" by (rule inv(1))
  qed (rule chain sized oks areas cover; assumption)+
  then show ?thesis using d by blast
qed


lemma take_unit:
  assumes "pool_inv s L cs" "c \<in> set cs" "mp_heap s c = Some b" "mb_free b \<noteq> 0"
  shows "\<exists>nx. nth_opt (mb_units b) (mb_first b) = Some nx \<and> mb_data b + mb_first b * mp_unit s \<notin> L \<and>
    pool_inv (s\<lparr>mp_heap := (mp_heap s)(c \<mapsto> b\<lparr>mb_first := nx, mb_free := u16 (mb_free b + 65535)\<rparr>)\<rparr>)
      (insert (mb_data b + mb_first b * mp_unit s) L) cs"
proof -
  let ?u = "mp_unit s"
  note inv = invD [OF assms(1)]
  obtain fl where fl: "block_ok ?u L b fl" using inv(4) assms(2,3) by blast
  then obtain x xs where x: "fl = x # xs" using assms(4) by (cases fl) (auto simp: block_ok_def)
  have sz: "block_sized ?u b" using inv(3) assms(3) by blast
  have f: "mb_first b = x" "x < length (mb_units b)" "free_list (mb_units b) (mb_units b ! x) xs" "distinct (x # xs)" "mb_free b = Suc (length xs)"
    using fl x by (auto simp: block_ok_def)
  let ?p = "mb_data b + x * ?u" and ?b = "b\<lparr>mb_first := mb_units b ! x, mb_free := u16 (mb_free b + 65535)\<rparr>"
  let ?s = "s\<lparr>mp_heap := (mp_heap s)(c \<mapsto> ?b)\<rparr>"
  have p: "?p \<notin> L" using fl f(2) x by (auto simp: block_ok_def)
  have pa: "?p \<in> area ?u b" using f(2) inv(1) by (rule unit_in_area)
  have "length xs < length (mb_units b)"
  proof -
    have "card (set (x # xs)) \<le> card {..<length (mb_units b)}"
      using fl x free_list_range by (intro card_mono) (auto simp: block_ok_def)
    then show ?thesis using distinct_card [OF f(4)] by simp
  qed
  moreover have "length (mb_units b) < 2 ^ 16" using sz inv(1) le_less_trans [of "length (mb_units b)" "length (mb_units b) * ?u"]
    by (simp add: block_sized_def)
  ultimately have fr: "u16 (mb_free b + 65535) = length xs" using f(5) by (simp add: u16_def mod_if)
  have ok: "block_ok ?u (insert ?p L) ?b xs"
    using fl x f fr inv(1) by (auto simp: block_ok_def)
  have ar: "area ?u ?b = area ?u b" by (simp add: area_def)
  have heap: "mp_heap ?s d = Some e \<longleftrightarrow> (if d = c then e = ?b else mp_heap s d = Some e)" for d e by auto
  have "chain (mp_next ?s) (mp_block s) cs = chain (mp_next s) (mp_block s) cs"
    using assms(3) by (intro chain_cong) (auto simp: mp_next_def)
  moreover have "\<exists>fl. block_ok ?u (insert ?p L) e fl" if d: "d \<in> set cs" "mp_heap ?s d = Some e" for d e
  proof (cases "d = c")
    case True
    then show ?thesis using d(2) ok by auto
  next
    case False
    then have e: "mp_heap s d = Some e" using d(2) by simp
    then obtain fl' where "block_ok ?u L e fl'" using inv(4) d(1) by blast
    moreover have "?p \<notin> area ?u e" using inv(5) [OF e assms(3) False] pa by blast
    ultimately show ?thesis using block_ok_insert(1) inv(1) by blast
  qed
  moreover have "block_sized ?u e" if "mp_heap ?s d = Some e" for d e
    using that sz inv(3) by (auto simp: block_sized_def split: if_splits)
  moreover have "area ?u e \<inter> area ?u g = {}" if "mp_heap ?s d = Some e" "mp_heap ?s f = Some g" "d \<noteq> f" for d e f g
    using that ar inv(5) [of d _ f] assms(3) unfolding heap by (metis (full_types))
  moreover have "\<exists>d e i. mp_heap ?s d = Some e \<and> i < length (mb_units e) \<and> y = mb_data e + i * ?u" if y: "y \<in> insert ?p L" for y
  proof -
    obtain d e i where e: "mp_heap s d = Some e" "i < length (mb_units e)" "y = mb_data e + i * ?u"
      using y inv(6) f(2) assms(3) by blast
    then show ?thesis using assms(3)
      by (intro exI [of _ d] exI [of _ "if d = c then ?b else e"] exI [of _ i]) auto
  qed
  ultimately have "pool_inv ?s (insert ?p L) cs" using inv(1,2) unfolding pool_inv_def by simp
  then show ?thesis using p f(1,2) by (intro exI [of _ "mb_units b ! x"]) simp
qed


subsection \<open>Freeing\<close>

definition in_block :: "mem_block \<Rightarrow> nat \<Rightarrow> bool" where
  "in_block b a \<longleftrightarrow> mb_data b \<le> a \<and> a < mb_data b + mb_size b"

lemma find_block_step: "mp_heap s c = Some b \<Longrightarrow> find_block (mp_heap s) a pre (Ptr c) =
    (if in_block b a then Some (Some (pre, Ptr c)) else if mb_next b = Null then Some None
     else find_block (mp_heap s) a (Ptr c) (mb_next b))"
  by (subst find_block.simps) (auto simp: in_block_def)

lemma find_block_none:
  "chain (mp_next s) p cs \<Longrightarrow> cs \<noteq> [] \<Longrightarrow> \<forall>c b. c \<in> set cs \<longrightarrow> mp_heap s c = Some b \<longrightarrow> \<not> in_block b a \<Longrightarrow>
   find_block (mp_heap s) a pre p = Some None"
proof (induction cs arbitrary: p pre)
  case Nil
  then show ?case by simp
next
  case (Cons c cs)
  then obtain b where b: "p = Ptr c" "mp_heap s c = Some b" "chain (mp_next s) (mb_next b) cs" by (auto simp: store_simps)
  moreover have "\<not> in_block b a" using Cons.prems(3) b(2) by simp
  ultimately show ?case using Cons.IH [OF b(3), of p] Cons.prems(3) by (cases "cs = []") (auto simp: find_block_step)
qed

lemma find_block_some:
  "chain (mp_next s) p (us @ c # vs) \<Longrightarrow> mp_heap s c = Some b \<Longrightarrow> in_block b a \<Longrightarrow>
   \<forall>d e. d \<in> set us \<longrightarrow> mp_heap s d = Some e \<longrightarrow> \<not> in_block e a \<Longrightarrow>
   find_block (mp_heap s) a pre p = Some (Some (if us = [] then pre else Ptr (last us), Ptr c))"
proof (induction us arbitrary: p pre)
  case Nil
  then show ?case by (auto simp: find_block_step)
next
  case (Cons d us)
  then obtain e where e: "p = Ptr d" "mp_heap s d = Some e" "chain (mp_next s) (mb_next e) (us @ c # vs)" by (auto simp: store_simps)
  then have "mb_next e \<noteq> Null" by (cases us) auto
  moreover have "\<not> in_block e a" using Cons.prems(4) e(2) by simp
  ultimately show ?case using Cons.IH [OF e(3), of p] Cons.prems(2-4) e by (auto simp: find_block_step)
qed

lemma chain_cut:
  "chain nx p (us @ c # vs) \<Longrightarrow> us \<noteq> [] \<Longrightarrow> distinct (us @ c # vs) \<Longrightarrow> chain (nx(last us := nx c)) p (us @ vs)"
proof (induction us arbitrary: p)
  case Nil
  then show ?case by simp
next
  case (Cons u us)
  then obtain q where q: "p = Ptr u" "nx u = Some q" "chain nx q (us @ c # vs)" by auto
  show ?case
  proof (cases "us = []")
    case True
    then obtain r where r: "nx c = Some r" "chain nx r vs" using q(3) by auto
    have "chain (nx(u := nx c)) r vs = chain nx r vs" using Cons.prems(3) by (intro chain_cong) auto
    then show ?thesis using True q r by (simp add: fun_upd_def)
  next
    case False
    then have "last us \<noteq> u" using Cons.prems(3) last_in_set [OF False] by auto
    then show ?thesis using Cons.IH [OF q(3) False] Cons.prems(3) q False by simp
  qed
qed

lemma chain_to_front:
  "chain nx p (h # rest) \<Longrightarrow> c \<notin> set rest \<Longrightarrow> chain (nx(c := nx h)) (Ptr c) (c # rest)"
proof -
  assume "chain nx p (h # rest)" "c \<notin> set rest"
  then obtain q where "nx h = Some q" "chain nx q rest" by auto
  moreover have "chain (nx(c := nx h)) q rest = chain nx q rest" using \<open>c \<notin> set rest\<close> by (intro chain_cong) auto
  ultimately show ?thesis by simp
qed

text \<open>A unit goes back to the free list of its block.\<close>

lemma give_unit:
  assumes "pool_inv s L cs" "mp_heap s c = Some b" "c \<in> set cs" "i < length (mb_units b)" "mb_data b + i * mp_unit s \<in> L"
    "b1 = b\<lparr>mb_free := u16 (mb_free b + 1), mb_units := (mb_units b)[i := mb_first b], mb_first := u16 i\<rparr>"
  shows "block_sized (mp_unit s) b1" "\<exists>fl. block_ok (mp_unit s) (L - {mb_data b + i * mp_unit s}) b1 fl"
    "mb_free b1 * mp_unit s = mb_size b1 \<longleftrightarrow> area (mp_unit s) b \<inter> (L - {mb_data b + i * mp_unit s}) = {}"
    "area (mp_unit s) b1 = area (mp_unit s) b"
proof -
  let ?u = "mp_unit s" and ?n = "length (mb_units b)" and ?p = "mb_data b + i * mp_unit s"
  note inv = invD [OF assms(1)]
  obtain fl where fl: "block_ok ?u L b fl" using inv(4) assms(2,3) by blast
  have sz: "block_sized ?u b" using inv(3) assms(2) by blast
  have n: "?n < 2 ^ 16" using sz inv(1) le_less_trans [of ?n "?n * ?u"] by (simp add: block_sized_def)
  have i: "i \<notin> set fl" using fl assms(4,5) by (simp add: block_ok_def)
  have sub: "set fl \<subseteq> {..<?n}" using fl free_list_range by (auto simp: block_ok_def)
  have "card (set (i # fl)) \<le> card {..<?n}" using sub assms(4) by (intro card_mono) auto
  then have len: "length fl < ?n" using distinct_card [of "i # fl"] i fl by (simp add: block_ok_def)
  have fr: "mb_free b1 = Suc (length fl)" using fl len n by (simp add: assms(6) block_ok_def)
  have inj: "mb_data b + j * ?u = ?p \<longleftrightarrow> j = i" for j using inv(1) by simp
  have ok: "block_ok ?u (L - {?p}) b1 (i # fl)"
    using fl i assms(4) n fr inj by (auto simp: block_ok_def assms(6) free_list_upd)
  then show "\<exists>fl. block_ok ?u (L - {?p}) b1 fl" by blast
  show "block_sized ?u b1" "area ?u b1 = area ?u b" using sz by (simp_all add: assms(6) block_sized_def area_def)
  have "mb_free b1 * ?u = mb_size b1 \<longleftrightarrow> Suc (length fl) * ?u = ?n * ?u" using sz unfolding fr by (simp add: assms(6) block_sized_def)
  then have "mb_free b1 * ?u = mb_size b1 \<longleftrightarrow> Suc (length fl) = ?n" using inv(1) by (simp only: mult_cancel2) auto
  also have "\<dots> \<longleftrightarrow> set (i # fl) = {..<?n}"
  proof -
    have ci: "card (set (i # fl)) = Suc (length fl)" using fl i distinct_card [of "i # fl"] by (simp add: block_ok_def)
    have si: "set (i # fl) \<subseteq> {..<?n}" using sub assms(4) by simp
    show ?thesis using ci card_subset_eq [OF finite_lessThan si] card_lessThan [of ?n] by metis
  qed
  also have "\<dots> \<longleftrightarrow> (\<forall>j < ?n. mb_data b + j * ?u \<notin> L - {?p})"
    using ok sub assms(4) by (auto simp: block_ok_def assms(6))
  also have "\<dots> \<longleftrightarrow> area ?u b \<inter> (L - {?p}) = {}"
  proof -
    have "\<exists>j < ?n. a = mb_data b + j * ?u" if a: "a \<in> area ?u b" "a \<in> L" for a
    proof -
      obtain d e j where e: "mp_heap s d = Some e" "j < length (mb_units e)" "a = mb_data e + j * ?u" using inv(6) [OF a(2)] by blast
      then have "a \<in> area ?u e" using inv(1) unit_in_area by blast
      then have "d = c" using inv(5) [OF e(1) assms(2)] a(1) by blast
      then show ?thesis using e assms(2) by auto
    qed
    then have "\<forall>a. a \<in> area ?u b \<longrightarrow> a \<in> L \<longrightarrow> (\<exists>j < ?n. a = mb_data b + j * ?u)" by blast
    moreover have "\<forall>j < ?n. mb_data b + j * ?u \<in> area ?u b" using unit_in_area [OF _ inv(1)] by blast
    ultimately show ?thesis unfolding disjoint_iff by blast
  qed
  finally show "mb_free b1 * ?u = mb_size b1 \<longleftrightarrow> area ?u b \<inter> (L - {?p}) = {}" .
qed


text \<open>
  What \<open>freeMem\<close> makes of the order of the blocks: a block that becomes empty goes back to the
  system when it is not the first; one that does not comes to the front, in the place of the
  first block, which is lost.
\<close>

definition after_free :: "bool \<Rightarrow> nat list \<Rightarrow> nat \<Rightarrow> nat list" where
  "after_free whole cs c = (if c = hd cs then cs else if whole then remove1 c cs else c # remove1 c (tl cs))"

text \<open>A heap that differs in the block \<open>c\<close>, in the links, and in blocks that are gone.\<close>

lemma free_inv:
  assumes "pool_inv s L cs" "mp_heap s c = Some b" "c \<in> set cs" "i < length (mb_units b)" "mb_data b + i * mp_unit s \<in> L"
    "b1 = b\<lparr>mb_free := u16 (mb_free b + 1), mb_units := (mb_units b)[i := mb_first b], mb_first := u16 i\<rparr>"
    "mp_unit s' = mp_unit s" "chain (mp_next s') (mp_block s') ds" "set ds \<subseteq> set cs"
    "\<And>d e. mp_heap s' d = Some e \<Longrightarrow> \<exists>e0 q. (if d = c then e0 = b1 else mp_heap s d = Some e0) \<and> e = e0\<lparr>mb_next := q\<rparr>"
    "\<And>d e. mp_heap s d = Some e \<Longrightarrow> mp_heap s' d = None \<Longrightarrow> d = c \<and> mb_free b1 * mp_unit s = mb_size b1"
  shows "pool_inv s' (L - {mb_data b + i * mp_unit s}) ds"
proof -
  let ?u = "mp_unit s" and ?p = "mb_data b + i * mp_unit s"
  note inv = invD [OF assms(1)]
  note g = give_unit [OF assms(1-6)]
  have pa: "?p \<in> area ?u b" using assms(4) inv(1) by (rule unit_in_area)
  have orig: "\<exists>e0 q. mp_heap s d = Some e0 \<and> area ?u e = area ?u e0 \<and> e = (if d = c then b1 else e0)\<lparr>mb_next := q\<rparr>"
    if d: "mp_heap s' d = Some e" for d e
  proof -
    obtain e0 q where "(if d = c then e0 = b1 else mp_heap s d = Some e0)" "e = e0\<lparr>mb_next := q\<rparr>" using assms(10) [OF d] by blast
    then show ?thesis using g(4) assms(2) by (cases "d = c") (auto simp: area_def)
  qed
  have sized: "block_sized ?u e" if "mp_heap s' d = Some e" for d e
    using orig [OF that] g(1) inv(3) by (auto simp: block_sized_def split: if_splits)
  have oks: "\<exists>fl. block_ok ?u (L - {?p}) e fl" if d: "d \<in> set ds" "mp_heap s' d = Some e" for d e
  proof -
    obtain e0 q where e: "mp_heap s d = Some e0" "e = (if d = c then b1 else e0)\<lparr>mb_next := q\<rparr>" using orig [OF d(2)] by blast
    have "\<exists>fl. block_ok ?u (L - {?p}) (if d = c then b1 else e0) fl"
    proof (cases "d = c")
      case True
      then show ?thesis using g(2) by simp
    next
      case False
      obtain fl where "block_ok ?u L e0 fl" using inv(4) [OF _ e(1)] d(1) assms(9) by blast
      moreover have "?p \<notin> area ?u e0" using inv(5) [OF e(1) assms(2) False] pa by blast
      ultimately have "block_ok ?u (L - {?p}) e0 fl" using inv(1) by (rule block_ok_insert(2))
      then show ?thesis using False by auto
    qed
    then show ?thesis unfolding e(2) by (simp add: block_ok_def)
  qed
  have areas: "area ?u e \<inter> area ?u f = {}" if d: "mp_heap s' d = Some e" "mp_heap s' j = Some f" "d \<noteq> j" for d j e f
    using orig [OF d(1)] orig [OF d(2)] inv(5) d(3) by metis
  have cover: "\<exists>d e k. mp_heap s' d = Some e \<and> k < length (mb_units e) \<and> x = mb_data e + k * ?u" if x: "x \<in> L - {?p}" for x
  proof -
    obtain d e k where e: "mp_heap s d = Some e" "k < length (mb_units e)" "x = mb_data e + k * ?u" using inv(6) x by blast
    have "mp_heap s' d \<noteq> None"
    proof
      assume "mp_heap s' d = None"
      then have "d = c" "mb_free b1 * ?u = mb_size b1" using assms(11) [OF e(1)] by auto
      then have "e = b" "area ?u b \<inter> (L - {?p}) = {}" using e(1) assms(2) g(3) by auto
      moreover have "x \<in> area ?u e" using e(2,3) inv(1) unit_in_area by blast
      ultimately show False using x by blast
    qed
    then obtain e' where e': "mp_heap s' d = Some e'" by blast
    then obtain e0 q where "mp_heap s d = Some e0" "e' = (if d = c then b1 else e0)\<lparr>mb_next := q\<rparr>" using orig by blast
    then have "mb_data e' = mb_data e" "length (mb_units e') = length (mb_units e)" using e(1) assms(2,6) by auto
    then show ?thesis using e' e by (intro exI [of _ d] exI [of _ e'] exI [of _ k]) simp
  qed
  show ?thesis unfolding pool_inv_def assms(7)
  proof (intro conjI allI impI ballI)
    show "0 < ?u" by (rule inv(1))
  qed (rule assms(8) sized oks areas cover; assumption)+
qed


lemma lost_unit:
  assumes "pool_inv s L cs" "\<And>c b. c \<in> set cs \<Longrightarrow> mp_heap s c = Some b \<Longrightarrow> a \<notin> area (mp_unit s) b"
  shows "free_mem a s = Some s" "pool_inv s (L - {a}) cs"
proof -
  note inv = invD [OF assms(1)]
  have "\<not> in_block b a" if "c \<in> set cs" "mp_heap s c = Some b" for c b
    using assms(2) [OF that] inv(3) [OF that(2)] by (auto simp: in_block_def area_def block_sized_def)
  then have "cs \<noteq> [] \<Longrightarrow> find_block (mp_heap s) a (mp_block s) (mp_block s) = Some None"
    using find_block_none [OF inv(2)] by blast
  moreover have "cs = [] \<Longrightarrow> mp_block s = Null" "cs \<noteq> [] \<Longrightarrow> mp_block s \<noteq> Null" using inv(2) by (cases cs; auto)+
  ultimately show "free_mem a s = Some s" by (cases "cs = []") (simp_all add: free_mem_def)
  have "\<exists>fl. block_ok (mp_unit s) (L - {a}) b fl" if "c \<in> set cs" "mp_heap s c = Some b" for c b
    using inv(4) [OF that] block_ok_insert(2) [OF _ assms(2) [OF that] inv(1)] by blast
  then show "pool_inv s (L - {a}) cs" using assms(1) unfolding pool_inv_def by blast
qed

text \<open>The links of the blocks, without their contents.\<close>

lemma free_found:
  assumes "pool_inv s L (us @ c # vs)" "mp_heap s c = Some b" "i < length (mb_units b)" "a = mb_data b + i * mp_unit s" "a \<in> L"
    "b1 = b\<lparr>mb_free := u16 (mb_free b + 1), mb_units := (mb_units b)[i := mb_first b], mb_first := u16 i\<rparr>"
  shows "find_block (mp_heap s) a (mp_block s) (mp_block s) = Some (Some (if us = [] then mp_block s else Ptr (last us), Ptr c))"
    "(a - mb_data b) div mp_unit s = i" "(a - mb_data b) mod mp_unit s = 0" "mp_unit s \<noteq> 0" "mp_block s \<noteq> Null" "a \<in> area (mp_unit s) b"
proof -
  note inv = invD [OF assms(1)]
  show aa: "a \<in> area (mp_unit s) b" unfolding assms(4) using assms(3) inv(1) by (rule unit_in_area)
  show "(a - mb_data b) div mp_unit s = i" "(a - mb_data b) mod mp_unit s = 0" "mp_unit s \<noteq> 0" using inv(1) by (simp_all add: assms(4))
  show "mp_block s \<noteq> Null" using inv(2) by (cases us) auto
  have "in_block b a" using aa inv(3) [OF assms(2)] by (simp add: in_block_def area_def block_sized_def)
  moreover have "\<not> in_block e a" if "d \<in> set us" "mp_heap s d = Some e" for d e
  proof -
    have "d \<noteq> c" using chain_distinct [OF inv(2)] that(1) by auto
    then have "a \<notin> area (mp_unit s) e" using inv(5) [OF that(2) assms(2)] aa by blast
    then show ?thesis using inv(3) [OF that(2)] by (auto simp: in_block_def area_def block_sized_def)
  qed
  ultimately show "find_block (mp_heap s) a (mp_block s) (mp_block s) = Some (Some (if us = [] then mp_block s else Ptr (last us), Ptr c))"
    using find_block_some [OF inv(2) assms(2)] by blast
qed

lemma free_ok:
  assumes "pool_inv s L cs" "a \<in> L" "c \<in> set cs" "mp_heap s c = Some b" "a \<in> area (mp_unit s) b"
  shows "\<exists>s'. free_mem a s = Some s' \<and> pool_inv s' (L - {a}) (after_free (area (mp_unit s) b \<inter> (L - {a}) = {}) cs c) \<and>
    mp_unit s' = mp_unit s \<and> mp_init s' = mp_init s \<and> mp_grow s' = mp_grow s \<and>
    dom (mp_heap s') = dom (mp_heap s) - (if c \<noteq> hd cs \<and> area (mp_unit s) b \<inter> (L - {a}) = {} then {c} else {})"
proof -
  let ?u = "mp_unit s"
  note inv = invD [OF assms(1)]
  obtain us vs where cs: "cs = us @ c # vs" using assms(3) by (auto simp: in_set_conv_decomp)
  obtain i where i: "i < length (mb_units b)" "a = mb_data b + i * ?u"
  proof -
    obtain d e j where e: "mp_heap s d = Some e" "j < length (mb_units e)" "a = mb_data e + j * ?u" using inv(6) [OF assms(2)] by blast
    then have "a \<in> area ?u e" using inv(1) unit_in_area by blast
    then have "d = c" using inv(5) [OF e(1) assms(4)] assms(5) by blast
    then show thesis using that e assms(4) by auto
  qed
  define b1 where "b1 = b\<lparr>mb_free := u16 (mb_free b + 1), mb_units := (mb_units b)[i := mb_first b], mb_first := u16 i\<rparr>"
  note f = free_found [OF assms(1) [unfolded cs] assms(4) i assms(2) b1_def]
  note w = give_unit [OF assms(1,4,3) i(1) assms(2) [unfolded i(2)] b1_def, folded i(2)]
  note keep = free_inv [OF assms(1,4,3) i(1) assms(2) [unfolded i(2)] b1_def, folded i(2)]
  let ?whole = "area ?u b \<inter> (L - {a}) = {}"
  have dis: "distinct cs" using chain_distinct [OF inv(2)] .
  show ?thesis
  proof (cases us rule: rev_cases)
    case Nil
    let ?s = "s\<lparr>mp_heap := (mp_heap s)(c \<mapsto> b1)\<rparr>"
    have pb: "mp_block s = Ptr c" using inv(2) cs Nil by simp
    have "chain (mp_next ?s) (mp_block s) cs = chain (mp_next s) (mp_block s) cs"
      using assms(4) by (intro chain_cong) (auto simp: mp_next_def b1_def)
    moreover have "\<exists>e0 q. (if d = c then e0 = b1 else mp_heap s d = Some e0) \<and> e = e0\<lparr>mb_next := q\<rparr>" if "mp_heap ?s d = Some e" for d e
      using that by (intro exI [of _ e] exI [of _ "mb_next e"]) (auto split: if_splits)
    ultimately have "pool_inv ?s (L - {a}) cs" using inv(2) assms(4) by (intro keep) (auto split: if_splits)
    moreover have "free_mem a s = Some ?s"
      using f i(1) assms(4) pb Nil by (simp add: free_mem_def b1_def Let_def)
    moreover have "dom (mp_heap ?s) = dom (mp_heap s)" using assms(4) by auto
    ultimately show ?thesis using cs Nil by (intro exI [of _ ?s]) (simp add: after_free_def)
  next
    case us: (snoc ws l)
    have lc: "l \<noteq> c" "l \<in> set cs" using dis cs us by auto
    obtain bl where bl: "mp_heap s l = Some bl" using in_chain_live [OF inv(2) lc(2)] by blast
    have pc: "Ptr c \<noteq> mp_block s" using inv(2) cs us dis by (cases ws) auto
    have hd: "hd cs \<noteq> c" using dis cs us by (cases ws) auto
    let ?nx = "(mp_next s)(l := mp_next s c)"
    have cut: "chain ?nx (mp_block s) (us @ vs)"
      using chain_cut [of "mp_next s" "mp_block s" us c vs] inv(2) dis cs us by simp
    let ?h2 = "(mp_heap s)(c \<mapsto> b1, l \<mapsto> bl\<lparr>mb_next := mb_next b1\<rparr>)"
    have nx2: "map_option mb_next (?h2 d) = (if d = c then Some (mb_next b1) else ?nx d)" for d
      using lc(1) assms(4) by (simp add: mp_next_def b1_def)
    have start: "free_mem a s = (if ?whole then Some (s\<lparr>mp_heap := ?h2(c := None)\<rparr>)
        else Option.bind (deref ?h2 (mp_block s)) (\<lambda>hd. Some (s\<lparr>mp_heap := ?h2(c \<mapsto> b1\<lparr>mb_next := mb_next hd\<rparr>), mp_block := Ptr c\<rparr>)))"
    proof -
      have w3: "mb_free b1 * ?u = mb_size b1 \<longleftrightarrow> ?whole" by (rule w(3))
      have "free_mem a s = (if mb_free b1 * ?u = mb_size b1 then Some (s\<lparr>mp_heap := ?h2(c := None)\<rparr>)
        else Option.bind (deref ?h2 (mp_block s)) (\<lambda>hd. Some (s\<lparr>mp_heap := ?h2(c \<mapsto> b1\<lparr>mb_next := mb_next hd\<rparr>), mp_block := Ptr c\<rparr>)))"
        using f i(1) assms(4) us lc(1) bl pc by (simp add: free_mem_def Let_def b1_def)
      then show ?thesis unfolding w3 .
    qed
    show ?thesis
    proof (cases ?whole)
      case True
      let ?s = "s\<lparr>mp_heap := ?h2(c := None)\<rparr>"
      have "chain (mp_next ?s) (mp_block s) (us @ vs) = chain ?nx (mp_block s) (us @ vs)"
        using dis cs nx2 assms(4) by (intro chain_cong) (auto simp: mp_next_def b1_def)
      then have "chain (mp_next ?s) (mp_block ?s) (us @ vs)" using cut by simp
      then have "pool_inv ?s (L - {a}) (us @ vs)"
      proof (rule keep [rotated])
        fix d e
        assume "mp_heap ?s d = Some e"
        then show "\<exists>e0 q. (if d = c then e0 = b1 else mp_heap s d = Some e0) \<and> e = e0\<lparr>mb_next := q\<rparr>"
          using bl by (intro exI [of _ "if d = l then bl else e"] exI [of _ "mb_next e"]) (auto split: if_splits)
      next
        fix d e
        assume "mp_heap s d = Some e" "mp_heap ?s d = None"
        then show "d = c \<and> mb_free b1 * ?u = mb_size b1" using w(3) True by (auto split: if_splits)
      qed (use cs in auto)
      moreover have "after_free True cs c = us @ vs" using hd dis cs by (simp add: after_free_def remove1_append)
      moreover have "dom (mp_heap ?s) = dom (mp_heap s) - {c}" using assms(4) bl lc(1) by auto
      ultimately show ?thesis using start True hd by (intro exI [of _ ?s]) simp
    next
      case False
      have "us \<noteq> []" using us by simp
      then obtain h t where ht: "us = h # t" by (meson neq_Nil_conv)
      define rest where "rest = t @ vs"
      have h: "us @ vs = h # rest" "tl cs = t @ c # vs" using ht cs by (simp_all add: rest_def)
      have hc: "h \<noteq> c" "c \<notin> set rest" using ht dis cs by (auto simp: rest_def)
      obtain eh where eh: "?h2 h = Some eh" "mp_block s = Ptr h"
      proof -
        have "?nx h \<noteq> None" "mp_block s = Ptr h" using cut h(1) by auto
        then show thesis using that nx2 [of h] hc(1) by (cases "?h2 h") auto
      qed
      let ?s = "s\<lparr>mp_heap := ?h2(c \<mapsto> b1\<lparr>mb_next := mb_next eh\<rparr>), mp_block := Ptr c\<rparr>"
      have "chain (?nx(c := ?nx h)) (Ptr c) (c # rest)" using chain_to_front [OF cut [unfolded h(1)] hc(2)] .
      moreover have "chain (mp_next ?s) (Ptr c) (c # rest) = chain (?nx(c := ?nx h)) (Ptr c) (c # rest)"
      proof (rule chain_cong)
        fix d
        show "mp_next ?s d = (?nx(c := ?nx h)) d" using nx2 [of d] nx2 [of h] eh(1) hc(1) by (auto simp: mp_next_def)
      qed
      ultimately have "chain (mp_next ?s) (mp_block ?s) (c # rest)" by simp
      then have "pool_inv ?s (L - {a}) (c # rest)"
      proof (rule keep [rotated])
        fix d e
        assume "mp_heap ?s d = Some e"
        then show "\<exists>e0 q. (if d = c then e0 = b1 else mp_heap s d = Some e0) \<and> e = e0\<lparr>mb_next := q\<rparr>"
          using bl by (intro exI [of _ "if d = c then b1 else if d = l then bl else e"] exI [of _ "mb_next e"]) (auto split: if_splits)
      next
        fix d e
        assume "mp_heap s d = Some e" "mp_heap ?s d = None"
        then show "d = c \<and> mb_free b1 * ?u = mb_size b1" by (auto split: if_splits)
      qed (use cs ht rest_def in auto)
      moreover have "after_free False cs c = c # rest"
        using hd hc(2) h(2) by (auto simp: after_free_def remove1_append rest_def)
      moreover have "dom (mp_heap ?s) = dom (mp_heap s)" using assms(4) bl by auto
      ultimately show ?thesis using start False eh by (intro exI [of _ ?s]) simp
    qed
  qed
qed


subsection \<open>The pool in use\<close>

text \<open>
  The states and the addresses in use that a pool of small units reaches, when memory that the
  system hands out is fresh and the users free what they have and write only into their units.
\<close>

inductive pool_reach :: "mem_pool \<Rightarrow> nat set \<Rightarrow> bool" where
  Start: "unitSize \<le> 4 \<Longrightarrow> 0 < initSize \<Longrightarrow> initSize * 4 < 2 ^ 16 \<Longrightarrow> growSize * 4 < 2 ^ 16 \<Longrightarrow>
    pool_reach (new_pool junk unitSize initSize growSize) {}"
| Alloc: "pool_reach s L \<Longrightarrow> fresh M s \<Longrightarrow> alloc_mem M s = Ret (Some a, s') \<Longrightarrow> pool_reach s' (insert a L)"
| Free: "pool_reach s L \<Longrightarrow> a \<in> L \<Longrightarrow> free_mem a s = Some s' \<Longrightarrow> pool_reach s' (L - {a})"
| Write: "pool_reach s L \<Longrightarrow> mp_heap s c = Some b \<Longrightarrow> mb_data b + i * mp_unit s \<in> L \<Longrightarrow> write_unit c i v s = Some s' \<Longrightarrow>
    pool_reach s' L"

definition pool_good :: "mem_pool \<Rightarrow> nat set \<Rightarrow> bool" where
  "pool_good s L \<longleftrightarrow> (\<exists>cs. pool_inv s L cs) \<and> mp_unit s \<le> 4 \<and> 0 < mp_init s \<and> mp_init s * 4 < 2 ^ 16 \<and> mp_grow s * 4 < 2 ^ 16"

lemma want_fits:
  assumes "pool_good s L"
  shows "want s * mp_unit s < 2 ^ 16"
proof -
  have "want s * mp_unit s \<le> want s * 4"
    using assms by (intro mult_le_mono2) (simp add: pool_good_def)
  also have "want s * 4 < 2 ^ 16" using assms unfolding pool_good_def want_def by (simp split: if_split)
  finally show ?thesis .
qed

lemma alloc_good:
  assumes "pool_good s L" "fresh M s"
  shows "alloc_mem M s = Raise \<or> alloc_mem M s = Ret (None, s) \<or>
    (\<exists>a s'. alloc_mem M s = Ret (Some a, s') \<and> a \<notin> L \<and> pool_good s' (insert a L) \<and> mp_unit s' = mp_unit s)"
proof -
  obtain cs where cs: "pool_inv s L cs" using assms(1) by (auto simp: pool_good_def)
  note inv = invD [OF cs]
  let ?nb = "(new_block (m_junk M) (m_data M) (want s) (mp_unit s))\<lparr>mb_next := mp_block s\<rparr>"
  let ?s = "s\<lparr>mp_block := Ptr (m_addr M), mp_heap := (mp_heap s)(m_addr M \<mapsto> ?nb)\<rparr>"
  have new: "m_data M \<notin> L \<and> pool_good ?s (insert (m_data M) L)" if "0 < want s"
    using add_block [OF cs assms(2) that want_fits [OF assms(1)] refl refl] assms(1) by (auto simp: pool_good_def)
  show ?thesis
  proof (cases "mp_block s = Null")
    case True
    then have w: "0 < want s" "?nb = new_block (m_junk M) (m_data M) (mp_init s) (mp_unit s)"
      using assms(1) by (simp_all add: want_def pool_good_def new_block_def)
    then show ?thesis using True new [OF w(1)] by (auto simp: alloc_mem_def w(2))
  next
    case False
    obtain r where r: "find_free (mp_heap s) (mp_block s) = Some r"
      "r = Null \<or> (\<exists>c b. c \<in> set cs \<and> r = Ptr c \<and> mp_heap s c = Some b \<and> mb_free b \<noteq> 0)"
      using find_free_chain [OF inv(2)] by blast
    show ?thesis
    proof (cases "r = Null")
      case True
      then show ?thesis using False r(1) new by (auto simp: alloc_mem_def want_def)
    next
      case nn: False
      then obtain c b where c: "c \<in> set cs" "r = Ptr c" "mp_heap s c = Some b" "mb_free b \<noteq> 0" using r(2) by blast
      obtain nx where nx: "nth_opt (mb_units b) (mb_first b) = Some nx" "mb_data b + mb_first b * mp_unit s \<notin> L"
        "pool_inv (s\<lparr>mp_heap := (mp_heap s)(c \<mapsto> b\<lparr>mb_first := nx, mb_free := u16 (mb_free b + 65535)\<rparr>)\<rparr>)
          (insert (mb_data b + mb_first b * mp_unit s) L) cs"
        using take_unit [OF cs c(1,3,4)] by blast
      then show ?thesis using False r(1) c assms(1) by (auto simp: alloc_mem_def pool_good_def)
    qed
  qed
qed

lemma free_good:
  assumes "pool_good s L" "a \<in> L"
  shows "\<exists>s'. free_mem a s = Some s' \<and> pool_good s' (L - {a})"
proof -
  obtain cs where cs: "pool_inv s L cs" using assms(1) by (auto simp: pool_good_def)
  show ?thesis
  proof (cases "\<exists>c b. c \<in> set cs \<and> mp_heap s c = Some b \<and> a \<in> area (mp_unit s) b")
    case True
    then show ?thesis using free_ok [OF cs assms(2)] assms(1) unfolding pool_good_def by metis
  next
    case False
    then show ?thesis using lost_unit [OF cs, of a] assms(1) unfolding pool_good_def by blast
  qed
qed

lemma write_good:
  assumes "pool_good s L" "mp_heap s c = Some b" "mb_data b + i * mp_unit s \<in> L" "write_unit c i v s = Some s'"
  shows "pool_good s' L"
proof -
  obtain cs where cs: "pool_inv s L cs" using assms(1) by (auto simp: pool_good_def)
  note inv = invD [OF cs]
  let ?u = "mp_unit s" and ?b = "b\<lparr>mb_units := (mb_units b)[i := u16 v]\<rparr>"
  have s': "s' = s\<lparr>mp_heap := (mp_heap s)(c \<mapsto> ?b)\<rparr>" "i < length (mb_units b)"
    using assms(2,4) by (auto simp: write_unit_def store_simps split: bind_splits)
  have heap: "\<exists>e0. mp_heap s d = Some e0 \<and> e = (if d = c then ?b else e0) \<and> area ?u e = area ?u e0" if "mp_heap s' d = Some e" for d e
    using that assms(2) by (cases "d = c") (auto simp: s'(1) area_def)
  have "chain (mp_next s') (mp_block s') cs = chain (mp_next s) (mp_block s) cs"
    unfolding s'(1) using assms(2) by (simp, intro chain_cong) (auto simp: mp_next_def)
  then have chain: "chain (mp_next s') (mp_block s') cs" using inv(2) by blast
  have sized: "block_sized ?u e" if "mp_heap s' d = Some e" for d e
    using that inv(3) assms(2) by (auto simp: s'(1) block_sized_def split: if_splits)
  have oks: "\<exists>fl. block_ok ?u L e fl" if d: "d \<in> set cs" "mp_heap s' d = Some e" for d e
  proof (cases "d = c")
    case True
    obtain fl where "block_ok ?u L b fl" using inv(4) d(1) assms(2) True by blast
    moreover from this have "i \<notin> set fl" using assms(3) s'(2) by (simp add: block_ok_def)
    ultimately have "block_ok ?u L ?b fl" by (simp add: block_ok_def free_list_upd)
    then show ?thesis using d(2) True by (auto simp: s'(1))
  next
    case False
    then show ?thesis using inv(4) [OF d(1)] d(2) by (simp add: s'(1))
  qed
  have areas: "area ?u e \<inter> area ?u f = {}" if d: "mp_heap s' d = Some e" "mp_heap s' j = Some f" "d \<noteq> j" for d j e f
    using heap [OF d(1)] heap [OF d(2)] inv(5) d(3) by metis
  have cover: "\<exists>d e k. mp_heap s' d = Some e \<and> k < length (mb_units e) \<and> x = mb_data e + k * ?u" if x: "x \<in> L" for x
  proof -
    obtain d e k where "mp_heap s d = Some e" "k < length (mb_units e)" "x = mb_data e + k * ?u" using inv(6) [OF x] by blast
    then show ?thesis using assms(2) by (intro exI [of _ d] exI [of _ "if d = c then ?b else e"] exI [of _ k]) (auto simp: s'(1))
  qed
  have u: "mp_unit s' = ?u" by (simp add: s'(1))
  have "pool_inv s' L cs" unfolding pool_inv_def u
  proof (intro conjI allI impI ballI)
    show "0 < ?u" by (rule inv(1))
  qed (rule chain sized oks areas cover; assumption)+
  then show ?thesis using assms(1) by (auto simp: pool_good_def s'(1))
qed

lemma reach_good: "pool_reach s L \<Longrightarrow> pool_good s L"
proof (induction rule: pool_reach.induct)
  case (Start unitSize initSize growSize junk)
  then show ?case by (auto simp: pool_good_def pool_inv_def new_pool_def)
next
  case (Alloc s L M a s')
  then show ?case using alloc_good [OF Alloc.IH Alloc.hyps(2)] by auto
next
  case (Free s L a s')
  then show ?case using free_good [OF Free.IH Free.hyps(2)] by auto
next
  case (Write s L c b i v s')
  then show ?case using write_good by blast
qed



text \<open>
  C38. Freeing a unit that is in use, from a block of the pool's list: when the block is the first
  one, the list stays.  A block that is not the first is deleted when it is empty afterwards: it
  leaves the list, and its memory is given back, the only block that is.  When it still has units
  in use, it takes the place of the first block, which stays allocated but is in no list any more,
  so it is lost with all its units.
\<close>

theorem free_reorders:
  assumes "pool_inv s L cs" "a \<in> L" "c \<in> set cs" "mp_heap s c = Some b" "a \<in> area (mp_unit s) b"
  shows "\<exists>s'. free_mem a s = Some s' \<and> pool_inv s' (L - {a}) (if c = hd cs then cs
    else if area (mp_unit s) b \<inter> (L - {a}) = {} then remove1 c cs else c # remove1 c (tl cs)) \<and>
    dom (mp_heap s') = dom (mp_heap s) - (if c \<noteq> hd cs \<and> area (mp_unit s) b \<inter> (L - {a}) = {} then {c} else {})"
  using free_ok [OF assms] unfolding after_free_def by blast


definition demo_pool :: mem_pool where
  "demo_pool = new_pool 0 4 1 2"

definition demo_memory :: "nat \<Rightarrow> nat \<Rightarrow> memory" where
  "demo_memory c d = \<lparr>m_oom = False, m_addr = c, m_data = d, m_junk = 0\<rparr>"

definition demo_state :: mem_pool where
  "demo_state = demo_pool\<lparr>mp_block := Ptr 2, mp_heap :=
     [1 \<mapsto> \<lparr>mb_size = 4, mb_free = 0, mb_first = 1, mb_next = Null, mb_data = 100, mb_units = [0]\<rparr>,
      2 \<mapsto> \<lparr>mb_size = 8, mb_free = 1, mb_first = 1, mb_next = Ptr 1, mb_data = 200, mb_units = [1, 0]\<rparr>]\<rparr>"

lemma replicate_2: "replicate 2 (x::nat) = [x, x]"
  by (simp add: numeral_2_eq_2)

lemma two_steps: "link_units (Suc 0) (Suc 0) [x, y] = [1, y]"
  by simp

lemma demo_reach: "pool_reach demo_state {100, 200}"
proof -
  let ?b1 = "\<lparr>mb_size = 4, mb_free = 0, mb_first = 1, mb_next = Null, mb_data = 100, mb_units = [0]\<rparr>"
  let ?s1 = "demo_pool\<lparr>mp_block := Ptr 1, mp_heap := [1 \<mapsto> ?b1]\<rparr>"
  have r0: "pool_reach demo_pool {}" unfolding demo_pool_def by (rule pool_reach.Start) simp_all
  have "alloc_mem (demo_memory 1 100) demo_pool = Ret (Some 100, ?s1)"
    by (simp add: alloc_mem_def demo_pool_def demo_memory_def new_pool_def new_block_def u16_def)
  then have r1: "pool_reach ?s1 {100}"
    by (rule pool_reach.Alloc [OF r0, rotated]) (simp add: fresh_def demo_pool_def new_pool_def)
  have "find_free [1 \<mapsto> ?b1] (Ptr 1) = Some Null" by (subst find_free.simps, simp, subst find_free.simps, simp)
  moreover have "new_block 0 200 2 4 = \<lparr>mb_size = 8, mb_free = 1, mb_first = 1, mb_next = Null, mb_data = 200, mb_units = [1, 0]\<rparr>"
    by (simp add: new_block_def u16_def replicate_2 two_steps)
  ultimately have "alloc_mem (demo_memory 2 200) ?s1 = Ret (Some 200, demo_state)"
    by (simp add: alloc_mem_def demo_state_def demo_pool_def demo_memory_def new_pool_def)
  then have "pool_reach demo_state {200, 100}"
    by (rule pool_reach.Alloc [OF r1, rotated])
      (simp add: fresh_def area_def want_def demo_pool_def new_pool_def demo_memory_def)
  then show ?thesis by (simp add: insert_commute)
qed

lemma demo_inv: "pool_inv demo_state {100, 200} [2, 1]"
proof -
  obtain cs where cs: "pool_inv demo_state {100, 200} cs" using reach_good [OF demo_reach] by (auto simp: pool_good_def)
  have "chain (mp_next demo_state) (mp_block demo_state) [2, 1]" by (simp add: mp_next_def demo_state_def)
  then have "cs = [2, 1]" using chain_unique invD(2) [OF cs] by blast
  then show ?thesis using cs by simp
qed


theorem free_reorders_witness:
  "\<exists>s'. free_mem 100 demo_state = Some s' \<and> pool_inv s' ({100, 200} - {100}) [2] \<and> dom (mp_heap s') = {2}"
proof -
  let ?b1 = "\<lparr>mb_size = 4, mb_free = 0, mb_first = 1, mb_next = Null, mb_data = 100, mb_units = [0]\<rparr>"
  have "area (mp_unit demo_state) ?b1 = {100..<104}" by (simp add: area_def demo_state_def demo_pool_def new_pool_def)
  moreover have "dom (mp_heap demo_state) - {1} = {2}" by (auto simp: demo_state_def)
  ultimately show ?thesis using free_reorders [OF demo_inv, of 100 1 ?b1] by (simp add: demo_state_def)
qed

end
