(* ===== verification/Xy_Buf.thy ===== *)
theory Xy_Buf
  imports Contracts
begin

section \<open>my\_xy3: the data buffer\<close>

text \<open>
  The class \<open>DataBuf\<close> of \<open>cs/my_xy3/databuf.h\<close> and \<open>databuf.cpp\<close>: a block of bytes with a head
  and a tail, into which packets are framed with their length.  An \<open>int\<close> whose sum or double
  overflows is undefined (\<open>Fault\<close>); a conversion to \<open>short\<close> keeps 16 bits; \<open>char\<close> is signed, and
  what is compared with a \<open>sizeof\<close> becomes unsigned, of 64 bits.  \<open>new\<close> does not return when it
  fails (\<open>Raise\<close>): the tests for a null result are never true.
\<close>

subsection \<open>Integers and copies\<close>

definition cint :: "int \<Rightarrow> int option" where
  "cint x = (if - (2 ^ 31) \<le> x \<and> x < 2 ^ 31 then Some x else None)"

definition cshort :: "int \<Rightarrow> int" where
  "cshort x = signed_take_bit 15 x"

definition csize :: "int \<Rightarrow> int" where
  "csize x = x mod 2 ^ 64"

definition short_bytes :: "int \<Rightarrow> byte list" where
  "short_bytes x = [word_of_int x, word_of_int (x div 256)]"

definition short_of :: "byte list \<Rightarrow> int" where
  "short_of bs = cshort (uint (bs ! 0) + 256 * uint (bs ! 1))"

definition copy_out :: "byte list \<Rightarrow> int \<Rightarrow> int \<Rightarrow> byte list option" where
  "copy_out m p n = (if 0 \<le> p \<and> 0 \<le> n \<and> p + n \<le> int (length m) then Some (take (nat n) (drop (nat p) m)) else None)"

definition copy_in :: "byte list \<Rightarrow> int \<Rightarrow> byte list \<Rightarrow> byte list option" where
  "copy_in m p bs = (if 0 \<le> p then mem_write m (nat p) bs else None)"

lemma cint_small [simp]: "- (2 ^ 31) \<le> x \<Longrightarrow> x < 2 ^ 31 \<Longrightarrow> cint x = Some x"
  by (simp add: cint_def)

lemma cshort_small [simp]: "- (2 ^ 15) \<le> x \<Longrightarrow> x < 2 ^ 15 \<Longrightarrow> cshort x = x"
  by (simp add: cshort_def signed_take_bit_int_eq_self)

lemma csize_small [simp]: "0 \<le> x \<Longrightarrow> x < 2 ^ 64 \<Longrightarrow> csize x = x"
  by (simp add: csize_def)

lemma csize_neg:
  assumes "- (2 ^ 64) \<le> x" "x < 0"
  shows "csize x = x + 2 ^ 64"
proof -
  have "csize x = (x + 2 ^ 64) mod 2 ^ 64" unfolding csize_def mod_add_self2 ..
  also have "\<dots> = x + 2 ^ 64" using assms by (intro mod_pos_pos_trivial) simp_all
  finally show ?thesis .
qed

lemma copy_out_at:
  assumes "p = int (length xs)" "n = int (length ys)"
  shows "copy_out (xs @ ys @ zs) p n = Some ys"
  using assms by (simp add: copy_out_def)

lemma copy_in_at:
  assumes "p = int (length xs)" "length ys = length bs"
  shows "copy_in (xs @ ys @ zs) p bs = Some (xs @ bs @ zs)"
  using assms by (simp add: copy_in_def mem_write_def)

subsection \<open>The class\<close>

record data_buf =
  xdata :: "byte list"
  xlen :: int
  xhead :: int
  xtail :: int
  xleft :: int

text \<open>
  The implementation: whether \<open>new\<close> finds that many bytes, what fresh memory holds, and two
  things that the language leaves undefined and the code relies on, a function with a result
  that reaches its end without a return statement, and a plain \<open>delete\<close> of an array.  Where an
  implementation does not promise them the model is \<open>Fault\<close>.
\<close>

record cxx_heap =
  can_new :: "int \<Rightarrow> bool"
  fresh_byte :: byte
  no_return_ok :: bool
  plain_delete_ok :: bool

definition falls_off :: "cxx_heap \<Rightarrow> 'a \<Rightarrow> 'a lres" where
  "falls_off A x = (if no_return_ok A then Ret x else Fault)"

lemma falls_off_Ret [simp]: "falls_off A x = Ret y \<longleftrightarrow> no_return_ok A \<and> y = x" "falls_off A x \<noteq> Raise"
  by (auto simp: falls_off_def)

definition new_bytes :: "cxx_heap \<Rightarrow> int \<Rightarrow> byte list lres" where
  "new_bytes A n = (if n < 0 \<or> \<not> can_new A n then Raise else Ret (replicate (nat n) (fresh_byte A)))"

definition new_data_buf :: "cxx_heap \<Rightarrow> int \<Rightarrow> data_buf lres" where
  "new_data_buf A len = lbind (new_bytes A len) (\<lambda>d.
     Ret \<lparr>xdata = d, xlen = len, xhead = 0, xtail = 0, xleft = len\<rparr>)"

definition moveHead :: "data_buf \<Rightarrow> data_buf option" where
  "moveHead b = do {
     bs \<leftarrow> copy_out (xdata b) (xhead b) (xtail b - xhead b);
     d \<leftarrow> copy_in (xdata b) 0 bs;
     Some (b\<lparr>xdata := d, xtail := xtail b - xhead b, xleft := xleft b + xhead b, xhead := 0\<rparr>) }"

partial_function (option) doubled :: "int \<Rightarrow> int \<Rightarrow> int option" where
  "doubled newLen realNeed =
     (if newLen < realNeed then Option.bind (cint (2 * newLen)) (\<lambda>n. doubled n realNeed) else Some newLen)"

definition expandBuf :: "cxx_heap \<Rightarrow> int \<Rightarrow> data_buf \<Rightarrow> (int \<times> data_buf) lres" where
  "expandBuf A need b =
     fetch (moveHead b) (\<lambda>b1.
     if xleft b1 \<ge> need then Ret (0, b1)
     else
       fetch (cint (2 * xlen b1)) (\<lambda>n.
       fetch (cint (xlen b1 + need)) (\<lambda>realNeed.
       fetch (doubled n realNeed) (\<lambda>newLen.
       lbind (new_bytes A newLen) (\<lambda>new.
       fetch (copy_out (xdata b1) 0 (xlen b1)) (\<lambda>old.
       fetch (copy_in new 0 old) (\<lambda>d.
       Ret (0, b1\<lparr>xdata := d, xlen := newLen, xleft := newLen - xtail b1\<rparr>))))))))"

definition appendRawData :: "cxx_heap \<Rightarrow> byte list \<Rightarrow> data_buf \<Rightarrow> (int \<times> data_buf) lres" where
  "appendRawData A data b = (let len = int (length data) in
     lbind (expandBuf A len b) (\<lambda>(_, b1).
     fetch (copy_in (xdata b1) (xtail b1) data) (\<lambda>d.
     Ret (0, b1\<lparr>xdata := d, xtail := xtail b1 + len, xleft := xleft b1 - len\<rparr>))))"

definition cutData :: "int \<Rightarrow> data_buf \<Rightarrow> int \<times> data_buf" where
  "cutData len b = (if len > xtail b - xhead b then (-1, b) else (0, b\<lparr>xhead := xhead b + len\<rparr>))"

text \<open>The size of the packet and the offset of its body; no offset is the null pointer.\<close>

definition getPack :: "data_buf \<Rightarrow> (int \<times> int option) option" where
  "getPack b = (let valid = xtail b - xhead b in
     if csize valid \<ge> 2 then do {
       c \<leftarrow> copy_out (xdata b) (xhead b) 1;
       if csize valid \<ge> csize (sint (hd c) + 2) then do {
         bs \<leftarrow> copy_out (xdata b) (xhead b) 2;
         Some (short_of bs, Some (xhead b + 2)) }
       else Some (0, None) }
     else Some (0, None))"

definition getDataSize :: "data_buf \<Rightarrow> int" where
  "getDataSize b = xtail b - xhead b"

definition appendPack :: "byte list \<Rightarrow> data_buf \<Rightarrow> (int \<times> data_buf) option" where
  "appendPack data b = (let len = int (length data); head = cshort len; size = cshort (len + 2) in do {
     b1 \<leftarrow> (if size > xleft b then moveHead b else Some b);
     if size > xleft b1 then Some (-1, b1)
     else do {
       d \<leftarrow> copy_in (xdata b1) (xtail b1) (short_bytes head);
       let b2 = b1\<lparr>xdata := d, xtail := xtail b1 + 2, xleft := xleft b1 - 2\<rparr>;
       e \<leftarrow> copy_in (xdata b2) (xtail b2) data;
       Some (0, b2\<lparr>xdata := e, xtail := xtail b2 + len, xleft := xleft b2 - len\<rparr>) } })"

subsection \<open>What a buffer holds\<close>

definition xholds :: "data_buf \<Rightarrow> byte list \<Rightarrow> bool" where
  "xholds b con \<longleftrightarrow> (\<exists>pre post. xdata b = pre @ con @ post \<and> xhead b = int (length pre) \<and>
     xtail b = int (length pre + length con) \<and> xleft b = int (length post) \<and>
     xlen b = int (length pre + length con + length post))"

definition xcontents :: "data_buf \<Rightarrow> byte list" where
  "xcontents b = take (nat (xtail b - xhead b)) (drop (nat (xhead b)) (xdata b))"

lemma xholds_contents: "xholds b con \<Longrightarrow> xcontents b = con"
  by (auto simp: xholds_def xcontents_def)

lemma xholds_size: "xholds b con \<Longrightarrow> xtail b - xhead b = int (length con)"
  by (auto simp: xholds_def)

lemma xholds_len: "xholds b con \<Longrightarrow> int (length con) \<le> xlen b"
  by (auto simp: xholds_def)

lemma new_buf_holds: "new_data_buf A n = Ret b \<Longrightarrow> xholds b [] \<and> xlen b = n"
  by (auto simp: new_data_buf_def new_bytes_def xholds_def split: if_splits)

lemma moveHead_holds:
  assumes "xholds b con"
  obtains b1 where "moveHead b = Some b1" "xholds b1 con" "xhead b1 = 0" "xlen b1 = xlen b"
proof -
  from assms obtain pre post where b: "xdata b = pre @ con @ post" "xhead b = int (length pre)"
    "xtail b = int (length pre + length con)" "xleft b = int (length post)"
    "xlen b = int (length pre + length con + length post)" by (auto simp: xholds_def)
  let ?d = "con @ drop (length con) (xdata b)"
  have "copy_out (xdata b) (xhead b) (xtail b - xhead b) = Some con"
    unfolding b(1) by (rule copy_out_at) (simp_all add: b)
  moreover have "copy_in (xdata b) 0 con = Some ?d" by (simp add: copy_in_def mem_write_def b)
  ultimately have m: "moveHead b =
      Some (b\<lparr>xdata := ?d, xtail := xtail b - xhead b, xleft := xleft b + xhead b, xhead := 0\<rparr>)"
    by (simp add: moveHead_def)
  show ?thesis
  proof (rule that [OF m])
    show "xholds (b\<lparr>xdata := ?d, xtail := xtail b - xhead b, xleft := xleft b + xhead b, xhead := 0\<rparr>) con"
      unfolding xholds_def by (rule exI [of _ "[]"], rule exI [of _ "drop (length con) (xdata b)"])
        (simp add: b, arith)
  qed simp_all
qed

lemma doubled_ge:
  assumes "doubled n r = Some m" "0 < n" "n < 2 ^ 31"
  shows "n \<le> m \<and> r \<le> m \<and> m < 2 ^ 31"
proof -
  have "0 < n \<longrightarrow> n < 2 ^ 31 \<longrightarrow> n \<le> m \<and> r \<le> m \<and> m < 2 ^ 31"
    by (rule doubled.raw_induct [where P = "\<lambda>n r m. 0 < n \<longrightarrow> n < 2 ^ 31 \<longrightarrow> n \<le> m \<and> r \<le> m \<and> m < 2 ^ 31", OF _ assms(1)])
      (fastforce simp: cint_def split: if_splits bind_splits)
  then show ?thesis using assms(2,3) by simp
qed

lemma doubled_total:
  assumes "0 < n" "r \<le> 2 ^ 30" "n \<le> 2 ^ 31 - 1"
  shows "\<exists>m. doubled n r = Some m \<and> n \<le> m \<and> r \<le> m"
  using assms
proof (induction "nat (r - n)" arbitrary: n rule: less_induct)
  case less
  show ?case
  proof (cases "n < r")
    case True
    then have "\<exists>m. doubled (2 * n) r = Some m \<and> 2 * n \<le> m \<and> r \<le> m"
      using less.prems by (intro less.hyps) auto
    with True less.prems show ?thesis by (subst doubled.simps) auto
  qed (subst doubled.simps, simp)
qed

lemma append_holds:
  assumes "xholds b con" "0 < xlen b" "xlen b < 2 ^ 31"
  shows "appendRawData A bs b = Raise \<or> appendRawData A bs b = Fault \<and> 2 ^ 30 \<le> xlen b + int (length bs) \<or>
    (\<exists>b1. appendRawData A bs b = Ret (0, b1) \<and> xholds b1 (con @ bs) \<and> xlen b \<le> xlen b1 \<and> xlen b1 < 2 ^ 31)"
proof -
  obtain b0 where b0: "moveHead b = Some b0" "xholds b0 con" "xhead b0 = 0" "xlen b0 = xlen b"
    by (rule moveHead_holds [OF assms(1)])
  from b0(2,3) obtain post where p: "xdata b0 = con @ post" "xtail b0 = int (length con)"
    "xleft b0 = int (length post)" "xlen b0 = int (length con + length post)" by (auto simp: xholds_def)
  have fill: "\<exists>d. copy_in (con @ rest) (int (length con)) bs = Some d \<and>
      xholds (b1\<lparr>xdata := d, xtail := int (length con) + int (length bs), xleft := int (length rest) - int (length bs)\<rparr>) (con @ bs)"
    if "length bs \<le> length rest" "xhead b1 = 0" "xlen b1 = int (length con + length rest)" for b1 rest
  proof -
    have "copy_in (con @ take (length bs) rest @ drop (length bs) rest) (int (length con)) bs = Some (con @ bs @ drop (length bs) rest)"
      using that(1) by (intro copy_in_at) simp_all
    then show ?thesis using that
      by (auto simp: xholds_def intro!: exI [of _ "drop (length bs) rest"])
  qed
  show ?thesis
  proof (cases "length bs \<le> length post")
    case True
    then show ?thesis using fill [OF True b0(3), unfolded p, OF refl] assms(3)
      by (auto simp: appendRawData_def expandBuf_def b0 p Let_def)
  next
    case False
    note full = False
    show ?thesis
    proof (cases "\<exists>m. cint (2 * xlen b) \<noteq> None \<and> cint (xlen b + int (length bs)) \<noteq> None \<and> doubled (2 * xlen b) (xlen b + int (length bs)) = Some m")
      case False
      then have "2 ^ 30 \<le> xlen b + int (length bs)"
        using doubled_total [of "2 * xlen b" "xlen b + int (length bs)"] assms(2) by (fastforce simp: cint_def split: if_splits)
      moreover have "appendRawData A bs b = Fault" using full False b0 p
        by (auto simp: appendRawData_def expandBuf_def Let_def fetch_def cint_def split: option.splits)
      ultimately show ?thesis by blast
    next
      case True
      then obtain m where m: "doubled (2 * xlen b0) (xlen b0 + int (length bs)) = Some m"
        "cint (2 * xlen b0) = Some (2 * xlen b0)" "cint (xlen b0 + int (length bs)) = Some (xlen b0 + int (length bs))"
        using b0(4) by (auto simp: cint_def split: if_splits)
      moreover have "2 * xlen b0 < 2 ^ 31" using m(2) by (simp add: cint_def split: if_splits)
      ultimately have ge: "2 * xlen b0 \<le> m" "xlen b0 + int (length bs) \<le> m" "m < 2 ^ 31"
        using doubled_ge [OF m(1)] assms(2) b0(4) by auto
      show ?thesis
      proof (cases "can_new A m")
        case True
        let ?rest = "post @ replicate (nat m - length (xdata b0)) (fresh_byte A)"
        let ?b1 = "b0\<lparr>xdata := con @ ?rest, xlen := m, xleft := m - xtail b0\<rparr>"
        have n: "0 \<le> m" "int (length (xdata b0)) \<le> m" using ge(1) assms(2) b0(4) p by auto
        have "new_bytes A m = Ret (replicate (nat m) (fresh_byte A))" using True n by (simp add: new_bytes_def)
        moreover have "copy_out (xdata b0) 0 (xlen b0) = Some (xdata b0)" by (simp add: copy_out_def p)
        moreover have "copy_in (replicate (nat m) (fresh_byte A)) 0 (xdata b0) = Some (con @ ?rest)"
          using n p by (simp add: copy_in_def mem_write_def nat_le_iff le_nat_iff)
        ultimately have e: "expandBuf A (int (length bs)) b = Ret (0, ?b1)"
          using full m assms(2) b0 p by (simp add: expandBuf_def)
        have l: "length bs \<le> length ?rest" "xlen ?b1 = int (length con + length ?rest)" "xhead ?b1 = 0"
          using ge(2) n p b0(3) by auto
        show ?thesis using fill [OF l(1,3,2)] l e p b0(4) ge(1,3) assms(2) n by (auto simp: appendRawData_def Let_def)
      next
        case False
        then show ?thesis using full m assms(2) b0 p by (simp add: appendRawData_def expandBuf_def new_bytes_def Let_def)
      qed
    qed
  qed
qed

lemma cut_holds:
  assumes "xholds b con" "n \<le> length con"
  shows "fst (cutData (int n) b) = 0" "xholds (snd (cutData (int n) b)) (drop n con)" "xlen (snd (cutData (int n) b)) = xlen b"
proof -
  from assms(1) obtain pre post where b: "xdata b = pre @ con @ post" "xhead b = int (length pre)"
    "xtail b = int (length pre + length con)" "xleft b = int (length post)"
    "xlen b = int (length pre + length con + length post)" by (auto simp: xholds_def)
  then show "fst (cutData (int n) b) = 0" "xlen (snd (cutData (int n) b)) = xlen b" using assms(2) by (simp_all add: cutData_def)
  show "xholds (snd (cutData (int n) b)) (drop n con)" unfolding xholds_def
    using b assms(2) by (intro exI [of _ "pre @ take n con"] exI [of _ post]) (simp add: cutData_def)
qed

lemma cut_too_much: "xholds b con \<Longrightarrow> int (length con) < n \<Longrightarrow> cutData n b = (-1, b)"
  by (auto simp: cutData_def xholds_def)

lemma short_bytes_pair: "short_of (short_bytes n) = cshort n"
proof -
  have "uint (word_of_int n :: byte) = n mod 256" "uint (word_of_int (n div 256) :: byte) = n div 256 mod 256"
    by (simp_all add: uint_word_of_int)
  then have "uint (short_bytes n ! 0) + 256 * uint (short_bytes n ! 1) = n mod 2 ^ 16"
    using mod_mult2_eq' [of n 256 256] by (simp add: short_bytes_def)
  then have "uint (short_bytes n ! 0) + 256 * uint (short_bytes n ! 1) = take_bit 16 n" by (simp add: take_bit_eq_mod)
  then show ?thesis unfolding short_of_def cshort_def by (simp add: signed_take_bit_take_bit)
qed

lemma getPack_few: "xholds b con \<Longrightarrow> length con < 2 \<Longrightarrow> getPack b = Some (0, None)"
  by (simp add: getPack_def xholds_size Let_def)

lemma getPack_holds:
  assumes "xholds b (lo # hi # rest)" "length rest < 2 ^ 31"
  shows "getPack b = Some (if csize (sint lo + 2) \<le> int (length rest) + 2 then (short_of [lo, hi], Some (xhead b + 2)) else (0, None))"
proof -
  from assms(1) obtain pre post where b: "xdata b = pre @ (lo # hi # rest) @ post" "xhead b = int (length pre)"
    by (auto simp: xholds_def)
  have "copy_out (xdata b) (xhead b) 1 = Some [lo]" "copy_out (xdata b) (xhead b) 2 = Some [lo, hi]"
    unfolding b(1) using copy_out_at [of "xhead b" pre 1 "[lo]" "hi # rest @ post"]
      copy_out_at [of "xhead b" pre 2 "[lo, hi]" "rest @ post"] by (simp_all add: b)
  then show ?thesis using xholds_size [OF assms(1)] assms(2) by (simp add: getPack_def Let_def)
qed

lemma appendPack_holds:
  assumes "xholds b con" "length data < 2 ^ 15 - 2"
  shows "(\<exists>b1. appendPack data b = Some (-1, b1) \<and> xholds b1 con \<and> xlen b1 = xlen b \<and> xlen b < int (length con + length data) + 2)
    \<or> (\<exists>b1. appendPack data b = Some (0, b1) \<and> xholds b1 (con @ short_bytes (int (length data)) @ data) \<and> xlen b1 = xlen b)"
proof -
  let ?len = "int (length data)"
  have sh: "cshort ?len = ?len" "cshort (?len + 2) = ?len + 2" using assms(2) by simp_all
  have "\<exists>b1. (if ?len + 2 > xleft b then moveHead b else Some b) = Some b1 \<and> xholds b1 con \<and> xlen b1 = xlen b \<and>
    (?len + 2 > xleft b \<longrightarrow> xhead b1 = 0)"
    using moveHead_holds [OF assms(1)] assms(1) by (metis (no_types, lifting))
  then obtain b1 where b1: "(if ?len + 2 > xleft b then moveHead b else Some b) = Some b1" "xholds b1 con" "xlen b1 = xlen b"
    "?len + 2 > xleft b \<Longrightarrow> xhead b1 = 0" by blast
  from b1(2) obtain pre post where p: "xdata b1 = pre @ con @ post" "xhead b1 = int (length pre)"
    "xtail b1 = int (length pre + length con)" "xleft b1 = int (length post)"
    "xlen b1 = int (length pre + length con + length post)" by (auto simp: xholds_def)
  show ?thesis
  proof (cases "?len + 2 > xleft b1")
    case True
    then have "?len + 2 > xleft b" using b1 by (auto split: if_splits)
    then have "appendPack data b = Some (-1, b1)" "xlen b < int (length con + length data) + 2"
      using True b1 p sh by (auto simp: appendPack_def Let_def)
    then show ?thesis using b1(2,3) by blast
  next
    case False
    then have l: "length data + 2 \<le> length post" using p(4) by simp
    let ?h = "short_bytes ?len"
    let ?b2 = "b1\<lparr>xdata := (pre @ con) @ ?h @ drop 2 post, xtail := xtail b1 + 2, xleft := xleft b1 - 2\<rparr>"
    let ?b3 = "?b2\<lparr>xdata := (pre @ con @ ?h) @ data @ drop (length data) (drop 2 post), xtail := xtail ?b2 + ?len, xleft := xleft ?b2 - ?len\<rparr>"
    have "copy_in ((pre @ con) @ take 2 post @ drop 2 post) (xtail b1) ?h = Some ((pre @ con) @ ?h @ drop 2 post)"
      using l p(3) by (intro copy_in_at) (simp_all add: short_bytes_def)
    moreover have "copy_in ((pre @ con @ ?h) @ drop 2 post) (xtail ?b2) data =
        Some ((pre @ con @ ?h) @ data @ drop (length data) (drop 2 post))"
      using l p(3) copy_in_at [of "xtail ?b2" "pre @ con @ ?h" "take (length data) (drop 2 post)" data "drop (length data) (drop 2 post)"]
      by (simp add: short_bytes_def del: drop_drop)
    ultimately have "appendPack data b = Some (0, ?b3)"
      using False b1(1) p(1) sh by (simp add: appendPack_def Let_def)
    moreover have "xholds ?b3 (con @ ?h @ data)" unfolding xholds_def using l p
      by (intro exI [of _ pre] exI [of _ "drop (length data) (drop 2 post)"]) (simp add: short_bytes_def)
    ultimately show ?thesis using b1(3) by (intro disjI2 exI [of _ ?b3]) simp
  qed
qed

subsection \<open>A data buffer is a byte queue\<close>

definition xbuf_ok :: "data_buf \<Rightarrow> bool" where
  "xbuf_ok b \<longleftrightarrow> xholds b (xcontents b) \<and> 0 < xlen b \<and> xlen b < 2 ^ 31"

definition append_raw :: "cxx_heap \<Rightarrow> data_buf \<Rightarrow> byte list \<Rightarrow> data_buf option" where
  "append_raw A b bs = (case appendRawData A bs b of Ret (_, b1) \<Rightarrow> Some b1 | _ \<Rightarrow> None)"

definition cut_head :: "data_buf \<Rightarrow> nat \<Rightarrow> data_buf" where
  "cut_head b n = snd (cutData (int (min n (length (xcontents b)))) b)"

interpretation xq: byte_fifo xcontents "append_raw A" cut_head xbuf_ok for A
proof
  fix b bs b1
  assume b: "xbuf_ok b" and a: "append_raw A b bs = Some b1"
  have h: "xholds b (xcontents b)" "0 < xlen b" "xlen b < 2 ^ 31" using b by (simp_all add: xbuf_ok_def)
  have "xholds b1 (xcontents b @ bs) \<and> xlen b \<le> xlen b1 \<and> xlen b1 < 2 ^ 31" using append_holds [OF h, of A bs] a by (auto simp: append_raw_def)
  then show "xbuf_ok b1 \<and> xcontents b1 = xcontents b @ bs" using xholds_contents [of b1] h(2,3) by (auto simp: xbuf_ok_def)
next
  fix b :: data_buf and n
  assume b: "xbuf_ok b"
  then have h: "xholds b (xcontents b)" "0 < xlen b" "xlen b < 2 ^ 31" by (simp_all add: xbuf_ok_def)
  have "xholds (cut_head b n) (drop (min n (length (xcontents b))) (xcontents b))" "xlen (cut_head b n) = xlen b"
    unfolding cut_head_def by (rule cut_holds [OF h(1)], simp)+
  moreover have "drop (min n (length (xcontents b))) (xcontents b) = drop n (xcontents b)" by (simp add: min_def)
  ultimately show "xbuf_ok (cut_head b n) \<and> xcontents (cut_head b n) = drop n (xcontents b)"
    using xholds_contents h(2,3) by (auto simp: xbuf_ok_def)
qed

end
