(* ===== verification/Xy_Client.thy ===== *)
theory Xy_Client
  imports Xy_Buf
begin

section \<open>my\_xy3: connections\<close>

text \<open>
  The class \<open>Client\<close> of \<open>cs/my_xy3/client.h\<close> and \<open>client.cpp\<close>.  The results of \<open>recv\<close>, \<open>send\<close>,
  \<open>connect\<close> and \<open>fcntl\<close> are arguments.  All callers ignore the values of \<open>tryRecv\<close> and \<open>trySend\<close>,
  which are left out; on the paths that end without a return statement (\<open>falls_off\<close>) the two are
  undefined unless the implementation returns all the same.  \<open>close\<close> is called by the destructor
  only.
\<close>

datatype sock_errno = EINTR | EWOULDBLOCK | EINPROGRESS | Other_sock_errno

datatype recv_result = Received "byte list" | Recv_failed sock_errno

datatype send_result = Sent int | Send_failed sock_errno

record client =
  c_sock :: int
  c_rbuf :: data_buf
  c_wbuf :: data_buf
  c_state :: int
  c_errc :: int
  c_active :: int
  c_hid :: int

text \<open>The constructor leaves \<open>_active\<close> and \<open>_hid\<close> as they are in memory.\<close>

definition new_client :: "cxx_heap \<Rightarrow> int \<Rightarrow> client lres" where
  "new_client A junk =
     lbind (new_data_buf A 1024) (\<lambda>r.
     lbind (new_data_buf A 1024) (\<lambda>w.
     Ret \<lparr>c_sock = -1, c_rbuf = r, c_wbuf = w, c_state = 0, c_errc = 0, c_active = junk, c_hid = junk\<rparr>))"

definition doClose :: "client \<Rightarrow> client" where
  "doClose c = c\<lparr>c_state := 0\<rparr>"

definition tryConnect :: "recv_result \<Rightarrow> client \<Rightarrow> int \<times> client" where
  "tryConnect r c =
     (if c_state c = 2 then (1, c)
      else if c_state c \<noteq> 1 then (-1, c)
      else case r of
        Recv_failed e \<Rightarrow> if e \<noteq> EWOULDBLOCK \<and> e \<noteq> EINTR then (0, doClose c) else (1, c\<lparr>c_state := 2\<rparr>)
      | Received bs \<Rightarrow> (1, c\<lparr>c_state := 2\<rparr>))"

text \<open>Every branch of the loop in \<open>tryRecv\<close> leaves it in the first round.\<close>

definition tryRecv :: "cxx_heap \<Rightarrow> recv_result \<Rightarrow> client \<Rightarrow> client lres" where
  "tryRecv A r c = (case r of
     Received bs \<Rightarrow>
       if bs = [] then falls_off A (doClose c)
       else lbind (appendRawData A bs (c_rbuf c)) (\<lambda>(_, b). Ret (c\<lparr>c_rbuf := b\<rparr>))
   | Recv_failed e \<Rightarrow> if e \<noteq> EINTR \<and> e \<noteq> EWOULDBLOCK then Ret (doClose c) else falls_off A c)"

definition trySend :: "cxx_heap \<Rightarrow> (byte list \<Rightarrow> send_result) \<Rightarrow> client \<Rightarrow> client option" where
  "trySend A send c = (let sz = getDataSize (c_wbuf c) in
     if sz = 0 then Some c
     else do {
       bs \<leftarrow> copy_out (xdata (c_wbuf c)) (xhead (c_wbuf c)) sz;
       case send bs of
         Send_failed e \<Rightarrow>
           if e \<noteq> EWOULDBLOCK \<and> e \<noteq> EINTR \<and> e \<noteq> EINPROGRESS then Some (doClose c)
           else if no_return_ok A then Some c else None
       | Sent n \<Rightarrow> Some (c\<lparr>c_wbuf := snd (cutData n (c_wbuf c))\<rparr>) })"

text \<open>\<open>sock\<close> is the result of \<open>socket\<close>, \<open>nb\<close> whether \<open>fcntl\<close> succeeds, \<open>err\<close> the error of \<open>connect\<close>.\<close>

definition doConnect :: "int \<Rightarrow> bool \<Rightarrow> sock_errno option \<Rightarrow> client \<Rightarrow> (int \<times> client) lres" where
  "doConnect sock nb err c = (let c1 = c\<lparr>c_sock := sock\<rparr> in
     if sock = -1 then Raise
     else if \<not> nb then Raise
     else if err \<noteq> None \<and> err \<noteq> Some EINPROGRESS then Raise
     else Ret (0, c1\<lparr>c_state := 1\<rparr>))"

definition assign_sock :: "bool \<Rightarrow> int \<Rightarrow> client \<Rightarrow> client lres" where
  "assign_sock nb sock c = (if nb then Ret ((doClose c)\<lparr>c_sock := sock, c_state := 2\<rparr>) else Raise)"

definition client_process :: "cxx_heap \<Rightarrow> recv_result \<Rightarrow> (byte list \<Rightarrow> send_result) \<Rightarrow> client \<Rightarrow> (int \<times> client) lres" where
  "client_process A r send c =
     (if c_state c = 1 then Ret (0, snd (tryConnect r c))
      else if c_state c = 2 then
        lbind (tryRecv A r c) (\<lambda>c1. fetch (trySend A send c1) (\<lambda>c2. Ret (0, c2)))
      else Ret (0, c))"

definition doSend :: "byte list \<Rightarrow> client \<Rightarrow> (int \<times> client) option" where
  "doSend data c = do {
     (r, b) \<leftarrow> appendPack data (c_wbuf c);
     Some (r, c\<lparr>c_wbuf := b\<rparr>) }"

text \<open>The size of the packet and its copy.\<close>

definition doRecv :: "cxx_heap \<Rightarrow> client \<Rightarrow> (int \<times> byte list option \<times> client) lres" where
  "doRecv A c =
     fetch (getPack (c_rbuf c)) (\<lambda>(sz, p).
     case p of
       None \<Rightarrow> Ret (sz, None, c)
     | Some q \<Rightarrow>
         lbind (new_bytes A sz) (\<lambda>_.
         fetch (copy_out (xdata (c_rbuf c)) q sz) (\<lambda>pack.
         Ret (sz, Some pack, c\<lparr>c_rbuf := snd (cutData (sz + 2) (c_rbuf c))\<rparr>))))"

subsection \<open>Framing\<close>

definition framed :: "byte list \<Rightarrow> byte list" where
  "framed p = short_bytes (int (length p)) @ p"

abbreviation packets :: "byte list list \<Rightarrow> byte list" where
  "packets ps \<equiv> concat (map framed ps)"

text \<open>A packet that the receiver finds: its length is one byte whose sign bit is clear.\<close>

definition fits :: "byte list \<Rightarrow> bool" where
  "fits p \<longleftrightarrow> length p < 128"

definition conn_ok :: "client \<Rightarrow> bool" where
  "conn_ok c \<longleftrightarrow> xbuf_ok (c_rbuf c) \<and> xbuf_ok (c_wbuf c)"

lemma conn_okD:
  "conn_ok c \<Longrightarrow> xholds (c_rbuf c) (xcontents (c_rbuf c))" "conn_ok c \<Longrightarrow> 0 < xlen (c_rbuf c) \<and> xlen (c_rbuf c) < 2 ^ 31"
  "conn_ok c \<Longrightarrow> xholds (c_wbuf c) (xcontents (c_wbuf c))" "conn_ok c \<Longrightarrow> 0 < xlen (c_wbuf c) \<and> xlen (c_wbuf c) < 2 ^ 31"
  by (simp_all add: conn_ok_def xbuf_ok_def)

lemma xbuf_okI: "xholds b con \<Longrightarrow> 0 < xlen b \<Longrightarrow> xlen b < 2 ^ 31 \<Longrightarrow> xbuf_ok b"
  by (simp add: xbuf_ok_def xholds_contents)

lemma conn_bufs [simp]:
  "conn_ok (c\<lparr>c_rbuf := b\<rparr>) \<longleftrightarrow> xbuf_ok b \<and> xbuf_ok (c_wbuf c)"
  "conn_ok (c\<lparr>c_wbuf := b\<rparr>) \<longleftrightarrow> xbuf_ok (c_rbuf c) \<and> xbuf_ok b"
  "conn_ok (doClose c) \<longleftrightarrow> conn_ok c"
  by (simp_all add: conn_ok_def doClose_def)

lemma new_client_ok: "new_client A junk = Ret c \<Longrightarrow> conn_ok c \<and> xcontents (c_rbuf c) = [] \<and> xcontents (c_wbuf c) = []"
  using new_buf_holds xholds_contents by (fastforce simp: new_client_def lbind_eq_Ret conn_ok_def intro: xbuf_okI)

lemma tryRecv_ok:
  assumes "conn_ok c" "bs \<noteq> []"
  shows "tryRecv A (Received bs) c = Raise \<or> tryRecv A (Received bs) c = Fault \<and> 2 ^ 30 \<le> xlen (c_rbuf c) + int (length bs) \<or>
    (\<exists>c1. tryRecv A (Received bs) c = Ret c1 \<and> conn_ok c1 \<and> xcontents (c_rbuf c1) = xcontents (c_rbuf c) @ bs \<and> c_wbuf c1 = c_wbuf c)"
proof -
  have w: "xbuf_ok (c_wbuf c)" using assms by (simp add: conn_ok_def)
  note r = conn_okD(2) [OF assms(1)]
  show ?thesis
    using append_holds [OF conn_okD(1) [OF assms(1)], of A bs] r w assms(2)
    by (auto simp: tryRecv_def xholds_contents xbuf_okI [OF _ less_le_trans])
qed

lemma tryRecv_conn:
  assumes "conn_ok c" "tryRecv A (Received bs) c = Ret d"
  shows "conn_ok d \<and> xcontents (c_rbuf d) = xcontents (c_rbuf c) @ bs \<and> c_wbuf d = c_wbuf c"
proof (cases "bs = []")
  case True
  then have "d = doClose c" using assms(2) by (simp add: tryRecv_def)
  then show ?thesis using assms(1) True by (simp add: conn_ok_def doClose_def)
next
  case False
  then show ?thesis using tryRecv_ok [OF assms(1) False, of A] assms(2) by auto
qed

lemma trySend_ok:
  assumes "conn_ok c" "trySend A send c = Some c1" "\<And>n. send (xcontents (c_wbuf c)) = Sent n \<Longrightarrow> 0 \<le> n \<and> n \<le> int (length (xcontents (c_wbuf c)))"
  shows "\<exists>n. conn_ok c1 \<and> xcontents (c_wbuf c1) = drop n (xcontents (c_wbuf c)) \<and>
    c_rbuf c1 = c_rbuf c \<and> n \<le> length (xcontents (c_wbuf c)) \<and>
    n = (case send (xcontents (c_wbuf c)) of Sent k \<Rightarrow> if xcontents (c_wbuf c) = [] then 0 else nat k | Send_failed e \<Rightarrow> 0)"
proof -
  let ?w = "c_wbuf c" and ?con = "xcontents (c_wbuf c)"
  note h = conn_okD(3) [OF assms(1)]
  have sz: "getDataSize ?w = int (length ?con)" using xholds_size [OF h] by (simp add: getDataSize_def)
  obtain pre post where b: "xdata ?w = pre @ ?con @ post" "xhead ?w = int (length pre)" using h by (auto simp: xholds_def)
  have out: "copy_out (xdata ?w) (xhead ?w) (int (length ?con)) = Some ?con"
    by (subst b(1)) (rule copy_out_at, simp_all add: b(2))
  show ?thesis
  proof (cases "?con = []")
    case True
    then show ?thesis using assms(1,2) sz by (auto simp: trySend_def Let_def split: send_result.split)
  next
    case ne: False
    show ?thesis
    proof (cases "send ?con")
      case (Sent k)
      then have k: "0 \<le> k" "nat k \<le> length ?con" using assms(3) [OF Sent] by auto
      let ?b = "snd (cutData k ?w)"
      have "xholds ?b (drop (nat k) ?con)" "xlen ?b = xlen ?w" using cut_holds [OF h k(2)] k(1) by simp_all
      then have "xbuf_ok ?b" "xcontents ?b = drop (nat k) ?con"
        using xholds_contents xbuf_okI conn_okD(4) [OF assms(1)] by simp_all
      then show ?thesis using Sent ne sz out k assms(1,2) by (auto simp: trySend_def Let_def conn_ok_def)
    next
      case (Send_failed e)
      then have "c1 = c \<or> c1 = doClose c" using ne sz out assms(2) by (auto simp: trySend_def Let_def split: if_splits)
      then show ?thesis using assms(1) Send_failed by (auto simp: doClose_def conn_ok_def)
    qed
  qed
qed

lemma trySend_sent:
  assumes "conn_ok c" "n \<le> length (xcontents (c_wbuf c))" "trySend A (\<lambda>_. Sent (int n)) c = Some c1"
  shows "conn_ok c1 \<and> c_rbuf c1 = c_rbuf c \<and> xcontents (c_wbuf c1) = drop n (xcontents (c_wbuf c))"
  using trySend_ok [OF assms(1,3)] assms(2) by (auto split: if_splits)

lemma doSend_ok:
  assumes "conn_ok c" "fits p"
  obtains r c1 where "doSend p c = Some (r, c1)" "conn_ok c1" "c_rbuf c1 = c_rbuf c" "r = 0 \<or> r = -1"
    "xcontents (c_wbuf c1) = xcontents (c_wbuf c) @ (if r = 0 then framed p else [])"
proof -
  have l: "length p < 2 ^ 15 - 2" using assms(2) by (simp add: fits_def)
  have r: "xbuf_ok (c_rbuf c)" using assms(1) by (simp add: conn_ok_def)
  obtain k b1 where b1: "appendPack p (c_wbuf c) = Some (k, b1)" "k = 0 \<or> k = -1" "xlen b1 = xlen (c_wbuf c)"
    "xholds b1 (xcontents (c_wbuf c) @ (if k = 0 then framed p else []))"
    using appendPack_holds [OF conn_okD(3) [OF assms(1)] l] by (auto simp: framed_def)
  show ?thesis
    by (rule that [of k "c\<lparr>c_wbuf := b1\<rparr>"])
      (use b1 conn_okD(4) [OF assms(1)] r in \<open>simp_all add: doSend_def xholds_contents xbuf_okI\<close>)
qed

text \<open>A header of a packet that fits, as the receiver reads it.\<close>

lemma fits_header:
  assumes "fits p"
  shows "csize (sint (word_of_int (int (length p)) :: byte) + 2) = int (length p) + 2"
    "short_of (short_bytes (int (length p))) = int (length p)"
proof -
  have "sint (word_of_int (int (length p)) :: byte) = int (length p)"
    unfolding sint_sbintrunc' using assms by (simp add: fits_def signed_take_bit_int_eq_self)
  then show "csize (sint (word_of_int (int (length p)) :: byte) + 2) = int (length p) + 2"
    using assms by (simp add: fits_def)
  show "short_of (short_bytes (int (length p))) = int (length p)"
    unfolding short_bytes_pair using assms by (simp add: fits_def)
qed

lemma doRecv_packet:
  assumes "conn_ok c" "xcontents (c_rbuf c) = framed p @ rest" "fits p" "can_new A (int (length p))"
  obtains c1 where "doRecv A c = Ret (int (length p), Some p, c1)" "conn_ok c1" "c_wbuf c1 = c_wbuf c"
    "xcontents (c_rbuf c1) = rest"
proof -
  let ?r = "c_rbuf c" and ?n = "int (length p)"
  let ?lo = "word_of_int ?n :: byte" and ?hi = "word_of_int (?n div 256) :: byte"
  have h: "xholds ?r (?lo # ?hi # p @ rest)" using conn_okD(1) [OF assms(1)] assms(2) by (simp add: framed_def short_bytes_def)
  have len: "length (p @ rest) < 2 ^ 31" using xholds_len [OF h] conn_okD(2) [OF assms(1)] by simp
  have g: "getPack ?r = Some (?n, Some (xhead ?r + 2))"
    using getPack_holds [OF h len] fits_header [OF assms(3)] by (simp add: short_bytes_def)
  obtain pre post where b: "xdata ?r = (pre @ [?lo, ?hi]) @ p @ rest @ post" "xhead ?r = int (length pre)"
    using h by (auto simp: xholds_def)
  have out: "copy_out (xdata ?r) (xhead ?r + 2) ?n = Some p"
    unfolding b(1) by (rule copy_out_at) (simp_all add: b(2))
  let ?b = "snd (cutData (?n + 2) ?r)"
  have cut: "xholds ?b rest" "xlen ?b = xlen ?r" using cut_holds [OF h, of "length p + 2"] by (simp_all add: add.commute)
  show ?thesis
  proof (rule that [of "c\<lparr>c_rbuf := ?b\<rparr>"])
    show "doRecv A c = Ret (?n, Some p, c\<lparr>c_rbuf := ?b\<rparr>)" using assms(4) g out by (simp add: doRecv_def new_bytes_def)
    show "conn_ok (c\<lparr>c_rbuf := ?b\<rparr>)" using cut assms(1) conn_okD(2) [OF assms(1)] by (simp add: conn_ok_def xbuf_okI)
  qed (use cut in \<open>simp_all add: xholds_contents\<close>)
qed

lemma doRecv_oom:
  assumes "conn_ok c" "xcontents (c_rbuf c) = framed p @ rest" "fits p" "\<not> can_new A (int (length p))"
  shows "doRecv A c = Raise"
proof -
  let ?n = "int (length p)"
  have h: "xholds (c_rbuf c) (word_of_int ?n # word_of_int (?n div 256) # p @ rest)"
    using conn_okD(1) [OF assms(1)] assms(2) by (simp add: framed_def short_bytes_def)
  have "length (p @ rest) < 2 ^ 31" using xholds_len [OF h] conn_okD(2) [OF assms(1)] by simp
  from getPack_holds [OF h this] have "getPack (c_rbuf c) = Some (?n, Some (xhead (c_rbuf c) + 2))"
    using fits_header [OF assms(3)] by (simp add: short_bytes_def)
  then show ?thesis using assms(4) by (simp add: doRecv_def new_bytes_def)
qed

lemma doRecv_none:
  assumes "conn_ok c" "fits p" "xcontents (c_rbuf c) @ later = framed p" "later \<noteq> []"
  shows "doRecv A c = Ret (0, None, c)"
proof (cases "length (xcontents (c_rbuf c)) < 2")
  case True
  then show ?thesis using getPack_few [OF conn_okD(1) [OF assms(1)]] by (simp add: doRecv_def)
next
  case False
  then obtain lo hi rest where con: "xcontents (c_rbuf c) = lo # hi # rest" by (cases "xcontents (c_rbuf c)" rule: remdups_adj.cases) auto
  then have e: "lo = word_of_int (int (length p))" "p = rest @ later" using assms(3) by (auto simp: framed_def short_bytes_def)
  have h: "xholds (c_rbuf c) (lo # hi # rest)" using conn_okD(1) [OF assms(1)] con by simp
  have "length rest < 2 ^ 31" using xholds_len [OF h] conn_okD(2) [OF assms(1)] by simp
  from getPack_holds [OF h this] have "getPack (c_rbuf c) = Some (0, None)"
    using fits_header(1) [OF assms(2)] assms(4) e by simp
  then show ?thesis by (simp add: doRecv_def)
qed

text \<open>A length from 128 to 253 has its sign bit set: the packet is never complete.\<close>

lemma doRecv_long:
  assumes "conn_ok c" "xcontents (c_rbuf c) = framed p @ rest" "128 \<le> length p" "length p < 254"
  shows "doRecv A c = Ret (0, None, c)"
proof -
  let ?n = "int (length p)"
  let ?lo = "word_of_int ?n :: byte"
  have h: "xholds (c_rbuf c) (?lo # word_of_int (?n div 256) # p @ rest)"
    using conn_okD(1) [OF assms(1)] assms(2) by (simp add: framed_def short_bytes_def)
  have l: "length (p @ rest) < 2 ^ 31" using xholds_len [OF h] conn_okD(2) [OF assms(1)] by simp
  have "(?n + 128) mod 256 = (?n - 128 + 256) mod 256" by (rule arg_cong [where f = "\<lambda>x. x mod 256"]) simp
  also have "\<dots> = ?n - 128" unfolding mod_add_self2 using assms(3,4) by (intro mod_pos_pos_trivial) simp_all
  finally have m: "(?n + 128) mod 256 = ?n - 128" .
  have "sint ?lo = ?n - 256" unfolding int_word_sint using m by simp
  then have "csize (sint ?lo + 2) = ?n - 254 + 2 ^ 64" using assms(3,4) csize_neg [of "?n - 254"] by simp
  from getPack_holds [OF h l] this have "getPack (c_rbuf c) = Some (0, None)"
    using l assms(3) by simp
  then show ?thesis by (simp add: doRecv_def)
qed

text \<open>
  A header whose first byte promises what the buffer holds, and whose size is negative or
  promises more.
\<close>

lemma doRecv_bad_header:
  assumes "conn_ok c" "xcontents (c_rbuf c) = lo # hi # rest" "0 \<le> sint lo" "sint lo \<le> int (length rest)"
  shows "short_of [lo, hi] < 0 \<Longrightarrow> doRecv A c = Raise"
    "int (length rest) < short_of [lo, hi] \<Longrightarrow> can_new A (short_of [lo, hi]) \<Longrightarrow>
     doRecv A c = Fault \<or> (\<exists>pack. doRecv A c = Ret (short_of [lo, hi], Some pack, c))"
proof -
  let ?r = "c_rbuf c" and ?n = "short_of [lo, hi]"
  have h: "xholds ?r (lo # hi # rest)" using conn_okD(1) [OF assms(1)] assms(2) by simp
  have "length rest < 2 ^ 31" using xholds_len [OF h] conn_okD(2) [OF assms(1)] by simp
  moreover have "csize (sint lo + 2) \<le> int (length rest) + 2"
    using assms(3,4) sint_lt [of lo] by simp
  ultimately have g: "getPack ?r = Some (?n, Some (xhead ?r + 2))" using getPack_holds [OF h] by simp
  then show "?n < 0 \<Longrightarrow> doRecv A c = Raise" by (simp add: doRecv_def new_bytes_def)
  assume n: "int (length rest) < ?n" "can_new A ?n"
  have "cutData (?n + 2) ?r = (-1, ?r)" using cut_too_much [OF h] n(1) by simp
  then show "doRecv A c = Fault \<or> (\<exists>pack. doRecv A c = Ret (?n, Some pack, c))"
    using g n by (cases "copy_out (xdata ?r) (xhead ?r + 2) ?n") (simp_all add: doRecv_def new_bytes_def)
qed

end
