(* ===== verification/Xy_Peers.thy ===== *)
theory Xy_Peers
  imports Xy_Client
begin

section \<open>my\_xy3: two connected peers\<close>

text \<open>
  A sender and a receiver with a byte stream between them, which delivers what it was given in
  order and in pieces of any size.  \<open>l_sent\<close> and \<open>l_got\<close> record the packets that \<open>doSend\<close> took
  and that \<open>doRecv\<close> returned.
\<close>

record peers =
  l_src :: client
  l_dst :: client
  l_wire :: "byte list"
  l_sent :: "byte list list"
  l_got :: "byte list list"

definition new_peer :: "cxx_heap \<Rightarrow> int \<Rightarrow> int \<Rightarrow> client lres" where
  "new_peer A junk sock = lbind (new_client A junk) (assign_sock True sock)"

inductive peers_reach :: "cxx_heap \<Rightarrow> peers \<Rightarrow> bool" for A where
  Start: "new_peer A junk s = Ret c \<Longrightarrow> new_peer A junk' s' = Ret d \<Longrightarrow>
    peers_reach A \<lparr>l_src = c, l_dst = d, l_wire = [], l_sent = [], l_got = []\<rparr>"
| Send: "peers_reach A L \<Longrightarrow> fits p \<Longrightarrow> doSend p (l_src L) = Some (r, c) \<Longrightarrow>
    peers_reach A (L\<lparr>l_src := c, l_sent := l_sent L @ (if r = 0 then [p] else [])\<rparr>)"
| Push: "peers_reach A L \<Longrightarrow> n \<le> length (xcontents (c_wbuf (l_src L))) \<Longrightarrow> trySend A (\<lambda>_. Sent (int n)) (l_src L) = Some c \<Longrightarrow>
    peers_reach A (L\<lparr>l_src := c, l_wire := l_wire L @ take n (xcontents (c_wbuf (l_src L)))\<rparr>)"
| Push_later: "peers_reach A L \<Longrightarrow> trySend A (\<lambda>_. Send_failed e) (l_src L) = Some c \<Longrightarrow> peers_reach A (L\<lparr>l_src := c\<rparr>)"
| Pull: "peers_reach A L \<Longrightarrow> l_wire L = bs @ rest \<Longrightarrow> bs \<noteq> [] \<Longrightarrow> length bs \<le> 1024 \<Longrightarrow> tryRecv A (Received bs) (l_dst L) = Ret d \<Longrightarrow>
    peers_reach A (L\<lparr>l_dst := d, l_wire := rest\<rparr>)"
| Pull_later: "peers_reach A L \<Longrightarrow> tryRecv A (Recv_failed e) (l_dst L) = Ret d \<Longrightarrow> peers_reach A (L\<lparr>l_dst := d\<rparr>)"
| Take: "peers_reach A L \<Longrightarrow> doRecv A (l_dst L) = Ret (sz, r, d) \<Longrightarrow>
    peers_reach A (L\<lparr>l_dst := d, l_got := l_got L @ (case r of None \<Rightarrow> [] | Some p \<Rightarrow> [p])\<rparr>)"

definition peers_inv :: "peers \<Rightarrow> bool" where
  "peers_inv L \<longleftrightarrow> conn_ok (l_src L) \<and> conn_ok (l_dst L) \<and> list_all fits (l_sent L) \<and>
     (\<exists>ps. l_sent L = l_got L @ ps \<and>
       packets ps = xcontents (c_rbuf (l_dst L)) @ l_wire L @ xcontents (c_wbuf (l_src L)))"

lemma new_peer_ok: "new_peer A junk s = Ret c \<Longrightarrow> conn_ok c \<and> xcontents (c_rbuf c) = [] \<and> xcontents (c_wbuf c) = []"
  using new_client_ok by (fastforce simp: new_peer_def lbind_eq_Ret assign_sock_def conn_ok_def doClose_def)

text \<open>The front of a stream of packets that fit: either a whole packet or a part of one.\<close>

lemma front_cases:
  assumes "packets ps = con @ rest"
  obtains "ps = []" "con = []" "rest = []"
  | p qs us where "ps = p # qs" "con = framed p @ us" "packets qs = us @ rest"
  | p qs us where "ps = p # qs" "con @ us = framed p" "us \<noteq> []"
proof (cases ps)
  case Nil
  then show ?thesis using assms that(1) by simp
next
  case (Cons p qs)
  then have "framed p @ packets qs = con @ rest" using assms by simp
  then obtain us where "framed p = con @ us \<and> us @ packets qs = rest \<or> framed p @ us = con \<and> packets qs = us @ rest"
    by (auto simp: append_eq_append_conv2)
  then show ?thesis using that(2) [of p qs us] that(2) [of p qs "[]"] that(3) [of p qs us] Cons
    by (cases "us = []") auto
qed

lemma take_step:
  assumes "conn_ok d" "list_all fits ps" "packets ps = xcontents (c_rbuf d) @ rest"
  shows "doRecv A d = Raise \<or> (doRecv A d = Ret (0, None, d) \<and> (rest = [] \<longrightarrow> ps = [])) \<or>
    (\<exists>p qs d1. doRecv A d = Ret (int (length p), Some p, d1) \<and> ps = p # qs \<and> conn_ok d1 \<and> c_wbuf d1 = c_wbuf d \<and>
       packets qs = xcontents (c_rbuf d1) @ rest)"
proof (rule front_cases [OF assms(3)])
  assume "ps = []" "xcontents (c_rbuf d) = []"
  then show ?thesis using getPack_few [OF conn_okD(1) [OF assms(1)]] by (simp add: doRecv_def)
next
  fix p qs us
  assume a: "ps = p # qs" "xcontents (c_rbuf d) = framed p @ us" "packets qs = us @ rest"
  then have f: "fits p" using assms(2) by simp
  show ?thesis
  proof (cases "can_new A (int (length p))")
    case True
    obtain d1 where "doRecv A d = Ret (int (length p), Some p, d1)" "conn_ok d1" "c_wbuf d1 = c_wbuf d" "xcontents (c_rbuf d1) = us"
      by (rule doRecv_packet [OF assms(1) a(2) f True])
    then show ?thesis using a by auto
  next
    case False
    then show ?thesis using doRecv_oom [OF assms(1) a(2) f] by simp
  qed
next
  fix p qs us
  assume a: "ps = p # qs" "xcontents (c_rbuf d) @ us = framed p" "us \<noteq> []"
  then have "doRecv A d = Ret (0, None, d)" using doRecv_none [OF assms(1) _ a(2,3)] assms(2) by simp
  moreover have "rest \<noteq> []"
  proof
    assume "rest = []"
    then have "length (packets ps) < length (framed p)" using assms(3) a(2,3) by (metis append.right_neutral length_append less_add_same_cancel1 length_greater_0_conv)
    then show False using a(1) by simp
  qed
  ultimately show ?thesis by blast
qed

lemma peers_reach_inv: "peers_reach A L \<Longrightarrow> peers_inv L"
proof (induction rule: peers_reach.induct)
  case (Start junk s c junk' s' d)
  then show ?case using new_peer_ok by (auto simp: peers_inv_def)
next
  case (Send L p r c)
  then obtain ps where i: "conn_ok (l_src L)" "conn_ok (l_dst L)" "list_all fits (l_sent L)" "l_sent L = l_got L @ ps"
    "packets ps = xcontents (c_rbuf (l_dst L)) @ l_wire L @ xcontents (c_wbuf (l_src L))" by (auto simp: peers_inv_def)
  have "conn_ok c \<and> xcontents (c_wbuf c) = xcontents (c_wbuf (l_src L)) @ (if r = 0 then framed p else [])"
    by (rule doSend_ok [OF i(1) Send.hyps(2)]) (use Send.hyps(3) in simp)
  then show ?case using i Send.hyps(2)
    by (auto simp: peers_inv_def intro!: exI [of _ "ps @ (if r = 0 then [p] else [])"])
next
  case (Push L n c)
  then obtain ps where i: "conn_ok (l_src L)" "conn_ok (l_dst L)" "list_all fits (l_sent L)" "l_sent L = l_got L @ ps"
    "packets ps = xcontents (c_rbuf (l_dst L)) @ l_wire L @ xcontents (c_wbuf (l_src L))" by (auto simp: peers_inv_def)
  have "conn_ok c \<and> xcontents (c_wbuf c) = drop n (xcontents (c_wbuf (l_src L)))"
    using trySend_sent [OF i(1) Push.hyps(2,3)] by simp
  then show ?case using i by (auto simp: peers_inv_def)
next
  case (Push_later L e c)
  then have "conn_ok c" "xcontents (c_wbuf c) = xcontents (c_wbuf (l_src L))"
    using trySend_ok [OF _ Push_later.hyps(2)] by (auto simp: peers_inv_def)
  then show ?case using Push_later.IH by (auto simp: peers_inv_def)
next
  case (Pull L bs rest d)
  then have "conn_ok d" "xcontents (c_rbuf d) = xcontents (c_rbuf (l_dst L)) @ bs"
    using tryRecv_conn [of "l_dst L" A bs] by (auto simp: peers_inv_def)
  then show ?case using Pull.IH Pull.hyps(2) by (auto simp: peers_inv_def)
next
  case (Pull_later L e d)
  then have "d = l_dst L \<or> d = doClose (l_dst L)" by (auto simp: tryRecv_def split: if_splits)
  then have "conn_ok d = conn_ok (l_dst L)" "c_rbuf d = c_rbuf (l_dst L)" by (auto simp: conn_ok_def doClose_def)
  then show ?case using Pull_later.IH by (auto simp: peers_inv_def)
next
  case (Take L sz r d)
  then obtain ps where i: "conn_ok (l_src L)" "conn_ok (l_dst L)" "list_all fits (l_sent L)" "l_sent L = l_got L @ ps"
    "packets ps = xcontents (c_rbuf (l_dst L)) @ l_wire L @ xcontents (c_wbuf (l_src L))" by (auto simp: peers_inv_def)
  have "list_all fits ps" using i(3,4) by simp
  from take_step [OF i(2) this i(5), of A] Take.hyps(2) i show ?case by (auto simp: peers_inv_def)
qed

text \<open>
  C5. Packets of less than 128 bytes arrive whole, once and in the order in which they were
  sent, however the stream cuts them: what \<open>doRecv\<close> has returned is always a prefix of what
  \<open>doSend\<close> has accepted, \<open>doRecv\<close> is never undefined, and when everything has been transferred and
  \<open>doRecv\<close> finds nothing more, everything has arrived.  This is for a connection of two assigned
  sockets on which nothing but these packets is sent and on which every step taken so far has
  returned: memory sufficed, and where a \<open>recv\<close> or \<open>send\<close> would have blocked or was interrupted
  (the steps \<open>Pull_later\<close> and \<open>Push_later\<close>) the implementation returns from \<open>tryRecv\<close> and
  \<open>trySend\<close> although they end there without a return statement; by the letter of the language such
  a step is undefined, and it is no step when \<open>no_return_ok\<close> is false.
\<close>

theorem packets_delivered:
  assumes "peers_reach A L"
  shows "(\<exists>ps. l_sent L = l_got L @ ps) \<and> doRecv A (l_dst L) \<noteq> Fault \<and>
    (l_wire L = [] \<and> xcontents (c_wbuf (l_src L)) = [] \<and> (\<exists>sz d. doRecv A (l_dst L) = Ret (sz, None, d)) \<longrightarrow> l_got L = l_sent L)"
proof -
  obtain ps where i: "conn_ok (l_dst L)" "list_all fits (l_sent L)" "l_sent L = l_got L @ ps"
    "packets ps = xcontents (c_rbuf (l_dst L)) @ l_wire L @ xcontents (c_wbuf (l_src L))"
    using peers_reach_inv [OF assms] by (auto simp: peers_inv_def)
  have "list_all fits ps" using i(2,3) by simp
  from take_step [OF i(1) this i(4), of A] i(3) show ?thesis by auto
qed

text \<open>
  C40. A packet of 128 to 253 bytes, which \<open>doSend\<close> accepts, is never read: as soon as it is at
  the front, \<open>doRecv\<close> finds nothing, whatever arrives after it.
\<close>

theorem long_packet_blocks:
  assumes "conn_ok c" "xcontents (c_rbuf c) = framed p @ rest" "128 \<le> length p" "length p < 254"
  shows "doRecv A c = Ret (0, None, c) \<and> (tryRecv A (Received bs) c = Ret d \<longrightarrow> doRecv A d = Ret (0, None, d))"
proof -
  have "doRecv A d = Ret (0, None, d)" if "tryRecv A (Received bs) c = Ret d"
  proof (rule doRecv_long)
    show "conn_ok d" using tryRecv_conn [OF assms(1) that] by simp
    show "xcontents (c_rbuf d) = framed p @ rest @ bs" using tryRecv_conn [OF assms(1) that] assms(2) by simp
  qed (use assms in auto)
  then show ?thesis using doRecv_long [OF assms] by blast
qed

subsection \<open>Examples\<close>

definition xy_heap :: cxx_heap where
  "xy_heap = \<lparr>can_new = \<lambda>_. True, fresh_byte = 0, no_return_ok = True, plain_delete_ok = True\<rparr>"

definition xy_buf :: data_buf where
  "xy_buf = \<lparr>xdata = replicate 1024 0, xlen = 1024, xhead = 0, xtail = 0, xleft = 1024\<rparr>"

definition xy_peer :: "data_buf \<Rightarrow> data_buf \<Rightarrow> client" where
  "xy_peer r w = \<lparr>c_sock = 5, c_rbuf = r, c_wbuf = w, c_state = 2, c_errc = 0, c_active = 0, c_hid = 0\<rparr>"

lemma xy_new: "new_peer xy_heap 0 5 = Ret (xy_peer xy_buf xy_buf)"
  by (simp add: new_peer_def new_client_def new_data_buf_def new_bytes_def xy_heap_def assign_sock_def doClose_def
      xy_peer_def xy_buf_def)

lemma xy_send: "doSend [7] (xy_peer xy_buf xy_buf) = Some (0, xy_peer xy_buf
  \<lparr>xdata = [1, 0, 7] @ replicate 1021 0, xlen = 1024, xhead = 0, xtail = 3, xleft = 1021\<rparr>)"
  by (simp add: doSend_def appendPack_def xy_peer_def xy_buf_def short_bytes_def copy_in_def mem_write_def Let_def)

definition xy_full :: data_buf where
  "xy_full = \<lparr>xdata = [1, 0, 7] @ replicate 1021 0, xlen = 1024, xhead = 0, xtail = 3, xleft = 1021\<rparr>"

lemma xy_pull: "tryRecv xy_heap (Received [1, 0, 7]) (xy_peer xy_buf xy_buf) = Ret (xy_peer xy_full xy_buf)"
  by (simp add: tryRecv_def appendRawData_def expandBuf_def moveHead_def copy_in_def copy_out_def mem_write_def Let_def
      xy_peer_def xy_buf_def xy_full_def)

lemma xy_take: "doRecv xy_heap (xy_peer xy_full xy_buf) = Ret (1, Some [7], xy_peer (xy_full\<lparr>xhead := 3\<rparr>) xy_buf)"
  by (simp add: doRecv_def getPack_def copy_out_def Let_def short_of_def new_bytes_def xy_heap_def cutData_def
      xy_peer_def xy_full_def)

lemma xy_full_contents: "xcontents xy_full = [1, 0, 7]"
  by (simp add: xcontents_def xy_full_def)

definition xy_sent_peers :: peers where
  "xy_sent_peers = \<lparr>l_src = xy_peer xy_buf (xy_full\<lparr>xhead := 3\<rparr>), l_dst = xy_peer xy_full xy_buf,
     l_wire = [], l_sent = [[7]], l_got = []\<rparr>"

definition xy_got_peers :: peers where
  "xy_got_peers = \<lparr>l_src = xy_peer xy_buf (xy_full\<lparr>xhead := 3\<rparr>), l_dst = xy_peer (xy_full\<lparr>xhead := 3\<rparr>) xy_buf,
     l_wire = [], l_sent = [[7]], l_got = [[7]]\<rparr>"

lemma xy_reach_sent: "peers_reach xy_heap xy_sent_peers"
proof -
  let ?c = "xy_peer xy_buf xy_buf" and ?e = "xy_full\<lparr>xhead := 3\<rparr>"
  have "peers_reach xy_heap \<lparr>l_src = ?c, l_dst = ?c, l_wire = [], l_sent = [], l_got = []\<rparr>"
    by (rule peers_reach.Start [OF xy_new xy_new])
  from peers_reach.Send [OF this, of "[7]" 0 "xy_peer xy_buf xy_full"] xy_send
  have "peers_reach xy_heap \<lparr>l_src = xy_peer xy_buf xy_full, l_dst = ?c, l_wire = [], l_sent = [[7]], l_got = []\<rparr>"
    by (simp add: fits_def xy_full_def)
  from peers_reach.Push [OF this, of 3 "xy_peer xy_buf ?e"] xy_full_contents
  have "peers_reach xy_heap \<lparr>l_src = xy_peer xy_buf ?e, l_dst = ?c, l_wire = [1, 0, 7], l_sent = [[7]], l_got = []\<rparr>"
    by (simp add: xy_peer_def trySend_def getDataSize_def copy_out_def cutData_def xy_full_def)
  from peers_reach.Pull [OF this, of "[1, 0, 7]" "[]"] xy_pull
  show ?thesis by (simp add: xy_sent_peers_def)
qed

lemma xy_reach: "peers_reach xy_heap xy_got_peers"
  using peers_reach.Take [OF xy_reach_sent, of 1 "Some [7]" "xy_peer (xy_full\<lparr>xhead := 3\<rparr>) xy_buf"] xy_take
  by (simp add: xy_sent_peers_def xy_got_peers_def)

text \<open>Before the last step and after it: the packet is on its way, and has arrived.\<close>

theorem packets_delivered_witness:
  "\<exists>L M. peers_reach xy_heap L \<and> peers_reach xy_heap M \<and> l_sent L = [[7]] \<and> l_got L = [] \<and> l_sent M = [[7]] \<and>
     (\<exists>sz d. doRecv xy_heap (l_dst L) = Ret (sz, Some [7], d) \<and> l_dst M = d) \<and>
     doRecv xy_heap (l_dst M) \<noteq> Fault \<and> l_got M = l_sent M"
proof (intro exI conjI)
  note t = packets_delivered [OF xy_reach]
  show "peers_reach xy_heap xy_sent_peers" by (rule xy_reach_sent)
  show "peers_reach xy_heap xy_got_peers" using xy_reach by (simp add: xy_got_peers_def)
  show "l_sent xy_sent_peers = [[7]]" "l_got xy_sent_peers = []" "l_sent xy_got_peers = [[7]]"
    by (simp_all add: xy_sent_peers_def xy_got_peers_def)
  show "doRecv xy_heap (l_dst xy_sent_peers) = Ret (1, Some [7], l_dst xy_got_peers)"
    using xy_take by (simp add: xy_sent_peers_def xy_got_peers_def)
  show "l_dst xy_got_peers = l_dst xy_got_peers" ..
  show "doRecv xy_heap (l_dst xy_got_peers) \<noteq> Fault" using t by (simp add: xy_got_peers_def)
  have "doRecv xy_heap (xy_peer (xy_full\<lparr>xhead := 3\<rparr>) xy_buf) = Ret (0, None, xy_peer (xy_full\<lparr>xhead := 3\<rparr>) xy_buf)"
    by (simp add: doRecv_def getPack_def xy_peer_def xy_full_def Let_def)
  then show "l_got xy_got_peers = l_sent xy_got_peers" using t
    by (simp add: xy_got_peers_def xcontents_def xy_peer_def xy_full_def)
qed

definition xy_long :: data_buf where
  "xy_long = \<lparr>xdata = framed (replicate 130 0) @ replicate 892 0, xlen = 1024, xhead = 0, xtail = 132, xleft = 892\<rparr>"

theorem long_packet_blocks_witness: "doRecv xy_heap (xy_peer xy_long xy_buf) = Ret (0, None, xy_peer xy_long xy_buf)"
proof -
  have h: "xholds xy_long (framed (replicate 130 0))" "xholds xy_buf []"
    unfolding xholds_def by (rule exI [of _ "[]"], simp add: xy_long_def xy_buf_def framed_def short_bytes_def)+
  have "xbuf_ok xy_long" by (rule xbuf_okI [OF h(1)]) (simp_all add: xy_long_def)
  moreover have "xbuf_ok xy_buf" by (rule xbuf_okI [OF h(2)]) (simp_all add: xy_buf_def)
  ultimately have "conn_ok (xy_peer xy_long xy_buf)" by (simp add: conn_ok_def xy_peer_def)
  then show ?thesis using long_packet_blocks [of "xy_peer xy_long xy_buf" "replicate 130 0" "[]"] xholds_contents [OF h(1)]
    by (simp add: xy_peer_def)
qed

end
