(* ===== verification/Xy_Server.thy ===== *)
theory Xy_Server
  imports Xy_Client
begin

section \<open>my\_xy3: the server\<close>

text \<open>
  The classes \<open>Server\<close> of \<open>cs/my_xy3/server.h\<close> and \<open>server.cpp\<close> and \<open>EpollOp\<close> of \<open>op_epoll.h\<close> and
  \<open>op_epoll.cpp\<close>, and \<open>Event\<close> of \<open>event.h\<close>.  The kernel is a record of functions on a world.  A
  function of type \<open>lres option\<close> is \<open>None\<close> when it does not end.  A client is reached through
  \<open>_clients\<close> only, so the array holds the clients themselves.  \<open>dispatch\<close>, \<open>doSend\<close> and
  \<open>doBroadcast\<close> end without a return statement on their normal path, and the packets, which are
  arrays, are deleted with the plain \<open>delete\<close>: both are undefined unless the implementation
  promises otherwise (\<open>no_return_ok\<close>, \<open>plain_delete_ok\<close>).
\<close>

subsection \<open>Events\<close>

record net_event =
  e_event :: int
  e_hid :: int
  e_data :: "byte list"
  e_len :: int

definition NET_NEW :: int where "NET_NEW = 0"
definition NET_DATA :: int where "NET_DATA = 1"
definition NET_LEAVE :: int where "NET_LEAVE = 2"
definition NET_TIMER :: int where "NET_TIMER = 3"

definition new_event :: "byte \<Rightarrow> net_event" where
  "new_event junk = \<lparr>e_event = -1, e_hid = -1, e_data = replicate 100 junk, e_len = 0\<rparr>"

definition addData :: "byte list \<Rightarrow> net_event \<Rightarrow> int \<times> net_event" where
  "addData data e = (if length data > 100 then (-1, e)
     else (0, e\<lparr>e_data := data @ drop (length data) (e_data e), e_len := int (length data)\<rparr>))"

definition event_of :: "byte \<Rightarrow> int \<Rightarrow> int \<Rightarrow> net_event" where
  "event_of junk kind hid = (new_event junk)\<lparr>e_event := kind, e_hid := hid\<rparr>"

subsection \<open>Programs that may not end\<close>

definition obind :: "'a lres option \<Rightarrow> ('a \<Rightarrow> 'b lres option) \<Rightarrow> 'b lres option" where
  "obind m f = (case m of
     None \<Rightarrow> None | Some Raise \<Rightarrow> Some Raise | Some Fault \<Rightarrow> Some Fault | Some (Ret x) \<Rightarrow> f x)"

lemma obind_Ret: "obind m f = Some (Ret y) \<longleftrightarrow> (\<exists>x. m = Some (Ret x) \<and> f x = Some (Ret y))"
  by (auto simp: obind_def split: option.splits lres.splits)

lemma obind_simps [simp]:
  "obind (Some (Ret x)) f = f x" "obind (Some Raise) f = Some Raise" "obind (Some Fault) f = Some Fault" "obind None f = None"
  by (simp_all add: obind_def)

subsection \<open>The kernel and the server\<close>

record 'w kernel =
  k_time :: "'w \<Rightarrow> int \<times> 'w"
  k_socket :: "'w \<Rightarrow> int \<times> 'w"
  k_bind :: "int \<Rightarrow> int \<Rightarrow> 'w \<Rightarrow> int \<times> 'w"
  k_listen :: "int \<Rightarrow> 'w \<Rightarrow> int \<times> 'w"
  k_accept :: "int \<Rightarrow> 'w \<Rightarrow> int \<times> 'w"
  k_nonblock :: "int \<Rightarrow> 'w \<Rightarrow> bool \<times> 'w"
  k_add :: "int \<Rightarrow> 32 word \<Rightarrow> 'w \<Rightarrow> int \<times> 'w"
  k_del :: "int \<Rightarrow> 'w \<Rightarrow> int \<times> 'w"
  k_wait :: "int \<Rightarrow> 'w \<Rightarrow> int list option \<times> 'w"
  k_recv :: "int \<Rightarrow> 'w \<Rightarrow> recv_result \<times> 'w"
  k_send :: "int \<Rightarrow> byte list \<Rightarrow> 'w \<Rightarrow> send_result \<times> 'w"
  k_close :: "int \<Rightarrow> 'w \<Rightarrow> 'w"

definition MAXEPOLLSIZE :: nat where
  "MAXEPOLLSIZE = 3600"

record 'w server =
  s_state :: int
  s_clients :: "client option list"
  s_max :: nat
  s_queue :: "net_event list"
  s_count :: int
  s_listen :: int
  s_port :: int
  s_timeslap :: int
  s_period :: int
  s_fdCnt :: int
  s_fpos :: "int \<rightharpoonup> int"
  s_world :: 'w

text \<open>\<open>ms\<close> is \<open>time(0) * 1000\<close>, cut to an \<open>int\<close>; \<open>slots\<close> is what the new array of clients holds.\<close>

definition to_int :: "int \<Rightarrow> int" where
  "to_int x = signed_take_bit 31 x"

definition new_server :: "'w kernel \<Rightarrow> client option list \<Rightarrow> int \<Rightarrow> 'w \<Rightarrow> 'w server" where
  "new_server K slots port w = (let (now, w1) = k_time K w in
     \<lparr>s_state = 0, s_clients = slots, s_max = MAXEPOLLSIZE, s_queue = [], s_count = 0, s_listen = -1, s_port = port,
      s_timeslap = to_int (now * 1000), s_period = 5000, s_fdCnt = 0, s_fpos = Map.empty, s_world = w1\<rparr>)"

subsection \<open>The epoll driver\<close>

definition EV_RW_op :: int where "EV_RW_op = 0"
definition EV_READ_op :: int where "EV_READ_op = 1"
definition EV_WRITE_op :: int where "EV_WRITE_op = 2"

definition IN_MASK :: "32 word" where "IN_MASK = 1"
definition OUT_MASK :: "32 word" where "OUT_MASK = 4"
definition ET_MASK :: "32 word" where "ET_MASK = 0x80000000"

definition addFd :: "'w kernel \<Rightarrow> int \<Rightarrow> int \<Rightarrow> 'w server \<Rightarrow> int \<times> 'w server" where
  "addFd K fd event s =
     (let mask = (if event = EV_READ_op then Some (IN_MASK OR ET_MASK)
                  else if event = EV_WRITE_op then Some (OUT_MASK OR ET_MASK)
                  else if event = EV_RW_op then Some (OUT_MASK OR IN_MASK OR ET_MASK) else None)
      in case mask of
           None \<Rightarrow> (-1, s)
         | Some m \<Rightarrow> (let (ret, w) = k_add K fd m (s_world s) in
             if ret = -1 then (-1, s\<lparr>s_world := w\<rparr>) else (0, s\<lparr>s_world := w, s_fdCnt := s_fdCnt s + 1\<rparr>)))"

definition rmFd :: "'w kernel \<Rightarrow> int \<Rightarrow> 'w server \<Rightarrow> int \<times> 'w server" where
  "rmFd K fd s = (let (ret, w) = k_del K fd (s_world s) in
     if ret = -1 then (-1, s\<lparr>s_world := w\<rparr>) else (0, s\<lparr>s_world := w, s_fdCnt := s_fdCnt s - 1\<rparr>))"

text \<open>The kernel writes as many events as it finds into an array of \<open>MAXEPOLLSIZE\<close>.\<close>

definition doDispatch :: "'w kernel \<Rightarrow> 'w server \<Rightarrow> (int list option \<times> 'w server) option" where
  "doDispatch K s = (let (r, w) = k_wait K (s_fdCnt s) (s_world s) in
     case r of
       None \<Rightarrow> Some (None, s\<lparr>s_world := w\<rparr>)
     | Some fds \<Rightarrow> if length fds > MAXEPOLLSIZE then None else Some (Some fds, s\<lparr>s_world := w\<rparr>))"

subsection \<open>Starting and stopping\<close>

text \<open>\<open>shutDown\<close> pops while the queue is empty, which is undefined.\<close>

definition shutDown :: "'w kernel \<Rightarrow> 'w server \<Rightarrow> 'w server option" where
  "shutDown K s =
     (let w = (if s_listen s \<noteq> -1 then k_close K (s_listen s) (s_world s) else s_world s) in
      if s_queue s = [] then None
      else Some (s\<lparr>s_world := w, s_listen := -1, s_clients := replicate (s_max s) None, s_state := 0, s_count := 0\<rparr>))"

definition setNoBlocking :: "'w kernel \<Rightarrow> int \<Rightarrow> 'w server \<Rightarrow> 'w server lres" where
  "setNoBlocking K fd s = (let (ok, w) = k_nonblock K fd (s_world s) in
     if ok then Ret (s\<lparr>s_world := w\<rparr>) else Raise)"

definition startUp :: "'w kernel \<Rightarrow> 'w server \<Rightarrow> 'w server lres" where
  "startUp K s =
     fetch (shutDown K s) (\<lambda>s1.
     let (fd, w1) = k_socket K (s_world s1); s2 = s1\<lparr>s_listen := fd, s_world := w1\<rparr> in
     if fd = -1 then Raise
     else lbind (setNoBlocking K fd s2) (\<lambda>s3.
       let (b, w2) = k_bind K fd (s_port s3) (s_world s3) in
       if b = -1 then Raise
       else let (l, w3) = k_listen K fd w2 in
         if l = -1 then Raise
         else let (now, w4) = k_time K w3; s4 = s3\<lparr>s_state := 1, s_timeslap := to_int (now * 1000), s_world := w4\<rparr> in
           Ret (snd (addFd K fd EV_READ_op s4))))"

definition setTimer :: "'w kernel \<Rightarrow> int \<Rightarrow> 'w server \<Rightarrow> 'w server" where
  "setTimer K millisec s = (let (now, w) = k_time K (s_world s) in
     s\<lparr>s_period := millisec, s_timeslap := to_int (now * 1000), s_world := w\<rparr>)"

subsection \<open>Sending and reading\<close>

definition server_doSend :: "cxx_heap \<Rightarrow> int \<Rightarrow> byte list \<Rightarrow> 'w server \<Rightarrow> (int option \<times> 'w server) option" where
  "server_doSend A hid data s =
     (if hid < 0 \<or> hid > 1024 then Some (Some (-1), s)
      else do {
        slot \<leftarrow> nth_opt (s_clients s) (nat hid);
        case slot of
          None \<Rightarrow> Some (Some (-1), s)
        | Some c \<Rightarrow> do {
            (_, c1) \<leftarrow> doSend data c;
            _ \<leftarrow> must (no_return_ok A);
            Some (None, s\<lparr>s_clients := (s_clients s)[nat hid := Some c1]\<rparr>) } })"

definition doRead :: "'w server \<Rightarrow> net_event option \<times> 'w server" where
  "doRead s = (case s_queue s of [] \<Rightarrow> (None, s) | e # es \<Rightarrow> (Some e, s\<lparr>s_queue := es\<rparr>))"

fun broadcast_loop :: "byte list \<Rightarrow> client option list \<Rightarrow> client option list option" where
  "broadcast_loop data [] = Some []"
| "broadcast_loop data (None # cs) = do { ds \<leftarrow> broadcast_loop data cs; Some (None # ds) }"
| "broadcast_loop data (Some c # cs) = do {
     (_, c1) \<leftarrow> doSend data c;
     ds \<leftarrow> broadcast_loop data cs;
     Some (Some c1 # ds) }"

definition doBroadcast :: "cxx_heap \<Rightarrow> byte list \<Rightarrow> 'w server \<Rightarrow> 'w server option" where
  "doBroadcast A data s = do {
     _ \<leftarrow> must (s_max s \<le> length (s_clients s));
     cs \<leftarrow> broadcast_loop data (take (s_max s) (s_clients s));
     _ \<leftarrow> must (no_return_ok A);
     Some (s\<lparr>s_clients := cs @ drop (s_max s) (s_clients s)\<rparr>) }"

subsection \<open>One round of epoll\<close>

fun free_slot :: "client option list \<Rightarrow> nat option" where
  "free_slot [] = None"
| "free_slot (None # cs) = Some 0"
| "free_slot (Some c # cs) = map_option Suc (free_slot cs)"

definition client_trySend :: "cxx_heap \<Rightarrow> 'w kernel \<Rightarrow> client \<Rightarrow> 'w \<Rightarrow> (client \<times> 'w) option" where
  "client_trySend A K c w =
     (if getDataSize (c_wbuf c) = 0 then Some (c, w)
      else do {
        bs \<leftarrow> copy_out (xdata (c_wbuf c)) (xhead (c_wbuf c)) (getDataSize (c_wbuf c));
        let (r, w1) = k_send K (c_sock c) bs w;
        c1 \<leftarrow> trySend A (\<lambda>_. r) c;
        Some (c1, w1) })"

partial_function (option) recv_loop ::
  "cxx_heap \<Rightarrow> int \<Rightarrow> client \<Rightarrow> net_event list \<Rightarrow> (client \<times> net_event list) lres option" where
  "recv_loop A now c q =
     (case doRecv A c of
        Raise \<Rightarrow> Some Raise
      | Fault \<Rightarrow> Some Fault
      | Ret (sz, pack, c1) \<Rightarrow>
          (case pack of
             None \<Rightarrow> Some (Ret (c1, q))
           | Some bs \<Rightarrow>
               if sz = 0 then Some (Ret (c1, q))
               else if \<not> plain_delete_ok A then Some Fault
               else recv_loop A now (c1\<lparr>c_active := now\<rparr>)
                 (q @ [snd (addData bs (event_of (fresh_byte A) NET_DATA (c_hid c1)))])))"

definition dispatch_accept :: "cxx_heap \<Rightarrow> int \<Rightarrow> 'w kernel \<Rightarrow> int \<Rightarrow> 'w server \<Rightarrow> 'w server lres" where
  "dispatch_accept A junk K now s =
     (let (fd, w) = k_accept K (s_listen s) (s_world s); s1 = s\<lparr>s_world := w\<rparr> in
      if fd < 0 then Ret s1
      else if s_count s1 \<ge> int (s_max s1) then Ret (s1\<lparr>s_world := k_close K fd (s_world s1)\<rparr>)
      else lbind (setNoBlocking K fd s1) (\<lambda>s2.
        fetch (if s_max s2 \<le> length (s_clients s2) then Some (free_slot (take (s_max s2) (s_clients s2))) else None) (\<lambda>slot.
        case slot of
          None \<Rightarrow> Ret (s2\<lparr>s_world := k_close K fd (s_world s2)\<rparr>)
        | Some pos \<Rightarrow>
            (let (ret, s3) = addFd K fd EV_READ_op s2 in
             if ret < 0 then Ret (s3\<lparr>s_world := k_close K fd (s_world s3)\<rparr>)
             else lbind (new_client A junk) (\<lambda>c0.
               let (nb, w4) = k_nonblock K fd (s_world s3) in
               lbind (assign_sock nb fd c0) (\<lambda>cc.
               Ret (s3\<lparr>s_world := w4,
                 s_clients := (s_clients s3)[pos := Some (cc\<lparr>c_active := now, c_hid := int pos\<rparr>)],
                 s_count := s_count s3 + 1, s_fpos := (s_fpos s3)(fd \<mapsto> int pos),
                 s_queue := s_queue s3 @ [event_of (fresh_byte A) NET_NEW (int pos)]\<rparr>)))))))"

text \<open>A lookup in \<open>_fpos\<close> puts 0 under a key that is not there.\<close>

definition fpos_at :: "'w server \<Rightarrow> int \<Rightarrow> int" where
  "fpos_at s fd = (case s_fpos s fd of None \<Rightarrow> 0 | Some p \<Rightarrow> p)"

definition client_leave :: "byte \<Rightarrow> 'w kernel \<Rightarrow> int \<Rightarrow> int \<Rightarrow> client \<Rightarrow> 'w server \<Rightarrow> 'w server" where
  "client_leave junk K fd pos ct s =
     (let (ret, s1) = rmFd K fd s in
      if ret = 0 then
        s1\<lparr>s_queue := s_queue s1 @ [event_of junk NET_LEAVE (c_hid ct)],
           s_world := (if c_sock ct \<noteq> -1 then k_close K (c_sock ct) (s_world s1) else s_world s1),
           s_clients := (s_clients s1)[nat pos := None], s_fpos := (s_fpos s1)(fd := None),
           s_count := s_count s1 - 1\<rparr>
      else s1)"

definition dispatch_client :: "cxx_heap \<Rightarrow> 'w kernel \<Rightarrow> int \<Rightarrow> int \<Rightarrow> 'w server \<Rightarrow> 'w server lres option" where
  "dispatch_client A K now fd s =
     (let pos = fpos_at s fd; s1 = s\<lparr>s_fpos := (s_fpos s)(fd \<mapsto> pos)\<rparr> in
      obind (Some (fetch (if 0 \<le> pos then nth_opt (s_clients s1) (nat pos) else None) Ret)) (\<lambda>slot.
      case slot of
        None \<Rightarrow> Some (Ret s1)
      | Some ct \<Rightarrow>
          (let (r, w1) = k_recv K (c_sock ct) (s_world s1) in
           obind (Some (tryRecv A r ct)) (\<lambda>ct1.
           obind (Some (fetch (client_trySend A K ct1 w1) Ret)) (\<lambda>(ct2, w2).
           obind (recv_loop A now ct2 (s_queue s1)) (\<lambda>(ct3, q).
           let s2 = s1\<lparr>s_world := w2, s_queue := q, s_clients := (s_clients s1)[nat pos := Some ct3]\<rparr> in
           Some (Ret (if c_state ct3 = 0 then client_leave (fresh_byte A) K fd pos ct3 s2 else s2))))))))"

fun dispatch_loop :: "cxx_heap \<Rightarrow> int \<Rightarrow> 'w kernel \<Rightarrow> int \<Rightarrow> int list \<Rightarrow> 'w server \<Rightarrow> 'w server lres option" where
  "dispatch_loop A junk K now [] s = Some (Ret s)"
| "dispatch_loop A junk K now (fd # fds) s =
     obind (if fd = s_listen s then Some (dispatch_accept A junk K now s) else dispatch_client A K now fd s)
       (dispatch_loop A junk K now fds)"

definition server_dispatch :: "cxx_heap \<Rightarrow> int \<Rightarrow> 'w kernel \<Rightarrow> 'w server \<Rightarrow> 'w server lres option" where
  "server_dispatch A junk K s =
     (let (now, w) = k_time K (s_world s) in
      obind (Some (fetch (doDispatch K (s\<lparr>s_world := w\<rparr>)) Ret)) (\<lambda>(r, s1).
      case r of
         None \<Rightarrow> Some (Ret s1)
       | Some fds \<Rightarrow> obind (dispatch_loop A junk K now fds s1) (\<lambda>s2. Some (falls_off A s2))))"

subsection \<open>One round without epoll\<close>

text \<open>
  \<open>process\<close> serves every client in turn.  When one leaves, its slot is set to null and then
  dereferenced, which is undefined.
\<close>

definition process_accept :: "cxx_heap \<Rightarrow> int \<Rightarrow> 'w kernel \<Rightarrow> int \<Rightarrow> 'w server \<Rightarrow> 'w server lres" where
  "process_accept A junk K now s =
     (let (fd, w) = k_accept K (s_listen s) (s_world s); s1 = s\<lparr>s_world := w\<rparr> in
      if fd < 0 then Ret s1
      else lbind (setNoBlocking K fd s1) (\<lambda>s2.
        if s_count s2 > 1024 then Ret (s2\<lparr>s_world := k_close K fd (s_world s2)\<rparr>)
        else fetch (if s_max s2 \<le> length (s_clients s2) then Some (free_slot (take (s_max s2) (s_clients s2))) else None) (\<lambda>slot.
          case slot of
            None \<Rightarrow> Ret (s2\<lparr>s_world := k_close K fd (s_world s2)\<rparr>)
          | Some pos \<Rightarrow>
              lbind (new_client A junk) (\<lambda>c0.
              let (nb, w3) = k_nonblock K fd (s_world s2) in
              lbind (assign_sock nb fd c0) (\<lambda>cc.
              Ret (s2\<lparr>s_world := w3,
                s_clients := (s_clients s2)[pos := Some (cc\<lparr>c_active := now, c_hid := int pos\<rparr>)],
                s_count := s_count s2 + 1,
                s_queue := s_queue s2 @ [event_of (fresh_byte A) NET_NEW (int pos)]\<rparr>))))))"

definition client_round :: "cxx_heap \<Rightarrow> 'w kernel \<Rightarrow> client \<Rightarrow> 'w \<Rightarrow> (client \<times> 'w) lres" where
  "client_round A K c w =
     (if c_state c = 1 then (let (r, w1) = k_recv K (c_sock c) w in Ret (snd (tryConnect r c), w1))
      else if c_state c = 2 then
        (let (r, w1) = k_recv K (c_sock c) w in
         lbind (tryRecv A r c) (\<lambda>c1. fetch (client_trySend A K c1 w1) Ret))
      else Ret (c, w))"

definition process_client :: "cxx_heap \<Rightarrow> 'w kernel \<Rightarrow> int \<Rightarrow> nat \<Rightarrow> 'w server \<Rightarrow> 'w server lres option" where
  "process_client A K now i s =
     obind (Some (fetch (nth_opt (s_clients s) i) Ret)) (\<lambda>slot.
     case slot of
       None \<Rightarrow> Some (Ret s)
     | Some c \<Rightarrow>
         obind (Some (client_round A K c (s_world s))) (\<lambda>(c1, w1).
         obind (recv_loop A now c1 (s_queue s)) (\<lambda>(c2, q).
         if now - c_active c2 > 70 \<or> c_state c2 = 0 then Some Fault
         else Some (Ret (s\<lparr>s_world := w1, s_queue := q, s_clients := (s_clients s)[i := Some c2]\<rparr>)))))"

fun process_loop :: "cxx_heap \<Rightarrow> 'w kernel \<Rightarrow> int \<Rightarrow> nat list \<Rightarrow> 'w server \<Rightarrow> 'w server lres option" where
  "process_loop A K now [] s = Some (Ret s)"
| "process_loop A K now (i # is) s = obind (process_client A K now i s) (process_loop A K now is)"

text \<open>One timer event per period that has passed.\<close>

partial_function (option) timer_events :: "byte \<Rightarrow> int \<Rightarrow> int \<Rightarrow> int \<Rightarrow> net_event list \<Rightarrow> (int \<times> net_event list) option" where
  "timer_events junk now period slap q =
     (if slap < now
      then Option.bind (cint (slap + period)) (\<lambda>t. timer_events junk now period t (q @ [event_of junk NET_TIMER 0]))
      else Some (slap, q))"

definition server_process :: "cxx_heap \<Rightarrow> int \<Rightarrow> 'w kernel \<Rightarrow> 'w server \<Rightarrow> 'w server lres option" where
  "server_process A junk K s =
     (let (now, w) = k_time K (s_world s); s1 = s\<lparr>s_world := w\<rparr> in
      if s_state s1 \<noteq> 1 then Some (Ret s1)
      else
        obind (Some (process_accept A junk K now s1)) (\<lambda>s2.
        obind (process_loop A K now [0..<s_max s2] s2) (\<lambda>s3.
        let (t, w1) = k_time K (s_world s3);
            ms = t * 1000;
            slap = (if ms - s_timeslap s3 > 100000 then to_int ms else s_timeslap s3) in
        if s_period s3 > 0
        then Some (fetch (timer_events (fresh_byte A) ms (s_period s3) slap (s_queue s3))
               (\<lambda>(t1, q). Ret (s3\<lparr>s_world := w1, s_timeslap := t1, s_queue := q\<rparr>)))
        else Some (Ret (s3\<lparr>s_world := w1, s_timeslap := slap\<rparr>)))))"

text \<open>
  The time in milliseconds has not fitted into an \<open>int\<close> since January 1970: the loop that makes the
  timer events runs until \<open>_timeslap\<close> overflows.
\<close>

lemma timer_events_overflow:
  assumes "2 ^ 31 \<le> now" "slap < 2 ^ 31"
  shows "timer_events junk now period slap q = None"
proof (rule ccontr)
  assume "timer_events junk now period slap q \<noteq> None"
  then obtain r where r: "timer_events junk now period slap q = Some r" by auto
  have "2 ^ 31 \<le> now \<longrightarrow> \<not> slap < 2 ^ 31"
    by (rule timer_events.raw_induct [where P = "\<lambda>junk now period slap q r. 2 ^ 31 \<le> now \<longrightarrow> \<not> slap < 2 ^ 31", OF _ r])
      (fastforce simp: cint_def split: if_splits bind_splits)
  then show False using assms by simp
qed

end
