(* ===== verification/Xy_Table.thy ===== *)
theory Xy_Table
  imports Xy_Server
begin

section \<open>my\_xy3: what the server keeps\<close>

text \<open>
  The invariant of the table of clients, of the map from sockets to its slots and of the events
  that the server has queued, for a kernel that reports registered descriptors only.
\<close>

subsection \<open>The kernel's promises\<close>

text \<open>\<open>reg w\<close> is the set of descriptors that epoll watches.\<close>

definition kernel_ok :: "'w kernel \<Rightarrow> ('w \<Rightarrow> int set) \<Rightarrow> bool" where
  "kernel_ok K reg \<longleftrightarrow>
     (\<forall>w. reg (snd (k_time K w)) = reg w) \<and>
     (\<forall>l w. reg (snd (k_accept K l w)) = reg w \<and> (0 \<le> fst (k_accept K l w) \<longrightarrow> fst (k_accept K l w) \<notin> reg w)) \<and>
     (\<forall>fd w. reg (snd (k_nonblock K fd w)) = reg w) \<and>
     (\<forall>fd m w. reg (snd (k_add K fd m w)) = (if fst (k_add K fd m w) = -1 then reg w else insert fd (reg w))) \<and>
     (\<forall>fd w. reg (snd (k_del K fd w)) = (if fst (k_del K fd w) = -1 then reg w else reg w - {fd})) \<and>
     (\<forall>n w. reg (snd (k_wait K n w)) = reg w) \<and>
     (\<forall>n w fds. fst (k_wait K n w) = Some fds \<longrightarrow> distinct fds \<and> set fds \<subseteq> reg w) \<and>
     (\<forall>fd w. reg (snd (k_recv K fd w)) = reg w) \<and>
     (\<forall>fd bs w. reg (snd (k_send K fd bs w)) = reg w) \<and>
     (\<forall>fd bs w n. fst (k_send K fd bs w) = Sent n \<longrightarrow> 0 \<le> n \<and> n \<le> int (length bs)) \<and>
     (\<forall>fd w. reg (k_close K fd w) = reg w - {fd})"

lemma kernel_okD:
  assumes "kernel_ok K reg"
  shows "k_time K w = (t, w') \<Longrightarrow> reg w' = reg w"
    "k_accept K l w = (fd, w') \<Longrightarrow> reg w' = reg w" "k_accept K l w = (fd, w') \<Longrightarrow> 0 \<le> fd \<Longrightarrow> fd \<notin> reg w"
    "k_nonblock K fd w = (b, w') \<Longrightarrow> reg w' = reg w"
    "k_add K fd m w = (r, w') \<Longrightarrow> reg w' = (if r = -1 then reg w else insert fd (reg w))"
    "k_del K fd w = (r, w') \<Longrightarrow> reg w' = (if r = -1 then reg w else reg w - {fd})"
    "k_wait K n w = (o', w') \<Longrightarrow> reg w' = reg w"
    "k_wait K n w = (Some fds, w') \<Longrightarrow> distinct fds \<and> set fds \<subseteq> reg w"
    "k_recv K fd w = (rr, w') \<Longrightarrow> reg w' = reg w"
    "k_send K fd bs w = (sr, w') \<Longrightarrow> reg w' = reg w"
    "k_send K fd bs w = (Sent k, w') \<Longrightarrow> 0 \<le> k \<and> k \<le> int (length bs)"
    "reg (k_close K fd w) = reg w - {fd}"
  using assms unfolding kernel_ok_def by (metis fst_conv snd_conv)+

subsection \<open>Events of a slot\<close>

text \<open>Whether a slot is online after its events; no value when they are out of order.\<close>

definition ev_step :: "int \<Rightarrow> net_event \<Rightarrow> bool option \<Rightarrow> bool option" where
  "ev_step p e b = (if e_hid e \<noteq> p then b else case b of None \<Rightarrow> None | Some on \<Rightarrow>
     if e_event e = NET_NEW then (if on then None else Some True)
     else if e_event e = NET_DATA then (if on then Some True else None)
     else if e_event e = NET_LEAVE then (if on then Some False else None)
     else Some on)"

definition online :: "net_event list \<Rightarrow> int \<Rightarrow> bool option" where
  "online es p = fold (ev_step p) es (Some False)"

lemma online_append: "online (es @ ds) p = fold (ev_step p) ds (online es p)"
  by (simp add: online_def)

lemma event_of_simps [simp]: "e_event (event_of j k h) = k" "e_hid (event_of j k h) = h"
  "e_event (snd (addData bs (event_of j k h))) = k" "e_hid (snd (addData bs (event_of j k h))) = h"
  by (simp_all add: event_of_def addData_def new_event_def)

lemma data_events:
  "\<forall>e \<in> set ds. e_event e = NET_DATA \<and> e_hid e = q \<Longrightarrow> (p = q \<Longrightarrow> b = Some True) \<Longrightarrow> fold (ev_step p) ds b = b"
proof (induction ds)
  case Nil
  then show ?case by simp
next
  case (Cons e ds)
  have k: "e_event e = NET_DATA" "e_hid e = q" using Cons.prems(1) by simp_all
  have "ev_step p e b = b"
  proof (cases "p = q")
    case True
    then have "b = Some True" by (rule Cons.prems(2))
    then show ?thesis using k by (simp add: ev_step_def NET_DATA_def NET_NEW_def)
  qed (simp add: ev_step_def k)
  moreover have "\<forall>e \<in> set ds. e_event e = NET_DATA \<and> e_hid e = q" using Cons.prems(1) by simp
  then have "fold (ev_step p) ds b = b" by (rule Cons.IH) (rule Cons.prems(2))
  ultimately show ?case by simp
qed

subsection \<open>Serving one client\<close>

definition same_conn :: "client \<Rightarrow> client \<Rightarrow> bool" where
  "same_conn c d \<longleftrightarrow> c_sock d = c_sock c \<and> c_hid d = c_hid c \<and> conn_ok d"

lemma tryRecv_same:
  assumes "conn_ok c" "tryRecv A r c = Ret d"
  shows "same_conn c d"
proof (cases r)
  case (Received bs)
  then have "conn_ok d" using tryRecv_conn [OF assms(1), of A bs] assms(2) by auto
  then show ?thesis using Received assms(2) by (auto simp: same_conn_def tryRecv_def lbind_eq_Ret doClose_def split: if_splits)
next
  case (Recv_failed e)
  then show ?thesis using assms by (auto simp: same_conn_def tryRecv_def conn_ok_def doClose_def split: if_splits)
qed

lemma client_trySend_same:
  assumes "kernel_ok K reg" "conn_ok c" "client_trySend A K c w = Some (d, w')"
  shows "same_conn c d \<and> reg w' = reg w"
proof (cases "getDataSize (c_wbuf c) = 0")
  case True
  then show ?thesis using assms by (auto simp: client_trySend_def same_conn_def)
next
  case False
  then obtain bs r where b: "copy_out (xdata (c_wbuf c)) (xhead (c_wbuf c)) (getDataSize (c_wbuf c)) = Some bs"
    "k_send K (c_sock c) bs w = (r, w')" "trySend A (\<lambda>_. r) c = Some d"
    using assms(3) by (auto simp: client_trySend_def split: bind_splits prod.splits)
  have "int (length bs) = int (length (xcontents (c_wbuf c)))"
    using b(1) xholds_size [OF conn_okD(3) [OF assms(2)]] by (auto simp: copy_out_def getDataSize_def split: if_splits)
  then have "conn_ok d"
    using trySend_ok [OF assms(2) b(3)] kernel_okD(11) [OF assms(1)] b(2) by fastforce
  moreover have "c_sock d = c_sock c" "c_hid d = c_hid c" using b(3)
    by (auto simp: trySend_def Let_def doClose_def split: bind_splits if_splits send_result.splits)
  ultimately show ?thesis using kernel_okD(10) [OF assms(1) b(2)] by (simp add: same_conn_def)
qed

lemma doRecv_same:
  assumes "conn_ok c" "doRecv A c = Ret (sz, r, d)"
  shows "same_conn c d \<and> c_state d = c_state c"
proof (cases r)
  case None
  then show ?thesis using assms by (auto simp: doRecv_def fetch_eq_Ret lbind_eq_Ret same_conn_def split: option.splits)
next
  case (Some pack)
  then have d: "d = c\<lparr>c_rbuf := snd (cutData (sz + 2) (c_rbuf c))\<rparr>" "0 \<le> sz"
    using assms(2) by (auto simp: doRecv_def fetch_eq_Ret lbind_eq_Ret new_bytes_def split: option.splits if_splits)
  note h = conn_okD(1) [OF assms(1)]
  have "xbuf_ok (snd (cutData (sz + 2) (c_rbuf c)))"
  proof (cases "nat (sz + 2) \<le> length (xcontents (c_rbuf c))")
    case True
    show ?thesis using cut_holds [OF h True] d(2) conn_okD(2) [OF assms(1)] by (auto intro: xbuf_okI)
  next
    case False
    then show ?thesis using cut_too_much [OF h] assms(1) by (simp add: conn_ok_def)
  qed
  then show ?thesis using assms(1) d(1) by (simp add: same_conn_def conn_ok_def)
qed

lemma same_conn_trans: "same_conn c d \<Longrightarrow> same_conn d e \<Longrightarrow> same_conn c e"
  by (simp add: same_conn_def)

lemma recv_loop_same:
  assumes "recv_loop A now c q = Some r"
  shows "\<forall>d q'. conn_ok c \<longrightarrow> r = Ret (d, q') \<longrightarrow> same_conn c d \<and>
    (\<exists>es. q' = q @ es \<and> (\<forall>e \<in> set es. e_event e = NET_DATA \<and> e_hid e = c_hid c))"
proof (rule recv_loop.raw_induct [where P = "\<lambda>A now c q r. \<forall>d q'. conn_ok c \<longrightarrow> r = Ret (d, q') \<longrightarrow> same_conn c d \<and>
    (\<exists>es. q' = q @ es \<and> (\<forall>e \<in> set es. e_event e = NET_DATA \<and> e_hid e = c_hid c))", OF _ assms])
  fix rl A now c q r
  assume IH: "\<And>A now c q r. rl A now c q = Some r \<Longrightarrow> \<forall>d q'. conn_ok c \<longrightarrow> r = Ret (d, q') \<longrightarrow> same_conn c d \<and>
      (\<exists>es. q' = q @ es \<and> (\<forall>e \<in> set es. e_event e = NET_DATA \<and> e_hid e = c_hid c))"
    and step: "(case doRecv A c of Raise \<Rightarrow> Some Raise | Fault \<Rightarrow> Some Fault
      | Ret (sz, pack, c1) \<Rightarrow> (case pack of None \<Rightarrow> Some (Ret (c1, q))
         | Some bs \<Rightarrow> if sz = 0 then Some (Ret (c1, q)) else if \<not> plain_delete_ok A then Some Fault else rl A now (c1\<lparr>c_active := now\<rparr>)
             (q @ [snd (addData bs (event_of (fresh_byte A) NET_DATA (c_hid c1)))]))) = Some r"
  show "\<forall>d q'. conn_ok c \<longrightarrow> r = Ret (d, q') \<longrightarrow> same_conn c d \<and>
      (\<exists>es. q' = q @ es \<and> (\<forall>e \<in> set es. e_event e = NET_DATA \<and> e_hid e = c_hid c))"
  proof (intro allI impI)
    fix d q'
    assume ok: "conn_ok c" and r: "r = Ret (d, q')"
    then obtain sz pack c1 where dr: "doRecv A c = Ret (sz, pack, c1)" using step by (cases "doRecv A c") auto
    have c1: "same_conn c c1" using doRecv_same [OF ok dr] by simp
    show "same_conn c d \<and> (\<exists>es. q' = q @ es \<and> (\<forall>e \<in> set es. e_event e = NET_DATA \<and> e_hid e = c_hid c))"
    proof (cases "pack = None \<or> sz = 0")
      case True
      then show ?thesis using step dr r c1 by (auto split: option.splits)
    next
      case False
      then obtain bs where bs: "pack = Some bs" "sz \<noteq> 0" by auto
      let ?e = "snd (addData bs (event_of (fresh_byte A) NET_DATA (c_hid c1)))"
      have run: "rl A now (c1\<lparr>c_active := now\<rparr>) (q @ [?e]) = Some r" using step dr bs r by (simp split: if_splits)
      have "conn_ok (c1\<lparr>c_active := now\<rparr>)" using c1 by (simp add: same_conn_def conn_ok_def)
      from IH [OF run, rule_format, OF this r] obtain es where es: "same_conn (c1\<lparr>c_active := now\<rparr>) d" "q' = (q @ [?e]) @ es"
        "\<forall>e \<in> set es. e_event e = NET_DATA \<and> e_hid e = c_hid c1" by auto
      have "same_conn c d" using es(1) c1 by (simp add: same_conn_def)
      moreover have "q' = q @ (?e # es)" using es(2) by simp
      moreover have "\<forall>e \<in> set (?e # es). e_event e = NET_DATA \<and> e_hid e = c_hid c" using es(3) c1 by (simp add: same_conn_def)
      ultimately show ?thesis by blast
    qed
  qed
qed

subsection \<open>The invariant\<close>

definition slots_ok :: "client option list \<Rightarrow> (int \<rightharpoonup> int) \<Rightarrow> int \<Rightarrow> int set \<Rightarrow> bool" where
  "slots_ok cs fpos l R \<longleftrightarrow> l \<in> R \<and>
     (\<forall>p c. p < length cs \<longrightarrow> cs ! p = Some c \<longrightarrow> c_hid c = int p \<and> fpos (c_sock c) = Some (int p) \<and> c_sock c \<in> R \<and>
        c_sock c \<noteq> l \<and> 0 \<le> c_sock c \<and> conn_ok c) \<and>
     (\<forall>fd \<in> R. fd \<noteq> l \<longrightarrow> (\<exists>p c. p < length cs \<and> cs ! p = Some c \<and> c_sock c = fd))"

definition taken :: "client option list \<Rightarrow> int" where
  "taken cs = int (length (filter (\<lambda>x. x \<noteq> None) cs))"

definition events_ok :: "client option list \<Rightarrow> net_event list \<Rightarrow> bool" where
  "events_ok cs es \<longleftrightarrow> (\<forall>p < length cs. online es (int p) = Some (cs ! p \<noteq> None))"

definition server_inv :: "('w \<Rightarrow> int set) \<Rightarrow> net_event list \<Rightarrow> 'w server \<Rightarrow> bool" where
  "server_inv reg past s \<longleftrightarrow> length (s_clients s) = MAXEPOLLSIZE \<and> s_max s = MAXEPOLLSIZE \<and>
     s_count s = taken (s_clients s) \<and> s_fdCnt s = s_count s + 1 \<and>
     slots_ok (s_clients s) (s_fpos s) (s_listen s) (reg (s_world s)) \<and> events_ok (s_clients s) (past @ s_queue s)"

lemma taken_update:
  assumes "p < length cs"
  shows "taken (cs[p := x]) = taken cs - (if cs ! p = None then 0 else 1) + (if x = None then 0 else 1)"
proof -
  have "taken cs = taken (take p cs @ cs ! p # drop (Suc p) cs)" using id_take_nth_drop [OF assms] by simp
  moreover have "taken (cs[p := x]) = taken (take p cs @ x # drop (Suc p) cs)" using upd_conv_take_nth_drop [OF assms] by simp
  ultimately show ?thesis by (simp add: taken_def)
qed

lemma taken_bound: "taken cs \<le> int (length cs)"
  by (simp add: taken_def)

lemma free_slot_Some: "free_slot cs = Some p \<Longrightarrow> p < length cs \<and> cs ! p = None"
proof (induction cs arbitrary: p rule: free_slot.induct)
  case (3 c cs)
  then show ?case by auto
qed auto

subsection \<open>The slots\<close>

lemma slotsD:
  assumes "slots_ok cs fpos l R" "p < length cs" "cs ! p = Some c"
  shows "c_hid c = int p" "fpos (c_sock c) = Some (int p)" "c_sock c \<in> R" "c_sock c \<noteq> l" "0 \<le> c_sock c" "conn_ok c"
  using assms unfolding slots_ok_def by blast+

lemma slots_find:
  assumes "slots_ok cs fpos l R" "fd \<in> R" "fd \<noteq> l"
  obtains p c where "p < length cs" "cs ! p = Some c" "c_sock c = fd"
  using assms unfolding slots_ok_def by blast

lemma slots_serve:
  assumes "slots_ok cs fpos l R" "p < length cs" "cs ! p = Some c" "same_conn c d"
  shows "slots_ok (cs[p := Some d]) fpos l R"
proof -
  note k = slotsD [OF assms(1-3)]
  have d: "c_sock d = c_sock c" "c_hid d = c_hid c" "conn_ok d" using assms(4) by (simp_all add: same_conn_def)
  have "\<exists>q e. q < length (cs[p := Some d]) \<and> cs[p := Some d] ! q = Some e \<and> c_sock e = fd" if inR: "fd \<in> R" and notl: "fd \<noteq> l" for fd
  proof -
    obtain q e where "q < length cs" "cs ! q = Some e" "c_sock e = fd" by (rule slots_find [OF assms(1) inR notl])
    then show ?thesis using assms(2,3) d(1) by (intro exI [of _ q] exI [of _ "if q = p then d else e"]) auto
  qed
  moreover have "c_hid e = int q \<and> fpos (c_sock e) = Some (int q) \<and> c_sock e \<in> R \<and> c_sock e \<noteq> l \<and> 0 \<le> c_sock e \<and> conn_ok e"
    if "q < length (cs[p := Some d])" "cs[p := Some d] ! q = Some e" for q e
  proof (cases "q = p")
    case True
    then show ?thesis using that assms(2) k d by simp
  next
    case False
    then show ?thesis using that slotsD [OF assms(1), of q e] by simp
  qed
  moreover have "l \<in> R" using assms(1) by (simp add: slots_ok_def)
  ultimately show ?thesis unfolding slots_ok_def by blast
qed

lemma slots_new:
  assumes "slots_ok cs fpos l R" "p < length cs" "cs ! p = None" "fd \<notin> R" "0 \<le> fd" "c_sock c = fd" "c_hid c = int p" "conn_ok c"
  shows "slots_ok (cs[p := Some c]) (fpos(fd \<mapsto> int p)) l (insert fd R)"
proof -
  have l: "l \<in> R" using assms(1) by (simp add: slots_ok_def)
  have "\<exists>q e. q < length (cs[p := Some c]) \<and> cs[p := Some c] ! q = Some e \<and> c_sock e = f" if inR: "f \<in> insert fd R" and notl: "f \<noteq> l" for f
  proof (cases "f = fd")
    case True
    then show ?thesis using assms(2,6) by (intro exI [of _ p] exI [of _ c]) simp
  next
    case False
    then have "f \<in> R" using inR by simp
    then obtain q e where q: "q < length cs" "cs ! q = Some e" "c_sock e = f" by (rule slots_find [OF assms(1) _ notl])
    then have "q \<noteq> p" using assms(3) by auto
    then show ?thesis using q by (intro exI [of _ q] exI [of _ e]) simp
  qed
  moreover have "c_hid e = int q \<and> (fpos(fd \<mapsto> int p)) (c_sock e) = Some (int q) \<and> c_sock e \<in> insert fd R \<and>
      c_sock e \<noteq> l \<and> 0 \<le> c_sock e \<and> conn_ok e"
    if "q < length (cs[p := Some c])" "cs[p := Some c] ! q = Some e" for q e
  proof (cases "q = p")
    case True
    then show ?thesis using that assms l by auto
  next
    case False
    then show ?thesis using that slotsD [OF assms(1), of q e] assms(4) by auto
  qed
  ultimately show ?thesis unfolding slots_ok_def using l by blast
qed

lemma slots_leave:
  assumes "slots_ok cs fpos l R" "p < length cs" "cs ! p = Some c"
  shows "slots_ok (cs[p := None]) (fpos(c_sock c := None)) l (R - {c_sock c})"
proof -
  note k = slotsD [OF assms]
  have "\<exists>q e. q < length (cs[p := None]) \<and> cs[p := None] ! q = Some e \<and> c_sock e = f" if inR: "f \<in> R - {c_sock c}" and notl: "f \<noteq> l" for f
  proof -
    obtain q e where q: "q < length cs" "cs ! q = Some e" "c_sock e = f" using slots_find [OF assms(1) _ notl] inR by blast
    then have "q \<noteq> p" using inR assms(3) by auto
    then show ?thesis using q by (intro exI [of _ q] exI [of _ e]) simp
  qed
  moreover have "c_hid e = int q \<and> (fpos(c_sock c := None)) (c_sock e) = Some (int q) \<and> c_sock e \<in> R - {c_sock c} \<and>
      c_sock e \<noteq> l \<and> 0 \<le> c_sock e \<and> conn_ok e"
    if "q < length (cs[p := None])" "cs[p := None] ! q = Some e" for q e
  proof -
    have q: "q \<noteq> p" "q < length cs" "cs ! q = Some e" using that assms(2) by (auto simp: nth_list_update split: if_splits)
    note m = slotsD [OF assms(1) q(2,3)]
    have "c_sock e \<noteq> c_sock c" using k(2) m(2) q(1) by auto
    then show ?thesis using m by simp
  qed
  moreover have "l \<in> R - {c_sock c}" using k(4) assms(1) by (auto simp: slots_ok_def)
  ultimately show ?thesis unfolding slots_ok_def by blast
qed

subsection \<open>The events\<close>

lemma events_data:
  assumes "events_ok cs es" "p < length cs" "cs ! p = Some c" "\<forall>e \<in> set ds. e_event e = NET_DATA \<and> e_hid e = int p"
  shows "events_ok (cs[p := Some d]) (es @ ds)"
  unfolding events_ok_def
proof (intro allI impI)
  fix q
  assume q: "q < length (cs[p := Some d])"
  then have "online es (int q) = Some (cs ! q \<noteq> None)" using assms(1) by (simp add: events_ok_def)
  moreover have "fold (ev_step (int q)) ds (online es (int q)) = online es (int q)"
    using assms(2,3) calculation by (intro data_events [OF assms(4)]) simp
  moreover have "(cs ! q \<noteq> None) = (cs[p := Some d] ! q \<noteq> None)" using assms(2,3) by (cases "q = p") simp_all
  ultimately show "online (es @ ds) (int q) = Some (cs[p := Some d] ! q \<noteq> None)" by (simp add: online_append)
qed

lemma events_one:
  assumes "events_ok cs es" "p < length cs" "e_hid e = int p"
    "e_event e = NET_NEW \<and> cs ! p = None \<and> x \<noteq> None \<or> e_event e = NET_LEAVE \<and> cs ! p \<noteq> None \<and> x = None"
  shows "events_ok (cs[p := x]) (es @ [e])"
  unfolding events_ok_def
proof (intro allI impI)
  fix q
  assume q: "q < length (cs[p := x])"
  then have o: "online es (int q) = Some (cs ! q \<noteq> None)" using assms(1) by (simp add: events_ok_def)
  show "online (es @ [e]) (int q) = Some (cs[p := x] ! q \<noteq> None)"
  proof (cases "q = p")
    case True
    then show ?thesis using assms(2-4) o
      by (auto simp: online_append ev_step_def NET_NEW_def NET_DATA_def NET_LEAVE_def)
  next
    case False
    then show ?thesis using assms(3) o by (simp add: online_append ev_step_def)
  qed
qed

subsection \<open>Every operation keeps the invariant\<close>

lemma inv_world:
  "server_inv reg past s \<Longrightarrow> reg w = reg (s_world s) \<Longrightarrow> server_inv reg past (s\<lparr>s_world := w\<rparr>)"
  by (simp add: server_inv_def)

lemma server_invD:
  assumes "server_inv reg past s"
  shows "length (s_clients s) = MAXEPOLLSIZE" "s_max s = MAXEPOLLSIZE" "s_count s = taken (s_clients s)"
    "s_fdCnt s = s_count s + 1" "slots_ok (s_clients s) (s_fpos s) (s_listen s) (reg (s_world s))"
    "events_ok (s_clients s) (past @ s_queue s)"
  using assms by (simp_all add: server_inv_def)

lemma accept_inv:
  assumes "kernel_ok K reg" "server_inv reg past s" "dispatch_accept A junk K now s = Ret s'"
  shows "server_inv reg past s' \<and> s_listen s' = s_listen s \<and> reg (s_world s) \<subseteq> reg (s_world s')"
proof -
  note k = kernel_okD [OF assms(1)] and i = server_invD [OF assms(2)]
  obtain fd w where acc: "k_accept K (s_listen s) (s_world s) = (fd, w)" by fastforce
  let ?s1 = "s\<lparr>s_world := w\<rparr>"
  have r1: "reg w = reg (s_world s)" using k(2) [OF acc] .
  have same: ?thesis if "s' = s\<lparr>s_world := v\<rparr>" "reg v = reg (s_world s)" for v
    using that inv_world [OF assms(2)] by simp
  show ?thesis
  proof (cases "fd < 0")
    case True
    then show ?thesis using assms(3) acc r1 by (intro same [of w]) (simp_all add: dispatch_accept_def)
  next
    case False
    then have new: "fd \<notin> reg (s_world s)" using k(3) [OF acc] by simp
    have closed: "reg (k_close K fd v) = reg (s_world s)" if "reg v = reg (s_world s)" for v using k(12) that new by simp
    show ?thesis
    proof (cases "s_count s \<ge> int (s_max s)")
      case True
      then show ?thesis using assms(3) acc False closed [OF r1] by (intro same [of "k_close K fd w"]) (simp_all add: dispatch_accept_def)
    next
      case room: False
      obtain b w2 where nb: "k_nonblock K fd w = (b, w2)" by fastforce
      have r2: "reg w2 = reg (s_world s)" using k(4) [OF nb] r1 by simp
      have b: b using assms(3) acc False room nb by (auto simp: dispatch_accept_def setNoBlocking_def split: if_splits)
      show ?thesis
      proof (cases "free_slot (s_clients s)")
        case None
        then show ?thesis using assms(3) acc False room nb b i(1,2) closed [OF r2]
          by (intro same [of "k_close K fd w2"]) (simp_all add: dispatch_accept_def setNoBlocking_def)
      next
        case (Some p)
        obtain r w3 where ad: "k_add K fd (IN_MASK OR ET_MASK) w2 = (r, w3)" by fastforce
        show ?thesis
        proof (cases "r = -1")
          case True
          then have "reg w3 = reg (s_world s)" using k(5) [OF ad] r2 by simp
          then show ?thesis using assms(3) acc False room nb b i(1,2) Some ad True closed
            by (intro same [of "k_close K fd w3"]) (simp_all add: dispatch_accept_def setNoBlocking_def addFd_def)
        next
          case added: False
          then have r3: "reg w3 = insert fd (reg (s_world s))" using k(5) [OF ad] r2 by simp
          obtain nb4 w4 where n4: "k_nonblock K fd w3 = (nb4, w4)" by fastforce
          have r4: "reg w4 = insert fd (reg (s_world s))" using k(4) [OF n4] r3 by simp
          obtain c0 where c0: "new_client A junk = Ret c0" and nb4
            and s': "s' = s\<lparr>s_world := w4,
                 s_clients := (s_clients s)[p := Some (c0\<lparr>c_sock := fd, c_state := 2, c_active := now, c_hid := int p\<rparr>)],
                 s_count := s_count s + 1, s_fdCnt := s_fdCnt s + 1, s_fpos := (s_fpos s)(fd \<mapsto> int p),
                 s_queue := s_queue s @ [event_of (fresh_byte A) NET_NEW (int p)]\<rparr>"
            using assms(3) acc False room nb b i(1,2) Some ad added n4
            by (auto simp: dispatch_accept_def setNoBlocking_def addFd_def lbind_eq_Ret assign_sock_def doClose_def split: if_splits)
          let ?c = "c0\<lparr>c_sock := fd, c_state := 2, c_active := now, c_hid := int p\<rparr>"
          have p: "p < length (s_clients s)" "s_clients s ! p = None" using free_slot_Some [OF Some] by simp_all
          have "conn_ok ?c" using new_client_ok [OF c0] by (simp add: conn_ok_def)
          then have "slots_ok ((s_clients s)[p := Some ?c]) ((s_fpos s)(fd \<mapsto> int p)) (s_listen s) (insert fd (reg (s_world s)))"
            using slots_new [OF i(5) p new] False by simp
          moreover have "events_ok ((s_clients s)[p := Some ?c]) ((past @ s_queue s) @ [event_of (fresh_byte A) NET_NEW (int p)])"
            by (rule events_one [OF i(6) p(1)]) (simp_all add: p(2))
          moreover have "taken ((s_clients s)[p := Some ?c]) = taken (s_clients s) + 1" using taken_update [OF p(1)] p(2) by simp
          ultimately show ?thesis unfolding s' server_inv_def using i(1-4) r4 by auto
        qed
      qed
    qed
  qed
qed

end
