(* ===== verification/Xy_Props.thy ===== *)
theory Xy_Props
  imports Xy_Table
begin

section \<open>my\_xy3: properties of the server\<close>

text \<open>
  A round of epoll keeps the invariant of the table, and so does everything a server that
  listens can do; and what a single client can do to it.
\<close>

lemma client_inv:
  assumes "kernel_ok K reg" "server_inv reg past s" "fd \<in> reg (s_world s)" "fd \<noteq> s_listen s"
    "dispatch_client A K now fd s = Some (Ret s')"
  shows "server_inv reg past s' \<and> s_listen s' = s_listen s \<and> reg (s_world s) - {fd} \<subseteq> reg (s_world s')"
proof -
  note k = kernel_okD [OF assms(1)] and i = server_invD [OF assms(2)]
  obtain p c where p: "p < length (s_clients s)" "s_clients s ! p = Some c" "c_sock c = fd"
    by (rule slots_find [OF i(5) assms(3,4)])
  note m = slotsD [OF i(5) p(1,2)]
  have at: "fpos_at s fd = int p" "s\<lparr>s_fpos := (s_fpos s)(fd \<mapsto> int p)\<rparr> = s"
    using m(2) p(3) by (simp_all add: fpos_at_def fun_upd_idem)
  obtain r w1 where rc: "k_recv K fd (s_world s) = (r, w1)" by fastforce
  obtain c1 c2 w2 c3 q where run: "tryRecv A r c = Ret c1" "client_trySend A K c1 w1 = Some (c2, w2)"
      "recv_loop A now c2 (s_queue s) = Some (Ret (c3, q))"
    and s': "s' = (let s2 = s\<lparr>s_world := w2, s_queue := q, s_clients := (s_clients s)[p := Some c3]\<rparr> in
        if c_state c3 = 0 then client_leave (fresh_byte A) K fd (int p) c3 s2 else s2)"
    using assms(5) at p rc
    by (auto simp: dispatch_client_def obind_Ret fetch_eq_Ret Let_def split: prod.splits)
  have sc1: "same_conn c c1" by (rule tryRecv_same [OF m(6) run(1)])
  then have sc2: "same_conn c1 c2" "reg w2 = reg w1" using client_trySend_same [OF assms(1) _ run(2)] by (simp_all add: same_conn_def)
  then obtain es where sc3: "same_conn c2 c3" "q = s_queue s @ es" "\<forall>e \<in> set es. e_event e = NET_DATA \<and> e_hid e = c_hid c2"
    using recv_loop_same [OF run(3)] by (auto simp: same_conn_def)
  have sc: "same_conn c c3" using same_conn_trans [OF same_conn_trans [OF sc1 sc2(1)] sc3(1)] .
  have hid: "c_hid c2 = int p" "c_hid c3 = int p" "c_sock c3 = fd"
    using sc1 sc2(1) sc m(1) p(3) by (simp_all add: same_conn_def)
  let ?s2 = "s\<lparr>s_world := w2, s_queue := q, s_clients := (s_clients s)[p := Some c3]\<rparr>"
  have r2: "reg w2 = reg (s_world s)" using sc2(2) k(9) [OF rc] by simp
  have "events_ok ((s_clients s)[p := Some c3]) ((past @ s_queue s) @ es)"
    using events_data [OF i(6) p(1,2)] sc3(3) hid(1) by simp
  moreover have "taken ((s_clients s)[p := Some c3]) = taken (s_clients s)" using taken_update [OF p(1)] p(2) by simp
  ultimately have inv2: "server_inv reg past ?s2"
    unfolding server_inv_def using i(1-4) slots_serve [OF i(5) p(1,2) sc] r2 sc3(2) by simp
  show ?thesis
  proof (cases "c_state c3 = 0 \<and> fst (k_del K fd w2) \<noteq> -1")
    case False
    have "\<exists>v. s' = ?s2\<lparr>s_world := v\<rparr> \<and> reg v = reg w2"
    proof (cases "c_state c3 = 0")
      case True
      obtain w3 where dl: "k_del K fd w2 = (-1, w3)" using False True by (cases "k_del K fd w2") simp
      have "reg w3 = reg w2" using k(6) [OF dl] by simp
      then show ?thesis using s' True dl by (intro exI [of _ w3]) (simp add: client_leave_def rmFd_def Let_def)
    qed (use s' in \<open>simp add: exI [of _ w2]\<close>)
    then show ?thesis using inv_world [OF inv2] r2 by auto
  next
    case True
    then obtain w3 d where dl: "k_del K fd w2 = (d, w3)" "d \<noteq> -1" by (cases "k_del K fd w2") auto
    have r3: "reg w3 = reg (s_world s) - {fd}" using k(6) [OF dl(1)] dl(2) r2 by simp
    let ?e = "event_of (fresh_byte A) NET_LEAVE (int p)"
    let ?w = "if fd \<noteq> -1 then k_close K fd w3 else w3"
    have e: "s' = ?s2\<lparr>s_fdCnt := s_fdCnt s - 1, s_queue := q @ [?e], s_world := ?w,
        s_clients := (s_clients ?s2)[p := None], s_fpos := (s_fpos s)(fd := None), s_count := s_count s - 1\<rparr>"
      using s' True dl hid by (simp add: client_leave_def rmFd_def Let_def)
    have rw: "reg ?w = reg (s_world s) - {fd}" using r3 k(12) by simp
    note j = server_invD [OF inv2]
    have p2: "p < length (s_clients ?s2)" "s_clients ?s2 ! p = Some c3" using p(1) by simp_all
    have "slots_ok ((s_clients ?s2)[p := None]) ((s_fpos s)(fd := None)) (s_listen s) (reg ?w)"
      using slots_leave [OF j(5) p2] hid(3) rw r2 by simp
    moreover have "events_ok ((s_clients ?s2)[p := None]) ((past @ q) @ [?e])"
      using events_one [OF j(6) p2(1), of ?e None] p2(2) by simp
    moreover have "taken ((s_clients ?s2)[p := None]) = taken (s_clients s) - 1"
      using taken_update [OF p2(1), of None] p2(2) j(3) i(3) by simp
    ultimately have "server_inv reg past s'" unfolding e server_inv_def using i(1-4) by simp
    then show ?thesis using e rw by simp
  qed
qed

lemma loop_inv:
  "kernel_ok K reg \<Longrightarrow> server_inv reg past s \<Longrightarrow> distinct fds \<Longrightarrow> set fds \<subseteq> reg (s_world s) \<Longrightarrow>
   dispatch_loop A junk K now fds s = Some (Ret s') \<Longrightarrow> server_inv reg past s'"
proof (induction fds arbitrary: s)
  case Nil
  then show ?case by simp
next
  case (Cons fd fds)
  obtain s1 where s1: "(if fd = s_listen s then Some (dispatch_accept A junk K now s) else dispatch_client A K now fd s) = Some (Ret s1)"
    "dispatch_loop A junk K now fds s1 = Some (Ret s')" using Cons.prems(5) by (auto simp: obind_Ret)
  have "server_inv reg past s1 \<and> reg (s_world s) - {fd} \<subseteq> reg (s_world s1)"
  proof (cases "fd = s_listen s")
    case True
    from accept_inv [OF Cons.prems(1,2), of A junk now s1] True s1(1) show ?thesis by auto
  next
    case False
    then show ?thesis using client_inv [OF Cons.prems(1,2) _ False] s1(1) Cons.prems(4) by auto
  qed
  then show ?case using Cons.IH [OF Cons.prems(1) _ _ _ s1(2)] Cons.prems(3,4) by auto
qed

lemma dispatch_inv:
  assumes "kernel_ok K reg" "server_inv reg past s" "server_dispatch A junk K s = Some (Ret s')"
  shows "server_inv reg past s'"
proof -
  note k = kernel_okD [OF assms(1)]
  obtain now w where t: "k_time K (s_world s) = (now, w)" by fastforce
  obtain r w1 where wt: "k_wait K (s_fdCnt s) w = (r, w1)" by fastforce
  have inv: "server_inv reg past (s\<lparr>s_world := w1\<rparr>)"
    using inv_world [OF assms(2)] k(1) [OF t] k(7) [OF wt] by simp
  show ?thesis
  proof (cases r)
    case None
    then show ?thesis using assms(3) t wt inv by (auto simp: server_dispatch_def doDispatch_def)
  next
    case (Some fds)
    then have "dispatch_loop A junk K now fds (s\<lparr>s_world := w1\<rparr>) = Some (Ret s')"
      using assms(3) t wt by (auto simp: server_dispatch_def doDispatch_def obind_Ret split: if_splits)
    moreover have "distinct fds" "set fds \<subseteq> reg w1" using k(8) [of _ w fds w1] wt Some k(7) [OF wt] by auto
    ultimately show ?thesis using loop_inv [OF assms(1) inv] by simp
  qed
qed

lemma doSend_conn:
  assumes "conn_ok c" "length data < 2 ^ 15 - 2" "doSend data c = Some (r, d)"
  shows "same_conn c d"
proof -
  have "xbuf_ok (c_rbuf c)" using assms(1) by (simp add: conn_ok_def)
  then show ?thesis
    using appendPack_holds [OF conn_okD(3) [OF assms(1)] assms(2)] assms(3) conn_okD(4) [OF assms(1)]
    by (auto simp: doSend_def same_conn_def conn_ok_def xbuf_okI)
qed

lemma send_inv:
  assumes "server_inv reg past s" "length data < 2 ^ 15 - 2" "server_doSend A hid data s = Some (r, s')"
  shows "server_inv reg past s'"
proof (cases "s' = s")
  case True
  then show ?thesis using assms(1) by simp
next
  case False
  then obtain c c1 k where c: "nat hid < length (s_clients s)" "s_clients s ! nat hid = Some c" "doSend data c = Some (k, c1)"
    "s' = s\<lparr>s_clients := (s_clients s)[nat hid := Some c1]\<rparr>"
    using assms(3) by (auto simp: server_doSend_def nth_opt_Some split: if_splits bind_splits option.splits)
  note i = server_invD [OF assms(1)]
  have "same_conn c c1" using doSend_conn [OF slotsD(6) [OF i(5) c(1,2)] assms(2) c(3)] .
  then have "slots_ok ((s_clients s)[nat hid := Some c1]) (s_fpos s) (s_listen s) (reg (s_world s))"
    by (rule slots_serve [OF i(5) c(1,2)])
  moreover have "events_ok ((s_clients s)[nat hid := Some c1]) (past @ s_queue s)"
    using events_data [OF i(6) c(1,2), of "[]" c1] by simp
  moreover have "taken ((s_clients s)[nat hid := Some c1]) = taken (s_clients s)" using taken_update [OF c(1)] c(2) by simp
  ultimately show ?thesis unfolding server_inv_def c(4) using i(1-4) by simp
qed

text \<open>
  What a server does between \<open>startUp\<close> and \<open>shutDown\<close>, with the events that \<open>doRead\<close> has taken,
  from any state whose table is in order.  The state that \<open>startUp\<close> is written to leave is one:
  listening, without clients and events, and watching the listening socket only.
\<close>

lemma listening_in_order:
  assumes "s_clients s = replicate MAXEPOLLSIZE None" "s_max s = MAXEPOLLSIZE" "s_count s = 0" "s_queue s = []"
    "s_fdCnt s = 1" "reg (s_world s) = {s_listen s}"
  shows "server_inv reg [] s"
  using assms by (simp add: server_inv_def slots_ok_def events_ok_def taken_def online_def)

inductive server_reach :: "cxx_heap \<Rightarrow> 'w kernel \<Rightarrow> ('w \<Rightarrow> int set) \<Rightarrow> net_event list \<Rightarrow> 'w server \<Rightarrow> bool" for A K reg where
  Start: "server_inv reg past s \<Longrightarrow> server_reach A K reg past s"
| Dispatch: "server_reach A K reg past s \<Longrightarrow> server_dispatch A junk K s = Some (Ret s') \<Longrightarrow> server_reach A K reg past s'"
| Read: "server_reach A K reg past s \<Longrightarrow> doRead s = (Some e, s') \<Longrightarrow> server_reach A K reg (past @ [e]) s'"
| Send: "server_reach A K reg past s \<Longrightarrow> length data < 2 ^ 15 - 2 \<Longrightarrow> server_doSend A hid data s = Some (r, s') \<Longrightarrow>
    server_reach A K reg past s'"

lemma server_reach_inv: "server_reach A K reg past s \<Longrightarrow> kernel_ok K reg \<Longrightarrow> server_inv reg past s"
proof (induction rule: server_reach.induct)
  case (Start past s)
  then show ?case by simp
next
  case (Dispatch past s junk s')
  then show ?case using dispatch_inv by blast
next
  case (Read past s e s')
  then show ?case by (auto simp: doRead_def server_inv_def split: list.splits)
next
  case (Send past s data hid r s')
  then show ?case using send_inv by blast
qed

text \<open>
  C10. \<open>dispatch\<close>, \<open>doRead\<close> and \<open>doSend\<close> keep the table in order: after any number of calls that
  return, from a state in which it is (\<open>server_inv\<close>; \<open>startUp\<close> is written to leave one, but is itself
  undefined), the counter is the number of clients in the table, at most 3600; every client is in
  the slot that its \<open>_hid\<close> and the entry of its socket in \<open>_fpos\<close> name; every watched socket has a
  client; and the events of each slot, read or still queued, are runs of NET_NEW, NET_DATA and
  NET_LEAVE, the last one open exactly while the slot is taken.  The kernel keeps \<open>kernel_ok\<close>:
  \<open>accept\<close> returns descriptors that are not watched, \<open>epoll_wait\<close> reports watched ones, each once,
  \<open>send\<close> takes no more than it is given, and only \<open>epoll_ctl\<close> and \<open>close\<close> change what is watched.
  \<open>dispatch\<close> and \<open>doSend\<close> reach their end without a return statement: they return only where
  \<open>no_return_ok\<close> holds, and packets are read only where \<open>plain_delete_ok\<close> does; elsewhere they are
  undefined, and the theorem says nothing of them.
\<close>

theorem server_consistent:
  assumes "server_reach A K reg past s" "kernel_ok K reg"
  shows "s_count s = taken (s_clients s) \<and> s_count s \<le> 3600 \<and>
    (\<forall>p < 3600. online (past @ s_queue s) (int p) = Some (s_clients s ! p \<noteq> None)) \<and>
    (\<forall>p < 3600. \<forall>c. s_clients s ! p = Some c \<longrightarrow> c_hid c = int p \<and> s_fpos s (c_sock c) = Some (int p) \<and> c_sock c \<in> reg (s_world s)) \<and>
    (\<forall>fd \<in> reg (s_world s) - {s_listen s}. \<exists>p < 3600. \<exists>c. s_clients s ! p = Some c \<and> c_sock c = fd)"
proof -
  note i = server_invD [OF server_reach_inv [OF assms]]
  have "s_count s \<le> 3600" using taken_bound [of "s_clients s"] i(1,3) by (simp add: MAXEPOLLSIZE_def)
  moreover have "\<forall>fd \<in> reg (s_world s) - {s_listen s}. \<exists>p < 3600. \<exists>c. s_clients s ! p = Some c \<and> c_sock c = fd"
    using i(1) slots_find [OF i(5)] by (metis DiffD1 DiffD2 MAXEPOLLSIZE_def singletonI)
  ultimately show ?thesis using i(1,3,6) slotsD(1-3) [OF i(5)] by (simp add: events_ok_def MAXEPOLLSIZE_def)
qed

subsection \<open>An example\<close>

text \<open>A kernel that offers one connection, 7, on the socket 3; its world is the set of watched descriptors.\<close>

definition xy_kernel :: "int set kernel" where
  "xy_kernel = \<lparr>k_time = \<lambda>w. (0, w), k_socket = \<lambda>w. (3, w), k_bind = \<lambda>_ _ w. (0, w), k_listen = \<lambda>_ w. (0, w),
     k_accept = \<lambda>_ w. (if 7 \<in> w then -1 else 7, w), k_nonblock = \<lambda>_ w. (True, w),
     k_add = \<lambda>fd _ w. (0, insert fd w), k_del = \<lambda>fd w. (0, w - {fd}),
     k_wait = \<lambda>_ w. (if 3 \<in> w then Some [3] else None, w),
     k_recv = \<lambda>_ w. (Recv_failed EWOULDBLOCK, w), k_send = \<lambda>_ _ w. (Send_failed EWOULDBLOCK, w), k_close = \<lambda>fd w. w - {fd}\<rparr>"

definition xy_heap1 :: cxx_heap where
  "xy_heap1 = \<lparr>can_new = \<lambda>_. True, fresh_byte = 0, no_return_ok = True, plain_delete_ok = True\<rparr>"

definition xy_server :: "int set server" where
  "xy_server = \<lparr>s_state = 1, s_clients = replicate MAXEPOLLSIZE None, s_max = MAXEPOLLSIZE, s_queue = [], s_count = 0,
     s_listen = 3, s_port = 8000, s_timeslap = 0, s_period = 5000, s_fdCnt = 1, s_fpos = Map.empty, s_world = {3}\<rparr>"

definition xy_client :: client where
  "xy_client = (let b = \<lparr>xdata = replicate 1024 0, xlen = 1024, xhead = 0, xtail = 0, xleft = 1024\<rparr> in
     \<lparr>c_sock = 7, c_rbuf = b, c_wbuf = b, c_state = 2, c_errc = 0, c_active = 0, c_hid = 0\<rparr>)"

lemma xy_kernel_ok: "kernel_ok xy_kernel (\<lambda>w. w)"
  by (simp add: kernel_ok_def xy_kernel_def)

lemma free_slot_empty: "0 < n \<Longrightarrow> free_slot (replicate n None) = Some 0"
  by (cases n) simp_all

lemma xy_dispatch: "server_dispatch xy_heap1 0 xy_kernel xy_server = Some (Ret (xy_server\<lparr>
  s_clients := (replicate MAXEPOLLSIZE None)[0 := Some xy_client], s_count := 1, s_fdCnt := 2, s_fpos := [7 \<mapsto> 0],
  s_queue := [event_of 0 NET_NEW 0], s_world := {3, 7}\<rparr>))"
  by (simp add: server_dispatch_def doDispatch_def dispatch_accept_def xy_kernel_def xy_server_def xy_heap1_def
      setNoBlocking_def addFd_def free_slot_empty new_client_def new_data_buf_def new_bytes_def assign_sock_def doClose_def
      xy_client_def Let_def MAXEPOLLSIZE_def insert_commute)

theorem server_consistent_witness:
  "\<exists>s :: int set server. s_count s = 1 \<and> s_count s = taken (s_clients s) \<and> online ([] @ s_queue s) (int 0) = Some (s_clients s ! 0 \<noteq> None)"
proof -
  have "server_reach xy_heap1 xy_kernel (\<lambda>w. w) [] xy_server"
    by (intro server_reach.Start listening_in_order) (simp_all add: xy_server_def)
  note c = server_consistent [OF server_reach.Dispatch [OF this xy_dispatch] xy_kernel_ok]
  show ?thesis by (rule exI, rule conjI [OF _ conjI [OF conjunct1 [OF c] c [THEN conjunct2, THEN conjunct2, THEN conjunct1, rule_format]]]) simp_all
qed

subsection \<open>What a client can do to the server\<close>

text \<open>\<open>startUp\<close> is undefined on a new server.\<close>

lemma start_up_undefined: "startUp K (new_server K slots port w) = Fault"
  by (simp add: startUp_def shutDown_def new_server_def Let_def split: prod.split)

definition stuck :: "cxx_heap \<Rightarrow> client \<Rightarrow> bool" where
  "stuck A c \<longleftrightarrow> (\<forall>t. \<exists>sz pack. sz \<noteq> 0 \<and> doRecv A (c\<lparr>c_active := t\<rparr>) = Ret (sz, Some pack, c\<lparr>c_active := t\<rparr>))"

lemma stuck_active: "stuck A (c\<lparr>c_active := t\<rparr>) = stuck A c"
  by (simp add: stuck_def)

lemma doRecv_active: "doRecv A (c\<lparr>c_active := t\<rparr>) = Fault \<longleftrightarrow> doRecv A c = Fault"
  by (auto simp: doRecv_def fetch_def new_bytes_def split: option.splits prod.splits)

lemma recv_loop_stuck: "stuck A c \<Longrightarrow> recv_loop A now c q = None \<or> recv_loop A now c q = Some Fault"
proof (rule ccontr)
  assume st: "stuck A c" and nf: "\<not> (recv_loop A now c q = None \<or> recv_loop A now c q = Some Fault)"
  then obtain r where r: "recv_loop A now c q = Some r" "r \<noteq> Fault" by auto
  have "stuck A c \<longrightarrow> r = Fault"
  proof (rule recv_loop.raw_induct [where P = "\<lambda>A now c q r. stuck A c \<longrightarrow> r = Fault", OF _ r(1)], rule impI)
    fix rl A now c q r
    assume IH: "\<And>A now c q r. rl A now c q = Some r \<Longrightarrow> stuck A c \<longrightarrow> r = Fault"
      and step: "(case doRecv A c of Raise \<Rightarrow> Some Raise | Fault \<Rightarrow> Some Fault
        | Ret (sz, pack, c1) \<Rightarrow> (case pack of None \<Rightarrow> Some (Ret (c1, q))
           | Some bs \<Rightarrow> if sz = 0 then Some (Ret (c1, q)) else if \<not> plain_delete_ok A then Some Fault else rl A now (c1\<lparr>c_active := now\<rparr>)
               (q @ [snd (addData bs (event_of (fresh_byte A) NET_DATA (c_hid c1)))]))) = Some r"
      and st: "stuck A c"
    obtain sz pack where "sz \<noteq> 0" "doRecv A c = Ret (sz, Some pack, c)" using st [unfolded stuck_def, rule_format, of "c_active c"] by auto
    then show "r = Fault" using step IH st by (auto simp: stuck_active split: if_splits)
  qed
  then show False using st r(2) by blast
qed

text \<open>
  C39. A client can stop the server with two bytes: a header whose first byte claims no more than
  what has arrived, and whose size is negative, ends the process, and one whose size is larger
  than what has arrived makes the loop that reads packets run for ever, or is undefined, when there
  is memory for a packet of that size.
\<close>

theorem hostile_header:
  assumes "conn_ok c" "xcontents (c_rbuf c) = lo # hi # rest" "0 \<le> sint lo" "sint lo \<le> int (length rest)"
  shows "(short_of [lo, hi] < 0 \<longrightarrow> recv_loop A now c q = Some Raise) \<and>
    (int (length rest) < short_of [lo, hi] \<and> can_new A (short_of [lo, hi]) \<longrightarrow>
       recv_loop A now c q = None \<or> recv_loop A now c q = Some Fault)"
proof (intro conjI impI; (elim conjE)?)
  assume "short_of [lo, hi] < 0"
  then show "recv_loop A now c q = Some Raise"
    using doRecv_bad_header(1) [OF assms, of A] by (simp add: recv_loop.simps)
next
  assume n: "int (length rest) < short_of [lo, hi]" "can_new A (short_of [lo, hi])"
  show "recv_loop A now c q = None \<or> recv_loop A now c q = Some Fault"
  proof (cases "doRecv A c = Fault")
    case True
    then show ?thesis by (simp add: recv_loop.simps)
  next
    case False
    have ex: "\<exists>pack. doRecv A (c\<lparr>c_active := t\<rparr>) = Ret (short_of [lo, hi], Some pack, c\<lparr>c_active := t\<rparr>)" for t
    proof -
      have "conn_ok (c\<lparr>c_active := t\<rparr>)" using assms(1) by (simp add: conn_ok_def)
      moreover have "doRecv A (c\<lparr>c_active := t\<rparr>) \<noteq> Fault" using False by (simp add: doRecv_active)
      ultimately show ?thesis using doRecv_bad_header(2) [of "c\<lparr>c_active := t\<rparr>" lo hi rest A] assms(2-4) n by auto
    qed
    have "short_of [lo, hi] \<noteq> 0" using n(1) by simp
    with ex have "stuck A c" unfolding stuck_def by blast
    then show ?thesis by (simp add: recv_loop_stuck)
  qed
qed

lemma process_accept_frame: "process_accept A junk K now s = Ret t \<Longrightarrow> s_period t = s_period s \<and> s_timeslap t = s_timeslap s"
  by (auto simp: process_accept_def setNoBlocking_def lbind_eq_Ret fetch_eq_Ret Let_def case_prod_beta split: if_splits option.splits)

lemma process_loop_frame:
  "process_loop A K now is s = Some (Ret t) \<Longrightarrow> s_period t = s_period s \<and> s_timeslap t = s_timeslap s"
proof (induction "is" arbitrary: s)
  case Nil
  then show ?case by simp
next
  case (Cons i "is")
  then obtain s1 where s1: "process_client A K now i s = Some (Ret s1)" "process_loop A K now is s1 = Some (Ret t)"
    by (auto simp: obind_Ret)
  have "s_period s1 = s_period s \<and> s_timeslap s1 = s_timeslap s" using s1(1)
    by (auto simp: process_client_def obind_Ret split: option.splits prod.splits if_splits)
  then show ?case using Cons.IH [OF s1(2)] by simp
qed

text \<open>
  \<open>process\<close> never returns on a server that listens and has a timer: the time in milliseconds
  is past what an \<open>int\<close> holds.
\<close>

theorem process_never_returns:
  assumes "\<forall>w. 2 ^ 31 \<le> fst (k_time K w) * 1000" "s_state s = 1" "0 < s_period s" "s_timeslap s < 2 ^ 31"
  shows "server_process A junk K s \<noteq> Some (Ret t)"
proof
  assume run: "server_process A junk K s = Some (Ret t)"
  obtain now w where kt: "k_time K (s_world s) = (now, w)" by fastforce
  from run assms(2) kt obtain s2 s3 where s: "process_accept A junk K now (s\<lparr>s_world := w\<rparr>) = Ret s2"
      "process_loop A K now [0..<s_max s2] s2 = Some (Ret s3)"
    and last: "(let (u, w1) = k_time K (s_world s3); ms = u * 1000;
            slap = (if ms - s_timeslap s3 > 100000 then to_int ms else s_timeslap s3) in
        if s_period s3 > 0
        then Some (fetch (timer_events (fresh_byte A) ms (s_period s3) slap (s_queue s3))
               (\<lambda>(t1, q). Ret (s3\<lparr>s_world := w1, s_timeslap := t1, s_queue := q\<rparr>)))
        else Some (Ret (s3\<lparr>s_world := w1, s_timeslap := slap\<rparr>))) = Some (Ret t)"
    by (auto simp: server_process_def obind_Ret Let_def)
  have p: "0 < s_period s3" "s_timeslap s3 < 2 ^ 31"
    using process_accept_frame [OF s(1)] process_loop_frame [OF s(2)] assms(3,4) by simp_all
  obtain u w1 where ku: "k_time K (s_world s3) = (u, w1)" by fastforce
  then have ms: "2 ^ 31 \<le> u * 1000" using assms(1) by (metis fst_conv)
  have "to_int x < 2 ^ 31" for x unfolding to_int_def by (rule signed_take_bit_int_less_exp)
  then have "(if u * 1000 - s_timeslap s3 > 100000 then to_int (u * 1000) else s_timeslap s3) < 2 ^ 31" using p(2) by simp
  from timer_events_overflow [OF ms this] last ku p(1) show False by (simp add: Let_def)
qed

theorem process_never_returns_witness:
  "server_process xy_heap1 0 (xy_kernel\<lparr>k_time := \<lambda>w. (2 ^ 31, w)\<rparr>) xy_server \<noteq> Some (Ret xy_server)"
  by (rule process_never_returns) (simp_all add: xy_server_def)

text \<open>The two bytes 0 and 128 end the process.\<close>

definition xy_hostile :: client where
  "xy_hostile = xy_client\<lparr>c_rbuf := \<lparr>xdata = [0, 128] @ replicate 1022 0, xlen = 1024, xhead = 0, xtail = 2, xleft = 1022\<rparr>\<rparr>"

theorem hostile_header_witness: "recv_loop xy_heap1 0 xy_hostile [] = Some Raise"
proof -
  have h: "xholds (c_rbuf xy_hostile) [0, 128]" "xholds (c_wbuf xy_hostile) []"
    unfolding xholds_def by (rule exI [of _ "[]"], simp add: xy_hostile_def xy_client_def Let_def)+
  have "xbuf_ok (c_rbuf xy_hostile)" by (rule xbuf_okI [OF h(1)]) (simp_all add: xy_hostile_def)
  moreover have "xbuf_ok (c_wbuf xy_hostile)" by (rule xbuf_okI [OF h(2)]) (simp_all add: xy_hostile_def xy_client_def Let_def)
  ultimately have ok: "conn_ok xy_hostile" by (simp add: conn_ok_def)
  have neg: "short_of [0, 128] < 0" by (simp add: short_of_def cshort_def)
  from hostile_header [OF ok xholds_contents [OF h(1)]] neg show ?thesis by simp
qed

end
