(* ===== verification/Xy_Proto.thy ===== *)
theory Xy_Proto
  imports Xy_Buf
begin

section \<open>my\_xy3: the protocols\<close>

text \<open>
  \<open>cs/my_xy3/arg.cpp\<close>, \<open>proto_s.cpp\<close> and \<open>proto_c.cpp\<close>: remote calls between the Lua states of a
  server and its clients.  The two protocol files are copies that differ in which files make a
  function of the own side, in the descriptor that the server passes, and in where the arguments
  start on the Lua stack; \<open>side\<close> tells them apart, and the functions named \<open>c_\<close> are those of
  the client.  A Lua number is the 64 bits of its \<open>double\<close>.  The conversions of Lua, running a
  description file, looking up a function of \<open>for_maker\<close> and calling it are parameters.  A Lua
  error is \<open>Raise\<close>; while a protocol is loaded it is a value, since the error leaves objects behind.
\<close>

datatype xy_val = Xy_num "64 word" | Xy_str "byte list" | Xy_other

record xy_lua =
  xl_num2int :: "64 word \<Rightarrow> 32 word"
  xl_int2num :: "32 word \<Rightarrow> 64 word"
  xl_trunc :: "64 word \<Rightarrow> int"
  xl_str_num :: "byte list \<Rightarrow> 64 word option"
  xl_num_str :: "64 word \<Rightarrow> byte list"

fun le_of :: "nat \<Rightarrow> 'a::len word \<Rightarrow> byte list" where
  "le_of 0 w = []"
| "le_of (Suc n) w = ucast w # le_of n (drop_bit 8 w)"

fun word_le :: "byte list \<Rightarrow> 'a::len word" where
  "word_le [] = 0"
| "word_le (b # bs) = ucast b OR push_bit 8 (word_le bs)"

subsection \<open>Arguments\<close>

text \<open>The subclasses of \<open>ArgBase\<close> that the registry has; \<open>check_number\<close> and \<open>check_string\<close> are Lua's.\<close>

datatype xy_arg = Arg_string | Arg_dword | Arg_number

definition check_number :: "xy_lua \<Rightarrow> xy_val \<Rightarrow> 64 word lres" where
  "check_number E v = (case v of Xy_num n \<Rightarrow> Ret n
     | Xy_str s \<Rightarrow> (case xl_str_num E s of None \<Rightarrow> Raise | Some n \<Rightarrow> Ret n) | Xy_other \<Rightarrow> Raise)"

definition check_string :: "xy_lua \<Rightarrow> xy_val \<Rightarrow> byte list lres" where
  "check_string E v = (case v of Xy_num n \<Rightarrow> Ret (xl_num_str E n) | Xy_str s \<Rightarrow> Ret s | Xy_other \<Rightarrow> Raise)"

definition dword_pack :: "xy_lua \<Rightarrow> xy_val \<Rightarrow> byte list \<Rightarrow> int \<Rightarrow> int \<Rightarrow> (int \<times> byte list) lres" where
  "dword_pack E v buf off len = (case v of
     Xy_num n \<Rightarrow> if 4 > len then Ret (-1, buf)
       else fetch (copy_in buf off (le_of 4 (xl_num2int E n))) (\<lambda>b. Ret (4, b))
   | _ \<Rightarrow> Raise)"

definition dword_unpack :: "xy_lua \<Rightarrow> byte list \<Rightarrow> int \<Rightarrow> int \<Rightarrow> (int \<times> xy_val list) lres" where
  "dword_unpack E buf off len = (if 4 > len then Ret (-1, [])
     else fetch (copy_out buf off 4) (\<lambda>bs. Ret (4, [Xy_num (xl_int2num E (word_le bs))])))"

text \<open>\<open>ArgString::pack\<close> has no return statement after it has copied the string.\<close>

definition string_pack :: "xy_lua \<Rightarrow> xy_val \<Rightarrow> byte list \<Rightarrow> int \<Rightarrow> int \<Rightarrow> (int \<times> byte list) lres" where
  "string_pack E v buf off len = lbind (check_string E v) (\<lambda>s.
     fetch (cint (signed_take_bit 31 (int (length s)) + 1)) (\<lambda>str_id.
     if str_id \<le> 0xffff then
       (if signed_take_bit 31 (int (length s) + 2) > len then Ret (-1, buf) else Fault)
     else Ret (-1, buf)))"

text \<open>\<open>ArgString::unpack\<close> reads two of the eight bytes of an uninitialised \<open>size_t\<close>.\<close>

definition string_unpack :: "xy_lua \<Rightarrow> byte list \<Rightarrow> int \<Rightarrow> int \<Rightarrow> (int \<times> xy_val list) lres" where
  "string_unpack E buf off len = (if 2 > len then Ret (-1, []) else Fault)"

text \<open>\<open>data == 0\<close> for a \<open>double\<close>: all bits are zero but the sign.\<close>

definition is_zero :: "64 word \<Rightarrow> bool" where
  "is_zero n \<longleftrightarrow> n = 0 \<or> n = push_bit 63 1"

definition double_pack :: "xy_lua \<Rightarrow> xy_val \<Rightarrow> byte list \<Rightarrow> int \<Rightarrow> int \<Rightarrow> (int \<times> byte list) lres" where
  "double_pack E v buf off len = lbind (check_number E v) (\<lambda>n.
     if is_zero n then Ret (-1, buf)
     else if 8 > len then Ret (-1, buf)
     else fetch (copy_in buf off (le_of 8 n)) (\<lambda>b. Ret (8, b)))"

definition double_unpack :: "xy_lua \<Rightarrow> byte list \<Rightarrow> int \<Rightarrow> int \<Rightarrow> (int \<times> xy_val list) lres" where
  "double_unpack E buf off len = (if 8 > len then Ret (-1, [])
     else fetch (copy_out buf off 8) (\<lambda>bs. Ret (8, [Xy_num (word_le bs)])))"

fun arg_pack :: "xy_lua \<Rightarrow> xy_arg \<Rightarrow> xy_val \<Rightarrow> byte list \<Rightarrow> int \<Rightarrow> int \<Rightarrow> (int \<times> byte list) lres" where
  "arg_pack E Arg_string = string_pack E"
| "arg_pack E Arg_dword = dword_pack E"
| "arg_pack E Arg_number = double_pack E"

fun arg_unpack :: "xy_lua \<Rightarrow> xy_arg \<Rightarrow> byte list \<Rightarrow> int \<Rightarrow> int \<Rightarrow> (int \<times> xy_val list) lres" where
  "arg_unpack E Arg_string = string_unpack E"
| "arg_unpack E Arg_dword = dword_unpack E"
| "arg_unpack E Arg_number = double_unpack E"

text \<open>\<open>ArgMgr\<close>: the registry and the search for a name.\<close>

definition arg_type :: "xy_arg \<Rightarrow> string" where
  "arg_type a = (case a of Arg_string \<Rightarrow> ''string'' | Arg_dword \<Rightarrow> ''dword'' | Arg_number \<Rightarrow> ''number'')"

definition arg_init :: "xy_arg list" where
  "arg_init = [Arg_string, Arg_dword, Arg_number]"

fun getArg :: "xy_arg list \<Rightarrow> string \<Rightarrow> xy_arg option" where
  "getArg [] name = None"
| "getArg (a # as) name = (if arg_type a = name then Some a else getArg as name)"

subsection \<open>Messages\<close>

datatype side = Server_side | Client_side

record pto =
  pt_id :: "8 word"
  pt_func :: string
  pt_args :: "xy_arg list"
  pt_maker :: bool
  pt_ref :: "nat option"

definition new_pto :: "nat \<Rightarrow> pto" where
  "new_pto i = \<lparr>pt_id = word_of_nat i, pt_func = [], pt_args = [], pt_maker = False, pt_ref = None\<rparr>"

fun marshal_args ::
  "xy_lua \<Rightarrow> xy_arg list \<Rightarrow> nat \<Rightarrow> xy_val list \<Rightarrow> byte list \<Rightarrow> int \<Rightarrow> (int \<times> byte list) lres" where
  "marshal_args E [] i vals buf used = Ret (used, buf)"
| "marshal_args E (a # as) i vals buf used =
     lbind (arg_pack E a (if i < length vals then vals ! i else Xy_other) buf used (int (length buf) - used)) (\<lambda>(cur_used, b).
       if cur_used = 0 then Raise else marshal_args E as (i + 1) vals b (used + cur_used))"

text \<open>The server's arguments start at index 2 of the Lua stack, after the descriptor.\<close>

definition first_arg :: "side \<Rightarrow> nat" where
  "first_arg sd = (case sd of Server_side \<Rightarrow> 1 | Client_side \<Rightarrow> 0)"

definition pto_marshal :: "side \<Rightarrow> xy_lua \<Rightarrow> pto \<Rightarrow> xy_val list \<Rightarrow> byte list \<Rightarrow> (int \<times> byte list) lres" where
  "pto_marshal sd E p vals buf = fetch (copy_in buf 0 [pt_id p]) (\<lambda>b. marshal_args E (pt_args p) (first_arg sd) vals b 1)"

text \<open>\<open>pack\<close>: what is sent, if anything: the descriptor, the length and the buffer of 100 bytes.\<close>

definition s_pack :: "xy_lua \<Rightarrow> pto \<Rightarrow> xy_val list \<Rightarrow> byte list \<Rightarrow> (int \<times> int \<times> byte list) option lres" where
  "s_pack E p vals buf = (case vals of
     Xy_num n # _ \<Rightarrow> lbind (pto_marshal Server_side E p vals buf) (\<lambda>(used, b).
       Ret (if used \<noteq> 0 then Some (xl_trunc E n, used, b) else None))
   | _ \<Rightarrow> Ret None)"

definition c_marshal :: "xy_lua \<Rightarrow> pto \<Rightarrow> xy_val list \<Rightarrow> byte list \<Rightarrow> (int \<times> byte list) lres" where
  "c_marshal = pto_marshal Client_side"

definition c_pack :: "xy_lua \<Rightarrow> pto \<Rightarrow> xy_val list \<Rightarrow> byte list \<Rightarrow> (int \<times> byte list) option lres" where
  "c_pack E p vals buf = lbind (c_marshal E p vals buf) (\<lambda>(used, b). Ret (if used \<noteq> 0 then Some (used, b) else None))"

text \<open>
  The loop of \<open>unpack\<close>, from \<open>off\<close> in the message: the position, the values on the Lua stack, and
  whether the loop was left by the test for 0.  \<open>lua_pcall\<close> for another number of arguments than
  were pushed is undefined.
\<close>

fun unpack_args_loop ::
  "xy_lua \<Rightarrow> xy_arg list \<Rightarrow> byte list \<Rightarrow> int \<Rightarrow> int \<Rightarrow> int \<Rightarrow> xy_val list \<Rightarrow> (bool \<times> int \<times> xy_val list) lres" where
  "unpack_args_loop E [] buf off len readed vals = Ret (True, readed, vals)"
| "unpack_args_loop E (a # as) buf off len readed vals =
     lbind (arg_unpack E a buf (off + readed) (len - readed)) (\<lambda>(cur_readed, vs).
       if cur_readed = 0 then Ret (False, readed, vals @ vs)
       else unpack_args_loop E as buf off len (readed + cur_readed) (vals @ vs))"

type_synonym 'w lua_call = "nat \<Rightarrow> xy_val list \<Rightarrow> 'w \<Rightarrow> bool \<times> 'w"

definition pto_unpack ::
  "xy_lua \<Rightarrow> 'w lua_call \<Rightarrow> pto \<Rightarrow> byte list \<Rightarrow> int \<Rightarrow> int \<Rightarrow> xy_val list \<Rightarrow> 'w \<Rightarrow> (int \<times> 'w) lres" where
  "pto_unpack E pcall p buf off len hid w = (case pt_ref p of
     None \<Rightarrow> Ret (-1, w)
   | Some r \<Rightarrow> lbind (unpack_args_loop E (pt_args p) buf off len 0 hid) (\<lambda>(ok, readed, vals).
       if \<not> ok then Ret (-1, w)
       else if length vals \<noteq> length (pt_args p) + length hid then Fault
       else let (run, w') = pcall r vals w in Ret (if run then readed else -1, w')))"

text \<open>\<open>hid\<close> is what is pushed before the arguments: the descriptor on the server, nothing on a client.\<close>

definition xy_unpack_data ::
  "xy_lua \<Rightarrow> 'w lua_call \<Rightarrow> pto list \<Rightarrow> byte list \<Rightarrow> xy_val list \<Rightarrow> 'w \<Rightarrow> (int \<times> 'w) lres" where
  "xy_unpack_data E pcall ptos buf hid w =
     (if 1 > length buf then Ret (-1, w)
      else let proto_id = unat (hd buf) in
        if proto_id \<ge> length ptos then Ret (-1, w)
        else let p = ptos ! proto_id in
          lbind (pto_unpack E pcall p buf 1 (int (length buf) - 1) hid w) (\<lambda>(cur_readed, w').
            if cur_readed < 0 then Ret (-1, w')
            else if cur_readed = 0 \<and> pt_args p \<noteq> [] then Ret (-1, w')
            else Ret (1 + cur_readed, w')))"

definition s_unpackData ::
  "xy_lua \<Rightarrow> 'w lua_call \<Rightarrow> pto list \<Rightarrow> byte list \<Rightarrow> 32 word \<Rightarrow> 'w \<Rightarrow> (int \<times> 'w) lres" where
  "s_unpackData E pcall ptos buf vfd = xy_unpack_data E pcall ptos buf [Xy_num (xl_int2num E vfd)]"

definition c_unpackData :: "xy_lua \<Rightarrow> 'w lua_call \<Rightarrow> pto list \<Rightarrow> byte list \<Rightarrow> 'w \<Rightarrow> (int \<times> 'w) lres" where
  "c_unpackData E pcall ptos buf = xy_unpack_data E pcall ptos buf []"

definition c_unpack ::
  "xy_lua \<Rightarrow> 'w lua_call \<Rightarrow> pto \<Rightarrow> byte list \<Rightarrow> int \<Rightarrow> int \<Rightarrow> 'w \<Rightarrow> (int \<times> 'w) lres" where
  "c_unpack E pcall p buf off len = pto_unpack E pcall p buf off len []"

subsection \<open>Loading protocols\<close>

text \<open>
  A description: the entries of \<open>arg_list\<close>, \<open>None\<close> where one is not a table with a string as its
  second element.  \<open>None\<close> for the list: it is not a table.
\<close>

type_synonym xy_desc = "string option list option"

datatype code = Done | Failed | Lua_error

record pto_mgr =
  xm_heap :: "pto store"
  xm_next :: nat
  xm_ptos :: "nat list"
  xm_caller :: "string \<rightharpoonup> nat"

definition own_char :: "side \<Rightarrow> char" where
  "own_char sd = (case sd of Server_side \<Rightarrow> CHR ''s'' | Client_side \<Rightarrow> CHR ''c'')"

definition other_char :: "side \<Rightarrow> char" where
  "other_char sd = (case sd of Server_side \<Rightarrow> CHR ''c'' | Client_side \<Rightarrow> CHR ''s'')"

definition procType :: "side \<Rightarrow> string \<Rightarrow> pto \<Rightarrow> bool \<times> pto" where
  "procType sd name p = (let p1 = p\<lparr>pt_func := name\<rparr>; c = (if name = [] then CHR 0x00 else hd name) in
     if c = own_char sd then (True, p1\<lparr>pt_maker := True\<rparr>)
     else if c = other_char sd then (True, p1\<lparr>pt_maker := False\<rparr>)
     else (False, p1))"

text \<open>\<open>makers\<close>: the functions of the table \<open>for_maker\<close> as references, if it is a table.\<close>

definition procFunc :: "(string \<rightharpoonup> nat) option \<Rightarrow> nat \<Rightarrow> pto \<Rightarrow> (string \<rightharpoonup> nat) \<Rightarrow> code \<times> pto \<times> (string \<rightharpoonup> nat)" where
  "procFunc makers self p caller =
     (if pt_maker p then
        (case makers of None \<Rightarrow> (Lua_error, p, caller)
         | Some fs \<Rightarrow> (case fs (pt_func p) of None \<Rightarrow> (Lua_error, p, caller)
             | Some r \<Rightarrow> (Done, p\<lparr>pt_ref := Some r\<rparr>, caller)))
      else (Done, p, caller(pt_func p \<mapsto> self)))"

fun procArg_loop :: "string option list \<Rightarrow> pto \<Rightarrow> code \<times> pto" where
  "procArg_loop [] p = (Done, p)"
| "procArg_loop (d # ds) p = (case d of
     None \<Rightarrow> (Lua_error, p)
   | Some ty \<Rightarrow> (case getArg arg_init ty of
       None \<Rightarrow> (Lua_error, p)
     | Some a \<Rightarrow> procArg_loop ds (p\<lparr>pt_args := pt_args p @ [a]\<rparr>)))"

definition procArg :: "xy_desc \<Rightarrow> pto \<Rightarrow> code \<times> pto" where
  "procArg d p = (case d of None \<Rightarrow> (Failed, p) | Some ds \<Rightarrow> procArg_loop ds p)"

definition convertPto ::
  "(string \<rightharpoonup> nat) option \<Rightarrow> xy_desc option \<Rightarrow> nat \<Rightarrow> pto \<Rightarrow> (string \<rightharpoonup> nat) \<Rightarrow> code \<times> pto \<times> (string \<rightharpoonup> nat)" where
  "convertPto makers desc self p caller = (case desc of
     None \<Rightarrow> (Failed, p, caller)
   | Some d \<Rightarrow> (let (c1, p1, caller1) = procFunc makers self p caller in
       if c1 \<noteq> Done then (c1, p1, caller1)
       else let (c2, p2) = procArg d p1 in (c2, p2, caller1)))"

text \<open>\<open>run_file\<close>: \<open>None\<close> when the file cannot be loaded or run, else its value if that is a table.\<close>

definition pto_load ::
  "side \<Rightarrow> (string \<rightharpoonup> nat) option \<Rightarrow> (string \<rightharpoonup> xy_desc option) \<Rightarrow> string \<Rightarrow> nat \<Rightarrow> pto \<Rightarrow> (string \<rightharpoonup> nat) \<Rightarrow>
   code \<times> pto \<times> (string \<rightharpoonup> nat)" where
  "pto_load sd makers run_file name self p caller =
     (let (ok, p1) = procType sd name p in
      if \<not> ok then (Failed, p1, caller)
      else case run_file name of None \<Rightarrow> (Failed, p1, caller)
        | Some desc \<Rightarrow> convertPto makers desc self p1 caller)"

text \<open>\<open>addPto\<close> returns the number of the protocol, or raises a Lua error.\<close>

definition addPto ::
  "side \<Rightarrow> (string \<rightharpoonup> nat) option \<Rightarrow> (string \<rightharpoonup> xy_desc option) \<Rightarrow> string \<Rightarrow> pto_mgr \<Rightarrow> nat option \<times> pto_mgr" where
  "addPto sd makers run_file name m =
     (let i = length (xm_ptos m); a = xm_next m;
          (c, p, caller) = pto_load sd makers run_file name a (new_pto i) (xm_caller m);
          m1 = m\<lparr>xm_heap := (xm_heap m)(a \<mapsto> p), xm_next := a + 1, xm_caller := caller\<rparr> in
      if c = Done then (Some i, m1\<lparr>xm_ptos := xm_ptos m @ [a]\<rparr>) else (None, m1))"

text \<open>The functions of the client; three of them are the same text in both files.\<close>

definition c_procFunc :: "(string \<rightharpoonup> nat) option \<Rightarrow> nat \<Rightarrow> pto \<Rightarrow> (string \<rightharpoonup> nat) \<Rightarrow> code \<times> pto \<times> (string \<rightharpoonup> nat)" where
  "c_procFunc = procFunc"

definition c_procArg :: "xy_desc \<Rightarrow> pto \<Rightarrow> code \<times> pto" where
  "c_procArg = procArg"

definition c_convertPto ::
  "(string \<rightharpoonup> nat) option \<Rightarrow> xy_desc option \<Rightarrow> nat \<Rightarrow> pto \<Rightarrow> (string \<rightharpoonup> nat) \<Rightarrow> code \<times> pto \<times> (string \<rightharpoonup> nat)" where
  "c_convertPto = convertPto"

definition c_load where "c_load = pto_load Client_side"
definition c_procType where "c_procType = procType Client_side"
definition c_addPto where "c_addPto = addPto Client_side"

definition new_mgr :: pto_mgr where
  "new_mgr = \<lparr>xm_heap = Map.empty, xm_next = 0, xm_ptos = [], xm_caller = Map.empty\<rparr>"

definition getPto :: "pto_mgr \<Rightarrow> nat \<Rightarrow> pto option" where
  "getPto m i = Option.bind (nth_opt (xm_ptos m) i) (xm_heap m)"

definition the_ptos :: "pto_mgr \<Rightarrow> pto list" where
  "the_ptos m = map (\<lambda>a. the (xm_heap m a)) (xm_ptos m)"

subsection \<open>Bytes of words\<close>

lemma length_le_of [simp]: "length (le_of n w) = n"
  by (induction n arbitrary: w) simp_all

lemma word_le_of: "word_le (le_of n w) = take_bit (8 * n) (w :: 'a::len word)"
proof (induction n arbitrary: w)
  case 0
  then show ?case by simp
next
  case (Suc n)
  have "ucast (ucast w :: byte) OR push_bit 8 (take_bit (8 * n) (drop_bit 8 w)) = take_bit (8 * Suc n) w"
    by (rule bit_eqI) (auto simp: bit_simps)
  then show ?case by (simp add: Suc)
qed

lemma word_le_full: "word_le (le_of 4 w) = w" "word_le (le_of 8 v) = v" for w :: "32 word" and v :: "64 word"
  by (simp_all add: word_le_of) (rule bit_eqI, simp add: bit_simps)+

subsection \<open>Messages that arrive\<close>

text \<open>The arguments that can be sent, their bytes, and the values that arrive.\<close>

fun sendable :: "xy_lua \<Rightarrow> xy_arg \<Rightarrow> xy_val \<Rightarrow> bool" where
  "sendable E Arg_string v \<longleftrightarrow> False"
| "sendable E Arg_dword v \<longleftrightarrow> (\<exists>n. v = Xy_num n)"
| "sendable E Arg_number v \<longleftrightarrow> (\<exists>n. check_number E v = Ret n \<and> \<not> is_zero n)"

definition num_of :: "xy_lua \<Rightarrow> xy_val \<Rightarrow> 64 word" where
  "num_of E v = (case check_number E v of Ret n \<Rightarrow> n | _ \<Rightarrow> 0)"

definition wire_bytes :: "xy_lua \<Rightarrow> xy_arg \<Rightarrow> xy_val \<Rightarrow> byte list" where
  "wire_bytes E a v = (if a = Arg_dword then le_of 4 (xl_num2int E (num_of E v)) else le_of 8 (num_of E v))"

definition arrived :: "xy_lua \<Rightarrow> xy_arg \<Rightarrow> xy_val \<Rightarrow> xy_val" where
  "arrived E a v = Xy_num (if a = Arg_dword then xl_int2num E (xl_num2int E (num_of E v)) else num_of E v)"

fun arg_size :: "xy_arg \<Rightarrow> nat" where
  "arg_size Arg_string = 2"
| "arg_size Arg_dword = 4"
| "arg_size Arg_number = 8"

definition args_size :: "xy_arg list \<Rightarrow> nat" where
  "args_size as = sum_list (map arg_size as)"

lemma args_size_simps [simp]: "args_size [] = 0" "args_size (a # as) = arg_size a + args_size as"
  by (simp_all add: args_size_def)

lemma wire_size: "sendable E a v \<Longrightarrow> length (wire_bytes E a v) = arg_size a"
  by (cases a) (simp_all add: wire_bytes_def)

lemma copy_in_room: "n = int (length pre) \<Longrightarrow> length bs \<le> length rest \<Longrightarrow>
  copy_in (pre @ rest) n bs = Some (pre @ bs @ drop (length bs) rest)"
  by (simp add: copy_in_def mem_write_def)

lemma arg_pack_ok:
  assumes "sendable E a v" "n = int (length pre)" "arg_size a \<le> length rest" "len = int (length rest)"
  shows "arg_pack E a v (pre @ rest) n len = Ret (int (arg_size a), pre @ wire_bytes E a v @ drop (arg_size a) rest)"
  using assms copy_in_room [OF assms(2), of "wire_bytes E a v" rest] wire_size [OF assms(1)]
  by (cases a) (auto simp: dword_pack_def double_pack_def wire_bytes_def num_of_def check_number_def)

lemma marshal_args_ok:
  assumes "list_all2 (sendable E) as vs" "used = int (length pre)" "args_size as \<le> length rest"
  shows "marshal_args E as (length us) (us @ vs @ ws) (pre @ rest) used =
    Ret (used + int (args_size as), pre @ concat (map2 (wire_bytes E) as vs) @ drop (args_size as) rest)"
  using assms
proof (induction arbitrary: us pre rest used rule: list_all2_induct)
  case Nil
  then show ?case by simp
next
  case (Cons a as v vs)
  let ?b = "wire_bytes E a v" and ?rest = "drop (arg_size a) rest"
  have p: "arg_pack E a v (pre @ rest) used (int (length (pre @ rest)) - used) = Ret (int (arg_size a), pre @ ?b @ ?rest)"
    using Cons.prems by (intro arg_pack_ok [OF Cons.hyps(1)]) simp_all
  have IH: "marshal_args E as (length (us @ [v])) ((us @ [v]) @ vs @ ws) ((pre @ ?b) @ ?rest) (used + int (arg_size a)) =
      Ret (used + int (arg_size a) + int (args_size as), (pre @ ?b) @ concat (map2 (wire_bytes E) as vs) @ drop (args_size as) ?rest)"
    using Cons.prems wire_size [OF Cons.hyps(1)] by (intro Cons.IH) simp_all
  have "0 < arg_size a" by (cases a) simp_all
  then show ?case using p IH by (simp add: add.commute add.left_commute)
qed

lemma arg_unpack_ok:
  assumes "sendable E a v" "n = int (length pre)" "int (arg_size a) \<le> len"
  shows "arg_unpack E a (pre @ wire_bytes E a v @ rest) n len = Ret (int (arg_size a), [arrived E a v])"
  using assms copy_out_at [OF assms(2), of "int (arg_size a)" "wire_bytes E a v" rest] wire_size [OF assms(1)]
  by (cases a) (auto simp: dword_unpack_def double_unpack_def wire_bytes_def arrived_def word_le_full)

lemma unpack_loop_ok:
  assumes "list_all2 (sendable E) as vs" "off + readed = int (length pre)" "len - readed = int (args_size as)"
  shows "unpack_args_loop E as (pre @ concat (map2 (wire_bytes E) as vs)) off len readed vals =
    Ret (True, readed + int (args_size as), vals @ map2 (arrived E) as vs)"
  using assms
proof (induction arbitrary: pre readed vals rule: list_all2_induct)
  case Nil
  then show ?case by simp
next
  case (Cons a as v vs)
  let ?b = "wire_bytes E a v"
  have p: "arg_unpack E a (pre @ ?b @ concat (map2 (wire_bytes E) as vs)) (off + readed) (len - readed) = Ret (int (arg_size a), [arrived E a v])"
    using Cons.prems by (intro arg_unpack_ok [OF Cons.hyps(1)]) simp_all
  have IH: "unpack_args_loop E as ((pre @ ?b) @ concat (map2 (wire_bytes E) as vs)) off len (readed + int (arg_size a)) (vals @ [arrived E a v]) =
      Ret (True, readed + int (arg_size a) + int (args_size as), (vals @ [arrived E a v]) @ map2 (arrived E) as vs)"
    using Cons.prems wire_size [OF Cons.hyps(1)] by (intro Cons.IH) simp_all
  have "0 < arg_size a" by (cases a) simp_all
  then show ?case using p IH by (simp add: add.assoc)
qed

end
