(* ===== verification/Xy_Calls.thy ===== *)
theory Xy_Calls
  imports Xy_Proto
begin

section \<open>my\_xy3: properties of the protocols\<close>

text \<open>
  Calls between the two sides: both load the same files, one marshals a call, the other unpacks
  it and calls its function.  Then what messages and arguments the code is undefined for, or loses.
\<close>

subsection \<open>Loading\<close>

text \<open>The types that a description names, and the protocol that a file becomes.\<close>

definition types_of :: "string option list \<Rightarrow> xy_arg list option" where
  "types_of ds = those (map (\<lambda>d. Option.bind d (getArg arg_init)) ds)"

lemma procArg_loop_Done:
  "procArg_loop ds p = (Done, p') \<longleftrightarrow> (\<exists>as. types_of ds = Some as \<and> p' = p\<lparr>pt_args := pt_args p @ as\<rparr>)"
proof (induction ds arbitrary: p)
  case Nil
  then show ?case by (auto simp: types_of_def)
next
  case (Cons d ds)
  then show ?case by (cases d) (auto simp: types_of_def split: option.splits)
qed

definition loaded :: "side \<Rightarrow> (string \<rightharpoonup> nat) option \<Rightarrow> (string \<rightharpoonup> xy_desc option) \<Rightarrow> string \<Rightarrow> nat \<Rightarrow> pto \<Rightarrow> bool" where
  "loaded sd makers run_file name i p \<longleftrightarrow> name \<noteq> [] \<and> pt_id p = word_of_nat i \<and> pt_func p = name \<and>
     (\<exists>ds. run_file name = Some (Some (Some ds)) \<and> types_of ds = Some (pt_args p)) \<and>
     (if hd name = own_char sd then pt_maker p \<and> (\<exists>fs r. makers = Some fs \<and> fs name = Some r \<and> pt_ref p = Some r)
      else hd name = other_char sd \<and> \<not> pt_maker p \<and> pt_ref p = None)"

lemma chars_differ [simp]: "own_char sd \<noteq> other_char sd" "other_char sd \<noteq> own_char sd" "own_char sd \<noteq> CHR 0x00" "other_char sd \<noteq> CHR 0x00"
  by (cases sd; simp add: own_char_def other_char_def)+

lemma pto_load_Done:
  assumes "pto_load sd makers run_file name a (new_pto i) caller = (Done, p, caller')"
  shows "loaded sd makers run_file name i p \<and> caller' = (if hd name = own_char sd then caller else caller(name \<mapsto> a))"
proof (cases name)
  case Nil
  then show ?thesis using assms by (simp add: pto_load_def procType_def Let_def chars_differ [THEN not_sym])
next
  case (Cons c cs)
  show ?thesis using assms
    by (auto simp: pto_load_def procType_def Let_def Cons loaded_def convertPto_def procFunc_def procArg_def new_pto_def
        procArg_loop_Done split: if_splits option.splits prod.splits)
qed

text \<open>A program loads a list of files; it stops at the first error.\<close>

fun load_all ::
  "side \<Rightarrow> (string \<rightharpoonup> nat) option \<Rightarrow> (string \<rightharpoonup> xy_desc option) \<Rightarrow> string list \<Rightarrow> pto_mgr \<Rightarrow> pto_mgr option" where
  "load_all sd makers run_file [] m = Some m"
| "load_all sd makers run_file (n # ns) m = (case addPto sd makers run_file n m of
     (None, m1) \<Rightarrow> None | (Some i, m1) \<Rightarrow> load_all sd makers run_file ns m1)"

text \<open>What a manager is after the files \<open>ns\<close>.\<close>

definition mgr_holds ::
  "side \<Rightarrow> (string \<rightharpoonup> nat) option \<Rightarrow> (string \<rightharpoonup> xy_desc option) \<Rightarrow> string list \<Rightarrow> pto_mgr \<Rightarrow> bool" where
  "mgr_holds sd makers run_file ns m \<longleftrightarrow> length (xm_ptos m) = length ns \<and> (\<forall>a \<in> set (xm_ptos m). a < xm_next m) \<and>
     (\<forall>i < length ns. \<exists>p. xm_heap m (xm_ptos m ! i) = Some p \<and> loaded sd makers run_file (ns ! i) i p) \<and>
     (distinct ns \<longrightarrow> (\<forall>i < length ns. hd (ns ! i) = other_char sd \<longrightarrow> xm_caller m (ns ! i) = Some (xm_ptos m ! i)))"

lemma addPto_holds:
  assumes "mgr_holds sd makers run_file ns m" "addPto sd makers run_file n m = (Some i, m1)"
  shows "mgr_holds sd makers run_file (ns @ [n]) m1"
proof -
  obtain p caller where l: "pto_load sd makers run_file n (xm_next m) (new_pto (length (xm_ptos m))) (xm_caller m) = (Done, p, caller)"
    and m1: "m1 = m\<lparr>xm_heap := (xm_heap m)(xm_next m \<mapsto> p), xm_next := xm_next m + 1, xm_caller := caller,
      xm_ptos := xm_ptos m @ [xm_next m]\<rparr>"
    using assms(2) by (auto simp: addPto_def Let_def split: prod.splits if_splits)
  have len: "length (xm_ptos m) = length ns" using assms(1) by (simp add: mgr_holds_def)
  have p: "loaded sd makers run_file n (length ns) p" "caller = (if hd n = own_char sd then xm_caller m else (xm_caller m)(n \<mapsto> xm_next m))"
    using pto_load_Done [OF l] len by simp_all
  have old: "xm_ptos m ! j \<noteq> xm_next m" if "j < length ns" for j using assms(1) that len unfolding mgr_holds_def
    by (metis nth_mem less_irrefl)
  have "\<exists>p'. xm_heap m1 (xm_ptos m1 ! j) = Some p' \<and> loaded sd makers run_file ((ns @ [n]) ! j) j p'" if "j < length (ns @ [n])" for j
    using that p(1) old assms(1) len by (cases "j < length ns") (auto simp: m1 nth_append mgr_holds_def less_Suc_eq)
  moreover have "xm_caller m1 ((ns @ [n]) ! j) = Some (xm_ptos m1 ! j)"
    if "distinct (ns @ [n])" "j < length (ns @ [n])" "hd ((ns @ [n]) ! j) = other_char sd" for j
  proof (cases "j < length ns")
    case True
    then have "ns ! j \<noteq> n" "hd (ns ! j) = other_char sd" "distinct ns" using that by (auto simp: nth_append in_set_conv_nth)
    then show ?thesis using True assms(1) len p(2) by (simp add: m1 nth_append mgr_holds_def)
  next
    case False
    then have "j = length ns" using that(2) by simp
    then show ?thesis using that(3) len p(2) by (simp add: m1 nth_append)
  qed
  moreover have "\<forall>a \<in> set (xm_ptos m1). a < xm_next m1" using assms(1) by (auto simp: m1 mgr_holds_def less_Suc_eq)
  ultimately show ?thesis using len by (simp add: mgr_holds_def m1)
qed

lemma load_all_holds:
  "mgr_holds sd makers run_file ns m \<Longrightarrow> load_all sd makers run_file ns' m = Some m' \<Longrightarrow> mgr_holds sd makers run_file (ns @ ns') m'"
proof (induction ns' arbitrary: ns m)
  case Nil
  then show ?case by simp
next
  case (Cons n ns')
  then obtain i m1 where a: "addPto sd makers run_file n m = (Some i, m1)" "load_all sd makers run_file ns' m1 = Some m'"
    by (auto split: prod.splits option.splits)
  from Cons.IH [OF addPto_holds [OF Cons.prems(1) a(1)] a(2)] show ?case by simp
qed

lemma new_holds: "mgr_holds sd makers run_file [] new_mgr"
  by (simp add: mgr_holds_def new_mgr_def)

subsection \<open>A call arrives\<close>

lemma same_args:
  assumes "loaded sd mk run_file n i p" "loaded sd' mk' run_file n i q"
  shows "pt_args q = pt_args p" "pt_id q = word_of_nat i" "pt_id p = word_of_nat i"
  using assms by (auto simp: loaded_def)

lemma wire_total: "list_all2 (sendable E) as vs \<Longrightarrow> length (concat (map2 (wire_bytes E) as vs)) = args_size as"
  by (induction rule: list_all2_induct) (simp_all add: wire_size)

lemma pto_marshal_ok:
  assumes "list_all2 (sendable E) (pt_args p) vs" "length us = first_arg sd" "1 + args_size (pt_args p) \<le> length buf"
  shows "pto_marshal sd E p (us @ vs @ ws) buf = Ret (1 + int (args_size (pt_args p)),
    pt_id p # concat (map2 (wire_bytes E) (pt_args p) vs) @ drop (1 + args_size (pt_args p)) buf)"
proof -
  have "copy_in buf 0 [pt_id p] = Some ([pt_id p] @ drop 1 buf)" using assms(3) by (simp add: copy_in_def mem_write_def)
  moreover have "marshal_args E (pt_args p) (length us) (us @ vs @ ws) ([pt_id p] @ drop 1 buf) 1 =
      Ret (1 + int (args_size (pt_args p)), [pt_id p] @ concat (map2 (wire_bytes E) (pt_args p) vs) @ drop (args_size (pt_args p)) (drop 1 buf))"
    using assms(3) by (intro marshal_args_ok [OF assms(1)]) simp_all
  ultimately show ?thesis using assms(2) by (simp add: pto_marshal_def add.commute)
qed

lemma unpack_ok:
  assumes "list_all2 (sendable E) (pt_args q) vs" "pt_id q = word_of_nat i" "i < 256" "i < length ptos" "ptos ! i = q" "pt_ref q = Some r"
    "pcall r (hid @ map2 (arrived E) (pt_args q) vs) w = (True, w')"
  shows "xy_unpack_data E pcall ptos (pt_id q # concat (map2 (wire_bytes E) (pt_args q) vs)) hid w =
    Ret (1 + int (args_size (pt_args q)), w')"
proof -
  let ?b = "concat (map2 (wire_bytes E) (pt_args q) vs)"
  have id: "unat (word_of_nat i :: byte) = i" using assms(3) by (simp add: unat_of_nat)
  have l: "unpack_args_loop E (pt_args q) ([pt_id q] @ ?b) 1 (int (length (pt_id q # ?b)) - 1) 0 hid =
      Ret (True, 0 + int (args_size (pt_args q)), hid @ map2 (arrived E) (pt_args q) vs)"
    by (rule unpack_loop_ok [OF assms(1)]) (simp_all add: wire_total [OF assms(1)])
  have "length (map2 (arrived E) (pt_args q) vs) = length (pt_args q)" using list_all2_lengthD [OF assms(1)] by simp
  then have "pto_unpack E pcall q (pt_id q # ?b) 1 (int (length (pt_id q # ?b)) - 1) hid w = Ret (int (args_size (pt_args q)), w')"
    using l assms(6,7) by (simp add: pto_unpack_def)
  moreover have "args_size (pt_args q) = 0 \<Longrightarrow> pt_args q = []"
  proof (cases "pt_args q")
    case (Cons a as)
    moreover assume "args_size (pt_args q) = 0"
    ultimately show ?thesis by (cases a) simp_all
  qed simp
  ultimately show ?thesis using assms(2,4,5) id by (auto simp: xy_unpack_data_def Let_def)
qed

text \<open>
  A value that arrives as it is: a number that \<open>lua_number2int\<close> and \<open>lua_pushnumber\<close> give back,
  which are those that fit an \<open>int\<close>, or for the type number any but 0.
\<close>

fun survives :: "xy_lua \<Rightarrow> xy_arg \<Rightarrow> xy_val \<Rightarrow> bool" where
  "survives E Arg_dword v \<longleftrightarrow> (\<exists>n. v = Xy_num n \<and> xl_int2num E (xl_num2int E n) = n)"
| "survives E Arg_number v \<longleftrightarrow> (\<exists>n. v = Xy_num n \<and> \<not> is_zero n)"
| "survives E Arg_string v \<longleftrightarrow> False"

lemma survives_sendable: "survives E a v \<Longrightarrow> sendable E a v \<and> arrived E a v = v"
  by (cases a) (auto simp: arrived_def num_of_def check_number_def)

lemma survive_all:
  "list_all2 (survives E) as vs \<Longrightarrow> list_all2 (sendable E) as vs \<and> map2 (arrived E) as vs = vs"
  by (induction rule: list_all2_induct) (use survives_sendable in auto)

text \<open>
  C4. A remote call from the server to a client.  Both sides have loaded the same files, all of them
  different; the file number \<open>i\<close>, below 256, starts with c, and none of its arguments is a string
  (those are never sent, \<open>message_defined_iff\<close>).  Then for_caller of the server has a function for
  it, and calling it with arguments that the packers accept (numbers for the type dword, numbers
  or strings that are numbers but not 0 for the type number), at most 99 bytes of them, sends a
  message that the client accepts: it calls its own function of that name, once, with the values
  that \<open>arrived\<close> names.  For the type number these are the numbers sent; for the type dword the
  number cut to an \<open>int\<close> as Lua's macro does it, a parameter here.  Where all arguments are
  numbers and those of type dword fit an \<open>int\<close> (\<open>survives\<close>) they are exactly the values sent.
\<close>

theorem server_call_arrives:
  assumes "load_all Server_side mks run_file names new_mgr = Some ms" "load_all Client_side (Some fs) run_file names new_mgr = Some mc"
    "distinct names" "i < length names" "i < 256" "hd (names ! i) = CHR ''c''"
    "getPto mc i = Some q" "list_all2 (sendable E) (pt_args q) vs" "args_size (pt_args q) \<le> 99" "length buf = 100"
  shows "\<exists>a p r n. xm_caller ms (names ! i) = Some a \<and> xm_heap ms a = Some p \<and> fs (names ! i) = Some r \<and>
    s_pack E p (Xy_num vfd # vs) buf = Ret (Some (xl_trunc E vfd, int (length n), n @ drop (length n) buf)) \<and>
    (\<forall>pcall w w'. pcall r (map2 (arrived E) (pt_args q) vs) w = (True, w') \<longrightarrow>
       c_unpackData E pcall (the_ptos mc) n w = Ret (int (length n), w')) \<and>
    (list_all2 (survives E) (pt_args q) vs \<longrightarrow> map2 (arrived E) (pt_args q) vs = vs)"
proof -
  have hs: "mgr_holds Server_side mks run_file names ms" and hc: "mgr_holds Client_side (Some fs) run_file names mc"
    using load_all_holds [OF new_holds assms(1)] load_all_holds [OF new_holds assms(2)] by simp_all
  have ch: "hd (names ! i) = other_char Server_side" "hd (names ! i) = own_char Client_side"
    using assms(6) by (simp_all add: other_char_def own_char_def)
  obtain p where p: "xm_heap ms (xm_ptos ms ! i) = Some p" "loaded Server_side mks run_file (names ! i) i p"
    using hs assms(4) by (auto simp: mgr_holds_def)
  obtain q' where q': "xm_heap mc (xm_ptos mc ! i) = Some q'" "loaded Client_side (Some fs) run_file (names ! i) i q'"
    using hc assms(4) by (auto simp: mgr_holds_def)
  have lc: "length (xm_ptos mc) = length names" using hc by (simp add: mgr_holds_def)
  have qq: "q' = q" using assms(4,7) q'(1) lc by (simp add: getPto_def)
  note q = q' [unfolded qq]
  have caller: "xm_caller ms (names ! i) = Some (xm_ptos ms ! i)" using hs assms(3,4) ch(1) by (auto simp: mgr_holds_def)
  obtain r where r: "fs (names ! i) = Some r" "pt_ref q = Some r" using q(2) ch(2) by (auto simp: loaded_def)
  note sa = same_args [OF p(2) q(2)]
  let ?n = "pt_id q # concat (map2 (wire_bytes E) (pt_args q) vs)"
  have ln: "length ?n = 1 + args_size (pt_args q)" by (simp add: wire_total [OF assms(8)])
  have "pto_marshal Server_side E p ([Xy_num vfd] @ vs @ []) buf = Ret (1 + int (args_size (pt_args p)),
      pt_id p # concat (map2 (wire_bytes E) (pt_args p) vs) @ drop (1 + args_size (pt_args p)) buf)"
    using assms(8-10) sa(1) by (intro pto_marshal_ok) (simp_all add: first_arg_def)
  then have pack: "s_pack E p (Xy_num vfd # vs) buf = Ret (Some (xl_trunc E vfd, int (length ?n), ?n @ drop (length ?n) buf))"
    using sa ln by (simp add: s_pack_def)
  have "i < length (the_ptos mc)" "the_ptos mc ! i = q" using assms(4) lc q(1) by (simp_all add: the_ptos_def)
  then have "c_unpackData E pcall (the_ptos mc) ?n w = Ret (int (length ?n), w')"
    if "pcall r (map2 (arrived E) (pt_args q) vs) w = (True, w')" for pcall w w'
    using unpack_ok [OF assms(8) sa(2) assms(5) _ _ r(2), of "the_ptos mc" pcall "[]" w w'] that ln by (simp add: c_unpackData_def)
  then show ?thesis using caller p(1) r(1) pack survive_all by blast
qed

subsection \<open>Messages that are too short\<close>

definition complete :: "xy_arg list \<Rightarrow> int \<Rightarrow> bool" where
  "complete as len \<longleftrightarrow> Arg_string \<notin> set as \<and> int (args_size as) \<le> len"

lemma arg_unpack_cases:
  assumes "arg_unpack E a buf off len = Ret (c, vs)"
  shows "a = Arg_string \<and> c = -1 \<and> vs = [] \<or> a \<noteq> Arg_string \<and> len < int (arg_size a) \<and> c = -1 \<and> vs = [] \<or>
    a \<noteq> Arg_string \<and> int (arg_size a) \<le> len \<and> c = int (arg_size a) \<and> length vs = 1"
  using assms by (cases a) (auto simp: string_unpack_def dword_unpack_def double_unpack_def fetch_eq_Ret split: if_splits)

lemma unpack_loop_count:
  assumes "unpack_args_loop E as buf off len readed vals = Ret (ok, r, vals')"
  shows "ok \<and> length vals' \<le> length vals + length as \<and>
    (as \<noteq> [] \<and> \<not> complete as (len - readed) \<longrightarrow> length vals' < length vals + length as)"
  using assms
proof (induction as arbitrary: readed vals)
  case Nil
  then show ?case by simp
next
  case (Cons a as)
  obtain c vs where u: "arg_unpack E a buf (off + readed) (len - readed) = Ret (c, vs)"
    using Cons.prems by (cases "arg_unpack E a buf (off + readed) (len - readed)") auto
  note k = arg_unpack_cases [OF u]
  have "0 < arg_size a" by (cases a) simp_all
  then have nz: "c \<noteq> 0" using k by auto
  then have rest: "unpack_args_loop E as buf off len (readed + c) (vals @ vs) = Ret (ok, r, vals')" using Cons.prems u by simp
  note IH = Cons.IH [OF rest]
  show ?case
  proof (cases "length vs = 1")
    case True
    then have c: "a \<noteq> Arg_string" "c = int (arg_size a)" "int (arg_size a) \<le> len - readed" using k by auto
    then have "complete (a # as) (len - readed) = complete as (len - (readed + c))" by (auto simp: complete_def)
    moreover have "as = [] \<Longrightarrow> complete (a # as) (len - readed)" using c by (auto simp: complete_def)
    ultimately show ?thesis using IH True by auto
  next
    case False
    then have "vs = []" using k by auto
    then show ?thesis using IH by simp
  qed
qed

lemma unpack_loop_complete:
  assumes "complete as (len - readed)" "0 \<le> off + readed" "off + len \<le> int (length buf)"
  shows "\<exists>r vals'. unpack_args_loop E as buf off len readed vals = Ret (True, r, vals') \<and> length vals' = length vals + length as \<and>
    r = readed + int (args_size as)"
  using assms
proof (induction as arbitrary: readed vals)
  case Nil
  then show ?case by simp
next
  case (Cons a as)
  have c: "a \<noteq> Arg_string" "int (arg_size a) \<le> len - readed" "complete as (len - (readed + int (arg_size a)))" "0 < arg_size a"
    using Cons.prems(1) by (cases a; auto simp: complete_def)+
  obtain v where "arg_unpack E a buf (off + readed) (len - readed) = Ret (int (arg_size a), [v])"
    using c(1,2) Cons.prems(2,3) by (cases a) (auto simp: dword_unpack_def double_unpack_def copy_out_def)
  then show ?case using Cons.IH [OF c(3), of "vals @ [v]"] c(4) Cons.prems(2,3) by (auto simp: add.assoc)
qed

text \<open>
  C29. A message for a protocol with a function and with arguments is defined exactly when it is long
  enough for them and none is a string: otherwise the packers return -1, which unpack takes for
  progress, and the function is called with fewer values on the Lua stack than announced.
\<close>

theorem message_defined_iff:
  assumes "msg \<noteq> []" "unat (hd msg) < length ptos" "pt_ref (ptos ! unat (hd msg)) = Some r" "pt_args (ptos ! unat (hd msg)) \<noteq> []"
  shows "s_unpackData E pcall ptos msg vfd w \<noteq> Fault \<longleftrightarrow>
    Arg_string \<notin> set (pt_args (ptos ! unat (hd msg))) \<and> 1 + args_size (pt_args (ptos ! unat (hd msg))) \<le> length msg"
proof -
  define p where "p = ptos ! unat (hd msg)"
  let ?len = "int (length msg) - 1" and ?hid = "[Xy_num (xl_int2num E vfd)]"
  have c: "complete (pt_args p) ?len \<longleftrightarrow> Arg_string \<notin> set (pt_args p) \<and> 1 + args_size (pt_args p) \<le> length msg"
    by (auto simp: complete_def)
  have fault: "s_unpackData E pcall ptos msg vfd w = Fault \<longleftrightarrow> pto_unpack E pcall p msg 1 ?len ?hid w = Fault"
    using assms(1,2) by (cases "pto_unpack E pcall p msg 1 ?len ?hid w") (auto simp: s_unpackData_def xy_unpack_data_def Let_def p_def Suc_le_eq split: if_splits)
  have ref: "pt_ref p = Some r" using assms(3) by (simp add: p_def)
  show ?thesis
  proof (cases "complete (pt_args p) ?len")
    case True
    then have "complete (pt_args p) (?len - 0)" by simp
    from unpack_loop_complete [OF this, of 1 msg E ?hid] obtain r' vals' where
      "unpack_args_loop E (pt_args p) msg 1 ?len 0 ?hid = Ret (True, r', vals')" "length vals' = length ?hid + length (pt_args p)" by auto
    then have "pto_unpack E pcall p msg 1 ?len ?hid w \<noteq> Fault" by (simp add: pto_unpack_def ref case_prod_beta Let_def)
    then show ?thesis using True c fault unfolding p_def by blast
  next
    case False
    have "pto_unpack E pcall p msg 1 ?len ?hid w = Fault"
    proof (cases "unpack_args_loop E (pt_args p) msg 1 ?len 0 ?hid")
      case (Ret x)
      then obtain ok r' vals' where x: "unpack_args_loop E (pt_args p) msg 1 ?len 0 ?hid = Ret (ok, r', vals')" by (cases x) auto
      have "ok" "length vals' < length ?hid + length (pt_args p)"
        using unpack_loop_count [OF x] False assms(4) by (auto simp: p_def)
      then show ?thesis using x by (simp add: pto_unpack_def ref)
    next
      case Raise
      have "arg_unpack E a buf off len \<noteq> Raise" for a buf off len
        by (cases a) (auto simp: string_unpack_def dword_unpack_def double_unpack_def fetch_def split: option.splits)
      then have "unpack_args_loop E as buf off len rd vs \<noteq> Raise" for as buf off len rd vs
      proof (induction as arbitrary: rd vs)
        case (Cons a as)
        then show ?case by (cases "arg_unpack E a buf (off + rd) (len - rd)") (auto split: if_splits)
      qed simp
      then show ?thesis using Raise by blast
    qed (simp add: pto_unpack_def ref)
    then show ?thesis using False c fault unfolding p_def by blast
  qed
qed

text \<open>
  The number 0 loses the identifier: its packer fails with -1, marshal goes back by one byte, and
  the next argument is written over the identifier of the protocol.  The message that is sent
  is the four bytes of that argument.
\<close>

theorem zero_loses_identifier:
  assumes "pt_args p = [Arg_number, Arg_dword]" "is_zero z" "length buf = 100"
  shows "\<exists>b. s_pack E p [Xy_num vfd, Xy_num z, Xy_num n] buf = Ret (Some (xl_trunc E vfd, 4, b)) \<and> take 4 b = le_of 4 (xl_num2int E n)"
proof -
  have "copy_in buf 0 [pt_id p] = Some (pt_id p # drop 1 buf)" using assms(3) by (simp add: copy_in_def mem_write_def)
  moreover have "copy_in (pt_id p # drop 1 buf) 0 (le_of 4 (xl_num2int E n)) = Some (le_of 4 (xl_num2int E n) @ drop 4 buf)"
    using assms(3) by (simp add: copy_in_def mem_write_def drop_Cons')
  ultimately show ?thesis using assms
    by (simp add: s_pack_def pto_marshal_def first_arg_def double_pack_def dword_pack_def check_number_def)
qed

subsection \<open>Examples\<close>

definition xy_demo :: xy_lua where
  "xy_demo = \<lparr>xl_num2int = ucast, xl_int2num = ucast, xl_trunc = uint, xl_str_num = (\<lambda>_. None), xl_num_str = (\<lambda>_. [])\<rparr>"

definition demo_files :: "string \<rightharpoonup> xy_desc option" where
  "demo_files = [''s_login'' \<mapsto> Some (Some [Some ''dword'']), ''c_hello'' \<mapsto> Some (Some [Some ''number'', Some ''dword''])]"

abbreviation demo_names :: "string list" where
  "demo_names \<equiv> [''s_login'', ''c_hello'']"

definition demo_pto :: "bool \<Rightarrow> pto" where
  "demo_pto mk = \<lparr>pt_id = 1, pt_func = ''c_hello'', pt_args = [Arg_number, Arg_dword], pt_maker = mk, pt_ref = (if mk then Some 7 else None)\<rparr>"

definition demo_call :: "nat list lua_call" where
  "demo_call r vals w = (True, w @ [r])"

lemmas load_defs = addPto_def pto_load_def procType_def procFunc_def procArg_def convertPto_def new_pto_def new_mgr_def
  own_char_def other_char_def demo_files_def arg_init_def arg_type_def Let_def

lemma demo_load:
  "\<exists>ms. load_all Server_side (Some [''s_login'' \<mapsto> 3]) demo_files demo_names new_mgr = Some ms"
  "\<exists>mc. load_all Client_side (Some [''c_hello'' \<mapsto> 7]) demo_files demo_names new_mgr = Some mc \<and> getPto mc 1 = Some (demo_pto True)"
  by (simp_all add: load_defs getPto_def demo_pto_def nth_opt_def)

theorem server_call_arrives_witness:
  "\<exists>p n mc. s_pack xy_demo p [Xy_num 5, Xy_num 1, Xy_num 2] (replicate 100 0) =
      Ret (Some (5, int (length n), n @ drop (length n) (replicate 100 0))) \<and>
    c_unpackData xy_demo demo_call (the_ptos mc) n [] = Ret (int (length n), [7]) \<and>
    map2 (arrived xy_demo) [Arg_number, Arg_dword] [Xy_num 1, Xy_num 2] = [Xy_num 1, Xy_num 2]"
proof -
  obtain ms where ms: "load_all Server_side (Some [''s_login'' \<mapsto> 3]) demo_files demo_names new_mgr = Some ms" using demo_load(1) by blast
  obtain mc where mc: "load_all Client_side (Some [''c_hello'' \<mapsto> 7]) demo_files demo_names new_mgr = Some mc" "getPto mc 1 = Some (demo_pto True)"
    using demo_load(2) by blast
  have a: "pt_args (demo_pto True) = [Arg_number, Arg_dword]" by (simp add: demo_pto_def)
  have "list_all2 (sendable xy_demo) (pt_args (demo_pto True)) [Xy_num 1, Xy_num 2]"
    by (simp add: a check_number_def is_zero_def)
  from server_call_arrives [OF ms mc(1) _ _ _ _ mc(2) this, where buf = "replicate 100 0" and vfd = 5]
  obtain p r n where x: "s_pack xy_demo p [Xy_num 5, Xy_num 1, Xy_num 2] (replicate 100 0) =
      Ret (Some (xl_trunc xy_demo 5, int (length n), n @ drop (length n) (replicate 100 0)))"
    "[''c_hello'' \<mapsto> 7 :: nat] ''c_hello'' = Some r"
    "\<And>pcall w (w' :: nat list). pcall r (map2 (arrived xy_demo) (pt_args (demo_pto True)) [Xy_num 1, Xy_num 2]) w = (True, w') \<Longrightarrow>
       c_unpackData xy_demo pcall (the_ptos mc) n w = Ret (int (length n), w')"
    "list_all2 (survives xy_demo) (pt_args (demo_pto True)) [Xy_num 1, Xy_num 2] \<longrightarrow>
       map2 (arrived xy_demo) (pt_args (demo_pto True)) [Xy_num 1, Xy_num 2] = [Xy_num 1, Xy_num 2]"
    by (auto simp: a)
  have "r = 7" using x(2) by simp
  then have "c_unpackData xy_demo demo_call (the_ptos mc) n [] = Ret (int (length n), [7])" by (intro x(3)) (simp add: demo_call_def)
  moreover have "xl_trunc xy_demo 5 = 5" by (simp add: xy_demo_def)
  moreover have "list_all2 (survives xy_demo) (pt_args (demo_pto True)) [Xy_num 1, Xy_num 2]"
    by (simp add: a xy_demo_def is_zero_def)
  from mp [OF x(4) this] have "map2 (arrived xy_demo) [Arg_number, Arg_dword] [Xy_num 1, Xy_num 2] = [Xy_num 1, Xy_num 2]"
    unfolding a .
  ultimately show ?thesis using x(1) by metis
qed

theorem message_defined_iff_witness:
  "s_unpackData xy_demo demo_call [demo_pto True, demo_pto True] (1 # replicate 11 0) 5 [] = Fault \<and>
   s_unpackData xy_demo demo_call [demo_pto True, demo_pto True] (1 # replicate 12 0) 5 [] \<noteq> Fault"
  using message_defined_iff [of "1 # replicate 11 0" "[demo_pto True, demo_pto True]" 7 xy_demo demo_call 5 "[]"]
    message_defined_iff [of "1 # replicate 12 0" "[demo_pto True, demo_pto True]" 7 xy_demo demo_call 5 "[]"]
  by (simp add: demo_pto_def)

theorem zero_loses_identifier_witness:
  "\<exists>b. s_pack xy_demo (demo_pto False) [Xy_num 5, Xy_num 0, Xy_num 258] (replicate 100 0) = Ret (Some (5, 4, b)) \<and> take 4 b = [2, 1, 0, 0]"
proof -
  have four: "(4 :: nat) = Suc (Suc (Suc (Suc 0)))" by simp
  have "le_of 4 (xl_num2int xy_demo 258) = [2, 1, 0, 0]" unfolding four le_of.simps by (simp add: xy_demo_def)
  moreover have "xl_trunc xy_demo 5 = 5" by (simp add: xy_demo_def)
  ultimately show ?thesis using zero_loses_identifier [of "demo_pto False" 0 "replicate 100 0" xy_demo 5 258]
    by (simp add: demo_pto_def is_zero_def)
qed

end
