(* ===== verification/Enet_Socket.thy ===== *)
theory Enet_Socket
  imports Enet_Host
begin

section \<open>my_enet: sockets, addresses and the service loop\<close>

text \<open>
  \<open>cs/my_enet/unix.c\<close> but \<open>enet_socket_wait\<close> (\<open>Enet_Host\<close>), and \<open>enet_host_service\<close> of
  \<open>protocol.c\<close>.  The system calls are parameters.  The machine is little endian, so \<open>htons\<close> and
  \<open>ntohs\<close> swap the two bytes of a port; addresses are kept in network order.
\<close>

subsection \<open>Time\<close>

text \<open>Seconds and microseconds of \<open>gettimeofday\<close>, as the 64-bit numbers they are.\<close>

definition enet_time_get :: "64 word \<Rightarrow> 64 word \<Rightarrow> 32 word \<Rightarrow> 32 word" where
  "enet_time_get tv_sec tv_usec timeBase = ucast (tv_sec * 1000 + tv_usec div 1000 - ucast timeBase)"

subsection \<open>Sockets\<close>

datatype sock_type = SOCK_STREAM | SOCK_DGRAM

definition ENET_SOCKET_TYPE_DATAGRAM :: int where
  "ENET_SOCKET_TYPE_DATAGRAM = 2"

definition enet_socket_create :: "(sock_type \<Rightarrow> int) \<Rightarrow> int \<Rightarrow> int" where
  "enet_socket_create socket type = socket (if type = ENET_SOCKET_TYPE_DATAGRAM then SOCK_DGRAM else SOCK_STREAM)"

record sockaddr_in =
  sin_port :: "16 word"
  sin_addr :: "32 word"

definition enet_socket_bind :: "(int \<Rightarrow> sockaddr_in \<Rightarrow> int) \<Rightarrow> int \<Rightarrow> addr option \<Rightarrow> int" where
  "enet_socket_bind bindfn sock address =
     bindfn sock (case address of Some a \<Rightarrow> \<lparr>sin_port = swap16 (ucast (ad_port a)), sin_addr = ad_host a\<rparr>
       | None \<Rightarrow> \<lparr>sin_port = 0, sin_addr = 0\<rparr>)"

definition SOMAXCONN :: int where
  "SOMAXCONN = 128"

definition enet_socket_listen :: "(int \<Rightarrow> int \<Rightarrow> int) \<Rightarrow> int \<Rightarrow> int \<Rightarrow> int" where
  "enet_socket_listen listen sock backlog = listen sock (if backlog < 0 then SOMAXCONN else backlog)"

text \<open>
  \<open>sendmsg\<close> is given the name and the buffers; its second result says whether \<open>errno\<close> is
  \<open>EWOULDBLOCK\<close>.
\<close>

definition enet_socket_send ::
  "(int \<Rightarrow> sockaddr_in option \<Rightarrow> 'b list \<Rightarrow> int \<times> bool) \<Rightarrow> int \<Rightarrow> addr option \<Rightarrow> 'b list \<Rightarrow> int" where
  "enet_socket_send sendmsg sock address buffers =
     (let name = map_option (\<lambda>a. \<lparr>sin_port = swap16 (ucast (ad_port a)), sin_addr = ad_host a\<rparr>) address;
          (sent, wouldblock) = sendmsg sock name buffers in
      if sent = -1 then (if wouldblock then 0 else -1) else sent)"

text \<open>
  \<open>recvmsg\<close> returns its result, whether it would block, whether the datagram was cut and, when it is
  asked for the sender, its name.  The C function has no \<open>return\<close> at its end: a call that receives
  has no value, the \<open>None\<close> of the first component.
\<close>

record enet_received =
  rv_length :: int
  rv_wouldblock :: bool
  rv_trunc :: bool
  rv_name :: sockaddr_in

definition enet_socket_receive ::
  "(int \<Rightarrow> enet_received) \<Rightarrow> int \<Rightarrow> addr option \<Rightarrow> int option \<times> addr option" where
  "enet_socket_receive recvmsg sock address =
     (let r = recvmsg sock in
      if rv_length r = -1 then (if rv_wouldblock r then Some 0 else Some (-1), address)
      else if rv_trunc r then (Some (-1), address)
      else (None, map_option (\<lambda>_. \<lparr>ad_host = sin_addr (rv_name r), ad_port = ucast (swap16 (sin_port (rv_name r)))\<rparr>) address))"

datatype sock_option = ENET_SOCKET_NONBLOCK | ENET_SOCKET_BROADCAST | ENET_SOCKET_RCVBUF | ENET_SOCKET_SNDBUF
  | ENET_SOCKET_REUSEADDR | OTHER_OPTION

datatype so_name = SO_BROADCAST | SO_RCVBUF | SO_SNDBUF | SO_REUSEADDR

definition O_NONBLOCK :: "32 word" where
  "O_NONBLOCK = 0x800"

fun enet_socket_set_option ::
  "(int \<Rightarrow> 32 word) \<Rightarrow> (int \<Rightarrow> 32 word \<Rightarrow> int) \<Rightarrow> (int \<Rightarrow> so_name \<Rightarrow> int \<Rightarrow> int) \<Rightarrow> int \<Rightarrow> sock_option \<Rightarrow> int \<Rightarrow> int" where
  "enet_socket_set_option getfl setfl setsockopt sock opt v =
     (let result = (case opt of
          ENET_SOCKET_NONBLOCK \<Rightarrow> setfl sock (O_NONBLOCK OR getfl sock)
        | ENET_SOCKET_BROADCAST \<Rightarrow> setsockopt sock SO_BROADCAST v
        | ENET_SOCKET_RCVBUF \<Rightarrow> setsockopt sock SO_RCVBUF v
        | ENET_SOCKET_SNDBUF \<Rightarrow> setsockopt sock SO_SNDBUF v
        | ENET_SOCKET_REUSEADDR \<Rightarrow> setsockopt sock SO_REUSEADDR v
        | OTHER_OPTION \<Rightarrow> -1) in
      if result = -1 then -1 else 0)"

subsection \<open>Addresses\<close>

text \<open>
  \<open>gethostbyname\<close> returns no entry, or whether the entry is of the Internet family with its first
  address; \<open>inet_aton\<close> parses an address in dots.
\<close>

definition enet_address_set_host ::
  "(string \<Rightarrow> (bool \<times> 32 word) option) \<Rightarrow> (string \<Rightarrow> 32 word option) \<Rightarrow> addr \<Rightarrow> string \<Rightarrow> 16 word \<Rightarrow> int \<times> addr" where
  "enet_address_set_host gethostbyname inet_aton address name port =
     (case gethostbyname name of
        Some (True, host) \<Rightarrow> (0, address\<lparr>ad_host := host, ad_port := ucast port\<rparr>)
      | _ \<Rightarrow> (case inet_aton name of None \<Rightarrow> (-1, address) | Some host \<Rightarrow> (0, address\<lparr>ad_host := host\<rparr>)))"

definition enet_address_get_host_ip :: "(32 word \<Rightarrow> nat \<Rightarrow> string option) \<Rightarrow> addr \<Rightarrow> nat \<Rightarrow> int \<times> string option" where
  "enet_address_get_host_ip inet_ntop address nameLength =
     (case inet_ntop (ad_host address) nameLength of None \<Rightarrow> (-1, None) | Some s \<Rightarrow> (0, Some s))"

subsection \<open>The service loop\<close>

text \<open>
  What the loop touches: the service time of the host, and the type and the two pointers of the event
  when the caller passes one.  The three functions that the loop calls have empty bodies: their calls
  have no value, and a \<open>switch\<close> on it is undefined.  The clock and \<open>select\<close> are given by pass.
\<close>

record service =
  sv_time :: "32 word"
  sv_event :: "(int \<times> ptr \<times> ptr) option"

definition ENET_EVENT_TYPE_NONE :: int where
  "ENET_EVENT_TYPE_NONE = 0"

definition no_value :: "service \<Rightarrow> (int \<times> service) option" where
  "no_value s = None"

definition enet_protocol_dispatch_incoming_commands :: "service \<Rightarrow> (int \<times> service) option" where
  "enet_protocol_dispatch_incoming_commands s = no_value s"

definition enet_protocol_send_outgoing_commands :: "service \<Rightarrow> (int \<times> service) option" where
  "enet_protocol_send_outgoing_commands s = no_value s"

definition enet_protocol_receive_incoming_commands :: "service \<Rightarrow> (int \<times> service) option" where
  "enet_protocol_receive_incoming_commands s = no_value s"

text \<open>The part for a caller with an event, at the start and in every pass: whether to return, and what.\<close>

definition service_event :: "service \<Rightarrow> (int option \<times> service) option" where
  "service_event s =
     (if sv_event s = None then Some (None, s)
      else Option.bind (enet_protocol_dispatch_incoming_commands (s\<lparr>sv_event := Some (ENET_EVENT_TYPE_NONE, Null, Null)\<rparr>)) (\<lambda>(r, s).
        Some (if r = 1 then Some 1 else if r = -1 then Some (-1) else None, s)))"

text \<open>The call returns a number from inside; at the end of the loop it has no value, the inner \<open>None\<close>.\<close>

partial_function (option) service_loop ::
  "(nat \<Rightarrow> 32 word) \<Rightarrow> (nat \<Rightarrow> bool \<Rightarrow> bool \<Rightarrow> nat \<times> nat \<Rightarrow> int \<times> bool \<times> bool) \<Rightarrow> nat \<Rightarrow> service \<Rightarrow> (int option \<times> service) option" where
  "service_loop clock select n s =
     Option.bind (enet_protocol_send_outgoing_commands s) (\<lambda>(_, s).
     Option.bind (enet_protocol_receive_incoming_commands s) (\<lambda>(_, s).
     Option.bind (enet_protocol_send_outgoing_commands s) (\<lambda>(_, s).
     Option.bind (service_event s) (\<lambda>(e, s).
     if e \<noteq> None then Some (e, s)
     else let s = s\<lparr>sv_time := clock n\<rparr> in
       if snd (enet_socket_wait (select n) WAIT_RECEIVE 0) = WAIT_RECEIVE then service_loop clock select (Suc n) s
       else Some (None, s)))))"

definition enet_host_service ::
  "(nat \<Rightarrow> 32 word) \<Rightarrow> (nat \<Rightarrow> bool \<Rightarrow> bool \<Rightarrow> nat \<times> nat \<Rightarrow> int \<times> bool \<times> bool) \<Rightarrow> service \<Rightarrow> (int option \<times> service) option" where
  "enet_host_service clock select s =
     Option.bind (service_event s) (\<lambda>(e, s).
     if e \<noteq> None then Some (e, s) else service_loop clock select 1 (s\<lparr>sv_time := clock 0\<rparr>))"

subsection \<open>Facts\<close>

lemma ucast_up_down16: "ucast (ucast x :: 32 word) = (x :: 16 word)"
  by transfer simp

lemma ucast_add32: "ucast (x + y :: 64 word) = (ucast x + ucast y :: 32 word)"
  by (transfer, subst (2) take_bit_add [symmetric]) (simp add: take_bit_add)

lemma ucast_sub32: "ucast (x - y :: 64 word) = (ucast x - ucast y :: 32 word)"
  by (transfer, subst (2) take_bit_diff [symmetric]) (simp add: take_bit_diff)

lemma swap16_swap16 [simp]: "swap16 (swap16 x) = x"
  by (rule bit_word_eqI) (auto simp: swap16_def bit_simps)

text \<open>A host that sends to the address it has received from reaches the name it was given.\<close>

theorem receive_then_send:
  assumes "enet_socket_receive recvmsg sock (Some a) = (None, Some b)"
  shows "enet_socket_send sendmsg sock (Some b) bufs =
    (let (sent, wouldblock) = sendmsg sock (Some (rv_name (recvmsg sock))) bufs in
     if sent = -1 then (if wouldblock then 0 else -1) else sent)"
proof -
  define n where "n = rv_name (recvmsg sock)"
  have "b = \<lparr>ad_host = sin_addr n, ad_port = ucast (swap16 (sin_port n))\<rparr>"
    using assms by (auto simp: n_def enet_socket_receive_def Let_def split: if_splits)
  then have "\<lparr>sin_port = swap16 (ucast (ad_port b)), sin_addr = ad_host b\<rparr> = n" by (cases n) (simp add: ucast_up_down16)
  then show ?thesis by (simp add: enet_socket_send_def n_def)
qed

text \<open>A name that only \<open>inet_aton\<close> understands leaves the port as it was.\<close>

theorem dotted_address_keeps_port:
  assumes "gethostbyname name = None" "inet_aton name = Some host"
  shows "enet_address_set_host gethostbyname inet_aton a name port = (0, a\<lparr>ad_host := host\<rparr>)"
  using assms by (simp add: enet_address_set_host_def)

text \<open>Times differ by the milliseconds between them, modulo \<open>2 ^ 32\<close>, across the wrap-around.\<close>

theorem time_differences:
  "enet_time_get (s + d) u b - enet_time_get s u b = ucast (d * 1000 :: 64 word)"
proof -
  have u: "ucast (x + y :: 64 word) = (ucast x + ucast y :: 32 word)" "ucast (x - y) = (ucast x - ucast y :: 32 word)" for x y :: "64 word"
    by (rule ucast_add32, rule ucast_sub32)
  show ?thesis by (simp add: enet_time_get_def u algebra_simps)
qed

theorem service_undefined: "enet_host_service clock select s = None"
proof -
  have "service_loop clock select n s = None" for n s
    by (subst service_loop.simps) (simp add: enet_protocol_send_outgoing_commands_def no_value_def)
  then show ?thesis
    by (simp add: enet_host_service_def service_event_def enet_protocol_dispatch_incoming_commands_def no_value_def)
qed

end
