(* ===== verification/Kv_Parser.thy ===== *)
theory Kv_Parser
  imports Prelude "HOL-Library.Char_ord" "HOL-Library.List_Lexorder"
begin

section \<open>cpp: the key-value parser\<close>

text \<open>
  \<open>cpp/kv_parser.cpp\<close> and \<open>kv_parser.h\<close>: a string of \<open>key=value\<close> pairs, and a map of them.  A C
  string is the list of its characters before the null byte; \<open>char_at\<close> reads the null byte at its
  end and is undefined beyond.  The map is \<open>std::map\<close>, a list in the order of the keys.
\<close>

type_synonym kv_map = "(string \<times> string) list"

abbreviation NUL :: char where
  "NUL \<equiv> CHR 0x00"

definition char_at :: "string \<Rightarrow> nat \<Rightarrow> char option" where
  "char_at s i = nth_opt (s @ [NUL]) i"

text \<open>\<open>while (str[i] != 0 && P(str[i])) ++i\<close>.\<close>

partial_function (option) scan :: "(char \<Rightarrow> bool) \<Rightarrow> string \<Rightarrow> nat \<Rightarrow> nat option" where
  "scan P s i = Option.bind (char_at s i) (\<lambda>c. if c \<noteq> NUL \<and> P c then scan P s (i + 1) else Some i)"

fun map_put :: "string \<Rightarrow> string \<Rightarrow> kv_map \<Rightarrow> kv_map" where
  "map_put k v [] = [(k, v)]"
| "map_put k v ((a, b) # m) =
     (if k < a then (k, v) # (a, b) # m else if k = a then (a, v) # m else (a, b) # map_put k v m)"

definition kv_substr :: "string \<Rightarrow> nat \<Rightarrow> nat \<Rightarrow> string" where
  "kv_substr s p n = take n (drop p s)"

partial_function (option) parse_loop :: "string \<Rightarrow> nat \<Rightarrow> int \<Rightarrow> kv_map \<Rightarrow> (int \<times> kv_map) option" where
  "parse_loop s key_start has_kv m =
     Option.bind (char_at s key_start) (\<lambda>c.
     if c = NUL then Some (has_kv, m)
     else
       Option.bind (scan (\<lambda>c. c = CHR '';'' \<or> c = CHR '' '') s key_start) (\<lambda>ks.
       Option.bind (scan (\<lambda>c. c \<noteq> CHR '' '' \<and> c \<noteq> CHR ''='') s ks) (\<lambda>ke.
       Option.bind (scan (\<lambda>c. c = CHR ''='' \<or> c = CHR '' '') s ke) (\<lambda>vs.
       Option.bind (scan (\<lambda>c. c \<noteq> CHR '' '' \<and> c \<noteq> CHR '';'') s vs) (\<lambda>ve.
       if ke > ks \<and> ve > vs
       then parse_loop s ve 1 (map_put (kv_substr s ks (ke - ks)) (kv_substr s vs (ve - vs)) m)
       else parse_loop s ve has_kv m)))))"

definition parse_string :: "string \<Rightarrow> kv_map \<Rightarrow> (int \<times> kv_map) option" where
  "parse_string s m = parse_loop s 0 0 m"

definition new_kv_parser :: "string \<Rightarrow> kv_map option" where
  "new_kv_parser s = map_option snd (parse_string s [])"

definition kv_clear :: "kv_map \<Rightarrow> kv_map" where
  "kv_clear m = []"

definition kv_get :: "kv_map \<Rightarrow> string \<Rightarrow> string option" where
  "kv_get m k = map_of m k"

definition kv_set :: "string \<Rightarrow> string \<Rightarrow> kv_map \<Rightarrow> kv_map" where
  "kv_set k v m = map_put k v m"

text \<open>The last separator is overwritten with a null byte, which stays in the string.\<close>

definition make_str :: "kv_map \<Rightarrow> string" where
  "make_str m = (let out = concat (map (\<lambda>(k, v). k @ ''='' @ v @ '';'') m) in
     if length out > 0 then out[length out - 1 := NUL] else out)"

definition c_str :: "string \<Rightarrow> string" where
  "c_str s = takeWhile (\<lambda>c. c \<noteq> NUL) s"

subsection \<open>The map\<close>

lemma map_put_of: "sorted (map fst m) \<Longrightarrow> distinct (map fst m) \<Longrightarrow> map_of (map_put k v m) = (map_of m)(k \<mapsto> v)"
  by (induction k v m rule: map_put.induct) (auto simp: fun_eq_iff)

lemma map_put_keys: "fst ` set (map_put k v m) = insert k (fst ` set m)"
  by (induction k v m rule: map_put.induct) auto

lemma map_put_sorted:
  "sorted (map fst m) \<Longrightarrow> distinct (map fst m) \<Longrightarrow> sorted (map fst (map_put k v m)) \<and> distinct (map fst (map_put k v m))"
proof (induction k v m rule: map_put.induct)
  case (1 k v)
  then show ?case by simp
next
  case (2 k v a b m)
  then show ?case using map_put_keys [of k v m] by (auto simp: image_iff)
qed

text \<open>A key above all others goes to the end.\<close>

lemma map_put_last: "\<forall>a \<in> fst ` set m. a < k \<Longrightarrow> map_put k v m = m @ [(k, v)]"
  by (induction k v m rule: map_put.induct) auto

subsection \<open>Scanning\<close>

lemma char_at_pos: "char_at (pre @ x # rest) (length pre) = Some x"
  by (simp add: char_at_def nth_append)

lemma char_at_end: "char_at s (length s) = Some NUL"
  by (simp add: char_at_def nth_append)

lemma scan_run:
  "\<forall>c \<in> set xs. c \<noteq> NUL \<and> P c \<Longrightarrow> rest = [] \<or> hd rest = NUL \<or> \<not> P (hd rest) \<Longrightarrow>
   scan P (pre @ xs @ rest) (length pre) = Some (length pre + length xs)"
proof (induction xs arbitrary: pre)
  case Nil
  show ?case
  proof (cases rest)
    case Nil
    then show ?thesis by (subst scan.simps) (simp add: char_at_end)
  next
    case (Cons x ys)
    then show ?thesis using Nil.prems by (subst scan.simps) (auto simp: char_at_pos)
  qed
next
  case (Cons x xs)
  have "scan P ((pre @ [x]) @ xs @ rest) (length (pre @ [x])) = Some (length (pre @ [x]) + length xs)"
    using Cons by (intro Cons.IH) auto
  then show ?case using Cons.prems by (subst scan.simps) (simp add: char_at_pos)
qed

text \<open>A scan of a string without null bytes ends, and stops where its test fails.\<close>

lemma scan_total:
  assumes "NUL \<notin> set s" "i \<le> length s"
  shows "\<exists>j. scan P s i = Some j \<and> i \<le> j \<and> j \<le> length s \<and> (\<forall>c \<in> set (take (j - i) (drop i s)). P c) \<and>
    (j < length s \<longrightarrow> \<not> P (s ! j))"
  using assms(2)
proof (induction "length s - i" arbitrary: i)
  case 0
  then have "i = length s" by simp
  then show ?case by (subst scan.simps) (simp add: char_at_end)
next
  case (Suc n)
  then have l: "i < length s" by simp
  then have mem: "s ! i \<in> set s" by (rule nth_mem)
  have "s ! i \<noteq> NUL" using mem assms(1) by metis
  with l have i: "i < length s" "char_at s i = Some (s ! i)" "s ! i \<noteq> NUL" by (simp_all add: char_at_def nth_append)
  show ?case
  proof (cases "P (s ! i)")
    case True
    have hn: "n = length s - (i + 1)" using Suc.hyps(2) by simp
    obtain j where j: "scan P s (i + 1) = Some j" "i + 1 \<le> j" "j \<le> length s"
      "\<forall>c \<in> set (take (j - (i + 1)) (drop (i + 1) s)). P c" "j < length s \<longrightarrow> \<not> P (s ! j)"
      using Suc.hyps(1) [OF hn] l by auto
    have "take (j - i) (drop i s) = s ! i # take (j - (i + 1)) (drop (i + 1) s)"
      using i(1) j(2) by (simp add: Cons_nth_drop_Suc [symmetric] take_Cons')
    then have "\<forall>c \<in> set (take (j - i) (drop i s)). P c" using True j(4) by simp
    moreover have "scan P s i = Some j" using i True j(1) by (subst scan.simps) simp
    ultimately show ?thesis using j(2,3,5) by (intro exI [of _ j]) simp
  next
    case False
    then have "scan P s i = Some i" using i by (subst scan.simps) simp
    then show ?thesis using False i(1) by (intro exI [of _ i]) simp
  qed
qed

subsection \<open>Parsing ends\<close>

lemma parse_loop_total:
  assumes "NUL \<notin> set s" "i \<le> length s"
  shows "\<exists>r. parse_loop s i h m = Some r"
  using assms(2)
proof (induction "length s - i" arbitrary: i h m rule: less_induct)
  case less
  show ?case
  proof (cases "i = length s")
    case True
    then show ?thesis by (subst parse_loop.simps) (simp add: char_at_end)
  next
    case False
    then have i: "i < length s" using less.prems by simp
    obtain ks where ks: "scan (\<lambda>c. c = CHR '';'' \<or> c = CHR '' '') s i = Some ks" "i \<le> ks" "ks \<le> length s"
      "ks < length s \<longrightarrow> \<not> (s ! ks = CHR '';'' \<or> s ! ks = CHR '' '')"
      using scan_total [OF assms(1) less.prems] by blast
    obtain ke where ke: "scan (\<lambda>c. c \<noteq> CHR '' '' \<and> c \<noteq> CHR ''='') s ks = Some ke" "ks \<le> ke" "ke \<le> length s"
      "ke < length s \<longrightarrow> \<not> (s ! ke \<noteq> CHR '' '' \<and> s ! ke \<noteq> CHR ''='')"
      using scan_total [OF assms(1) ks(3)] by blast
    obtain vs where vs: "scan (\<lambda>c. c = CHR ''='' \<or> c = CHR '' '') s ke = Some vs" "ke \<le> vs" "vs \<le> length s"
      "vs < length s \<longrightarrow> \<not> (s ! vs = CHR ''='' \<or> s ! vs = CHR '' '')"
      using scan_total [OF assms(1) ke(3)] by blast
    obtain ve where ve: "scan (\<lambda>c. c \<noteq> CHR '' '' \<and> c \<noteq> CHR '';'') s vs = Some ve" "vs \<le> ve" "ve \<le> length s"
      using scan_total [OF assms(1) vs(3)] by blast
    have "i < ve"
    proof (rule ccontr)
      assume "\<not> i < ve"
      then have "ks = i" "ke = i" "vs = i" using ks(2) ke(2) vs(2) ve(2) by simp_all
      then show False using i ks(4) ke(4) vs(4) by auto
    qed
    then have "\<exists>r. parse_loop s ve h' m' = Some r" for h' m' using less.hyps [of ve] ve(3) by simp
    then show ?thesis using i ks(1) ke(1) vs(1) ve(1) by (subst parse_loop.simps) (simp add: char_at_def)
  qed
qed

subsection \<open>Printing and parsing\<close>

definition key_ok :: "string \<Rightarrow> bool" where
  "key_ok k \<longleftrightarrow> k \<noteq> [] \<and> hd k \<noteq> CHR '';'' \<and> set k \<inter> {NUL, CHR '' '', CHR ''=''} = {}"

definition value_ok :: "string \<Rightarrow> bool" where
  "value_ok v \<longleftrightarrow> v \<noteq> [] \<and> hd v \<noteq> CHR ''='' \<and> set v \<inter> {NUL, CHR '' '', CHR '';''} = {}"

definition pair_str :: "string \<times> string \<Rightarrow> string" where
  "pair_str kv = fst kv @ ''='' @ snd kv"

text \<open>One round of the loop, on a pair that starts at the front or after a separator.\<close>

lemma parse_pair:
  assumes "key_ok k" "value_ok v" "rest = [] \<or> hd rest = CHR '';''" "set sep \<subseteq> {CHR '';''}"
  shows "parse_loop (pre @ sep @ pair_str (k, v) @ rest) (length pre) h m =
    parse_loop (pre @ sep @ pair_str (k, v) @ rest) (length (pre @ sep @ pair_str (k, v))) 1 (map_put k v m)"
proof -
  let ?s = "pre @ sep @ pair_str (k, v) @ rest"
  have k: "k \<noteq> []" "\<forall>c \<in> set k. c \<noteq> NUL \<and> c \<noteq> CHR '' '' \<and> c \<noteq> CHR ''=''" "hd k \<noteq> CHR '';''"
    using assms(1) by (auto simp: key_ok_def)
  have v: "v \<noteq> []" "\<forall>c \<in> set v. c \<noteq> NUL \<and> c \<noteq> CHR '' '' \<and> c \<noteq> CHR '';''" "hd v \<noteq> CHR ''=''"
    using assms(2) by (auto simp: value_ok_def)
  have hk: "hd k \<in> set k" and hv: "hd v \<in> set v" using k(1) v(1) by simp_all
  have "scan (\<lambda>c. c = CHR '';'' \<or> c = CHR '' '') (pre @ sep @ (k @ ''='' @ v @ rest)) (length pre) = Some (length pre + length sep)"
    using assms(4) k hk by (intro scan_run) (auto simp: hd_append)
  moreover have "scan (\<lambda>c. c \<noteq> CHR '' '' \<and> c \<noteq> CHR ''='') ((pre @ sep) @ k @ (''='' @ v @ rest)) (length (pre @ sep)) =
      Some (length (pre @ sep) + length k)"
    using k(2) by (intro scan_run) auto
  moreover have "scan (\<lambda>c. c = CHR ''='' \<or> c = CHR '' '') ((pre @ sep @ k) @ ''='' @ (v @ rest)) (length (pre @ sep @ k)) =
      Some (length (pre @ sep @ k) + length ''='')"
    using v hv by (intro scan_run) (auto simp: hd_append)
  moreover have "scan (\<lambda>c. c \<noteq> CHR '' '' \<and> c \<noteq> CHR '';'') ((pre @ sep @ k @ ''='') @ v @ rest) (length (pre @ sep @ k @ ''='')) =
      Some (length (pre @ sep @ k @ ''='') + length v)"
    using v(2) assms(3) by (intro scan_run) auto
  moreover obtain c where "char_at ?s (length pre) = Some c" "c \<noteq> NUL"
  proof (cases sep)
    case Nil
    obtain x xs where "k = x # xs" using k(1) by (cases k) auto
    then show ?thesis using that [of x] Nil k(2) char_at_pos [of pre x "xs @ ''='' @ v @ rest"] by (simp add: pair_str_def)
  next
    case (Cons x xs)
    then show ?thesis using that [of x] assms(4) char_at_pos [of pre x] by auto
  qed
  ultimately show ?thesis using k(1) v(1)
    by (subst parse_loop.simps) (simp add: pair_str_def kv_substr_def add.assoc)
qed

definition joined :: "kv_map \<Rightarrow> string" where
  "joined m = concat (map (\<lambda>kv. CHR '';'' # pair_str kv) m)"

lemma parse_joined:
  "\<forall>(k, v) \<in> set n. key_ok k \<and> value_ok v \<Longrightarrow> sorted (map fst (m @ n)) \<Longrightarrow> distinct (map fst (m @ n)) \<Longrightarrow>
   parse_loop (pre @ joined n) (length pre) h m = Some (if n = [] then h else 1, m @ n)"
proof (induction n arbitrary: pre h m)
  case Nil
  then show ?case by (subst parse_loop.simps) (simp add: joined_def char_at_end)
next
  case (Cons kv n)
  obtain k v where kv: "kv = (k, v)" by fastforce
  have ok: "key_ok k" "value_ok v" "\<forall>(k, v) \<in> set n. key_ok k \<and> value_ok v" using Cons.prems(1) kv by auto
  have j: "joined ((k, v) # n) = '';'' @ pair_str (k, v) @ joined n" "joined n = [] \<or> hd (joined n) = CHR '';''"
    by (simp add: joined_def) (cases n; simp add: joined_def)
  have "\<forall>a \<in> fst ` set m. a \<le> k" "k \<notin> fst ` set m" using Cons.prems(2,3) kv by (auto simp: sorted_append)
  then have "\<forall>a \<in> fst ` set m. a < k" by (metis order_le_imp_less_or_eq)
  then have put: "map_put k v m = m @ [(k, v)]" by (rule map_put_last)
  have "parse_loop ((pre @ '';'' @ pair_str (k, v)) @ joined n) (length (pre @ '';'' @ pair_str (k, v))) 1 (m @ [(k, v)]) =
      Some (if n = [] then 1 else 1, (m @ [(k, v)]) @ n)"
    using Cons.prems(2,3) kv ok(3) by (intro Cons.IH) simp_all
  then show ?case using parse_pair [OF ok(1,2) j(2), of "'';''" pre h m] put by (simp add: j(1) kv)
qed

lemma joined_no_null: "\<forall>(k, v) \<in> set m. key_ok k \<and> value_ok v \<Longrightarrow> NUL \<notin> set (joined m)"
  by (induction m) (auto simp: joined_def pair_str_def key_ok_def value_ok_def)

lemma make_str_eq:
  assumes "\<forall>(k, v) \<in> set m. key_ok k \<and> value_ok v"
  shows "c_str (make_str m) = drop 1 (joined m)"
proof (cases m rule: rev_cases)
  case Nil
  then show ?thesis by (simp add: make_str_def joined_def c_str_def)
next
  case (snoc n kv)
  let ?f = "\<lambda>(k, v). k @ ''='' @ v @ '';''"
  have shift: "'';'' @ concat (map ?f l) = joined l @ '';''" for l
    by (induction l) (auto simp: joined_def pair_str_def)
  obtain x xs where j: "joined m = x # xs" using snoc by (cases "joined m") (simp_all add: joined_def)
  have "concat (map ?f m) = xs @ '';''" using shift [of m] unfolding j append_Cons append_Nil list.inject by (rule conjunct2)
  then have "make_str m = xs @ [NUL]" unfolding make_str_def Let_def by simp
  moreover have "NUL \<notin> set (joined m)" using assms by (rule joined_no_null)
  then have "\<forall>c \<in> set xs. c \<noteq> NUL" unfolding j by auto
  moreover have "drop 1 (joined m) = xs" unfolding j by simp
  ultimately show ?thesis by (simp add: c_str_def takeWhile_append2)
qed

text \<open>
  C24. What \<open>make_str\<close> prints, the parser reads back: for a map whose keys are not empty, have no
  space or equals sign and do not start with a semicolon, and whose values are not empty, have
  no space or semicolon and do not start with an equals sign.
\<close>

theorem kv_round_trip:
  assumes "sorted (map fst m)" "distinct (map fst m)" "\<forall>(k, v) \<in> set m. key_ok k \<and> value_ok v"
  shows "parse_string (c_str (make_str m)) [] = Some (if m = [] then 0 else 1, m)"
proof (cases m)
  case Nil
  then show ?thesis by (subst make_str_eq) (simp_all add: joined_def parse_string_def, subst parse_loop.simps, simp add: char_at_def)
next
  case (Cons kv n)
  obtain k v where kv: "kv = (k, v)" by fastforce
  have ok: "key_ok k" "value_ok v" "\<forall>(k, v) \<in> set n. key_ok k \<and> value_ok v" using assms(3) Cons kv by auto
  have s: "c_str (make_str m) = pair_str (k, v) @ joined n"
    by (subst make_str_eq [OF assms(3)]) (simp add: Cons kv joined_def)
  have j: "joined n = [] \<or> hd (joined n) = CHR '';''" by (cases n) (simp_all add: joined_def)
  have "parse_loop (pair_str (k, v) @ joined n) (length (pair_str (k, v))) 1 [(k, v)] = Some (if n = [] then 1 else 1, [(k, v)] @ n)"
    using assms(1,2) Cons kv ok(3) by (intro parse_joined) simp_all
  then show ?thesis using parse_pair [OF ok(1,2) j, of "[]" "[]" 0 "[]"] s Cons kv by (simp add: parse_string_def)
qed

text \<open>What the parser puts into its map, from any string.\<close>

definition entry_ok :: "string \<times> string \<Rightarrow> bool" where
  "entry_ok kv \<longleftrightarrow> fst kv \<noteq> [] \<and> snd kv \<noteq> [] \<and> set (fst kv) \<inter> {CHR '' '', CHR ''=''} = {} \<and> set (snd kv) \<inter> {CHR '' '', CHR '';''} = {}"

definition map_ok :: "kv_map \<Rightarrow> bool" where
  "map_ok m \<longleftrightarrow> sorted (map fst m) \<and> distinct (map fst m) \<and> (\<forall>kv \<in> set m. entry_ok kv)"

lemma map_put_set: "set (map_put k v m) \<subseteq> insert (k, v) (set m)"
  by (induction k v m rule: map_put.induct) auto

lemma map_put_ok: "map_ok m \<Longrightarrow> entry_ok (k, v) \<Longrightarrow> map_ok (map_put k v m)"
  using map_put_sorted [of m k v] map_put_set [of k v m] by (auto simp: map_ok_def)

lemma scan_facts:
  assumes "NUL \<notin> set s" "i \<le> length s" "scan P s i = Some j"
  shows "i \<le> j" "j \<le> length s" "\<forall>c \<in> set (kv_substr s i (j - i)). P c"
  using scan_total [OF assms(1,2), of P] assms(3) by (auto simp: kv_substr_def)

lemma parse_loop_map:
  assumes "parse_loop s i h m = Some r" "NUL \<notin> set s"
  shows "i \<le> length s \<longrightarrow> map_ok m \<longrightarrow> map_ok (snd r)"
proof -
  have "NUL \<notin> set s \<longrightarrow> i \<le> length s \<longrightarrow> map_ok m \<longrightarrow> map_ok (snd r)"
  proof (rule parse_loop.raw_induct [where P = "\<lambda>s i h m r. NUL \<notin> set s \<longrightarrow> i \<le> length s \<longrightarrow> map_ok m \<longrightarrow> map_ok (snd r)", OF _ assms(1)], intro impI)
    fix pl s i h m r
    assume IH: "\<And>s i h m r. pl s i h m = Some r \<Longrightarrow> NUL \<notin> set s \<longrightarrow> i \<le> length s \<longrightarrow> map_ok m \<longrightarrow> map_ok (snd r)"
      and run: "Option.bind (char_at s i) (\<lambda>c. if c = NUL then Some (h, m) else
        Option.bind (scan (\<lambda>c. c = CHR '';'' \<or> c = CHR '' '') s i) (\<lambda>ks.
        Option.bind (scan (\<lambda>c. c \<noteq> CHR '' '' \<and> c \<noteq> CHR ''='') s ks) (\<lambda>ke.
        Option.bind (scan (\<lambda>c. c = CHR ''='' \<or> c = CHR '' '') s ke) (\<lambda>vs.
        Option.bind (scan (\<lambda>c. c \<noteq> CHR '' '' \<and> c \<noteq> CHR '';'') s vs) (\<lambda>ve.
        if ke > ks \<and> ve > vs then pl s ve 1 (map_put (kv_substr s ks (ke - ks)) (kv_substr s vs (ve - vs)) m) else pl s ve h m))))) = Some r"
      and s: "NUL \<notin> set s" and i: "i \<le> length s" and m: "map_ok m"
    show "map_ok (snd r)"
    proof (cases "char_at s i = Some NUL")
      case True
      then show ?thesis using run m by auto
    next
      case False
      then obtain ks ke vs ve where sc: "scan (\<lambda>c. c = CHR '';'' \<or> c = CHR '' '') s i = Some ks"
        "scan (\<lambda>c. c \<noteq> CHR '' '' \<and> c \<noteq> CHR ''='') s ks = Some ke" "scan (\<lambda>c. c = CHR ''='' \<or> c = CHR '' '') s ke = Some vs"
        "scan (\<lambda>c. c \<noteq> CHR '' '' \<and> c \<noteq> CHR '';'') s vs = Some ve"
        and rest: "(if ke > ks \<and> ve > vs then pl s ve 1 (map_put (kv_substr s ks (ke - ks)) (kv_substr s vs (ve - vs)) m) else pl s ve h m) = Some r"
        using run by (auto simp: bind_eq_Some_conv split: if_splits)
      note f1 = scan_facts [OF s i sc(1)]
      note f2 = scan_facts [OF s f1(2) sc(2)]
      note f3 = scan_facts [OF s f2(2) sc(3)]
      note f4 = scan_facts [OF s f3(2) sc(4)]
      show ?thesis
      proof (cases "ke > ks \<and> ve > vs")
        case True
        then have "kv_substr s ks (ke - ks) \<noteq> []" "kv_substr s vs (ve - vs) \<noteq> []" using f2(2) f4(2) by (simp_all add: kv_substr_def)
        then have "entry_ok (kv_substr s ks (ke - ks), kv_substr s vs (ve - vs))" using f2(3) f4(3) unfolding entry_ok_def by auto
        then have ok: "map_ok (map_put (kv_substr s ks (ke - ks)) (kv_substr s vs (ve - vs)) m)" by (rule map_put_ok [OF m])
        have "pl s ve 1 (map_put (kv_substr s ks (ke - ks)) (kv_substr s vs (ve - vs)) m) = Some r" using rest True by simp
        from IH [OF this] s f4(2) ok show ?thesis by blast
      next
        case False
        then have "pl s ve h m = Some r" using rest by (simp split: if_splits)
        from IH [OF this] s f4(2) m show ?thesis by blast
      qed
    qed
  qed
  then show ?thesis using assms(2) by simp
qed

text \<open>
  Parsing any string ends without reading past its end, and the map it makes has its keys in
  order, each key once, keys without spaces and equals signs, values without spaces and
  semicolons, and nothing empty.
\<close>

theorem parse_any:
  assumes "NUL \<notin> set s"
  shows "\<exists>h m. parse_string s [] = Some (h, m) \<and> map_ok m"
proof -
  obtain h m where r: "parse_loop s 0 0 [] = Some (h, m)" using parse_loop_total [OF assms, of 0] by fastforce
  have "map_ok []" by (simp add: map_ok_def)
  then have "map_ok m" using parse_loop_map [OF r assms] by simp
  then show ?thesis using r by (simp add: parse_string_def)
qed

subsection \<open>Examples\<close>

theorem kv_round_trip_witness:
  "parse_string (c_str (make_str [(''k1'', ''v1''), (''k2'', ''v2'')])) [] = Some (1, [(''k1'', ''v1''), (''k2'', ''v2'')])"
proof -
  have "sorted (map fst [(''k1'', ''v1''), (''k2'', ''v2'')])" by (simp add: less_eq_char_def)
  then show ?thesis using kv_round_trip [of "[(''k1'', ''v1''), (''k2'', ''v2'')]"]
    by (simp add: key_ok_def value_ok_def)
qed

theorem parse_any_witness: "\<exists>h m. parse_string ''k1=v1; k2 =  v2  ;'' [] = Some (h, m) \<and> map_ok m"
  by (rule parse_any) simp

end
