(* ===== verification/Obj_Pool.thy ===== *)
theory Obj_Pool
  imports Prelude
begin

section \<open>cpp: pools of objects with identifiers\<close>

text \<open>
  \<open>cpp/obj_allocator.h\<close>, a template that hands out objects under numbers, and \<open>cpp/obj_a.cpp\<close> with
  \<open>obj_b\<close>, the same for one class behind a single instance.  Objects live in a store;
  \<open>new\<close> returns an address that is not in use, a parameter of the call, and raises no exception.
\<close>

record 'a allocator =
  objs :: "'a store"
  pool :: "nat list"
  num_used_obj :: int

definition new_allocator :: "'a store \<Rightarrow> 'a allocator" where
  "new_allocator h = \<lparr>objs = h, pool = [], num_used_obj = 0\<rparr>"

definition GetNewObj :: "nat \<Rightarrow> 'a \<Rightarrow> 'a allocator \<Rightarrow> int \<times> 'a allocator" where
  "GetNewObj a x s =
     (let s' = (if num_used_obj s \<ge> int (length (pool s)) then s\<lparr>objs := (objs s)(a \<mapsto> x), pool := pool s @ [a]\<rparr> else s)
      in (num_used_obj s', s'\<lparr>num_used_obj := num_used_obj s' + 1\<rparr>))"

definition GetObj :: "int \<Rightarrow> 'a allocator \<Rightarrow> ptr option" where
  "GetObj i s =
     (if i < num_used_obj s
      then (if 0 \<le> i \<and> nat i < length (pool s) then Some (Ptr (pool s ! nat i)) else None)
      else Some Null)"

fun release_objs :: "nat list \<Rightarrow> 'a store \<Rightarrow> 'a store option" where
  "release_objs [] h = Some h"
| "release_objs (a # as) h = Option.bind (dispose h (Ptr a)) (release_objs as)"

definition Release :: "'a allocator \<Rightarrow> 'a store option" where
  "Release s = release_objs (pool s) (objs s)"

subsection \<open>The pool of one class\<close>

record obj_world =
  obj_b_id :: "int store"
  inst :: "nat list option"

text \<open>\<open>obj_a::instance\<close>: the one pool is made on the first call.\<close>

definition obj_instance :: "obj_world \<Rightarrow> nat list \<times> obj_world" where
  "obj_instance w = (case inst w of Some p \<Rightarrow> (p, w) | None \<Rightarrow> ([], w\<lparr>inst := Some []\<rparr>))"

definition new_obj_b :: "nat \<Rightarrow> obj_world \<Rightarrow> obj_world" where
  "new_obj_b a w = w\<lparr>obj_b_id := (obj_b_id w)(a \<mapsto> -1)\<rparr>"

definition set_id :: "ptr \<Rightarrow> int \<Rightarrow> obj_world \<Rightarrow> obj_world option" where
  "set_id p i w = map_option (\<lambda>h. w\<lparr>obj_b_id := h\<rparr>) (assign (obj_b_id w) p (\<lambda>_. i))"

definition get_id :: "ptr \<Rightarrow> obj_world \<Rightarrow> int option" where
  "get_id p w = deref (obj_b_id w) p"

definition get_new_obj_b :: "nat \<Rightarrow> obj_world \<Rightarrow> (int \<times> obj_world) option" where
  "get_new_obj_b a w =
     (let (p, w) = obj_instance w; cnt = int (length p) in
      map_option (\<lambda>w. (cnt, w\<lparr>inst := Some (p @ [a])\<rparr>)) (set_id (Ptr a) cnt (new_obj_b a w)))"

definition get_obj_b_by_id :: "int \<Rightarrow> obj_world \<Rightarrow> ptr \<times> obj_world" where
  "get_obj_b_by_id i w =
     (let (p, w) = obj_instance w in
      (if i < int (length p) \<and> i \<ge> 0 then Ptr (p ! nat i) else Null, w))"

definition obj_release :: "obj_world \<Rightarrow> int store option" where
  "obj_release w = (case inst w of None \<Rightarrow> Some (obj_b_id w) | Some p \<Rightarrow> release_objs p (obj_b_id w))"

subsection \<open>Identifiers name objects\<close>

lemma release_objs_all:
  "distinct as \<Longrightarrow> set as \<subseteq> dom h \<Longrightarrow> release_objs as h = Some (h |` (- set as))"
proof (induction "as" arbitrary: h)
  case (Cons a as)
  obtain x where "h a = Some x" using Cons.prems(2) by auto
  then have "release_objs (a # as) h = release_objs as (h(a := None))" by simp
  also have "\<dots> = Some ((h(a := None)) |` (- set as))" using Cons.prems by (intro Cons.IH) auto
  finally show ?case by (simp add: restrict_map_def fun_eq_iff)
qed (simp add: restrict_map_def fun_eq_iff)

text \<open>What a sequence of calls of \<open>GetNewObj\<close> leaves, for the addresses and the values of \<open>new\<close>.\<close>

fun get_all :: "(nat \<times> 'a) list \<Rightarrow> 'a allocator \<Rightarrow> int list \<times> 'a allocator" where
  "get_all [] s = ([], s)"
| "get_all ((a, x) # news) s =
     (let (i, s) = GetNewObj a x s; (is, s) = get_all news s in (i # is, s))"

definition alloc_ok :: "'a allocator \<Rightarrow> bool" where
  "alloc_ok s \<longleftrightarrow> num_used_obj s = int (length (pool s)) \<and> distinct (pool s) \<and> set (pool s) \<subseteq> dom (objs s)"

lemma get_new_ok:
  assumes "alloc_ok s" "objs s a = None"
  shows "GetNewObj a x s = (int (length (pool s)), \<lparr>objs = (objs s)(a \<mapsto> x), pool = pool s @ [a], num_used_obj = int (length (pool s)) + 1\<rparr>)"
    and "alloc_ok (snd (GetNewObj a x s))"
proof -
  show eq: "GetNewObj a x s = (int (length (pool s)), \<lparr>objs = (objs s)(a \<mapsto> x), pool = pool s @ [a], num_used_obj = int (length (pool s)) + 1\<rparr>)"
    using assms(1) by (cases s) (simp add: alloc_ok_def GetNewObj_def Let_def)
  have "a \<notin> set (pool s)" using assms by (auto simp: alloc_ok_def)
  then show "alloc_ok (snd (GetNewObj a x s))" using assms(1) by (auto simp: eq alloc_ok_def)
qed

lemma get_all_ok:
  assumes "alloc_ok s" "distinct (map fst news)" "\<forall>a \<in> fst ` set news. objs s a = None"
  shows "\<exists>s'. get_all news s = (map int [length (pool s) ..< length (pool s) + length news], s') \<and> alloc_ok s' \<and>
    pool s' = pool s @ map fst news \<and> objs s' = objs s ++ map_of (rev news)"
  using assms
proof (induction news arbitrary: s)
  case Nil
  then show ?case by simp
next
  case (Cons n news)
  obtain a x where n: "n = (a, x)" by (cases n)
  obtain i s1 where s1: "GetNewObj a x s = (i, s1)" by (cases "GetNewObj a x s")
  have new: "objs s a = None" using Cons.prems(3) n by simp
  have s1': "i = int (length (pool s))" "objs s1 = (objs s)(a \<mapsto> x)" "pool s1 = pool s @ [a]" "alloc_ok s1"
    using get_new_ok [OF Cons.prems(1) new, of x] s1 by auto
  have "\<forall>b \<in> fst ` set news. objs s1 b = None" using Cons.prems(2, 3) n s1'(2) by auto
  then obtain s' where s': "get_all news s1 = (map int [length (pool s1) ..< length (pool s1) + length news], s')" "alloc_ok s'"
      "pool s' = pool s1 @ map fst news" "objs s' = objs s1 ++ map_of (rev news)"
    using Cons.IH [OF s1'(4)] Cons.prems(2) n by auto
  have "[length (pool s) ..< length (pool s) + length (n # news)] = length (pool s) # [Suc (length (pool s)) ..< Suc (length (pool s)) + length news]"
    by (subst upt_conv_Cons) simp_all
  moreover have "objs s' = objs s ++ map_of (rev (n # news))" using s'(4) s1'(2) n by (simp add: map_add_def fun_eq_iff split: option.split)
  ultimately show ?case using s' s1 s1' n by simp
qed

text \<open>
  The objects that \<open>GetNewObj\<close> hands out are numbered from 0, and \<open>GetObj\<close> finds each under its
  number; a number that was never handed out gives the null pointer, but a negative one an access
  before the pool.  The destructor frees every object once, and nothing else.
\<close>

theorem identifiers_name_objects:
  assumes "distinct (map fst news)" "\<forall>a \<in> fst ` set news. h a = None"
  shows "\<exists>s. get_all news (new_allocator h) = (map int [0 ..< length news], s) \<and>
    (\<forall>i. GetObj i s = (if i < 0 then None
       else if nat i < length news then Some (Ptr (fst (news ! nat i))) else Some Null)) \<and>
    Release s = Some h"
proof -
  have "alloc_ok (new_allocator h)" by (simp add: alloc_ok_def new_allocator_def)
  then obtain s where s: "get_all news (new_allocator h) = (map int [0 ..< length news], s)" "alloc_ok s" "pool s = map fst news"
      "objs s = h ++ map_of (rev news)"
    using get_all_ok [of "new_allocator h" news] assms by (auto simp: new_allocator_def)
  have "GetObj i s = (if i < 0 then None
       else if nat i < length news then Some (Ptr (fst (news ! nat i))) else Some Null)" for i
    using s(2, 3) by (auto simp: alloc_ok_def GetObj_def)
  moreover have "Release s = Some (objs s |` (- set (pool s)))"
    using s(2) by (simp add: Release_def alloc_ok_def release_objs_all)
  moreover have "objs s |` (- set (pool s)) = h"
  proof
    fix b
    show "(objs s |` (- set (pool s))) b = h b"
    proof (cases "b \<in> fst ` set news")
      case False
      then have "map_of (rev news) b = None" by (simp add: map_of_eq_None_iff)
      then show ?thesis using False s(3, 4) by (simp add: map_add_def)
    qed (use assms(2) s(3) in auto)
  qed
  ultimately show ?thesis using s(1) by auto
qed

theorem identifiers_name_objects_witness:
  "\<exists>s. get_all [(4, ''a''), (7, ''b'')] (new_allocator (\<lambda>_. None)) = ([0, 1], s) \<and>
    GetObj 1 s = Some (Ptr 7) \<and> GetObj 2 s = Some Null \<and> GetObj (-1) s = None \<and> Release s = Some (\<lambda>_. None)"
  using identifiers_name_objects [of "[(4, ''a''), (7, ''b'')]" "\<lambda>_. None"] by (auto simp: upt_rec)

text \<open>The same pool for one class checks both ends, and every object knows its number.\<close>

theorem obj_b_knows_id:
  assumes "get_new_obj_b a w = Some (i, w')" "get_obj_b_by_id i w' = (p, w'')"
  shows "p = Ptr a \<and> get_id p w'' = Some i"
  using assms by (auto simp: Let_def get_new_obj_b_def get_obj_b_by_id_def obj_instance_def set_id_def new_obj_b_def get_id_def split: option.splits)

theorem unknown_id_is_null:
  assumes "obj_instance w = (p, w')" "i < 0 \<or> int (length p) \<le> i"
  shows "get_obj_b_by_id i w = (Null, w')"
  using assms by (auto simp: get_obj_b_by_id_def)

end
