(* ===== verification/Log_Lines.thy ===== *)
theory Log_Lines
  imports Prelude
begin

section \<open>mylog: log lines from a template\<close>

text \<open>
  \<open>mylog/log.h\<close> and \<open>mylog/log.cpp\<close>: a log that fills a template and appends the line to a file.
  Strings are the characters before the null byte.  What the library answers is a parameter: the
  broken-down local time (or none), and whether the file opens.  \<open>_time\<close> is an empty string whose
  storage \<open>getTime\<close> writes through \<open>c_str\<close>; \<open>time_room\<close> is the number of bytes there that the
  implementation lets a program write.  The language promises none: every write through \<open>c_str\<close> is
  undefined, which is the value 0; a library that keeps short strings in the object has 16.  The level and the writer have no value until they are set.
\<close>

subsection \<open>Decimal numbers and strings\<close>

fun digits :: "nat \<Rightarrow> string" where
  "digits n = (if n < 10 then [char_of (48 + n)] else digits (n div 10) @ [char_of (48 + n mod 10)])"

declare digits.simps [simp del]

definition fmt_d :: "int \<Rightarrow> string" where
  "fmt_d i = (if i < 0 then CHR ''-'' # digits (nat (- i)) else digits (nat i))"

text \<open>\<open>strstr\<close>: the first place where the mark occurs.\<close>

fun strstr :: "string \<Rightarrow> string \<Rightarrow> nat option" where
  "strstr [] m = (if m = [] then Some 0 else None)"
| "strstr (c # s) m = (if take (length m) (c # s) = m then Some 0 else map_option Suc (strstr s m))"

text \<open>\<open>std::string::replace\<close>; a null pointer for the new text is undefined.\<close>

definition str_replace :: "string \<Rightarrow> nat \<Rightarrow> nat \<Rightarrow> string option \<Rightarrow> string lres" where
  "str_replace s p n t = fetch t (\<lambda>t. Ret (take p s @ t @ drop (p + n) s))"

subsection \<open>The log\<close>

definition LOG_MAX_BUFF_SIZE :: nat where
  "LOG_MAX_BUFF_SIZE = 1024 * 60"

datatype log_level = LOG_ERROR | LOG_WARNING | LOG_MESSAGE | LOG_DEBUG

fun level_bits :: "log_level \<Rightarrow> 32 word" where
  "level_bits LOG_ERROR = 0x01"
| "level_bits LOG_WARNING = 0x02"
| "level_bits LOG_MESSAGE = 0x04"
| "level_bits LOG_DEBUG = 0x08"

record tm =
  tm_year :: int
  tm_mon :: int
  tm_mday :: int
  tm_hour :: int
  tm_min :: int
  tm_sec :: int

record log_env =
  localtime :: "tm option"
  can_open :: bool

record log_state =
  format :: string
  time_room :: nat
  level :: "32 word option"
  writer :: "string option"
  files :: "string \<Rightarrow> string"

definition TAB :: char where
  "TAB = CHR 0x09"

definition NL :: char where
  "NL = CHR 0x0A"

definition default_format :: string where
  "default_format = ''<TIME>'' @ [TAB] @ ''<LEVEL>'' @ [TAB] @ ''<MESSAGE>'' @ [NL]"

definition setFormat :: "string \<Rightarrow> log_state \<Rightarrow> log_state" where
  "setFormat fmt s = s\<lparr>format := fmt\<rparr>"

definition new_log :: "nat \<Rightarrow> (string \<Rightarrow> string) \<Rightarrow> log_state" where
  "new_log room fs = setFormat default_format \<lparr>format = [], time_room = room, level = None, writer = None, files = fs\<rparr>"

definition setWriter :: "string \<Rightarrow> log_state \<Rightarrow> log_state" where
  "setWriter path s = s\<lparr>writer := Some path\<rparr>"

definition setLevel :: "32 word \<Rightarrow> log_state \<Rightarrow> log_state" where
  "setLevel l s = s\<lparr>level := Some l\<rparr>"

text \<open>\<open>FileWriter::Write\<close> opens the file to append; the stream ignores what follows a failed open.\<close>

definition write_line :: "log_env \<Rightarrow> string \<Rightarrow> string \<Rightarrow> log_state \<Rightarrow> log_state" where
  "write_line env path data s = (if can_open env then s\<lparr>files := (files s)(path := files s path @ data)\<rparr> else s)"

definition time_text :: "tm \<Rightarrow> string" where
  "time_text t = fmt_d (tm_year t + 1900) @ ''-'' @ fmt_d (tm_mon t + 1) @ ''-'' @ fmt_d (tm_mday t) @ '' '' @
     fmt_d (tm_hour t) @ '':'' @ fmt_d (tm_min t) @ '':'' @ fmt_d (tm_sec t)"

definition getTime :: "log_env \<Rightarrow> log_state \<Rightarrow> string option lres" where
  "getTime env s = (case localtime env of None \<Rightarrow> Ret None
     | Some t \<Rightarrow> if length (time_text t) < time_room s then Ret (Some (time_text t)) else Fault)"

definition levelName :: "32 word \<Rightarrow> string option" where
  "levelName l =
     (if l = level_bits LOG_ERROR then Some ''ERROR''
      else if l = level_bits LOG_WARNING then Some ''WARNING''
      else if l = level_bits LOG_DEBUG then Some ''DEBUG''
      else if l = level_bits LOG_MESSAGE then Some ''MESSAGE''
      else None)"

definition fill :: "string \<Rightarrow> string option lres \<Rightarrow> string \<Rightarrow> string lres" where
  "fill mark text s = (case strstr s mark of None \<Rightarrow> Ret s
     | Some p \<Rightarrow> lbind text (\<lambda>t. str_replace s p (length mark) t))"

definition printString :: "log_env \<Rightarrow> 32 word \<Rightarrow> string \<Rightarrow> log_state \<Rightarrow> log_state lres" where
  "printString env l data s = fetch (level s) (\<lambda>enabled.
     if l AND enabled = 0 then Ret s
     else case levelName l of None \<Rightarrow> Ret s
       | Some name \<Rightarrow>
         if format s = [] then Ret s
         else lbind (fill ''<TIME>'' (getTime env s) (format s)) (\<lambda>f.
              lbind (fill ''<LEVEL>'' (Ret (Some name)) f) (\<lambda>f.
              lbind (fill ''<MESSAGE>'' (Ret (Some data)) f) (\<lambda>f.
              fetch (writer s) (\<lambda>path. Ret (write_line env path f s))))))"

text \<open>
  The calls with a format: \<open>vsprintf\<close> writes the text, here a parameter, and its null byte into a
  buffer on the stack.
\<close>

definition logPrint :: "log_env \<Rightarrow> 32 word \<Rightarrow> string \<Rightarrow> log_state \<Rightarrow> log_state lres" where
  "logPrint env l text s = (if length text < LOG_MAX_BUFF_SIZE then printString env l text s else Fault)"

definition logError :: "log_env \<Rightarrow> string \<Rightarrow> log_state \<Rightarrow> log_state lres" where
  "logError env text s = (if length text < LOG_MAX_BUFF_SIZE then printString env (level_bits LOG_ERROR) text s else Fault)"

definition logDebug :: "log_env \<Rightarrow> string \<Rightarrow> log_state \<Rightarrow> log_state lres" where
  "logDebug env text s = (if length text < LOG_MAX_BUFF_SIZE then printString env (level_bits LOG_DEBUG) text s else Fault)"

definition logWarning :: "log_env \<Rightarrow> string \<Rightarrow> log_state \<Rightarrow> log_state lres" where
  "logWarning env text s = (if length text < LOG_MAX_BUFF_SIZE then printString env (level_bits LOG_WARNING) text s else Fault)"

definition logMessage :: "log_env \<Rightarrow> string \<Rightarrow> log_state \<Rightarrow> log_state lres" where
  "logMessage env text s = (if length text < LOG_MAX_BUFF_SIZE then printString env (level_bits LOG_MESSAGE) text s else Fault)"

subsection \<open>What a line is\<close>

lemma digits_not_lt: "CHR ''<'' \<notin> set (digits n)"
proof (induction n rule: digits.induct)
  case (1 n)
  have d: "char_of (48 + m) \<noteq> CHR ''<''" if "m < 10" for m :: nat
  proof
    assume "char_of (48 + m) = CHR ''<''"
    then have "of_char (char_of (48 + m)) = (of_char (CHR ''<'') :: nat)" by simp
    then show False using that by (simp add: take_bit_eq_mod)
  qed
  show ?case using 1 d [of n] d [of "n mod 10"] by (subst digits.simps) auto
qed

lemma time_not_lt: "CHR ''<'' \<notin> set (time_text t)"
  using digits_not_lt by (auto simp: time_text_def fmt_d_def)

lemma strstr_after: "CHR ''<'' \<notin> set p \<Longrightarrow> strstr (p @ (CHR ''<'' # m) @ q) (CHR ''<'' # m) = Some (length p)"
  by (induction p) auto

lemma fill_after:
  "CHR ''<'' \<notin> set p \<Longrightarrow>
   fill (CHR ''<'' # m) text (p @ (CHR ''<'' # m) @ q) = lbind text (\<lambda>t. fetch t (\<lambda>t. Ret (p @ t @ q)))"
  using strstr_after [of p m q] by (simp add: fill_def str_replace_def [abs_def])

lemma levelName_not_lt: "levelName l = Some n \<Longrightarrow> CHR ''<'' \<notin> set n"
  by (auto simp: levelName_def split: if_splits)

text \<open>A call with a level that has a name and is enabled.\<close>

lemma enabled_line:
  assumes "format s = default_format" "level s = Some enabled" "l AND enabled \<noteq> 0" "levelName l = Some n" "localtime env = Some t"
  shows "printString env l text s =
    (if time_room s \<le> length (time_text t) then Fault
     else fetch (writer s) (\<lambda>path. Ret (write_line env path (time_text t @ [TAB] @ n @ [TAB] @ text @ [NL]) s)))"
proof -
  let ?t = "time_text t"
  have n: "CHR ''<'' \<notin> set n" using levelName_not_lt [OF assms(4)] .
  have no: "CHR ''<'' \<noteq> TAB" by (simp add: TAB_def)
  have time: "fill ''<TIME>'' (getTime env s) (format s) =
      (if length ?t < time_room s then Ret ((?t @ [TAB]) @ ''<LEVEL>'' @ ([TAB] @ ''<MESSAGE>'' @ [NL])) else Fault)"
    using fill_after [of "[]" "''TIME>''" "getTime env s" "[TAB] @ ''<LEVEL>'' @ [TAB] @ ''<MESSAGE>'' @ [NL]"] assms(1, 5)
    by (simp add: default_format_def getTime_def)
  have lev: "fill ''<LEVEL>'' (Ret (Some n)) ((?t @ [TAB]) @ ''<LEVEL>'' @ ([TAB] @ ''<MESSAGE>'' @ [NL])) =
      Ret ((?t @ [TAB] @ n @ [TAB]) @ ''<MESSAGE>'' @ [NL])"
    using fill_after [of "?t @ [TAB]" "''LEVEL>''" "Ret (Some n)" "[TAB] @ ''<MESSAGE>'' @ [NL]"] time_not_lt no by simp
  have msg: "fill ''<MESSAGE>'' (Ret (Some text)) ((?t @ [TAB] @ n @ [TAB]) @ ''<MESSAGE>'' @ [NL]) =
      Ret (?t @ [TAB] @ n @ [TAB] @ text @ [NL])"
    using fill_after [of "?t @ [TAB] @ n @ [TAB]" "''MESSAGE>''" "Ret (Some text)" "[NL]"] time_not_lt no n by simp
  have "format s \<noteq> []" using assms(1) by (simp add: default_format_def)
  then show ?thesis using assms(2-4) time lev msg by (simp add: printString_def cong: if_cong)
qed

text \<open>
  C22. A call of the log with the default template, in every case.  A message that does not fit into the
  buffer is undefined, and so is a call before setLevel.  A level that is not enabled, or that has no
  name, writes nothing.  Otherwise the call is undefined when localtime fails, when the text of the time
  does not fit into the bytes that the implementation lets a program write behind c_str of an empty
  string (the language promises none of them, and then every such call is undefined), or when there is
  no writer.  In the remaining case it appends to the file of the writer, if the file opens, the time,
  the name of the level and the text, with tabs between them and a line feed, whatever marks the text
  itself contains, and changes nothing else.
\<close>

theorem log_line:
  assumes "format s = default_format"
  shows "logPrint env l text s =
    (if LOG_MAX_BUFF_SIZE \<le> length text then Fault
     else case level s of None \<Rightarrow> Fault
     | Some enabled \<Rightarrow>
        if l AND enabled = 0 then Ret s
        else case levelName l of None \<Rightarrow> Ret s
        | Some name \<Rightarrow>
          (case localtime env of None \<Rightarrow> Fault
           | Some t \<Rightarrow>
             if time_room s \<le> length (time_text t) then Fault
             else case writer s of None \<Rightarrow> Fault
             | Some path \<Rightarrow> Ret (if can_open env
                 then s\<lparr>files := (files s)(path := files s path @ time_text t @ [TAB] @ name @ [TAB] @ text @ [NL])\<rparr>
                 else s)))"
proof (cases "level s")
  case None
  then show ?thesis by (simp add: logPrint_def printString_def)
next
  case (Some enabled)
  have ne: "format s \<noteq> []" using assms by (simp add: default_format_def)
  have mark: "strstr (format s) ''<TIME>'' = Some 0" using assms by (simp add: default_format_def)
  consider "l AND enabled = 0" | "l AND enabled \<noteq> 0" "levelName l = None"
    | n where "l AND enabled \<noteq> 0" "levelName l = Some n" "localtime env = None"
    | n t where "l AND enabled \<noteq> 0" "levelName l = Some n" "localtime env = Some t"
    by (cases "levelName l"; cases "localtime env") auto
  then show ?thesis
  proof cases
    case 3
    have "fill ''<TIME>'' (getTime env s) (format s) = Fault" using mark 3(3) by (simp add: fill_def getTime_def str_replace_def)
    then show ?thesis using Some 3 ne by (simp add: logPrint_def printString_def)
  next
    case 4
    then show ?thesis using enabled_line [OF assms Some 4] Some
      by (cases "writer s") (simp_all add: logPrint_def write_line_def cong: if_cong)
  qed (simp_all add: Some logPrint_def printString_def)
qed

definition demo_time :: tm where
  "demo_time = \<lparr>tm_year = 112, tm_mon = 9, tm_mday = 10, tm_hour = 12, tm_min = 5, tm_sec = 30\<rparr>"

definition demo_log_env :: log_env where
  "demo_log_env = \<lparr>localtime = Some demo_time, can_open = True\<rparr>"

definition demo_log :: "nat \<Rightarrow> log_state" where
  "demo_log room = setWriter ''log.txt'' (setLevel (level_bits LOG_DEBUG) (new_log room (\<lambda>_. [])))"

text \<open>
  A message with a mark in it, with room for the time; the same message with the 16 bytes of a short
  string, and with no room at all.
\<close>

theorem log_line_witness:
  "logPrint demo_log_env (level_bits LOG_DEBUG) ''<LEVEL>'' (demo_log 20) =
     Ret ((demo_log 20)\<lparr>files := (files (demo_log 20))(''log.txt'' :=
       ''2012-10-10 12:5:30'' @ [TAB] @ ''DEBUG'' @ [TAB] @ ''<LEVEL>'' @ [NL])\<rparr>) \<and>
   logPrint demo_log_env (level_bits LOG_DEBUG) ''<LEVEL>'' (demo_log 16) = Fault \<and>
   logPrint demo_log_env (level_bits LOG_DEBUG) ''<LEVEL>'' (demo_log 0) = Fault \<and>
   logPrint demo_log_env (level_bits LOG_ERROR) ''<LEVEL>'' (demo_log 0) = Ret (demo_log 0)"
proof -
  have t: "time_text demo_time = ''2012-10-10 12:5:30''"
    by (simp add: time_text_def demo_time_def fmt_d_def digits.simps char_of_def bit_0)
  have f: "format (demo_log r) = default_format" for r
    by (simp add: demo_log_def setWriter_def setLevel_def new_log_def setFormat_def)
  have p: "logPrint demo_log_env l ''<LEVEL>'' (demo_log r) =
    (if l AND level_bits LOG_DEBUG = 0 then Ret (demo_log r)
     else case levelName l of None \<Rightarrow> Ret (demo_log r)
     | Some name \<Rightarrow> if r \<le> 18 then Fault
       else Ret ((demo_log r)\<lparr>files := (files (demo_log r))(''log.txt'' :=
         ''2012-10-10 12:5:30'' @ [TAB] @ name @ [TAB] @ ''<LEVEL>'' @ [NL])\<rparr>))" for r l
  proof -
    have "level (demo_log r) = Some (level_bits LOG_DEBUG)" "writer (demo_log r) = Some ''log.txt''" "time_room (demo_log r) = r"
      "files (demo_log r) ''log.txt'' = []"
      by (simp_all add: demo_log_def setWriter_def setLevel_def new_log_def setFormat_def)
    moreover have "r \<le> length (time_text demo_time) \<longleftrightarrow> r \<le> 18" by (simp add: t) arith
    ultimately show ?thesis
      unfolding log_line [OF f] by (cases "levelName l") (simp_all add: demo_log_env_def LOG_MAX_BUFF_SIZE_def t)
  qed
  show ?thesis by (simp add: p levelName_def)
qed

end
