(* ===== verification/Sel_Server.thy ===== *)
theory Sel_Server
  imports Prelude
begin

section \<open>libevent_test: the server on select\<close>

text \<open>
  \<open>cs/libevent_test/server_select.cpp\<close>: a server that waits in \<open>select\<close>, accepts one client a round
  and reads messages.  The kernel is a parameter: what the calls of the start return, and for each
  round of the loop what \<open>select\<close>, \<open>accept\<close>, \<open>fcntl\<close> and \<open>recv\<close> answer.  An \<open>fd_set\<close> is a set of
  descriptors; its macros index an array of bits and are undefined for a descriptor that is
  negative or not below \<open>FD_SETSIZE\<close>.  \<open>Raise\<close> is \<open>exit(1)\<close>.
\<close>

definition FD_SETSIZE :: nat where
  "FD_SETSIZE = 1024"

record sel_server =
  sock :: int
  clients :: "int list"
  fdsock :: "int set"
  maxfd :: int
  maxi :: int

definition fd_ok :: "int \<Rightarrow> bool" where
  "fd_ok fd \<longleftrightarrow> 0 \<le> fd \<and> fd < int FD_SETSIZE"

definition FD_SET :: "int \<Rightarrow> int set \<Rightarrow> int set lres" where
  "FD_SET fd S = (if fd_ok fd then Ret (insert fd S) else Fault)"

definition FD_CLR :: "int \<Rightarrow> int set \<Rightarrow> int set lres" where
  "FD_CLR fd S = (if fd_ok fd then Ret (S - {fd}) else Fault)"

definition FD_ISSET :: "int \<Rightarrow> int set \<Rightarrow> bool lres" where
  "FD_ISSET fd S = (if fd_ok fd then Ret (fd \<in> S) else Fault)"

subsection \<open>Start\<close>

record sel_start =
  st_socket :: int
  st_reuse :: int
  st_fcntl :: "int \<Rightarrow> int"
  st_bind :: int
  st_listen :: int

definition sel_setNoBlocking :: "(int \<Rightarrow> int) \<Rightarrow> int \<Rightarrow> unit lres" where
  "sel_setNoBlocking fcntl fd = (if fcntl fd = -1 then Raise else Ret ())"

definition sel_new_server :: "sel_start \<Rightarrow> sel_server lres" where
  "sel_new_server k =
     (if st_socket k = -1 then Raise
      else if st_reuse k < 0 then Raise
      else lbind (sel_setNoBlocking (st_fcntl k) (st_socket k)) (\<lambda>_.
           lbind (FD_SET (st_socket k) {}) (\<lambda>S.
           Ret \<lparr>sock = st_socket k, clients = replicate FD_SETSIZE (-1), fdsock = S, maxfd = st_socket k, maxi = -1\<rparr>)))"

definition doBind :: "sel_start \<Rightarrow> unit lres" where
  "doBind k = (if st_bind k = -1 then Raise else Ret ())"

definition doListen :: "sel_start \<Rightarrow> unit lres" where
  "doListen k = (if st_listen k = -1 then Raise else Ret ())"

subsection \<open>A round of the loop\<close>

record sel_round =
  nready :: int
  rdsock :: "int set"
  accepted :: int
  rd_fcntl :: "int \<Rightarrow> int"
  received :: "int \<Rightarrow> int"
  mm_type :: "int \<Rightarrow> int"

datatype sel_io = Received int int | Closed int | Printed int

fun find_slot :: "int list \<Rightarrow> nat" where
  "find_slot [] = 0"
| "find_slot (c # cs) = (if c < 0 then 0 else Suc (find_slot cs))"

text \<open>The first half of a round: the listening socket; the result counts the ready descriptors left.\<close>

definition new_connection :: "sel_round \<Rightarrow> sel_server \<Rightarrow> (sel_server \<times> int \<times> bool) lres" where
  "new_connection k s =
     (let fd = accepted k in
      if fd < 0 then Raise
      else lbind (sel_setNoBlocking (rd_fcntl k) fd) (\<lambda>_.
        let i = find_slot (clients s);
            cs = (if i < FD_SETSIZE then (clients s)[i := fd] else clients s) in
        lbind (FD_SET fd (fdsock s)) (\<lambda>S.
        Ret (s\<lparr>clients := cs, fdsock := S, maxfd := max fd (maxfd s), maxi := max (int i) (maxi s)\<rparr>,
             nready k - 1, nready k - 1 < 0))))"

text \<open>
  The second half: the clients at the given slots.  \<open>recv\<close> stores up to the four bytes of a
  message; when it stores fewer, the number that is printed was not wholly initialised.
\<close>

fun serve :: "sel_round \<Rightarrow> nat list \<Rightarrow> int \<Rightarrow> sel_server \<Rightarrow> (sel_server \<times> sel_io list) lres" where
  "serve k [] n s = Ret (s, [])"
| "serve k (i # is) n s =
     fetch (nth_opt (clients s) i) (\<lambda>fd.
     lbind (FD_ISSET fd (rdsock k)) (\<lambda>r.
     if \<not> r then serve k is n s
     else let ret = received k fd in
       if ret = 0 then lbind (serve k is n s) (\<lambda>(s', io). Ret (s', Received fd ret # io))
       else lbind
         (if ret < 0
          then lbind (FD_CLR fd (fdsock s)) (\<lambda>S. Ret (s\<lparr>fdsock := S, clients := (clients s)[i := -1]\<rparr>, [Received fd ret, Closed fd]))
          else if ret < 4 then Fault
          else Ret (s, [Received fd ret, Printed (mm_type k fd)])) (\<lambda>(s, io).
         if n - 1 < 0 then Ret (s, io)
         else lbind (serve k is (n - 1) s) (\<lambda>(s', io'). Ret (s', io @ io')))))"

definition select_round :: "sel_round \<Rightarrow> sel_server \<Rightarrow> (sel_server \<times> sel_io list) lres" where
  "select_round k s =
     (if nready k \<le> 0 then Ret (s, [])
      else lbind (FD_ISSET (sock s) (rdsock k)) (\<lambda>r.
        lbind (if r then new_connection k s else Ret (s, nready k, False)) (\<lambda>(s, n, skip).
        if skip then Ret (s, []) else serve k [0 ..< nat (maxi s)] n s)))"

fun doSelect :: "sel_round list \<Rightarrow> sel_server \<Rightarrow> (sel_server \<times> sel_io list list) lres" where
  "doSelect [] s = Ret (s, [])"
| "doSelect (k # ks) s = lbind (select_round k s) (\<lambda>(s, io). lbind (doSelect ks s) (\<lambda>(s, ios). Ret (s, io # ios)))"

definition sel_startUp :: "sel_start \<Rightarrow> sel_round list \<Rightarrow> sel_server \<Rightarrow> (sel_server \<times> sel_io list list) lres" where
  "sel_startUp k ks s = lbind (doBind k) (\<lambda>_. lbind (doListen k) (\<lambda>_. doSelect ks s))"

definition select_main :: "sel_start \<Rightarrow> sel_round list \<Rightarrow> (sel_server \<times> sel_io list list) lres" where
  "select_main k ks = lbind (sel_new_server k) (sel_startUp k ks)"

subsection \<open>What the loop does\<close>

text \<open>The clients in the order of their arrival fill the array from its start.\<close>

definition sel_ok :: "int list \<Rightarrow> sel_server \<Rightarrow> bool" where
  "sel_ok fds s \<longleftrightarrow> distinct (sock s # fds) \<and> (\<forall>fd \<in> set (sock s # fds). fd_ok fd \<and> fd \<le> maxfd s) \<and>
     clients s = fds @ replicate (FD_SETSIZE - length fds) (-1) \<and> fdsock s = set (sock s # fds) \<and>
     maxi s = int (length fds) - 1"

text \<open>
  A kernel that serves well: \<open>select\<close> fails or reports the descriptors that are ready out of those asked
  for, \<open>accept\<close> and \<open>fcntl\<close> succeed, the new descriptor is not in use and below the limit of 1024 that
  processes have by default, and \<open>recv\<close> returns the end of the stream or a whole message.
\<close>

definition kernel_round :: "int \<Rightarrow> int list \<Rightarrow> sel_round \<Rightarrow> bool" where
  "kernel_round sk fds k \<longleftrightarrow> nready k \<le> 0 \<or>
     (rdsock k \<subseteq> set (sk # fds) \<and> nready k = int (card (rdsock k)) \<and>
      (sk \<in> rdsock k \<longrightarrow> fd_ok (accepted k) \<and> accepted k \<notin> set (sk # fds) \<and> rd_fcntl k (accepted k) \<noteq> -1) \<and>
      (\<forall>fd \<in> set fds. received k fd \<in> {0, 4}))"

definition known :: "int \<Rightarrow> int list \<Rightarrow> sel_round \<Rightarrow> int list" where
  "known sk fds k = (if 0 < nready k \<and> sk \<in> rdsock k then fds @ [accepted k] else fds)"

fun kernel_rounds :: "int \<Rightarrow> int list \<Rightarrow> sel_round list \<Rightarrow> bool" where
  "kernel_rounds sk fds [] \<longleftrightarrow> True"
| "kernel_rounds sk fds (k # ks) \<longleftrightarrow> kernel_round sk fds k \<and> kernel_rounds sk (known sk fds k) ks"

text \<open>The specification: a queue of clients; a round hears all that are ready but the newest.\<close>

definition heard :: "sel_round \<Rightarrow> int \<Rightarrow> sel_io list" where
  "heard k fd = Received fd (received k fd) # (if received k fd = 0 then [] else [Printed (mm_type k fd)])"

definition ready_among :: "sel_round \<Rightarrow> int list \<Rightarrow> int list" where
  "ready_among k fds = filter (\<lambda>fd. fd \<in> rdsock k) fds"

fun spec_rounds :: "int \<Rightarrow> int list \<Rightarrow> sel_round list \<Rightarrow> int list \<times> sel_io list list" where
  "spec_rounds sk fds [] = (fds, [])"
| "spec_rounds sk fds (k # ks) =
     (let fds' = known sk fds k;
          io = (if nready k \<le> 0 then [] else concat (map (heard k) (ready_among k (butlast fds')))) in
      apsnd ((#) io) (spec_rounds sk fds' ks))"

lemma sel_okD:
  assumes "sel_ok fds s"
  shows "distinct (sock s # fds)" "\<And>fd. fd \<in> set (sock s # fds) \<Longrightarrow> fd_ok fd" "clients s = fds @ replicate (FD_SETSIZE - length fds) (-1)"
    "fdsock s = set (sock s # fds)" "maxi s = int (length fds) - 1" "length fds < FD_SETSIZE"
proof -
  show "distinct (sock s # fds)" "\<And>fd. fd \<in> set (sock s # fds) \<Longrightarrow> fd_ok fd" "clients s = fds @ replicate (FD_SETSIZE - length fds) (-1)"
    "fdsock s = set (sock s # fds)" "maxi s = int (length fds) - 1" using assms by (auto simp: sel_ok_def)
  have "set (sock s # fds) \<subseteq> {0 ..< int FD_SETSIZE}" using assms by (auto simp: sel_ok_def fd_ok_def)
  then have "card (set (sock s # fds)) \<le> card {0 ..< int FD_SETSIZE}" by (intro card_mono) simp_all
  then show "length fds < FD_SETSIZE" using distinct_card [OF \<open>distinct (sock s # fds)\<close>] by simp
qed

lemma find_slot_queue: "\<forall>fd \<in> set fds. 0 \<le> fd \<Longrightarrow> 0 < n \<Longrightarrow> find_slot (fds @ replicate n (-1)) = length fds"
  by (induction fds) (auto simp: gr0_conv_Suc)

lemma new_connection_ok:
  assumes "sel_ok fds s" "fd_ok (accepted k)" "accepted k \<notin> set (sock s # fds)" "rd_fcntl k (accepted k) \<noteq> -1" "0 < nready k"
  shows "\<exists>s'. new_connection k s = Ret (s', nready k - 1, False) \<and> sel_ok (fds @ [accepted k]) s' \<and> sock s' = sock s"
proof -
  note ok = sel_okD [OF assms(1)]
  have slot: "find_slot (clients s) = length fds"
    unfolding ok(3) using ok(2, 6) by (intro find_slot_queue) (auto simp: fd_ok_def)
  have "(clients s)[length fds := accepted k] = (fds @ [accepted k]) @ replicate (FD_SETSIZE - length (fds @ [accepted k])) (-1)"
    using ok(6) unfolding ok(3) by (cases "FD_SETSIZE - length fds") (simp_all add: list_update_append)
  then have "new_connection k s = Ret (s\<lparr>clients := (fds @ [accepted k]) @ replicate (FD_SETSIZE - length (fds @ [accepted k])) (-1),
      fdsock := insert (accepted k) (fdsock s), maxfd := max (accepted k) (maxfd s), maxi := int (length fds)\<rparr>, nready k - 1, False)"
    using assms(2, 4, 5) ok(5, 6) by (simp add: new_connection_def slot sel_setNoBlocking_def FD_SET_def fd_ok_def Let_def)
  then show ?thesis
    using assms(1, 2, 3) by (fastforce simp: sel_ok_def)
qed

lemma serve_ok:
  assumes "\<forall>i \<in> set is. i < length (clients s) \<and> fd_ok (clients s ! i) \<and> received k (clients s ! i) \<in> {0, 4}"
    "int (length (ready_among k (map ((!) (clients s)) is))) \<le> n"
  shows "serve k is n s = Ret (s, concat (map (heard k) (ready_among k (map ((!) (clients s)) is))))"
  using assms by (induction "is" arbitrary: n) (auto simp: nth_opt_def FD_ISSET_def ready_among_def heard_def Let_def not_less)

lemma ready_count:
  assumes "distinct fds" "R \<subseteq> set fds"
  shows "length (filter (\<lambda>fd. fd \<in> R) fds) = card R"
proof -
  have "set (filter (\<lambda>fd. fd \<in> R) fds) = R" using assms(2) by auto
  then show ?thesis using distinct_card [of "filter (\<lambda>fd. fd \<in> R) fds"] assms(1) by simp
qed

lemma listen_half:
  assumes "sel_ok fds s" "0 < nready k"
    "sock s \<in> rdsock k \<Longrightarrow> fd_ok (accepted k) \<and> accepted k \<notin> set (sock s # fds) \<and> rd_fcntl k (accepted k) \<noteq> -1"
  shows "\<exists>s'. (if sock s \<in> rdsock k then new_connection k s else Ret (s, nready k, False)) =
      Ret (s', nready k - (if sock s \<in> rdsock k then 1 else 0), False) \<and>
    sel_ok (known (sock s) fds k) s' \<and> sock s' = sock s"
proof (cases "sock s \<in> rdsock k")
  case True
  then have "known (sock s) fds k = fds @ [accepted k]" using assms(2) by (simp add: known_def)
  then show ?thesis using new_connection_ok [OF assms(1), of k] assms(2, 3) True by simp
qed (use assms in \<open>simp add: known_def\<close>)

lemma select_round_ok:
  assumes "sel_ok fds s" "kernel_round (sock s) fds k"
  shows "\<exists>s'. select_round k s = Ret (s', if nready k \<le> 0 then [] else
      concat (map (heard k) (ready_among k (butlast (known (sock s) fds k))))) \<and>
    sel_ok (known (sock s) fds k) s' \<and> sock s' = sock s"
proof (cases "nready k \<le> 0")
  case True
  then show ?thesis using assms(1) by (simp add: select_round_def known_def)
next
  case False
  define fds' where "fds' = known (sock s) fds k"
  note ok = sel_okD [OF assms(1)]
  have k: "rdsock k \<subseteq> set (sock s # fds)" "nready k = int (card (rdsock k))"
    "sock s \<in> rdsock k \<Longrightarrow> fd_ok (accepted k) \<and> accepted k \<notin> set (sock s # fds) \<and> rd_fcntl k (accepted k) \<noteq> -1"
    "\<And>fd. fd \<in> set fds \<Longrightarrow> received k fd \<in> {0, 4}"
    using assms(2) False unfolding kernel_round_def by simp_all
  have listen: "FD_ISSET (sock s) (rdsock k) = Ret (sock s \<in> rdsock k)" using ok(2) by (simp add: FD_ISSET_def)
  obtain s' n where s': "(if sock s \<in> rdsock k then new_connection k s else Ret (s, nready k, False)) = Ret (s', n, False)"
      "sel_ok fds' s'" "sock s' = sock s" "n = nready k - (if sock s \<in> rdsock k then 1 else 0)"
    using listen_half [OF assms(1) _ k(3)] False unfolding fds'_def by fastforce
  note ok' = sel_okD [OF s'(2)]
  have range: "map ((!) (clients s')) [0 ..< nat (maxi s')] = butlast fds'"
    unfolding ok'(3, 5) by (rule nth_equalityI) (simp_all add: nth_butlast nth_append, linarith)
  have "length (ready_among k (butlast fds')) \<le> length (ready_among k fds')"
    by (cases fds' rule: rev_cases) (simp_all add: ready_among_def)
  also have "\<dots> \<le> length (ready_among k fds)"
    using k(1) k(3) by (auto simp: fds'_def known_def ready_among_def)
  also have "int \<dots> = n"
    using ready_count [of "sock s # fds" "rdsock k"] ok(1) k(1, 2) s'(4) by (simp add: ready_among_def split: if_splits)
  finally have n: "int (length (ready_among k (butlast fds'))) \<le> n" by simp
  have served: "received k fd \<in> {0, 4}" if "fd \<in> set (butlast fds')" for fd
  proof -
    have "fd \<in> set fds" using that by (auto simp: fds'_def known_def split: if_splits dest: in_set_butlastD)
    then show ?thesis using k(4) by simp
  qed
  have "\<forall>i \<in> set [0 ..< nat (maxi s')]. i < length (clients s') \<and> fd_ok (clients s' ! i) \<and> received k (clients s' ! i) \<in> {0, 4}"
  proof
    fix i assume "i \<in> set [0 ..< nat (maxi s')]"
    then have i: "i < length (butlast fds')" using ok'(5) by simp
    then have "i < length fds'" by simp
    then have "clients s' ! i = butlast fds' ! i" using i unfolding ok'(3) by (simp add: nth_butlast nth_append)
    then have "clients s' ! i \<in> set (butlast fds')" using i by (metis nth_mem)
    then show "i < length (clients s') \<and> fd_ok (clients s' ! i) \<and> received k (clients s' ! i) \<in> {0, 4}"
      using served ok'(2, 3) i by (auto dest: in_set_butlastD)
  qed
  then have "serve k [0 ..< nat (maxi s')] n s' = Ret (s', concat (map (heard k) (ready_among k (butlast fds'))))"
    using n range by (simp add: serve_ok)
  then show ?thesis using False listen s' by (simp add: select_round_def fds'_def)
qed

lemma doSelect_ok:
  assumes "sel_ok fds s" "kernel_rounds (sock s) fds ks" "spec_rounds (sock s) fds ks = (fds', ios)"
  shows "\<exists>s'. doSelect ks s = Ret (s', ios) \<and> sel_ok fds' s' \<and> sock s' = sock s"
  using assms
proof (induction ks arbitrary: fds s ios)
  case (Cons k ks)
  let ?io = "if nready k \<le> 0 then [] else concat (map (heard k) (ready_among k (butlast (known (sock s) fds k))))"
  have k: "kernel_round (sock s) fds k" "kernel_rounds (sock s) (known (sock s) fds k) ks" using Cons.prems(2) by simp_all
  obtain s1 where s1: "select_round k s = Ret (s1, ?io)" "sel_ok (known (sock s) fds k) s1" "sock s1 = sock s"
    using select_round_ok [OF Cons.prems(1) k(1)] by blast
  obtain ios' where ios': "spec_rounds (sock s) (known (sock s) fds k) ks = (fds', ios')" "ios = ?io # ios'"
    using Cons.prems(3) by (cases "spec_rounds (sock s) (known (sock s) fds k) ks") (auto simp: Let_def)
  obtain s2 where "doSelect ks s1 = Ret (s2, ios')" "sel_ok fds' s2" "sock s2 = sock s"
    using Cons.IH [OF s1(2)] k(2) ios'(1) s1(3) by metis
  then show ?case using s1(1) ios'(2) by simp
qed simp

lemma sel_new_server_ok:
  assumes "st_socket k \<noteq> -1" "fd_ok (st_socket k)" "0 \<le> st_reuse k" "st_fcntl k (st_socket k) \<noteq> -1"
  shows "\<exists>s. sel_new_server k = Ret s \<and> sel_ok [] s \<and> sock s = st_socket k"
  using assms by (simp add: sel_new_server_def sel_setNoBlocking_def FD_SET_def sel_ok_def)

subsection \<open>Properties\<close>

definition start_good :: "sel_start \<Rightarrow> bool" where
  "start_good k \<longleftrightarrow> fd_ok (st_socket k) \<and> 0 \<le> st_reuse k \<and> st_fcntl k (st_socket k) \<noteq> -1 \<and> st_bind k \<noteq> -1 \<and> st_listen k \<noteq> -1"

text \<open>
  C23. The server on select implements a queue of clients, all but the newest of which are served.  This
  holds when nothing goes wrong outside: the calls of the start succeed, no accept and no fcntl of the
  loop fails (the server exits when one does), all descriptors are below FD_SETSIZE, and every recv
  returns 0 or the four bytes of a message (another result can lead to undefined behaviour).  Then any
  number of rounds runs without an exit or undefined behaviour, also when select fails in some of them;
  the array holds the clients in the order of their arrival, and each round receives from exactly the
  ready clients in that order, without the last one, and prints what they sent.
\<close>

theorem select_serves_all_but_newest:
  assumes "start_good k" "kernel_rounds (st_socket k) [] ks" "spec_rounds (st_socket k) [] ks = (fds, ios)"
  shows "\<exists>s. select_main k ks = Ret (s, ios) \<and> sel_ok fds s"
proof -
  have k: "st_socket k \<noteq> -1" "fd_ok (st_socket k)" "0 \<le> st_reuse k" "st_fcntl k (st_socket k) \<noteq> -1" "st_bind k \<noteq> -1" "st_listen k \<noteq> -1"
    using assms(1) by (auto simp: start_good_def fd_ok_def)
  obtain s where s: "sel_new_server k = Ret s" "sel_ok [] s" "sock s = st_socket k" using sel_new_server_ok [OF k(1-4)] by blast
  have "\<exists>s'. doSelect ks s = Ret (s', ios) \<and> sel_ok fds s' \<and> sock s' = sock s"
    using doSelect_ok [OF s(2)] assms(2, 3) s(3) by simp
  then show ?thesis using s(1) k(5, 6) by (auto simp: select_main_def sel_startUp_def doBind_def doListen_def)
qed

text \<open>
  After a \<open>recv\<close> that fails the slot of the client is -1 below \<open>_maxi\<close>, and the next round in which
  a client is heard asks for the bit of the descriptor -1.
\<close>

lemma serve_negative:
  assumes "i < length (clients s)" "clients s ! i < 0" "\<forall>j < i. fd_ok (clients s ! j) \<and> clients s ! j \<notin> rdsock k"
    "j \<le> i" "i < m"
  shows "serve k [j ..< m] n s = Fault"
  using assms(4)
proof (induction "i - j" arbitrary: j)
  case 0
  then have "[j ..< m] = i # [Suc i ..< m]" using assms(5) by (simp add: upt_conv_Cons)
  then show ?case using assms(1, 2) by (simp add: nth_opt_def FD_ISSET_def fd_ok_def)
next
  case (Suc d)
  then have "[j ..< m] = j # [Suc j ..< m]" "j < i" using assms(5) by (simp_all add: upt_conv_Cons)
  then show ?case using Suc(1) [of "Suc j"] Suc(2) assms(1, 3) by (simp add: nth_opt_def FD_ISSET_def)
qed

theorem recv_error_undefined:
  assumes "0 < nready k" "fd_ok (sock s)" "sock s \<notin> rdsock k" "int i < maxi s" "i < length (clients s)" "clients s ! i < 0"
    "\<forall>j < i. fd_ok (clients s ! j) \<and> clients s ! j \<notin> rdsock k"
  shows "select_round k s = Fault"
  using serve_negative [OF assms(5, 6, 7), of 0 "nat (maxi s)" "nready k"] assms(1-4)
  by (simp add: select_round_def FD_ISSET_def)

definition demo_k :: sel_start where
  "demo_k = \<lparr>st_socket = 3, st_reuse = 0, st_fcntl = (\<lambda>_. 0), st_bind = 0, st_listen = 0\<rparr>"

definition demo_rd :: "int set \<Rightarrow> int \<Rightarrow> sel_round" where
  "demo_rd S fd = \<lparr>nready = int (card S), rdsock = S, accepted = fd, rd_fcntl = (\<lambda>_. 0), received = (\<lambda>_. 4), mm_type = (\<lambda>fd. fd)\<rparr>"

text \<open>Two clients connect; both send, and only the first is heard.\<close>

theorem select_serves_all_but_newest_witness:
  "\<exists>s. select_main demo_k [demo_rd {3} 4, demo_rd {4} 0, demo_rd {3} 5, demo_rd {4, 5} 0] =
      Ret (s, [[], [], [], [Received 4 4, Printed 4]]) \<and> sel_ok [4, 5] s"
  by (rule select_serves_all_but_newest)
    (simp_all add: start_good_def demo_k_def demo_rd_def fd_ok_def FD_SETSIZE_def kernel_round_def known_def ready_among_def heard_def)

theorem recv_error_undefined_witness:
  "select_round (demo_rd {5} 0) \<lparr>sock = 3, clients = [-1, 5], fdsock = {3, 5}, maxfd = 5, maxi = 1\<rparr> = Fault"
  by (rule recv_error_undefined [where i = 0]) (simp_all add: demo_rd_def fd_ok_def FD_SETSIZE_def)

end
