(* ===== verification/Mod_Fr.thy ===== *)
theory Mod_Fr
  imports Prelude
begin

section \<open>mod: a framework of modules\<close>

text \<open>
  \<open>mod/*.c\<close>: modules are structures of three functions, any of which may be missing; the framework
  (\<open>fr.c\<close>) calls one phase of all modules in the order of a table (\<open>mod_mgr.c\<close>), between the phases
  of what they depend on (\<open>dep.c\<close>).  The world holds the statics of the files, the objects that were
  allocated, the answers that \<open>malloc\<close> has left to give (null when there are none), and what was printed.
\<close>

record list_t =
  lt_head :: ptr
  lt_tail :: ptr
  lt_len :: nat

record mod_world =
  printed :: "string list"
  mallocs :: "ptr list"
  lists :: "list_t store"
  nodes :: "string store"
  mod_a_stat :: int
  mod_a_list :: ptr
  mod_b_stat :: int

type_synonym mod_fun = "mod_world \<Rightarrow> (int \<times> mod_world) lres"

record mod_t =
  mod_init :: "mod_fun option"
  mod_run :: "mod_fun option"
  mod_exit :: "mod_fun option"

definition printf :: "string \<Rightarrow> mod_world \<Rightarrow> mod_world" where
  "printf t w = w\<lparr>printed := printed w @ [t]\<rparr>"

definition NEWLINE :: char where
  "NEWLINE = CHR 0x0A"

definition println :: "string \<Rightarrow> mod_world \<Rightarrow> mod_world" where
  "println t w = printf (t @ [NEWLINE]) w"

definition mod_malloc :: "mod_world \<Rightarrow> ptr \<times> mod_world" where
  "mod_malloc w = (case mallocs w of [] \<Rightarrow> (Null, w) | p # ps \<Rightarrow> (p, w\<lparr>mallocs := ps\<rparr>))"

subsection \<open>The framework\<close>

text \<open>The loop of a phase, over the modules before the null pointer that ends the table.\<close>

fun phase_loop :: "(mod_t \<Rightarrow> mod_fun option) \<Rightarrow> mod_t list \<Rightarrow> mod_fun" where
  "phase_loop f [] w = Ret (0, w)"
| "phase_loop f (m # ms) w = (case f m of None \<Rightarrow> phase_loop f ms w
     | Some g \<Rightarrow> lbind (g w) (\<lambda>(ret, w). if ret < 0 then Ret (-1, w) else phase_loop f ms w))"

definition load_all_mods :: "mod_t list \<Rightarrow> mod_fun" where
  "load_all_mods ms = phase_loop mod_init ms"

definition run_all_mods :: "mod_t list \<Rightarrow> mod_fun" where
  "run_all_mods ms = phase_loop mod_run ms"

definition exit_all_mods :: "mod_t list \<Rightarrow> mod_fun" where
  "exit_all_mods ms = phase_loop mod_exit ms"

definition dep_init :: mod_fun where
  "dep_init w = Ret (0, println ''dep init'' w)"

definition dep_run :: mod_fun where
  "dep_run w = Ret (0, println ''dep run'' w)"

definition dep_exit :: mod_fun where
  "dep_exit w = Ret (0, printf ''dep exit'' w)"

text \<open>\<open>main\<close>: the six calls in order; the first that is negative leads to the error exit with status 1.\<close>

fun call_all :: "mod_fun list \<Rightarrow> mod_fun" where
  "call_all [] w = Ret (0, w)"
| "call_all (f # fs) w = lbind (f w) (\<lambda>(ret, w). if ret < 0 then Ret (1, println ''deal error'' w) else call_all fs w)"

definition fr_main :: "mod_t list \<Rightarrow> mod_fun" where
  "fr_main ms = call_all [dep_init, load_all_mods ms, dep_run, run_all_mods ms, dep_exit, exit_all_mods ms]"

subsection \<open>The lists and the two modules\<close>

definition mod_list_new :: "mod_world \<Rightarrow> ptr \<times> mod_world" where
  "mod_list_new w = (case mod_malloc (println ''list new'' w) of
     (Ptr a, w) \<Rightarrow> (Ptr a, w\<lparr>lists := (lists w)(a \<mapsto> \<lparr>lt_head = Null, lt_tail = Null, lt_len = 0\<rparr>)\<rparr>)
   | (p, w) \<Rightarrow> (p, w))"

definition mod_list_add :: "ptr \<Rightarrow> ptr \<Rightarrow> mod_world \<Rightarrow> int \<times> mod_world" where
  "mod_list_add l n w = (0, println ''list add'' w)"

definition mod_list_del :: "ptr \<Rightarrow> ptr \<Rightarrow> mod_world \<Rightarrow> int \<times> mod_world" where
  "mod_list_del l n w = (0, println ''list del'' w)"

definition mod_a_init :: mod_fun where
  "mod_a_init w = (let (l, w) = mod_list_new (println ''mod a init'' w); w = w\<lparr>mod_a_list := l\<rparr> in
     if l = Null then Ret (-1, w) else Ret (0, w))"

definition mod_a_run :: "(int \<Rightarrow> string) \<Rightarrow> mod_fun" where
  "mod_a_run show_int w =
     (let w = w\<lparr>mod_a_stat := mod_a_stat w + 1\<rparr>;
          w = println (''mod_a_stat = '' @ show_int (mod_a_stat w)) w;
          (n, w) = mod_malloc w in
      case n of Ptr a \<Rightarrow> Ret (0, snd (mod_list_add (mod_a_list w) n (w\<lparr>nodes := (nodes w)(a \<mapsto> ''mod_a_stat'')\<rparr>))) | _ \<Rightarrow> Fault)"

definition mod_b_init :: mod_fun where
  "mod_b_init w = Ret (0, println ''mod b init'' w)"

definition mod_b_run :: "(int \<Rightarrow> string) \<Rightarrow> mod_fun" where
  "mod_b_run show_int w =
     (let w = w\<lparr>mod_b_stat := mod_b_stat w - 1\<rparr> in
      Ret (0, println (''mod_b_stat = '' @ show_int (mod_b_stat w)) (println ''mod b run'' w)))"

definition mod_a :: "(int \<Rightarrow> string) \<Rightarrow> mod_t" where
  "mod_a show_int = \<lparr>mod_init = Some mod_a_init, mod_run = Some (mod_a_run show_int), mod_exit = None\<rparr>"

definition mod_b :: "(int \<Rightarrow> string) \<Rightarrow> mod_t" where
  "mod_b show_int = \<lparr>mod_init = Some mod_b_init, mod_run = Some (mod_b_run show_int), mod_exit = None\<rparr>"

definition all_mods :: "(int \<Rightarrow> string) \<Rightarrow> mod_t list" where
  "all_mods show_int = [mod_a show_int, mod_b show_int]"

definition start_world :: "ptr list \<Rightarrow> mod_world" where
  "start_world ps = \<lparr>printed = [], mallocs = ps, lists = (\<lambda>_. None), nodes = (\<lambda>_. None), mod_a_stat = 0, mod_a_list = Null, mod_b_stat = 0\<rparr>"

subsection \<open>What the program does\<close>

text \<open>
  A phase in general: it returns 0 after every module has run it without a negative result, and -1
  straight after the first one that has.
\<close>

inductive runs :: "(mod_t \<Rightarrow> mod_fun option) \<Rightarrow> mod_t list \<Rightarrow> mod_world \<Rightarrow> mod_world \<Rightarrow> bool" for f where
  none: "runs f [] w w"
| skip: "f m = None \<Longrightarrow> runs f ms w w' \<Longrightarrow> runs f (m # ms) w w'"
| call: "f m = Some g \<Longrightarrow> g w = Ret (ret, w1) \<Longrightarrow> 0 \<le> ret \<Longrightarrow> runs f ms w1 w' \<Longrightarrow> runs f (m # ms) w w'"

inductive_cases runs_consE: "runs f (m # ms) w w'"

lemma phase_runs: "runs f ms w w' \<Longrightarrow> phase_loop f (ms @ ms') w = phase_loop f ms' w'"
  by (induction rule: runs.induct) simp_all

lemma phase_all: "phase_loop f ms w = Ret (0, w') \<longleftrightarrow> runs f ms w w'"
proof
  show "runs f ms w w' \<Longrightarrow> phase_loop f ms w = Ret (0, w')" using phase_runs [of f ms w w' "[]"] by simp
  show "phase_loop f ms w = Ret (0, w') \<Longrightarrow> runs f ms w w'"
    by (induction f ms w rule: phase_loop.induct) (auto intro: runs.intros simp: lbind_eq_Ret split: option.splits if_splits)
qed

theorem phase_stops_at_first_failure:
  "phase_loop f ms w = Ret (-1, w') \<longleftrightarrow>
    (\<exists>ms1 m ms2 w1 g ret. ms = ms1 @ m # ms2 \<and> runs f ms1 w w1 \<and> f m = Some g \<and> g w1 = Ret (ret, w') \<and> ret < 0)"
    (is "?l \<longleftrightarrow> ?r")
proof
  assume ?r
  then show ?l by (auto simp: phase_runs)
next
  show "?l \<Longrightarrow> ?r"
  proof (induction f ms w rule: phase_loop.induct)
    case (2 f m ms w)
    show ?case
    proof (cases "f m")
      case None
      then obtain ms1 m' ms2 w1 g ret where "ms = ms1 @ m' # ms2" "runs f ms1 w w1" "f m' = Some g" "g w1 = Ret (ret, w')" "ret < 0"
        using 2 by auto
      then show ?thesis using None by (metis append_Cons runs.skip)
    next
      case (Some g)
      obtain ret w0 where g: "g w = Ret (ret, w0)" using 2(3) Some by (auto simp: lbind_eq_Ret)
      show ?thesis
      proof (cases "ret < 0")
        case True
        then have "m # ms = [] @ m # ms" "runs f [] w w" "g w = Ret (ret, w')" using 2(3) Some g by (simp_all add: runs.none)
        then show ?thesis using True Some by blast
      next
        case False
        then have "phase_loop f ms w0 = Ret (-1, w')" using 2(3) Some g by simp
        then obtain ms1 m' ms2 w1 g' ret' where r: "ms = ms1 @ m' # ms2" "runs f ms1 w0 w1" "f m' = Some g'" "g' w1 = Ret (ret', w')" "ret' < 0"
          using 2(2) [OF Some False] by blast
        have "runs f (m # ms1) w w1" using runs.call [where f = f and g = g, OF Some g _ r(2)] False by simp
        then show ?thesis using r by (metis append_Cons)
      qed
    qed
  qed simp
qed

text \<open>
  The program itself: with two objects it prints its ten lines and returns 0, and the node that
  module a hands to its list is not in it; without memory for the list it ends with status 1; and
  without memory for the node it writes through a null pointer.
\<close>

theorem modules_run:
  "fr_main (all_mods d) (start_world [Ptr a, Ptr b]) = Ret (0, w) \<Longrightarrow>
    printed w = map (\<lambda>t. t @ [NEWLINE]) [''dep init'', ''mod a init'', ''list new'', ''mod b init'', ''dep run'', ''mod_a_stat = '' @ d 1,
      ''list add'', ''mod b run'', ''mod_b_stat = '' @ d (-1)] @ [''dep exit''] \<and> nodes w b = Some ''mod_a_stat'' \<and>
    lists w a = Some \<lparr>lt_head = Null, lt_tail = Null, lt_len = 0\<rparr>"
  "\<exists>w. fr_main (all_mods d) (start_world [Ptr a, Ptr b]) = Ret (0, w)"
  "\<exists>w. fr_main (all_mods d) (start_world [Null, Ptr b]) = Ret (1, w) \<and>
    printed w = map (\<lambda>t. t @ [NEWLINE]) [''dep init'', ''mod a init'', ''list new'', ''deal error'']"
  "fr_main (all_mods d) (start_world [Ptr a, Null]) = Fault"
  by (auto simp: fr_main_def load_all_mods_def run_all_mods_def exit_all_mods_def dep_init_def dep_run_def dep_exit_def all_mods_def
    mod_a_def mod_b_def mod_a_init_def mod_a_run_def mod_b_init_def mod_b_run_def mod_list_new_def mod_list_add_def mod_malloc_def printf_def println_def
    start_world_def Let_def)

end
