(* ===== verification/Gs_Server.thy ===== *)
theory Gs_Server
  imports Xy_Server
begin

section \<open>libevent_test: the polling game server\<close>

text \<open>
  \<open>cs/libevent_test/game_server.cpp\<close>, from which the server of \<open>my_xy3\<close> grew: once a second
  \<open>process\<close> polls the listening socket and every client and queues events.  The kernel is a record
  of functions on a world.  A function of type \<open>lres option\<close> is \<open>None\<close> when it does not end.  The
  fields of an event that are not written have no value.
\<close>

record 'w gs_kernel =
  gk_time :: "'w \<Rightarrow> int \<times> 'w"
  gk_socket :: "'w \<Rightarrow> int \<times> 'w"
  gk_reuse :: "int \<Rightarrow> 'w \<Rightarrow> int \<times> 'w"
  gk_nonblock :: "int \<Rightarrow> 'w \<Rightarrow> int \<times> 'w"
  gk_bind :: "int \<Rightarrow> 'w \<Rightarrow> int \<times> 'w"
  gk_listen :: "int \<Rightarrow> 'w \<Rightarrow> int \<times> 'w"
  gk_accept :: "int \<Rightarrow> 'w \<Rightarrow> int \<times> 'w"
  gk_recv :: "int \<Rightarrow> 'w \<Rightarrow> int \<times> 'w"
  gk_send :: "int \<Rightarrow> byte list \<Rightarrow> 'w \<Rightarrow> 'w"
  gk_close :: "int \<Rightarrow> 'w \<Rightarrow> 'w"

record gs_client =
  gc_sock :: int
  gc_active :: int

record gs_event =
  ge_event :: "int option"
  ge_hid :: "int option"

definition NET_node :: "int \<Rightarrow> int \<Rightarrow> gs_event" where
  "NET_node kind hid = \<lparr>ge_event = Some kind, ge_hid = Some hid\<rparr>"

record 'w gs_server =
  gs_listensock :: int
  gs_clients :: "gs_client list"
  gs_queue :: "gs_event list"
  gs_count :: int
  gs_timeslap :: int
  gs_period :: int
  gs_world :: 'w

definition gs_setNoBlocking :: "'w gs_kernel \<Rightarrow> int \<Rightarrow> 'w \<Rightarrow> 'w lres" where
  "gs_setNoBlocking K fd w = (let (r, w) = gk_nonblock K fd w in if r = -1 then Raise else Ret w)"

text \<open>The times of the clients have no value at first; they are read only where a socket is set.\<close>

definition new_gs_server :: "'w gs_kernel \<Rightarrow> int \<Rightarrow> 'w \<Rightarrow> 'w gs_server lres" where
  "new_gs_server K junk w =
     (let (t, w) = gk_time K w; (fd, w) = gk_socket K w in
      if fd = -1 then Raise
      else let (r, w) = gk_reuse K fd w in
      if r < 0 then Raise
      else lbind (gs_setNoBlocking K fd w) (\<lambda>w.
        Ret \<lparr>gs_listensock = fd, gs_clients = replicate 1024 \<lparr>gc_sock = -1, gc_active = junk\<rparr>, gs_queue = [],
             gs_count = 0, gs_timeslap = to_int (t * 1000), gs_period = 1000, gs_world = w\<rparr>))"

definition gs_startUp :: "'w gs_kernel \<Rightarrow> 'w gs_server \<Rightarrow> 'w gs_server lres" where
  "gs_startUp K s =
     (let (r, w) = gk_bind K (gs_listensock s) (gs_world s) in
      if r = -1 then Raise
      else let (r, w) = gk_listen K (gs_listensock s) w in
      if r = -1 then Raise else Ret (s\<lparr>gs_world := w\<rparr>))"

subsection \<open>A call of process\<close>

fun gs_free_slot :: "gs_client list \<Rightarrow> nat option" where
  "gs_free_slot [] = None"
| "gs_free_slot (c # cs) = (if gc_sock c = -1 then Some 0 else map_option Suc (gs_free_slot cs))"

definition gs_accept :: "'w gs_kernel \<Rightarrow> int \<Rightarrow> 'w gs_server \<Rightarrow> 'w gs_server lres" where
  "gs_accept K now s =
     (let (fd, w) = gk_accept K (gs_listensock s) (gs_world s) in
      if fd < 0 then Ret (s\<lparr>gs_world := w\<rparr>)
      else lbind (gs_setNoBlocking K fd w) (\<lambda>w.
        if gs_count s > 1024 then Ret (s\<lparr>gs_world := gk_close K fd w\<rparr>)
        else case gs_free_slot (gs_clients s) of
            None \<Rightarrow> Ret (s\<lparr>gs_world := gk_close K fd w\<rparr>)
          | Some pos \<Rightarrow> Ret (s\<lparr>gs_world := w, gs_clients := (gs_clients s)[pos := \<lparr>gc_sock = fd, gc_active = now\<rparr>],
                gs_count := gs_count s + 1, gs_queue := gs_queue s @ [NET_node NET_NEW (int pos)]\<rparr>)))"

text \<open>The inner loop: every answer but 0 queues an event that nothing is written to, errors too.\<close>

partial_function (option) gs_recv_loop ::
  "'w gs_kernel \<Rightarrow> int \<Rightarrow> int \<Rightarrow> 'w \<Rightarrow> int \<Rightarrow> gs_event list \<Rightarrow> ('w \<times> int \<times> gs_event list) option" where
  "gs_recv_loop K now fd w act q =
     (let (nread, w) = gk_recv K fd w in
      if nread = 0 then Some (w, act, q)
      else gs_recv_loop K now fd w now (q @ [\<lparr>ge_event = None, ge_hid = None\<rparr>]))"

fun gs_clients_loop :: "'w gs_kernel \<Rightarrow> int \<Rightarrow> nat list \<Rightarrow> 'w gs_server \<Rightarrow> 'w gs_server lres option" where
  "gs_clients_loop K now [] s = Some (Ret s)"
| "gs_clients_loop K now (i # is) s =
     (case nth_opt (gs_clients s) i of None \<Rightarrow> Some Fault
      | Some c \<Rightarrow>
        if gc_sock c = -1 then gs_clients_loop K now is s
        else Option.bind (gs_recv_loop K now (gc_sock c) (gs_world s) (gc_active c) (gs_queue s)) (\<lambda>(w, act, q).
          let s = s\<lparr>gs_world := w, gs_queue := q, gs_clients := (gs_clients s)[i := c\<lparr>gc_active := act\<rparr>]\<rparr>;
              s = (if now - act > 70
                   then s\<lparr>gs_clients := (gs_clients s)[i := \<lparr>gc_sock = -1, gc_active = act\<rparr>],
                          gs_queue := gs_queue s @ [NET_node NET_LEAVE (int i)]\<rparr>
                   else s) in
          gs_clients_loop K now is s))"

partial_function (option) gs_timer_loop :: "int \<Rightarrow> int \<Rightarrow> int \<Rightarrow> gs_event list \<Rightarrow> (int \<times> gs_event list) option" where
  "gs_timer_loop now period slap q =
     (if slap < now
      then Option.bind (cint (slap + period)) (\<lambda>t. gs_timer_loop now period t (q @ [NET_node NET_TIMER 0]))
      else Some (slap, q))"

definition gs_process :: "'w gs_kernel \<Rightarrow> 'w gs_server \<Rightarrow> 'w gs_server lres option" where
  "gs_process K s =
     (let (now, w) = gk_time K (gs_world s) in
      obind (Some (gs_accept K now (s\<lparr>gs_world := w\<rparr>))) (\<lambda>s.
      obind (gs_clients_loop K now [0 ..< 1024] s) (\<lambda>s.
      let (t, w) = gk_time K (gs_world s);
          ms = t * 1000;
          slap = (if ms - gs_timeslap s > 100000 then to_int ms else gs_timeslap s) in
      Some (fetch (gs_timer_loop ms (gs_period s) slap (gs_queue s)) (\<lambda>(t, q).
        Ret (s\<lparr>gs_world := w, gs_timeslap := t, gs_queue := q\<rparr>))))))"

definition gs_doSend :: "'w gs_kernel \<Rightarrow> int \<Rightarrow> byte list \<Rightarrow> 'w gs_server \<Rightarrow> (int option \<times> 'w gs_server) lres" where
  "gs_doSend K hid data s =
     (if hid < 0 \<or> hid > 1024 then Ret (Some (-1), s)
      else fetch (nth_opt (gs_clients s) (nat hid)) (\<lambda>c.
        Ret (None, s\<lparr>gs_world := gk_send K (gc_sock c) data (gs_world s)\<rparr>)))"

definition gs_doRead :: "'w gs_server \<Rightarrow> gs_event \<times> 'w gs_server" where
  "gs_doRead s = (case gs_queue s of [] \<Rightarrow> (NET_node (-1) (-1), s) | e # q \<Rightarrow> (e, s\<lparr>gs_queue := q\<rparr>))"

subsection \<open>What goes wrong\<close>

text \<open>A client that is connected and silent: \<open>recv\<close> on its non-blocking socket never returns 0.\<close>

lemma silent_client_spins:
  assumes "\<forall>w. fst (gk_recv K fd w) \<noteq> 0"
  shows "gs_recv_loop K now fd w act q = None"
proof (rule ccontr)
  assume "gs_recv_loop K now fd w act q \<noteq> None"
  then obtain r where r: "gs_recv_loop K now fd w act q = Some r" by auto
  have "\<not> (\<forall>w. fst (gk_recv K fd w) \<noteq> 0)"
    by (rule gs_recv_loop.raw_induct [where P = "\<lambda>K now fd w act q r. \<not> (\<forall>w. fst (gk_recv K fd w) \<noteq> 0)", OF _ r])
      (auto split: if_splits prod.splits, metis fst_conv)
  then show False using assms by simp
qed

theorem silent_client_blocks:
  assumes "i < length (gs_clients s)" "gc_sock (gs_clients s ! i) = fd" "fd \<noteq> -1" "\<forall>w. fst (gk_recv K fd w) \<noteq> 0"
    "\<forall>j < i. gc_sock (gs_clients s ! j) = -1" "j \<le> i" "i < m"
  shows "gs_clients_loop K now [j ..< m] s = None"
  using assms(6)
proof (induction "i - j" arbitrary: j)
  case 0
  then have "[j ..< m] = i # [Suc i ..< m]" using assms(7) by (simp add: upt_conv_Cons)
  then show ?case using assms(1-4) by (simp add: nth_opt_def silent_client_spins)
next
  case (Suc d)
  then have "[j ..< m] = j # [Suc j ..< m]" "j < i" using assms(7) by (simp_all add: upt_conv_Cons)
  then show ?case using Suc(1) [of "Suc j"] Suc(2) assms(1, 5) by (simp add: nth_opt_def)
qed

text \<open>
  Since January 1970 the time in milliseconds does not fit into \<open>_timeslap\<close>: no call of \<open>process\<close>
  returns, with or without clients.
\<close>

lemma gs_timer_overflow:
  assumes "2 ^ 31 \<le> now" "slap < 2 ^ 31"
  shows "gs_timer_loop now period slap q = None"
proof (rule ccontr)
  assume "gs_timer_loop now period slap q \<noteq> None"
  then obtain r where r: "gs_timer_loop now period slap q = Some r" by auto
  have "2 ^ 31 \<le> now \<longrightarrow> \<not> slap < 2 ^ 31"
    by (rule gs_timer_loop.raw_induct [where P = "\<lambda>now period slap q r. 2 ^ 31 \<le> now \<longrightarrow> \<not> slap < 2 ^ 31", OF _ r])
      (fastforce simp: cint_def split: if_splits bind_splits)
  then show False using assms by simp
qed

lemma gs_accept_timeslap: "gs_accept K now s = Ret s' \<Longrightarrow> gs_timeslap s' = gs_timeslap s"
  by (auto simp: gs_accept_def lbind_eq_Ret Let_def split: prod.splits if_splits option.splits)

lemma gs_clients_timeslap: "gs_clients_loop K now is s = Some (Ret s') \<Longrightarrow> gs_timeslap s' = gs_timeslap s"
proof (induction "is" arbitrary: s)
  case (Cons i "is")
  then show ?case by (fastforce simp: Let_def split: option.splits if_splits bind_splits prod.splits)
qed simp

theorem gs_process_never_returns:
  assumes "\<forall>w. 2 ^ 31 \<le> fst (gk_time K w) * 1000" "gs_timeslap s < 2 ^ 31"
  shows "gs_process K s \<noteq> Some (Ret t)"
proof
  assume run: "gs_process K s = Some (Ret t)"
  obtain now w where kt: "gk_time K (gs_world s) = (now, w)" by fastforce
  obtain s2 s3 where s: "gs_accept K now (s\<lparr>gs_world := w\<rparr>) = Ret s2" "gs_clients_loop K now [0 ..< 1024] s2 = Some (Ret s3)"
    and last: "(let (t, w) = gk_time K (gs_world s3); ms = t * 1000;
          slap = (if ms - gs_timeslap s3 > 100000 then to_int ms else gs_timeslap s3) in
      Some (fetch (gs_timer_loop ms (gs_period s3) slap (gs_queue s3)) (\<lambda>(t, q).
        Ret (s3\<lparr>gs_world := w, gs_timeslap := t, gs_queue := q\<rparr>)))) = Some (Ret t)"
    using run kt by (auto simp: gs_process_def obind_Ret simp del: upt_rec_numeral)
  have slap: "gs_timeslap s3 < 2 ^ 31" using gs_accept_timeslap [OF s(1)] gs_clients_timeslap [OF s(2)] assms(2) by simp
  obtain u w1 where ku: "gk_time K (gs_world s3) = (u, w1)" by fastforce
  then have ms: "2 ^ 31 \<le> u * 1000" using assms(1) by (metis fst_conv)
  have "to_int x < 2 ^ 31" for x unfolding to_int_def by (rule signed_take_bit_int_less_exp)
  then have "(if u * 1000 - gs_timeslap s3 > 100000 then to_int (u * 1000) else gs_timeslap s3) < 2 ^ 31" using slap by simp
  from gs_timer_overflow [OF ms this] last ku show False by (simp add: Let_def)
qed

end
